(* ===== verification/Prelude.thy ===== *)
theory Prelude
  imports Main "HOL-Library.Finite_Map" "HOL-Library.Char_ord"
begin

text \<open>
  What every component shares.  A Go map is a finite map \<open>fmap\<close>, a nil pointer or a missing
  entry is \<open>None\<close>, a call that may panic returns \<open>panic + 'a\<close>, and a call that returns a Go
  \<open>error\<close> returns \<open>err + 'a\<close>.  Instants are nanoseconds since Go's zero time, so that
  \<open>Time.IsZero\<close> is equality with 0, and durations are integers (nanoseconds).
\<close>

named_theorems outcome_simps \<open>evaluation of the outcome combinators\<close>

type_synonym time = int
type_synonym duration = int

text \<open>A formatted message is its format string with its arguments.\<close>

type_synonym message = "string \<times> string list"
type_synonym err = message

abbreviation (input) nanosecond :: duration where "nanosecond \<equiv> 1"
definition millisecond :: duration where "millisecond = 1000000"
definition second :: duration where "second = 1000000000"
definition hour :: duration where "hour = 3600 * second"

definition is_zero_time :: "time \<Rightarrow> bool" where
  "is_zero_time t \<longleftrightarrow> t = 0"

text \<open>Sequencing of calls that may fail: the rest runs only on a result.\<close>

definition and_then :: "'e + 'a \<Rightarrow> ('a \<Rightarrow> 'e + 'b) \<Rightarrow> 'e + 'b" where
  "and_then r f = (case r of Inl e \<Rightarrow> Inl e | Inr a \<Rightarrow> f a)"

lemma and_then_simps [simp, outcome_simps]:
  "and_then (Inl e) f = Inl e" "and_then (Inr a) f = f a"
  by (simp_all add: and_then_def)

lemma and_then_Inr_iff:
  "and_then r f = Inr b \<longleftrightarrow> (\<exists>a. r = Inr a \<and> f a = Inr b)"
  by (cases r) simp_all

lemma and_then_Inl_iff:
  "and_then r f = Inl e \<longleftrightarrow> r = Inl e \<or> (\<exists>a. r = Inr a \<and> f a = Inl e)"
  by (cases r) simp_all

lemma and_thenE [elim]:
  assumes "and_then r f = Inr b"
  obtains a where "r = Inr a" and "f a = Inr b"
  using assms by (auto simp: and_then_Inr_iff)

lemma and_then_cong [fundef_cong]:
  "r = r' \<Longrightarrow> (\<And>a. r' = Inr a \<Longrightarrow> f a = g a) \<Longrightarrow> and_then r f = and_then r' g"
  by (cases r') simp_all

text \<open>A loop whose body may fail, over a list, threading a state.\<close>

fun fold_try :: "('x \<Rightarrow> 's \<Rightarrow> 'e + 's) \<Rightarrow> 'x list \<Rightarrow> 's \<Rightarrow> 'e + 's" where
  "fold_try f [] s = Inr s"
| "fold_try f (x # xs) s = and_then (f x s) (fold_try f xs)"

lemma fold_try_append:
  "fold_try f (xs @ ys) s = and_then (fold_try f xs s) (fold_try f ys)"
  by (induction xs arbitrary: s) (auto simp: and_then_def split: sum.splits)

lemma fold_try_inv:
  assumes "fold_try f xs s = Inr s'" and "P s"
    and "\<And>x s s'. x \<in> set xs \<Longrightarrow> P s \<Longrightarrow> f x s = Inr s' \<Longrightarrow> P s'"
  shows "P s'"
  using assms by (induction xs arbitrary: s) (auto simp: and_then_Inr_iff)

text \<open>What holds of the result of a computation that does not fail, by its steps.\<close>

definition on_ok :: "('a \<Rightarrow> bool) \<Rightarrow> 'e + 'a \<Rightarrow> bool" where
  "on_ok P r \<longleftrightarrow> (\<forall>x. r = Inr x \<longrightarrow> P x)"

lemma on_ok_simps [simp]:
  "on_ok P (Inr x) = P x" "on_ok P (Inl e)" "on_ok P (and_then r f) = on_ok (\<lambda>x. on_ok P (f x)) r"
  by (auto simp: on_ok_def and_then_Inr_iff)

lemma on_okI: "(\<And>x. P x) \<Longrightarrow> on_ok P r"
  by (simp add: on_ok_def)

lemma on_okD: "on_ok P r \<Longrightarrow> r = Inr x \<Longrightarrow> P x"
  by (simp add: on_ok_def)

text \<open>Map a partial lookup over a list; the first failure is the result.\<close>

fun map_try :: "('x \<Rightarrow> 'e + 'y) \<Rightarrow> 'x list \<Rightarrow> 'e + 'y list" where
  "map_try f [] = Inr []"
| "map_try f (x # xs) = and_then (f x) (\<lambda>y. and_then (map_try f xs) (\<lambda>ys. Inr (y # ys)))"

lemma map_try_Inr:
  "map_try f xs = Inr ys \<Longrightarrow> length ys = length xs \<and> (\<forall>i < length xs. f (xs ! i) = Inr (ys ! i))"
  by (induction xs arbitrary: ys) (auto simp: and_then_Inr_iff nth_Cons split: nat.splits)

lemma map_try_map: "(\<And>x. x \<in> set xs \<Longrightarrow> f x = Inr (g x)) \<Longrightarrow> map_try f xs = Inr (map g xs)"
  by (induction xs) auto

text \<open>\<open>addOnce\<close> of \<open>task.go\<close>: append unless present.\<close>

definition add_once :: "'a list \<Rightarrow> 'a \<Rightarrow> 'a list" where
  "add_once xs x = (if x \<in> set xs then xs else xs @ [x])"

lemma set_add_once [simp]: "set (add_once xs x) = insert x (set xs)"
  by (auto simp: add_once_def)

lemma distinct_add_once [simp, intro]: "distinct xs \<Longrightarrow> distinct (add_once xs x)"
  by (simp add: add_once_def)

text \<open>\<open>strconv.Itoa\<close> on a counter that is never negative.\<close>

definition digit :: "nat \<Rightarrow> char" where
  "digit d = char_of (48 + d)"

fun itoa :: "nat \<Rightarrow> string" where
  "itoa n = (if n < 10 then [digit n] else itoa (n div 10) @ [digit (n mod 10)])"

declare itoa.simps [simp del]

lemma digit_inj: "a < 10 \<Longrightarrow> b < 10 \<Longrightarrow> digit a = digit b \<Longrightarrow> a = b"
proof -
  assume a: "a < 10" and b: "b < 10" and "digit a = digit b"
  then have "of_char (char_of (48 + a) :: char) = (of_char (char_of (48 + b) :: char) :: nat)"
    by (simp add: digit_def)
  with a b show ?thesis by simp
qed

lemma itoa_ne: "itoa n \<noteq> []"
  by (subst itoa.simps) simp

lemma itoa_inj: "itoa m = itoa n \<Longrightarrow> m = n"
proof (induction m arbitrary: n rule: itoa.induct)
  case (1 m)
  show ?case
  proof (cases "m < 10"; cases "n < 10")
    assume "m < 10" "n < 10"
    with "1.prems" show ?thesis by (simp add: itoa.simps [of m] itoa.simps [of n] digit_inj)
  next
    assume "m < 10" "\<not> n < 10"
    with "1.prems" show ?thesis using itoa_ne [of "n div 10"]
      by (simp add: itoa.simps [of m] itoa.simps [of n])
  next
    assume "\<not> m < 10" "n < 10"
    with "1.prems" show ?thesis using itoa_ne [of "m div 10"]
      by (simp add: itoa.simps [of m] itoa.simps [of n])
  next
    assume m: "\<not> m < 10" and n: "\<not> n < 10"
    with "1.prems" have e: "itoa (m div 10) = itoa (n div 10)" "digit (m mod 10) = digit (n mod 10)"
      by (simp_all add: itoa.simps [of m] itoa.simps [of n])
    from "1.IH" [OF m e(1)] have "m div 10 = n div 10" .
    moreover have "m mod 10 = n mod 10" using e(2) by (intro digit_inj) simp_all
    ultimately show ?thesis by (metis div_mult_mod_eq)
  qed
qed

lemma itoa_eq_iff [simp]: "itoa m = itoa n \<longleftrightarrow> m = n"
  using itoa_inj by blast

text \<open>Decimal digits.\<close>

definition is_digit :: "char \<Rightarrow> bool" where
  "is_digit c \<longleftrightarrow> CHR ''0'' \<le> c \<and> c \<le> CHR ''9''"

definition digit_value :: "char \<Rightarrow> nat" where
  "digit_value c = of_char c - 48"

lemma digit_range: "is_digit c \<Longrightarrow> 48 \<le> (of_char c :: nat) \<and> (of_char c :: nat) \<le> 57"
  by (simp add: is_digit_def less_eq_char_def)

lemma digit_value_mono: "is_digit a \<Longrightarrow> is_digit b \<Longrightarrow> a < b \<Longrightarrow> digit_value a < digit_value b"
  using digit_range [of a] digit_range [of b] by (simp add: digit_value_def less_char_def)

lemma digit_value_le: "is_digit a \<Longrightarrow> digit_value a \<le> 9"
  using digit_range [of a] unfolding digit_value_def by linarith

lemma is_digit_digit: "d < 10 \<Longrightarrow> is_digit (char_of (48 + d)) \<and> digit_value (char_of (48 + d)) = d"
  by (simp add: is_digit_def digit_value_def less_eq_char_def)

lemma itoa_digits: "list_all is_digit (itoa n)"
  by (induction n rule: itoa.induct) (subst itoa.simps, simp add: digit_def is_digit_digit)

text \<open>The keys of a finite map as a finite set, counted.\<close>

definition size_of_map :: "('k, 'v) fmap \<Rightarrow> nat" where
  "size_of_map m = card (fset (fmdom m))"

lemma finite_fset_dom [simp]: "finite (fset (fmdom m))"
  by simp

lemma fmdom_upd_present [simp]:
  "fmlookup m k = Some v \<Longrightarrow> fmdom (fmupd k w m) = fmdom m"
  by (metis finsert_absorb fmdom_fmupd fmdomI)

end
