(* ===== verification/Status.thy ===== *)
theory Status
  imports Prelude
begin

text \<open>
  \<open>internals/overlord/state/change.go\<close>: the status of a change or task, \<open>Ready\<close>, the status
  names, the aggregation order \<open>statusOrder\<close> and the notice filter on status changes.
\<close>

datatype status =
    DefaultStatus | HoldStatus | DoStatus | DoingStatus | DoneStatus | AbortStatus
  | UndoStatus | UndoingStatus | UndoneStatus | ErrorStatus | WaitStatus

fun status_code :: "status \<Rightarrow> nat" where
  "status_code DefaultStatus = 0"
| "status_code HoldStatus = 1"
| "status_code DoStatus = 2"
| "status_code DoingStatus = 3"
| "status_code DoneStatus = 4"
| "status_code AbortStatus = 5"
| "status_code UndoStatus = 6"
| "status_code UndoingStatus = 7"
| "status_code UndoneStatus = 8"
| "status_code ErrorStatus = 9"
| "status_code WaitStatus = 10"

fun status_Ready :: "status \<Rightarrow> bool" where
  "status_Ready DoneStatus = True"
| "status_Ready UndoneStatus = True"
| "status_Ready HoldStatus = True"
| "status_Ready ErrorStatus = True"
| "status_Ready _ = False"

fun status_String :: "status \<Rightarrow> string" where
  "status_String DefaultStatus = ''Default''"
| "status_String DoStatus = ''Do''"
| "status_String DoingStatus = ''Doing''"
| "status_String DoneStatus = ''Done''"
| "status_String WaitStatus = ''Wait''"
| "status_String AbortStatus = ''Abort''"
| "status_String UndoStatus = ''Undo''"
| "status_String UndoingStatus = ''Undoing''"
| "status_String UndoneStatus = ''Undone''"
| "status_String HoldStatus = ''Hold''"
| "status_String ErrorStatus = ''Error''"

definition statusOrder :: "status list" where
  "statusOrder =
     [AbortStatus, UndoingStatus, UndoStatus, DoingStatus, DoStatus, WaitStatus,
      ErrorStatus, UndoneStatus, DoneStatus, HoldStatus]"

definition shouldSkipChangeUpdateNotice :: "status \<Rightarrow> status \<Rightarrow> bool" where
  "shouldSkipChangeUpdateNotice old new \<longleftrightarrow>
     old = new \<or> (old = DoingStatus \<and> new = DoStatus) \<or> (old = UndoingStatus \<and> new = UndoStatus)"

text \<open>The order lists every status but \<open>DefaultStatus\<close>, as \<open>init\<close> of the source checks.\<close>

lemma statusOrder_complete: "set statusOrder = UNIV - {DefaultStatus}"
proof -
  have "s \<in> set statusOrder \<longleftrightarrow> s \<noteq> DefaultStatus" for s
    by (cases s) (simp_all add: statusOrder_def)
  then show ?thesis by auto
qed

lemma statusOrder_distinct: "distinct statusOrder"
  by (simp add: statusOrder_def)

lemma status_Ready_iff:
  "status_Ready s \<longleftrightarrow> s \<in> {DoneStatus, UndoneStatus, HoldStatus, ErrorStatus}"
  by (cases s) simp_all

instantiation status :: linorder
begin
definition less_eq_status :: "status \<Rightarrow> status \<Rightarrow> bool" where
  "less_eq_status a b \<longleftrightarrow> status_code a \<le> status_code b"
definition less_status :: "status \<Rightarrow> status \<Rightarrow> bool" where
  "less_status a b \<longleftrightarrow> status_code a < status_code b"
instance
proof
  fix x y :: status
  show "x \<le> y \<Longrightarrow> y \<le> x \<Longrightarrow> x = y"
    by (cases x; cases y) (simp_all add: less_eq_status_def)
qed (auto simp: less_eq_status_def less_status_def)
end

end
