(* ===== verification/StateCore.thy ===== *)
theory StateCore
  imports Status "HOL-Library.Word"
begin

text \<open>
  The data model of \<open>internals/overlord/state\<close>: tasks (\<open>task.go\<close>), changes (\<open>change.go\<close>),
  notices (\<open>notices.go\<close>) and the state that holds them (\<open>state.go\<close>), with the operations that
  create and look up entries, the custom data and the notices.  A Go pointer to a task or change
  is its id; a \<open>chan struct{}\<close> that is only ever closed is a boolean.  What an operation does to
  the outside (ensure requests, status callbacks, broadcasts) is appended to \<open>events\<close>.
  A formatted message is kept as its format string with its arguments.
\<close>

datatype fault =
    NilDeref
  | BadStatusAggregation
  | BecameUnready string status
  | SetStatusToWait
  | SetToWaitBad
  | NoticeFailed
  | CleanBeforeReady
  | SeveralChanges string
  | RunInStatus status
  | NilHandler status
  | UnknownCleanupKind string
  | OutOfFuel \<comment> \<open>of the model only; the fuel lemmas exclude it\<close>

datatype json =
    JNull | JBool bool | JNum int | JStr string | JArr "json list" | JObj "(string \<times> json) list"

type_synonym custom_data = "(string, json) fmap"

record task =
  task_id :: string
  task_kind :: string
  task_summary :: string
  task_status :: status
  waited_status :: status
  task_clean :: bool
  task_progress :: "(string \<times> int \<times> int) option"
  task_data :: custom_data
  wait_tasks :: "string list"
  halt_tasks :: "string list"
  task_lanes :: "int list"
  task_log :: "(time \<times> string \<times> message) list"
  task_change :: string
  task_spawn_time :: time
  task_ready_time :: time
  doing_time :: duration
  undoing_time :: duration
  at_time :: time

record change =
  chg_id :: string
  chg_kind :: string
  chg_summary :: string
  chg_status :: status
  chg_clean :: bool
  chg_data :: custom_data
  chg_tasks :: "string list"
  chg_ready :: bool
  last_observed :: status
  last_recorded :: status
  chg_spawn_time :: time
  chg_ready_time :: time

record notice =
  ntc_id :: string
  ntc_user :: "32 word option"
  ntc_type :: string
  ntc_key :: string
  first_occurred :: time
  last_occurred :: time
  last_repeated :: time
  occurrences :: int
  last_data :: "(string, string) fmap"
  repeat_after :: duration
  expire_after :: duration

type_synonym notice_key = "bool \<times> 32 word \<times> string \<times> string"

datatype event =
    EnsureBefore duration
  | TaskStatusChanged string status status
  | ChangeStatusChanged string status status
  | NoticeBroadcast
  | TaskErrorReported string

record st =
  last_task_id :: nat
  last_change_id :: nat
  last_lane_id :: nat
  last_notice_id :: nat
  st_data :: custom_data
  changes :: "(string, change) fmap"
  tasks :: "(string, task) fmap"
  notices :: "(notice_key, notice) fmap"
  latest_warning_time :: time
  modified :: bool
  events :: "event list"

text \<open>\<open>New\<close> of \<open>state.go\<close>.\<close>

definition empty_state :: st where
  "empty_state =
     \<lparr>last_task_id = 0, last_change_id = 0, last_lane_id = 0, last_notice_id = 0,
      st_data = fmempty, changes = fmempty, tasks = fmempty, notices = fmempty,
      latest_warning_time = 0, modified = True, events = []\<rparr>"

subsection \<open>Custom data\<close>

definition data_get :: "custom_data \<Rightarrow> string \<Rightarrow> json option" where
  "data_get d k = fmlookup d k"

definition data_has :: "custom_data \<Rightarrow> string \<Rightarrow> bool" where
  "data_has d k \<longleftrightarrow> fmlookup d k \<noteq> None"

definition data_set :: "string \<Rightarrow> json option \<Rightarrow> custom_data \<Rightarrow> custom_data" where
  "data_set k v d = (case v of None \<Rightarrow> fmdrop k d | Some j \<Rightarrow> fmupd k j d)"

lemma data_get_set: "data_get (data_set k v d) k' = (if k' = k then v else data_get d k')"
  by (simp add: data_get_def data_set_def split: option.splits)

text \<open>Unmarshalling a stored entry into a Go \<open>map[string]string\<close>; \<open>None\<close> is the error.\<close>

fun string_entry :: "json \<Rightarrow> string option" where
  "string_entry (JStr s) = Some s"
| "string_entry JNull = Some []"
| "string_entry _ = None"

fun string_entries :: "(string \<times> json) list \<Rightarrow> (string, string) fmap \<Rightarrow> (string, string) fmap option" where
  "string_entries [] m = Some m"
| "string_entries ((k, v) # kvs) m =
     (case string_entry v of None \<Rightarrow> None | Some s \<Rightarrow> string_entries kvs (fmupd k s m))"

fun string_map :: "json \<Rightarrow> (string, string) fmap option" where
  "string_map JNull = Some fmempty"
| "string_map (JObj kvs) = string_entries kvs fmempty"
| "string_map _ = None"

subsection \<open>Access to tasks and changes\<close>

definition need_task :: "st \<Rightarrow> string \<Rightarrow> fault + task" where
  "need_task s tid = (case fmlookup (tasks s) tid of None \<Rightarrow> Inl NilDeref | Some t \<Rightarrow> Inr t)"

definition need_change :: "st \<Rightarrow> string \<Rightarrow> fault + change" where
  "need_change s cid = (case fmlookup (changes s) cid of None \<Rightarrow> Inl NilDeref | Some c \<Rightarrow> Inr c)"

lemma need_task_Inr [simp]: "need_task s tid = Inr t \<longleftrightarrow> fmlookup (tasks s) tid = Some t"
  by (simp add: need_task_def split: option.splits)

lemma need_change_Inr [simp]: "need_change s cid = Inr c \<longleftrightarrow> fmlookup (changes s) cid = Some c"
  by (simp add: need_change_def split: option.splits)

lemma need_task_eq [simp]: "fmlookup (tasks s) tid = Some t \<Longrightarrow> need_task s tid = Inr t"
  by simp

lemma need_change_eq [simp]: "fmlookup (changes s) cid = Some c \<Longrightarrow> need_change s cid = Inr c"
  by simp

definition put_task :: "string \<Rightarrow> task \<Rightarrow> st \<Rightarrow> st" where
  "put_task tid t s = s\<lparr>tasks := fmupd tid t (tasks s), modified := True\<rparr>"

definition put_change :: "string \<Rightarrow> change \<Rightarrow> st \<Rightarrow> st" where
  "put_change cid c s = s\<lparr>changes := fmupd cid c (changes s), modified := True\<rparr>"

definition emit :: "event \<Rightarrow> st \<Rightarrow> st" where
  "emit e s = s\<lparr>events := events s @ [e]\<rparr>"

lemma put_task_simps [simp]:
  "tasks (put_task tid t s) = fmupd tid t (tasks s)" "changes (put_task tid t s) = changes s"
  "notices (put_task tid t s) = notices s" "events (put_task tid t s) = events s"
  "last_notice_id (put_task tid t s) = last_notice_id s"
  by (simp_all add: put_task_def)

lemma put_change_simps [simp]:
  "changes (put_change cid c s) = fmupd cid c (changes s)" "tasks (put_change cid c s) = tasks s"
  "notices (put_change cid c s) = notices s" "events (put_change cid c s) = events s"
  "last_notice_id (put_change cid c s) = last_notice_id s"
  by (simp_all add: put_change_def)

lemma emit_simps [simp]:
  "changes (emit e s) = changes s" "tasks (emit e s) = tasks s" "notices (emit e s) = notices s"
  "events (emit e s) = events s @ [e]" "last_notice_id (emit e s) = last_notice_id s"
  by (simp_all add: emit_def)

text \<open>\<open>Task.Status\<close>, \<open>Task.Lanes\<close>, \<open>Task.Change\<close>.\<close>

definition task_Status :: "task \<Rightarrow> status" where
  "task_Status t = (if task_status t = DefaultStatus then DoStatus else task_status t)"

definition task_Lanes :: "task \<Rightarrow> int list" where
  "task_Lanes t = (if task_lanes t = [] then [0] else task_lanes t)"

definition task_Change :: "st \<Rightarrow> task \<Rightarrow> change option" where
  "task_Change s t = fmlookup (changes s) (task_change t)"

lemma task_Status_not_default [simp]: "task_Status t \<noteq> DefaultStatus"
  by (simp add: task_Status_def)

lemma task_Status_Ready: "status_Ready (task_Status t) = status_Ready (task_status t)"
  by (simp add: task_Status_def)

lemma task_Lanes_ne [simp]: "task_Lanes t \<noteq> []"
  by (simp add: task_Lanes_def)

subsection \<open>Notices\<close>

definition ChangeUpdateNotice :: string where "ChangeUpdateNotice = ''change-update''"
definition CustomNotice :: string where "CustomNotice = ''custom''"
definition WarningNotice :: string where "WarningNotice = ''warning''"

definition notice_type_Valid :: "string \<Rightarrow> bool" where
  "notice_type_Valid t \<longleftrightarrow> t = ChangeUpdateNotice \<or> t = CustomNotice \<or> t = WarningNotice"

definition defaultNoticeExpireAfter :: duration where "defaultNoticeExpireAfter = 7 * 24 * hour"
definition warningRepeatAfter :: duration where "warningRepeatAfter = 24 * hour"

fun flattenUserID :: "32 word option \<Rightarrow> 32 word \<times> bool" where
  "flattenUserID None = (0, False)"
| "flattenUserID (Some u) = (u, True)"

definition unique_key :: "32 word option \<Rightarrow> string \<Rightarrow> string \<Rightarrow> notice_key" where
  "unique_key u ty k = (snd (flattenUserID u), fst (flattenUserID u), ty, k)"

lemma unique_key_inj: "unique_key u ty k = unique_key u' ty' k' \<longleftrightarrow> u = u' \<and> ty = ty' \<and> k = k'"
  by (cases u; cases u') (auto simp: unique_key_def)

definition notice_expired :: "time \<Rightarrow> notice \<Rightarrow> bool" where
  "notice_expired now n \<longleftrightarrow> last_occurred n + expire_after n < now"

definition validateNotice :: "string \<Rightarrow> string \<Rightarrow> err option" where
  "validateNotice ty k =
     (if \<not> notice_type_Valid ty then
        Some (''internal error: attempted to add notice with invalid type %q'', [ty])
      else if k = [] then
        Some (''internal error: attempted to add %s notice with invalid key %q'', [ty, k])
      else None)"

record notice_opts =
  opt_data :: "(string, string) fmap"
  opt_repeat_after :: duration
  opt_time :: time

definition AddNotice ::
  "time \<Rightarrow> 32 word option \<Rightarrow> string \<Rightarrow> string \<Rightarrow> notice_opts option \<Rightarrow> st \<Rightarrow> err + (string \<times> st)" where
  "AddNotice clock user ty k opts s =
     (let o' = (case opts of None \<Rightarrow> \<lparr>opt_data = fmempty, opt_repeat_after = 0, opt_time = 0\<rparr>
                | Some o1 \<Rightarrow> o1) in
      case validateNotice ty k of
        Some e \<Rightarrow> Inl e
      | None \<Rightarrow>
          (let now = (if is_zero_time (opt_time o') then clock else opt_time o');
               uk = unique_key user ty k;
               (n, nid, fresh) =
                 (case fmlookup (notices s) uk of
                    None \<Rightarrow>
                      (\<lparr>ntc_id = itoa (Suc (last_notice_id s)), ntc_user = user, ntc_type = ty,
                        ntc_key = k, first_occurred = now, last_occurred = 0, last_repeated = now,
                        occurrences = 1, last_data = fmempty, repeat_after = 0,
                        expire_after = defaultNoticeExpireAfter\<rparr>,
                       Suc (last_notice_id s), True)
                  | Some n0 \<Rightarrow>
                      (let rep = opt_repeat_after o' = 0 \<or>
                                 last_repeated n0 + opt_repeat_after o' < now in
                       (n0\<lparr>occurrences := occurrences n0 + 1,
                           last_repeated := (if rep then now else last_repeated n0)\<rparr>,
                        last_notice_id s, rep)));
               n' = n\<lparr>last_occurred := now, last_data := opt_data o',
                      repeat_after := opt_repeat_after o'\<rparr>;
               s' = s\<lparr>notices := fmupd uk n' (notices s), last_notice_id := nid, modified := True,
                      latest_warning_time :=
                        (if ntc_type n' = WarningNotice \<and> latest_warning_time s < last_repeated n'
                         then last_repeated n' else latest_warning_time s)\<rparr>
           in Inr (ntc_id n', if fresh then emit NoticeBroadcast s' else s')))"

text \<open>\<open>Change.addNotice\<close>; the panic is its callers'.\<close>

definition notice_data_of :: "change \<Rightarrow> (string, string) fmap option" where
  "notice_data_of c =
     (let base = fmupd ''kind'' (chg_kind c) fmempty in
      case data_get (chg_data c) ''notice-data'' of
        None \<Rightarrow> Some base
      | Some j \<Rightarrow> map_option (\<lambda>extra. base ++\<^sub>f extra) (string_map j))"

definition change_addNotice :: "time \<Rightarrow> string \<Rightarrow> st \<Rightarrow> fault + st" where
  "change_addNotice clock cid s =
     and_then (need_change s cid) (\<lambda>c.
       (case notice_data_of c of
          None \<Rightarrow> Inl NoticeFailed
        | Some d \<Rightarrow>
            (case AddNotice clock None ChangeUpdateNotice (chg_id c)
                    (Some \<lparr>opt_data = d, opt_repeat_after = 0, opt_time = 0\<rparr>) s of
               Inl e \<Rightarrow> Inl NoticeFailed
             | Inr (i, s') \<Rightarrow> Inr s')))"

lemma AddNotice_frame:
  assumes "AddNotice clock user ty k opts s = Inr (i, s')"
  shows "tasks s' = tasks s" "changes s' = changes s" "st_data s' = st_data s"
    "last_task_id s' = last_task_id s" "last_change_id s' = last_change_id s"
  using assms
  by (auto simp: AddNotice_def Let_def emit_def split: option.splits if_splits prod.splits)

lemma change_addNoticeE:
  assumes "change_addNotice clock cid s = Inr s'"
  obtains c d i where "fmlookup (changes s) cid = Some c" "notice_data_of c = Some d"
    "AddNotice clock None ChangeUpdateNotice (chg_id c)
       (Some \<lparr>opt_data = d, opt_repeat_after = 0, opt_time = 0\<rparr>) s = Inr (i, s')"
proof -
  from assms obtain c where c: "fmlookup (changes s) cid = Some c"
    by (auto simp: change_addNotice_def and_then_Inr_iff)
  with assms obtain d where d: "notice_data_of c = Some d"
    by (cases "notice_data_of c") (auto simp: change_addNotice_def need_change_def)
  let ?r = "AddNotice clock None ChangeUpdateNotice (chg_id c)
       (Some \<lparr>opt_data = d, opt_repeat_after = 0, opt_time = 0\<rparr>) s"
  from assms c d obtain i where "?r = Inr (i, s')"
    by (cases ?r) (auto simp: change_addNotice_def need_change_def)
  with c d that show thesis by blast
qed

lemma change_addNotice_frame:
  assumes "change_addNotice clock cid s = Inr s'"
  shows "tasks s' = tasks s" "changes s' = changes s"
  using assms by (auto elim!: change_addNoticeE simp: AddNotice_frame)

text \<open>
  The notice of a change is recorded whenever the change exists, its id is not empty and its
  stored notice data is readable.
\<close>

lemma AddNotice_valid:
  "notice_type_Valid ty \<Longrightarrow> k \<noteq> [] \<Longrightarrow> \<exists>r. AddNotice clock user ty k opts s = Inr r"
  by (auto simp: AddNotice_def validateNotice_def Let_def split: prod.splits)

lemma change_addNotice_ok:
  assumes "fmlookup (changes s) cid = Some c" "notice_data_of c \<noteq> None" "chg_id c \<noteq> []"
  shows "\<exists>s'. change_addNotice clock cid s = Inr s'"
proof -
  from assms(2) obtain d where d: "notice_data_of c = Some d" by blast
  obtain i s' where "AddNotice clock None ChangeUpdateNotice (chg_id c)
       (Some \<lparr>opt_data = d, opt_repeat_after = 0, opt_time = 0\<rparr>) s = Inr (i, s')"
    using AddNotice_valid [of ChangeUpdateNotice "chg_id c"] assms(3)
    by (fastforce simp: notice_type_Valid_def)
  with d assms(1) show ?thesis by (simp add: change_addNotice_def need_change_def)
qed

subsection \<open>Creation\<close>

definition newTask :: "time \<Rightarrow> string \<Rightarrow> string \<Rightarrow> string \<Rightarrow> task" where
  "newTask now tid kind summary =
     \<lparr>task_id = tid, task_kind = kind, task_summary = summary, task_status = DefaultStatus,
      waited_status = DefaultStatus, task_clean = False, task_progress = None,
      task_data = fmempty, wait_tasks = [], halt_tasks = [], task_lanes = [], task_log = [],
      task_change = [], task_spawn_time = now, task_ready_time = 0, doing_time = 0,
      undoing_time = 0, at_time = 0\<rparr>"

definition newChange :: "time \<Rightarrow> string \<Rightarrow> string \<Rightarrow> string \<Rightarrow> change" where
  "newChange now cid kind summary =
     \<lparr>chg_id = cid, chg_kind = kind, chg_summary = summary, chg_status = DefaultStatus,
      chg_clean = False, chg_data = fmempty, chg_tasks = [], chg_ready = False,
      last_observed = DefaultStatus, last_recorded = DefaultStatus, chg_spawn_time = now,
      chg_ready_time = 0\<rparr>"

definition NewTask :: "time \<Rightarrow> string \<Rightarrow> string \<Rightarrow> st \<Rightarrow> string \<times> st" where
  "NewTask now kind summary s =
     (let n = Suc (last_task_id s); tid = itoa n in
      (tid, put_task tid (newTask now tid kind summary) (s\<lparr>last_task_id := n\<rparr>)))"

definition NewChangeWithNoticeData ::
  "time \<Rightarrow> string \<Rightarrow> string \<Rightarrow> (string \<times> string) list \<Rightarrow> st \<Rightarrow> fault + (string \<times> st)" where
  "NewChangeWithNoticeData now kind summary nd s =
     (let n = Suc (last_change_id s); cid = itoa n; c = newChange now cid kind summary;
          c' = (if nd \<noteq> [] then
                  c\<lparr>chg_data := data_set ''notice-data''
                      (Some (JObj (map (\<lambda>(k, v). (k, JStr v)) nd))) (chg_data c)\<rparr>
                else c)
      in and_then (change_addNotice now cid (put_change cid c' (s\<lparr>last_change_id := n\<rparr>)))
           (\<lambda>s'. Inr (cid, s')))"

definition NewChange :: "time \<Rightarrow> string \<Rightarrow> string \<Rightarrow> st \<Rightarrow> fault + (string \<times> st)" where
  "NewChange now kind summary s = NewChangeWithNoticeData now kind summary [] s"

definition NewLane :: "st \<Rightarrow> int \<times> st" where
  "NewLane s = (int (Suc (last_lane_id s)),
                s\<lparr>last_lane_id := Suc (last_lane_id s), modified := True\<rparr>)"

text \<open>\<open>Change.AddTask\<close>, \<open>Task.WaitFor\<close>, \<open>Task.JoinLane\<close>, \<open>State.Task\<close>, \<open>State.EnsureBefore\<close>.\<close>

definition AddTask :: "string \<Rightarrow> string \<Rightarrow> st \<Rightarrow> fault + st" where
  "AddTask cid tid s =
     and_then (need_change s cid) (\<lambda>c. and_then (need_task s tid) (\<lambda>t.
       if task_change t \<noteq> [] then Inl (SeveralChanges (task_kind t))
       else Inr (put_change cid (c\<lparr>chg_tasks := add_once (chg_tasks c) (task_id t)\<rparr>)
                   (put_task tid (t\<lparr>task_change := chg_id c\<rparr>) s))))"

definition WaitFor :: "string \<Rightarrow> string \<Rightarrow> st \<Rightarrow> fault + st" where
  "WaitFor tid another s =
     and_then (need_task s tid) (\<lambda>t.
       (let s1 = put_task tid (t\<lparr>wait_tasks := add_once (wait_tasks t) another\<rparr>) s in
        and_then (need_task s1 another) (\<lambda>a.
          Inr (put_task another (a\<lparr>halt_tasks := add_once (halt_tasks a) tid\<rparr>) s1))))"

definition JoinLane :: "string \<Rightarrow> int \<Rightarrow> st \<Rightarrow> fault + st" where
  "JoinLane tid lane s =
     and_then (need_task s tid) (\<lambda>t. Inr (put_task tid (t\<lparr>task_lanes := task_lanes t @ [lane]\<rparr>) s))"

definition state_Task :: "st \<Rightarrow> string \<Rightarrow> task option" where
  "state_Task s tid =
     (case fmlookup (tasks s) tid of
        None \<Rightarrow> None
      | Some t \<Rightarrow> (if task_Change s t = None then None else Some t))"

definition ensure_before :: "duration \<Rightarrow> st \<Rightarrow> st" where
  "ensure_before d s = emit (EnsureBefore d) s"

text \<open>\<open>Task.addLog\<close>: the log keeps the ten most recent entries.\<close>

definition addLog :: "time \<Rightarrow> string \<Rightarrow> message \<Rightarrow> task \<Rightarrow> task" where
  "addLog now kind msg t =
     (let l = task_log t; l' = (if 9 < length l then drop (length l - 9) l else l)
      in t\<lparr>task_log := l' @ [(now, kind, msg)]\<rparr>)"

definition LogInfo :: string where "LogInfo = ''INFO''"
definition LogError :: string where "LogError = ''ERROR''"

lemma addLog_length: "length (task_log (addLog now k m t)) \<le> 10"
  by (simp add: addLog_def Let_def)

lemma addLog_simps [simp]:
  "task_status (addLog now k m t) = task_status t" "task_change (addLog now k m t) = task_change t"
  "wait_tasks (addLog now k m t) = wait_tasks t" "halt_tasks (addLog now k m t) = halt_tasks t"
  "task_lanes (addLog now k m t) = task_lanes t" "waited_status (addLog now k m t) = waited_status t"
  "task_Status (addLog now k m t) = task_Status t" "task_Lanes (addLog now k m t) = task_Lanes t"
  "task_id (addLog now k m t) = task_id t" "task_kind (addLog now k m t) = task_kind t"
  "task_clean (addLog now k m t) = task_clean t" "at_time (addLog now k m t) = at_time t"
  by (simp_all add: addLog_def Let_def task_Status_def task_Lanes_def)


subsection \<open>A sample state\<close>

definition sample_task :: "string \<Rightarrow> status \<Rightarrow> string list \<Rightarrow> string list \<Rightarrow> int list \<Rightarrow> task" where
  "sample_task k x ws hs ls =
     (newTask 1 k ''start'' ''Start service'')\<lparr>task_status := x, wait_tasks := ws, halt_tasks := hs,
       task_lanes := ls, task_change := ''1''\<rparr>"

definition sample_state :: "(string \<times> task) list \<Rightarrow> st" where
  "sample_state ts = empty_state\<lparr>tasks := fmap_of_list ts,
     changes := fmap_of_list [(''1'',
       (newChange 1 ''1'' ''autostart'' ''Autostart'')\<lparr>chg_tasks := map fst ts\<rparr>)]\<rparr>"

end
