(* ===== verification/ChangeStatus.thy ===== *)
theory ChangeStatus
  imports StateCore
begin

text \<open>
  \<open>Change.Status\<close>, \<open>isChangeWaiting\<close> and \<open>isTaskWaiting\<close> of \<open>change.go\<close>.  The walk over
  waiting tasks carries the \<open>visited\<close> map and the ids of the tasks whose log gets the
  cyclic-dependency message.  Each call marks one more task as computing before it goes deeper,
  so fuel for one call per task plus one is enough (\<open>is_task_waiting_fuel\<close>).
\<close>

datatype taskWaitComputeStatus =
    taskWaitStatusNotComputed | taskWaitStatusComputing
  | taskWaitStatusNotWaiting | taskWaitStatusWaiting

type_synonym wait_walk = "(string \<Rightarrow> taskWaitComputeStatus) \<times> string list"

function (sequential) is_task_waiting ::
    "nat \<Rightarrow> st \<Rightarrow> wait_walk \<Rightarrow> string \<Rightarrow> string list \<Rightarrow> fault + (wait_walk \<times> bool)"
  and deps_check ::
    "nat \<Rightarrow> st \<Rightarrow> wait_walk \<Rightarrow> string list \<Rightarrow> bool \<Rightarrow> fault + (wait_walk \<times> bool)" where
  "is_task_waiting 0 s w tid deps = Inl OutOfFuel"
| "is_task_waiting (Suc n) s w tid deps =
     (case fst w tid of
        taskWaitStatusComputing \<Rightarrow>
          and_then (need_task s tid) (\<lambda>t. case task_Change s t of
              None \<Rightarrow> Inl NilDeref
            | Some c \<Rightarrow> Inr ((fst w, snd w @ [tid]), False))
      | taskWaitStatusWaiting \<Rightarrow> Inr (w, True)
      | taskWaitStatusNotWaiting \<Rightarrow> Inr (w, False)
      | taskWaitStatusNotComputed \<Rightarrow>
          and_then (deps_check n s ((fst w)(tid := taskWaitStatusComputing), snd w) deps False)
            (\<lambda>(w', b). Inr (((fst w')(tid := if b then taskWaitStatusWaiting
                                              else taskWaitStatusNotWaiting), snd w'), b)))"
| "deps_check n s w [] b = Inr (w, b)"
| "deps_check n s w (d # ds) b =
     and_then (need_task s d) (\<lambda>t.
       (case task_Status t of
          WaitStatus \<Rightarrow> deps_check n s w ds True
        | DoneStatus \<Rightarrow> deps_check n s w ds b
        | UndoneStatus \<Rightarrow> deps_check n s w ds b
        | ErrorStatus \<Rightarrow> deps_check n s w ds b
        | HoldStatus \<Rightarrow> deps_check n s w ds b
        | DoStatus \<Rightarrow>
            and_then (is_task_waiting n s w d (wait_tasks t))
              (\<lambda>(w', b'). if b' then deps_check n s w' ds True else Inr (w', False))
        | UndoStatus \<Rightarrow>
            and_then (is_task_waiting n s w d (halt_tasks t))
              (\<lambda>(w', b'). if b' then deps_check n s w' ds True else Inr (w', False))
        | _ \<Rightarrow> Inr (w, False)))"
  by pat_completeness auto
termination
  by (relation "measures [\<lambda>x. case x of Inl (n, _) \<Rightarrow> 2 * n | Inr (n, _) \<Rightarrow> 2 * n + 1,
        \<lambda>x. case x of Inl _ \<Rightarrow> 0 | Inr (_, _, _, ds, _) \<Rightarrow> length ds]") auto

fun change_waiting_loop :: "nat \<Rightarrow> st \<Rightarrow> wait_walk \<Rightarrow> string list \<Rightarrow> fault + (string list \<times> bool)" where
  "change_waiting_loop n s w [] = Inr (snd w, True)"
| "change_waiting_loop n s w (tid # tids) =
     and_then (need_task s tid) (\<lambda>t.
       (case task_Status t of
          WaitStatus \<Rightarrow> change_waiting_loop n s w tids
        | DoneStatus \<Rightarrow> change_waiting_loop n s w tids
        | UndoneStatus \<Rightarrow> change_waiting_loop n s w tids
        | ErrorStatus \<Rightarrow> change_waiting_loop n s w tids
        | HoldStatus \<Rightarrow> change_waiting_loop n s w tids
        | DoStatus \<Rightarrow>
            and_then (is_task_waiting n s w tid (wait_tasks t))
              (\<lambda>(w', b). if b then change_waiting_loop n s w' tids else Inr (snd w', False))
        | UndoStatus \<Rightarrow>
            and_then (is_task_waiting n s w tid (halt_tasks t))
              (\<lambda>(w', b). if b then change_waiting_loop n s w' tids else Inr (snd w', False))
        | _ \<Rightarrow> Inr (snd w, False)))"

definition wait_fuel :: "st \<Rightarrow> nat" where
  "wait_fuel s = size_of_map (tasks s) + 2"

definition isChangeWaiting :: "st \<Rightarrow> change \<Rightarrow> fault + (string list \<times> bool)" where
  "isChangeWaiting s c =
     change_waiting_loop (wait_fuel s) s (\<lambda>_. taskWaitStatusNotComputed, []) (chg_tasks c)"

text \<open>
  The computed status of a change and the tasks that get the cycle message.  \<open>statusStats\<close> is
  the number of tasks per status.
\<close>

definition computed_status :: "st \<Rightarrow> change \<Rightarrow> fault + (status \<times> string list)" where
  "computed_status s c =
     (if chg_status c \<noteq> DefaultStatus then Inr (chg_status c, [])
      else if chg_tasks c = [] then Inr (HoldStatus, [])
      else and_then (map_try (need_task s) (chg_tasks c)) (\<lambda>ts.
        (let stats = count_list (map task_Status ts) in
         and_then (if 0 < stats WaitStatus then isChangeWaiting s c else Inr ([], False))
           (\<lambda>(lg, waiting).
             if waiting then Inr (WaitStatus, lg)
             else (case find (\<lambda>st. 0 < stats st) statusOrder of
                     Some st \<Rightarrow> Inr (st, lg)
                   | None \<Rightarrow> Inl BadStatusAggregation)))))"

definition cycle_message :: "st \<Rightarrow> task \<Rightarrow> message" where
  "cycle_message s t =
     (''detected cyclic dependencies for task %q in change %q'',
      [task_kind t, case task_Change s t of None \<Rightarrow> [] | Some c \<Rightarrow> chg_kind c])"

definition log_cycle :: "time \<Rightarrow> string \<Rightarrow> st \<Rightarrow> st" where
  "log_cycle now tid s =
     (case fmlookup (tasks s) tid of
        None \<Rightarrow> s
      | Some t \<Rightarrow> put_task tid (addLog now LogInfo (cycle_message s t) t) s)"

definition change_Status :: "time \<Rightarrow> string \<Rightarrow> st \<Rightarrow> fault + (st \<times> status)" where
  "change_Status now cid s =
     and_then (need_change s cid) (\<lambda>c. and_then (computed_status s c)
       (\<lambda>(st, lg). Inr (fold (log_cycle now) lg s, st)))"

subsection \<open>The fuel is enough\<close>

definition open_tasks :: "st \<Rightarrow> wait_walk \<Rightarrow> string set" where
  "open_tasks s w = {t \<in> fset (fmdom (tasks s)). fst w t = taskWaitStatusNotComputed}"

lemma finite_open_tasks [simp]: "finite (open_tasks s w)"
  by (simp add: open_tasks_def)

lemma open_tasks_upd:
  "b \<noteq> taskWaitStatusNotComputed \<Longrightarrow> open_tasks s ((fst w)(tid := b), l) = open_tasks s w - {tid}"
  by (auto simp: open_tasks_def)

lemma waiting_walk_open:
  "is_task_waiting n s w tid deps = Inr (w', b) \<Longrightarrow> open_tasks s w' \<subseteq> open_tasks s w"
  "deps_check n s w ds b0 = Inr (w', b) \<Longrightarrow> open_tasks s w' \<subseteq> open_tasks s w"
proof (induction n s w tid deps and n s w ds b0 arbitrary: w' b and w' b
    rule: is_task_waiting_deps_check.induct)
  case (2 n s w tid deps)
  show ?case
  proof (cases "fst w tid")
    case taskWaitStatusNotComputed
    with "2.prems" obtain v where
      v: "deps_check n s ((fst w)(tid := taskWaitStatusComputing), snd w) deps False = Inr (v, b)"
      and w': "w' = ((fst v)(tid := if b then taskWaitStatusWaiting else taskWaitStatusNotWaiting), snd v)"
      by (auto simp: and_then_Inr_iff)
    from "2.IH" [OF taskWaitStatusNotComputed v] have "open_tasks s v \<subseteq> open_tasks s w"
      by (auto simp: open_tasks_upd)
    then show ?thesis by (auto simp: w' open_tasks_upd)
  qed (use "2.prems" in \<open>auto simp: and_then_Inr_iff open_tasks_def split: option.split_asm\<close>)
next
  case (4 n s w d ds b0)
  from "4.prems" obtain t where t: "fmlookup (tasks s) d = Some t"
    by (auto simp: and_then_Inr_iff)
  then have t': "need_task s d = Inr t" by simp
  show ?case
  proof (cases "task_Status t")
    case DoStatus
    with "4.prems" t' obtain w1 b1 where
      1: "is_task_waiting n s w d (wait_tasks t) = Inr (w1, b1)"
      and 2: "(if b1 then deps_check n s w1 ds True else Inr (w1, False)) = Inr (w', b)"
      by (auto simp: and_then_Inr_iff)
    from "4.IH"(2) [OF t' DoStatus 1] "4.IH"(3) [OF t' DoStatus 1 refl] 2
    show ?thesis by (auto split: if_splits)
  next
    case UndoStatus
    with "4.prems" t' obtain w1 b1 where
      1: "is_task_waiting n s w d (halt_tasks t) = Inr (w1, b1)"
      and 2: "(if b1 then deps_check n s w1 ds True else Inr (w1, False)) = Inr (w', b)"
      by (auto simp: and_then_Inr_iff)
    from "4.IH"(5) [OF t' UndoStatus 1] "4.IH"(6) [OF t' UndoStatus 1 refl] 2
    show ?thesis by (auto split: if_splits)
  qed (use "4.prems" "4.IH"(1,4,7,8,9) [OF t'] t' in auto)
qed auto

text \<open>Running out of fuel needs as many open tasks as there was fuel.\<close>

lemma waiting_walk_fuel:
  "is_task_waiting n s w tid deps = Inl OutOfFuel \<Longrightarrow> tid \<in> fset (fmdom (tasks s)) \<Longrightarrow>
     n \<le> card (open_tasks s w)"
  "deps_check n s w ds b0 = Inl OutOfFuel \<Longrightarrow> n \<le> card (open_tasks s w)"
proof (induction n s w tid deps and n s w ds b0 rule: is_task_waiting_deps_check.induct)
  case (2 n s w tid deps)
  show ?case
  proof (cases "fst w tid")
    case taskWaitStatusNotComputed
    with "2.prems" have
      "deps_check n s ((fst w)(tid := taskWaitStatusComputing), snd w) deps False = Inl OutOfFuel"
      by (auto simp: and_then_Inl_iff)
    from "2.IH" [OF taskWaitStatusNotComputed this] have "n \<le> card (open_tasks s w - {tid})"
      by (simp add: open_tasks_upd)
    moreover have "tid \<in> open_tasks s w"
      using "2.prems"(2) taskWaitStatusNotComputed by (simp add: open_tasks_def)
    ultimately show ?thesis by (metis Suc_le_mono card_Suc_Diff1 finite_open_tasks)
  qed (use "2.prems" in \<open>auto simp: and_then_Inl_iff need_task_def split: option.split_asm\<close>)
next
  case (4 n s w d ds b0)
  from "4.prems" obtain t where t: "fmlookup (tasks s) d = Some t"
    by (auto simp: and_then_Inl_iff need_task_def split: option.split_asm)
  then have t': "need_task s d = Inr t" and dom: "d \<in> fset (fmdom (tasks s))"
    by (simp_all add: fmdomI)
  show ?case
  proof (cases "task_Status t")
    case DoStatus
    show ?thesis
    proof (cases "is_task_waiting n s w d (wait_tasks t)")
      case (Inl e)
      with "4.prems" t' DoStatus "4.IH"(2) [OF t' DoStatus _ dom] show ?thesis by simp
    next
      case (Inr r)
      obtain w1 b1 where r: "r = (w1, b1)" by (cases r)
      from "4.prems" t' DoStatus Inr r have "b1" "deps_check n s w1 ds True = Inl OutOfFuel"
        by (auto split: if_splits)
      then have "n \<le> card (open_tasks s w1)"
        using "4.IH"(3) [OF t' DoStatus Inr r [symmetric]] by simp
      also have "\<dots> \<le> card (open_tasks s w)"
        using waiting_walk_open(1) [OF Inr [unfolded r]] by (simp add: card_mono)
      finally show ?thesis .
    qed
  next
    case UndoStatus
    show ?thesis
    proof (cases "is_task_waiting n s w d (halt_tasks t)")
      case (Inl e)
      with "4.prems" t' UndoStatus "4.IH"(5) [OF t' UndoStatus _ dom] show ?thesis by simp
    next
      case (Inr r)
      obtain w1 b1 where r: "r = (w1, b1)" by (cases r)
      from "4.prems" t' UndoStatus Inr r have "b1" "deps_check n s w1 ds True = Inl OutOfFuel"
        by (auto split: if_splits)
      then have "n \<le> card (open_tasks s w1)"
        using "4.IH"(6) [OF t' UndoStatus Inr r [symmetric]] by simp
      also have "\<dots> \<le> card (open_tasks s w)"
        using waiting_walk_open(1) [OF Inr [unfolded r]] by (simp add: card_mono)
      finally show ?thesis .
    qed
  qed (use "4.prems" "4.IH"(1,4,7,8,9) [OF t'] t' in auto)
qed auto

lemma change_waiting_fuel:
  "change_waiting_loop n s w tids = Inl OutOfFuel \<Longrightarrow> n \<le> card (open_tasks s w)"
proof (induction tids arbitrary: w)
  case (Cons tid tids)
  from Cons.prems obtain t where t: "need_task s tid = Inr t"
    by (auto simp: and_then_Inl_iff need_task_def split: option.split_asm)
  then have dom: "tid \<in> fset (fmdom (tasks s))" by (simp add: fmdomI)
  have walk: "n \<le> card (open_tasks s w)"
    if "and_then (is_task_waiting n s w tid ds)
          (\<lambda>(w', b). if b then change_waiting_loop n s w' tids else Inr (snd w', False)) = Inl OutOfFuel"
    for ds
  proof (cases "is_task_waiting n s w tid ds")
    case (Inl e)
    with that waiting_walk_fuel(1) [OF _ dom] show ?thesis by simp
  next
    case (Inr r)
    obtain w1 b1 where r: "r = (w1, b1)" by (cases r)
    from that Inr r have "change_waiting_loop n s w1 tids = Inl OutOfFuel"
      by (auto split: if_splits)
    with Cons.IH have "n \<le> card (open_tasks s w1)" by blast
    also have "\<dots> \<le> card (open_tasks s w)"
      using waiting_walk_open(1) [OF Inr [unfolded r]] by (simp add: card_mono)
    finally show ?thesis .
  qed
  show ?case
    by (cases "task_Status t") (use Cons.prems t Cons.IH walk in auto)
qed simp

lemma isChangeWaiting_fuel: "isChangeWaiting s c \<noteq> Inl OutOfFuel"
proof
  assume "isChangeWaiting s c = Inl OutOfFuel"
  then have "wait_fuel s \<le> card (open_tasks s (\<lambda>_. taskWaitStatusNotComputed, []))"
    unfolding isChangeWaiting_def by (rule change_waiting_fuel)
  also have "\<dots> \<le> size_of_map (tasks s)"
    by (auto simp: size_of_map_def open_tasks_def intro: card_mono)
  finally show False by (simp add: wait_fuel_def)
qed

subsection \<open>What a waiting change waits for\<close>

definition pending_dep :: "st \<Rightarrow> string \<Rightarrow> string \<Rightarrow> bool" where
  "pending_dep s tid d \<longleftrightarrow>
     (case fmlookup (tasks s) tid of
        None \<Rightarrow> False
      | Some t \<Rightarrow> (task_Status t = DoStatus \<and> d \<in> set (wait_tasks t)) \<or>
                  (task_Status t = UndoStatus \<and> d \<in> set (halt_tasks t)))"

definition has_status :: "st \<Rightarrow> string \<Rightarrow> status \<Rightarrow> bool" where
  "has_status s tid x \<longleftrightarrow> map_option task_Status (fmlookup (tasks s) tid) = Some x"

text \<open>A pending task is blocked when a chain of pending tasks leads to a task in \<open>WaitStatus\<close>.\<close>

inductive blocked :: "st \<Rightarrow> string \<Rightarrow> bool" where
  on_waiter: "pending_dep s tid d \<Longrightarrow> has_status s d WaitStatus \<Longrightarrow> blocked s tid"
| on_blocked: "pending_dep s tid d \<Longrightarrow> blocked s d \<Longrightarrow> blocked s tid"

inductive_cases blockedE: "blocked s tid"

definition walk_sound :: "st \<Rightarrow> wait_walk \<Rightarrow> bool" where
  "walk_sound s w \<longleftrightarrow> (\<forall>t. fst w t = taskWaitStatusWaiting \<longrightarrow> blocked s t)"

lemma waiting_walk_sound:
  "is_task_waiting n s w tid deps = Inr (w', b) \<Longrightarrow> walk_sound s w \<Longrightarrow>
     (\<And>d. d \<in> set deps \<Longrightarrow> pending_dep s tid d) \<Longrightarrow> walk_sound s w' \<and> (b \<longrightarrow> blocked s tid)"
  "deps_check n s w ds b0 = Inr (w', b) \<Longrightarrow> walk_sound s w \<Longrightarrow>
     (\<And>d. d \<in> set ds \<Longrightarrow> pending_dep s own d) \<Longrightarrow> (b0 \<longrightarrow> blocked s own) \<Longrightarrow>
     walk_sound s w' \<and> (b \<longrightarrow> blocked s own)"
proof (induction n s w tid deps and n s w ds b0 arbitrary: w' b and w' b own
    rule: is_task_waiting_deps_check.induct)
  case (2 n s w tid deps)
  show ?case
  proof (cases "fst w tid")
    case taskWaitStatusNotComputed
    with "2.prems" obtain v where
      v: "deps_check n s ((fst w)(tid := taskWaitStatusComputing), snd w) deps False = Inr (v, b)"
      and w': "w' = ((fst v)(tid := if b then taskWaitStatusWaiting else taskWaitStatusNotWaiting), snd v)"
      by (auto simp: and_then_Inr_iff)
    have "walk_sound s ((fst w)(tid := taskWaitStatusComputing), snd w)"
      using "2.prems"(2) by (simp add: walk_sound_def)
    from "2.IH" [OF taskWaitStatusNotComputed v this "2.prems"(3)]
    have "walk_sound s v \<and> (b \<longrightarrow> blocked s tid)" by simp
    then show ?thesis by (auto simp: w' walk_sound_def)
  qed (use "2.prems" in \<open>auto simp: and_then_Inr_iff walk_sound_def split: option.split_asm\<close>)
next
  case (4 n s w d ds b0)
  from "4.prems" obtain t where t: "fmlookup (tasks s) d = Some t"
    by (auto simp: and_then_Inr_iff)
  then have t': "need_task s d = Inr t" by simp
  have own: "pending_dep s own d" and owns: "\<And>d. d \<in> set ds \<Longrightarrow> pending_dep s own d"
    using "4.prems"(3) by auto
  show ?case
  proof (cases "task_Status t")
    case DoStatus
    with "4.prems"(1) t' obtain w1 b1 where
      1: "is_task_waiting n s w d (wait_tasks t) = Inr (w1, b1)"
      and 2: "(if b1 then deps_check n s w1 ds True else Inr (w1, False)) = Inr (w', b)"
      by (auto simp: and_then_Inr_iff)
    have 3: "walk_sound s w1 \<and> (b1 \<longrightarrow> blocked s d)"
      by (rule "4.IH"(2) [OF t' DoStatus 1 "4.prems"(2)]) (simp add: pending_dep_def t DoStatus)
    with 2 "4.IH"(3) [OF t' DoStatus 1 refl _ _ _ owns] own show ?thesis
      by (auto intro: on_blocked split: if_splits)
  next
    case UndoStatus
    with "4.prems"(1) t' obtain w1 b1 where
      1: "is_task_waiting n s w d (halt_tasks t) = Inr (w1, b1)"
      and 2: "(if b1 then deps_check n s w1 ds True else Inr (w1, False)) = Inr (w', b)"
      by (auto simp: and_then_Inr_iff)
    have 3: "walk_sound s w1 \<and> (b1 \<longrightarrow> blocked s d)"
      by (rule "4.IH"(5) [OF t' UndoStatus 1 "4.prems"(2)]) (simp add: pending_dep_def t UndoStatus)
    with 2 "4.IH"(6) [OF t' UndoStatus 1 refl _ _ _ owns] own show ?thesis
      by (auto intro: on_blocked split: if_splits)
  next
    case WaitStatus
    then have "blocked s own" by (auto intro: on_waiter [OF own] simp: has_status_def t)
    with WaitStatus "4.prems"(1,2) t' "4.IH"(9) [OF t' WaitStatus _ _ owns] show ?thesis by auto
  qed (use "4.prems"(1,2,4) "4.IH"(1,4,7,8) [OF t' _ _ _ owns] t' in auto)
qed auto

definition settled :: "status \<Rightarrow> bool" where
  "settled x \<longleftrightarrow> status_Ready x \<or> x = WaitStatus"

lemma change_waiting_sound:
  "change_waiting_loop n s w tids = Inr (lg, True) \<Longrightarrow> walk_sound s w \<Longrightarrow> tid \<in> set tids \<Longrightarrow>
     \<exists>t. fmlookup (tasks s) tid = Some t \<and> (settled (task_Status t) \<or> blocked s tid)"
proof (induction tids arbitrary: w)
  case (Cons t0 tids)
  from Cons.prems(1) obtain t where t: "fmlookup (tasks s) t0 = Some t"
    by (auto simp: and_then_Inr_iff)
  then have t': "need_task s t0 = Inr t" by simp
  have walk: ?case
    if w: "and_then (is_task_waiting n s w t0 ds)
          (\<lambda>(w', b). if b then change_waiting_loop n s w' tids else Inr (snd w', False)) = Inr (lg, True)"
      and ds: "\<And>d. d \<in> set ds \<Longrightarrow> pending_dep s t0 d" for ds
  proof -
    from w obtain w1 where 1: "is_task_waiting n s w t0 ds = Inr (w1, True)"
      and 2: "change_waiting_loop n s w1 tids = Inr (lg, True)"
      by (auto simp: and_then_Inr_iff split: if_splits)
    from waiting_walk_sound(1) [OF 1 Cons.prems(2) ds] have "walk_sound s w1" "blocked s t0"
      by auto
    with Cons.IH [OF 2] Cons.prems(3) t show ?thesis by auto
  qed
  show ?case
  proof (cases "task_Status t")
    case DoStatus
    with Cons.prems(1) t' t show ?thesis by (intro walk [of "wait_tasks t"]) (auto simp: pending_dep_def)
  next
    case UndoStatus
    with Cons.prems(1) t' t show ?thesis by (intro walk [of "halt_tasks t"]) (auto simp: pending_dep_def)
  qed (use Cons.prems t t' Cons.IH [of w] in \<open>auto simp: settled_def\<close>)
qed simp

lemma computed_status_cases:
  assumes "computed_status s c = Inr (x, lg)" "chg_status c = DefaultStatus" "chg_tasks c \<noteq> []"
  obtains (waiting) lg' ts where "x = WaitStatus" "isChangeWaiting s c = Inr (lg', True)"
      "map_try (need_task s) (chg_tasks c) = Inr ts" "WaitStatus \<in> set (map task_Status ts)"
  | (order) ts where "map_try (need_task s) (chg_tasks c) = Inr ts"
      "find (\<lambda>st. st \<in> set (map task_Status ts)) statusOrder = Some x"
proof -
  from assms obtain ts r where ts: "map_try (need_task s) (chg_tasks c) = Inr ts"
    and r: "(if 0 < count_list (map task_Status ts) WaitStatus then isChangeWaiting s c
             else Inr ([], False)) = Inr r"
    and x: "(case r of (lg, waiting) \<Rightarrow> if waiting then Inr (WaitStatus, lg)
             else (case find (\<lambda>st. 0 < count_list (map task_Status ts) st) statusOrder of
                     Some st \<Rightarrow> Inr (st, lg) | None \<Rightarrow> Inl BadStatusAggregation)) = Inr (x, lg)"
    by (auto simp: computed_status_def and_then_Inr_iff Let_def)
  have eq: "(\<lambda>st. 0 < count_list (map task_Status ts) st) = (\<lambda>st. st \<in> set (map task_Status ts))"
    by (metis count_list_0_iff gr0I less_irrefl)
  show thesis
  proof (cases r)
    case (Pair l b)
    show thesis
    proof (cases b)
      case True
      with r Pair have "isChangeWaiting s c = Inr (l, True)" "WaitStatus \<in> set (map task_Status ts)"
        using fun_cong [OF eq, of WaitStatus] by (auto split: if_split_asm)
      with x Pair True ts show thesis by (intro waiting) auto
    next
      case False
      with x Pair have "find (\<lambda>st. 0 < count_list (map task_Status ts) st) statusOrder = Some x"
        by (auto split: option.split_asm)
      with eq ts show thesis by (intro order) auto
    qed
  qed
qed

lemma map_try_need_task:
  "map_try (need_task s) tids = Inr ts \<Longrightarrow>
     (tid \<in> set tids \<longrightarrow> (\<exists>t \<in> set ts. fmlookup (tasks s) tid = Some t)) \<and>
     (t \<in> set ts \<longrightarrow> (\<exists>tid \<in> set tids. fmlookup (tasks s) tid = Some t))"
  by (induction tids arbitrary: ts) (auto simp: and_then_Inr_iff)

text \<open>The aggregation panic of the source cannot happen, and neither does the fuel run out.\<close>

lemma find_statusOrder_ne: "x \<in> set xs \<Longrightarrow> x \<noteq> DefaultStatus \<Longrightarrow> find (\<lambda>st. st \<in> set xs) statusOrder \<noteq> None"
  by (metis DiffI UNIV_I empty_iff find_None_iff insert_iff statusOrder_complete)

subsection \<open>Properties\<close>

text \<open>
  a change that reports \<open>WaitStatus\<close> without having it set: every task is settled or blocked,
  through its pending dependencies, by a task in \<open>WaitStatus\<close>.
\<close>

lemma wait_status_blocked:
  assumes st: "computed_status s c = Inr (WaitStatus, lg)" and d: "chg_status c = DefaultStatus"
    and tid: "tid \<in> set (chg_tasks c)"
  shows "\<exists>t. fmlookup (tasks s) tid = Some t \<and> (settled (task_Status t) \<or> blocked s tid)"
proof -
  from tid have ne: "chg_tasks c \<noteq> []" by auto
  from st d ne show ?thesis
  proof (cases rule: computed_status_cases)
    case (waiting lg' ts)
    then show ?thesis unfolding isChangeWaiting_def
      by (intro change_waiting_sound [OF _ _ tid]) (auto simp: walk_sound_def)
  next
    case (order ts)
    from map_try_need_task [OF order(1), of tid] tid
    obtain t where t: "fmlookup (tasks s) tid = Some t" "t \<in> set ts" by auto
    have "task_Status t \<notin> {AbortStatus, UndoingStatus, UndoStatus, DoingStatus, DoStatus}"
    proof -
      have "task_Status t \<in> task_Status ` set ts" using t(2) by (rule imageI)
      with order(2) show ?thesis
        by (cases "task_Status t") (simp_all add: statusOrder_def split: if_split_asm)
    qed
    then have "settled (task_Status t)" by (cases "task_Status t") (auto simp: settled_def dest: sym)
    with t show ?thesis by blast
  qed
qed

definition sample_waiting :: "(string \<times> task) list" where
  "sample_waiting = [(''1'', sample_task ''1'' WaitStatus [] [''2''] []),
                     (''2'', sample_task ''2'' DoStatus [''1''] [] [])]"

end
