(* ===== verification/TaskOps.thy ===== *)
theory TaskOps
  imports ChangeStatus
begin

text \<open>
  The status operations of tasks and changes: \<open>Task.SetStatus\<close>, \<open>SetToWait\<close>, \<open>SetClean\<close>, \<open>At\<close>
  (\<open>task.go\<close>) and \<open>Change.SetStatus\<close>, \<open>taskStatusChanged\<close>, \<open>detectChangeReady\<close>,
  \<open>notifyStatusChange\<close> (\<open>change.go\<close>).  The lemmas show that they only touch the status and
  bookkeeping fields, when they return, and that a change is marked ready as soon as all of its
  tasks are.
\<close>

subsection \<open>Operations\<close>

definition observe_change :: "string \<Rightarrow> status \<Rightarrow> change \<Rightarrow> st \<Rightarrow> st" where
  "observe_change cid new c s =
     (if last_observed c \<noteq> new
      then put_change cid (c\<lparr>last_observed := new\<rparr>)
             (emit (ChangeStatusChanged cid (last_observed c) new) s)
      else s)"

definition notifyStatusChange :: "time \<Rightarrow> string \<Rightarrow> status \<Rightarrow> st \<Rightarrow> fault + st" where
  "notifyStatusChange now cid new s =
     and_then (need_change s cid) (\<lambda>c.
       if shouldSkipChangeUpdateNotice (last_recorded c) new then Inr (observe_change cid new c s)
       else and_then (change_addNotice now cid (observe_change cid new c s)) (\<lambda>s2.
              and_then (need_change s2 cid) (\<lambda>c2.
                Inr (put_change cid (c2\<lparr>last_recorded := new\<rparr>) s2))))"

definition markReady :: "time \<Rightarrow> change \<Rightarrow> change" where
  "markReady now c =
     c\<lparr>chg_ready := True,
       chg_ready_time := (if is_zero_time (chg_ready_time c) then now else chg_ready_time c)\<rparr>"

fun others_ready :: "st \<Rightarrow> string \<Rightarrow> string list \<Rightarrow> fault + bool" where
  "others_ready s ex [] = Inr True"
| "others_ready s ex (tid # tids) =
     and_then (need_task s tid) (\<lambda>t.
       if tid \<noteq> ex \<and> \<not> status_Ready (task_status t) then Inr False
       else others_ready s ex tids)"

definition detectChangeReady :: "time \<Rightarrow> string \<Rightarrow> string \<Rightarrow> st \<Rightarrow> fault + st" where
  "detectChangeReady now cid ex s =
     and_then (need_change s cid) (\<lambda>c.
       and_then (others_ready s ex (chg_tasks c)) (\<lambda>b.
         if \<not> b then Inr s
         else and_then (if chg_ready c
                        then and_then (change_Status now cid s) (\<lambda>(s1, x).
                               if status_Ready x then Inr s1 else Inl (BecameUnready cid x))
                        else Inr s)
                (\<lambda>s1. and_then (need_change s1 cid) (\<lambda>c1. Inr (put_change cid (markReady now c1) s1)))))"

definition taskStatusChanged :: "time \<Rightarrow> string \<Rightarrow> string \<Rightarrow> status \<Rightarrow> status \<Rightarrow> st \<Rightarrow> fault + st" where
  "taskStatusChanged now cid tid old new s =
     and_then (change_Status now cid s) (\<lambda>(s1, cs).
       if status_Ready old = status_Ready new then notifyStatusChange now cid cs s1
       else and_then (detectChangeReady now cid tid s1) (notifyStatusChange now cid cs))"

definition set_task_status :: "time \<Rightarrow> status \<Rightarrow> status \<Rightarrow> task \<Rightarrow> task" where
  "set_task_status now old new t =
     t\<lparr>task_status := new,
       task_ready_time := (if \<not> status_Ready old \<and> status_Ready new then now else task_ready_time t)\<rparr>"

definition changeStatus :: "time \<Rightarrow> string \<Rightarrow> status \<Rightarrow> status \<Rightarrow> st \<Rightarrow> fault + st" where
  "changeStatus now tid old new s =
     (if old = new then Inr s
      else and_then (need_task s tid) (\<lambda>t.
        (let s1 = put_task tid (set_task_status now old new t) s in
         and_then (case task_Change s1 t of
                     None \<Rightarrow> Inr s1
                   | Some c \<Rightarrow> taskStatusChanged now (task_change t) tid old new s1)
           (\<lambda>s2. Inr (emit (TaskStatusChanged tid old new) s2)))))"

definition SetStatus :: "time \<Rightarrow> string \<Rightarrow> status \<Rightarrow> st \<Rightarrow> fault + st" where
  "SetStatus now tid new s =
     (if new = WaitStatus then Inl SetStatusToWait
      else and_then (need_task s tid) (\<lambda>t.
        if new = DoneStatus \<and> task_status t = AbortStatus then Inr (s\<lparr>modified := True\<rparr>)
        else changeStatus now tid (task_status t) new (s\<lparr>modified := True\<rparr>)))"

definition SetToWait :: "time \<Rightarrow> string \<Rightarrow> status \<Rightarrow> st \<Rightarrow> fault + st" where
  "SetToWait now tid result s =
     (if result = DefaultStatus \<or> result = WaitStatus then Inl SetToWaitBad
      else and_then (need_task s tid) (\<lambda>t.
        if task_status t = AbortStatus then Inr (s\<lparr>modified := True\<rparr>)
        else changeStatus now tid (task_status t) WaitStatus
               (put_task tid (t\<lparr>waited_status := result\<rparr>) s)))"

definition change_SetStatus :: "time \<Rightarrow> string \<Rightarrow> status \<Rightarrow> st \<Rightarrow> fault + st" where
  "change_SetStatus now cid x s =
     and_then (need_change s cid) (\<lambda>c.
       (let c1 = c\<lparr>chg_status := x\<rparr>; c2 = (if status_Ready x then markReady now c1 else c1);
            s1 = put_change cid c2 s
        in and_then (change_Status now cid s1) (\<lambda>(s2, cs). notifyStatusChange now cid cs s2)))"

fun all_clean :: "st \<Rightarrow> string list \<Rightarrow> fault + bool" where
  "all_clean s [] = Inr True"
| "all_clean s (tid # tids) =
     and_then (need_task s tid) (\<lambda>t. if task_clean t then all_clean s tids else Inr False)"

definition taskCleanChanged :: "string \<Rightarrow> st \<Rightarrow> fault + st" where
  "taskCleanChanged cid s =
     and_then (need_change s cid) (\<lambda>c.
       if \<not> chg_ready c then Inl CleanBeforeReady
       else and_then (all_clean s (chg_tasks c)) (\<lambda>b.
              Inr (if b then put_change cid (c\<lparr>chg_clean := True\<rparr>) s else s)))"

definition SetClean :: "string \<Rightarrow> st \<Rightarrow> fault + st" where
  "SetClean tid s =
     and_then (need_task s tid) (\<lambda>t.
       if task_clean t then Inr (s\<lparr>modified := True\<rparr>)
       else (let s1 = put_task tid (t\<lparr>task_clean := True\<rparr>) s in
             case task_Change s1 t of
               None \<Rightarrow> Inr s1
             | Some c \<Rightarrow> taskCleanChanged (task_change t) s1))"

definition task_At :: "time \<Rightarrow> string \<Rightarrow> time \<Rightarrow> st \<Rightarrow> fault + st" where
  "task_At now tid when s =
     and_then (need_task s tid) (\<lambda>t.
       if status_Ready (task_Status t) \<and> \<not> is_zero_time when then Inr (s\<lparr>modified := True\<rparr>)
       else (let s1 = put_task tid (t\<lparr>at_time := when\<rparr>) s in
             if is_zero_time when then Inr s1
             else Inr (ensure_before (max (when - now) 0) s1)))"

definition task_Logf :: "time \<Rightarrow> string \<Rightarrow> string \<Rightarrow> message \<Rightarrow> st \<Rightarrow> fault + st" where
  "task_Logf now kind tid msg s =
     and_then (need_task s tid) (\<lambda>t. Inr (put_task tid (addLog now kind msg t) s))"

subsection \<open>Views: what a status operation leaves alone\<close>

definition nolog :: "task \<Rightarrow> task" where
  "nolog t = t\<lparr>task_log := []\<rparr>"

definition chg_core :: "change \<Rightarrow> change" where
  "chg_core c = c\<lparr>chg_ready := False, last_observed := DefaultStatus,
                  last_recorded := DefaultStatus, chg_ready_time := 0\<rparr>"

definition tview :: "st \<Rightarrow> (string, task) fmap" where
  "tview s = fmmap nolog (tasks s)"

definition cview :: "st \<Rightarrow> (string, change) fmap" where
  "cview s = fmmap chg_core (changes s)"

lemma nolog_simps [simp]:
  "nolog (addLog now k m t) = nolog t" "task_status (nolog t) = task_status t"
  "task_Status (nolog t) = task_Status t" "task_Lanes (nolog t) = task_Lanes t"
  "task_change (nolog t) = task_change t" "wait_tasks (nolog t) = wait_tasks t"
  "halt_tasks (nolog t) = halt_tasks t" "task_id (nolog t) = task_id t"
  "task_kind (nolog t) = task_kind t" "task_clean (nolog t) = task_clean t"
  "waited_status (nolog t) = waited_status t" "task_lanes (nolog t) = task_lanes t"
  "at_time (nolog t) = at_time t"
  by (simp_all add: nolog_def addLog_def task_Status_def task_Lanes_def Let_def)

lemma chg_core_simps [simp]:
  "chg_core (markReady now c) = chg_core c" "chg_tasks (chg_core c) = chg_tasks c"
  "chg_id (chg_core c) = chg_id c" "chg_status (chg_core c) = chg_status c"
  "chg_data (chg_core c) = chg_data c" "chg_kind (chg_core c) = chg_kind c"
  "notice_data_of (chg_core c) = notice_data_of c"
  by (simp_all add: chg_core_def markReady_def notice_data_of_def)

lemma chg_core_upd [simp]:
  "chg_core (c\<lparr>last_observed := x\<rparr>) = chg_core c" "chg_core (c\<lparr>last_recorded := x\<rparr>) = chg_core c"
  by (simp_all add: chg_core_def)

lemma view_lookup:
  "fmlookup (tview s) k = map_option nolog (fmlookup (tasks s) k)"
  "fmlookup (cview s) k = map_option chg_core (fmlookup (changes s) k)"
  by (simp_all add: tview_def cview_def)

lemma tview_eqD:
  assumes "tview s' = tview s" and "fmlookup (tasks s') k = Some t'"
  shows "\<exists>t. fmlookup (tasks s) k = Some t \<and> nolog t' = nolog t"
proof -
  from assms have "map_option nolog (fmlookup (tasks s) k) = Some (nolog t')"
    by (metis view_lookup(1) option.map(2))
  then show ?thesis by auto
qed

lemma cview_eqD:
  assumes "cview s' = cview s" and "fmlookup (changes s') k = Some c'"
  shows "\<exists>c. fmlookup (changes s) k = Some c \<and> chg_core c' = chg_core c"
proof -
  from assms have "map_option chg_core (fmlookup (changes s) k) = Some (chg_core c')"
    by (metis view_lookup(2) option.map(2))
  then show ?thesis by auto
qed

lemma tview_put_same:
  "fmlookup (tasks s) k = Some t \<Longrightarrow> nolog t' = nolog t \<Longrightarrow> tview (put_task k t' s) = tview s"
  by (auto intro!: fmap_ext simp: view_lookup)

lemma cview_put_same:
  "fmlookup (changes s) k = Some c \<Longrightarrow> chg_core c' = chg_core c \<Longrightarrow> cview (put_change k c' s) = cview s"
  by (auto intro!: fmap_ext simp: view_lookup)

lemma view_simps [simp]:
  "tview (emit e s) = tview s" "cview (emit e s) = cview s"
  "tview (s\<lparr>modified := b\<rparr>) = tview s" "cview (s\<lparr>modified := b\<rparr>) = cview s"
  "tview (put_change k c s) = tview s" "cview (put_task k t s) = cview s"
  by (simp_all add: tview_def cview_def)

lemma log_cycle_view [simp]: "tview (log_cycle now tid s) = tview s" "changes (log_cycle now tid s) = changes s"
  by (auto simp: log_cycle_def tview_put_same split: option.split)

lemma fold_log_cycle_view [simp]:
  "tview (fold (log_cycle now) lg s) = tview s" "changes (fold (log_cycle now) lg s) = changes s"
  by (induction lg arbitrary: s) auto

lemma change_Status_view:
  assumes "change_Status now cid s = Inr (s', x)"
  shows "tview s' = tview s" "changes s' = changes s"
  using assms by (auto simp: change_Status_def and_then_Inr_iff)

lemma notifyStatusChange_view:
  assumes "notifyStatusChange now cid new s = Inr s'"
  shows "tview s' = tview s" "cview s' = cview s"
    "map_option chg_ready (fmlookup (changes s') k) = map_option chg_ready (fmlookup (changes s) k)"
proof -
  from assms obtain c where c: "fmlookup (changes s) cid = Some c"
    by (auto simp: notifyStatusChange_def and_then_Inr_iff)
  define s1 where "s1 = observe_change cid new c s"
  have s1: "tview s1 = tview s" "cview s1 = cview s"
    "map_option chg_ready (fmlookup (changes s1) k) = map_option chg_ready (fmlookup (changes s) k)"
    using c by (auto simp: s1_def observe_change_def cview_put_same)
  from assms have r: "(if shouldSkipChangeUpdateNotice (last_recorded c) new then Inr s1
           else and_then (change_addNotice now cid s1) (\<lambda>s2.
                  and_then (need_change s2 cid) (\<lambda>c2.
                    Inr (put_change cid (c2\<lparr>last_recorded := new\<rparr>) s2)))) = Inr s'"
    unfolding s1_def notifyStatusChange_def need_change_eq [OF c] and_then_simps .
  have *: "tview s' = tview s1 \<and> cview s' = cview s1 \<and>
    map_option chg_ready (fmlookup (changes s') k) = map_option chg_ready (fmlookup (changes s1) k)"
  proof (cases "shouldSkipChangeUpdateNotice (last_recorded c) new")
    case False
    with r obtain s2 c2 where s2: "change_addNotice now cid s1 = Inr s2"
      and c2: "fmlookup (changes s2) cid = Some c2" and s': "s' = put_change cid (c2\<lparr>last_recorded := new\<rparr>) s2"
      by (auto simp: and_then_Inr_iff)
    from change_addNotice_frame [OF s2] have e: "tasks s2 = tasks s1" "changes s2 = changes s1" .
    with c2 have "fmlookup (changes s1) cid = Some c2" by simp
    with e s' show ?thesis
      by (auto intro!: fmap_ext simp: view_lookup)
  qed (use r in auto)
  from * s1 show "tview s' = tview s" "cview s' = cview s"
    "map_option chg_ready (fmlookup (changes s') k) = map_option chg_ready (fmlookup (changes s) k)"
    by simp_all
qed

lemma detectChangeReady_view:
  assumes "detectChangeReady now cid ex s = Inr s'"
  shows "tview s' = tview s" "cview s' = cview s"
proof -
  from assms obtain c b where c: "fmlookup (changes s) cid = Some c"
    and b: "others_ready s ex (chg_tasks c) = Inr b"
    by (auto simp: detectChangeReady_def and_then_Inr_iff)
  show "tview s' = tview s" "cview s' = cview s"
    using assms c b change_Status_view
    by (auto intro!: fmap_ext simp: detectChangeReady_def and_then_Inr_iff view_lookup
        split: if_split_asm)
qed

lemma taskStatusChanged_view:
  assumes "taskStatusChanged now cid tid old new s = Inr s'"
  shows "tview s' = tview s" "cview s' = cview s"
  using assms notifyStatusChange_view detectChangeReady_view change_Status_view
  by (auto simp: taskStatusChanged_def and_then_Inr_iff cview_def split: if_split_asm)

lemma changeStatus_view:
  assumes "changeStatus now tid old new s = Inr s'" and "old \<noteq> new"
  obtains t where "fmlookup (tasks s) tid = Some t" "cview s' = cview s"
    "tview s' = fmupd tid (nolog (set_task_status now old new t)) (tview s)"
proof -
  from assms obtain t where t: "fmlookup (tasks s) tid = Some t"
    by (auto simp: changeStatus_def and_then_Inr_iff)
  from assms t obtain s2 where raw:
    "(case task_Change (put_task tid (set_task_status now old new t) s) t of
            None \<Rightarrow> Inr (put_task tid (set_task_status now old new t) s)
          | Some c \<Rightarrow> taskStatusChanged now (task_change t) tid old new
                       (put_task tid (set_task_status now old new t) s)) = Inr s2"
    and s': "s' = emit (TaskStatusChanged tid old new) s2"
    by (auto simp: changeStatus_def and_then_Inr_iff Let_def)
  define s1 where "s1 = put_task tid (set_task_status now old new t) s"
  note s2 = raw [folded s1_def]
  from s2 have "tview s2 = tview s1 \<and> cview s2 = cview s1"
    using taskStatusChanged_view by (auto split: option.split_asm)
  moreover have "tview s1 = fmupd tid (nolog (set_task_status now old new t)) (tview s)"
    by (auto intro!: fmap_ext simp: s1_def view_lookup)
  ultimately show thesis using that t s' by (simp add: s1_def)
qed

text \<open>The net effect of a status change on the tasks: only \<open>tid\<close> changes, and only its status.\<close>

definition status_change_of :: "st \<Rightarrow> st \<Rightarrow> string \<Rightarrow> status \<Rightarrow> bool" where
  "status_change_of s s' tid x \<longleftrightarrow>
     cview s' = cview s \<and>
     (\<exists>t rt. fmlookup (tasks s) tid = Some t \<and>
       tview s' = fmupd tid (nolog (t\<lparr>task_status := x, task_ready_time := rt\<rparr>)) (tview s))"

lemma status_change_of_refl:
  "fmlookup (tasks s) tid = Some t \<Longrightarrow> task_status t = x \<Longrightarrow> tview s' = tview s \<Longrightarrow> cview s' = cview s \<Longrightarrow>
     status_change_of s s' tid x"
  unfolding status_change_of_def
  by (auto intro!: exI [of _ "task_ready_time t"] fmap_ext simp: view_lookup)

lemma changeStatus_effect:
  assumes "changeStatus now tid (task_status t) x s = Inr s'" "fmlookup (tasks s) tid = Some t"
  shows "status_change_of s s' tid x"
proof (cases "task_status t = x")
  case True
  with assms show ?thesis by (intro status_change_of_refl) (auto simp: changeStatus_def)
next
  case False
  from changeStatus_view [OF assms(1) False] assms(2) show ?thesis
    unfolding status_change_of_def set_task_status_def by (metis option.inject)
qed

lemma SetStatus_effect:
  assumes "SetStatus now tid x s = Inr s'" "fmlookup (tasks s) tid = Some t"
  shows "status_change_of s s' tid (if x = DoneStatus \<and> task_status t = AbortStatus then AbortStatus else x)"
proof (cases "x = DoneStatus \<and> task_status t = AbortStatus")
  case True
  with assms show ?thesis
    by (auto intro: status_change_of_refl simp: SetStatus_def)
next
  case False
  with assms have "changeStatus now tid (task_status t) x (s\<lparr>modified := True\<rparr>) = Inr s'"
    by (auto simp: SetStatus_def split: if_split_asm)
  from changeStatus_effect [OF this] assms(2) show ?thesis
    unfolding if_not_P [OF False] by (simp add: status_change_of_def)
qed

lemma SetStatus_needs_task:
  "SetStatus now tid x s = Inr s' \<Longrightarrow> \<exists>t. fmlookup (tasks s) tid = Some t"
  by (auto simp: SetStatus_def and_then_Inr_iff split: if_split_asm)

lemma status_change_of_lookup:
  assumes "status_change_of s s' tid x" and "fmlookup (tasks s') k = Some t'"
  obtains t where "fmlookup (tasks s) k = Some t"
    "wait_tasks t' = wait_tasks t" "halt_tasks t' = halt_tasks t" "task_lanes t' = task_lanes t"
    "task_change t' = task_change t" "task_id t' = task_id t" "task_kind t' = task_kind t"
    "task_clean t' = task_clean t" "waited_status t' = waited_status t" "at_time t' = at_time t"
    "task_status t' = (if k = tid then x else task_status t)"
proof -
  from assms(1) obtain t0 rt where t0: "fmlookup (tasks s) tid = Some t0"
    and v: "tview s' = fmupd tid (nolog (t0\<lparr>task_status := x, task_ready_time := rt\<rparr>)) (tview s)"
    by (auto simp: status_change_of_def)
  have "Some (nolog t') = fmlookup (tview s') k" using assms(2) by (simp add: view_lookup)
  also have "\<dots> = (if k = tid then Some (nolog (t0\<lparr>task_status := x, task_ready_time := rt\<rparr>))
                 else map_option nolog (fmlookup (tasks s) k))"
    by (simp add: v view_lookup)
  finally obtain t where t: "fmlookup (tasks s) k = Some t"
    and n: "nolog t' = (if k = tid then nolog (t\<lparr>task_status := x, task_ready_time := rt\<rparr>) else nolog t)"
    using t0 by (cases "k = tid"; cases "fmlookup (tasks s) k") auto
  have "task_status t' = task_status (nolog t')" by simp
  also have "\<dots> = (if k = tid then x else task_status t)" unfolding n by simp
  finally have "task_status t' = (if k = tid then x else task_status t)" .
  moreover have "wait_tasks t' = wait_tasks t" "halt_tasks t' = halt_tasks t"
    "task_lanes t' = task_lanes t" "task_change t' = task_change t" "task_id t' = task_id t"
    "task_kind t' = task_kind t" "task_clean t' = task_clean t"
    "waited_status t' = waited_status t" "at_time t' = at_time t"
    using arg_cong [OF n, of wait_tasks] arg_cong [OF n, of halt_tasks]
      arg_cong [OF n, of task_lanes] arg_cong [OF n, of task_change] arg_cong [OF n, of task_id]
      arg_cong [OF n, of task_kind] arg_cong [OF n, of task_clean]
      arg_cong [OF n, of waited_status] arg_cong [OF n, of at_time]
    by (simp_all split: if_split_asm)
  ultimately show thesis using that t by blast
qed

subsection \<open>Well-formed states\<close>

text \<open>
  The links between tasks and changes: ids are keys, a linked task is listed by its change and
  only waits for and halts linked tasks, \<open>wait_tasks\<close> and \<open>halt_tasks\<close> mirror each other, and the
  tasks a change lists exist and point back to it.
\<close>

definition task_wf :: "(string, task) fmap \<Rightarrow> (string, change) fmap \<Rightarrow> string \<Rightarrow> task \<Rightarrow> bool" where
  "task_wf ts cs k t \<longleftrightarrow>
     task_id t = k \<and>
     (task_change t \<noteq> [] \<longrightarrow>
        (\<exists>c. fmlookup cs (task_change t) = Some c \<and> k \<in> set (chg_tasks c)) \<and>
        (\<forall>d \<in> set (wait_tasks t) \<union> set (halt_tasks t).
           \<exists>u. fmlookup ts d = Some u \<and> task_change u \<noteq> [])) \<and>
     (\<forall>d u. fmlookup ts d = Some u \<longrightarrow> (d \<in> set (wait_tasks t) \<longleftrightarrow> k \<in> set (halt_tasks u)))"

definition change_wf :: "(string, task) fmap \<Rightarrow> string \<Rightarrow> change \<Rightarrow> bool" where
  "change_wf ts k c \<longleftrightarrow>
     chg_id c = k \<and> k \<noteq> [] \<and> notice_data_of c \<noteq> None \<and>
     (\<forall>tid \<in> set (chg_tasks c). \<exists>t. fmlookup ts tid = Some t \<and> task_change t = k)"

definition wf_maps :: "(string, task) fmap \<Rightarrow> (string, change) fmap \<Rightarrow> bool" where
  "wf_maps ts cs \<longleftrightarrow> fmpred (task_wf ts cs) ts \<and> fmpred (change_wf ts) cs"

definition wf :: "st \<Rightarrow> bool" where
  "wf s \<longleftrightarrow> wf_maps (tasks s) (changes s)"

definition t_erase :: "task \<Rightarrow> task" where
  "t_erase t = (nolog t)\<lparr>task_status := DefaultStatus, task_ready_time := 0, waited_status := DefaultStatus,
                 task_clean := False, at_time := 0, doing_time := 0, undoing_time := 0,
                 task_progress := None, task_data := fmempty\<rparr>"

definition c_erase :: "change \<Rightarrow> change" where
  "c_erase c = (chg_core c)\<lparr>chg_status := DefaultStatus, chg_clean := False\<rparr>"

lemma erase_simps [simp]:
  "task_id (t_erase t) = task_id t" "task_change (t_erase t) = task_change t"
  "wait_tasks (t_erase t) = wait_tasks t" "halt_tasks (t_erase t) = halt_tasks t"
  "task_lanes (t_erase t) = task_lanes t" "task_Lanes (t_erase t) = task_Lanes t"
  "chg_id (c_erase c) = chg_id c" "chg_tasks (c_erase c) = chg_tasks c"
  "notice_data_of (c_erase c) = notice_data_of c" "t_erase (nolog t) = t_erase t"
  "c_erase (chg_core c) = c_erase c"
  by (simp_all add: t_erase_def c_erase_def task_Lanes_def)
    (simp_all add: nolog_def chg_core_def notice_data_of_def)

definition shape :: "st \<Rightarrow> (string, task) fmap \<times> (string, change) fmap" where
  "shape s = (fmmap t_erase (tasks s), fmmap c_erase (changes s))"

lemma wf_maps_erase: "wf_maps (fmmap t_erase ts) (fmmap c_erase cs) \<longleftrightarrow> wf_maps ts cs"
proof -
  have "task_wf (fmmap t_erase ts) (fmmap c_erase cs) k (t_erase t) \<longleftrightarrow> task_wf ts cs k t" for k t
    by (simp add: task_wf_def all_conj_distrib) (auto 4 4)
  moreover have "change_wf (fmmap t_erase ts) k (c_erase c) \<longleftrightarrow> change_wf ts k c" for k c
    by (simp add: change_wf_def) (auto 4 3)
  ultimately show ?thesis
    unfolding wf_maps_def fmpred_iff by (simp only: fmlookup_map map_option_eq_Some) metis
qed

lemma shape_wf: "shape s' = shape s \<Longrightarrow> wf s' \<longleftrightarrow> wf s"
  by (metis wf_maps_erase shape_def prod.inject wf_def)

lemma status_change_of_shape:
  assumes "status_change_of s s' tid x"
  shows "shape s' = shape s"
proof -
  from assms obtain t rt where t: "fmlookup (tasks s) tid = Some t" and c: "cview s' = cview s"
    and v: "tview s' = fmupd tid (nolog (t\<lparr>task_status := x, task_ready_time := rt\<rparr>)) (tview s)"
    by (auto simp: status_change_of_def)
  have e: "t_erase (t\<lparr>task_status := x, task_ready_time := rt\<rparr>) = t_erase t"
    by (simp add: t_erase_def nolog_def)
  have 1: "fmmap t_erase (tasks u) = fmmap t_erase (tview u)" for u
    by (rule fmap_ext) (simp add: view_lookup option.map_comp o_def)
  have 2: "fmmap c_erase (changes u) = fmmap c_erase (cview u)" for u
    by (rule fmap_ext) (simp add: view_lookup option.map_comp o_def)
  have "fmmap t_erase (tasks s') = fmmap t_erase (tasks s)"
    unfolding 1 v by (rule fmap_ext) (auto simp: view_lookup t e option.map_comp o_def)
  with c show ?thesis by (simp add: shape_def 2)
qed

lemma SetStatus_shape: "SetStatus now tid x s = Inr s' \<Longrightarrow> shape s' = shape s"
  using SetStatus_needs_task SetStatus_effect status_change_of_shape by blast

lemma SetStatus_wf: "SetStatus now tid x s = Inr s' \<Longrightarrow> wf s' \<longleftrightarrow> wf s"
  by (rule shape_wf) (rule SetStatus_shape)

lemma wf_task:
  assumes "wf s" "fmlookup (tasks s) k = Some t"
  shows "task_wf (tasks s) (changes s) k t"
  using assms by (auto simp: wf_def wf_maps_def fmpred_iff)

lemma wf_change:
  assumes "wf s" "fmlookup (changes s) k = Some c"
  shows "change_wf (tasks s) k c"
  using assms by (auto simp: wf_def wf_maps_def fmpred_iff)

subsection \<open>When a status operation returns\<close>

definition linked :: "st \<Rightarrow> string \<Rightarrow> bool" where
  "linked s tid \<longleftrightarrow> (\<exists>t. fmlookup (tasks s) tid = Some t \<and> task_change t \<noteq> [])"

lemma linked_dep:
  "wf s \<Longrightarrow> linked s tid \<Longrightarrow> fmlookup (tasks s) tid = Some t \<Longrightarrow>
     d \<in> set (wait_tasks t) \<union> set (halt_tasks t) \<Longrightarrow> linked s d"
  by (auto simp: linked_def dest!: wf_task simp: task_wf_def)

lemma linked_change:
  "wf s \<Longrightarrow> linked s tid \<Longrightarrow> fmlookup (tasks s) tid = Some t \<Longrightarrow>
     \<exists>c. task_Change s t = Some c \<and> tid \<in> set (chg_tasks c)"
  by (auto simp: linked_def task_Change_def dest!: wf_task simp: task_wf_def)

lemma chg_tasks_linked:
  "wf s \<Longrightarrow> fmlookup (changes s) cid = Some c \<Longrightarrow> tid \<in> set (chg_tasks c) \<Longrightarrow> linked s tid"
  by (fastforce simp: linked_def dest!: wf_change simp: change_wf_def)

lemma waiting_walk_fault:
  "is_task_waiting n s w tid deps = Inl e \<Longrightarrow> wf s \<Longrightarrow> linked s tid \<Longrightarrow>
     (\<And>d. d \<in> set deps \<Longrightarrow> linked s d) \<Longrightarrow> e = OutOfFuel"
  "deps_check n s w ds b0 = Inl e \<Longrightarrow> wf s \<Longrightarrow> (\<And>d. d \<in> set ds \<Longrightarrow> linked s d) \<Longrightarrow> e = OutOfFuel"
proof (induction n s w tid deps and n s w ds b0 arbitrary: e and e
    rule: is_task_waiting_deps_check.induct)
  case (2 n s w tid deps)
  from \<open>linked s tid\<close> obtain t where t: "fmlookup (tasks s) tid = Some t" by (auto simp: linked_def)
  show ?case
  proof (cases "fst w tid")
    case taskWaitStatusNotComputed
    with "2.prems"(1) have
      "deps_check n s ((fst w)(tid := taskWaitStatusComputing), snd w) deps False = Inl e"
      by (auto simp: and_then_Inl_iff)
    from "2.IH" [OF taskWaitStatusNotComputed this "2.prems"(2,4)] show ?thesis .
  next
    case taskWaitStatusComputing
    with "2.prems"(1) t linked_change [OF "2.prems"(2,3) t] show ?thesis by auto
  qed (use "2.prems" in auto)
next
  case (4 n s w d ds b0)
  from "4.prems"(3) have d: "linked s d" and ds: "\<And>d. d \<in> set ds \<Longrightarrow> linked s d" by auto
  then obtain t where t: "fmlookup (tasks s) d = Some t" by (auto simp: linked_def)
  then have t': "need_task s d = Inr t" by simp
  have deps: "\<And>x. x \<in> set (wait_tasks t) \<Longrightarrow> linked s x" "\<And>x. x \<in> set (halt_tasks t) \<Longrightarrow> linked s x"
    using linked_dep [OF "4.prems"(2) d t] by auto
  show ?case
  proof (cases "task_Status t")
    case DoStatus
    show ?thesis
    proof (cases "is_task_waiting n s w d (wait_tasks t)")
      case (Inl e1)
      with "4.prems"(1) t' DoStatus "4.IH"(2) [OF t' DoStatus _ "4.prems"(2) d deps(1)] show ?thesis by simp
    next
      case (Inr r)
      obtain w1 b1 where r: "r = (w1, b1)" by (cases r)
      from "4.prems"(1) t' DoStatus Inr r have b1: "b1" "deps_check n s w1 ds True = Inl e"
        by (auto split: if_splits)
      from "4.IH"(3) [OF t' DoStatus Inr r [symmetric] b1 "4.prems"(2) ds] show ?thesis .
    qed
  next
    case UndoStatus
    show ?thesis
    proof (cases "is_task_waiting n s w d (halt_tasks t)")
      case (Inl e1)
      with "4.prems"(1) t' UndoStatus "4.IH"(5) [OF t' UndoStatus _ "4.prems"(2) d deps(2)] show ?thesis by simp
    next
      case (Inr r)
      obtain w1 b1 where r: "r = (w1, b1)" by (cases r)
      from "4.prems"(1) t' UndoStatus Inr r have b1: "b1" "deps_check n s w1 ds True = Inl e"
        by (auto split: if_splits)
      from "4.IH"(6) [OF t' UndoStatus Inr r [symmetric] b1 "4.prems"(2) ds] show ?thesis .
    qed
  qed (use "4.prems"(1,2) "4.IH"(1,4,7,8,9) [OF t' _ _ "4.prems"(2) ds] t' in auto)
qed auto

lemma change_waiting_fault:
  "change_waiting_loop n s w tids = Inl e \<Longrightarrow> wf s \<Longrightarrow> (\<And>d. d \<in> set tids \<Longrightarrow> linked s d) \<Longrightarrow>
     e = OutOfFuel"
proof (induction tids arbitrary: w)
  case (Cons tid tids)
  from Cons.prems(3) have d: "linked s tid" and ds: "\<And>d. d \<in> set tids \<Longrightarrow> linked s d" by auto
  then obtain t where t: "fmlookup (tasks s) tid = Some t" by (auto simp: linked_def)
  then have t': "need_task s tid = Inr t" by simp
  have deps: "x \<in> set (wait_tasks t) \<or> x \<in> set (halt_tasks t) \<Longrightarrow> linked s x" for x
    using linked_dep [OF Cons.prems(2) d t] by auto
  have walk: "e = OutOfFuel"
    if "and_then (is_task_waiting n s w tid ds)
          (\<lambda>(w', b). if b then change_waiting_loop n s w' tids else Inr (snd w', False)) = Inl e"
      and "\<And>x. x \<in> set ds \<Longrightarrow> linked s x" for ds
  proof (cases "is_task_waiting n s w tid ds")
    case (Inl e1)
    with that waiting_walk_fault(1) [OF _ Cons.prems(2) d] show ?thesis by auto
  next
    case (Inr r)
    with that(1) Cons.IH [of "fst r"] Cons.prems(2) ds show ?thesis
      by (auto split: prod.split_asm if_splits)
  qed
  show ?case
    by (cases "task_Status t")
      (use Cons.prems(1,2) ds t' Cons.IH [of w] walk [of "wait_tasks t"] walk [of "halt_tasks t"] deps in auto)
qed simp

lemma isChangeWaiting_ok:
  assumes "wf s" "fmlookup (changes s) cid = Some c"
  shows "\<exists>r. isChangeWaiting s c = Inr r"
proof (cases "isChangeWaiting s c")
  case (Inl e)
  then have "e = OutOfFuel"
    unfolding isChangeWaiting_def
    by (rule change_waiting_fault) (use assms chg_tasks_linked in auto)
  with Inl isChangeWaiting_fuel show ?thesis by simp
qed auto

lemma map_try_need_ok:
  "(\<And>tid. tid \<in> set tids \<Longrightarrow> fmlookup (tasks s) tid \<noteq> None) \<Longrightarrow> \<exists>ts. map_try (need_task s) tids = Inr ts"
  by (rule exI, rule map_try_map [of _ _ "\<lambda>tid. the (fmlookup (tasks s) tid)"]) auto

lemma computed_status_ok:
  assumes "wf s" "fmlookup (changes s) cid = Some c"
  shows "\<exists>r. computed_status s c = Inr r"
proof -
  obtain ts where ts: "map_try (need_task s) (chg_tasks c) = Inr ts"
    using map_try_need_ok [of "chg_tasks c" s] chg_tasks_linked [OF assms] by (auto simp: linked_def)
  obtain lg b where w: "isChangeWaiting s c = Inr (lg, b)"
    using isChangeWaiting_ok [OF assms] by auto
  have stats: "(\<lambda>st. 0 < count_list (map task_Status ts) st) = (\<lambda>st. st \<in> set (map task_Status ts))"
    by (metis count_list_0_iff gr0I less_irrefl)
  have "find (\<lambda>st. st \<in> set (map task_Status ts)) statusOrder \<noteq> None" if "chg_tasks c \<noteq> []"
  proof -
    from that obtain tid where "tid \<in> set (chg_tasks c)" by (cases "chg_tasks c") auto
    with map_try_need_task [OF ts, of tid] obtain t where "t \<in> set ts" by auto
    then show ?thesis by (intro find_statusOrder_ne [of "task_Status t"]) auto
  qed
  then show ?thesis
    by (auto simp: computed_status_def ts w Let_def stats)
qed

lemma change_Status_ok:
  assumes "wf s" "fmlookup (changes s) cid = Some c"
  shows "\<exists>s' x. change_Status now cid s = Inr (s', x)"
  using computed_status_ok [OF assms] assms(2) by (auto simp: change_Status_def)

lemma shape_change:
  assumes "shape s' = shape s" "fmlookup (changes s) cid = Some c"
  shows "\<exists>c'. fmlookup (changes s') cid = Some c' \<and> c_erase c' = c_erase c"
proof -
  from assms have "map_option c_erase (fmlookup (changes s') cid) = Some (c_erase c)"
    by (metis fmlookup_map option.map(2) prod.inject shape_def)
  then show ?thesis by auto
qed

lemma view_shape: "tview s' = tview s \<Longrightarrow> cview s' = cview s \<Longrightarrow> shape s' = shape s"
proof -
  have 1: "fmmap t_erase (tasks u) = fmmap t_erase (tview u)" for u
    by (rule fmap_ext) (simp add: view_lookup option.map_comp o_def)
  have 2: "fmmap c_erase (changes u) = fmmap c_erase (cview u)" for u
    by (rule fmap_ext) (simp add: view_lookup option.map_comp o_def)
  assume "tview s' = tview s" "cview s' = cview s"
  then show ?thesis unfolding shape_def 1 2 by simp
qed

lemma notifyStatusChange_ok:
  assumes "wf s" "fmlookup (changes s) cid = Some c"
  shows "\<exists>s'. notifyStatusChange now cid x s = Inr s'"
proof -
  define s1 where "s1 = observe_change cid x c s"
  have c1: "\<exists>c1. fmlookup (changes s1) cid = Some c1 \<and> chg_core c1 = chg_core c"
    using assms(2) by (auto simp: s1_def observe_change_def)
  then obtain c1 where c1: "fmlookup (changes s1) cid = Some c1" "chg_core c1 = chg_core c" by blast
  have "notice_data_of c1 = notice_data_of c" "chg_id c1 = chg_id c"
    using arg_cong [OF c1(2), of notice_data_of] arg_cong [OF c1(2), of chg_id] by simp_all
  with wf_change [OF assms] have "notice_data_of c1 \<noteq> None" "chg_id c1 \<noteq> []"
    by (auto simp: change_wf_def)
  from change_addNotice_ok [OF c1(1) this] obtain s2 where s2: "change_addNotice now cid s1 = Inr s2" by blast
  then have "fmlookup (changes s2) cid = Some c1" using c1 change_addNotice_frame [OF s2] by simp
  with s2 assms(2) show ?thesis
    by (auto simp: notifyStatusChange_def s1_def)
qed

lemma others_ready_iff:
  assumes "\<And>tid. tid \<in> set tids \<Longrightarrow> fmlookup (tasks s) tid \<noteq> None"
  shows "others_ready s ex tids =
    Inr (\<forall>tid \<in> set tids. tid = ex \<or> (\<exists>t. fmlookup (tasks s) tid = Some t \<and> status_Ready (task_status t)))"
  using assms
proof (induction tids)
  case (Cons a tids)
  then obtain t where t: "fmlookup (tasks s) a = Some t" by fastforce
  from Cons have IH: "others_ready s ex tids =
    Inr (\<forall>tid \<in> set tids. tid = ex \<or> (\<exists>t. fmlookup (tasks s) tid = Some t \<and> status_Ready (task_status t)))"
    by (simp add: Cons.IH)
  show ?case by (simp add: t IH)
qed simp

definition tasks_ready :: "st \<Rightarrow> string list \<Rightarrow> bool" where
  "tasks_ready s tids \<longleftrightarrow>
     (\<forall>tid \<in> set tids. \<exists>t. fmlookup (tasks s) tid = Some t \<and> status_Ready (task_status t))"

lemma computed_status_ready:
  assumes "computed_status s c = Inr (x, lg)" "chg_status c = DefaultStatus" "tasks_ready s (chg_tasks c)"
  shows "status_Ready x"
proof (cases "chg_tasks c = []")
  case False
  from assms(1,2) False show ?thesis
  proof (cases rule: computed_status_cases)
    case (waiting lg' ts)
    from waiting(4)
    obtain t where "t \<in> set ts" "task_Status t = WaitStatus" by auto
    with map_try_need_task [OF waiting(3)] assms(3) show ?thesis
      by (metis option.inject status_Ready.simps task_Status_Ready tasks_ready_def)
  next
    case (order ts)
    then obtain t where t: "t \<in> set ts" "x = task_Status t" by (auto simp: find_Some_iff)
    with map_try_need_task [OF order(1)] assms(3) show ?thesis
      by (metis option.inject task_Status_Ready tasks_ready_def)
  qed
qed (use assms in \<open>auto simp: computed_status_def\<close>)


text \<open>
  \<open>Status\<close>, \<open>SetStatus\<close> and the ready detection of a change return, unless a task of a change
  that is already ready becomes unready again, which is the one panic they have.
\<close>

definition status_set_ready :: "change \<Rightarrow> bool" where
  "status_set_ready c \<longleftrightarrow> chg_status c = DefaultStatus \<or> status_Ready (chg_status c)"

lemma detectChangeReady_ok:
  assumes wf: "wf s" and c: "fmlookup (changes s) cid = Some c" and set: "status_set_ready c"
    and ex: "\<exists>t. fmlookup (tasks s) ex = Some t \<and> status_Ready (task_status t)"
  shows "\<exists>s'. detectChangeReady now cid ex s = Inr s'"
proof -
  have dom: "\<And>tid. tid \<in> set (chg_tasks c) \<Longrightarrow> fmlookup (tasks s) tid \<noteq> None"
    using chg_tasks_linked [OF wf c] by (auto simp: linked_def)
  define b where "b = (\<forall>tid \<in> set (chg_tasks c). tid = ex \<or>
    (\<exists>t. fmlookup (tasks s) tid = Some t \<and> status_Ready (task_status t)))"
  have o: "others_ready s ex (chg_tasks c) = Inr b"
    unfolding b_def by (rule others_ready_iff) (rule dom)
  obtain s1 x where s1: "change_Status now cid s = Inr (s1, x)"
    using change_Status_ok [OF wf c] by blast
  have ready: "status_Ready x" if b
  proof -
    from that ex have "tasks_ready s (chg_tasks c)" by (auto simp: b_def tasks_ready_def)
    moreover from s1 c obtain lg where "computed_status s c = Inr (x, lg)"
      by (auto simp: change_Status_def and_then_Inr_iff)
    ultimately show ?thesis
      using set computed_status_ready [of s c x lg]
      by (cases "chg_status c = DefaultStatus") (auto simp: computed_status_def status_set_ready_def)
  qed
  show ?thesis
    using c change_Status_view(2) [OF s1]
    by (cases b; cases "chg_ready c") (auto simp: detectChangeReady_def o s1 ready)
qed

lemma detectChangeReady_skip:
  assumes "wf s" "fmlookup (changes s) cid = Some c" "tid \<in> set (chg_tasks c)" "tid \<noteq> ex"
    "fmlookup (tasks s) tid = Some t" "\<not> status_Ready (task_status t)"
  shows "detectChangeReady now cid ex s = Inr s"
proof -
  have "others_ready s ex (chg_tasks c) = Inr False"
    using assms chg_tasks_linked [OF assms(1,2)]
    by (subst others_ready_iff) (auto simp: linked_def)
  with assms(2) show ?thesis by (simp add: detectChangeReady_def)
qed

lemma same_view_status:
  assumes "tview s' = tview s" "fmlookup (tasks s) k = Some t"
  shows "\<exists>t'. fmlookup (tasks s') k = Some t' \<and> task_status t' = task_status t"
  using tview_eqD [OF assms(1) [symmetric] assms(2)] by (metis nolog_simps(2))

lemma changeStatus_ok:
  assumes wf: "wf s" and t: "fmlookup (tasks s) tid = Some t"
    and old: "\<And>c. task_Change s t = Some c \<Longrightarrow> status_Ready (task_status t) \<Longrightarrow> \<not> status_Ready x \<Longrightarrow>
          \<exists>k u. k \<in> set (chg_tasks c) \<and> k \<noteq> tid \<and> fmlookup (tasks s) k = Some u \<and>
            \<not> status_Ready (task_status u)"
    and set: "\<And>c. task_Change s t = Some c \<Longrightarrow> status_set_ready c"
  shows "\<exists>s'. changeStatus now tid (task_status t) x s = Inr s'"
proof (cases "task_status t = x")
  case False
  define s1 where "s1 = put_task tid (set_task_status now (task_status t) x t) s"
  have "tview s1 = fmupd tid (nolog (t\<lparr>task_status := x, task_ready_time :=
           (if \<not> status_Ready (task_status t) \<and> status_Ready x then now else task_ready_time t)\<rparr>)) (tview s)"
    by (auto intro!: fmap_ext simp: s1_def view_lookup set_task_status_def)
  moreover have "cview s1 = cview s" by (simp add: s1_def)
  ultimately have "status_change_of s s1 tid x"
    using t unfolding status_change_of_def by blast
  then have sh: "shape s1 = shape s" by (rule status_change_of_shape)
  have "\<exists>s2. taskStatusChanged now (task_change t) tid (task_status t) x s1 = Inr s2"
    if c: "task_Change s1 t = Some c" for c
  proof -
    from c have c1: "fmlookup (changes s1) (task_change t) = Some c"
      and c0: "task_Change s t = Some c" by (simp_all add: task_Change_def s1_def)
    have wf1: "wf s1" using shape_wf [OF sh] wf by simp
    obtain s2 cs where s2: "change_Status now (task_change t) s1 = Inr (s2, cs)"
      using change_Status_ok [OF wf1 c1] by blast
    have c2: "fmlookup (changes s2) (task_change t) = Some c"
      using change_Status_view(2) [OF s2] c1 by simp
    have wf2: "wf s2"
      using shape_wf [OF view_shape [of s2 s1]] wf1 change_Status_view [OF s2] by (simp add: cview_def)
    show ?thesis
    proof (cases "status_Ready (task_status t) = status_Ready x")
      case True
      with s2 notifyStatusChange_ok [OF wf2 c2] show ?thesis by (simp add: taskStatusChanged_def)
    next
      case False
      have "\<exists>s3. detectChangeReady now (task_change t) tid s2 = Inr s3"
      proof (cases "status_Ready x")
        case True
        have "fmlookup (tasks s1) tid = Some (set_task_status now (task_status t) x t)"
          by (simp add: s1_def)
        with True have "\<exists>u. fmlookup (tasks s2) tid = Some u \<and> status_Ready (task_status u)"
          using same_view_status [OF change_Status_view(1) [OF s2]]
          by (fastforce simp: set_task_status_def)
        then show ?thesis using detectChangeReady_ok [OF wf2 c2 set [OF c0]] by blast
      next
        case no: False
        with False old [OF c0] obtain k u where k: "k \<in> set (chg_tasks c)" "k \<noteq> tid"
          and u: "fmlookup (tasks s) k = Some u" "\<not> status_Ready (task_status u)" by blast
        from k u have "fmlookup (tasks s1) k = Some u" by (simp add: s1_def)
        from same_view_status [OF change_Status_view(1) [OF s2] this] u(2)
        obtain v where "fmlookup (tasks s2) k = Some v" "\<not> status_Ready (task_status v)" by auto
        from detectChangeReady_skip [OF wf2 c2 k this] show ?thesis by blast
      qed
      then obtain s3 where s3: "detectChangeReady now (task_change t) tid s2 = Inr s3" ..
      from detectChangeReady_view [OF s3] have "shape s3 = shape s2" by (rule view_shape)
      with shape_wf [OF this] wf2 shape_change [OF this c2]
      obtain c3 where "wf s3" "fmlookup (changes s3) (task_change t) = Some c3" by blast
      from notifyStatusChange_ok [OF this] s2 s3 False show ?thesis
        by (simp add: taskStatusChanged_def)
    qed
  qed
  then show ?thesis
    by (cases "task_Change s1 t") (auto simp: changeStatus_def False t Let_def s1_def)
qed (simp add: changeStatus_def)

lemma SetStatus_ok:
  assumes "wf s" "fmlookup (tasks s) tid = Some t" "x \<noteq> WaitStatus"
    and "\<And>c. task_Change s t = Some c \<Longrightarrow> status_Ready (task_status t) \<Longrightarrow> \<not> status_Ready x \<Longrightarrow>
          \<exists>k u. k \<in> set (chg_tasks c) \<and> k \<noteq> tid \<and> fmlookup (tasks s) k = Some u \<and>
            \<not> status_Ready (task_status u)"
    and "\<And>c. task_Change s t = Some c \<Longrightarrow> status_set_ready c"
  shows "\<exists>s'. SetStatus now tid x s = Inr s'"
proof -
  have "\<exists>s'. changeStatus now tid (task_status t) x (s\<lparr>modified := True\<rparr>) = Inr s'"
    by (rule changeStatus_ok) (use assms in \<open>auto simp: wf_def task_Change_def\<close>)
  then show ?thesis using assms(2,3) by (simp add: SetStatus_def)
qed

subsection \<open>A change is ready once all of its tasks are\<close>

definition ready_inv :: "st \<Rightarrow> bool" where
  "ready_inv s \<longleftrightarrow> (\<forall>cid c. fmlookup (changes s) cid = Some c \<longrightarrow> chg_tasks c \<noteq> [] \<longrightarrow>
     tasks_ready s (chg_tasks c) \<longrightarrow> chg_ready c)"

lemma detectChangeReady_marks:
  assumes "detectChangeReady now cid ex s = Inr s'" "fmlookup (changes s) cid = Some c"
    "tasks_ready s (chg_tasks c)"
  shows "map_option chg_ready (fmlookup (changes s') cid) = Some True"
proof -
  have "others_ready s ex (chg_tasks c) = Inr True"
    using assms(3) by (subst others_ready_iff) (auto simp: tasks_ready_def)
  with assms(1,2) show ?thesis
    by (auto simp: detectChangeReady_def markReady_def and_then_Inr_iff split: if_split_asm)
qed

lemma detectChangeReady_mono:
  assumes "detectChangeReady now cid ex s = Inr s'" "fmlookup (changes s) k = Some c"
  shows "\<exists>c'. fmlookup (changes s') k = Some c' \<and> (chg_ready c \<longrightarrow> chg_ready c')"
  using assms change_Status_view(2)
  by (auto simp: detectChangeReady_def markReady_def and_then_Inr_iff split: if_split_asm)

lemma tasks_ready_view:
  assumes "tview s' = tview s"
  shows "tasks_ready s' tids = tasks_ready s tids"
proof -
  have "(\<exists>t. fmlookup (tasks s') k = Some t \<and> status_Ready (task_status t)) \<longleftrightarrow>
        (\<exists>t. fmlookup (tasks s) k = Some t \<and> status_Ready (task_status t))" for k
    using same_view_status [OF assms] same_view_status [OF assms [symmetric]] by metis
  then show ?thesis by (simp add: tasks_ready_def)
qed


lemma taskStatusChanged_mono:
  assumes "taskStatusChanged now cid tid old new s = Inr s'" "fmlookup (changes s) k = Some c"
  shows "\<exists>c'. fmlookup (changes s') k = Some c' \<and> (chg_ready c \<longrightarrow> chg_ready c')"
proof -
  from assms(1) obtain s1 cs s2 where s1: "change_Status now cid s = Inr (s1, cs)"
    and s2: "s2 = s1 \<or> detectChangeReady now cid tid s1 = Inr s2"
    and s': "notifyStatusChange now cid cs s2 = Inr s'"
    by (auto simp: taskStatusChanged_def and_then_Inr_iff split: if_split_asm)
  from change_Status_view(2) [OF s1] assms(2) have "fmlookup (changes s1) k = Some c" by simp
  with s2 detectChangeReady_mono obtain c2 where c2: "fmlookup (changes s2) k = Some c2"
    "chg_ready c \<longrightarrow> chg_ready c2" by blast
  with notifyStatusChange_view(3) [OF s', of k] show ?thesis
    by (cases "fmlookup (changes s') k") auto
qed

lemma taskStatusChanged_marks:
  assumes "taskStatusChanged now cid tid old new s = Inr s'" "fmlookup (changes s) cid = Some c"
    "status_Ready old \<noteq> status_Ready new" "tasks_ready s (chg_tasks c)"
  shows "map_option chg_ready (fmlookup (changes s') cid) = Some True"
proof -
  from assms(1,3) obtain s1 cs s2 where s1: "change_Status now cid s = Inr (s1, cs)"
    and s2: "detectChangeReady now cid tid s1 = Inr s2"
    and s': "notifyStatusChange now cid cs s2 = Inr s'"
    by (auto simp: taskStatusChanged_def and_then_Inr_iff)
  from change_Status_view(2) [OF s1] assms(2) have "fmlookup (changes s1) cid = Some c" by simp
  moreover have "tasks_ready s1 (chg_tasks c)"
    using tasks_ready_view [OF change_Status_view(1) [OF s1]] assms(4) by simp
  ultimately have "map_option chg_ready (fmlookup (changes s2) cid) = Some True"
    by (rule detectChangeReady_marks [OF s2])
  with notifyStatusChange_view(3) [OF s', of cid] show ?thesis by simp
qed

lemma changeStatus_ready_inv:
  assumes "wf s" "ready_inv s" and t: "fmlookup (tasks s) tid = Some t"
    and run: "changeStatus now tid (task_status t) x s = Inr s'"
  shows "ready_inv s'"
  unfolding ready_inv_def
proof (intro allI impI)
  fix k c' assume c': "fmlookup (changes s') k = Some c'" and ne: "chg_tasks c' \<noteq> []"
    and ready: "tasks_ready s' (chg_tasks c')"
  show "chg_ready c'"
  proof (cases "task_status t = x")
    case True
    with assms c' ne ready show ?thesis by (simp add: changeStatus_def ready_inv_def)
  next
    case False
    define s1 where "s1 = put_task tid (set_task_status now (task_status t) x t) s"
    have "and_then (case task_Change s1 t of None \<Rightarrow> Inr s1
            | Some c \<Rightarrow> taskStatusChanged now (task_change t) tid (task_status t) x s1)
           (\<lambda>s2. Inr (emit (TaskStatusChanged tid (task_status t) x) s2)) = Inr s'"
      using run unfolding changeStatus_def if_not_P [OF False] need_task_eq [OF t] and_then_simps
        Let_def s1_def .
    then obtain s2 where
      s2: "(case task_Change s1 t of None \<Rightarrow> Inr s1
            | Some c \<Rightarrow> taskStatusChanged now (task_change t) tid (task_status t) x s1) = Inr s2"
      and s': "s' = emit (TaskStatusChanged tid (task_status t) x) s2"
      by (auto simp: and_then_Inr_iff)
    from s2 have v: "tview s2 = tview s1 \<and> cview s2 = cview s1"
      using taskStatusChanged_view by (auto split: option.split_asm)
    with c' s' obtain c where c1: "fmlookup (changes s1) k = Some c" and core: "chg_core c' = chg_core c"
      using cview_eqD [of s2 s1 k c'] by auto
    have c: "fmlookup (changes s) k = Some c" using c1 by (simp add: s1_def)
    have tids: "chg_tasks c' = chg_tasks c" using arg_cong [OF core, of chg_tasks] by simp
    have ready1: "tasks_ready s1 (chg_tasks c)"
      using ready tids tasks_ready_view [of s' s1 "chg_tasks c"] s' v by simp
    have mono: "chg_ready c \<longrightarrow> chg_ready c'"
      using s2 c1 c' s' taskStatusChanged_mono [of now _ tid "task_status t" x s1 s2 k c]
      by (fastforce split: option.split_asm)
    show ?thesis
    proof (cases "tid \<in> set (chg_tasks c) \<and> status_Ready (task_status t) \<noteq> status_Ready x")
      case True
      with wf_change [OF \<open>wf s\<close> c] t have k: "task_change t = k" by (auto simp: change_wf_def)
      with s2 c1 have "taskStatusChanged now k tid (task_status t) x s1 = Inr s2"
        by (simp add: task_Change_def)
      from taskStatusChanged_marks [OF this c1] True ready1 c' s' show ?thesis by simp
    next
      case False
      with ready1 t have "tasks_ready s (chg_tasks c)"
        by (auto simp: tasks_ready_def s1_def set_task_status_def split: if_split_asm)
      with \<open>ready_inv s\<close> c ne tids have "chg_ready c" by (auto simp: ready_inv_def)
      with mono show ?thesis by blast
    qed
  qed
qed

lemma SetStatus_ready_inv:
  assumes "wf s" "ready_inv s" "SetStatus now tid x s = Inr s'"
  shows "ready_inv s'"
proof -
  from SetStatus_needs_task [OF assms(3)] obtain t where t: "fmlookup (tasks s) tid = Some t" ..
  have inv: "ready_inv (s\<lparr>modified := True\<rparr>)" "wf (s\<lparr>modified := True\<rparr>)"
    using assms by (auto simp: ready_inv_def wf_def tasks_ready_def)
  show ?thesis
  proof (cases "x = DoneStatus \<and> task_status t = AbortStatus")
    case True
    with assms(3) t inv show ?thesis by (auto simp: SetStatus_def)
  next
    case False
    with assms(3) t have "changeStatus now tid (task_status t) x (s\<lparr>modified := True\<rparr>) = Inr s'"
      by (auto simp: SetStatus_def split: if_split_asm)
    with changeStatus_ready_inv [OF inv(2,1)] t show ?thesis by simp
  qed
qed


subsection \<open>Sample states are well formed\<close>

definition sample_ok :: "(string \<times> task) list \<Rightarrow> bool" where
  "sample_ok ts \<longleftrightarrow> list_all (\<lambda>(k, t). task_id t = k \<and> task_change t = ''1'' \<and>
     list_all (\<lambda>d. d \<in> fst ` set ts) (wait_tasks t @ halt_tasks t) \<and>
     list_all (\<lambda>(d, u). (d \<in> set (wait_tasks t)) = (k \<in> set (halt_tasks u))) ts) ts"

lemma sample_wf:
  assumes "sample_ok ts"
  shows "wf (sample_state ts)"
proof -
  have ok: "task_id t = k" "task_change t = ''1''"
    "\<And>d. d \<in> set (wait_tasks t) \<union> set (halt_tasks t) \<Longrightarrow> \<exists>u. map_of ts d = Some u \<and> task_change u = ''1''"
    "\<And>d u. map_of ts d = Some u \<Longrightarrow> d \<in> set (wait_tasks t) \<longleftrightarrow> k \<in> set (halt_tasks u)"
    if "map_of ts k = Some t" for k t
  proof -
    from map_of_SomeD [OF that] assms have *: "task_id t = k" "task_change t = ''1''"
      "list_all (\<lambda>d. d \<in> fst ` set ts) (wait_tasks t @ halt_tasks t)"
      "list_all (\<lambda>(d, u). (d \<in> set (wait_tasks t)) = (k \<in> set (halt_tasks u))) ts"
      by (auto simp: sample_ok_def list_all_iff)
    show "task_id t = k" "task_change t = ''1''" by fact+
    show "d \<in> set (wait_tasks t) \<longleftrightarrow> k \<in> set (halt_tasks u)" if "map_of ts d = Some u" for d u
      using *(4) map_of_SomeD [OF that] by (auto simp: list_all_iff)
    show "\<exists>u. map_of ts d = Some u \<and> task_change u = ''1''"
      if "d \<in> set (wait_tasks t) \<union> set (halt_tasks t)" for d
    proof -
      from that *(3) have "d \<in> fst ` set ts" by (auto simp: list_all_iff)
      then obtain u where u: "map_of ts d = Some u"
        by (metis map_of_eq_None_iff not_None_eq)
      from map_of_SomeD [OF u] assms have "task_change u = ''1''"
        by (auto simp: sample_ok_def list_all_iff)
      with u show ?thesis by blast
    qed
  qed
  have dom: "k \<in> fst ` set ts" if "map_of ts k = Some t" for k t
    using map_of_SomeD [OF that] by force
  have t: "task_wf (tasks (sample_state ts)) (changes (sample_state ts)) k t" if "map_of ts k = Some t" for k t
  proof -
    have m: "fmlookup (tasks (sample_state ts)) d = map_of ts d" for d
      by (simp add: sample_state_def fmlookup_of_list)
    have c: "\<exists>c. fmlookup (changes (sample_state ts)) ''1'' = Some c \<and> k \<in> set (chg_tasks c)"
      using dom [OF that] by (simp add: sample_state_def fmlookup_of_list)
    have "\<exists>u. map_of ts d = Some u \<and> task_change u \<noteq> []" if "d \<in> set (wait_tasks t) \<union> set (halt_tasks t)" for d
      using ok(3) [OF \<open>map_of ts k = Some t\<close> that] by auto
    then show ?thesis
      unfolding task_wf_def m using c ok(1,2,4) [OF that] by metis
  qed
  have c: "change_wf (tasks (sample_state ts)) ''1'' c" if "fmlookup (changes (sample_state ts)) ''1'' = Some c" for c
  proof -
    have "\<exists>t. map_of ts k = Some t \<and> task_change t = ''1''" if "k \<in> fst ` set ts" for k
    proof -
      from that obtain t where u: "map_of ts k = Some t"
        by (metis map_of_eq_None_iff not_None_eq)
      with ok(2) [OF u] show ?thesis by blast
    qed
    with that show ?thesis
      by (auto simp: change_wf_def sample_state_def fmlookup_of_list newChange_def notice_data_of_def data_get_def Let_def)
  qed
  show ?thesis
    unfolding wf_def wf_maps_def fmpred_iff using t c
    by (auto simp: sample_state_def fmlookup_of_list split: if_split_asm)
qed

definition sample_chain :: "(string \<times> task) list" where
  "sample_chain =
     [(''1'', sample_task ''1'' DoneStatus [] [''2''] [1]),
      (''2'', sample_task ''2'' DoingStatus [''1''] [''3''] [1]),
      (''3'', sample_task ''3'' DoStatus [''2''] [] [1]),
      (''4'', sample_task ''4'' DoneStatus [] [] [2])]"

lemma sample_chain_wf: "wf (sample_state sample_chain)"
  by (rule sample_wf) code_simp

subsection \<open>Properties\<close>

text \<open>
  C19: \<open>Change.Status\<close> on a well-formed state always returns: neither the aggregation panic, nor a
  nil task, nor unbounded recursion is possible, whatever the dependencies, cyclic ones included.
  It changes nothing but task logs.
\<close>

theorem change_Status_total:
  assumes "wf s" "fmlookup (changes s) cid = Some c"
  shows "\<exists>s' x. change_Status now cid s = Inr (s', x) \<and> tview s' = tview s \<and> changes s' = changes s"
  using change_Status_ok [OF assms] change_Status_view by blast

theorem change_Status_total_witness:
  "\<exists>s' x. change_Status 9 ''1'' (sample_state sample_chain) = Inr (s', x) \<and>
     tview s' = tview (sample_state sample_chain) \<and> changes s' = changes (sample_state sample_chain)"
  by (rule change_Status_total [OF sample_chain_wf]) (simp add: sample_state_def fmlookup_of_list)

text \<open>
  \<open>Task.SetStatus\<close> returns unless it is asked for \<open>WaitStatus\<close> or takes the only unready
  chance of a ready change back; it changes the status of that task only (an aborting task asked
  to become done stays aborting), and keeps all links between tasks and changes.
\<close>

lemma SetStatus_correct:
  assumes "wf s" "fmlookup (tasks s) tid = Some t" "x \<noteq> WaitStatus"
    "\<And>c. task_Change s t = Some c \<Longrightarrow> status_Ready (task_status t) \<Longrightarrow> \<not> status_Ready x \<Longrightarrow>
       \<exists>k u. k \<in> set (chg_tasks c) \<and> k \<noteq> tid \<and> fmlookup (tasks s) k = Some u \<and>
         \<not> status_Ready (task_status u)"
    "\<And>c. task_Change s t = Some c \<Longrightarrow> status_set_ready c"
  shows "\<exists>s'. SetStatus now tid x s = Inr s' \<and> wf s' \<and>
    status_change_of s s' tid (if x = DoneStatus \<and> task_status t = AbortStatus then AbortStatus else x)"
proof -
  from SetStatus_ok [OF assms] obtain s' where s': "SetStatus now tid x s = Inr s'" by blast
  with SetStatus_wf [OF s'] assms(1) SetStatus_effect [OF s' assms(2)] show ?thesis by blast
qed

text \<open>
  the \<open>ready\<close> channel of a change is never late: after any \<open>SetStatus\<close>, every change with tasks
  whose tasks are all ready has its channel closed, if that was so before.
\<close>

lemma SetStatus_marks_ready:
  assumes "wf s" "ready_inv s" "SetStatus now tid x s = Inr s'"
  shows "ready_inv s'"
  using assms by (rule SetStatus_ready_inv)

definition sample_pair :: "(string \<times> task) list" where
  "sample_pair = [(''1'', sample_task ''1'' DoneStatus [] [''2''] []),
                  (''2'', sample_task ''2'' DoingStatus [''1''] [] [])]"

definition set_status_or_same :: "time \<Rightarrow> string \<Rightarrow> status \<Rightarrow> st \<Rightarrow> st" where
  "set_status_or_same now tid x s = (case SetStatus now tid x s of Inl e \<Rightarrow> s | Inr s' \<Rightarrow> s')"

end
