(* ===== verification/Abort.thy ===== *)
theory Abort
  imports TaskOps
begin

text \<open>
  Cancelling a change: \<open>LaneTasks\<close>, \<open>Abort\<close>, \<open>AbortLanes\<close>, \<open>AbortUnreadyLanes\<close> and the mutually
  recursive \<open>abortLanes\<close>/\<open>abortTasks\<close> of \<open>change.go\<close>, and \<open>Err\<close>.  The shared maps
  \<open>abortedLanes\<close> and \<open>seenTasks\<close> are sets passed along.  The worklist of \<open>abortTasks\<close> ends because
  every round marks a task as seen, and the recursion because every pass that collects lanes
  adds one of the finitely many lanes of the state to the aborted ones.
\<close>

definition LaneTasks :: "int list \<Rightarrow> string \<Rightarrow> st \<Rightarrow> fault + task list" where
  "LaneTasks lanes cid s =
     and_then (need_change s cid) (\<lambda>c. and_then (map_try (need_task s) (chg_tasks c)) (\<lambda>ts.
       Inr (concat (map (\<lambda>t.
              (if task_lanes t = [] \<and> 0 \<in> set lanes then [t] else []) @
              (if \<exists>l \<in> set (task_lanes t). l \<in> set lanes then [t] else [])) ts))))"

definition taskEffectiveStatus :: "task \<Rightarrow> status" where
  "taskEffectiveStatus t =
     (if task_Status t = WaitStatus then waited_status t else task_Status t)"

definition live_status :: "status \<Rightarrow> bool" where
  "live_status x \<longleftrightarrow> x \<in> {DoStatus, DoingStatus, DoneStatus}"

text \<open>The status an abort gives to a task, if any.\<close>

fun abort_target :: "status \<Rightarrow> status option" where
  "abort_target DoStatus = Some HoldStatus"
| "abort_target DoingStatus = Some AbortStatus"
| "abort_target DoneStatus = Some UndoStatus"
| "abort_target _ = None"

definition abort_status :: "time \<Rightarrow> task \<Rightarrow> string \<Rightarrow> st \<Rightarrow> fault + st" where
  "abort_status now t tid s =
     (case abort_target (taskEffectiveStatus t) of
        None \<Rightarrow> Inr s
      | Some x \<Rightarrow> SetStatus now tid x s)"

lemma abort_status_shape: "abort_status now t tid s = Inr s' \<Longrightarrow> shape s' = shape s"
  by (auto simp: abort_status_def dest: SetStatus_shape split: option.split_asm)

lemma shape_dom: "shape s' = shape s \<Longrightarrow> fmdom (tasks s') = fmdom (tasks s)"
  by (metis fmdom_map prod.inject shape_def)

lemma shape_task:
  assumes "shape s' = shape s" "fmlookup (tasks s) tid = Some t"
  shows "\<exists>t'. fmlookup (tasks s') tid = Some t' \<and> t_erase t' = t_erase t"
proof -
  from assms have "map_option t_erase (fmlookup (tasks s') tid) = Some (t_erase t)"
    by (metis fmlookup_map option.map(2) prod.inject shape_def)
  then show ?thesis by auto
qed

lemma t_erase_eqD:
  assumes "t_erase t' = t_erase t"
  shows "halt_tasks t' = halt_tasks t" "wait_tasks t' = wait_tasks t" "task_Lanes t' = task_Lanes t"
    "task_change t' = task_change t" "task_lanes t' = task_lanes t"
  using arg_cong [OF assms, of halt_tasks] arg_cong [OF assms, of wait_tasks]
    arg_cong [OF assms, of task_Lanes] arg_cong [OF assms, of task_change]
    arg_cong [OF assms, of task_lanes] by simp_all

function abort_loop ::
    "time \<Rightarrow> int set \<Rightarrow> string list \<Rightarrow> string set \<Rightarrow> int list \<Rightarrow> st \<Rightarrow> fault + (int list \<times> string set \<times> st)" where
  "abort_loop now ab [] seen lanes s = Inr (lanes, seen, s)"
| "abort_loop now ab (tid # wl) seen lanes s =
     (if tid \<in> seen then abort_loop now ab wl seen lanes s
      else and_then (need_task s tid) (\<lambda>t. and_then (abort_status now t tid s) (\<lambda>s1.
        and_then (map_try (need_task s1) (halt_tasks t)) (\<lambda>_.
          abort_loop now ab (wl @ filter (\<lambda>h. h \<notin> insert tid seen) (halt_tasks t)) (insert tid seen)
            (lanes @ concat (map (\<lambda>l. if l \<in> ab then [] else task_Lanes t) (task_Lanes t))) s1))))"
  by pat_completeness auto
termination
proof (relation "measures [\<lambda>(now, ab, wl, seen, lanes, s). card (fset (fmdom (tasks s)) - seen),
    \<lambda>(now, ab, wl, seen, lanes, s). length wl]", goal_cases)
  case (3 now ab tid wl seen lanes s t s1 x)
  from 3(2) have tid: "tid \<in> fset (fmdom (tasks s))" by (simp add: fmdomI)
  have "fset (fmdom (tasks s1)) = fset (fmdom (tasks s))"
    using shape_dom [OF abort_status_shape [OF 3(3)]] by simp
  with tid 3(1) have "card (fset (fmdom (tasks s1)) - insert tid seen) < card (fset (fmdom (tasks s)) - seen)"
    by (intro psubset_card_mono) auto
  then show ?case by simp
qed auto

definition all_lanes :: "st \<Rightarrow> int set" where
  "all_lanes s = \<Union> ((\<lambda>t. set (task_Lanes t)) ` fset (fmran (tasks s)))"

lemma all_lanesI: "fmlookup (tasks s) tid = Some t \<Longrightarrow> l \<in> set (task_Lanes t) \<Longrightarrow> l \<in> all_lanes s"
  by (auto simp: all_lanes_def intro: fmranI)

lemma all_lanesE:
  assumes "l \<in> all_lanes s"
  obtains tid t where "fmlookup (tasks s) tid = Some t" "l \<in> set (task_Lanes t)"
  using assms by (auto simp: all_lanes_def elim: fmranE)

lemma shape_lanes: "shape s' = shape s \<Longrightarrow> all_lanes s' = all_lanes s"
proof -
  have *: "all_lanes u \<subseteq> all_lanes v" if "shape v = shape u" for u v
  proof
    fix l assume "l \<in> all_lanes u"
    then obtain tid t where t: "fmlookup (tasks u) tid = Some t" "l \<in> set (task_Lanes t)"
      by (rule all_lanesE)
    from shape_task [OF that t(1)] t(2) show "l \<in> all_lanes v"
      by (metis all_lanesI t_erase_eqD(3))
  qed
  assume "shape s' = shape s"
  with * [of s s'] * [of s' s] show ?thesis by auto
qed

lemma finite_all_lanes [simp]: "finite (all_lanes s)"
  by (simp add: all_lanes_def)

lemma abort_loop_lanes:
  "abort_loop now ab wl seen lanes s = Inr (lanes', seen', s') \<Longrightarrow>
     set lanes \<subseteq> all_lanes s \<Longrightarrow> (lanes \<noteq> [] \<Longrightarrow> \<not> set lanes \<subseteq> ab) \<Longrightarrow>
     shape s' = shape s \<and> set lanes' \<subseteq> all_lanes s \<and> (lanes' \<noteq> [] \<longrightarrow> \<not> set lanes' \<subseteq> ab)"
proof (induction now ab wl seen lanes s arbitrary: lanes' seen' s' rule: abort_loop.induct)
  case (2 now ab tid wl seen lanes s)
  show ?case
  proof (cases "tid \<in> seen")
    case True
    with 2 show ?thesis by simp
  next
    case False
    with "2.prems"(1) obtain t s1 x where t: "need_task s tid = Inr t"
      and s1: "abort_status now t tid s = Inr s1" and x: "map_try (need_task s1) (halt_tasks t) = Inr x"
      and rec: "abort_loop now ab (wl @ filter (\<lambda>h. h \<notin> insert tid seen) (halt_tasks t)) (insert tid seen)
            (lanes @ concat (map (\<lambda>l. if l \<in> ab then [] else task_Lanes t) (task_Lanes t))) s1 =
          Inr (lanes', seen', s')"
      by (auto simp: and_then_Inr_iff simp del: need_task_Inr)
    have sh: "shape s1 = shape s" using abort_status_shape [OF s1] .
    have sub: "set (task_Lanes t) \<subseteq> all_lanes s" using t by (auto intro: all_lanesI)
    have "set (lanes @ concat (map (\<lambda>l. if l \<in> ab then [] else task_Lanes t) (task_Lanes t))) \<subseteq> all_lanes s1"
      using "2.prems"(2) sub shape_lanes [OF sh] by (auto split: if_split_asm)
    moreover have "\<not> set (lanes @ concat (map (\<lambda>l. if l \<in> ab then [] else task_Lanes t) (task_Lanes t))) \<subseteq> ab"
      if "lanes @ concat (map (\<lambda>l. if l \<in> ab then [] else task_Lanes t) (task_Lanes t)) \<noteq> []"
      using that "2.prems"(3) by (auto split: if_split_asm)
    ultimately show ?thesis
      using "2.IH"(2) [OF False t s1 x rec] sh shape_lanes [OF sh] by simp
  qed
qed simp

subsection \<open>Lanes\<close>

text \<open>
  One pass over the tasks of the change: the opinion on a lane outside the kill list is taken from
  the lanes of a task that come before its first killed one.
\<close>

definition killed_by :: "int list \<Rightarrow> task \<Rightarrow> bool" where
  "killed_by lanes t \<longleftrightarrow> (\<exists>l \<in> set (task_Lanes t). l \<in> set lanes)"

definition opinion_lanes :: "int list \<Rightarrow> task \<Rightarrow> int list" where
  "opinion_lanes lanes t = takeWhile (\<lambda>l. l \<notin> set lanes) (task_Lanes t)"

definition has_live :: "int list \<Rightarrow> task list \<Rightarrow> int \<Rightarrow> bool" where
  "has_live lanes ts l \<longleftrightarrow>
     (\<exists>t \<in> set ts. l \<in> set (opinion_lanes lanes t) \<and> live_status (taskEffectiveStatus t))"

definition has_dead :: "int list \<Rightarrow> task list \<Rightarrow> int \<Rightarrow> bool" where
  "has_dead lanes ts l \<longleftrightarrow>
     (\<exists>t \<in> set ts. l \<in> set (opinion_lanes lanes t) \<and> \<not> live_status (taskEffectiveStatus t))"

definition healthy :: "int list \<Rightarrow> task list \<Rightarrow> task \<Rightarrow> bool" where
  "healthy lanes ts t \<longleftrightarrow>
     (\<exists>l \<in> set (task_Lanes t). has_live lanes ts l \<and> \<not> has_dead lanes ts l)"

definition tasks_to_abort :: "int list \<Rightarrow> (string \<times> task) list \<Rightarrow> string list" where
  "tasks_to_abort lanes kts =
     map fst (filter (\<lambda>(k, t). killed_by lanes t \<and> \<not> healthy lanes (map snd kts) t) kts)"

function (sequential) abort_tasks ::
    "time \<Rightarrow> string \<Rightarrow> string list \<Rightarrow> int set \<Rightarrow> string set \<Rightarrow> st \<Rightarrow> fault + (string set \<times> st)"
  and abort_lanes ::
    "time \<Rightarrow> string \<Rightarrow> int list \<Rightarrow> int set \<Rightarrow> string set \<Rightarrow> st \<Rightarrow> fault + (string set \<times> st)" where
  "abort_tasks now cid tids ab seen s =
     (case abort_loop now ab tids seen [] s of
        Inl e \<Rightarrow> Inl e
      | Inr (lanes, seen', s') \<Rightarrow>
          if lanes \<noteq> [] then abort_lanes now cid lanes ab seen' s' else Inr (seen', s'))"
| "abort_lanes now cid lanes ab seen s =
     and_then (need_change s cid) (\<lambda>c. and_then (map_try (need_task s) (chg_tasks c)) (\<lambda>ts.
       if tasks_to_abort lanes (zip (chg_tasks c) ts) \<noteq> []
       then abort_tasks now cid (tasks_to_abort lanes (zip (chg_tasks c) ts)) (ab \<union> set lanes) seen s
       else Inr (seen, s)))"
  by pat_completeness auto
termination
proof (relation "measure (\<lambda>x. case x of
      Inl (now, cid, tids, ab, seen, s) \<Rightarrow> 2 * card (all_lanes s - ab)
    | Inr (now, cid, lanes, ab, seen, s) \<Rightarrow> 2 * card (all_lanes s - (ab \<union> set lanes)) + 1)", goal_cases)
  case (2 now cid tids ab seen s r x y seen' s')
  then have *: "shape s' = shape s \<and> set x \<subseteq> all_lanes s \<and> (x \<noteq> [] \<longrightarrow> \<not> set x \<subseteq> ab)"
    by (intro abort_loop_lanes [of now ab tids seen "[]" s x seen' s']) auto
  with \<open>x \<noteq> []\<close> have "all_lanes s - (ab \<union> set x) \<subset> all_lanes s - ab" by auto
  then have "card (all_lanes s - (ab \<union> set x)) < card (all_lanes s - ab)"
    by (intro psubset_card_mono) auto
  with * shape_lanes [of s' s] show ?case by simp
qed auto

declare abort_tasks.simps [simp del] abort_lanes.simps [simp del]

definition change_Abort :: "time \<Rightarrow> string \<Rightarrow> st \<Rightarrow> fault + st" where
  "change_Abort now cid s =
     and_then (need_change s cid) (\<lambda>c. and_then (map_try (need_task s) (chg_tasks c)) (\<lambda>_.
       and_then (abort_tasks now cid (chg_tasks c) {} {} s) (\<lambda>(seen, s'). Inr s')))"

definition AbortLanes :: "time \<Rightarrow> string \<Rightarrow> int list \<Rightarrow> st \<Rightarrow> fault + st" where
  "AbortLanes now cid lanes s =
     and_then (abort_lanes now cid lanes {} {} s) (\<lambda>(seen, s'). Inr s')"

text \<open>\<open>order\<close> is the order in which Go ranges over the map of the lanes that are not ready.\<close>

definition AbortUnreadyLanes :: "(int list \<Rightarrow> int list) \<Rightarrow> time \<Rightarrow> string \<Rightarrow> st \<Rightarrow> fault + st" where
  "AbortUnreadyLanes order now cid s =
     and_then (need_change s cid) (\<lambda>c. and_then (map_try (need_task s) (chg_tasks c)) (\<lambda>ts.
       AbortLanes now cid
         (order (remdups (concat (map task_Lanes (filter (\<lambda>t. \<not> status_Ready (task_Status t)) ts))))) s))"

text \<open>\<open>Change.Err\<close>: the errors logged by the tasks in \<open>ErrorStatus\<close>.\<close>

datatype change_error = NoError | NoErrorLogged string | ChangeErrors "(string \<times> message) list"

definition task_errors :: "task \<Rightarrow> (string \<times> message) list" where
  "task_errors t =
     (if task_Status t = ErrorStatus
      then map (\<lambda>(_, _, m). (task_summary t, m)) (filter (\<lambda>(_, k, _). k = LogError) (task_log t))
      else [])"

definition change_Err :: "time \<Rightarrow> string \<Rightarrow> st \<Rightarrow> fault + (st \<times> change_error)" where
  "change_Err now cid s =
     and_then (change_Status now cid s) (\<lambda>(s1, x).
       if x \<noteq> ErrorStatus then Inr (s1, NoError)
       else and_then (need_change s1 cid) (\<lambda>c. and_then (map_try (need_task s1) (chg_tasks c)) (\<lambda>ts.
         (let es = concat (map task_errors ts) in
          Inr (s1, if es = [] then NoErrorLogged (chg_kind c) else ChangeErrors es)))))"


subsection \<open>What an abort does to the tasks\<close>

definition abort_result :: "task \<Rightarrow> status" where
  "abort_result t = (case abort_target (taskEffectiveStatus t) of None \<Rightarrow> task_status t | Some x \<Rightarrow> x)"

definition same_status :: "task \<Rightarrow> task \<Rightarrow> bool" where
  "same_status t u \<longleftrightarrow> task_status t = task_status u \<and> waited_status t = waited_status u"

lemma same_status_result: "same_status t u \<Longrightarrow> abort_result t = abort_result u"
  by (simp add: same_status_def abort_result_def taskEffectiveStatus_def task_Status_def cong: option.case_cong)

definition aborted_status :: "task \<Rightarrow> task \<Rightarrow> bool" where
  "aborted_status t u \<longleftrightarrow> task_status t = abort_result u \<and> waited_status t = waited_status u"

definition abort_inv :: "st \<Rightarrow> string set \<Rightarrow> st \<Rightarrow> bool" where
  "abort_inv s0 seen s \<longleftrightarrow> shape s = shape s0 \<and>
     (\<forall>k u t. fmlookup (tasks s0) k = Some u \<longrightarrow> fmlookup (tasks s) k = Some t \<longrightarrow>
        (if k \<in> seen then aborted_status t u else same_status t u))"

lemma abort_status_effect:
  assumes run: "abort_status now t tid s = Inr s'" and t: "fmlookup (tasks s) tid = Some t"
    and k: "fmlookup (tasks s) k = Some u" "fmlookup (tasks s') k = Some u'"
  shows "if k = tid then aborted_status u' u else same_status u' u"
proof (cases "abort_target (taskEffectiveStatus t)")
  case None
  with run t k show ?thesis by (auto simp: abort_status_def abort_result_def aborted_status_def same_status_def)
next
  case (Some x)
  then have x: "x \<noteq> DoneStatus" by (cases "taskEffectiveStatus t") auto
  from run Some have "SetStatus now tid x s = Inr s'" by (simp add: abort_status_def)
  from SetStatus_effect [OF this t] x have "status_change_of s s' tid x" by simp
  from status_change_of_lookup [OF this k(2)] k(1)
  have "task_status u' = (if k = tid then x else task_status u)" "waited_status u' = waited_status u"
    by (metis option.inject)+
  with Some t k show ?thesis by (auto simp: abort_result_def aborted_status_def same_status_def)
qed

lemma abort_inv_step:
  assumes inv: "abort_inv s0 seen s" and t: "fmlookup (tasks s) tid = Some t" and new: "tid \<notin> seen"
    and run: "abort_status now t tid s = Inr s1"
  shows "abort_inv s0 (insert tid seen) s1"
  unfolding abort_inv_def
proof (intro conjI allI impI)
  have sh: "shape s1 = shape s" by (rule abort_status_shape [OF run])
  with inv show "shape s1 = shape s0" by (simp add: abort_inv_def)
  fix k u u1 assume u: "fmlookup (tasks s0) k = Some u" and u1: "fmlookup (tasks s1) k = Some u1"
  from shape_task [OF sh [symmetric] u1] obtain v where v: "fmlookup (tasks s) k = Some v" by blast
  from inv u v have o: "if k \<in> seen then aborted_status v u else same_status v u"
    by (auto simp: abort_inv_def)
  from abort_status_effect [OF run t v u1]
  have n: "if k = tid then aborted_status u1 v else same_status u1 v" .
  show "if k \<in> insert tid seen then aborted_status u1 u else same_status u1 u"
    using o n new same_status_result [of v u] by (auto simp: same_status_def aborted_status_def split: if_split_asm)
qed

definition halts_closed :: "st \<Rightarrow> string set \<Rightarrow> string set \<Rightarrow> bool" where
  "halts_closed s seen todo \<longleftrightarrow>
     (\<forall>k \<in> seen. \<forall>t. fmlookup (tasks s) k = Some t \<longrightarrow> set (halt_tasks t) \<subseteq> seen \<union> todo)"

lemma halts_closed_shape:
  assumes "shape s' = shape s" "halts_closed s seen todo"
  shows "halts_closed s' seen todo"
  using assms(2) shape_task [OF assms(1) [symmetric]] t_erase_eqD(1)
  unfolding halts_closed_def by metis

text \<open>Which tasks and lanes an abort of \<open>lanes\<close> may reach.\<close>

inductive doomed_task :: "st \<Rightarrow> string \<Rightarrow> int list \<Rightarrow> string \<Rightarrow> bool"
  and doomed_lane :: "st \<Rightarrow> string \<Rightarrow> int list \<Rightarrow> int \<Rightarrow> bool"
  for s :: st and cid :: string and lanes :: "int list" where
  killed: "l \<in> set lanes \<Longrightarrow> doomed_lane s cid lanes l"
| lane_of: "doomed_task s cid lanes tid \<Longrightarrow> fmlookup (tasks s) tid = Some t \<Longrightarrow>
    l \<in> set (task_Lanes t) \<Longrightarrow> doomed_lane s cid lanes l"
| in_lane: "doomed_lane s cid lanes l \<Longrightarrow> fmlookup (changes s) cid = Some c \<Longrightarrow>
    tid \<in> set (chg_tasks c) \<Longrightarrow> fmlookup (tasks s) tid = Some t \<Longrightarrow> l \<in> set (task_Lanes t) \<Longrightarrow>
    doomed_task s cid lanes tid"
| halted: "doomed_task s cid lanes tid \<Longrightarrow> fmlookup (tasks s) tid = Some t \<Longrightarrow>
    h \<in> set (halt_tasks t) \<Longrightarrow> doomed_task s cid lanes h"

inductive_simps doomed_lane_simps: "doomed_lane s cid lanes l"

lemma abort_loop_inv:
  "abort_loop now ab wl seen lanes s = Inr (lanes', seen', s') \<Longrightarrow>
     abort_inv s0 seen s \<Longrightarrow> halts_closed s seen (set wl) \<Longrightarrow>
     abort_inv s0 seen' s' \<and> halts_closed s' seen' {} \<and> seen \<union> set wl \<subseteq> seen'"
proof (induction now ab wl seen lanes s arbitrary: lanes' seen' s' rule: abort_loop.induct)
  case (2 now ab tid wl seen lanes s)
  show ?case
  proof (cases "tid \<in> seen")
    case True
    then have "halts_closed s seen (set wl)" using "2.prems"(3) by (auto simp: halts_closed_def)
    with True 2 show ?thesis by auto
  next
    case False
    with "2.prems"(1) obtain t s1 x where t: "need_task s tid = Inr t"
      and s1: "abort_status now t tid s = Inr s1" and x: "map_try (need_task s1) (halt_tasks t) = Inr x"
      and rec: "abort_loop now ab (wl @ filter (\<lambda>h. h \<notin> insert tid seen) (halt_tasks t)) (insert tid seen)
            (lanes @ concat (map (\<lambda>l. if l \<in> ab then [] else task_Lanes t) (task_Lanes t))) s1 =
          Inr (lanes', seen', s')"
      by (auto simp: and_then_Inr_iff simp del: need_task_Inr)
    have t': "fmlookup (tasks s) tid = Some t" using t by simp
    have "halts_closed s (insert tid seen) (set (wl @ filter (\<lambda>h. h \<notin> insert tid seen) (halt_tasks t)))"
      using "2.prems"(3) t' by (auto simp: halts_closed_def)
    from halts_closed_shape [OF abort_status_shape [OF s1] this]
    show ?thesis
      using "2.IH"(2) [OF False t s1 x rec] abort_inv_step [OF "2.prems"(2) t' False s1] by simp
  qed
qed simp

lemma abort_passes_inv:
  "abort_tasks now cid tids ab seen s = Inr (seen', s') \<Longrightarrow> abort_inv s0 seen s \<Longrightarrow> halts_closed s seen {} \<Longrightarrow>
     abort_inv s0 seen' s' \<and> halts_closed s' seen' {} \<and> seen \<union> set tids \<subseteq> seen'"
  "abort_lanes now cid lanes ab seen s = Inr (seen', s') \<Longrightarrow> abort_inv s0 seen s \<Longrightarrow> halts_closed s seen {} \<Longrightarrow>
     abort_inv s0 seen' s' \<and> halts_closed s' seen' {} \<and> seen \<subseteq> seen'"
proof (induction now cid tids ab seen s and now cid lanes ab seen s arbitrary: seen' s' and seen' s'
    rule: abort_tasks_abort_lanes.induct)
  case (1 now cid tids ab seen s)
  from "1.prems"(1) obtain lanes seen1 s1 where loop: "abort_loop now ab tids seen [] s = Inr (lanes, seen1, s1)"
    and r: "(if lanes \<noteq> [] then abort_lanes now cid lanes ab seen1 s1 else Inr (seen1, s1)) = Inr (seen', s')"
    by (auto simp: abort_tasks.simps split: sum.split_asm)
  have "halts_closed s seen (set tids)" using "1.prems"(3) by (auto simp: halts_closed_def)
  from abort_loop_inv [OF loop "1.prems"(2) this] r "1.IH" [OF loop refl refl]
  show ?case by (auto split: if_split_asm)
next
  case (2 now cid lanes ab seen s)
  from "2.prems"(1) obtain c ts where c: "need_change s cid = Inr c"
    and ts: "map_try (need_task s) (chg_tasks c) = Inr ts"
    by (auto simp: abort_lanes.simps and_then_Inr_iff simp del: need_change_Inr)
  show ?case
  proof (cases "tasks_to_abort lanes (zip (chg_tasks c) ts) = []")
    case True
    with 2 c ts show ?thesis by (simp add: abort_lanes.simps)
  next
    case False
    with "2.prems"(1) c ts have
      "abort_tasks now cid (tasks_to_abort lanes (zip (chg_tasks c) ts)) (ab \<union> set lanes) seen s = Inr (seen', s')"
      by (simp add: abort_lanes.simps)
    from "2.IH" [OF c ts False this "2.prems"(2,3)] show ?thesis by auto
  qed
qed

lemma abort_inv_init: "abort_inv s {} s" "halts_closed s {} todo"
  by (auto simp: abort_inv_def halts_closed_def same_status_def)

lemma abort_result_dead: "aborted_status t u \<Longrightarrow> \<not> live_status (taskEffectiveStatus t)"
  by (cases "task_status u"; cases "waited_status u")
    (simp_all add: aborted_status_def abort_result_def taskEffectiveStatus_def task_Status_def live_status_def)



lemma Abort_result:
  assumes "change_Abort now cid s = Inr s'" "fmlookup (changes s) cid = Some c"
  obtains seen where "set (chg_tasks c) \<subseteq> seen" "abort_inv s seen s'" "halts_closed s' seen {}"
proof -
  from assms obtain ts seen where "abort_tasks now cid (chg_tasks c) {} {} s = Inr (seen, s')"
    by (auto simp: change_Abort_def and_then_Inr_iff)
  from abort_passes_inv(1) [OF this abort_inv_init] that show thesis by blast
qed


subsection \<open>How far an abort reaches\<close>

lemma doomed_shape:
  assumes "shape s = shape s0" "fmlookup (tasks s) tid = Some t"
  shows "doomed_task s0 cid L tid \<Longrightarrow> h \<in> set (halt_tasks t) \<Longrightarrow> doomed_task s0 cid L h"
    and "doomed_task s0 cid L tid \<Longrightarrow> l \<in> set (task_Lanes t) \<Longrightarrow> doomed_lane s0 cid L l"
    and "doomed_lane s0 cid L l \<Longrightarrow> fmlookup (changes s) cid = Some c \<Longrightarrow> tid \<in> set (chg_tasks c) \<Longrightarrow>
      l \<in> set (task_Lanes t) \<Longrightarrow> doomed_task s0 cid L tid"
proof -
  from shape_task [OF assms(1) [symmetric] assms(2)] obtain t0 where
    t0: "fmlookup (tasks s0) tid = Some t0" and e: "t_erase t0 = t_erase t" by blast
  note d = t_erase_eqD [OF e]
  show "doomed_task s0 cid L h" if "doomed_task s0 cid L tid" "h \<in> set (halt_tasks t)"
    using halted [OF that(1) t0] that(2) d(1) by simp
  show "doomed_lane s0 cid L l" if "doomed_task s0 cid L tid" "l \<in> set (task_Lanes t)"
    using lane_of [OF that(1) t0] that(2) d(3) by simp
  show "doomed_task s0 cid L tid" if dl: "doomed_lane s0 cid L l" and c: "fmlookup (changes s) cid = Some c"
    and tid: "tid \<in> set (chg_tasks c)" and l: "l \<in> set (task_Lanes t)"
  proof -
    from shape_change [OF assms(1) [symmetric] c] obtain c0 where
      c0: "fmlookup (changes s0) cid = Some c0" and ec: "c_erase c0 = c_erase c" by blast
    from arg_cong [OF ec, of chg_tasks] tid have "tid \<in> set (chg_tasks c0)" by simp
    from in_lane [OF dl c0 this t0] l d(3) show ?thesis by simp
  qed
qed

lemma abort_loop_doomed:
  "abort_loop now ab wl seen lanes s = Inr (lanes', seen', s') \<Longrightarrow> shape s = shape s0 \<Longrightarrow>
     set wl \<subseteq> Collect (doomed_task s0 cid L) \<Longrightarrow> set lanes \<subseteq> Collect (doomed_lane s0 cid L) \<Longrightarrow>
     shape s' = shape s0 \<and> set lanes' \<subseteq> Collect (doomed_lane s0 cid L) \<and>
     seen' \<subseteq> seen \<union> Collect (doomed_task s0 cid L)"
proof (induction now ab wl seen lanes s arbitrary: lanes' seen' s' rule: abort_loop.induct)
  case (2 now ab tid wl seen lanes s)
  show ?case
  proof (cases "tid \<in> seen")
    case True
    with 2 show ?thesis by auto
  next
    case False
    with "2.prems"(1) obtain t s1 x where t: "need_task s tid = Inr t"
      and s1: "abort_status now t tid s = Inr s1" and x: "map_try (need_task s1) (halt_tasks t) = Inr x"
      and rec: "abort_loop now ab (wl @ filter (\<lambda>h. h \<notin> insert tid seen) (halt_tasks t)) (insert tid seen)
            (lanes @ concat (map (\<lambda>l. if l \<in> ab then [] else task_Lanes t) (task_Lanes t))) s1 =
          Inr (lanes', seen', s')"
      by (auto simp: and_then_Inr_iff simp del: need_task_Inr)
    have t': "fmlookup (tasks s) tid = Some t" using t by simp
    have sh: "shape s1 = shape s0" using abort_status_shape [OF s1] "2.prems"(2) by simp
    have d: "doomed_task s0 cid L tid" using "2.prems"(3) by simp
    note ds = doomed_shape(1,2) [OF "2.prems"(2) t' d]
    have "set (wl @ filter (\<lambda>h. h \<notin> insert tid seen) (halt_tasks t)) \<subseteq> Collect (doomed_task s0 cid L)"
      "set (lanes @ concat (map (\<lambda>l. if l \<in> ab then [] else task_Lanes t) (task_Lanes t))) \<subseteq>
         Collect (doomed_lane s0 cid L)"
      using "2.prems"(3,4) ds by (auto split: if_split_asm)
    from "2.IH"(2) [OF False t s1 x rec sh this] d show ?thesis by auto
  qed
qed auto

lemma tasks_to_abort_sound:
  assumes "tid \<in> set (tasks_to_abort lanes (zip tids ts))" "map_try (need_task s) tids = Inr ts"
  shows "tid \<in> set tids \<and> (\<exists>t. fmlookup (tasks s) tid = Some t \<and> killed_by lanes t)"
proof -
  from assms(1) obtain t where t: "(tid, t) \<in> set (zip tids ts)" "killed_by lanes t"
    by (auto simp: tasks_to_abort_def)
  then obtain i where "i < length tids" "i < length ts" "tids ! i = tid" "ts ! i = t"
    by (auto simp: set_zip)
  with map_try_Inr [OF assms(2)] t(2) show ?thesis by (metis need_task_Inr nth_mem)
qed

lemma abort_passes_doomed:
  "abort_tasks now cid tids ab seen s = Inr (seen', s') \<Longrightarrow> shape s = shape s0 \<Longrightarrow>
     set tids \<subseteq> Collect (doomed_task s0 cid L) \<Longrightarrow> seen' \<subseteq> seen \<union> Collect (doomed_task s0 cid L)"
  "abort_lanes now cid lanes ab seen s = Inr (seen', s') \<Longrightarrow> shape s = shape s0 \<Longrightarrow>
     set lanes \<subseteq> Collect (doomed_lane s0 cid L) \<Longrightarrow> seen' \<subseteq> seen \<union> Collect (doomed_task s0 cid L)"
proof (induction now cid tids ab seen s and now cid lanes ab seen s arbitrary: seen' s' and seen' s'
    rule: abort_tasks_abort_lanes.induct)
  case (1 now cid tids ab seen s)
  from "1.prems"(1) obtain lanes seen1 s1 where loop: "abort_loop now ab tids seen [] s = Inr (lanes, seen1, s1)"
    and r: "(if lanes \<noteq> [] then abort_lanes now cid lanes ab seen1 s1 else Inr (seen1, s1)) = Inr (seen', s')"
    by (auto simp: abort_tasks.simps split: sum.split_asm)
  have "set [] \<subseteq> Collect (doomed_lane s0 cid L)" by simp
  note * = abort_loop_doomed [OF loop "1.prems"(2,3) this]
  show ?case
  proof (cases "lanes = []")
    case True
    with * r show ?thesis by simp
  next
    case False
    with r have "abort_lanes now cid lanes ab seen1 s1 = Inr (seen', s')" by simp
    from "1.IH" [OF loop refl refl False this] * show ?thesis by auto
  qed
next
  case (2 now cid lanes ab seen s)
  from "2.prems"(1) obtain c ts where c: "need_change s cid = Inr c"
    and ts: "map_try (need_task s) (chg_tasks c) = Inr ts"
    by (auto simp: abort_lanes.simps and_then_Inr_iff simp del: need_change_Inr)
  show ?case
  proof (cases "tasks_to_abort lanes (zip (chg_tasks c) ts) = []")
    case True
    with 2 c ts show ?thesis by (auto simp: abort_lanes.simps)
  next
    case False
    with "2.prems"(1) c ts have rec:
      "abort_tasks now cid (tasks_to_abort lanes (zip (chg_tasks c) ts)) (ab \<union> set lanes) seen s = Inr (seen', s')"
      by (simp add: abort_lanes.simps)
    have "doomed_task s0 cid L tid" if "tid \<in> set (tasks_to_abort lanes (zip (chg_tasks c) ts))" for tid
    proof -
      from tasks_to_abort_sound [OF that ts] obtain t l where tid: "tid \<in> set (chg_tasks c)"
        and t: "fmlookup (tasks s) tid = Some t" and l: "l \<in> set (task_Lanes t)" "l \<in> set lanes"
        by (auto simp: killed_by_def)
      from l(2) "2.prems"(3) have "doomed_lane s0 cid L l" by auto
      from doomed_shape(3) [OF "2.prems"(2) t this] c tid l(1) show ?thesis by simp
    qed
    with "2.IH" [OF c ts False rec "2.prems"(2)] show ?thesis by auto
  qed
qed

subsection \<open>When an abort returns\<close>

text \<open>
  A task that is under way keeps its change unready during the abort, so that no task of the
  change can be the one that makes it ready first and unready again later.
\<close>

definition under_way :: "status \<Rightarrow> bool" where
  "under_way x \<longleftrightarrow> x \<in> {DoingStatus, AbortStatus, UndoStatus, UndoingStatus}"

definition anchored :: "st \<Rightarrow> string \<Rightarrow> string \<Rightarrow> string set \<Rightarrow> bool" where
  "anchored s cid a tids \<longleftrightarrow>
     wf s \<and>
     (\<exists>c. fmlookup (changes s) cid = Some c \<and> set (chg_tasks c) = tids \<and> status_set_ready c \<and> a \<in> tids) \<and>
     (\<exists>t. fmlookup (tasks s) a = Some t \<and> under_way (task_status t)) \<and>
     (\<forall>tid \<in> tids. \<forall>t. fmlookup (tasks s) tid = Some t \<longrightarrow> set (halt_tasks t) \<subseteq> tids)"

lemma under_way_result: "under_way (task_status t) \<Longrightarrow> under_way (abort_result t)"
  by (cases "task_status t")
    (auto simp: under_way_def abort_result_def taskEffectiveStatus_def task_Status_def)

lemma abort_status_cview: "abort_status now t tid s = Inr s' \<Longrightarrow> cview s' = cview s"
  using SetStatus_needs_task SetStatus_effect
  by (auto simp: abort_status_def status_change_of_def split: option.split_asm) blast

lemma abort_status_anchored:
  assumes "anchored s cid a tids" "abort_status now t tid s = Inr s'" "fmlookup (tasks s) tid = Some t"
  shows "anchored s' cid a tids"
proof -
  have sh: "shape s' = shape s" by (rule abort_status_shape) (rule assms(2))
  from assms(1) obtain c u where wf: "wf s" and c: "fmlookup (changes s) cid = Some c"
    and tids: "set (chg_tasks c) = tids" and set: "status_set_ready c" "a \<in> tids"
    and u: "fmlookup (tasks s) a = Some u" "under_way (task_status u)"
    and halts: "\<And>tid t. tid \<in> tids \<Longrightarrow> fmlookup (tasks s) tid = Some t \<Longrightarrow> set (halt_tasks t) \<subseteq> tids"
    by (auto simp: anchored_def)
  from cview_eqD [OF abort_status_cview [OF assms(2), symmetric] c]
  obtain c' where c': "fmlookup (changes s') cid = Some c'" and core: "chg_core c = chg_core c'" by blast
  from arg_cong [OF core, of chg_tasks] arg_cong [OF core, of chg_status] tids set
  have cs: "set (chg_tasks c') = tids" "status_set_ready c'" by (simp_all add: status_set_ready_def)
  from shape_task [OF sh u(1)] obtain u' where u': "fmlookup (tasks s') a = Some u'" by blast
  from abort_status_effect [OF assms(2,3) u(1) u'] u(2) under_way_result [OF u(2)]
  have "under_way (task_status u')"
    by (auto simp: aborted_status_def same_status_def split: if_split_asm)
  moreover have "set (halt_tasks t) \<subseteq> tids" if "k \<in> tids" "fmlookup (tasks s') k = Some t" for k t
    using shape_task [OF sh [symmetric] that(2)] halts [OF that(1)] t_erase_eqD(1) by metis
  ultimately show ?thesis
    using shape_wf [OF sh] wf c' cs set(2) u' by (auto simp: anchored_def)
qed

lemma abort_status_ok:
  assumes "anchored s cid a tids" "tid \<in> tids" "fmlookup (tasks s) tid = Some t"
  shows "\<exists>s'. abort_status now t tid s = Inr s'"
proof (cases "abort_target (taskEffectiveStatus t)")
  case (Some x)
  from assms(1) obtain c u where wf: "wf s" and c: "fmlookup (changes s) cid = Some c"
    and tids: "set (chg_tasks c) = tids" "status_set_ready c" "a \<in> tids"
    and u: "fmlookup (tasks s) a = Some u" "under_way (task_status u)"
    by (auto simp: anchored_def)
  from wf_change [OF wf c] assms(2,3) tids have tc: "task_change t = cid" by (auto simp: change_wf_def)
  have nr: "\<not> status_Ready (task_status u)" using u(2) by (auto simp: under_way_def)
  have "\<exists>s'. SetStatus now tid x s = Inr s'"
  proof (rule SetStatus_ok [OF wf assms(3)])
    show "x \<noteq> WaitStatus" using Some by (cases "taskEffectiveStatus t") auto
  next
    fix c1 assume "task_Change s t = Some c1" and r: "status_Ready (task_status t)" "\<not> status_Ready x"
    with c tc have "c1 = c" by (simp add: task_Change_def)
    moreover have "a \<noteq> tid" using r(1) nr u(1) assms(3) by auto
    ultimately show "\<exists>k u. k \<in> set (chg_tasks c1) \<and> k \<noteq> tid \<and> fmlookup (tasks s) k = Some u \<and>
            \<not> status_Ready (task_status u)"
      using tids(1,3) u(1) nr by blast
  next
    fix c1 assume "task_Change s t = Some c1"
    with c tc tids(2) show "status_set_ready c1" by (simp add: task_Change_def)
  qed
  with Some show ?thesis by (simp add: abort_status_def)
qed (simp add: abort_status_def)

lemma anchored_need:
  assumes "anchored s cid a tids" "set xs \<subseteq> tids"
  shows "\<exists>ts. map_try (need_task s) xs = Inr ts"
  using assms chg_tasks_linked
  by (intro map_try_need_ok) (fastforce simp: anchored_def linked_def)

lemma abort_loop_ok:
  "anchored s cid a tids \<Longrightarrow> set wl \<subseteq> tids \<Longrightarrow>
     \<exists>lanes' seen' s'. abort_loop now ab wl seen lanes s = Inr (lanes', seen', s') \<and> anchored s' cid a tids"
proof (induction now ab wl seen lanes s rule: abort_loop.induct)
  case (2 now ab tid wl seen lanes s)
  show ?case
  proof (cases "tid \<in> seen")
    case True
    with 2 show ?thesis by simp
  next
    case False
    from 2 anchored_need [of s cid a tids "[tid]"] obtain t where t: "need_task s tid = Inr t"
      by (auto simp: and_then_Inr_iff)
    then have t': "fmlookup (tasks s) tid = Some t" by simp
    obtain s1 where s1: "abort_status now t tid s = Inr s1"
      using abort_status_ok [OF "2.prems"(1) _ t'] "2.prems"(2) by auto
    from abort_status_anchored [OF "2.prems"(1) s1 t'] have a1: "anchored s1 cid a tids" .
    have halts: "set (halt_tasks t) \<subseteq> tids" using "2.prems" t' by (auto simp: anchored_def)
    from anchored_need [OF a1 halts] obtain x where x: "map_try (need_task s1) (halt_tasks t) = Inr x" ..
    have "set (wl @ filter (\<lambda>h. h \<notin> insert tid seen) (halt_tasks t)) \<subseteq> tids"
      using halts "2.prems"(2) by auto
    from "2.IH"(2) [OF False t s1 x a1 this] show ?thesis
      using False t s1 x by simp
  qed
qed auto

lemma abort_passes_ok:
  "anchored s cid a tids \<Longrightarrow> set wl \<subseteq> tids \<Longrightarrow> \<exists>r. abort_tasks now cid wl ab seen s = Inr r"
  "anchored s cid a tids \<Longrightarrow> \<exists>r. abort_lanes now cid lanes ab seen s = Inr r"
proof (induction now cid wl ab seen s and now cid lanes ab seen s rule: abort_tasks_abort_lanes.induct)
  case (1 now cid wl ab seen s)
  from abort_loop_ok [OF "1.prems", of now ab seen "[]"] obtain lanes1 seen1 s1
    where loop: "abort_loop now ab wl seen [] s = Inr (lanes1, seen1, s1)" and a: "anchored s1 cid a tids" by blast
  from "1.IH" [OF loop refl refl _ a] loop show ?case
    by (cases "lanes1 = []") (auto simp: abort_tasks.simps)
next
  case (2 now cid lanes ab seen s)
  from "2.prems" obtain c where c: "need_change s cid = Inr c" and tids: "set (chg_tasks c) = tids"
    by (auto simp: anchored_def)
  from anchored_need [OF "2.prems", of "chg_tasks c"] tids obtain ts
    where ts: "map_try (need_task s) (chg_tasks c) = Inr ts" by auto
  have "set (tasks_to_abort lanes (zip (chg_tasks c) ts)) \<subseteq> tids"
    using tasks_to_abort_sound [OF _ ts] tids by blast
  from "2.IH" [OF c ts _ "2.prems" this] c ts show ?case
    by (cases "tasks_to_abort lanes (zip (chg_tasks c) ts) = []") (auto simp: abort_lanes.simps)
qed


subsection \<open>Properties\<close>

text \<open>
  C4: \<open>Change.Abort\<close> leaves nothing to run: after it no task of the change, nor any task that
  waits on one of them, directly or not, is to be done, being done or done, whatever it was
  waiting to become.
\<close>

theorem Abort_cancels:
  assumes "change_Abort now cid s = Inr s'" "fmlookup (changes s) cid = Some c"
  shows "\<exists>seen. set (chg_tasks c) \<subseteq> seen \<and>
    (\<forall>k \<in> seen. \<forall>t. fmlookup (tasks s') k = Some t \<longrightarrow>
       \<not> live_status (taskEffectiveStatus t) \<and> set (halt_tasks t) \<subseteq> seen)"
proof -
  from Abort_result [OF assms] obtain seen where seen: "set (chg_tasks c) \<subseteq> seen"
    and inv: "abort_inv s seen s'" and closed: "halts_closed s' seen {}" .
  have "\<not> live_status (taskEffectiveStatus t) \<and> set (halt_tasks t) \<subseteq> seen"
    if "k \<in> seen" "fmlookup (tasks s') k = Some t" for k t
  proof -
    from inv that obtain u where "fmlookup (tasks s) k = Some u"
      using shape_task [of s s' k t] by (auto simp: abort_inv_def)
    with inv that have "aborted_status t u" by (auto simp: abort_inv_def)
    with closed that show ?thesis by (auto simp: abort_result_dead halts_closed_def)
  qed
  with seen show ?thesis by blast
qed

text \<open>
  the only moves an abort makes: each task keeps its status, or goes from Do to Hold, from Doing
  to Abort or from Done to Undo, where a waiting task counts as what it waits to become.  A task
  of the change always makes its move.
\<close>

lemma Abort_moves:
  assumes "change_Abort now cid s = Inr s'" "fmlookup (changes s) cid = Some c"
    "fmlookup (tasks s) k = Some u"
  shows "\<exists>t. fmlookup (tasks s') k = Some t \<and>
    (task_status t = abort_result u \<or> k \<notin> set (chg_tasks c) \<and> task_status t = task_status u)"
proof -
  from Abort_result [OF assms(1,2)] obtain seen where seen: "set (chg_tasks c) \<subseteq> seen"
    and inv: "abort_inv s seen s'" .
  from inv have "shape s' = shape s" by (simp add: abort_inv_def)
  from shape_task [OF this assms(3)] obtain t where t: "fmlookup (tasks s') k = Some t" by blast
  with inv assms(3) have "if k \<in> seen then aborted_status t u else same_status t u"
    by (auto simp: abort_inv_def)
  with t seen show ?thesis
    by (auto simp: aborted_status_def same_status_def split: if_split_asm)
qed

text \<open>
  C18: \<open>AbortLanes\<close> stays within reach: a task that is in no doomed lane and waits on no doomed task
  keeps its status, where the doomed lanes are the given ones and those of doomed tasks, and the
  doomed tasks those of the change in doomed lanes and those that wait on doomed tasks.
\<close>

theorem AbortLanes_isolated:
  assumes "AbortLanes now cid lanes s = Inr s'" "fmlookup (tasks s) k = Some u"
    "\<not> doomed_task s cid lanes k"
  shows "\<exists>t. fmlookup (tasks s') k = Some t \<and> same_status t u"
proof -
  from assms(1) obtain seen where run: "abort_lanes now cid lanes {} {} s = Inr (seen, s')"
    by (auto simp: AbortLanes_def and_then_Inr_iff)
  have "set lanes \<subseteq> Collect (doomed_lane s cid lanes)" by (auto intro: killed)
  from abort_passes_doomed(2) [OF run refl this] assms(3) have "k \<notin> seen" by auto
  moreover have "abort_inv s seen s'" using abort_passes_inv(2) [OF run abort_inv_init] by blast
  ultimately show ?thesis
    using shape_task [OF _ assms(2)] assms(2) by (fastforce simp: abort_inv_def)
qed

text \<open>
  \<open>Change.Abort\<close> returns, without the panic of \<open>detectChangeReady\<close>, whenever a task of the
  change is under way (Doing, Abort, Undo or Undoing) and the tasks are only waited on by tasks
  of the same change.
\<close>

lemma Abort_returns:
  assumes "anchored s cid a tids"
  shows "\<exists>s'. change_Abort now cid s = Inr s'"
proof -
  from assms obtain c where c: "fmlookup (changes s) cid = Some c" and tids: "set (chg_tasks c) = tids"
    by (auto simp: anchored_def)
  from anchored_need [OF assms, of "chg_tasks c"] tids obtain ts
    where "map_try (need_task s) (chg_tasks c) = Inr ts" by auto
  moreover from abort_passes_ok(1) [OF assms, of "chg_tasks c" now "{}" "{}"] tids
  obtain r where "abort_tasks now cid (chg_tasks c) {} {} s = Inr r" by auto
  ultimately show ?thesis using c by (cases r) (simp add: change_Abort_def)
qed

lemma sample_chain_anchored: "anchored (sample_state sample_chain) ''1'' ''2'' {''1'', ''2'', ''3'', ''4''}"
  unfolding anchored_def
  using sample_chain_wf
  by (simp add: sample_state_def sample_chain_def fmlookup_of_list sample_task_def newTask_def
      under_way_def status_set_ready_def newChange_def)

definition run_or_same :: "fault + st \<Rightarrow> st \<Rightarrow> st" where
  "run_or_same r s = (case r of Inl e \<Rightarrow> s | Inr s' \<Rightarrow> s')"

definition aborted_chain :: st where
  "aborted_chain = run_or_same (change_Abort 9 ''1'' (sample_state sample_chain)) (sample_state sample_chain)"

lemma aborted_chain: "change_Abort 9 ''1'' (sample_state sample_chain) = Inr aborted_chain"
proof -
  have "case change_Abort 9 ''1'' (sample_state sample_chain) of Inl e \<Rightarrow> False | Inr s' \<Rightarrow> True"
    by code_simp
  then show ?thesis unfolding aborted_chain_def run_or_same_def
    by (cases "change_Abort 9 ''1'' (sample_state sample_chain)") auto
qed

lemma sample_chain_change: "\<exists>c. fmlookup (changes (sample_state sample_chain)) ''1'' = Some c"
  by (simp add: sample_state_def fmlookup_of_list)

theorem Abort_cancels_witness:
  "\<exists>c seen. fmlookup (changes (sample_state sample_chain)) ''1'' = Some c \<and> set (chg_tasks c) \<subseteq> seen \<and>
    (\<forall>k \<in> seen. \<forall>t. fmlookup (tasks aborted_chain) k = Some t \<longrightarrow>
       \<not> live_status (taskEffectiveStatus t) \<and> set (halt_tasks t) \<subseteq> seen)"
proof -
  obtain c where c: "fmlookup (changes (sample_state sample_chain)) ''1'' = Some c"
    using sample_chain_change ..
  from Abort_cancels [OF aborted_chain this] c show ?thesis by (intro exI [of _ c]) simp
qed

lemma sample_chain_lanes:
  assumes "fmlookup (tasks (sample_state sample_chain)) tid = Some t"
  shows "tid = ''4'' \<and> set (task_Lanes t) = {2} \<or>
    set (task_Lanes t) = {1} \<and> ''4'' \<notin> set (halt_tasks t)"
  using assms
  by (simp add: sample_state_def sample_chain_def fmlookup_of_list sample_task_def newTask_def
      split: if_split_asm) (auto simp: task_Lanes_def)

lemma sample_chain_doomed:
  "(doomed_task (sample_state sample_chain) ''1'' [1] k \<longrightarrow> k \<noteq> ''4'') \<and>
   (doomed_lane (sample_state sample_chain) ''1'' [1] l \<longrightarrow> l = 1)"
proof (induction rule: doomed_task_doomed_lane.induct)
  case (lane_of tid t l)
  with sample_chain_lanes [OF lane_of(3)] show ?case by auto
next
  case (in_lane l c tid t)
  have "fmlookup (tasks (sample_state sample_chain)) ''4'' = Some (sample_task ''4'' DoneStatus [] [] [2])"
    by (simp add: sample_state_def sample_chain_def fmlookup_of_list)
  moreover have "task_Lanes (sample_task ''4'' DoneStatus [] [] [2]) = [2]"
    by (simp add: task_Lanes_def sample_task_def)
  ultimately show ?case using in_lane by auto
next
  case (halted tid t h)
  with sample_chain_lanes [OF halted(3)] show ?case by auto
qed simp

theorem AbortLanes_isolated_witness:
  "map_option task_status (fmlookup (tasks (run_or_same (AbortLanes 9 ''1'' [1] (sample_state sample_chain)) empty_state)) ''4'')
     = Some DoneStatus"
proof -
  let ?r = "AbortLanes 9 ''1'' [1] (sample_state sample_chain)"
  have "case ?r of Inl e \<Rightarrow> False | Inr s' \<Rightarrow> True" by code_simp
  then have r: "?r = Inr (run_or_same ?r empty_state)" by (cases ?r) (auto simp: run_or_same_def)
  have u: "fmlookup (tasks (sample_state sample_chain)) ''4'' = Some (sample_task ''4'' DoneStatus [] [] [2])"
    by (simp add: sample_state_def sample_chain_def fmlookup_of_list)
  from AbortLanes_isolated [OF r u] sample_chain_doomed show ?thesis
    by (auto simp: same_status_def sample_task_def newTask_def)
qed

text \<open>
  The order of the tasks decides whether \<open>Change.Abort\<close> panics: with an undone task listed
  before a done one it holds the first, which makes the change ready, and then takes the second
  back to Undo, which is the panic on a ready change that becomes unready.  With the same two tasks
  listed the other way round it returns.
\<close>

lemma Abort_order_panic:
  "change_Abort 9 ''1'' (sample_state
     [(''1'', sample_task ''1'' DoStatus [] [] []), (''2'', sample_task ''2'' DoneStatus [] [] [])])
   = Inl (BecameUnready ''1'' UndoStatus) \<and>
   map_option task_status (fmlookup (tasks (run_or_same (change_Abort 9 ''1'' (sample_state
     [(''2'', sample_task ''2'' DoneStatus [] [] []), (''1'', sample_task ''1'' DoStatus [] [] [])])) empty_state)) ''2'')
   = Some UndoStatus"
  by code_simp

end
