(* ===== verification/TaskRunner.thy ===== *)
theory TaskRunner
  imports Abort
begin

text \<open>
  The task runner (\<open>taskrunner.go\<close>).  A handler is code of another package: the model keeps whether
  a kind has a do and an undo handler, and the end of a handler is the operation \<open>finish\<close> with what
  the tomb of the goroutine reports.  The runner only ever kills a tomb with a nil reason, so that is
  what the handler returned.  Go ranges over maps in any order: the orders are arguments of
  \<open>Ensure\<close>.
\<close>

record handler_pair =
  has_do :: bool
  has_undo :: bool

datatype job = DoJob | UndoJob | CleanupJob

record tomb =
  tomb_job :: job
  tomb_killed :: bool

record runner =
  handlers :: "(string, handler_pair) fmap"
  optional_handlers :: "((task \<Rightarrow> bool) \<times> handler_pair) list"
  cleanups :: "string list"
  stopped :: bool
  blocked_preds :: "(task \<Rightarrow> task list \<Rightarrow> bool) list"
  some_blocked :: bool
  error_callback :: bool
  tombs :: "(string, tomb) fmap"

datatype outcome = Finished | RetryAfter duration | WaitFor' status | Failed message

definition NewTaskRunner :: runner where
  "NewTaskRunner =
     \<lparr>handlers = fmempty, optional_handlers = [], cleanups = [], stopped = False, blocked_preds = [],
      some_blocked = False, error_callback = False, tombs = fmempty\<rparr>"

definition AddHandler :: "string \<Rightarrow> bool \<Rightarrow> bool \<Rightarrow> runner \<Rightarrow> runner" where
  "AddHandler kind d u r = r\<lparr>handlers := fmupd kind \<lparr>has_do = d, has_undo = u\<rparr> (handlers r)\<rparr>"

definition AddOptionalHandler :: "(task \<Rightarrow> bool) \<Rightarrow> bool \<Rightarrow> bool \<Rightarrow> runner \<Rightarrow> runner" where
  "AddOptionalHandler match d u r =
     r\<lparr>optional_handlers := optional_handlers r @ [(match, \<lparr>has_do = d, has_undo = u\<rparr>)]\<rparr>"

fun first_optional :: "((task \<Rightarrow> bool) \<times> handler_pair) list \<Rightarrow> task \<Rightarrow> handler_pair" where
  "first_optional [] t = \<lparr>has_do = False, has_undo = False\<rparr>"
| "first_optional ((match, h) # hs) t = (if match t then h else first_optional hs t)"

definition handlerPair :: "runner \<Rightarrow> task \<Rightarrow> handler_pair" where
  "handlerPair r t =
     (case fmlookup (handlers r) (task_kind t) of
        Some h \<Rightarrow> h
      | None \<Rightarrow> first_optional (optional_handlers r) t)"

definition AddCleanup :: "string \<Rightarrow> runner \<Rightarrow> fault + runner" where
  "AddCleanup kind r =
     (if fmlookup (handlers r) kind = None then Inl (UnknownCleanupKind kind)
      else Inr (r\<lparr>cleanups := add_once (cleanups r) kind\<rparr>))"

definition SetBlocked :: "(task \<Rightarrow> task list \<Rightarrow> bool) \<Rightarrow> runner \<Rightarrow> runner" where
  "SetBlocked p r = r\<lparr>blocked_preds := [p]\<rparr>"

definition AddBlocked :: "(task \<Rightarrow> task list \<Rightarrow> bool) \<Rightarrow> runner \<Rightarrow> runner" where
  "AddBlocked p r = r\<lparr>blocked_preds := blocked_preds r @ [p]\<rparr>"

definition kill_tomb :: "string \<Rightarrow> runner \<Rightarrow> runner" where
  "kill_tomb tid r =
     (case fmlookup (tombs r) tid of
        None \<Rightarrow> r
      | Some tb \<Rightarrow> r\<lparr>tombs := fmupd tid (tb\<lparr>tomb_killed := True\<rparr>) (tombs r)\<rparr>)"

definition start_job :: "string \<Rightarrow> job \<Rightarrow> runner \<Rightarrow> runner" where
  "start_job tid j r = r\<lparr>tombs := fmupd tid \<lparr>tomb_job = j, tomb_killed = False\<rparr> (tombs r)\<rparr>"

text \<open>The part of \<open>run\<close> that holds the state lock.\<close>

definition run_status :: "time \<Rightarrow> string \<Rightarrow> status \<Rightarrow> st \<Rightarrow> fault + (job \<times> st)" where
  "run_status now tid x s =
     (case x of
        DoStatus \<Rightarrow> and_then (SetStatus now tid DoingStatus s) (\<lambda>s1. Inr (DoJob, s1))
      | DoingStatus \<Rightarrow> Inr (DoJob, s)
      | UndoStatus \<Rightarrow> and_then (SetStatus now tid UndoingStatus s) (\<lambda>s1. Inr (UndoJob, s1))
      | UndoingStatus \<Rightarrow> Inr (UndoJob, s)
      | _ \<Rightarrow> Inl (RunInStatus x))"

definition job_handler :: "job \<Rightarrow> handler_pair \<Rightarrow> bool" where
  "job_handler j h = (case j of DoJob \<Rightarrow> has_do h | UndoJob \<Rightarrow> has_undo h | CleanupJob \<Rightarrow> False)"

definition runner_run :: "time \<Rightarrow> string \<Rightarrow> runner \<Rightarrow> st \<Rightarrow> fault + (runner \<times> st)" where
  "runner_run now tid r s =
     and_then (need_task s tid) (\<lambda>t. and_then (run_status now tid (task_Status t) s) (\<lambda>(j, s1).
       and_then (need_task s1 tid) (\<lambda>t1.
         if \<not> job_handler j (handlerPair r t1) then Inl (NilHandler (task_Status t1))
         else and_then (task_At now tid 0 s1) (\<lambda>s2. Inr (start_job tid j r, s2)))))"

definition tryUndo :: "time \<Rightarrow> string \<Rightarrow> runner \<Rightarrow> st \<Rightarrow> fault + st" where
  "tryUndo now tid r s =
     and_then (need_task s tid) (\<lambda>t.
       if task_Status t = AbortStatus \<and> \<not> has_undo (handlerPair r t)
       then and_then (SetStatus now tid HoldStatus s)
              (\<lambda>s1. Inr (if wait_tasks t \<noteq> [] then ensure_before 0 s1 else s1))
       else and_then (SetStatus now tid UndoStatus s) (\<lambda>s1. Inr (ensure_before 0 s1)))"

fun kill_aborted :: "string list \<Rightarrow> st \<Rightarrow> runner \<Rightarrow> fault + (runner \<times> bool)" where
  "kill_aborted [] s r = Inr (r, False)"
| "kill_aborted (tid # tids) s r =
     and_then (need_task s tid) (\<lambda>t.
       and_then (kill_aborted tids s (if task_Status t = AbortStatus then kill_tomb tid r else r))
         (\<lambda>(r', unready). Inr (r', unready \<or> \<not> status_Ready (task_Status t))))"

definition runner_abortLanes :: "time \<Rightarrow> string \<Rightarrow> int list \<Rightarrow> runner \<Rightarrow> st \<Rightarrow> fault + (runner \<times> st)" where
  "runner_abortLanes now cid lanes r s =
     and_then (AbortLanes now cid lanes s) (\<lambda>s1. and_then (need_change s1 cid) (\<lambda>c.
       and_then (kill_aborted (chg_tasks c) s1 r) (\<lambda>(r1, unready).
         Inr (r1, if unready then ensure_before 0 s1 else s1))))"

text \<open>What the goroutine does once its handler has returned.\<close>

definition finish_retry :: "time \<Rightarrow> string \<Rightarrow> duration \<Rightarrow> runner \<Rightarrow> st \<Rightarrow> fault + st" where
  "finish_retry now tid after r s =
     and_then (need_task s tid) (\<lambda>t.
       if task_Status t = AbortStatus then tryUndo now tid r s
       else if after \<noteq> 0 then task_At now tid (now + after) s
       else Inr s)"

definition finish_wait :: "time \<Rightarrow> string \<Rightarrow> status \<Rightarrow> runner \<Rightarrow> st \<Rightarrow> fault + st" where
  "finish_wait now tid waited r s =
     and_then (need_task s tid) (\<lambda>t.
       if task_Status t = AbortStatus then tryUndo now tid r s
       else SetToWait now tid (if waited = DefaultStatus then DoneStatus else waited) s)"

definition ensure_if :: "bool \<Rightarrow> st \<Rightarrow> st" where
  "ensure_if b s = (if b then ensure_before 0 s else s)"

definition finish_ok :: "time \<Rightarrow> string \<Rightarrow> st \<Rightarrow> fault + st" where
  "finish_ok now tid s =
     and_then (need_task s tid) (\<lambda>t.
       (case task_Status t of
          DoingStatus \<Rightarrow>
            and_then (SetStatus now tid DoneStatus s) (\<lambda>s1. Inr (ensure_if (halt_tasks t \<noteq> []) s1))
        | DoneStatus \<Rightarrow> Inr (ensure_if (halt_tasks t \<noteq> []) s)
        | AbortStatus \<Rightarrow> and_then (SetStatus now tid UndoStatus s) (\<lambda>s1. Inr (ensure_before 0 s1))
        | UndoingStatus \<Rightarrow>
            and_then (SetStatus now tid UndoneStatus s) (\<lambda>s1. Inr (ensure_if (wait_tasks t \<noteq> []) s1))
        | UndoneStatus \<Rightarrow> Inr (ensure_if (wait_tasks t \<noteq> []) s)
        | _ \<Rightarrow> Inr s))"

definition finish_error :: "time \<Rightarrow> string \<Rightarrow> message \<Rightarrow> runner \<Rightarrow> st \<Rightarrow> fault + (runner \<times> st)" where
  "finish_error now tid msg r s =
     and_then (need_task s tid) (\<lambda>t.
       and_then (runner_abortLanes now (task_change t) (task_Lanes t) r s) (\<lambda>(r1, s1).
         and_then (SetStatus now tid ErrorStatus s1) (\<lambda>s2.
           and_then (task_Logf now LogError tid msg s2) (\<lambda>s3.
             Inr (r1, if error_callback r1 then emit (TaskErrorReported tid) s3 else s3)))))"

definition accumulate_time :: "job \<Rightarrow> duration \<Rightarrow> task \<Rightarrow> task" where
  "accumulate_time j d t =
     (case j of
        DoJob \<Rightarrow> t\<lparr>doing_time := doing_time t + d\<rparr>
      | UndoJob \<Rightarrow> t\<lparr>undoing_time := undoing_time t + d\<rparr>
      | CleanupJob \<Rightarrow> t)"

definition finish ::
    "time \<Rightarrow> string \<Rightarrow> job \<Rightarrow> duration \<Rightarrow> outcome \<Rightarrow> runner \<Rightarrow> st \<Rightarrow> fault + (runner \<times> st)" where
  "finish now tid j dur out r s =
     and_then (need_task s tid) (\<lambda>t.
       (let s1 = put_task tid (accumulate_time j dur t) s;
            r1 = r\<lparr>tombs := fmdrop tid (tombs r)\<rparr>;
            s2 = ensure_if (some_blocked r) s1
        in (case (case out of Failed m \<Rightarrow> if stopped r then RetryAfter 0 else out | _ \<Rightarrow> out) of
              RetryAfter d \<Rightarrow> and_then (finish_retry now tid d r1 s2) (\<lambda>s3. Inr (r1, s3))
            | WaitFor' x \<Rightarrow> and_then (finish_wait now tid x r1 s2) (\<lambda>s3. Inr (r1, s3))
            | Finished \<Rightarrow> and_then (finish_ok now tid s2) (\<lambda>s3. Inr (r1, s3))
            | Failed m \<Rightarrow> finish_error now tid m r1 s2)))"

definition clean :: "string \<Rightarrow> runner \<Rightarrow> st \<Rightarrow> fault + (runner \<times> st)" where
  "clean tid r s =
     and_then (need_task s tid) (\<lambda>t. and_then (need_change s (task_change t)) (\<lambda>c.
       if \<not> chg_ready c then Inr (r, s)
       else if task_kind t \<in> set (cleanups r) then Inr (start_job tid CleanupJob r, s)
       else and_then (SetClean tid s) (\<lambda>s1. Inr (r, s1))))"

definition finish_cleanup :: "string \<Rightarrow> message option \<Rightarrow> runner \<Rightarrow> st \<Rightarrow> fault + (runner \<times> st)" where
  "finish_cleanup tid e r s =
     (let r1 = r\<lparr>tombs := fmdrop tid (tombs r)\<rparr> in
      case e of
        Some m \<Rightarrow> Inr (r1, s)
      | None \<Rightarrow> and_then (SetClean tid s) (\<lambda>s1. Inr (r1, s1)))"

text \<open>\<open>mustWait\<close>.\<close>

fun some_task :: "(task \<Rightarrow> bool) \<Rightarrow> st \<Rightarrow> string list \<Rightarrow> fault + bool" where
  "some_task p s [] = Inr False"
| "some_task p s (tid # tids) =
     and_then (need_task s tid) (\<lambda>t. if p t then Inr True else some_task p s tids)"

definition mustWait :: "task \<Rightarrow> st \<Rightarrow> fault + bool" where
  "mustWait t s =
     (case task_Status t of
        DoStatus \<Rightarrow> some_task (\<lambda>w. task_Status w \<noteq> DoneStatus) s (wait_tasks t)
      | UndoStatus \<Rightarrow> some_task (\<lambda>h. \<not> status_Ready (task_Status h)) s (halt_tasks t)
      | _ \<Rightarrow> Inr False)"

text \<open>
  One round of the loop of \<open>Ensure\<close>.  \<open>running\<close> are the ids of the running tasks, \<open>next\<close> the earliest
  time a task is scheduled for.
\<close>

record ensure_state =
  es_runner :: runner
  es_st :: st
  es_running :: "string list"
  es_next :: time

definition consider_start :: "time \<Rightarrow> string \<Rightarrow> task \<Rightarrow> ensure_state \<Rightarrow> fault + ensure_state" where
  "consider_start now tid t e =
     (if \<not> is_zero_time (at_time t) \<and> now < at_time t
      then Inr (if is_zero_time (es_next e) \<or> at_time t < es_next e
                then e\<lparr>es_next := at_time t\<rparr> else e)
      else and_then (map_try (need_task (es_st e)) (es_running e)) (\<lambda>running.
        if \<exists>p \<in> set (blocked_preds (es_runner e)). p t running
        then Inr (e\<lparr>es_runner := (es_runner e)\<lparr>some_blocked := True\<rparr>\<rparr>)
        else and_then (runner_run now tid (es_runner e) (es_st e)) (\<lambda>(r, s).
               Inr (e\<lparr>es_runner := r, es_st := s, es_running := es_running e @ [tid]\<rparr>))))"

definition consider_idle :: "time \<Rightarrow> string \<Rightarrow> ensure_state \<Rightarrow> fault + ensure_state" where
  "consider_idle now tid e =
     and_then (need_task (es_st e) tid) (\<lambda>t.
       if status_Ready (task_Status t) then
         (if task_clean t then Inr e
          else and_then (clean tid (es_runner e) (es_st e)) (\<lambda>(r, s).
                 Inr (e\<lparr>es_runner := r, es_st := s\<rparr>)))
       else if task_Status t = WaitStatus then Inr e
       else and_then (mustWait t (es_st e)) (\<lambda>w.
         if w then Inr e
         else if task_Status t = UndoStatus \<and> \<not> has_undo (handlerPair (es_runner e) t)
         then and_then (SetStatus now tid DoneStatus (es_st e)) (\<lambda>s1.
                Inr (e\<lparr>es_st := ensure_if (wait_tasks t \<noteq> []) s1\<rparr>))
         else consider_start now tid t e))"

definition consider_task :: "time \<Rightarrow> string \<Rightarrow> ensure_state \<Rightarrow> fault + ensure_state" where
  "consider_task now tid e =
     and_then (need_task (es_st e) tid) (\<lambda>t.
       if \<not> has_do (handlerPair (es_runner e) t) then Inr e
       else if fmlookup (tombs (es_runner e)) tid \<noteq> None
       then Inr (if task_Status t = AbortStatus
                 then e\<lparr>es_runner := kill_tomb tid (es_runner e)\<rparr> else e)
       else if task_Status t = AbortStatus
       then and_then (tryUndo now tid (es_runner e) (es_st e)) (\<lambda>s1.
              consider_idle now tid (e\<lparr>es_st := s1\<rparr>))
       else consider_idle now tid e)"

definition ensure_start :: "string list \<Rightarrow> runner \<Rightarrow> st \<Rightarrow> ensure_state" where
  "ensure_start tomb_order r s =
     \<lparr>es_runner = r\<lparr>some_blocked := False\<rparr>, es_st = s,
      es_running = filter (\<lambda>tid. state_Task s tid \<noteq> None) tomb_order, es_next = 0\<rparr>"

definition Ensure :: "time \<Rightarrow> string list \<Rightarrow> string list \<Rightarrow> runner \<Rightarrow> st \<Rightarrow> fault + (runner \<times> st)" where
  "Ensure now tomb_order task_order r s =
     (if stopped r then Inr (r, s)
      else and_then
        (fold_try (consider_task now) task_order (ensure_start tomb_order r s))
        (\<lambda>e. Inr (es_runner e,
               if is_zero_time (es_next e) then es_st e else ensure_before (es_next e - now) (es_st e))))"

definition Stop_begin :: "runner \<Rightarrow> runner" where
  "Stop_begin r = r\<lparr>stopped := True, tombs := fmmap (\<lambda>tb. tb\<lparr>tomb_killed := True\<rparr>) (tombs r)\<rparr>"

definition StopKinds_begin :: "string list \<Rightarrow> st \<Rightarrow> runner \<Rightarrow> runner" where
  "StopKinds_begin kinds s r =
     r\<lparr>tombs := fmmap_keys (\<lambda>tid tb.
         (case state_Task s tid of
            None \<Rightarrow> tb
          | Some t \<Rightarrow> (if task_kind t \<in> set kinds then tb\<lparr>tomb_killed := True\<rparr> else tb))) (tombs r)\<rparr>"


subsection \<open>What a round touches\<close>

definition links :: "task \<Rightarrow> string \<times> string \<times> string list \<times> string list \<times> int list \<times> string" where
  "links t = (task_id t, task_kind t, wait_tasks t, halt_tasks t, task_lanes t, task_change t)"

definition touches :: "st \<Rightarrow> st \<Rightarrow> string \<Rightarrow> bool" where
  "touches s s' tid \<longleftrightarrow> (\<forall>k t. fmlookup (tasks s) k = Some t \<longrightarrow>
     (\<exists>t'. fmlookup (tasks s') k = Some t' \<and> links t' = links t \<and>
        (k \<noteq> tid \<longrightarrow> task_status t' = task_status t \<and> at_time t' = at_time t)))"

lemma touches_refl [simp]: "touches s s tid"
  by (simp add: touches_def)

lemma touches_trans: "touches s s1 tid \<Longrightarrow> touches s1 s2 tid \<Longrightarrow> touches s s2 tid"
  unfolding touches_def by (metis (no_types, opaque_lifting))

lemma touches_same_tasks: "tasks s' = tasks s \<Longrightarrow> touches s s' tid"
  by (simp add: touches_def)

lemma ensure_if_tasks [simp]:
  "tasks (ensure_if b s) = tasks s" "tasks (ensure_before d s) = tasks s"
  "changes (ensure_if b s) = changes s" "changes (ensure_before d s) = changes s"
  by (simp_all add: ensure_if_def ensure_before_def)

lemma SetStatus_lookup:
  assumes "SetStatus now tid x s = Inr s'" "fmlookup (tasks s) k = Some t"
  obtains t' where "fmlookup (tasks s') k = Some t'" "links t' = links t" "at_time t' = at_time t"
    "waited_status t' = waited_status t" "task_clean t' = task_clean t"
    "task_status t' = (if k = tid then if x = DoneStatus \<and> task_status t = AbortStatus then AbortStatus else x
                       else task_status t)"
proof -
  from SetStatus_needs_task [OF assms(1)] obtain u where u: "fmlookup (tasks s) tid = Some u" ..
  from shape_task [OF SetStatus_shape [OF assms(1)] assms(2)] obtain t' where
    t': "fmlookup (tasks s') k = Some t'" by blast
  define y where "y = (if x = DoneStatus \<and> task_status u = AbortStatus then AbortStatus else x)"
  have "status_change_of s s' tid y" unfolding y_def by (rule SetStatus_effect [OF assms(1) u])
  from status_change_of_lookup [OF this t'] assms(2)
  have f: "wait_tasks t' = wait_tasks t" "halt_tasks t' = halt_tasks t" "task_lanes t' = task_lanes t"
    "task_change t' = task_change t" "task_id t' = task_id t" "task_kind t' = task_kind t"
    "task_clean t' = task_clean t" "waited_status t' = waited_status t" "at_time t' = at_time t"
    "task_status t' = (if k = tid then y else task_status t)"
    by (metis option.inject)+
  have "task_status t' = (if k = tid then if x = DoneStatus \<and> task_status t = AbortStatus then AbortStatus else x
                       else task_status t)"
    using f(10) u assms(2) by (cases "k = tid") (simp_all add: y_def)
  with that t' f show thesis by (simp add: links_def)
qed

lemma SetStatus_touches: "SetStatus now tid x s = Inr s' \<Longrightarrow> touches s s' tid"
  unfolding touches_def by (auto elim: SetStatus_lookup)

lemma put_task_touches:
  "fmlookup (tasks s) tid = Some t \<Longrightarrow> links t' = links t \<Longrightarrow> touches s (put_task tid t' s) tid"
  by (auto simp: touches_def)

lemma task_At_touches:
  assumes "task_At now tid w s = Inr s'"
  shows "touches s s' tid"
proof -
  from assms obtain t where t: "fmlookup (tasks s) tid = Some t"
    by (auto simp: task_At_def and_then_Inr_iff)
  have "links (t\<lparr>at_time := w\<rparr>) = links t" by (simp add: links_def)
  from put_task_touches [OF t this] assms t show ?thesis
    by (auto simp: task_At_def Let_def touches_def split: if_split_asm)
qed

lemma taskCleanChanged_tasks: "taskCleanChanged cid s = Inr s' \<Longrightarrow> tasks s' = tasks s"
  by (auto simp: taskCleanChanged_def and_then_Inr_iff split: if_split_asm)

lemma SetClean_tasks:
  assumes "SetClean tid s = Inr s'"
  obtains t where "fmlookup (tasks s) tid = Some t"
    "tasks s' = tasks s \<or> tasks s' = fmupd tid (t\<lparr>task_clean := True\<rparr>) (tasks s)"
  using assms
  by (auto simp: SetClean_def Let_def and_then_Inr_iff split: if_split_asm option.split_asm
      dest!: taskCleanChanged_tasks)

lemma SetClean_touches:
  assumes "SetClean tid s = Inr s'"
  shows "touches s s' tid" "has_status s tid x \<Longrightarrow> has_status s' tid x"
proof -
  from assms obtain t where t: "fmlookup (tasks s) tid = Some t"
    and s': "tasks s' = tasks s \<or> tasks s' = fmupd tid (t\<lparr>task_clean := True\<rparr>) (tasks s)"
    by (rule SetClean_tasks)
  then show "touches s s' tid" by (auto simp: touches_def links_def)
  from t s' show "has_status s' tid x" if "has_status s tid x"
    using that by (auto simp: has_status_def task_Status_def)
qed

lemma tryUndo_cases:
  assumes "tryUndo now tid r s = Inr s'"
  obtains s1 x t where "fmlookup (tasks s) tid = Some t" "SetStatus now tid x s = Inr s1"
    "x \<in> {HoldStatus, UndoStatus}" "tasks s' = tasks s1" "changes s' = changes s1"
    "x = HoldStatus \<longleftrightarrow> task_Status t = AbortStatus \<and> \<not> has_undo (handlerPair r t)"
proof -
  from assms obtain t where t: "fmlookup (tasks s) tid = Some t"
    by (auto simp: tryUndo_def and_then_Inr_iff)
  show thesis
  proof (cases "task_Status t = AbortStatus \<and> \<not> has_undo (handlerPair r t)")
    case True
    with assms t obtain s1 where "SetStatus now tid HoldStatus s = Inr s1"
      "s' = (if wait_tasks t \<noteq> [] then ensure_before 0 s1 else s1)"
      by (auto simp: tryUndo_def and_then_Inr_iff)
    with t True show thesis by (intro that [of t HoldStatus s1]) auto
  next
    case False
    with assms t obtain s1 where "SetStatus now tid UndoStatus s = Inr s1" "s' = ensure_before 0 s1"
      by (auto simp: tryUndo_def and_then_Inr_iff split: if_split_asm)
    with t False show thesis by (intro that [of t UndoStatus s1]) auto
  qed
qed

lemma tryUndo_touches: "tryUndo now tid r s = Inr s' \<Longrightarrow> touches s s' tid"
  by (erule tryUndo_cases) (auto dest!: SetStatus_touches simp: touches_def)

lemma run_status_touches: "run_status now tid x s = Inr (j, s') \<Longrightarrow> touches s s' tid"
  by (cases x) (auto simp: run_status_def and_then_Inr_iff SetStatus_touches)

lemma runner_run_cases:
  assumes "runner_run now tid r s = Inr (r', s')"
  obtains t j s1 where "fmlookup (tasks s) tid = Some t"
    "run_status now tid (task_Status t) s = Inr (j, s1)" "task_At now tid 0 s1 = Inr s'"
    "r' = start_job tid j r" "job_handler j (handlerPair r (the (fmlookup (tasks s1) tid)))"
  using assms by (auto simp: runner_run_def and_then_Inr_iff split: if_split_asm)

lemma runner_run_touches: "runner_run now tid r s = Inr (r', s') \<Longrightarrow> touches s s' tid"
  by (erule runner_run_cases) (metis run_status_touches task_At_touches touches_trans)

lemma clean_cases:
  assumes "clean tid r s = Inr (r', s')"
  obtains (none) "r' = r" "s' = s"
  | (job) t where "fmlookup (tasks s) tid = Some t" "r' = start_job tid CleanupJob r" "s' = s"
      "\<exists>c. fmlookup (changes s) (task_change t) = Some c \<and> chg_ready c" "task_kind t \<in> set (cleanups r)"
  | (set) "r' = r" "SetClean tid s = Inr s'"
  using assms by (auto simp: clean_def and_then_Inr_iff split: if_split_asm)

lemma clean_touches: "clean tid r s = Inr (r', s') \<Longrightarrow> touches s s' tid"
  by (erule clean_cases) (auto simp: SetClean_touches)

lemma consider_start_cases:
  assumes "consider_start now tid t e = Inr e'"
  obtains (idle) "es_st e' = es_st e" "tombs (es_runner e') = tombs (es_runner e)"
      "\<not> is_zero_time (at_time t) \<and> now < at_time t \<or> blocked_preds (es_runner e) \<noteq> []"
      "handlers (es_runner e') = handlers (es_runner e)"
      "blocked_preds (es_runner e') = blocked_preds (es_runner e)"
  | (run) r' s' where "runner_run now tid (es_runner e) (es_st e) = Inr (r', s')"
      "es_runner e' = r'" "es_st e' = s'" "is_zero_time (at_time t) \<or> at_time t \<le> now"
      "handlers (es_runner e') = handlers (es_runner e)"
      "blocked_preds (es_runner e') = blocked_preds (es_runner e)"
proof (cases "\<not> is_zero_time (at_time t) \<and> now < at_time t")
  case True
  with assms show thesis by (intro idle) (auto simp: consider_start_def split: if_split_asm)
next
  case False
  with assms obtain ts where ts: "map_try (need_task (es_st e)) (es_running e) = Inr ts"
    by (auto simp: consider_start_def and_then_Inr_iff)
  have res: "(if \<exists>p \<in> set (blocked_preds (es_runner e)). p t ts
        then Inr (e\<lparr>es_runner := (es_runner e)\<lparr>some_blocked := True\<rparr>\<rparr>)
        else and_then (runner_run now tid (es_runner e) (es_st e)) (\<lambda>(r, s).
               Inr (e\<lparr>es_runner := r, es_st := s, es_running := es_running e @ [tid]\<rparr>))) = Inr e'"
    using assms unfolding consider_start_def if_not_P [OF False] ts and_then_simps .
  show thesis
  proof (cases "\<exists>p \<in> set (blocked_preds (es_runner e)). p t ts")
    case True
    from res have "e' = e\<lparr>es_runner := (es_runner e)\<lparr>some_blocked := True\<rparr>\<rparr>"
      unfolding if_P [OF True] by simp
    with True show thesis by (intro idle) auto
  next
    case free: False
    from res obtain r' s' where
      "runner_run now tid (es_runner e) (es_st e) = Inr (r', s')"
      "e' = e\<lparr>es_runner := r', es_st := s', es_running := es_running e @ [tid]\<rparr>"
      unfolding if_not_P [OF free] by (auto simp: and_then_Inr_iff)
    with False show thesis
      by (intro run [of r' s']) (auto elim!: runner_run_cases simp: start_job_def)
  qed
qed

lemma consider_start_touches: "consider_start now tid t e = Inr e' \<Longrightarrow> touches (es_st e) (es_st e') tid"
  by (erule consider_start_cases) (auto simp: runner_run_touches)


subsection \<open>What a round starts\<close>

definition startable :: "time \<Rightarrow> runner \<Rightarrow> st \<Rightarrow> string \<Rightarrow> job \<Rightarrow> bool" where
  "startable now r s tid j \<longleftrightarrow>
     (\<exists>t. fmlookup (tasks s) tid = Some t \<and>
       (case j of
          CleanupJob \<Rightarrow> status_Ready (task_Status t) \<and> \<not> task_clean t \<and> task_kind t \<in> set (cleanups r) \<and>
            (\<exists>c. fmlookup (changes s) (task_change t) = Some c \<and> chg_ready c)
        | DoJob \<Rightarrow> (at_time t = 0 \<or> at_time t \<le> now) \<and>
            (task_Status t = DoingStatus \<or>
             task_Status t = DoStatus \<and> (\<forall>w \<in> set (wait_tasks t). has_status s w DoneStatus))
        | UndoJob \<Rightarrow> (at_time t = 0 \<or> at_time t \<le> now) \<and>
            (task_Status t = UndoingStatus \<or>
             task_Status t = UndoStatus \<and>
               (\<forall>h \<in> set (halt_tasks t). \<exists>u. fmlookup (tasks s) h = Some u \<and> status_Ready (task_Status u)))))"

lemma some_task_False:
  "some_task p s tids = Inr False \<longleftrightarrow> (\<forall>k \<in> set tids. \<exists>t. fmlookup (tasks s) k = Some t \<and> \<not> p t)"
  by (induction tids) (auto simp: and_then_Inr_iff)

lemma mustWait_False:
  assumes "mustWait t s = Inr False"
  shows "task_Status t = DoStatus \<Longrightarrow> \<forall>w \<in> set (wait_tasks t). has_status s w DoneStatus"
    and "task_Status t = UndoStatus \<Longrightarrow>
      \<forall>h \<in> set (halt_tasks t). \<exists>u. fmlookup (tasks s) h = Some u \<and> status_Ready (task_Status u)"
  using assms by (auto simp: mustWait_def some_task_False has_status_def)

lemma run_status_job:
  assumes "run_status now tid x s = Inr (j, s')"
  shows "j = DoJob \<and> x \<in> {DoStatus, DoingStatus} \<or> j = UndoJob \<and> x \<in> {UndoStatus, UndoingStatus}"
  using assms by (cases x) (auto simp: run_status_def and_then_Inr_iff)

lemma consider_idle_cases:
  assumes "consider_idle now tid e = Inr e'"
  obtains (idle) "es_st e' = es_st e" "tombs (es_runner e') = tombs (es_runner e)"
  | (cleanup) "es_st e' = es_st e" "es_runner e' = start_job tid CleanupJob (es_runner e)"
      "startable now (es_runner e) (es_st e) tid CleanupJob"
  | (cleaned) "tombs (es_runner e') = tombs (es_runner e)" "SetClean tid (es_st e) = Inr (es_st e')"
  | (no_undo) t s1 where "tombs (es_runner e') = tombs (es_runner e)" "SetStatus now tid DoneStatus (es_st e) = Inr s1"
      "tasks (es_st e') = tasks s1" "fmlookup (tasks (es_st e)) tid = Some t" "task_Status t = UndoStatus"
      "\<not> has_undo (handlerPair (es_runner e) t)"
  | (start) j t s1 where "es_runner e' = start_job tid j (es_runner e)"
      "startable now (es_runner e) (es_st e) tid j" "j \<noteq> CleanupJob"
      "fmlookup (tasks (es_st e)) tid = Some t" "run_status now tid (task_Status t) (es_st e) = Inr (j, s1)"
      "task_At now tid 0 s1 = Inr (es_st e')"
proof -
  from assms obtain t where t: "fmlookup (tasks (es_st e)) tid = Some t"
    by (auto simp: consider_idle_def and_then_Inr_iff)
  show thesis
  proof (cases "status_Ready (task_Status t)")
    case True
    show thesis
    proof (cases "task_clean t")
      case False
      with True assms t obtain r s where c: "clean tid (es_runner e) (es_st e) = Inr (r, s)"
        and e': "e' = e\<lparr>es_runner := r, es_st := s\<rparr>"
        by (auto simp: consider_idle_def and_then_Inr_iff)
      from c show thesis
      proof (cases rule: clean_cases)
        case none
        with e' show thesis by (intro idle) auto
      next
        case (job t1)
        with e' t True False show thesis by (intro cleanup) (auto simp: startable_def)
      next
        case set
        with e' show thesis by (intro cleaned) auto
      qed
    qed (use True assms t idle in \<open>auto simp: consider_idle_def\<close>)
  next
    case nr: False
    show thesis
    proof (cases "task_Status t = WaitStatus")
      case True
      with assms t idle nr show thesis by (auto simp: consider_idle_def)
    next
      case nw: False
      with nr assms t obtain w where w: "mustWait t (es_st e) = Inr w"
        by (auto simp: consider_idle_def and_then_Inr_iff)
      show thesis
      proof (cases w)
        case True
        with assms t nr nw w idle show thesis by (auto simp: consider_idle_def)
      next
        case False
        show thesis
        proof (cases "task_Status t = UndoStatus \<and> \<not> has_undo (handlerPair (es_runner e) t)")
          case True
          with assms t nr nw w False obtain s1 where "SetStatus now tid DoneStatus (es_st e) = Inr s1"
            "e' = e\<lparr>es_st := ensure_if (wait_tasks t \<noteq> []) s1\<rparr>"
            by (auto simp: consider_idle_def and_then_Inr_iff)
          with True t show thesis by (intro no_undo [of s1 t]) auto
        next
          case undo: False
          with assms t nr nw w False have "consider_start now tid t e = Inr e'"
            by (auto simp: consider_idle_def split: if_split_asm)
          then show thesis
          proof (cases rule: consider_start_cases)
            case (run r' s')
            from run(1) show thesis
            proof (cases rule: runner_run_cases)
              case (1 t1 j s1)
              with run t w False mustWait_False [of t "es_st e"] run_status_job [OF 1(2)] show thesis
                by (intro start [of j t s1]) (auto simp: startable_def is_zero_time_def)
            qed
          qed (rule idle)
        qed
      qed
    qed
  qed
qed

lemma consider_idle_config:
  assumes "consider_idle now tid e = Inr e'"
  shows "handlers (es_runner e') = handlers (es_runner e)"
    "blocked_preds (es_runner e') = blocked_preds (es_runner e)"
  using assms
  by (auto simp: consider_idle_def and_then_Inr_iff start_job_def elim!: clean_cases consider_start_cases
      split: if_split_asm)

lemma consider_idle_touches:
  assumes "consider_idle now tid e = Inr e'"
  shows "touches (es_st e) (es_st e') tid"
  using assms
proof (cases rule: consider_idle_cases)
  case (start j t s1)
  from run_status_touches [OF start(5)] task_At_touches [OF start(6)] show ?thesis by (rule touches_trans)
next
  case (no_undo t s1)
  from SetStatus_touches [OF no_undo(2)] no_undo(3) show ?thesis by (simp add: touches_def)
qed (auto simp: SetClean_touches)

text \<open>The state a round starts a job in: the one it found, or that one after \<open>tryUndo\<close>.\<close>

definition round_state :: "time \<Rightarrow> runner \<Rightarrow> st \<Rightarrow> string \<Rightarrow> st \<Rightarrow> bool" where
  "round_state now r s tid s1 \<longleftrightarrow> s1 = s \<or> has_status s tid AbortStatus \<and> tryUndo now tid r s = Inr s1"

lemma consider_task_cases:
  assumes "consider_task now tid e = Inr e'"
  obtains (idle) "es_st e' = es_st e" "es_runner e' = es_runner e"
  | (killed) "es_st e' = es_st e" "es_runner e' = kill_tomb tid (es_runner e)"
  | (round) s1 where "fmlookup (tombs (es_runner e)) tid = None" "round_state now (es_runner e) (es_st e) tid s1"
      "consider_idle now tid (e\<lparr>es_st := s1\<rparr>) = Inr e'"
proof -
  from assms obtain t where t: "fmlookup (tasks (es_st e)) tid = Some t"
    by (auto simp: consider_task_def and_then_Inr_iff)
  show thesis
  proof (cases "has_do (handlerPair (es_runner e) t) \<and> fmlookup (tombs (es_runner e)) tid = None")
    case False
    with assms t idle killed show thesis
      by (cases "task_Status t = AbortStatus") (auto simp: consider_task_def split: if_split_asm)
  next
    case True
    show thesis
    proof (cases "task_Status t = AbortStatus")
      case abort: True
      with True assms t obtain s1 where "tryUndo now tid (es_runner e) (es_st e) = Inr s1"
        "consider_idle now tid (e\<lparr>es_st := s1\<rparr>) = Inr e'"
        by (auto simp: consider_task_def and_then_Inr_iff)
      with True t abort show thesis by (intro round) (auto simp: round_state_def has_status_def)
    next
      case False
      with True assms t show thesis
        by (intro round [of "es_st e"]) (auto simp: consider_task_def round_state_def)
    qed
  qed
qed

lemma round_state_touches: "round_state now r s tid s1 \<Longrightarrow> touches s s1 tid"
  by (auto simp: round_state_def tryUndo_touches)

lemma consider_task_touches:
  assumes "consider_task now tid e = Inr e'"
  shows "touches (es_st e) (es_st e') tid"
  using assms
proof (cases rule: consider_task_cases)
  case (round s1)
  from round_state_touches [OF round(2)] consider_idle_touches [OF round(3)]
  show ?thesis by (auto intro: touches_trans)
qed auto

lemma consider_task_config:
  assumes "consider_task now tid e = Inr e'"
  shows "handlers (es_runner e') = handlers (es_runner e)"
    "blocked_preds (es_runner e') = blocked_preds (es_runner e)"
  using assms consider_idle_config
  by (auto elim!: consider_task_cases simp: kill_tomb_def split: option.split)

definition same_job :: "tomb option \<Rightarrow> tomb option \<Rightarrow> bool" where
  "same_job a b \<longleftrightarrow> map_option tomb_job a = map_option tomb_job b"

lemma consider_task_tombs:
  assumes "consider_task now tid e = Inr e'"
  shows "same_job (fmlookup (tombs (es_runner e')) k) (fmlookup (tombs (es_runner e)) k) \<or>
    k = tid \<and> fmlookup (tombs (es_runner e)) k = None \<and>
    (\<exists>s1 tb. round_state now (es_runner e) (es_st e) tid s1 \<and> fmlookup (tombs (es_runner e')) k = Some tb \<and>
       startable now (es_runner e) s1 tid (tomb_job tb))"
  using assms
proof (cases rule: consider_task_cases)
  case (round s1)
  from round(3) show ?thesis
  proof (cases rule: consider_idle_cases)
    case cleanup
    with round show ?thesis by (auto simp: start_job_def same_job_def)
  next
    case (start j t s2)
    with round show ?thesis by (auto simp: start_job_def same_job_def)
  qed (auto simp: same_job_def)
qed (auto simp: same_job_def kill_tomb_def split: option.split)


subsection \<open>The loop\<close>

lemma same_job_trans: "same_job a b \<Longrightarrow> same_job b c \<Longrightarrow> same_job a c"
  by (simp add: same_job_def)

lemma same_job_None [simp]: "same_job None b \<longleftrightarrow> b = None" "same_job a None \<longleftrightarrow> a = None"
  by (auto simp: same_job_def)

lemma ensure_fold_tombs:
  assumes "fold_try (consider_task now) tids e0 = Inr e"
  shows "same_job (fmlookup (tombs (es_runner e)) k) (fmlookup (tombs (es_runner e0)) k) \<or>
    fmlookup (tombs (es_runner e0)) k = None \<and>
    (\<exists>pre post e1 s1 tb. tids = pre @ k # post \<and> fold_try (consider_task now) pre e0 = Inr e1 \<and>
       round_state now (es_runner e1) (es_st e1) k s1 \<and> fmlookup (tombs (es_runner e)) k = Some tb \<and>
       startable now (es_runner e1) s1 k (tomb_job tb))"
  using assms
proof (induction tids arbitrary: e rule: rev_induct)
  case Nil
  then show ?case by (simp add: same_job_def)
next
  case (snoc x xs)
  from snoc.prems obtain e1 where e1: "fold_try (consider_task now) xs e0 = Inr e1"
    and x: "consider_task now x e1 = Inr e"
    by (auto simp: fold_try_append and_then_Inr_iff)
  note IH = snoc.IH [OF e1]
  from consider_task_tombs [OF x, of k] show ?case
  proof
    assume same: "same_job (fmlookup (tombs (es_runner e)) k) (fmlookup (tombs (es_runner e1)) k)"
    from IH show ?thesis
    proof
      assume "same_job (fmlookup (tombs (es_runner e1)) k) (fmlookup (tombs (es_runner e0)) k)"
      with same show ?thesis by (blast intro: same_job_trans)
    next
      assume a: "fmlookup (tombs (es_runner e0)) k = None \<and>
        (\<exists>pre post e1' s1 tb. xs = pre @ k # post \<and> fold_try (consider_task now) pre e0 = Inr e1' \<and>
         round_state now (es_runner e1') (es_st e1') k s1 \<and> fmlookup (tombs (es_runner e1)) k = Some tb \<and>
         startable now (es_runner e1') s1 k (tomb_job tb))"
      then obtain pre post e2 s2 tb where b: "xs = pre @ k # post"
        "fold_try (consider_task now) pre e0 = Inr e2" "round_state now (es_runner e2) (es_st e2) k s2"
        "fmlookup (tombs (es_runner e1)) k = Some tb" "startable now (es_runner e2) s2 k (tomb_job tb)"
        by blast
      from same b(4) obtain tb' where "fmlookup (tombs (es_runner e)) k = Some tb'" "tomb_job tb' = tomb_job tb"
        by (auto simp: same_job_def)
      moreover from b(1) have "xs @ [x] = pre @ k # (post @ [x])" by simp
      ultimately show ?thesis using a b by metis
    qed
  next
    assume new: "k = x \<and> fmlookup (tombs (es_runner e1)) k = None \<and>
      (\<exists>s1 tb. round_state now (es_runner e1) (es_st e1) x s1 \<and> fmlookup (tombs (es_runner e)) k = Some tb \<and>
         startable now (es_runner e1) s1 x (tomb_job tb))"
    with IH have "fmlookup (tombs (es_runner e0)) k = None" by (auto simp: same_job_def)
    with new e1 show ?thesis by blast
  qed
qed

lemma consider_keeps_done:
  assumes "consider_task now k e = Inr e'" "has_status (es_st e) k DoneStatus"
  shows "has_status (es_st e') k DoneStatus"
  using assms(1)
proof (cases rule: consider_task_cases)
  case (round s1)
  from round(2) assms(2) have s1: "s1 = es_st e" by (auto simp: round_state_def has_status_def)
  from round(3) show ?thesis
  proof (cases rule: consider_idle_cases)
    case (no_undo t s2)
    with s1 assms(2) show ?thesis by (simp add: has_status_def)
  next
    case (start j t s2)
    with s1 assms(2) run_status_job [OF start(5)] show ?thesis by (auto simp: has_status_def)
  qed (use s1 assms(2) SetClean_touches(2) in auto)
qed (use assms(2) in auto)

definition ready_to_do :: "time \<Rightarrow> ensure_state \<Rightarrow> string \<Rightarrow> bool" where
  "ready_to_do now e tid \<longleftrightarrow>
     blocked_preds (es_runner e) = [] \<and>
     (\<exists>t h. fmlookup (tasks (es_st e)) tid = Some t \<and> task_Status t = DoStatus \<and>
        (at_time t = 0 \<or> at_time t \<le> now) \<and> (\<forall>w \<in> set (wait_tasks t). has_status (es_st e) w DoneStatus) \<and>
        fmlookup (handlers (es_runner e)) (task_kind t) = Some h \<and> has_do h)"

lemma touches_has_status:
  "touches s s' tid \<Longrightarrow> k \<noteq> tid \<Longrightarrow> has_status s k x \<Longrightarrow> has_status s' k x"
  by (auto simp: touches_def has_status_def task_Status_def) fastforce+

lemma consider_keeps_ready:
  assumes "consider_task now k e = Inr e'" "k \<noteq> tid" "ready_to_do now e tid"
  shows "ready_to_do now e' tid"
proof -
  from assms(3) obtain t h where t: "fmlookup (tasks (es_st e)) tid = Some t" "task_Status t = DoStatus"
    "at_time t = 0 \<or> at_time t \<le> now" "\<And>w. w \<in> set (wait_tasks t) \<Longrightarrow> has_status (es_st e) w DoneStatus"
    "fmlookup (handlers (es_runner e)) (task_kind t) = Some h" "has_do h"
    and b: "blocked_preds (es_runner e) = []"
    by (auto simp: ready_to_do_def)
  from consider_task_touches [OF assms(1)] t(1) assms(2) obtain t' where
    t': "fmlookup (tasks (es_st e')) tid = Some t'" "links t' = links t" "task_status t' = task_status t"
      "at_time t' = at_time t"
    by (auto simp: touches_def)
  have "has_status (es_st e') w DoneStatus" if "w \<in> set (wait_tasks t)" for w
    using consider_keeps_done [OF assms(1)] touches_has_status [OF consider_task_touches [OF assms(1)]]
      t(4) [OF that] by (cases "w = k") auto
  with t t' b consider_task_config [OF assms(1)] show ?thesis
    by (auto simp: ready_to_do_def links_def task_Status_def)
qed

lemma consider_starts:
  assumes "consider_task now tid e = Inr e'" "ready_to_do now e tid"
  shows "fmlookup (tombs (es_runner e')) tid \<noteq> None"
proof (cases "fmlookup (tombs (es_runner e)) tid = None")
  case True
  from assms(2) obtain t h where t: "fmlookup (tasks (es_st e)) tid = Some t" "task_Status t = DoStatus"
    "at_time t = 0 \<or> at_time t \<le> now" "\<And>w. w \<in> set (wait_tasks t) \<Longrightarrow> has_status (es_st e) w DoneStatus"
    "fmlookup (handlers (es_runner e)) (task_kind t) = Some h" "has_do h"
    and b: "blocked_preds (es_runner e) = []"
    by (auto simp: ready_to_do_def)
  have "mustWait t (es_st e) = Inr False"
    using t(2,4) by (simp add: mustWait_def some_task_False has_status_def)
  moreover have "has_do (handlerPair (es_runner e) t)" using t by (simp add: handlerPair_def)
  moreover have "\<not> (\<not> is_zero_time (at_time t) \<and> now < at_time t)" using t(3) by (auto simp: is_zero_time_def)
  ultimately have "consider_start now tid t e = Inr e'"
    using assms(1) t(1,2) True by (simp add: consider_task_def consider_idle_def)
  then show ?thesis
  proof (cases rule: consider_start_cases)
    case idle
    with t(3) b show ?thesis by (auto simp: is_zero_time_def)
  next
    case (run r' s')
    obtain j where "r' = start_job tid j (es_runner e)" using run(1) by (rule runner_run_cases) blast
    with run(2) show ?thesis by (simp add: start_job_def)
  qed
next
  case False
  with consider_task_tombs [OF assms(1), of tid]
  have "same_job (fmlookup (tombs (es_runner e')) tid) (fmlookup (tombs (es_runner e)) tid)" by blast
  with False show ?thesis by (metis same_job_None(1))
qed

lemma ensure_keeps_ready:
  "fold_try (consider_task now) tids e = Inr e' \<Longrightarrow> tid \<notin> set tids \<Longrightarrow> ready_to_do now e tid \<Longrightarrow>
     ready_to_do now e' tid"
proof (induction tids arbitrary: e)
  case (Cons k tids)
  from Cons.prems(1) obtain e1 where e1: "consider_task now k e = Inr e1"
    "fold_try (consider_task now) tids e1 = Inr e'" by (auto simp: and_then_Inr_iff)
  from Cons.prems(2) have "k \<noteq> tid" "tid \<notin> set tids" by auto
  from Cons.IH [OF e1(2) this(2) consider_keeps_ready [OF e1(1) this(1) Cons.prems(3)]] show ?case .
qed simp

text \<open>The moves of a task status in one pass of \<open>Ensure\<close>.\<close>

fun ensure_move :: "status \<Rightarrow> status \<Rightarrow> bool" where
  "ensure_move DoStatus y = (y \<in> {DoStatus, DoingStatus})"
| "ensure_move UndoStatus y = (y \<in> {UndoStatus, UndoingStatus, DoneStatus})"
| "ensure_move AbortStatus y = (y \<in> {AbortStatus, HoldStatus, UndoStatus, UndoingStatus, DoneStatus})"
| "ensure_move x y = (y = x)"

lemma ensure_move_refl [simp]: "ensure_move x x"
  by (cases x) auto

lemma has_status_upd: "SetStatus now tid x s = Inr s' \<Longrightarrow> x \<noteq> DoneStatus \<Longrightarrow> x \<noteq> DefaultStatus \<Longrightarrow> has_status s' tid x"
proof -
  assume run: "SetStatus now tid x s = Inr s'" and x: "x \<noteq> DoneStatus" "x \<noteq> DefaultStatus"
  from SetStatus_needs_task [OF run] obtain t where "fmlookup (tasks s) tid = Some t" ..
  then obtain t' where "fmlookup (tasks s') tid = Some t'" "task_status t' = x"
    using x(1) by (auto elim: SetStatus_lookup [OF run])
  with x(2) show ?thesis by (simp add: has_status_def task_Status_def)
qed

lemma SetStatus_Done_has:
  assumes "SetStatus now tid DoneStatus s = Inr s'" "has_status s tid y" "y \<noteq> AbortStatus"
  shows "has_status s' tid DoneStatus"
proof -
  from SetStatus_needs_task [OF assms(1)] obtain t where t: "fmlookup (tasks s) tid = Some t" ..
  with assms(2,3) have "task_status t \<noteq> AbortStatus" by (auto simp: has_status_def task_Status_def)
  then obtain t' where "fmlookup (tasks s') tid = Some t'" "task_status t' = DoneStatus"
    using SetStatus_lookup [OF assms(1) t] by metis
  then show ?thesis by (simp add: has_status_def task_Status_def)
qed

lemma task_At_has_status: "task_At now tid w s = Inr s' \<Longrightarrow> has_status s k x \<Longrightarrow> has_status s' k x"
proof -
  assume run: "task_At now tid w s = Inr s'" and x: "has_status s k x"
  from run obtain t where t: "fmlookup (tasks s) tid = Some t"
    by (auto simp: task_At_def and_then_Inr_iff)
  with run have "tasks s' = tasks s \<or> tasks s' = fmupd tid (t\<lparr>at_time := w\<rparr>) (tasks s)"
    by (simp add: task_At_def Let_def split: if_split_asm) auto
  moreover have "task_Status (t\<lparr>at_time := w\<rparr>) = task_Status t" by (simp add: task_Status_def)
  ultimately show ?thesis using x t by (elim disjE) (auto simp: has_status_def)
qed

lemma has_status_exists: "fmlookup (tasks s) k = Some t \<Longrightarrow> has_status s k (task_Status t)"
  by (simp add: has_status_def)

lemma consider_idle_move:
  assumes "consider_idle now tid e = Inr e'" "has_status (es_st e) tid x"
  shows "\<exists>y. has_status (es_st e') tid y \<and> ensure_move x y"
  using assms(1)
proof (cases rule: consider_idle_cases)
  case cleaned
  with assms(2) SetClean_touches(2) show ?thesis by (blast intro: ensure_move_refl)
next
  case (no_undo t s1)
  with assms(2) have "x = UndoStatus" by (simp add: has_status_def)
  with SetStatus_Done_has [OF no_undo(2) assms(2)] no_undo(3) show ?thesis by (auto simp: has_status_def)
next
  case (start j t s1)
  with assms(2) have x: "task_Status t = x" by (simp add: has_status_def)
  have "\<exists>y. has_status s1 tid y \<and> ensure_move x y"
    using start(5) assms(2) has_status_upd [of now tid _ "es_st e" s1] unfolding x
    by (cases x) (auto simp: run_status_def and_then_Inr_iff)
  then show ?thesis using task_At_has_status [OF start(6)] by blast
qed (use assms(2) in \<open>auto intro: exI [of _ x]\<close>)

lemma ensure_move_abort: "y \<in> {HoldStatus, UndoStatus} \<Longrightarrow> ensure_move y z \<Longrightarrow> ensure_move AbortStatus z"
  by auto

lemma consider_task_move:
  assumes "consider_task now tid e = Inr e'" "has_status (es_st e) tid x"
  shows "\<exists>y. has_status (es_st e') tid y \<and> ensure_move x y"
  using assms(1)
proof (cases rule: consider_task_cases)
  case (round s1)
  show ?thesis
  proof (cases "s1 = es_st e")
    case True
    with consider_idle_move [OF round(3)] assms(2) show ?thesis by simp
  next
    case False
    with round(2) assms(2) have a: "x = AbortStatus" and u: "tryUndo now tid (es_runner e) (es_st e) = Inr s1"
      by (auto simp: round_state_def has_status_def)
    from u obtain z where z: "z \<in> {HoldStatus, UndoStatus}" "has_status s1 tid z"
    proof (cases rule: tryUndo_cases)
      case (1 s2 z t)
      with has_status_upd [OF 1(2)] that [of z] show thesis by (auto simp: has_status_def)
    qed
    from consider_idle_move [OF round(3), of z] z(2) obtain y where
      "has_status (es_st e') tid y" "ensure_move z y" by auto
    with ensure_move_abort [OF z(1)] a show ?thesis by blast
  qed
qed (use assms(2) in \<open>auto intro: exI [of _ x]\<close>)


subsection \<open>The end of a handler\<close>

fun ok_result :: "status \<Rightarrow> status" where
  "ok_result DoingStatus = DoneStatus"
| "ok_result AbortStatus = UndoStatus"
| "ok_result UndoingStatus = UndoneStatus"
| "ok_result x = x"

definition undo_result :: "bool \<Rightarrow> status" where
  "undo_result undo = (if undo then UndoStatus else HoldStatus)"

definition finish_result :: "bool \<Rightarrow> bool \<Rightarrow> outcome \<Rightarrow> status \<Rightarrow> status" where
  "finish_result undo stopping out x =
     (case out of
        Finished \<Rightarrow> ok_result x
      | RetryAfter d \<Rightarrow> (if x = AbortStatus then undo_result undo else x)
      | WaitFor' y \<Rightarrow> (if x = AbortStatus then undo_result undo else WaitStatus)
      | Failed m \<Rightarrow> if stopping then (if x = AbortStatus then undo_result undo else x) else ErrorStatus)"

lemma tryUndo_result:
  assumes "tryUndo now tid r s = Inr s'" "fmlookup (tasks s) tid = Some t" "task_Status t = AbortStatus"
  shows "has_status s' tid (undo_result (has_undo (handlerPair r t)))"
  using assms(1)
proof (cases rule: tryUndo_cases)
  case (1 s1 x t')
  then have "x \<noteq> DoneStatus" "x \<noteq> DefaultStatus" by auto
  from has_status_upd [OF 1(2) this] have "has_status s' tid x" using 1(4) by (simp add: has_status_def)
  moreover have "x = undo_result (has_undo (handlerPair r t))"
    using 1(1,3,6) assms(2,3) by (auto simp: undo_result_def)
  ultimately show ?thesis by simp
qed

lemma finish_retry_result:
  assumes "finish_retry now tid d r s = Inr s'" "fmlookup (tasks s) tid = Some t"
  shows "has_status s' tid (if task_Status t = AbortStatus then undo_result (has_undo (handlerPair r t)) else task_Status t)"
proof (cases "task_Status t = AbortStatus")
  case True
  with assms tryUndo_result [of now tid r s s' t] show ?thesis by (simp add: finish_retry_def)
next
  case False
  with assms show ?thesis
    using task_At_has_status [of now tid "now + d" s s' tid "task_Status t"] has_status_exists [OF assms(2)]
    by (simp add: finish_retry_def split: if_split_asm)
qed

lemma changeStatus_has:
  assumes "changeStatus now tid (task_status t) x s = Inr s'" "fmlookup (tasks s) tid = Some t" "x \<noteq> DefaultStatus"
  shows "has_status s' tid x"
proof -
  have "status_change_of s s' tid x" by (rule changeStatus_effect [OF assms(1,2)])
  then obtain rt where "tview s' = fmupd tid (nolog (t\<lparr>task_status := x, task_ready_time := rt\<rparr>)) (tview s)"
    using assms(2) by (auto simp: status_change_of_def)
  then have "fmlookup (tview s') tid = Some (nolog (t\<lparr>task_status := x, task_ready_time := rt\<rparr>))" by simp
  then obtain t' where t': "fmlookup (tasks s') tid = Some t'"
    and n: "nolog t' = nolog (t\<lparr>task_status := x, task_ready_time := rt\<rparr>)"
    by (auto simp: view_lookup)
  from arg_cong [OF n, of task_status] have "task_status t' = x" by simp
  with t' assms(3) show ?thesis by (simp add: has_status_def task_Status_def)
qed

lemma finish_wait_result:
  assumes "finish_wait now tid y r s = Inr s'" "fmlookup (tasks s) tid = Some t"
  shows "has_status s' tid (if task_Status t = AbortStatus then undo_result (has_undo (handlerPair r t)) else WaitStatus)"
proof (cases "task_Status t = AbortStatus")
  case True
  with assms tryUndo_result [of now tid r s s' t] show ?thesis by (simp add: finish_wait_def)
next
  case False
  define z where "z = (if y = DefaultStatus then DoneStatus else y)"
  from False assms have st: "SetToWait now tid z s = Inr s'" by (simp add: finish_wait_def z_def)
  have "task_status t \<noteq> AbortStatus" using False by (auto simp: task_Status_def)
  with st assms(2) have "changeStatus now tid (task_status (t\<lparr>waited_status := z\<rparr>)) WaitStatus
      (put_task tid (t\<lparr>waited_status := z\<rparr>) s) = Inr s'"
    by (auto simp: SetToWait_def split: if_split_asm)
  from changeStatus_has [OF this] False show ?thesis by simp
qed

lemma finish_ok_result:
  assumes "finish_ok now tid s = Inr s'" "fmlookup (tasks s) tid = Some t"
  shows "has_status s' tid (ok_result (task_Status t))"
proof (cases "task_Status t")
  case DoingStatus
  with assms obtain s1 where s1: "SetStatus now tid DoneStatus s = Inr s1" "tasks s' = tasks s1"
    by (auto simp: finish_ok_def and_then_Inr_iff)
  from SetStatus_Done_has [OF s1(1) has_status_exists [OF assms(2)]] DoingStatus s1(2)
  show ?thesis by (simp add: has_status_def)
next
  case AbortStatus
  with assms obtain s1 where s1: "SetStatus now tid UndoStatus s = Inr s1" "tasks s' = tasks s1"
    by (auto simp: finish_ok_def and_then_Inr_iff)
  from has_status_upd [OF s1(1)] AbortStatus s1(2) show ?thesis by (simp add: has_status_def)
next
  case UndoingStatus
  with assms obtain s1 where s1: "SetStatus now tid UndoneStatus s = Inr s1" "tasks s' = tasks s1"
    by (auto simp: finish_ok_def and_then_Inr_iff)
  from has_status_upd [OF s1(1)] UndoingStatus s1(2) show ?thesis by (simp add: has_status_def)
qed (use assms in \<open>auto simp: finish_ok_def has_status_def\<close>)

lemma kill_tomb_None [simp]: "fmlookup (tombs (kill_tomb k r)) tid = None \<longleftrightarrow> fmlookup (tombs r) tid = None"
  by (auto simp: kill_tomb_def split: option.split)

lemma kill_aborted_None:
  "kill_aborted tids s r = Inr (r', b) \<Longrightarrow> fmlookup (tombs r') k = None \<longleftrightarrow> fmlookup (tombs r) k = None"
proof (induction tids s r arbitrary: r' b rule: kill_aborted.induct)
  case (2 tid tids s r)
  from "2.prems" obtain t b1 where t: "need_task s tid = Inr t"
    and rec: "kill_aborted tids s (if task_Status t = AbortStatus then kill_tomb tid r else r) = Inr (r', b1)"
    by (auto simp: and_then_Inr_iff simp del: need_task_Inr)
  from "2.IH" [OF t rec] show ?case by (auto split: if_split_asm)
qed simp

lemma finish_error_result:
  assumes "finish_error now tid m r s = Inr (r', s')"
  obtains t where "fmlookup (tasks s') tid = Some t" "task_Status t = ErrorStatus"
    "last (task_log t) = (now, LogError, m)"
    "fmlookup (tombs r') tid = None \<longleftrightarrow> fmlookup (tombs r) tid = None"
proof -
  from assms obtain t r1 s1 s2 s3 where r1: "runner_abortLanes now (task_change t) (task_Lanes t) r s = Inr (r1, s1)"
    and s2: "SetStatus now tid ErrorStatus s1 = Inr s2" and s3: "task_Logf now LogError tid m s2 = Inr s3"
    and r': "r' = r1" "tasks s' = tasks s3"
    by (auto simp: finish_error_def and_then_Inr_iff)
  from r1 have "fmlookup (tombs r1) tid = None \<longleftrightarrow> fmlookup (tombs r) tid = None"
    using kill_aborted_None by (auto simp: runner_abortLanes_def and_then_Inr_iff)
  moreover from has_status_upd [OF s2] obtain u where u: "fmlookup (tasks s2) tid = Some u" "task_Status u = ErrorStatus"
    by (auto simp: has_status_def)
  moreover from s3 u have "tasks s3 = fmupd tid (addLog now LogError m u) (tasks s2)"
    by (auto simp: task_Logf_def)
  moreover have "last (task_log (addLog now LogError m u)) = (now, LogError, m)"
    by (simp add: addLog_def Let_def)
  ultimately show thesis using that r' by simp
qed

lemma accumulate_time_simps [simp]:
  "task_Status (accumulate_time j d t) = task_Status t" "task_kind (accumulate_time j d t) = task_kind t"
  by (cases j; simp add: accumulate_time_def task_Status_def)+

subsection \<open>Properties\<close>

text \<open>
  C17: \<open>Ensure\<close> never starts a job beside a running one, and starts a job only on a task that is due:
  each tomb after a pass either belongs to a job that was already running, unchanged in kind, or was
  started at a point of the pass where the task had none, its scheduled time had come, and it was to
  be done with all the tasks it waits for Done, or to be undone with all the tasks it halts ready, or
  was already Doing or Undoing, or it was a ready, not yet clean task of a ready change.
\<close>

theorem Ensure_starts_due:
  assumes "Ensure now tomb_order task_order r s = Inr (r', s')" "\<not> stopped r"
  shows "same_job (fmlookup (tombs r') k) (fmlookup (tombs r) k) \<or>
    fmlookup (tombs r) k = None \<and>
    (\<exists>pre post e s1 tb. task_order = pre @ k # post \<and>
       fold_try (consider_task now) pre (ensure_start tomb_order r s) = Inr e \<and>
       round_state now (es_runner e) (es_st e) k s1 \<and> fmlookup (tombs r') k = Some tb \<and>
       startable now (es_runner e) s1 k (tomb_job tb))"
proof -
  from assms obtain e where e: "fold_try (consider_task now) task_order (ensure_start tomb_order r s) = Inr e"
    and r': "r' = es_runner e"
    by (auto simp: Ensure_def and_then_Inr_iff)
  have "tombs (es_runner (ensure_start tomb_order r s)) = tombs r" by (simp add: ensure_start_def)
  with ensure_fold_tombs [OF e, of k] show ?thesis unfolding r' by simp
qed

definition sample_runner :: runner where
  "sample_runner = AddHandler ''start'' True True NewTaskRunner"

definition sample_ensured :: "runner \<times> st" where
  "sample_ensured =
     (case Ensure 9 [] [''1'', ''2'', ''3'', ''4''] sample_runner (sample_state sample_chain) of
        Inl e \<Rightarrow> (sample_runner, sample_state sample_chain) | Inr x \<Rightarrow> x)"

lemma sample_ensured:
  "Ensure 9 [] [''1'', ''2'', ''3'', ''4''] sample_runner (sample_state sample_chain) =
     Inr (fst sample_ensured, snd sample_ensured)"
proof -
  let ?e = "Ensure 9 [] [''1'', ''2'', ''3'', ''4''] sample_runner (sample_state sample_chain)"
  have "case ?e of Inl e \<Rightarrow> False | Inr s' \<Rightarrow> True" by code_simp
  then show ?thesis unfolding sample_ensured_def by (cases ?e) auto
qed

theorem Ensure_starts_due_witness:
  "fmlookup (tombs (fst sample_ensured)) ''2'' \<noteq> None \<and>
   (\<exists>pre post e s1 tb. [''1'', ''2'', ''3'', ''4''] = pre @ ''2'' # post \<and>
       fold_try (consider_task 9) pre (ensure_start [] sample_runner (sample_state sample_chain)) = Inr e \<and>
       round_state 9 (es_runner e) (es_st e) ''2'' s1 \<and> fmlookup (tombs (fst sample_ensured)) ''2'' = Some tb \<and>
       startable 9 (es_runner e) s1 ''2'' (tomb_job tb))"
proof -
  have "fmlookup (tombs (fst sample_ensured)) ''2'' \<noteq> None" by code_simp
  moreover have "fmlookup (tombs sample_runner) ''2'' = None" "\<not> stopped sample_runner"
    by (simp_all add: sample_runner_def AddHandler_def NewTaskRunner_def)
  ultimately show ?thesis using Ensure_starts_due [OF sample_ensured, of "''2''"]
    by (metis same_job_None(2))
qed

text \<open>
  C1: no lost work: a pass of \<open>Ensure\<close> over all tasks, without blocking predicates, leaves every task
  running that is to be done, is due, has a do handler for its kind and only waits for tasks that
  are Done, wherever it comes in the order of the tasks and whatever the pass does to the others.
\<close>

theorem Ensure_starts_ready:
  assumes run: "Ensure now tomb_order task_order r s = Inr (r', s')" and "\<not> stopped r"
    and "tid \<in> set task_order" "distinct task_order"
    and ready: "ready_to_do now (ensure_start tomb_order r s) tid"
  shows "\<exists>tb. fmlookup (tombs r') tid = Some tb"
proof -
  from assms(1,2) obtain e where e: "fold_try (consider_task now) task_order (ensure_start tomb_order r s) = Inr e"
    and r': "r' = es_runner e"
    by (auto simp: Ensure_def and_then_Inr_iff)
  from split_list [OF assms(3)] obtain pre post where o: "task_order = pre @ tid # post" by blast
  with e obtain e1 e2 where e1: "fold_try (consider_task now) pre (ensure_start tomb_order r s) = Inr e1"
    and e2: "consider_task now tid e1 = Inr e2" and e3: "fold_try (consider_task now) post e2 = Inr e"
    by (auto simp: fold_try_append and_then_Inr_iff)
  from o assms(4) have "tid \<notin> set pre" by simp
  from ensure_keeps_ready [OF e1 this ready] have "fmlookup (tombs (es_runner e2)) tid \<noteq> None"
    by (rule consider_starts [OF e2])
  with ensure_fold_tombs [OF e3, of tid]
  have "same_job (fmlookup (tombs (es_runner e)) tid) (fmlookup (tombs (es_runner e2)) tid)" by blast
  then have "fmlookup (tombs (es_runner e)) tid \<noteq> None"
    using \<open>fmlookup (tombs (es_runner e2)) tid \<noteq> None\<close> by (metis same_job_None(1))
  then show ?thesis unfolding r' by blast
qed

definition sample_todo :: "(string \<times> task) list" where
  "sample_todo = [(''1'', sample_task ''1'' DoneStatus [] [''2''] []),
                  (''2'', sample_task ''2'' DoStatus [''1''] [] [])]"

definition sample_todo_ensured :: "runner \<times> st" where
  "sample_todo_ensured =
     (case Ensure 9 [] [''2'', ''1''] sample_runner (sample_state sample_todo) of
        Inl e \<Rightarrow> (sample_runner, sample_state sample_todo) | Inr x \<Rightarrow> x)"

lemma sample_todo_ensured:
  "Ensure 9 [] [''2'', ''1''] sample_runner (sample_state sample_todo) =
     Inr (fst sample_todo_ensured, snd sample_todo_ensured)"
proof -
  let ?e = "Ensure 9 [] [''2'', ''1''] sample_runner (sample_state sample_todo)"
  have "case ?e of Inl e \<Rightarrow> False | Inr s' \<Rightarrow> True" by code_simp
  then show ?thesis unfolding sample_todo_ensured_def by (cases ?e) auto
qed

theorem Ensure_starts_ready_witness:
  "\<exists>tb. fmlookup (tombs (fst sample_todo_ensured)) ''2'' = Some tb"
proof (rule Ensure_starts_ready [OF sample_todo_ensured])
  show "\<not> stopped sample_runner" by (simp add: sample_runner_def AddHandler_def NewTaskRunner_def)
  show "ready_to_do 9 (ensure_start [] sample_runner (sample_state sample_todo)) ''2''"
    by (simp add: ready_to_do_def ensure_start_def sample_runner_def AddHandler_def NewTaskRunner_def
        sample_state_def sample_todo_def fmlookup_of_list sample_task_def newTask_def task_Status_def
        has_status_def)
qed simp_all

text \<open>
  the status machine of a pass: \<open>Ensure\<close> moves a task at most from Do to Doing, from Undo to
  Undoing, or to Done when there is no undo handler, and an aborted task that is not running to Hold
  or along the undo path; every other status is left alone.
\<close>

lemma Ensure_moves:
  assumes run: "Ensure now tomb_order task_order r s = Inr (r', s')" and "distinct task_order"
    and k: "has_status s k x"
  shows "\<exists>y. has_status s' k y \<and> ensure_move x y"
proof (cases "stopped r")
  case True
  with run k show ?thesis by (auto simp: Ensure_def intro: exI [of _ x])
next
  case False
  with run obtain e where e: "fold_try (consider_task now) task_order (ensure_start tomb_order r s) = Inr e"
    and s': "tasks s' = tasks (es_st e)"
    by (auto simp: Ensure_def and_then_Inr_iff)
  have k0: "has_status (es_st (ensure_start tomb_order r s)) k x" using k by (simp add: ensure_start_def)
  have same: "has_status (es_st e2) k y"
    if "fold_try (consider_task now) tids e1 = Inr e2" "k \<notin> set tids" "has_status (es_st e1) k y" for tids e1 e2 y
    using that
  proof (induction tids arbitrary: e1)
    case (Cons a tids)
    then obtain e3 where e3: "consider_task now a e1 = Inr e3" "fold_try (consider_task now) tids e3 = Inr e2"
      by (auto simp: and_then_Inr_iff)
    have "has_status (es_st e3) k y"
      using touches_has_status [OF consider_task_touches [OF e3(1)]] Cons.prems(2,3) by auto
    with Cons.IH [OF e3(2)] Cons.prems(2) show ?case by auto
  qed simp
  have "\<exists>y. has_status (es_st e) k y \<and> ensure_move x y"
  proof (cases "k \<in> set task_order")
    case True
    from split_list [OF this] obtain pre post where o: "task_order = pre @ k # post" by blast
    with e obtain e1 e2 where e1: "fold_try (consider_task now) pre (ensure_start tomb_order r s) = Inr e1"
      and e2: "consider_task now k e1 = Inr e2" and e3: "fold_try (consider_task now) post e2 = Inr e"
      by (auto simp: fold_try_append and_then_Inr_iff)
    from o assms(2) have n: "k \<notin> set pre" "k \<notin> set post" by auto
    from consider_task_move [OF e2 same [OF e1 n(1) k0]] obtain y where
      y: "has_status (es_st e2) k y" "ensure_move x y" by blast
    with same [OF e3 n(2) y(1)] show ?thesis by blast
  next
    case False
    with same [OF e False k0] show ?thesis by (auto intro: exI [of _ x])
  qed
  with s' show ?thesis by (simp add: has_status_def)
qed

text \<open>
  the end of a handler: the job is gone, and the status of the task becomes what the outcome says:
  on success Doing becomes Done, Undoing Undone and Abort Undo; a retry or wait of an aborted task
  goes to Undo, or to Hold without an undo handler; a wait is WaitStatus; a retry keeps the status;
  an error is ErrorStatus, except while the runner stops, when it counts as a retry.
\<close>

lemma finish_status:
  assumes "finish now tid j d out r s = Inr (r', s')" "fmlookup (tasks s) tid = Some t"
    "fmlookup (handlers r) (task_kind t) = Some h"
  shows "fmlookup (tombs r') tid = None \<and>
    has_status s' tid (finish_result (has_undo h) (stopped r) out (task_Status t))"
proof -
  define s2 where "s2 = ensure_if (some_blocked r) (put_task tid (accumulate_time j d t) s)"
  define r1 where "r1 = r\<lparr>tombs := fmdrop tid (tombs r)\<rparr>"
  define out' where "out' = (case out of Failed m \<Rightarrow> if stopped r then RetryAfter 0 else out | _ \<Rightarrow> out)"
  have t2: "fmlookup (tasks s2) tid = Some (accumulate_time j d t)" by (simp add: s2_def)
  have h: "handlerPair r1 (accumulate_time j d t) = h"
    using assms(3) by (simp add: handlerPair_def r1_def)
  have gone: "fmlookup (tombs r1) tid = None" by (simp add: r1_def)
  have run: "(case out' of
              RetryAfter d \<Rightarrow> and_then (finish_retry now tid d r1 s2) (\<lambda>s3. Inr (r1, s3))
            | WaitFor' x \<Rightarrow> and_then (finish_wait now tid x r1 s2) (\<lambda>s3. Inr (r1, s3))
            | Finished \<Rightarrow> and_then (finish_ok now tid s2) (\<lambda>s3. Inr (r1, s3))
            | Failed m \<Rightarrow> finish_error now tid m r1 s2) = Inr (r', s')"
    using assms(1) unfolding finish_def need_task_eq [OF assms(2)] and_then_simps Let_def
      s2_def r1_def out'_def .
  have res: "finish_result (has_undo h) (stopped r) out x = finish_result (has_undo h) False out' x" for x
    by (cases out) (auto simp: out'_def finish_result_def)
  have "fmlookup (tombs r') tid = None \<and> has_status s' tid (finish_result (has_undo h) False out' (task_Status t))"
  proof (cases out')
    case Finished
    with run finish_ok_result [OF _ t2] gone show ?thesis
      by (auto simp: and_then_Inr_iff finish_result_def)
  next
    case (RetryAfter d1)
    with run have "finish_retry now tid d1 r1 s2 = Inr s'" "r' = r1" by (auto simp: and_then_Inr_iff)
    from finish_retry_result [OF this(1) t2, unfolded h accumulate_time_simps] this(2) gone RetryAfter
    show ?thesis by (simp add: finish_result_def)
  next
    case (WaitFor' y)
    with run have "finish_wait now tid y r1 s2 = Inr s'" "r' = r1" by (auto simp: and_then_Inr_iff)
    from finish_wait_result [OF this(1) t2, unfolded h accumulate_time_simps] this(2) gone WaitFor'
    show ?thesis by (simp add: finish_result_def)
  next
    case (Failed m)
    with run have "finish_error now tid m r1 s2 = Inr (r', s')" by simp
    from finish_error_result [OF this] gone Failed show ?thesis
      by (auto simp: finish_result_def has_status_def)
  qed
  then show ?thesis unfolding res .
qed

definition sample_finished :: "runner \<times> st" where
  "sample_finished =
     (case finish 9 ''2'' DoJob 4 (Failed (''boom'', [])) sample_runner (sample_state sample_chain) of
        Inl e \<Rightarrow> (sample_runner, sample_state sample_chain) | Inr x \<Rightarrow> x)"

lemma sample_finished:
  "finish 9 ''2'' DoJob 4 (Failed (''boom'', [])) sample_runner (sample_state sample_chain) =
     Inr (fst sample_finished, snd sample_finished)"
proof -
  let ?e = "finish 9 ''2'' DoJob 4 (Failed (''boom'', [])) sample_runner (sample_state sample_chain)"
  have "case ?e of Inl e \<Rightarrow> False | Inr s' \<Rightarrow> True" by code_simp
  then show ?thesis unfolding sample_finished_def by (cases ?e) auto
qed

lemma sample_chain_two:
  "fmlookup (tasks (sample_state sample_chain)) ''2'' = Some (sample_task ''2'' DoingStatus [''1''] [''3''] [1])"
  by (simp add: sample_state_def sample_chain_def fmlookup_of_list)

text \<open>
  a failed handler leaves its reason: unless the runner is stopping, the task ends in ErrorStatus
  with the error as the last entry of its log, and everything the abort of its lanes does is done
  before.
\<close>

lemma finish_logs_error:
  assumes "finish now tid j d (Failed m) r s = Inr (r', s')" "\<not> stopped r"
  shows "\<exists>t. fmlookup (tasks s') tid = Some t \<and> task_Status t = ErrorStatus \<and>
    last (task_log t) = (now, LogError, m)"
proof -
  from assms obtain t where "finish_error now tid m (r\<lparr>tombs := fmdrop tid (tombs r)\<rparr>)
      (ensure_if (some_blocked r) (put_task tid (accumulate_time j d t) s)) = Inr (r', s')"
    by (auto simp: finish_def and_then_Inr_iff Let_def)
  from finish_error_result [OF this] show ?thesis by blast
qed

end
