(* ===== verification/TaskDeps.thy ===== *)
theory TaskDeps
  imports TaskOps "HOL-Library.List_Lexorder" "HOL-Library.Char_ord"
begin

text \<open>
  \<open>Change.CheckTaskDependencies\<close> of \<open>change.go\<close>: Kahn's algorithm on the wait/halt links of the
  tasks of a change.  It ends because each task that enters the queue takes the last
  pending dependency of one entry of \<open>predecessors\<close>.  The result is the sorted list of the tasks
  left over, which are exactly the ones whose dependencies are not well founded.
\<close>

definition pred_count :: "(string, int) fmap \<Rightarrow> string \<Rightarrow> int" where
  "pred_count m k = (case fmlookup m k of None \<Rightarrow> 0 | Some n \<Rightarrow> n)"

fun count_predecessors :: "task list \<Rightarrow> (string, int) fmap \<Rightarrow> (string, int) fmap" where
  "count_predecessors [] m = m"
| "count_predecessors (t # ts) m =
     count_predecessors ts
       (if wait_tasks t \<noteq> [] then fmupd (task_id t) (int (length (wait_tasks t))) m else m)"

fun release :: "string list \<Rightarrow> (string, int) fmap \<Rightarrow> string list \<Rightarrow> (string, int) fmap \<times> string list" where
  "release [] m q = (m, q)"
| "release (h # hs) m q =
     (let n = pred_count m h - 1 in
      if n = 0 then release hs (fmdrop h m) (q @ [h]) else release hs (fmupd h n m) q)"

definition positive :: "(string, int) fmap \<Rightarrow> string set" where
  "positive m = {k \<in> fset (fmdom m). 0 < pred_count m k}"

lemma finite_positive [simp]: "finite (positive m)"
  by (simp add: positive_def)

lemma positive_upd: "positive (fmupd h n m) = (if 0 < n then insert h (positive m) else positive m - {h})"
  by (auto simp: positive_def pred_count_def)

lemma positive_drop: "positive (fmdrop h m) = positive m - {h}"
  by (auto simp: positive_def pred_count_def)

lemma positive_mem: "0 < pred_count m h \<Longrightarrow> h \<in> positive m"
  by (auto simp: positive_def pred_count_def fmdomI split: option.split_asm)

lemma release_measure:
  assumes "release hs m q = (m', q')"
  shows "card (positive m') \<le> card (positive m) \<and>
    (card (positive m') = card (positive m) \<longrightarrow> q' = q)"
  using assms
proof (induction hs m q rule: release.induct)
  case (2 h hs m q)
  define n where "n = pred_count m h - 1"
  show ?case
  proof (cases "n = 0")
    case True
    then have "h \<in> positive m" by (simp add: n_def positive_mem)
    then have less: "card (positive (fmdrop h m)) < card (positive m)"
      unfolding positive_drop by (intro card_Diff1_less) auto
    from 2 True have "card (positive m') \<le> card (positive (fmdrop h m))" by (simp add: n_def Let_def)
    with less show ?thesis by auto
  next
    case False
    have "card (positive (fmupd h n m)) \<le> card (positive m)"
      using positive_mem [of m h]
      by (auto simp: positive_upd n_def insert_absorb intro: card_mono)
    with 2 False show ?thesis by (fastforce simp: n_def Let_def)
  qed
qed simp

function kahn :: "(string \<Rightarrow> task option) \<Rightarrow> string list \<Rightarrow> (string, int) fmap \<Rightarrow> fault + (string, int) fmap" where
  "kahn by_id [] m = Inr m"
| "kahn by_id (k # q) m =
     (case by_id k of
        None \<Rightarrow> Inl NilDeref
      | Some t \<Rightarrow> (case release (halt_tasks t) m q of (m', q') \<Rightarrow> kahn by_id q' m'))"
  by pat_completeness auto
termination
proof (relation "measures [\<lambda>(b, q, m). card (positive m), \<lambda>(b, q, m). length q]", goal_cases)
  case (2 by_id k q m t m' q')
  from 2(2) have "release (halt_tasks t) m q = (m', q')" by simp
  from release_measure [OF this] show ?case by (auto simp: less_le)
qed simp

text \<open>The answer of \<open>CheckTaskDependencies\<close>: the ids of \<open>TaskDependencyCycleError\<close>, with the kinds its
  message shows.\<close>

definition CheckTaskDependencies :: "string \<Rightarrow> st \<Rightarrow> fault + (string \<times> string) list option" where
  "CheckTaskDependencies cid s =
     and_then (need_change s cid) (\<lambda>c. and_then (map_try (need_task s) (chg_tasks c)) (\<lambda>ts.
       (let by_id = map_of (rev (map (\<lambda>t. (task_id t, t)) ts));
            m = count_predecessors ts fmempty;
            q = map task_id (filter (\<lambda>t. pred_count m (task_id t) = 0) ts)
        in and_then (kahn by_id q m) (\<lambda>m'.
             if m' = fmempty then Inr None
             else and_then
               (map_try (\<lambda>k. case by_id k of None \<Rightarrow> Inl NilDeref | Some t \<Rightarrow> Inr (k, task_kind t))
                  (sorted_list_of_fset (fmdom m')))
               (\<lambda>ids. Inr (Some ids))))))"


subsection \<open>Correctness of the walk\<close>

definition encodes :: "(string \<Rightarrow> nat) \<Rightarrow> (string, int) fmap \<Rightarrow> bool" where
  "encodes cnt m \<longleftrightarrow> (\<forall>k. fmlookup m k = (if cnt k = 0 then None else Some (int (cnt k))))"

lemma encodes_count: "encodes cnt m \<Longrightarrow> pred_count m k = int (cnt k)"
  by (simp add: encodes_def pred_count_def)

lemma release_spec:
  "encodes cnt m \<Longrightarrow> distinct hs \<Longrightarrow> (\<And>h. h \<in> set hs \<Longrightarrow> 0 < cnt h) \<Longrightarrow> release hs m q = (m', q') \<Longrightarrow>
     encodes (\<lambda>k. if k \<in> set hs then cnt k - 1 else cnt k) m' \<and> q' = q @ filter (\<lambda>h. cnt h = 1) hs"
proof (induction hs m q arbitrary: cnt rule: release.induct)
  case (2 h hs m q)
  define n where "n = pred_count m h - 1"
  define cnt1 where "cnt1 = cnt(h := cnt h - 1)"
  have n: "n = int (cnt h) - 1" using encodes_count [OF "2.prems"(1)] by (simp add: n_def)
  have pos: "0 < cnt h" "\<And>x. x \<in> set hs \<Longrightarrow> 0 < cnt1 x"
    using "2.prems"(2,3) by (auto simp: cnt1_def)
  have fun_eq: "(\<lambda>k. if k \<in> set hs then cnt1 k - 1 else cnt1 k) =
      (\<lambda>k. if k \<in> set (h # hs) then cnt k - 1 else cnt k)"
    using "2.prems"(2) by (auto simp: cnt1_def fun_eq_iff)
  have flt: "filter (\<lambda>x. cnt1 x = 1) hs = filter (\<lambda>x. cnt x = 1) hs"
    using "2.prems"(2) by (intro filter_cong) (auto simp: cnt1_def)
  show ?case
  proof (cases "n = 0")
    case True
    then have "encodes cnt1 (fmdrop h m)"
      using "2.prems"(1) n by (simp add: encodes_def cnt1_def)
    moreover have "release hs (fmdrop h m) (q @ [h]) = (m', q')"
      using "2.prems"(4) True by (simp add: n_def [symmetric])
    ultimately have "encodes (\<lambda>k. if k \<in> set hs then cnt1 k - 1 else cnt1 k) m' \<and>
        q' = (q @ [h]) @ filter (\<lambda>h. cnt1 h = 1) hs"
      using "2.IH"(1) [OF n_def True] "2.prems"(2) pos(2) by auto
    with True n show ?thesis unfolding fun_eq flt by simp
  next
    case False
    then have "encodes cnt1 (fmupd h n m)"
      using "2.prems"(1) n pos by (simp add: encodes_def cnt1_def)
    moreover have "release hs (fmupd h n m) q = (m', q')"
      using "2.prems"(4) False by (simp add: n_def [symmetric])
    ultimately have "encodes (\<lambda>k. if k \<in> set hs then cnt1 k - 1 else cnt1 k) m' \<and>
        q' = q @ filter (\<lambda>h. cnt1 h = 1) hs"
      using "2.IH"(2) [OF n_def False] "2.prems"(2) pos(2) by auto
    moreover have "cnt h \<noteq> 1" using False n by auto
    ultimately show ?thesis unfolding fun_eq flt by simp
  qed
qed simp

definition deps_ok :: "(string \<Rightarrow> task option) \<Rightarrow> string set \<Rightarrow> bool" where
  "deps_ok by_id ids \<longleftrightarrow> finite ids \<and>
     (\<forall>k \<in> ids. \<exists>t. by_id k = Some t \<and> set (wait_tasks t) \<subseteq> ids \<and> set (halt_tasks t) \<subseteq> ids \<and>
        distinct (wait_tasks t) \<and> distinct (halt_tasks t) \<and>
        (\<forall>d \<in> ids. \<forall>u. by_id d = Some u \<longrightarrow> (d \<in> set (wait_tasks t) \<longleftrightarrow> k \<in> set (halt_tasks u))))"

definition waits_of :: "(string \<Rightarrow> task option) \<Rightarrow> string \<Rightarrow> string set" where
  "waits_of by_id k = (case by_id k of None \<Rightarrow> {} | Some t \<Rightarrow> set (wait_tasks t))"

definition wait_rel :: "(string \<Rightarrow> task option) \<Rightarrow> string set \<Rightarrow> (string \<times> string) set" where
  "wait_rel by_id ids = {(d, k). k \<in> ids \<and> d \<in> waits_of by_id k}"

definition pending_count :: "(string \<Rightarrow> task option) \<Rightarrow> string set \<Rightarrow> string set \<Rightarrow> string \<Rightarrow> nat" where
  "pending_count by_id ids P k = (if k \<in> ids then card (waits_of by_id k - P) else 0)"

definition kahn_inv :: "(string \<Rightarrow> task option) \<Rightarrow> string set \<Rightarrow> string set \<Rightarrow> string list \<Rightarrow> (string, int) fmap \<Rightarrow> bool" where
  "kahn_inv by_id ids P q m \<longleftrightarrow>
     distinct q \<and> P \<inter> set q = {} \<and> encodes (pending_count by_id ids P) m \<and>
     (\<forall>k. k \<in> P \<union> set q \<longleftrightarrow> k \<in> ids \<and> waits_of by_id k \<subseteq> P) \<and>
     P \<subseteq> Wellfounded.acc (wait_rel by_id ids)"

lemma finite_waits [simp]: "finite (waits_of by_id k)"
  by (simp add: waits_of_def split: option.split)

lemma kahn_step:
  assumes ok: "deps_ok by_id ids" and inv: "kahn_inv by_id ids P (k # q) m"
    and t: "by_id k = Some t" and rel: "release (halt_tasks t) m q = (m', q')"
  shows "kahn_inv by_id ids (insert k P) q' m'"
proof -
  from inv have k: "k \<in> ids" "waits_of by_id k \<subseteq> P" "k \<notin> P" and dist: "distinct (k # q)"
    and Pq: "P \<inter> set (k # q) = {}" and enc: "encodes (pending_count by_id ids P) m"
    and front: "\<And>x. x \<in> P \<union> set (k # q) \<longleftrightarrow> x \<in> ids \<and> waits_of by_id x \<subseteq> P"
    and acc: "P \<subseteq> Wellfounded.acc (wait_rel by_id ids)"
    by (auto simp: kahn_inv_def)
  from ok k(1) t have "set (halt_tasks t) \<subseteq> ids \<and> distinct (halt_tasks t)"
    unfolding deps_ok_def by (metis option.inject)
  then have halts: "set (halt_tasks t) \<subseteq> ids" "distinct (halt_tasks t)" by simp_all
  have mirror: "x \<in> set (halt_tasks t) \<longleftrightarrow> k \<in> waits_of by_id x" if "x \<in> ids" for x
  proof -
    from ok that obtain u where "by_id x = Some u" "k \<in> set (wait_tasks u) \<longleftrightarrow> x \<in> set (halt_tasks t)"
      using k(1) t by (auto simp: deps_ok_def)
    then show ?thesis by (simp add: waits_of_def)
  qed
  have pos: "0 < pending_count by_id ids P x" if "x \<in> set (halt_tasks t)" for x
  proof -
    from that halts have "x \<in> ids" by auto
    with that mirror k(3) have "k \<in> waits_of by_id x - P" by auto
    with \<open>x \<in> ids\<close> show ?thesis by (auto simp: pending_count_def card_gt_0_iff)
  qed
  from release_spec [OF enc halts(2) pos rel]
  have enc': "encodes (\<lambda>x. if x \<in> set (halt_tasks t) then pending_count by_id ids P x - 1
                            else pending_count by_id ids P x) m'"
    and q': "q' = q @ filter (\<lambda>x. pending_count by_id ids P x = 1) (halt_tasks t)" by auto
  have cnt: "(if x \<in> set (halt_tasks t) then pending_count by_id ids P x - 1
              else pending_count by_id ids P x) = pending_count by_id ids (insert k P) x" for x
  proof (cases "x \<in> ids")
    case True
    have "waits_of by_id x - insert k P = (waits_of by_id x - P) - {k}" by blast
    moreover have "k \<in> waits_of by_id x - P \<longleftrightarrow> x \<in> set (halt_tasks t)" using mirror [OF True] k(3) by blast
    ultimately show ?thesis using True by (simp add: pending_count_def card_Diff_singleton_if)
  next
    case False
    with halts show ?thesis by (auto simp: pending_count_def)
  qed
  have one: "pending_count by_id ids P x = 1 \<longleftrightarrow> waits_of by_id x \<subseteq> insert k P" if "x \<in> set (halt_tasks t)" for x
  proof -
    from that halts have "x \<in> ids" by auto
    have "pending_count by_id ids P x = 1 \<longleftrightarrow> pending_count by_id ids (insert k P) x = 0"
      using cnt [of x] pos [OF that] that by auto
    then show ?thesis using \<open>x \<in> ids\<close> by (auto simp: pending_count_def)
  qed
  have front': "x \<in> insert k P \<union> set q' \<longleftrightarrow> x \<in> ids \<and> waits_of by_id x \<subseteq> insert k P" for x
  proof (cases "x \<in> set (halt_tasks t)")
    case True
    then have "\<not> waits_of by_id x \<subseteq> P" "x \<in> ids" using mirror halts k(3) by auto
    with front [of x] True one [OF True] show ?thesis by (auto simp: q')
  next
    case False
    then have "x \<in> ids \<Longrightarrow> k \<notin> waits_of by_id x" using mirror by blast
    then show ?thesis using front [of x] False by (auto simp: q')
  qed
  have "k \<in> Wellfounded.acc (wait_rel by_id ids)"
    by (rule accI) (use k(2) acc in \<open>auto simp: wait_rel_def\<close>)
  moreover have "distinct q' \<and> insert k P \<inter> set q' = {}"
  proof -
    have "x \<notin> insert k P \<union> set q" if "x \<in> set (halt_tasks t)" for x
      using that front [of x] mirror halts k(3) by auto
    then show ?thesis using dist Pq halts(2) by (auto simp: q')
  qed
  moreover have "encodes (pending_count by_id ids (insert k P)) m'" using enc' unfolding cnt .
  ultimately show ?thesis unfolding kahn_inv_def using front' acc by blast
qed

lemma kahn_run:
  "deps_ok by_id ids \<Longrightarrow> kahn_inv by_id ids P q m \<Longrightarrow>
     \<exists>P' m'. kahn by_id q m = Inr m' \<and> kahn_inv by_id ids P' [] m'"
proof (induction by_id q m arbitrary: P rule: kahn.induct)
  case (2 by_id k q m)
  from "2.prems" have "k \<in> ids" by (auto simp: kahn_inv_def)
  with "2.prems"(1) obtain t where t: "by_id k = Some t" by (auto simp: deps_ok_def)
  obtain m' q' where rel: "release (halt_tasks t) m q = (m', q')" by (cases "release (halt_tasks t) m q")
  from "2.IH" [OF t rel [symmetric] "2.prems"(1) kahn_step [OF "2.prems" t rel]] t rel
  show ?case by simp
qed auto

lemma kahn_end:
  assumes ok: "deps_ok by_id ids" and inv: "kahn_inv by_id ids P [] m"
  shows "k |\<in>| fmdom m \<longleftrightarrow> k \<in> ids \<and> k \<notin> Wellfounded.acc (wait_rel by_id ids)"
proof -
  from inv have front: "\<And>x. x \<in> P \<longleftrightarrow> x \<in> ids \<and> waits_of by_id x \<subseteq> P"
    and acc: "P \<subseteq> Wellfounded.acc (wait_rel by_id ids)" and enc: "encodes (pending_count by_id ids P) m"
    by (auto simp: kahn_inv_def)
  have "x \<in> P" if "x \<in> Wellfounded.acc (wait_rel by_id ids)" "x \<in> ids" for x
    using that
  proof (induction rule: acc.induct)
    case (accI x)
    have "waits_of by_id x \<subseteq> P"
    proof
      fix d assume "d \<in> waits_of by_id x"
      with accI.prems have "(d, x) \<in> wait_rel by_id ids" by (simp add: wait_rel_def)
      moreover have "d \<in> ids"
        using ok accI.prems \<open>d \<in> waits_of by_id x\<close> by (fastforce simp: deps_ok_def waits_of_def)
      ultimately show "d \<in> P" by (rule accI.IH)
    qed
    with accI.prems front show ?case by blast
  qed
  then have P: "x \<in> P \<longleftrightarrow> x \<in> ids \<and> x \<in> Wellfounded.acc (wait_rel by_id ids)" for x
    using front acc by blast
  have "k |\<in>| fmdom m \<longleftrightarrow> pending_count by_id ids P k \<noteq> 0"
    using enc by (simp add: encodes_def fmlookup_dom_iff)
  also have "\<dots> \<longleftrightarrow> k \<in> ids \<and> k \<notin> P"
    using front [of k] by (auto simp: pending_count_def card_gt_0_iff)
  finally show ?thesis using P by blast
qed


text \<open>In a finite relation the elements that are not accessible are those a cycle leads to.\<close>

lemma acc_no_cycle: "x \<in> Wellfounded.acc R \<Longrightarrow> (x, x) \<notin> R\<^sup>+"
proof (induction rule: acc.induct)
  case (accI x)
  show ?case
  proof
    assume "(x, x) \<in> R\<^sup>+"
    then obtain y where "(x, y) \<in> R\<^sup>*" "(y, x) \<in> R" by (metis tranclD2)
    then have "(y, y) \<in> R\<^sup>+" by (metis rtrancl_into_trancl2)
    with accI.IH [OF \<open>(y, x) \<in> R\<close>] show False ..
  qed
qed

lemma finite_not_acc:
  assumes "finite R"
  shows "k \<notin> Wellfounded.acc R \<longleftrightarrow> (\<exists>x. (x, k) \<in> R\<^sup>* \<and> (x, x) \<in> R\<^sup>+)"
proof
  assume "\<exists>x. (x, k) \<in> R\<^sup>* \<and> (x, x) \<in> R\<^sup>+"
  then obtain x where x: "(x, k) \<in> R\<^sup>*" "(x, x) \<in> R\<^sup>+" by blast
  show "k \<notin> Wellfounded.acc R"
  proof
    assume "k \<in> Wellfounded.acc R"
    from acc_no_cycle [OF acc_downwards [OF this x(1)]] x(2) show False ..
  qed
next
  assume k: "k \<notin> Wellfounded.acc R"
  show "\<exists>x. (x, k) \<in> R\<^sup>* \<and> (x, x) \<in> R\<^sup>+"
  proof (rule ccontr)
    assume no: "\<not> ?thesis"
    define S where "S = {(d, x) \<in> R. (x, k) \<in> R\<^sup>*}"
    have "S \<subseteq> R" by (auto simp: S_def)
    then have "finite S" "S\<^sup>+ \<subseteq> R\<^sup>+" using assms finite_subset trancl_mono_subset by blast+
    have "acyclic S"
      unfolding acyclic_def
    proof (intro allI notI)
      fix x assume x: "(x, x) \<in> S\<^sup>+"
      then obtain d where "(d, x) \<in> S" by (metis tranclD2)
      then have "(x, k) \<in> R\<^sup>*" by (simp add: S_def)
      with x \<open>S\<^sup>+ \<subseteq> R\<^sup>+\<close> no show False by blast
    qed
    with \<open>finite S\<close> have "Wellfounded.wf S" by (rule finite_acyclic_wf)
    then have "(x, k) \<in> R\<^sup>* \<longrightarrow> x \<in> Wellfounded.acc R" for x
    proof (induction x rule: wf_induct_rule)
      case (less x)
      show ?case
      proof
        assume x: "(x, k) \<in> R\<^sup>*"
        show "x \<in> Wellfounded.acc R"
        proof (rule accI)
          fix y assume "(y, x) \<in> R"
          with x less show "y \<in> Wellfounded.acc R"
            by (metis (mono_tags, lifting) S_def case_prodI converse_rtrancl_into_rtrancl mem_Collect_eq)
        qed
      qed
    qed
    with k show False by blast
  qed
qed

lemma finite_wait_rel: "finite ids \<Longrightarrow> finite (wait_rel by_id ids)"
proof -
  assume "finite ids"
  moreover have "wait_rel by_id ids \<subseteq> (\<Union>k \<in> ids. waits_of by_id k \<times> {k})" by (auto simp: wait_rel_def)
  ultimately show ?thesis by (elim finite_subset) simp
qed

subsection \<open>The counts the walk starts from\<close>

lemma count_predecessors_spec:
  "distinct (map task_id ts) \<Longrightarrow>
     fmlookup (count_predecessors ts m) k =
       (case map_of (map (\<lambda>t. (task_id t, t)) ts) k of
          None \<Rightarrow> fmlookup m k
        | Some t \<Rightarrow> if wait_tasks t \<noteq> [] then Some (int (length (wait_tasks t))) else fmlookup m k)"
proof (induction ts m rule: count_predecessors.induct)
  case (2 t ts m)
  then have "map_of (map (\<lambda>t. (task_id t, t)) ts) (task_id t) = None"
    by (auto simp: map_of_eq_None_iff image_iff)
  with 2 show ?case by (auto split: option.split)
qed simp

lemma kahn_start:
  assumes dist: "distinct tids" and ts: "map_try (need_task s) tids = Inr ts"
    and ids: "\<And>k t. k \<in> set tids \<Longrightarrow> fmlookup (tasks s) k = Some t \<Longrightarrow> task_id t = k"
    and ok: "deps_ok (fmlookup (tasks s)) (set tids)"
  defines "by_id \<equiv> map_of (rev (map (\<lambda>t. (task_id t, t)) ts))"
    and "m \<equiv> count_predecessors ts fmempty"
  shows "k \<in> set tids \<Longrightarrow> by_id k = fmlookup (tasks s) k"
    and "kahn_inv by_id (set tids) {} (map task_id (filter (\<lambda>t. pred_count m (task_id t) = 0) ts)) m"
    and "wait_rel by_id (set tids) = wait_rel (fmlookup (tasks s)) (set tids)"
    and "deps_ok by_id (set tids)"
proof -
  note nth = map_try_Inr [OF ts]
  have names: "map task_id ts = tids"
    by (rule nth_equalityI) (use nth ids in \<open>auto simp: nth_mem\<close>)
  have dts: "distinct (map task_id ts)" using dist names by simp
  have lk: "by_id k = map_of (map (\<lambda>t. (task_id t, t)) ts) k" for k
    unfolding by_id_def 
    using dts by (subst map_of_inject_set [THEN iffD2, of "rev xs" xs for xs]) (simp_all add: o_def rev_map [symmetric])
  show look: "by_id k = fmlookup (tasks s) k" if "k \<in> set tids" for k
  proof -
    from that obtain i where i: "i < length tids" "tids ! i = k" by (auto simp: in_set_conv_nth)
    with nth have t: "fmlookup (tasks s) k = Some (ts ! i)" "i < length ts" by auto
    with names i have "task_id (ts ! i) = k" by (metis nth_map)
    with t(2) dts have "map_of (map (\<lambda>t. (task_id t, t)) ts) k = Some (ts ! i)"
      by (intro map_of_is_SomeI) (auto simp: o_def image_iff)
    with lk t show ?thesis by simp
  qed
  have outside: "by_id k = None" if "k \<notin> set tids" for k
    using that names unfolding lk by (auto simp: map_of_eq_None_iff image_iff)
  have waits: "waits_of by_id k = waits_of (fmlookup (tasks s)) k" if "k \<in> set tids" for k
    by (simp add: waits_of_def look [OF that])
  show rel: "wait_rel by_id (set tids) = wait_rel (fmlookup (tasks s)) (set tids)"
    using waits by (auto simp: wait_rel_def)
  have eq: "(\<forall>d \<in> set tids. \<forall>u. by_id d = Some u \<longrightarrow> X d u) \<longleftrightarrow>
      (\<forall>d \<in> set tids. \<forall>u. fmlookup (tasks s) d = Some u \<longrightarrow> X d u)" for X
    using look by simp
  show "deps_ok by_id (set tids)"
    using ok unfolding deps_ok_def eq using look by simp
  have cnt: "fmlookup m k = (if pending_count by_id (set tids) {} k = 0 then None
      else Some (int (pending_count by_id (set tids) {} k)))" for k
  proof (cases "k \<in> set tids")
    case True
    with ok look obtain t where t: "by_id k = Some t" "distinct (wait_tasks t)"
      by (auto simp: deps_ok_def)
    then have "pending_count by_id (set tids) {} k = length (wait_tasks t)"
      using True by (simp add: pending_count_def waits_of_def distinct_card)
    with t(1) show ?thesis
      unfolding m_def by (simp add: count_predecessors_spec [OF dts] lk [symmetric])
  next
    case False
    with outside show ?thesis
      unfolding m_def by (simp add: count_predecessors_spec [OF dts] lk [symmetric] pending_count_def)
  qed
  then have enc: "encodes (pending_count by_id (set tids) {}) m" by (simp add: encodes_def)
  have q: "k \<in> set (map task_id (filter (\<lambda>t. pred_count m (task_id t) = 0) ts)) \<longleftrightarrow>
      k \<in> set tids \<and> waits_of by_id k \<subseteq> {}" for k
  proof -
    have "k \<in> set (map task_id (filter (\<lambda>t. pred_count m (task_id t) = 0) ts)) \<longleftrightarrow>
      k \<in> set tids \<and> pred_count m k = 0"
      unfolding names [symmetric] by auto
    then show ?thesis unfolding encodes_count [OF enc] by (auto simp: pending_count_def)
  qed
  show "kahn_inv by_id (set tids) {} (map task_id (filter (\<lambda>t. pred_count m (task_id t) = 0) ts)) m"
    unfolding kahn_inv_def using enc q dts by (auto simp: distinct_map_filter)
qed


subsection \<open>Properties\<close>

lemma wait_rel_range: "(x, x) \<in> (wait_rel by_id ids)\<^sup>+ \<Longrightarrow> x \<in> ids"
  by (metis (no_types, lifting) case_prodD mem_Collect_eq tranclD2 wait_rel_def)

text \<open>
  C12: \<open>CheckTaskDependencies\<close> is a decision procedure for cycles: on a change whose links stay inside
  it, it always returns, it returns nil exactly when the wait relation of the tasks is acyclic, and
  otherwise the ids of its error are, in sorted order and without repetition, exactly the tasks that
  are on a cycle or wait, through others, for a task on a cycle.
\<close>

theorem CheckTaskDependencies_correct:
  assumes "wf s" and c: "fmlookup (changes s) cid = Some c" and dist: "distinct (chg_tasks c)"
    and ok: "deps_ok (fmlookup (tasks s)) (set (chg_tasks c))"
  defines "R \<equiv> wait_rel (fmlookup (tasks s)) (set (chg_tasks c))"
  shows "\<exists>r. CheckTaskDependencies cid s = Inr r \<and>
    (r = None \<longleftrightarrow> acyclic R) \<and>
    (\<forall>ids. r = Some ids \<longrightarrow> sorted (map fst ids) \<and> distinct (map fst ids) \<and>
       set (map fst ids) = {k \<in> set (chg_tasks c). \<exists>x. (x, k) \<in> R\<^sup>* \<and> (x, x) \<in> R\<^sup>+})"
proof -
  obtain ts where ts: "map_try (need_task s) (chg_tasks c) = Inr ts"
    using map_try_need_ok [of "chg_tasks c" s] chg_tasks_linked [OF assms(1) c] by (auto simp: linked_def)
  have tid: "task_id t = k" if "fmlookup (tasks s) k = Some t" for k t
    using wf_task [OF assms(1) that] by (simp add: task_wf_def)
  define by_id where "by_id = map_of (rev (map (\<lambda>t. (task_id t, t)) ts))"
  define m where "m = count_predecessors ts fmempty"
  define q where "q = map task_id (filter (\<lambda>t. pred_count m (task_id t) = 0) ts)"
  note start = kahn_start [OF dist ts tid ok, folded by_id_def m_def, folded q_def]
  from kahn_run [OF start(4) start(2)] obtain P' m' where run: "kahn by_id q m = Inr m'"
    and inv: "kahn_inv by_id (set (chg_tasks c)) P' [] m'" by blast
  have left: "k |\<in>| fmdom m' \<longleftrightarrow> k \<in> set (chg_tasks c) \<and> (\<exists>x. (x, k) \<in> R\<^sup>* \<and> (x, x) \<in> R\<^sup>+)" for k
  proof -
    have rel: "wait_rel by_id (set (chg_tasks c)) = R" using start(3) by (simp add: R_def)
    from kahn_end [OF start(4) inv, of k] finite_not_acc [OF finite_wait_rel, of "set (chg_tasks c)" k by_id]
    show ?thesis unfolding rel by simp
  qed
  define g where "g k = (k, task_kind (the (by_id k)))" for k
  have "map_try (\<lambda>k. case by_id k of None \<Rightarrow> Inl NilDeref | Some t \<Rightarrow> Inr (k, task_kind t))
      (sorted_list_of_fset (fmdom m')) = Inr (map g (sorted_list_of_fset (fmdom m')))"
  proof (rule map_try_map)
    fix k assume "k \<in> set (sorted_list_of_fset (fmdom m'))"
    then have "k \<in> set (chg_tasks c)" using left by (simp add: fmdom_notI)
    with start(4) obtain t where "by_id k = Some t" by (auto simp: deps_ok_def)
    then show "(case by_id k of None \<Rightarrow> Inl NilDeref | Some t \<Rightarrow> Inr (k, task_kind t)) = Inr (g k)"
      by (simp add: g_def)
  qed
  then have res: "CheckTaskDependencies cid s =
      Inr (if m' = fmempty then None else Some (map g (sorted_list_of_fset (fmdom m'))))"
    using run c ts unfolding by_id_def m_def q_def
    by (simp add: CheckTaskDependencies_def Let_def)
  have cyc: "m' = fmempty \<longleftrightarrow> acyclic R"
  proof
    assume "m' = fmempty"
    then have no: "\<not> (k \<in> set (chg_tasks c) \<and> (\<exists>x. (x, k) \<in> R\<^sup>* \<and> (x, x) \<in> R\<^sup>+))" for k
      using left [of k] by simp
    show "acyclic R"
      unfolding acyclic_def using no wait_rel_range unfolding R_def by blast
  next
    assume "acyclic R"
    then have "fmdom m' = {||}" using left by (auto simp: acyclic_def)
    then show "m' = fmempty" by (intro fmap_ext) (auto simp: fmdom_notD)
  qed
  define ks where "ks = sorted_list_of_fset (fmdom m')"
  have ks: "sorted ks \<and> distinct ks \<and>
      set ks = {k \<in> set (chg_tasks c). \<exists>x. (x, k) \<in> R\<^sup>* \<and> (x, x) \<in> R\<^sup>+}"
    using left by (auto simp: ks_def sorted_list_of_fset.rep_eq)
  have "map fst (map g ks) = ks" by (simp add: g_def o_def)
  then show ?thesis unfolding res ks_def [symmetric]
    using cyc ks by (cases "acyclic R") (auto simp del: map_map set_map)
qed

definition sample_cycle :: "(string \<times> task) list" where
  "sample_cycle =
     [(''1'', sample_task ''1'' DoStatus [''2''] [''2'', ''3''] []),
      (''2'', sample_task ''2'' DoStatus [''1''] [''1''] []),
      (''3'', sample_task ''3'' DoStatus [''1''] [] []),
      (''4'', sample_task ''4'' DoStatus [] [] [])]"

theorem CheckTaskDependencies_correct_witness:
  "CheckTaskDependencies ''1'' (sample_state sample_cycle) =
     Inr (Some [(''1'', ''start''), (''2'', ''start''), (''3'', ''start'')]) \<and>
   \<not> acyclic (wait_rel (fmlookup (tasks (sample_state sample_cycle))) {''1'', ''2'', ''3'', ''4''})"
proof -
  let ?s = "sample_state sample_cycle"
  have wf: "wf ?s" by (rule sample_wf) code_simp
  have r: "CheckTaskDependencies ''1'' ?s =
     Inr (Some [(''1'', ''start''), (''2'', ''start''), (''3'', ''start'')])" by code_simp
  obtain c where c: "fmlookup (changes ?s) ''1'' = Some c" "chg_tasks c = [''1'', ''2'', ''3'', ''4'']"
    by (simp add: sample_state_def sample_cycle_def fmlookup_of_list)
  have "deps_ok (fmlookup (tasks ?s)) (set (chg_tasks c))"
    unfolding c deps_ok_def
    by (simp add: sample_state_def sample_cycle_def fmlookup_of_list sample_task_def)
  with CheckTaskDependencies_correct [OF wf c(1)] r c(2) show ?thesis by auto
qed

end
