(* ===== verification/Notices.thy ===== *)
theory Notices
  imports StateCore "HOL-Library.Multiset"
begin

text \<open>
  The notices of the state (\<open>notices.go\<close>): filters, listing, flattening for the state file and back,
  and the invariant that every notice is stored under its own key with an id of its own.  Go ranges
  over the notice map in any order, which is the argument \<open>order\<close>, a list of its keys; \<open>sort.Slice\<close>
  is not stable, which an arbitrary \<open>order\<close> covers.
\<close>

record notice_filter =
  flt_user :: "32 word option"
  flt_types :: "string list"
  flt_keys :: "string list"
  flt_after :: time

definition notice_matches :: "notice_filter option \<Rightarrow> notice \<Rightarrow> bool" where
  "notice_matches flt n =
     (case flt of
        None \<Rightarrow> True
      | Some f \<Rightarrow>
          if flt_user f \<noteq> None \<and> \<not> (ntc_user n = None \<or> flt_user f = ntc_user n) then False
          else if flt_types f \<noteq> [] \<and> ntc_type n \<notin> set (flt_types f) then False
          else if flt_keys f \<noteq> [] \<and> ntc_key n \<notin> set (flt_keys f) then False
          else if \<not> is_zero_time (flt_after f) \<and> \<not> flt_after f < last_repeated n then False
          else True)"

definition notice_ukey :: "notice \<Rightarrow> notice_key" where
  "notice_ukey n = unique_key (ntc_user n) (ntc_type n) (ntc_key n)"

fun lookup_all :: "('k, 'v) fmap \<Rightarrow> 'k list \<Rightarrow> 'v list" where
  "lookup_all m [] = []"
| "lookup_all m (k # ks) = (case fmlookup m k of None \<Rightarrow> lookup_all m ks | Some v \<Rightarrow> v # lookup_all m ks)"

lemma set_lookup_all: "set (lookup_all m ks) = {v. \<exists>k \<in> set ks. fmlookup m k = Some v}"
  by (induction ks) (auto split: option.split)

definition flattenNotices :: "time \<Rightarrow> notice_key list \<Rightarrow> notice_filter option \<Rightarrow> st \<Rightarrow> notice list" where
  "flattenNotices now order flt s =
     filter (\<lambda>n. \<not> (notice_expired now n \<or> \<not> notice_matches flt n)) (lookup_all (notices s) order)"

definition state_Notices :: "time \<Rightarrow> notice_key list \<Rightarrow> notice_filter option \<Rightarrow> st \<Rightarrow> notice list" where
  "state_Notices now order flt s = sort_key last_repeated (flattenNotices now order flt s)"

definition state_Notice :: "notice_key list \<Rightarrow> string \<Rightarrow> st \<Rightarrow> notice option" where
  "state_Notice order nid s = find (\<lambda>n. ntc_id n = nid) (lookup_all (notices s) order)"

fun unflatten_loop ::
    "time \<Rightarrow> notice list \<Rightarrow> (notice_key, notice) fmap \<times> time \<Rightarrow> (notice_key, notice) fmap \<times> time" where
  "unflatten_loop now [] (m, latest) = (m, latest)"
| "unflatten_loop now (n # ns) (m, latest) =
     (if notice_expired now n then unflatten_loop now ns (m, latest)
      else unflatten_loop now ns
             (fmupd (notice_ukey n) n m,
              if ntc_type n = WarningNotice \<and> latest < last_repeated n then last_repeated n else latest))"

definition unflattenNotices :: "time \<Rightarrow> notice list \<Rightarrow> st \<Rightarrow> st" where
  "unflattenNotices now flat s =
     (let (m, latest) = unflatten_loop now flat (fmempty, 0) in
      s\<lparr>notices := m, latest_warning_time := latest\<rparr>)"

definition Warnf :: "time \<Rightarrow> string \<Rightarrow> st \<Rightarrow> fault + st" where
  "Warnf now msg s =
     (case AddNotice now None WarningNotice msg
             (Some \<lparr>opt_data = fmempty, opt_repeat_after = warningRepeatAfter, opt_time = 0\<rparr>) s of
        Inl e \<Rightarrow> Inl NoticeFailed
      | Inr (i, s') \<Rightarrow> Inr s')"

text \<open>
  \<open>WaitNotices\<close>: the notices if there are any; otherwise it waits for broadcasts, after each of
  which it returns the error of a done context, or the notices if there are any by then.  \<open>wakeups\<close>
  are the broadcasts it sees, each with the context error and state of that moment; \<open>None\<close> when it
  is still waiting.
\<close>

fun wait_loop ::
    "notice_key list \<Rightarrow> notice_filter option \<Rightarrow> (string option \<times> time \<times> st) list \<Rightarrow> (string + notice list) option" where
  "wait_loop order flt [] = None"
| "wait_loop order flt ((ctx_err, now, s) # ws) =
     (case ctx_err of
        Some e \<Rightarrow> Some (Inl e)
      | None \<Rightarrow>
          (let ns = state_Notices now order flt s in
           if ns \<noteq> [] then Some (Inr ns) else wait_loop order flt ws))"

definition WaitNotices ::
    "notice_key list \<Rightarrow> notice_filter option \<Rightarrow> time \<Rightarrow> st \<Rightarrow> (string option \<times> time \<times> st) list \<Rightarrow>
     (string + notice list) option" where
  "WaitNotices order flt now s wakeups =
     (let ns = state_Notices now order flt s in
      if ns \<noteq> [] then Some (Inr ns) else wait_loop order flt wakeups)"

subsection \<open>Every notice under its key, with an id of its own\<close>

definition notices_inv :: "st \<Rightarrow> bool" where
  "notices_inv s \<longleftrightarrow>
     (\<forall>k n. fmlookup (notices s) k = Some n \<longrightarrow>
        k = notice_ukey n \<and> (\<exists>i. 0 < i \<and> i \<le> last_notice_id s \<and> ntc_id n = itoa i) \<and>
        1 \<le> occurrences n \<and> notice_type_Valid (ntc_type n) \<and> ntc_key n \<noteq> []) \<and>
     (\<forall>k k' n n'. fmlookup (notices s) k = Some n \<longrightarrow> fmlookup (notices s) k' = Some n' \<longrightarrow>
        ntc_id n = ntc_id n' \<longrightarrow> k = k')"

definition notice_after :: "time \<Rightarrow> notice_opts option \<Rightarrow> notice \<Rightarrow> notice" where
  "notice_after now opts n =
     (let o' = (case opts of None \<Rightarrow> \<lparr>opt_data = fmempty, opt_repeat_after = 0, opt_time = 0\<rparr> | Some x \<Rightarrow> x);
          rep = opt_repeat_after o' = 0 \<or> last_repeated n + opt_repeat_after o' < now
      in n\<lparr>occurrences := occurrences n + 1, last_repeated := (if rep then now else last_repeated n),
           last_occurred := now, last_data := opt_data o', repeat_after := opt_repeat_after o'\<rparr>)"

definition notice_first :: "time \<Rightarrow> nat \<Rightarrow> 32 word option \<Rightarrow> string \<Rightarrow> string \<Rightarrow> notice_opts option \<Rightarrow> notice" where
  "notice_first now i user ty k opts =
     (let o' = (case opts of None \<Rightarrow> \<lparr>opt_data = fmempty, opt_repeat_after = 0, opt_time = 0\<rparr> | Some x \<Rightarrow> x)
      in \<lparr>ntc_id = itoa i, ntc_user = user, ntc_type = ty, ntc_key = k, first_occurred = now,
          last_occurred = now, last_repeated = now, occurrences = 1, last_data = opt_data o',
          repeat_after = opt_repeat_after o', expire_after = defaultNoticeExpireAfter\<rparr>)"

definition notice_time :: "time \<Rightarrow> notice_opts option \<Rightarrow> time" where
  "notice_time clock opts =
     (case opts of None \<Rightarrow> clock | Some x \<Rightarrow> if is_zero_time (opt_time x) then clock else opt_time x)"

lemma AddNotice_cases:
  assumes "AddNotice clock user ty k opts s = Inr (i, s')"
  obtains (first) "fmlookup (notices s) (unique_key user ty k) = None" "i = itoa (Suc (last_notice_id s))"
      "last_notice_id s' = Suc (last_notice_id s)"
      "notices s' = fmupd (unique_key user ty k)
         (notice_first (notice_time clock opts) (Suc (last_notice_id s)) user ty k opts) (notices s)"
  | (again) n where "fmlookup (notices s) (unique_key user ty k) = Some n" "i = ntc_id n"
      "last_notice_id s' = last_notice_id s"
      "notices s' = fmupd (unique_key user ty k) (notice_after (notice_time clock opts) opts n) (notices s)"
proof (cases "fmlookup (notices s) (unique_key user ty k)")
  case None
  with assms show thesis
    by (intro first)
      (auto simp: AddNotice_def Let_def notice_first_def notice_time_def is_zero_time_def
        split: option.splits if_splits)
next
  case (Some n)
  with assms show thesis
    by (intro again [of n])
      (auto simp: AddNotice_def Let_def notice_after_def notice_time_def is_zero_time_def
        split: option.splits if_splits)
qed

lemma AddNotice_valid_type:
  "AddNotice clock user ty k opts s = Inr (i, s') \<Longrightarrow> notice_type_Valid ty \<and> k \<noteq> []"
  by (auto simp: AddNotice_def validateNotice_def Let_def split: if_splits)

lemma notice_after_simps [simp]:
  "ntc_id (notice_after now opts n) = ntc_id n" "ntc_user (notice_after now opts n) = ntc_user n"
  "ntc_type (notice_after now opts n) = ntc_type n" "ntc_key (notice_after now opts n) = ntc_key n"
  "occurrences (notice_after now opts n) = occurrences n + 1" "last_occurred (notice_after now opts n) = now"
  by (simp_all add: notice_after_def Let_def)

lemma notice_first_simps [simp]:
  "ntc_id (notice_first now i u ty k opts) = itoa i" "ntc_user (notice_first now i u ty k opts) = u"
  "ntc_type (notice_first now i u ty k opts) = ty" "ntc_key (notice_first now i u ty k opts) = k"
  "occurrences (notice_first now i u ty k opts) = 1"
  by (simp_all add: notice_first_def Let_def)

lemma AddNotice_inv:
  assumes inv: "notices_inv s" and add: "AddNotice clock user ty k opts s = Inr (i, s')"
  shows "notices_inv s'"
proof -
  from AddNotice_valid_type [OF add] have v: "notice_type_Valid ty" "k \<noteq> []" by auto
  from inv have key: "\<And>q n. fmlookup (notices s) q = Some n \<Longrightarrow> q = notice_ukey n"
    and ids: "\<And>q n. fmlookup (notices s) q = Some n \<Longrightarrow> \<exists>j. 0 < j \<and> j \<le> last_notice_id s \<and> ntc_id n = itoa j"
    and occ: "\<And>q n. fmlookup (notices s) q = Some n \<Longrightarrow> 1 \<le> occurrences n \<and> notice_type_Valid (ntc_type n) \<and> ntc_key n \<noteq> []"
    and uniq: "\<And>q q' n n'. fmlookup (notices s) q = Some n \<Longrightarrow> fmlookup (notices s) q' = Some n' \<Longrightarrow>
        ntc_id n = ntc_id n' \<Longrightarrow> q = q'"
    unfolding notices_inv_def by blast+
  from add show ?thesis
  proof (cases rule: AddNotice_cases)
    case first
    have fresh: "ntc_id n \<noteq> itoa (Suc (last_notice_id s))" if "fmlookup (notices s) q = Some n" for q n
      using ids [OF that] by auto
    have old: "\<exists>j. 0 < j \<and> j \<le> Suc (last_notice_id s) \<and> ntc_id n = itoa j" if "fmlookup (notices s) q = Some n" for q n
      using ids [OF that] by (metis le_Suc_eq)
    show ?thesis
      unfolding notices_inv_def first(3,4)
    proof (intro conjI allI impI)
      fix q n assume q: "fmlookup (fmupd (unique_key user ty k)
         (notice_first (notice_time clock opts) (Suc (last_notice_id s)) user ty k opts) (notices s)) q = Some n"
      then show "q = notice_ukey n" "1 \<le> occurrences n" "notice_type_Valid (ntc_type n)" "ntc_key n \<noteq> []"
        using key occ v by (auto simp: notice_ukey_def split: if_split_asm)
      from q show "\<exists>j. 0 < j \<and> j \<le> Suc (last_notice_id s) \<and> ntc_id n = itoa j"
        using old by (auto split: if_split_asm)
    next
      fix q q' n n'
      assume "fmlookup (fmupd (unique_key user ty k)
         (notice_first (notice_time clock opts) (Suc (last_notice_id s)) user ty k opts) (notices s)) q = Some n"
        "fmlookup (fmupd (unique_key user ty k)
         (notice_first (notice_time clock opts) (Suc (last_notice_id s)) user ty k opts) (notices s)) q' = Some n'"
        "ntc_id n = ntc_id n'"
      then show "q = q'" using uniq [of q n q' n'] fresh [of q n] fresh [of q' n'] by (auto split: if_split_asm)
    qed
  next
    case (again n0)
    show ?thesis
      unfolding notices_inv_def again(3,4)
    proof (intro conjI allI impI)
      fix q n assume q: "fmlookup (fmupd (unique_key user ty k)
         (notice_after (notice_time clock opts) opts n0) (notices s)) q = Some n"
      then show "q = notice_ukey n" "1 \<le> occurrences n" "notice_type_Valid (ntc_type n)" "ntc_key n \<noteq> []"
        using key [OF again(1)] occ [OF again(1)] key occ by (auto simp: notice_ukey_def split: if_split_asm)
      from q show "\<exists>j. 0 < j \<and> j \<le> last_notice_id s \<and> ntc_id n = itoa j"
        using ids [OF again(1)] ids by (auto split: if_split_asm)
    next
      fix q q' n n'
      assume "fmlookup (fmupd (unique_key user ty k)
         (notice_after (notice_time clock opts) opts n0) (notices s)) q = Some n"
        "fmlookup (fmupd (unique_key user ty k)
         (notice_after (notice_time clock opts) opts n0) (notices s)) q' = Some n'"
        "ntc_id n = ntc_id n'"
      then show "q = q'"
        using uniq [of q n q' n'] uniq [OF again(1), of q' n'] uniq [OF _ again(1), of q n]
        by (auto split: if_split_asm)
    qed
  qed
qed


subsection \<open>Saving and loading\<close>

lemma unflatten_loop_lookup:
  assumes "\<And>n n'. n \<in> set ns \<Longrightarrow> n' \<in> set ns \<Longrightarrow> notice_ukey n = notice_ukey n' \<Longrightarrow> n = n'"
    and "\<And>n. n \<in> set ns \<Longrightarrow> \<not> notice_expired now n"
  shows "fmlookup (fst (unflatten_loop now ns (m, l))) k =
    (case find (\<lambda>n. notice_ukey n = k) ns of None \<Rightarrow> fmlookup m k | Some n \<Rightarrow> Some n)"
  using assms
proof (induction ns arbitrary: m l)
  case (Cons a ns)
  have "\<not> notice_expired now a" using Cons.prems(2) by simp
  then have "fmlookup (fst (unflatten_loop now (a # ns) (m, l))) k =
      (case find (\<lambda>n. notice_ukey n = k) ns of None \<Rightarrow> fmlookup (fmupd (notice_ukey a) a m) k | Some n \<Rightarrow> Some n)"
    using Cons.IH Cons.prems by simp
  also have "\<dots> = (case find (\<lambda>n. notice_ukey n = k) (a # ns) of None \<Rightarrow> fmlookup m k | Some n \<Rightarrow> Some n)"
  proof (cases "find (\<lambda>n. notice_ukey n = k) ns")
    case (Some n)
    then have "n \<in> set ns" "notice_ukey n = k" by (auto simp: find_Some_iff)
    with Some Cons.prems(1) [of n a] show ?thesis by auto
  qed auto
  finally show ?case .
qed simp

lemma flatten_unflatten:
  assumes inv: "notices_inv s" and order: "set order = fset (fmdom (notices s))"
  shows "fmlookup (notices (unflattenNotices now (flattenNotices now order None s) s0)) k =
    (case fmlookup (notices s) k of
       None \<Rightarrow> None
     | Some n \<Rightarrow> if notice_expired now n then None else Some n)"
proof -
  define ns where "ns = flattenNotices now order None s"
  have ns: "n \<in> set ns \<longleftrightarrow> (\<exists>k. fmlookup (notices s) k = Some n) \<and> \<not> notice_expired now n" for n
    using order by (auto simp: ns_def flattenNotices_def notice_matches_def set_lookup_all fmdomI)
  have key: "q = notice_ukey n" if "fmlookup (notices s) q = Some n" for q n
    using inv that unfolding notices_inv_def by blast
  have "fmlookup (notices (unflattenNotices now ns s0)) k = fmlookup (fst (unflatten_loop now ns (fmempty, 0))) k"
    by (simp add: unflattenNotices_def Let_def split: prod.split)
  also have "\<dots> = (case find (\<lambda>n. notice_ukey n = k) ns of None \<Rightarrow> None | Some n \<Rightarrow> Some n)"
  proof (subst unflatten_loop_lookup)
    show "n = n'" if "n \<in> set ns" "n' \<in> set ns" "notice_ukey n = notice_ukey n'" for n n'
      using that key unfolding ns by fastforce
    show "\<not> notice_expired now n" if "n \<in> set ns" for n
      using that by (simp add: ns)
  qed (simp split: option.split)
  also have "\<dots> = (case fmlookup (notices s) k of
       None \<Rightarrow> None | Some n \<Rightarrow> if notice_expired now n then None else Some n)"
  proof (cases "find (\<lambda>n. notice_ukey n = k) ns")
    case None
    then have "\<not> (n \<in> set ns \<and> notice_ukey n = k)" for n by (auto simp: find_None_iff)
    then have "notice_expired now n" if "fmlookup (notices s) k = Some n" for n
      using that ns [of n] key [OF that] by metis
    with None show ?thesis by (auto split: option.split)
  next
    case (Some n)
    then have "n \<in> set ns" "notice_ukey n = k" by (auto simp: find_Some_iff)
    then obtain q where "fmlookup (notices s) q = Some n" "\<not> notice_expired now n" using ns by auto
    with key \<open>notice_ukey n = k\<close> Some show ?thesis by auto
  qed
  finally show ?thesis by (simp add: ns_def)
qed

lemma wait_loop_wakes:
  assumes "i < length ws" "\<And>j. j < i \<Longrightarrow> fst (ws ! j) = None \<and>
      state_Notices (fst (snd (ws ! j))) order flt (snd (snd (ws ! j))) = []"
    and "ws ! i = (None, now, s)" "state_Notices now order flt s \<noteq> []"
  shows "wait_loop order flt ws = Some (Inr (state_Notices now order flt s))"
  using assms
proof (induction ws arbitrary: i)
  case (Cons w ws)
  show ?case
  proof (cases i)
    case 0
    with Cons.prems show ?thesis by (simp add: Let_def)
  next
    case (Suc j)
    from Cons.prems(2) [of 0] Suc have "fst w = None" "state_Notices (fst (snd w)) order flt (snd (snd w)) = []"
      by auto
    moreover have "wait_loop order flt ws = Some (Inr (state_Notices now order flt s))"
    proof (rule Cons.IH [of j])
      show "fst (ws ! q) = None \<and> state_Notices (fst (snd (ws ! q))) order flt (snd (snd (ws ! q))) = []" if "q < j" for q
        using Cons.prems(2) [of "Suc q"] that Suc by simp
    qed (use Cons.prems Suc in auto)
    ultimately show ?thesis by (cases w) (auto simp: Let_def)
  qed
qed simp

subsection \<open>Properties\<close>

text \<open>
  C20: \<open>AddNotice\<close> aggregates: every notice stays under the key made of its user, type and key, ids are
  never shared, and the notice it reports is the stored one: a first occurrence gets a fresh id
  and count 1, a further one keeps its id, counts one more and moves its last-repeated time
  only when the repeat-after period has passed.
\<close>

theorem AddNotice_correct:
  assumes "notices_inv s" "AddNotice clock user ty k opts s = Inr (i, s')"
  shows "notices_inv s' \<and>
    (\<exists>n. fmlookup (notices s') (unique_key user ty k) = Some n \<and> ntc_id n = i \<and>
       (case fmlookup (notices s) (unique_key user ty k) of
          None \<Rightarrow> n = notice_first (notice_time clock opts) (Suc (last_notice_id s)) user ty k opts
        | Some n0 \<Rightarrow> n = notice_after (notice_time clock opts) opts n0)) \<and>
    (\<forall>q. q \<noteq> unique_key user ty k \<longrightarrow> fmlookup (notices s') q = fmlookup (notices s) q)"
proof -
  from AddNotice_inv [OF assms] have "notices_inv s'" .
  with assms(2) show ?thesis by (cases rule: AddNotice_cases) auto
qed

definition sample_noticed :: "string \<times> st" where
  "sample_noticed = (case AddNotice 5 (Some 1000) CustomNotice ''a.b/c'' None empty_state of
     Inl e \<Rightarrow> ([], empty_state) | Inr x \<Rightarrow> x)"

lemma sample_noticed:
  "AddNotice 5 (Some 1000) CustomNotice ''a.b/c'' None empty_state = Inr (fst sample_noticed, snd sample_noticed)"
proof -
  have "case AddNotice 5 (Some 1000) CustomNotice ''a.b/c'' None empty_state of Inl e \<Rightarrow> False | Inr x \<Rightarrow> True"
    by code_simp
  then show ?thesis unfolding sample_noticed_def
    by (cases "AddNotice 5 (Some 1000) CustomNotice ''a.b/c'' None empty_state") auto
qed

lemma empty_notices_inv: "notices_inv empty_state"
  by (simp add: notices_inv_def empty_state_def)

theorem AddNotice_correct_witness:
  "notices_inv (snd sample_noticed) \<and>
   (\<exists>n. fmlookup (notices (snd sample_noticed)) (unique_key (Some 1000) CustomNotice ''a.b/c'') = Some n \<and>
      ntc_id n = fst sample_noticed \<and> occurrences n = 1)"
  using AddNotice_correct [OF empty_notices_inv sample_noticed] by (auto simp: empty_state_def)

text \<open>
  \<open>Notices\<close> lists exactly the stored notices that have not expired and match the filter, in
  the order of their last-repeated times.
\<close>

lemma Notices_lists_matching:
  assumes "set order = fset (fmdom (notices s))"
  shows "set (state_Notices now order flt s) =
      {n. (\<exists>k. fmlookup (notices s) k = Some n) \<and> \<not> notice_expired now n \<and> notice_matches flt n} \<and>
    sorted (map last_repeated (state_Notices now order flt s))"
  using assms
  by (auto simp: state_Notices_def flattenNotices_def set_lookup_all fmdomI)

text \<open>
  C21: saving and loading loses nothing but expired notices: \<open>unflattenNotices\<close> of the notices that
  \<open>flattenNotices\<close> writes, in whatever order, gives back under its key each notice that has not
  expired.
\<close>

theorem notices_roundtrip:
  assumes "notices_inv s" "set order = fset (fmdom (notices s))"
  shows "fmlookup (notices (unflattenNotices now (flattenNotices now order None s) s0)) k =
    (case fmlookup (notices s) k of
       None \<Rightarrow> None
     | Some n \<Rightarrow> if notice_expired now n then None else Some n)"
  using assms by (rule flatten_unflatten)

theorem notices_roundtrip_witness:
  "fmlookup (notices (unflattenNotices 6 (flattenNotices 6 [unique_key (Some 1000) CustomNotice ''a.b/c''] None
      (snd sample_noticed)) empty_state)) (unique_key (Some 1000) CustomNotice ''a.b/c'') \<noteq> None"
proof -
  let ?k = "unique_key (Some 1000) CustomNotice ''a.b/c''"
  from sample_noticed have n: "notices (snd sample_noticed) =
      fmupd ?k (notice_first 5 1 (Some 1000) CustomNotice ''a.b/c'' None) fmempty"
    by (cases rule: AddNotice_cases) (auto simp: empty_state_def notice_time_def)
  have "\<not> notice_expired 6 (notice_first 5 1 (Some 1000) CustomNotice ''a.b/c'' None)" by code_simp
  then show ?thesis
    by (subst notices_roundtrip [OF AddNotice_inv [OF empty_notices_inv sample_noticed]]) (simp_all add: n)
qed

end
