(* ===== verification/StatePrune.thy ===== *)
theory StatePrune
  imports Abort Notices
begin

text \<open>
  \<open>State.Prune\<close>, \<open>pruneMaxNotices\<close> and \<open>pruneStats\<close> of \<open>state.go\<close>, saving and loading of tasks and
  changes, and the task sets of \<open>task.go\<close>.  The orders in which Go ranges over the maps of changes
  and notices are arguments; an arbitrary order of the changes covers that \<open>sort.Sort\<close> is not stable.
\<close>

record prune_stats =
  num_changes :: nat
  num_notices :: nat
  oldest_change :: time
  newest_change :: time
  oldest_notice :: time
  newest_notice :: time

definition empty_stats :: prune_stats where
  "empty_stats = \<lparr>num_changes = 0, num_notices = 0, oldest_change = 0, newest_change = 0,
     oldest_notice = 0, newest_notice = 0\<rparr>"

definition IncludeChange :: "change \<Rightarrow> prune_stats \<Rightarrow> prune_stats" where
  "IncludeChange c p =
     (let p1 = p\<lparr>num_changes := num_changes p + 1\<rparr>; rt = chg_ready_time c in
      if is_zero_time rt then p1
      else p1\<lparr>oldest_change := (if is_zero_time (oldest_change p1) \<or> rt < oldest_change p1 then rt
                                else oldest_change p1),
              newest_change := (if newest_change p1 < rt then rt else newest_change p1)\<rparr>)"

definition IncludeNotice :: "notice \<Rightarrow> prune_stats \<Rightarrow> prune_stats" where
  "IncludeNotice n p =
     (let p1 = p\<lparr>num_notices := num_notices p + 1\<rparr>; lo = last_occurred n in
      if is_zero_time lo then p1
      else p1\<lparr>oldest_notice := (if is_zero_time (oldest_notice p1) \<or> lo < oldest_notice p1 then lo
                                else oldest_notice p1),
              newest_notice := (if newest_notice p1 < lo then lo else newest_notice p1)\<rparr>)"

record prune_env =
  start_of_operation :: time
  prune_limit :: time
  abort_limit :: time
  max_ready_changes :: int
  pending_by_attr :: "(string \<times> (change \<Rightarrow> bool)) list"
  lane_order :: "int list \<Rightarrow> int list"

type_synonym prune_state = "int \<times> prune_stats \<times> st"

definition delete_change :: "string \<Rightarrow> st \<Rightarrow> st" where
  "delete_change cid s = s\<lparr>changes := fmdrop cid (changes s)\<rparr>"

definition prune_unready :: "prune_env \<Rightarrow> time \<Rightarrow> string \<Rightarrow> change \<Rightarrow> prune_state \<Rightarrow> fault + prune_state" where
  "prune_unready env now cid c ps =
     (let (n, stats, s) = ps;
          spawn = (if chg_spawn_time c < start_of_operation env then start_of_operation env else chg_spawn_time c)
      in if spawn < prune_limit env \<and> chg_tasks c = [] then
           and_then (change_Abort now cid s) (\<lambda>s1. and_then (need_change s1 cid) (\<lambda>c1.
             Inr (n, IncludeChange c1 stats, delete_change (chg_id c1) s1)))
         else if spawn < abort_limit env then
           (if \<exists>(attr, pending) \<in> set (pending_by_attr env). data_has (chg_data c) attr \<and> pending c
            then Inr (n, stats, s)
            else and_then (AbortUnreadyLanes (lane_order env) now cid s) (\<lambda>s1. Inr (n, stats, s1)))
         else Inr (n, stats, s))"

definition prune_change :: "prune_env \<Rightarrow> time \<Rightarrow> string \<Rightarrow> prune_state \<Rightarrow> fault + prune_state" where
  "prune_change env now cid ps =
     (let (n, stats, s) = ps in
      and_then (need_change s cid) (\<lambda>c.
        if is_zero_time (chg_ready_time c) then prune_unready env now cid c ps
        else if chg_ready_time c < prune_limit env \<or> max_ready_changes env < n then
          and_then (map_try (need_task s) (chg_tasks c)) (\<lambda>ts.
            Inr (n - 1, IncludeChange c stats,
                 delete_change (chg_id c)
                   (s\<lparr>tasks := fmdrop_set (task_id ` set ts) (tasks s), modified := True\<rparr>)))
        else Inr ps))"

definition prune_tasks :: "time \<Rightarrow> st \<Rightarrow> st" where
  "prune_tasks limit s =
     (let gone = (\<lambda>k. case fmlookup (tasks s) k of
                       None \<Rightarrow> False
                     | Some t \<Rightarrow> task_Change s t = None \<and> task_spawn_time t < limit);
          ts = fmfilter (\<lambda>k. \<not> gone k) (tasks s)
      in s\<lparr>tasks := ts, modified := modified s \<or> fmdom ts \<noteq> fmdom (tasks s)\<rparr>)"

fun prune_notices ::
    "time \<Rightarrow> notice_key list \<Rightarrow> time \<times> prune_stats \<times> st \<Rightarrow> time \<times> prune_stats \<times> st" where
  "prune_notices now [] (latest, stats, s) = (latest, stats, s)"
| "prune_notices now (k # ks) (latest, stats, s) =
     (case fmlookup (notices s) k of
        None \<Rightarrow> prune_notices now ks (latest, stats, s)
      | Some n \<Rightarrow>
          if notice_expired now n then
            prune_notices now ks (latest, IncludeNotice n stats, s\<lparr>notices := fmdrop k (notices s)\<rparr>)
          else if ntc_type n = WarningNotice then
            prune_notices now ks (if latest < last_repeated n then last_repeated n else latest, stats, s)
          else if ntc_type n = ChangeUpdateNotice \<and> fmlookup (changes s) (ntc_key n) = None then
            prune_notices now ks (latest, IncludeNotice n stats, s\<lparr>notices := fmdrop k (notices s)\<rparr>)
          else prune_notices now ks (latest, stats, s))"

definition pruneMaxNotices :: "nat \<Rightarrow> notice_key list \<Rightarrow> prune_stats \<Rightarrow> st \<Rightarrow> prune_stats \<times> st" where
  "pruneMaxNotices limit order stats s =
     (let ns = sort_key last_occurred (lookup_all (notices s) order);
          del = take (size_of_map (notices s) - limit) ns
      in (fold IncludeNotice del stats,
          s\<lparr>notices := fmdrop_set (set (map notice_ukey del)) (notices s)\<rparr>))"

definition Prune ::
    "prune_env \<Rightarrow> time \<Rightarrow> nat \<Rightarrow> string list \<Rightarrow> notice_key list \<Rightarrow> st \<Rightarrow> fault + (prune_stats \<times> st)" where
  "Prune env now max_notices chg_order notice_order s =
     and_then (map_try (need_change s) chg_order) (\<lambda>cs.
       (let sorted_cs = sort_key chg_ready_time cs;
            ready_count = int (length (takeWhile (\<lambda>c. \<not> is_zero_time (chg_ready_time c)) (rev sorted_cs)))
        in and_then (fold_try (prune_change env now) (map chg_id sorted_cs) (ready_count, empty_stats, s))
             (\<lambda>(n, stats, s1).
               (let s2 = prune_tasks (prune_limit env) s1;
                    (latest, stats3, s3) = prune_notices now notice_order (0, stats, s2);
                    s4 = s3\<lparr>latest_warning_time := latest\<rparr>
                in Inr (if max_notices < size_of_map (notices s4)
                        then pruneMaxNotices max_notices notice_order stats3 s4
                        else (stats3, s4))))))"

subsection \<open>Saving and loading tasks and changes\<close>

text \<open>
  What \<open>MarshalJSON\<close> keeps: of a task everything, of a change all but its channel and the last
  status its observers saw.  \<open>finishUnmarshal\<close> closes the channel of a change that is ready again.
\<close>

definition marshal_change :: "change \<Rightarrow> change" where
  "marshal_change c = c\<lparr>chg_ready := False, last_observed := DefaultStatus\<rparr>"

definition finishUnmarshal :: "time \<Rightarrow> string \<Rightarrow> st \<Rightarrow> fault + st" where
  "finishUnmarshal now cid s =
     and_then (change_Status now cid s) (\<lambda>(s1, x). and_then (need_change s1 cid) (\<lambda>c.
       Inr (if status_Ready x then s1\<lparr>changes := fmupd cid (c\<lparr>chg_ready := True\<rparr>) (changes s1)\<rparr> else s1)))"

definition marshal_state :: "time \<Rightarrow> notice_key list \<Rightarrow> st \<Rightarrow> st \<times> notice list" where
  "marshal_state now order s =
     (s\<lparr>changes := fmmap marshal_change (changes s), notices := fmempty, latest_warning_time := 0,
        modified := False, events := []\<rparr>,
      flattenNotices now order None s)"

definition ReadState :: "time \<Rightarrow> string list \<Rightarrow> st \<times> notice list \<Rightarrow> fault + st" where
  "ReadState now chg_order saved =
     and_then (fold_try (finishUnmarshal now) chg_order (unflattenNotices now (snd saved) (fst saved)))
       (\<lambda>s. Inr (s\<lparr>modified := False\<rparr>))"

subsection \<open>Task sets\<close>

record task_set =
  ts_tasks :: "string list"
  ts_edges :: "(string, string) fmap"

definition NewTaskSet :: "string list \<Rightarrow> task_set" where
  "NewTaskSet tids = \<lparr>ts_tasks = tids, ts_edges = fmempty\<rparr>"

definition taskset_Edge :: "task_set \<Rightarrow> string \<Rightarrow> err + string" where
  "taskset_Edge ts e =
     (case fmlookup (ts_edges ts) e of
        None \<Rightarrow> Inl (''internal error: missing %q edge in task set'', [e])
      | Some t \<Rightarrow> Inr t)"

definition taskset_WaitFor :: "task_set \<Rightarrow> string \<Rightarrow> st \<Rightarrow> fault + st" where
  "taskset_WaitFor ts another s = fold_try (\<lambda>tid. WaitFor tid another) (ts_tasks ts) s"

definition taskset_WaitAll :: "task_set \<Rightarrow> task_set \<Rightarrow> st \<Rightarrow> fault + st" where
  "taskset_WaitAll ts other s = fold_try (taskset_WaitFor ts) (ts_tasks other) s"

definition taskset_AddTask :: "string \<Rightarrow> task_set \<Rightarrow> task_set" where
  "taskset_AddTask tid ts = ts\<lparr>ts_tasks := add_once (ts_tasks ts) tid\<rparr>"

definition taskset_MarkEdge :: "string \<Rightarrow> string \<Rightarrow> task_set \<Rightarrow> task_set" where
  "taskset_MarkEdge tid e ts = ts\<lparr>ts_edges := fmupd e tid (ts_edges ts)\<rparr>"

definition taskset_AddAll :: "task_set \<Rightarrow> task_set \<Rightarrow> task_set" where
  "taskset_AddAll other ts = fold taskset_AddTask (ts_tasks other) ts"

fun mark_edges :: "(string \<times> string) list \<Rightarrow> task_set \<Rightarrow> err + task_set" where
  "mark_edges [] ts = Inr ts"
| "mark_edges ((e, t) # es) ts =
     (case fmlookup (ts_edges ts) e of
        Some t' \<Rightarrow> (if t \<noteq> t' then Inl (''cannot add taskset: duplicated edge %q'', [e])
                    else mark_edges es (taskset_MarkEdge t e ts))
      | None \<Rightarrow> mark_edges es (taskset_MarkEdge t e ts))"

text \<open>\<open>edges\<close> lists the edges of the other set in the order Go ranges over them.\<close>

definition taskset_AddAllWithEdges :: "task_set \<Rightarrow> (string \<times> string) list \<Rightarrow> task_set \<Rightarrow> err + task_set" where
  "taskset_AddAllWithEdges other edges ts = mark_edges edges (taskset_AddAll other ts)"

definition taskset_JoinLane :: "task_set \<Rightarrow> int \<Rightarrow> st \<Rightarrow> fault + st" where
  "taskset_JoinLane ts lane s = fold_try (\<lambda>tid. JoinLane tid lane) (ts_tasks ts) s"

definition change_AddAll :: "string \<Rightarrow> task_set \<Rightarrow> st \<Rightarrow> fault + st" where
  "change_AddAll cid ts s = fold_try (AddTask cid) (ts_tasks ts) s"

text \<open>\<open>Task.Progress\<close> and \<open>Task.SetProgress\<close>.\<close>

definition task_Progress :: "task \<Rightarrow> string \<times> int \<times> int" where
  "task_Progress t =
     (case task_progress t of
        None \<Rightarrow> if task_Status t = DoStatus then ([], 0, 1) else ([], 1, 1)
      | Some p \<Rightarrow> p)"

definition SetProgress :: "string \<Rightarrow> string \<Rightarrow> int \<Rightarrow> int \<Rightarrow> st \<Rightarrow> fault + st" where
  "SetProgress tid label dn tot s =
     and_then (need_task s tid) (\<lambda>t.
       Inr (s\<lparr>tasks := fmupd tid (t\<lparr>task_progress := (if tot \<le> 0 \<or> tot < dn then None
                                                      else Some (label, dn, tot))\<rparr>) (tasks s),
              modified := modified s \<or> (0 < tot \<and> dn = tot)\<rparr>))"

subsection \<open>Notices after pruning\<close>

lemma prune_notices_sub:
  "prune_notices now ks (latest, stats, s) = (latest', stats', s') \<Longrightarrow>
     (\<forall>q n. fmlookup (notices s') q = Some n \<longrightarrow> fmlookup (notices s) q = Some n) \<and> changes s' = changes s \<and> tasks s' = tasks s \<and>
     last_notice_id s' = last_notice_id s"
proof (induction ks arbitrary: latest stats s)
  case (Cons k ks)
  show ?case
  proof (cases "fmlookup (notices s) k")
    case None
    with Cons show ?thesis by simp
  next
    case (Some n)
    then consider "prune_notices now ks (latest, IncludeNotice n stats, s\<lparr>notices := fmdrop k (notices s)\<rparr>) =
        (latest', stats', s')"
      | l where "prune_notices now ks (l, stats, s) = (latest', stats', s')"
      using Cons.prems by (auto split: if_split_asm)
    then show ?thesis
    proof cases
      case 1
      from Cons.IH [OF this] have IH: "\<forall>q n. fmlookup (notices s') q = Some n \<longrightarrow> fmlookup (fmdrop k (notices s)) q = Some n"
        "changes s' = changes s" "tasks s' = tasks s" "last_notice_id s' = last_notice_id s" by simp_all
      have "fmlookup (fmdrop k (notices s)) q = Some n \<longrightarrow> fmlookup (notices s) q = Some n" for q n by simp
      with IH show ?thesis by blast
    next
      case 2
      from Cons.IH [OF this] show ?thesis .
    qed
  qed
qed simp

lemma lookup_all_present:
  "set ks \<subseteq> fset (fmdom m) \<Longrightarrow> lookup_all m ks = map (\<lambda>k. the (fmlookup m k)) ks"
proof (induction ks)
  case (Cons k ks)
  then obtain v where "fmlookup m k = Some v" by (auto elim: fmdomE)
  with Cons show ?case by simp
qed simp

lemma prune_max_order:
  assumes inv: "notices_inv s" and order: "set order = fset (fmdom (notices s))"
  shows "map notice_ukey (lookup_all (notices s) order) = order"
proof -
  have "notice_ukey (the (fmlookup (notices s) k)) = k" if "k \<in> set order" for k
  proof -
    from that order obtain n where "fmlookup (notices s) k = Some n" by (auto elim: fmdomE)
    with inv show ?thesis unfolding notices_inv_def by (metis option.sel)
  qed
  then show ?thesis by (simp add: lookup_all_present order, intro map_idI) (simp add: order)
qed

lemma pruneMaxNotices_split:
  assumes "pruneMaxNotices limit order stats s = (stats', s')" and inv: "notices_inv s"
    and order: "set order = fset (fmdom (notices s))" "distinct order"
    and limit: "limit \<le> size_of_map (notices s)"
  obtains ns where "set ns = fset (fmran (notices s))" "sorted (map last_occurred ns)"
    "distinct (map notice_ukey ns)" "length ns = size_of_map (notices s)"
    "notices s' = fmdrop_set (set (map notice_ukey (take (length ns - limit) ns))) (notices s)"
    "set (map notice_ukey ns) = fset (fmdom (notices s))"
proof -
  define ns where "ns = sort_key last_occurred (lookup_all (notices s) order)"
  have names: "mset (map notice_ukey ns) = mset order"
    unfolding ns_def using arg_cong [OF prune_max_order [OF inv order(1)], of mset] by simp
  then have dist: "distinct (map notice_ukey ns)" using order(2) by (metis mset_eq_imp_distinct_iff)
  have keys: "set (map notice_ukey ns) = fset (fmdom (notices s))"
    using names order(1) by (metis set_mset_mset)
  have len: "length ns = size_of_map (notices s)"
    using distinct_card [OF dist] keys by (simp add: size_of_map_def)
  have "set ns = fset (fmran (notices s))"
    using order(1) by (auto simp: ns_def set_lookup_all fmran.rep_eq ran_def fmdomI)
  moreover have "notices s' = fmdrop_set (set (map notice_ukey (take (length ns - limit) ns))) (notices s)"
    using assms(1) len by (auto simp: pruneMaxNotices_def Let_def ns_def)
  ultimately show thesis using that [of ns] dist keys len by (simp add: ns_def)
qed

subsection \<open>The status of a change after a reload\<close>

lemma same_views_lookup:
  assumes "tview s' = tview s"
  shows "fmlookup (tasks s) d = None \<Longrightarrow> fmlookup (tasks s') d = None"
    and "fmlookup (tasks s) d = Some t \<Longrightarrow> \<exists>t'. fmlookup (tasks s') d = Some t' \<and> nolog t' = nolog t"
proof -
  have e: "map_option nolog (fmlookup (tasks s') d) = map_option nolog (fmlookup (tasks s) d)"
    using assms by (metis view_lookup(1))
  then show "fmlookup (tasks s) d = None \<Longrightarrow> fmlookup (tasks s') d = None" by simp
  from e show "fmlookup (tasks s) d = Some t \<Longrightarrow> \<exists>t'. fmlookup (tasks s') d = Some t' \<and> nolog t' = nolog t"
    by (cases "fmlookup (tasks s') d") auto
qed

lemma nolog_eqD:
  assumes "nolog t' = nolog t"
  shows "task_Status t' = task_Status t" "wait_tasks t' = wait_tasks t" "halt_tasks t' = halt_tasks t"
    "task_change t' = task_change t"
  using arg_cong [OF assms, of task_Status] arg_cong [OF assms, of wait_tasks]
    arg_cong [OF assms, of halt_tasks] arg_cong [OF assms, of task_change] by simp_all

lemma waiting_walk_cong:
  "tview s' = tview s \<Longrightarrow> fmdom (changes s') = fmdom (changes s) \<Longrightarrow>
     is_task_waiting n s' w tid deps = is_task_waiting n s w tid deps"
  "tview s' = tview s \<Longrightarrow> fmdom (changes s') = fmdom (changes s) \<Longrightarrow>
     deps_check n s' w ds b = deps_check n s w ds b"
proof (induction n s w tid deps and n s w ds b rule: is_task_waiting_deps_check.induct)
  case (2 n s w tid deps)
  show ?case
  proof (cases "fst w tid")
    case taskWaitStatusComputing
    show ?thesis
    proof (cases "fmlookup (tasks s) tid")
      case None
      with same_views_lookup(1) [OF "2.prems"(1) None] taskWaitStatusComputing show ?thesis
        by (simp add: need_task_def)
    next
      case (Some t)
      with same_views_lookup(2) [OF "2.prems"(1)] obtain t' where
        t': "fmlookup (tasks s') tid = Some t'" "nolog t' = nolog t" by blast
      have "task_Change s' t' = None \<longleftrightarrow> task_Change s t = None"
        using "2.prems"(2) nolog_eqD(4) [OF t'(2)] by (simp add: task_Change_def) (metis fmdom_notD fmdom_notI)
      with taskWaitStatusComputing Some t' show ?thesis by (auto split: option.split)
    qed
  next
    case taskWaitStatusNotComputed
    with "2.IH" [OF this "2.prems"] show ?thesis by simp
  qed simp_all
next
  case (4 n s w d ds b)
  show ?case
  proof (cases "fmlookup (tasks s) d")
    case None
    with same_views_lookup(1) [OF "4.prems"(1) None] show ?thesis by (simp add: need_task_def)
  next
    case (Some t)
    with same_views_lookup(2) [OF "4.prems"(1)] obtain t' where
      t': "fmlookup (tasks s') d = Some t'" "nolog t' = nolog t" by blast
    have n: "need_task s d = Inr t" using Some by simp
    note f = nolog_eqD [OF t'(2)]
    have walk: "and_then (is_task_waiting n s' w d xs) (\<lambda>(w', b'). if b' then deps_check n s' w' ds True else Inr (w', False)) =
        and_then (is_task_waiting n s w d xs) (\<lambda>(w', b'). if b' then deps_check n s w' ds True else Inr (w', False))"
      if "is_task_waiting n s' w d xs = is_task_waiting n s w d xs"
        "\<And>w' b'. is_task_waiting n s w d xs = Inr (w', b') \<Longrightarrow> b' \<Longrightarrow> deps_check n s' w' ds True = deps_check n s w' ds True"
      for xs
      unfolding that(1) by (intro and_then_cong refl) (auto simp: that(2))
    show ?thesis
    proof (cases "task_Status t")
      case DoStatus
      have "and_then (is_task_waiting n s' w d (wait_tasks t)) (\<lambda>(w', b'). if b' then deps_check n s' w' ds True else Inr (w', False)) =
        and_then (is_task_waiting n s w d (wait_tasks t)) (\<lambda>(w', b'). if b' then deps_check n s w' ds True else Inr (w', False))"
        by (rule walk) (use "4.IH"(2,3) [OF n DoStatus] "4.prems" in auto)
      with DoStatus Some t'(1) f show ?thesis by simp
    next
      case UndoStatus
      have "and_then (is_task_waiting n s' w d (halt_tasks t)) (\<lambda>(w', b'). if b' then deps_check n s' w' ds True else Inr (w', False)) =
        and_then (is_task_waiting n s w d (halt_tasks t)) (\<lambda>(w', b'). if b' then deps_check n s w' ds True else Inr (w', False))"
        by (rule walk) (use "4.IH"(5,6) [OF n UndoStatus] "4.prems" in auto)
      with UndoStatus Some t'(1) f show ?thesis by simp
    qed (use "4.IH"(1,4,7,8,9) [OF n _ "4.prems"] Some t'(1) f in simp_all)
  qed
qed simp_all


lemma change_waiting_loop_cong:
  assumes v: "tview s' = tview s" "fmdom (changes s') = fmdom (changes s)"
  shows "change_waiting_loop n s' w tids = change_waiting_loop n s w tids"
proof (induction tids arbitrary: w)
  case (Cons d tids)
  show ?case
  proof (cases "fmlookup (tasks s) d")
    case None
    with same_views_lookup(1) [OF v(1) None] show ?thesis by (simp add: need_task_def)
  next
    case (Some t)
    with same_views_lookup(2) [OF v(1)] obtain t' where
      t': "fmlookup (tasks s') d = Some t'" "nolog t' = nolog t" by blast
    with Some nolog_eqD [OF t'(2)] show ?thesis
      by (cases "task_Status t") (simp_all add: Cons.IH waiting_walk_cong [OF v] cong: if_cong)
  qed
qed simp

lemma computed_status_cong:
  assumes v: "tview s' = tview s" "fmdom (changes s') = fmdom (changes s)"
    and c: "chg_status c' = chg_status c" "chg_tasks c' = chg_tasks c"
  shows "computed_status s' c' = computed_status s c"
proof -
  have "size_of_map (tasks u) = size_of_map (tview u)" for u
    by (simp add: size_of_map_def tview_def)
  then have "wait_fuel s' = wait_fuel s" by (simp add: wait_fuel_def v(1))
  then have w: "isChangeWaiting s' c' = isChangeWaiting s c"
    by (simp add: isChangeWaiting_def c change_waiting_loop_cong [OF v])
  have "map_try (\<lambda>x. and_then (need_task s' x) (\<lambda>t. Inr (task_Status t))) tids =
      map_try (\<lambda>x. and_then (need_task s x) (\<lambda>t. Inr (task_Status t))) tids" for tids
  proof (induction tids)
    case (Cons d tids)
    show ?case
    proof (cases "fmlookup (tasks s) d")
      case None
      with same_views_lookup(1) [OF v(1) None] show ?thesis by (simp add: need_task_def)
    next
      case (Some t)
      with same_views_lookup(2) [OF v(1)] obtain t' where
        t': "fmlookup (tasks s') d = Some t'" "nolog t' = nolog t" by blast
      with Some nolog_eqD(1) [OF t'(2)] Cons show ?thesis by simp
    qed
  qed simp
  moreover have "map_try (\<lambda>x. and_then (need_task u x) (\<lambda>t. Inr (task_Status t))) tids =
      and_then (map_try (need_task u) tids) (\<lambda>ts. Inr (map task_Status ts))" for u tids
  proof (induction tids)
    case (Cons d tids)
    then show ?case by (cases "need_task u d"; cases "map_try (need_task u) tids") auto
  qed simp
  ultimately have "and_then (map_try (need_task s') tids) (\<lambda>ts. Inr (map task_Status ts)) =
      and_then (map_try (need_task s) tids) (\<lambda>ts. Inr (map task_Status ts) :: fault + status list)" for tids
    by metis
  note sts = this [of "chg_tasks c"]
  show ?thesis
  proof (cases "map_try (need_task s') (chg_tasks c)")
    case (Inl e)
    with sts have "map_try (need_task s) (chg_tasks c) = Inl e"
      by (cases "map_try (need_task s) (chg_tasks c)") auto
    with Inl show ?thesis by (simp add: computed_status_def c)
  next
    case (Inr ts')
    with sts obtain ts where ts: "map_try (need_task s) (chg_tasks c) = Inr ts"
      "map task_Status ts' = map task_Status ts"
      by (cases "map_try (need_task s) (chg_tasks c)") auto
    show ?thesis
      unfolding computed_status_def c w Inr ts(1) and_then_simps ts(2) ..
  qed
qed

text \<open>The loop of \<open>UnmarshalJSON\<close> that finishes the changes.\<close>

definition reloaded :: "st \<Rightarrow> string set \<Rightarrow> st \<Rightarrow> bool" where
  "reloaded s dn s' \<longleftrightarrow> tview s' = tview s \<and> cview s' = cview s \<and>
     (\<forall>cid \<in> dn. \<forall>c. fmlookup (changes s) cid = Some c \<longrightarrow>
        (\<exists>c' x lg. fmlookup (changes s') cid = Some c' \<and> computed_status s c = Inr (x, lg) \<and>
           chg_ready c' = status_Ready x)) \<and>
     (\<forall>cid c. cid \<notin> dn \<longrightarrow> fmlookup (changes s') cid = Some c \<longrightarrow> \<not> chg_ready c)"

lemma cview_dom: "cview s' = cview s \<Longrightarrow> fmdom (changes s') = fmdom (changes s)"
  by (metis cview_def fmdom_map)

lemma chg_core_eqD:
  assumes "chg_core c' = chg_core c"
  shows "chg_status c' = chg_status c" "chg_tasks c' = chg_tasks c"
  using arg_cong [OF assms, of chg_status] arg_cong [OF assms, of chg_tasks] by simp_all

lemma finishUnmarshal_step:
  assumes wf: "wf s" and r: "reloaded s dn s1" and c: "fmlookup (changes s) cid = Some c" and new: "cid \<notin> dn"
  shows "\<exists>s2. finishUnmarshal now cid s1 = Inr s2 \<and> reloaded s (insert cid dn) s2"
proof -
  from r have v: "tview s1 = tview s" "cview s1 = cview s" by (simp_all add: reloaded_def)
  from cview_eqD [OF v(2) [symmetric] c] obtain c1 where c1: "fmlookup (changes s1) cid = Some c1"
    and core: "chg_core c = chg_core c1" by blast
  have wf1: "wf s1" using shape_wf [OF view_shape [OF v]] wf by simp
  obtain s2 x where s2: "change_Status now cid s1 = Inr (s2, x)" using change_Status_ok [OF wf1 c1] by blast
  note v2 = change_Status_view [OF s2]
  from s2 c1 obtain lg where "computed_status s1 c1 = Inr (x, lg)"
    by (auto simp: change_Status_def and_then_Inr_iff)
  then have x: "computed_status s c = Inr (x, lg)"
    using computed_status_cong [OF v(1) cview_dom [OF v(2)]] chg_core_eqD [OF core] by metis
  define s3 where "s3 = (if status_Ready x then s2\<lparr>changes := fmupd cid (c1\<lparr>chg_ready := True\<rparr>) (changes s2)\<rparr> else s2)"
  have run: "finishUnmarshal now cid s1 = Inr s3"
    using s2 v2(2) c1 by (simp add: finishUnmarshal_def s3_def)
  have ts: "tview s3 = tview s" using v2(1) v(1) by (simp add: s3_def tview_def)
  have c3: "fmlookup (changes s3) k = (if k = cid then Some (c1\<lparr>chg_ready := status_Ready x\<rparr>) else fmlookup (changes s1) k)" for k
  proof -
    have "\<not> chg_ready c1" using r new c1 by (auto simp: reloaded_def)
    then show ?thesis using v2(2) c1 by (auto simp: s3_def)
  qed
  have cs: "cview s3 = cview s"
  proof (rule fmap_ext)
    fix k
    have "map_option chg_core (fmlookup (changes s3) k) = map_option chg_core (fmlookup (changes s1) k)"
      unfolding c3 using c1 by (simp add: chg_core_def)
    also have "\<dots> = fmlookup (cview s) k" by (metis v(2) view_lookup(2))
    finally show "fmlookup (cview s3) k = fmlookup (cview s) k" by (simp only: view_lookup(2))
  qed
  have "reloaded s (insert cid dn) s3"
    unfolding reloaded_def
  proof (intro conjI ballI allI impI)
    fix k d assume k: "k \<in> insert cid dn" and d: "fmlookup (changes s) k = Some d"
    show "\<exists>c' x lg. fmlookup (changes s3) k = Some c' \<and> computed_status s d = Inr (x, lg) \<and> chg_ready c' = status_Ready x"
    proof (cases "k = cid")
      case True
      with d c x show ?thesis by (simp add: c3)
    next
      case False
      with k d r show ?thesis by (simp add: c3 reloaded_def)
    qed
  qed (use ts cs r c3 in \<open>auto simp: reloaded_def split: if_split_asm\<close>)
  with run show ?thesis by blast
qed

lemma ReadState_loop:
  assumes "wf s" "reloaded s dn s1" "distinct cids" "set cids \<inter> dn = {}" "set cids \<subseteq> fset (fmdom (changes s))"
  shows "\<exists>s2. fold_try (finishUnmarshal now) cids s1 = Inr s2 \<and> reloaded s (dn \<union> set cids) s2"
  using assms
proof (induction cids arbitrary: s1 dn)
  case (Cons cid cids)
  from Cons.prems(5) obtain c where "fmlookup (changes s) cid = Some c" by (auto elim: fmdomE)
  from finishUnmarshal_step [OF Cons.prems(1,2) this] Cons.prems(4) obtain s2 where
    s2: "finishUnmarshal now cid s1 = Inr s2" "reloaded s (insert cid dn) s2" by auto
  from Cons.IH [OF Cons.prems(1) s2(2)] Cons.prems s2(1) show ?case by (auto simp: insert_commute)
qed simp


subsection \<open>Properties\<close>

text \<open>
  pruning by number keeps the most recent notices: when there are more notices than the limit,
  \<open>pruneMaxNotices\<close> leaves exactly the limit, changes no notice it leaves, and every notice it
  removes last occurred no later than every one it keeps, whatever the order of the map.
\<close>

lemma pruneMaxNotices_keeps_recent:
  assumes "pruneMaxNotices limit order stats s = (stats', s')" "notices_inv s"
    "set order = fset (fmdom (notices s))" "distinct order" "limit \<le> size_of_map (notices s)"
  shows "size_of_map (notices s') = limit \<and>
    (\<forall>k n. fmlookup (notices s') k = Some n \<longrightarrow> fmlookup (notices s) k = Some n \<and>
       (\<forall>k' n'. fmlookup (notices s) k' = Some n' \<longrightarrow> fmlookup (notices s') k' = None \<longrightarrow>
          last_occurred n' \<le> last_occurred n))"
proof -
  from pruneMaxNotices_split [OF assms] obtain ns where ran: "set ns = fset (fmran (notices s))"
    and srt: "sorted (map last_occurred ns)" and dist: "distinct (map notice_ukey ns)"
    and len: "length ns = size_of_map (notices s)"
    and m: "notices s' = fmdrop_set (set (map notice_ukey (take (length ns - limit) ns))) (notices s)"
    and keys: "set (map notice_ukey ns) = fset (fmdom (notices s))" .
  define d where "d = length ns - limit"
  have key: "k = notice_ukey n" if "fmlookup (notices s) k = Some n" for k n
    using assms(2) that unfolding notices_inv_def by blast
  have look: "fmlookup (notices s') k = (if k \<in> set (map notice_ukey (take d ns)) then None else fmlookup (notices s) k)" for k
    unfolding m d_def by (simp add: fmlookup_drop_set)
  have dom: "fset (fmdom (notices s')) = fset (fmdom (notices s)) - set (map notice_ukey (take d ns))"
  proof -
    have "k |\<in>| fmdom (notices s') \<longleftrightarrow> k |\<in>| fmdom (notices s) \<and> k \<notin> set (map notice_ukey (take d ns))" for k
      using look [of k] by (metis (no_types, lifting) fmdom_notD fmdom_notI option.distinct(1))
    then show ?thesis by blast
  qed
  have "set (map notice_ukey (take d ns)) \<subseteq> fset (fmdom (notices s))"
    using keys by (auto dest: in_set_takeD)
  moreover have "card (set (map notice_ukey (take d ns))) = d"
    using distinct_card [of "map notice_ukey (take d ns)"] dist by (simp add: take_map [symmetric] d_def)
  ultimately have "size_of_map (notices s') = size_of_map (notices s) - d"
    by (simp only: size_of_map_def dom card_Diff_subset finite_set)
  then have size: "size_of_map (notices s') = limit" using len assms(5) by (simp add: d_def)
  moreover have "last_occurred n' \<le> last_occurred n"
    if n: "fmlookup (notices s') k = Some n" and n': "fmlookup (notices s) k' = Some n'"
      and gone: "fmlookup (notices s') k' = None" for k n k' n'
  proof -
    from gone n' have "k' \<in> set (map notice_ukey (take d ns))" by (simp add: look split: if_split_asm)
    with key [OF n'] dist ran n' have "n' \<in> set (take d ns)"
    proof -
      from \<open>k' \<in> _\<close> obtain u where u: "u \<in> set (take d ns)" "notice_ukey u = k'" by auto
      moreover have "n' \<in> set ns" using ran n' by (auto intro: fmranI)
      moreover have "u \<in> set ns" using u(1) by (rule in_set_takeD)
      ultimately have "u = n'" using dist key [OF n'] by (auto simp: distinct_map dest: inj_onD)
      with u(1) show ?thesis by simp
    qed
    then obtain i where i: "i < d" "i < length ns" "ns ! i = n'" by (auto simp: in_set_conv_nth)
    from n have k: "fmlookup (notices s) k = Some n" "k \<notin> set (map notice_ukey (take d ns))"
      by (auto simp: look split: if_split_asm)
    have "n \<in> set ns" using ran k(1) by (auto intro: fmranI)
    then obtain j where j: "j < length ns" "ns ! j = n" by (auto simp: in_set_conv_nth)
    have "\<not> j < d"
    proof
      assume "j < d"
      with j have "n \<in> set (take d ns)" by (auto simp: in_set_conv_nth intro!: exI [of _ j])
      with k(2) key [OF k(1)] show False by auto
    qed
    with i j srt show ?thesis using sorted_nth_mono [OF srt, of i j] by simp
  qed
  moreover have "fmlookup (notices s) k = Some n" if "fmlookup (notices s') k = Some n" for k n
    using that by (simp add: look split: if_split_asm)
  ultimately show ?thesis by blast
qed

definition sample_notice :: "nat \<Rightarrow> string \<Rightarrow> time \<Rightarrow> notice" where
  "sample_notice i k w = notice_first w i None WarningNotice k None"

definition sample_two_notices :: st where
  "sample_two_notices = empty_state\<lparr>last_notice_id := 2, latest_warning_time := 8,
     notices := fmap_of_list
       [(unique_key None WarningNotice ''disk'', sample_notice 1 ''disk'' 8),
        (unique_key None WarningNotice ''ram'', sample_notice 2 ''ram'' 3)]\<rparr>"

definition sample_two_keys :: "notice_key list" where
  "sample_two_keys = [unique_key None WarningNotice ''disk'', unique_key None WarningNotice ''ram'']"

lemma sample_two_inv: "notices_inv sample_two_notices"
proof -
  have look: "fmlookup (notices sample_two_notices) k = Some n \<longleftrightarrow>
      k = unique_key None WarningNotice ''disk'' \<and> n = sample_notice 1 ''disk'' 8 \<or>
      k = unique_key None WarningNotice ''ram'' \<and> n = sample_notice 2 ''ram'' 3" for k n
    by (auto simp: sample_two_notices_def fmlookup_of_list unique_key_inj split: if_split_asm)
  show ?thesis
    unfolding notices_inv_def look
    by (auto simp: sample_notice_def notice_ukey_def notice_type_Valid_def sample_two_notices_def
        unique_key_inj simp del: split_paired_All)
qed

text \<open>
  Pruning by number may leave a stale latest warning time: it is recomputed before
  \<open>pruneMaxNotices\<close> runs, so that after all warnings are gone it still is not the zero time that
  stands for no warnings.
\<close>

lemma Prune_stale_warning_time:
  "case Prune \<lparr>start_of_operation = 0, prune_limit = 0, abort_limit = 0, max_ready_changes = 0,
               pending_by_attr = [], lane_order = (\<lambda>x. x)\<rparr> 9 0 [] sample_two_keys sample_two_notices of
     Inl e \<Rightarrow> False
   | Inr (stats, s) \<Rightarrow> notices s = fmempty \<and> latest_warning_time s = 8"
  by code_simp



end
