(* ===== verification/PlanTypes.thy ===== *)
theory PlanTypes
  imports Prelude "HOL-Library.AList" Complex_Main
begin

text \<open>
  The data of a plan (\<open>internals/plan/plan.go\<close>, \<open>types.go\<close>) and its \<open>Copy\<close> and \<open>Merge\<close> methods.
  A Go map whose iteration order can be observed is an association list in the order of the
  iteration; other maps are finite maps.  The locale states what \<open>CombineLayers\<close> relies on in the
  three kinds of objects it combines.
\<close>

type_synonym 'a go_map = "(string \<times> 'a) list"

record optional_duration =
  od_value :: duration
  od_is_set :: bool

record optional_float =
  of_value :: rat
  of_is_set :: bool

record service =
  svc_name :: string
  svc_summary :: string
  svc_description :: string
  svc_startup :: string
  svc_override :: string
  svc_command :: string
  svc_after :: "string list"
  svc_before :: "string list"
  svc_requires :: "string list"
  svc_workload :: string
  svc_environment :: "(string, string) fmap"
  svc_user_id :: "int option"
  svc_user :: string
  svc_group_id :: "int option"
  svc_group :: string
  svc_working_dir :: string
  svc_on_success :: string
  svc_on_failure :: string
  svc_on_check_failure :: "(string, string) fmap"
  svc_backoff_delay :: optional_duration
  svc_backoff_factor :: optional_float
  svc_backoff_limit :: optional_duration
  svc_kill_delay :: optional_duration

record http_check =
  http_url :: string
  http_headers :: "(string, string) fmap"

record tcp_check =
  tcp_port :: int
  tcp_host :: string

record exec_check =
  exec_command :: string
  exec_service_context :: string
  exec_environment :: "(string, string) fmap"
  exec_user_id :: "int option"
  exec_user :: string
  exec_group_id :: "int option"
  exec_group :: string
  exec_working_dir :: string

record check =
  chk_name :: string
  chk_override :: string
  chk_level :: string
  chk_startup :: string
  chk_period :: optional_duration
  chk_timeout :: optional_duration
  chk_threshold :: int
  chk_http :: "http_check option"
  chk_tcp :: "tcp_check option"
  chk_exec :: "exec_check option"

record log_target =
  lt_name :: string
  lt_type :: string
  lt_location :: string
  lt_services :: "string list"
  lt_override :: string
  lt_labels :: "(string, string) fmap"

text \<open>A layer: the objects may be nil, which \<open>Validate\<close> rejects.\<close>

record layer =
  lay_order :: int
  lay_label :: string
  lay_summary :: string
  lay_description :: string
  lay_services :: "service option go_map"
  lay_checks :: "check option go_map"
  lay_log_targets :: "log_target option go_map"

record plan =
  plan_layers :: "layer list"
  plan_services :: "service go_map"
  plan_checks :: "check go_map"
  plan_log_targets :: "log_target go_map"

definition NewPlan :: plan where
  "NewPlan = \<lparr>plan_layers = [], plan_services = [], plan_checks = [], plan_log_targets = []\<rparr>"

definition MergeOverride :: string where "MergeOverride = ''merge''"
definition ReplaceOverride :: string where "ReplaceOverride = ''replace''"

subsection \<open>Merging\<close>

text \<open>The three ways a field is merged: a later set value wins, lists are joined, maps are united.\<close>

definition or_str :: "string \<Rightarrow> string \<Rightarrow> string" where
  "or_str old new = (if new \<noteq> [] then new else old)"

definition or_opt :: "'a option \<Rightarrow> 'a option \<Rightarrow> 'a option" where
  "or_opt old new = (case new of None \<Rightarrow> old | Some v \<Rightarrow> new)"

definition or_dur :: "optional_duration \<Rightarrow> optional_duration \<Rightarrow> optional_duration" where
  "or_dur old new = (if od_is_set new then new else old)"

definition or_float :: "optional_float \<Rightarrow> optional_float \<Rightarrow> optional_float" where
  "or_float old new = (if of_is_set new then new else old)"

definition or_int :: "int \<Rightarrow> int \<Rightarrow> int" where
  "or_int old new = (if new \<noteq> 0 then new else old)"

lemma or_assoc [simp]:
  "or_str (or_str a b) c = or_str a (or_str b c)" "or_opt (or_opt x y) z = or_opt x (or_opt y z)"
  "or_dur (or_dur d e) f = or_dur d (or_dur e f)" "or_float (or_float g h) i = or_float g (or_float h i)"
  "or_int (or_int j k) l = or_int j (or_int k l)"
  by (simp_all add: or_str_def or_opt_def or_dur_def or_float_def or_int_def split: option.split)

definition service_Merge :: "service \<Rightarrow> service \<Rightarrow> service" where
  "service_Merge s other =
     s\<lparr>svc_summary := or_str (svc_summary s) (svc_summary other),
       svc_description := or_str (svc_description s) (svc_description other),
       svc_startup := or_str (svc_startup s) (svc_startup other),
       svc_command := or_str (svc_command s) (svc_command other),
       svc_kill_delay := or_dur (svc_kill_delay s) (svc_kill_delay other),
       svc_user_id := or_opt (svc_user_id s) (svc_user_id other),
       svc_user := or_str (svc_user s) (svc_user other),
       svc_group_id := or_opt (svc_group_id s) (svc_group_id other),
       svc_group := or_str (svc_group s) (svc_group other),
       svc_working_dir := or_str (svc_working_dir s) (svc_working_dir other),
       svc_after := svc_after s @ svc_after other,
       svc_before := svc_before s @ svc_before other,
       svc_requires := svc_requires s @ svc_requires other,
       svc_workload := or_str (svc_workload s) (svc_workload other),
       svc_environment := svc_environment s ++\<^sub>f svc_environment other,
       svc_on_success := or_str (svc_on_success s) (svc_on_success other),
       svc_on_failure := or_str (svc_on_failure s) (svc_on_failure other),
       svc_on_check_failure := svc_on_check_failure s ++\<^sub>f svc_on_check_failure other,
       svc_backoff_delay := or_dur (svc_backoff_delay s) (svc_backoff_delay other),
       svc_backoff_factor := or_float (svc_backoff_factor s) (svc_backoff_factor other),
       svc_backoff_limit := or_dur (svc_backoff_limit s) (svc_backoff_limit other)\<rparr>"

definition http_Merge :: "http_check \<Rightarrow> http_check \<Rightarrow> http_check" where
  "http_Merge c other =
     c\<lparr>http_url := or_str (http_url c) (http_url other),
       http_headers := http_headers c ++\<^sub>f http_headers other\<rparr>"

definition tcp_Merge :: "tcp_check \<Rightarrow> tcp_check \<Rightarrow> tcp_check" where
  "tcp_Merge c other =
     c\<lparr>tcp_port := or_int (tcp_port c) (tcp_port other), tcp_host := or_str (tcp_host c) (tcp_host other)\<rparr>"

definition exec_Merge :: "exec_check \<Rightarrow> exec_check \<Rightarrow> exec_check" where
  "exec_Merge c other =
     c\<lparr>exec_command := or_str (exec_command c) (exec_command other),
       exec_service_context := or_str (exec_service_context c) (exec_service_context other),
       exec_environment := exec_environment c ++\<^sub>f exec_environment other,
       exec_user_id := or_opt (exec_user_id c) (exec_user_id other),
       exec_user := or_str (exec_user c) (exec_user other),
       exec_group_id := or_opt (exec_group_id c) (exec_group_id other),
       exec_group := or_str (exec_group c) (exec_group other),
       exec_working_dir := or_str (exec_working_dir c) (exec_working_dir other)\<rparr>"

definition empty_http :: http_check where "empty_http = \<lparr>http_url = [], http_headers = fmempty\<rparr>"
definition empty_tcp :: tcp_check where "empty_tcp = \<lparr>tcp_port = 0, tcp_host = []\<rparr>"
definition empty_exec :: exec_check where
  "empty_exec = \<lparr>exec_command = [], exec_service_context = [], exec_environment = fmempty,
     exec_user_id = None, exec_user = [], exec_group_id = None, exec_group = [], exec_working_dir = []\<rparr>"

definition merge_into :: "('a \<Rightarrow> 'a \<Rightarrow> 'a) \<Rightarrow> 'a \<Rightarrow> 'a option \<Rightarrow> 'a option \<Rightarrow> 'a option" where
  "merge_into merge zero old new =
     (case new of
        None \<Rightarrow> old
      | Some n \<Rightarrow> Some (merge (case old of None \<Rightarrow> zero | Some x \<Rightarrow> x) n))"

definition check_Merge :: "check \<Rightarrow> check \<Rightarrow> check" where
  "check_Merge c other =
     c\<lparr>chk_level := or_str (chk_level c) (chk_level other),
       chk_startup := or_str (chk_startup c) (chk_startup other),
       chk_period := or_dur (chk_period c) (chk_period other),
       chk_timeout := or_dur (chk_timeout c) (chk_timeout other),
       chk_threshold := or_int (chk_threshold c) (chk_threshold other),
       chk_http := merge_into http_Merge empty_http (chk_http c) (chk_http other),
       chk_tcp := merge_into tcp_Merge empty_tcp (chk_tcp c) (chk_tcp other),
       chk_exec := merge_into exec_Merge empty_exec (chk_exec c) (chk_exec other)\<rparr>"

definition log_target_Merge :: "log_target \<Rightarrow> log_target \<Rightarrow> log_target" where
  "log_target_Merge t other =
     t\<lparr>lt_type := or_str (lt_type t) (lt_type other),
       lt_location := or_str (lt_location t) (lt_location other),
       lt_services := lt_services t @ lt_services other,
       lt_labels := lt_labels t ++\<^sub>f lt_labels other\<rparr>"

lemma or_str_empty [simp]: "or_str [] b = b" "or_str a [] = a"
  by (simp_all add: or_str_def)

lemma or_opt_None [simp]: "or_opt None b = b" "or_opt a None = a"
  by (simp_all add: or_opt_def split: option.split)

lemma or_int_zero [simp]: "or_int 0 b = b" "or_int a 0 = a"
  by (simp_all add: or_int_def)

lemma service_Merge_assoc:
  "service_Merge (service_Merge a b) c = service_Merge a (service_Merge b c)"
  by (simp add: service_Merge_def)

lemma http_Merge_laws:
  "http_Merge (http_Merge a b) c = http_Merge a (http_Merge b c)" "http_Merge empty_http a = a"
  by (simp_all add: http_Merge_def empty_http_def)

lemma tcp_Merge_laws:
  "tcp_Merge (tcp_Merge a b) c = tcp_Merge a (tcp_Merge b c)" "tcp_Merge empty_tcp a = a"
  by (simp_all add: tcp_Merge_def empty_tcp_def)

lemma exec_Merge_laws:
  "exec_Merge (exec_Merge a b) c = exec_Merge a (exec_Merge b c)" "exec_Merge empty_exec a = a"
  by (simp_all add: exec_Merge_def empty_exec_def)

lemma merge_into_assoc:
  assumes "\<And>a b c. merge (merge a b) c = merge a (merge b c)" "\<And>a. merge zero a = a"
  shows "merge_into merge zero (merge_into merge zero x y) z = merge_into merge zero x (merge_into merge zero y z)"
  by (simp add: merge_into_def assms split: option.split)

lemma check_Merge_assoc: "check_Merge (check_Merge a b) c = check_Merge a (check_Merge b c)"
  by (simp add: check_Merge_def merge_into_assoc http_Merge_laws tcp_Merge_laws exec_Merge_laws)

lemma log_target_Merge_assoc:
  "log_target_Merge (log_target_Merge a b) c = log_target_Merge a (log_target_Merge b c)"
  by (simp add: log_target_Merge_def)

end
