(* ===== verification/TarjanSort.thy ===== *)
theory TarjanSort
  imports PlanTypes "HOL-Library.List_Lexorder" "HOL-Library.Char_ord"
begin

text \<open>
  \<open>tarjan.go\<close>: \<open>strongConnect\<close> with its node, index and stack data, and \<open>tarjanSort\<close>.  A node is its
  low link and whether it is on the stack; the stack is kept with its top first.  Each call of
  \<open>strongConnect\<close> indexes one more id, so fuel for the number of ids is enough (\<open>strong_connect_ok\<close>).
  The lemmas show that every id is output once, and that an id that is output alone comes after
  all of its successors.
\<close>

record tarjan =
  t_nodes :: "(nat \<times> bool) list"
  t_stack :: "string list"
  t_index :: "(string, nat) fmap"
  t_output :: "string list list"

type_synonym successors = "(string, string list) fmap"

definition succs :: "successors \<Rightarrow> string \<Rightarrow> string list" where
  "succs g k = (case fmlookup g k of None \<Rightarrow> [] | Some l \<Rightarrow> l)"

definition low_link :: "tarjan \<Rightarrow> nat \<Rightarrow> nat" where
  "low_link d i = fst (t_nodes d ! i)"

definition is_stacked :: "tarjan \<Rightarrow> nat \<Rightarrow> bool" where
  "is_stacked d i = snd (t_nodes d ! i)"

definition lower_link :: "nat \<Rightarrow> nat \<Rightarrow> tarjan \<Rightarrow> tarjan" where
  "lower_link i l d =
     (if l < low_link d i then d\<lparr>t_nodes := (t_nodes d)[i := (l, is_stacked d i)]\<rparr> else d)"

definition push_node :: "string \<Rightarrow> tarjan \<Rightarrow> tarjan" where
  "push_node k d =
     (let i = length (t_nodes d) in
      d\<lparr>t_index := fmupd k i (t_index d), t_stack := k # t_stack d, t_nodes := t_nodes d @ [(i, True)]\<rparr>)"

definition index_of :: "tarjan \<Rightarrow> string \<Rightarrow> nat" where
  "index_of d k = (case fmlookup (t_index d) k of None \<Rightarrow> 0 | Some i \<Rightarrow> i)"

definition unstack :: "string \<Rightarrow> tarjan \<Rightarrow> tarjan" where
  "unstack k d =
     d\<lparr>t_nodes := (t_nodes d)[index_of d k := (low_link d (index_of d k), False)]\<rparr>"

definition pop_component :: "nat \<Rightarrow> tarjan \<Rightarrow> tarjan" where
  "pop_component i d =
     (let above = takeWhile (\<lambda>k. index_of d k \<noteq> i) (t_stack d);
          rest = dropWhile (\<lambda>k. index_of d k \<noteq> i) (t_stack d);
          scc = above @ take 1 rest
      in (fold unstack scc d)\<lparr>t_stack := drop 1 rest, t_output := t_output d @ [scc]\<rparr>)"

function strong_connect :: "nat \<Rightarrow> successors \<Rightarrow> string \<Rightarrow> tarjan \<Rightarrow> tarjan option"
  and succ_loop :: "nat \<Rightarrow> successors \<Rightarrow> nat \<Rightarrow> string list \<Rightarrow> tarjan \<Rightarrow> tarjan option" where
  "strong_connect 0 g k d = None"
| "strong_connect (Suc n) g k d =
     (let i = length (t_nodes d) in
      case succ_loop n g i (succs g k) (push_node k d) of
        None \<Rightarrow> None
      | Some d' \<Rightarrow> Some (if low_link d' i = i then pop_component i d' else d'))"
| "succ_loop n g i [] d = Some d"
| "succ_loop n g i (s # ss) d =
     (case fmlookup (t_index d) s of
        None \<Rightarrow>
          (case strong_connect n g s d of
             None \<Rightarrow> None
           | Some d' \<Rightarrow> succ_loop n g i ss (lower_link i (low_link d' (index_of d' s)) d'))
      | Some j \<Rightarrow>
          if is_stacked d j then succ_loop n g i ss (lower_link i j d) else succ_loop n g i ss d)"
  by pat_completeness auto
termination
  by (relation "measures [\<lambda>x. case x of Inl (n, _) \<Rightarrow> 2 * n | Inr (n, _) \<Rightarrow> 2 * n + 1,
        \<lambda>x. case x of Inl _ \<Rightarrow> 0 | Inr (_, _, _, ss, _) \<Rightarrow> length ss]") auto

definition tarjan_start :: tarjan where
  "tarjan_start = \<lparr>t_nodes = [], t_stack = [], t_index = fmempty, t_output = []\<rparr>"

fun connect_all :: "nat \<Rightarrow> successors \<Rightarrow> string list \<Rightarrow> tarjan \<Rightarrow> tarjan option" where
  "connect_all n g [] d = Some d"
| "connect_all n g (k # ks) d =
     (if fmlookup (t_index d) k = None
      then (case strong_connect n g k d of None \<Rightarrow> None | Some d' \<Rightarrow> connect_all n g ks d')
      else connect_all n g ks d)"

definition tarjan_ids :: "successors \<Rightarrow> string list" where
  "tarjan_ids g = sorted_list_of_fset (fmdom g)"

definition tarjan_fuel :: "successors \<Rightarrow> nat" where
  "tarjan_fuel g = length (tarjan_ids g) + length (concat (map (succs g) (tarjan_ids g)))"

definition tarjanSort :: "successors \<Rightarrow> string list list option" where
  "tarjanSort g =
     (case connect_all (tarjan_fuel g) g (tarjan_ids g) tarjan_start of
        None \<Rightarrow> None
      | Some d \<Rightarrow> Some (map (\<lambda>c. if 1 < length c then sort c else c) (t_output d)))"

subsection \<open>The invariant\<close>

definition output_ordered :: "successors \<Rightarrow> string list list \<Rightarrow> bool" where
  "output_ordered g out \<longleftrightarrow>
     (\<forall>pre k post. out = pre @ [k] # post \<longrightarrow> (\<forall>s \<in> set (succs g k). s \<noteq> k \<longrightarrow> s \<in> set (concat pre)))"

definition tarjan_inv :: "successors \<Rightarrow> string set \<Rightarrow> tarjan \<Rightarrow> bool" where
  "tarjan_inv g U d \<longleftrightarrow>
     fset (fmdom (t_index d)) \<subseteq> U \<and>
     (\<forall>k i. fmlookup (t_index d) k = Some i \<longrightarrow> i < length (t_nodes d)) \<and>
     (\<forall>k k' i. fmlookup (t_index d) k = Some i \<longrightarrow> fmlookup (t_index d) k' = Some i \<longrightarrow> k = k') \<and>
     (\<forall>k i. fmlookup (t_index d) k = Some i \<longrightarrow> low_link d i \<le> i) \<and>
     (\<forall>k i. fmlookup (t_index d) k = Some i \<longrightarrow> (is_stacked d i \<longleftrightarrow> k \<in> set (t_stack d))) \<and>
     set (t_stack d) \<subseteq> fset (fmdom (t_index d)) \<and>
     sorted_wrt (\<lambda>a b. index_of d b < index_of d a) (t_stack d) \<and>
     (\<forall>k i. fmlookup (t_index d) k = Some i \<longrightarrow> k \<in> set (t_stack d) \<longrightarrow>
        index_of d (last (t_stack d)) \<le> low_link d i) \<and>
     distinct (concat (t_output d)) \<and>
     set (concat (t_output d)) = fset (fmdom (t_index d)) - set (t_stack d) \<and>
     [] \<notin> set (t_output d) \<and>
     output_ordered g (t_output d)"

lemma tarjan_invD:
  assumes "tarjan_inv g U d"
  shows "fset (fmdom (t_index d)) \<subseteq> U"
    and "\<And>k i. fmlookup (t_index d) k = Some i \<Longrightarrow> i < length (t_nodes d)"
    and "\<And>k k' i. fmlookup (t_index d) k = Some i \<Longrightarrow> fmlookup (t_index d) k' = Some i \<Longrightarrow> k = k'"
    and "\<And>k i. fmlookup (t_index d) k = Some i \<Longrightarrow> low_link d i \<le> i"
    and "\<And>k i. fmlookup (t_index d) k = Some i \<Longrightarrow> is_stacked d i \<longleftrightarrow> k \<in> set (t_stack d)"
    and "set (t_stack d) \<subseteq> fset (fmdom (t_index d))"
    and "sorted_wrt (\<lambda>a b. index_of d b < index_of d a) (t_stack d)"
    and "\<And>k i. fmlookup (t_index d) k = Some i \<Longrightarrow> k \<in> set (t_stack d) \<Longrightarrow>
      index_of d (last (t_stack d)) \<le> low_link d i"
    and "distinct (concat (t_output d))"
    and "set (concat (t_output d)) = fset (fmdom (t_index d)) - set (t_stack d)"
    and "[] \<notin> set (t_output d)"
    and "output_ordered g (t_output d)"
  using assms unfolding tarjan_inv_def by blast+

lemma tarjan_invI:
  assumes "fset (fmdom (t_index d)) \<subseteq> U"
    and "\<And>k i. fmlookup (t_index d) k = Some i \<Longrightarrow> i < length (t_nodes d)"
    and "\<And>k k' i. fmlookup (t_index d) k = Some i \<Longrightarrow> fmlookup (t_index d) k' = Some i \<Longrightarrow> k = k'"
    and "\<And>k i. fmlookup (t_index d) k = Some i \<Longrightarrow> low_link d i \<le> i"
    and "\<And>k i. fmlookup (t_index d) k = Some i \<Longrightarrow> is_stacked d i \<longleftrightarrow> k \<in> set (t_stack d)"
    and "set (t_stack d) \<subseteq> fset (fmdom (t_index d))"
    and "sorted_wrt (\<lambda>a b. index_of d b < index_of d a) (t_stack d)"
    and "\<And>k i. fmlookup (t_index d) k = Some i \<Longrightarrow> k \<in> set (t_stack d) \<Longrightarrow>
      index_of d (last (t_stack d)) \<le> low_link d i"
    and "distinct (concat (t_output d))"
    and "set (concat (t_output d)) = fset (fmdom (t_index d)) - set (t_stack d)"
    and "[] \<notin> set (t_output d)"
    and "output_ordered g (t_output d)"
  shows "tarjan_inv g U d"
  unfolding tarjan_inv_def using assms by blast

lemma lower_link_simps [simp]:
  "t_stack (lower_link i l d) = t_stack d" "t_index (lower_link i l d) = t_index d"
  "t_output (lower_link i l d) = t_output d" "length (t_nodes (lower_link i l d)) = length (t_nodes d)"
  "index_of (lower_link i l d) k = index_of d k"
  by (simp_all add: lower_link_def index_of_def)

lemma lower_link_node:
  "low_link (lower_link i l d) j = (if j = i \<and> i < length (t_nodes d) \<and> l < low_link d i then l else low_link d j)"
  "is_stacked (lower_link i l d) j = is_stacked d j"
  unfolding low_link_def lower_link_def is_stacked_def
  by (cases "i < length (t_nodes d)"; auto simp: nth_list_update list_update_beyond)+

lemma index_of_Some: "fmlookup (t_index d) k = Some i \<Longrightarrow> index_of d k = i"
  by (simp add: index_of_def)

lemma lower_link_inv:
  assumes "tarjan_inv g U d" "t_stack d \<noteq> []" "index_of d (last (t_stack d)) \<le> l"
  shows "tarjan_inv g U (lower_link i l d)"
  unfolding tarjan_inv_def
  using tarjan_invD [OF assms(1)] assms(2,3)
  by (auto simp: lower_link_node) (meson less_imp_le_nat less_le_trans)


text \<open>What a call leaves of the data it found; \<open>i\<close> is the one node whose low link may change.\<close>

definition extends :: "nat option \<Rightarrow> tarjan \<Rightarrow> tarjan \<Rightarrow> bool" where
  "extends own d d' \<longleftrightarrow>
     length (t_nodes d) \<le> length (t_nodes d') \<and>
     (\<forall>j < length (t_nodes d). is_stacked d' j = is_stacked d j \<and> low_link d' j \<le> low_link d j \<and>
        (own \<noteq> Some j \<longrightarrow> low_link d' j = low_link d j)) \<and>
     (\<forall>k j. fmlookup (t_index d) k = Some j \<longrightarrow> fmlookup (t_index d') k = Some j) \<and>
     (\<exists>new. t_stack d' = new @ t_stack d) \<and>
     (\<exists>outs. t_output d' = t_output d @ outs)"

lemma extends_refl [simp]: "extends own d d"
  by (simp add: extends_def)

lemma extends_trans:
  assumes "extends own d d1" "extends own d1 d2"
  shows "extends own d d2"
proof -
  from assms obtain n1 n2 o1 o2 where "t_stack d1 = n1 @ t_stack d" "t_stack d2 = n2 @ t_stack d1"
    "t_output d1 = t_output d @ o1" "t_output d2 = t_output d1 @ o2"
    by (auto simp: extends_def)
  then have "t_stack d2 = (n2 @ n1) @ t_stack d" "t_output d2 = t_output d @ (o1 @ o2)" by simp_all
  with assms show ?thesis
    unfolding extends_def by (smt (verit) le_trans less_le_trans)
qed

lemma extends_lower: "extends (Some i) d (lower_link i l d)"
  by (auto simp: extends_def lower_link_node)

lemma extends_weaken: "extends None d d' \<Longrightarrow> extends own d d'"
  by (auto simp: extends_def)

definition succ_done :: "nat \<Rightarrow> tarjan \<Rightarrow> string \<Rightarrow> bool" where
  "succ_done i d s \<longleftrightarrow> (\<exists>j. fmlookup (t_index d) s = Some j \<and> (is_stacked d j \<longrightarrow> low_link d i \<le> j))"

lemma succ_done_extends:
  assumes "succ_done i d s" "extends (Some i) d d'" "tarjan_inv g U d" "i < length (t_nodes d)"
  shows "succ_done i d' s"
proof -
  from assms(1) obtain j where j: "fmlookup (t_index d) s = Some j" "is_stacked d j \<longrightarrow> low_link d i \<le> j"
    by (auto simp: succ_done_def)
  from tarjan_invD(2) [OF assms(3) j(1)] have "j < length (t_nodes d)" .
  with assms(2,4) j show ?thesis unfolding succ_done_def extends_def by (meson le_trans)
qed

lemma push_node_simps [simp]:
  "t_stack (push_node k d) = k # t_stack d" "t_output (push_node k d) = t_output d"
  "t_index (push_node k d) = fmupd k (length (t_nodes d)) (t_index d)"
  "length (t_nodes (push_node k d)) = Suc (length (t_nodes d))"
  by (simp_all add: push_node_def Let_def)

lemma push_node_node:
  "j < length (t_nodes d) \<Longrightarrow> low_link (push_node k d) j = low_link d j"
  "j < length (t_nodes d) \<Longrightarrow> is_stacked (push_node k d) j = is_stacked d j"
  "low_link (push_node k d) (length (t_nodes d)) = length (t_nodes d)"
  "is_stacked (push_node k d) (length (t_nodes d))"
  by (simp_all add: push_node_def low_link_def is_stacked_def nth_append Let_def)

lemma push_node_extends:
  "fmlookup (t_index d) k = None \<Longrightarrow> extends None d (push_node k d)"
  by (auto simp: extends_def push_node_node)

lemma push_node_index:
  "x \<noteq> k \<Longrightarrow> index_of (push_node k d) x = index_of d x" "index_of (push_node k d) k = length (t_nodes d)"
  by (simp_all add: index_of_def)

lemma stack_index_less:
  assumes "tarjan_inv g U d" "x \<in> set (t_stack d)"
  shows "\<exists>j. fmlookup (t_index d) x = Some j \<and> index_of d x = j \<and> j < length (t_nodes d)"
proof -
  from tarjan_invD(6) [OF assms(1)] assms(2) obtain j where "fmlookup (t_index d) x = Some j"
    by (auto elim: fmdomE)
  with tarjan_invD(2) [OF assms(1) this] show ?thesis by (simp add: index_of_Some)
qed

lemma push_node_inv:
  assumes inv: "tarjan_inv g U d" and new: "fmlookup (t_index d) k = None" and "k \<in> U"
  shows "tarjan_inv g U (push_node k d)"
proof -
  note D = tarjan_invD [OF inv]
  let ?d = "push_node k d"
  have kst: "k \<notin> set (t_stack d)" using D(6) new by (auto dest: fmdom_notI)
  have st: "index_of ?d x = index_of d x" if "x \<in> set (t_stack d)" for x
    using that kst by (intro push_node_index) auto
  have last: "index_of ?d (last (t_stack ?d)) \<le> length (t_nodes d)"
  proof (cases "t_stack d = []")
    case False
    then have l: "last (t_stack d) \<in> set (t_stack d)" by simp
    from stack_index_less [OF inv l] st [OF l] False show ?thesis by auto
  qed (simp add: push_node_index)
  show ?thesis
  proof (rule tarjan_invI)
    show "sorted_wrt (\<lambda>a b. index_of ?d b < index_of ?d a) (t_stack ?d)"
    proof -
      have "sorted_wrt (\<lambda>a b. index_of ?d b < index_of ?d a) (t_stack d)"
        using D(7) by (rule sorted_wrt_mono_rel [rotated]) (simp add: st)
      moreover have "index_of ?d x < index_of ?d k" if "x \<in> set (t_stack d)" for x
        using st [OF that] stack_index_less [OF inv that] by (auto simp: push_node_index)
      ultimately show ?thesis by simp
    qed
  next
    fix x i assume x: "fmlookup (t_index ?d) x = Some i"
    show "i < length (t_nodes ?d)" "low_link ?d i \<le> i" "is_stacked ?d i \<longleftrightarrow> x \<in> set (t_stack ?d)"
      using x D(2,4,5) kst by (auto simp: push_node_node split: if_split_asm intro: less_SucI)
    show "index_of ?d (last (t_stack ?d)) \<le> low_link ?d i" if "x \<in> set (t_stack ?d)"
    proof (cases "x = k")
      case True
      with x last show ?thesis by (auto simp: push_node_node)
    next
      case False
      with x that have y: "fmlookup (t_index d) x = Some i" "x \<in> set (t_stack d)" by auto
      then have "t_stack d \<noteq> []" by auto
      then have "last (t_stack ?d) = last (t_stack d)" "last (t_stack d) \<in> set (t_stack d)" by simp_all
      with st D(8) [OF y] D(2) [OF y(1)] show ?thesis by (simp add: push_node_node)
    qed
    fix y assume y: "fmlookup (t_index ?d) y = Some i"
    show "x = y" using x y D(2,3) by (auto split: if_split_asm)
  next
    show "set (concat (t_output ?d)) = fset (fmdom (t_index ?d)) - set (t_stack ?d)"
      using D(10) new by (auto dest: fmdom_notI)
  qed (use D(1,6,9,11,12) \<open>k \<in> U\<close> in auto)
qed

lemma stack_last_least:
  assumes "tarjan_inv g U d" "x \<in> set (t_stack d)"
  shows "index_of d (last (t_stack d)) \<le> index_of d x"
proof -
  from assms(2) obtain a b where s: "t_stack d = a @ x # b" by (meson split_list)
  show ?thesis
  proof (cases "b = []")
    case False
    then have "last b \<in> set b" "last (t_stack d) = last b" by (simp_all add: s)
    with tarjan_invD(7) [OF assms(1)] show ?thesis by (auto simp: s sorted_wrt_append)
  qed (simp add: s)
qed

lemma output_ordered_snoc:
  "output_ordered g (out @ [c]) \<longleftrightarrow>
     output_ordered g out \<and>
     (\<forall>k. c = [k] \<longrightarrow> (\<forall>s \<in> set (succs g k). s \<noteq> k \<longrightarrow> s \<in> set (concat out)))"
  (is "?L \<longleftrightarrow> ?A \<and> ?B")
proof
  assume L: ?L
  have ?A unfolding output_ordered_def
  proof (intro allI impI ballI)
    fix pre k post s assume "out = pre @ [k] # post" "s \<in> set (succs g k)" "s \<noteq> k"
    then have "out @ [c] = pre @ [k] # (post @ [c])" by simp
    with L \<open>s \<in> _\<close> \<open>s \<noteq> k\<close> show "s \<in> set (concat pre)" unfolding output_ordered_def by blast
  qed
  moreover have ?B using L unfolding output_ordered_def by blast
  ultimately show "?A \<and> ?B" ..
next
  assume R: "?A \<and> ?B"
  show ?L unfolding output_ordered_def
  proof (intro allI impI)
    fix pre k post assume e: "out @ [c] = pre @ [k] # post"
    show "\<forall>s \<in> set (succs g k). s \<noteq> k \<longrightarrow> s \<in> set (concat pre)"
    proof (cases post rule: rev_cases)
      case Nil
      with e R show ?thesis by auto
    next
      case (snoc p' c')
      with e have "out = pre @ [k] # p'" by simp
      with R show ?thesis unfolding output_ordered_def by blast
    qed
  qed
qed

lemma unstack_simps [simp]:
  "t_stack (unstack k d) = t_stack d" "t_index (unstack k d) = t_index d"
  "t_output (unstack k d) = t_output d" "length (t_nodes (unstack k d)) = length (t_nodes d)"
  "index_of (unstack k d) x = index_of d x"
  by (simp_all add: unstack_def index_of_def)

lemma unstack_node:
  assumes "index_of d k < length (t_nodes d)"
  shows "low_link (unstack k d) j = low_link d j"
    and "is_stacked (unstack k d) j \<longleftrightarrow> j \<noteq> index_of d k \<and> is_stacked d j"
  using assms by (auto simp: unstack_def low_link_def is_stacked_def nth_list_update)

lemma fold_unstack_simps [simp]:
  "t_stack (fold unstack ks d) = t_stack d" "t_index (fold unstack ks d) = t_index d"
  "t_output (fold unstack ks d) = t_output d"
  "length (t_nodes (fold unstack ks d)) = length (t_nodes d)"
  "index_of (fold unstack ks d) x = index_of d x"
  by (induction ks arbitrary: d) auto

lemma fold_unstack_node:
  assumes "\<And>k. k \<in> set ks \<Longrightarrow> index_of d k < length (t_nodes d)"
  shows "low_link (fold unstack ks d) j = low_link d j"
    and "is_stacked (fold unstack ks d) j \<longleftrightarrow> j \<notin> index_of d ` set ks \<and> is_stacked d j"
  using assms by (induction ks arbitrary: d) (auto simp: unstack_node)

lemma pop_component_simps:
  assumes inv: "tarjan_inv g U d" and st: "t_stack d = hi @ k # lo"
    and k: "fmlookup (t_index d) k = Some i"
  shows "t_stack (pop_component i d) = lo" "t_index (pop_component i d) = t_index d"
    and "t_output (pop_component i d) = t_output d @ [hi @ [k]]"
    and "length (t_nodes (pop_component i d)) = length (t_nodes d)"
    and "index_of (pop_component i d) x = index_of d x"
    and "low_link (pop_component i d) j = low_link d j"
    and "is_stacked (pop_component i d) j \<longleftrightarrow> j \<notin> index_of d ` set (hi @ [k]) \<and> is_stacked d j"
proof -
  have ki: "index_of d k = i" using k by (rule index_of_Some)
  have "\<forall>x \<in> set hi. index_of d x \<noteq> i"
    using tarjan_invD(7) [OF inv] ki by (auto simp: st sorted_wrt_append)
  then have "takeWhile (\<lambda>k. index_of d k \<noteq> i) (t_stack d) = hi"
    "dropWhile (\<lambda>k. index_of d k \<noteq> i) (t_stack d) = k # lo"
    by (simp_all add: st ki takeWhile_append2 dropWhile_append2)
  then have p: "pop_component i d =
      (fold unstack (hi @ [k]) d)\<lparr>t_stack := lo, t_output := t_output d @ [hi @ [k]]\<rparr>"
    by (simp add: pop_component_def)
  show "t_stack (pop_component i d) = lo" "t_index (pop_component i d) = t_index d"
    "t_output (pop_component i d) = t_output d @ [hi @ [k]]"
    "length (t_nodes (pop_component i d)) = length (t_nodes d)"
    unfolding p by simp_all
  show "index_of (pop_component i d) x = index_of d x"
    unfolding p index_of_def by simp
  have b: "index_of d y < length (t_nodes d)" if "y \<in> set (hi @ [k])" for y
    using stack_index_less [OF inv, of y] that st by auto
  show "low_link (pop_component i d) j = low_link d j"
    using fold_unstack_node(1) [of "hi @ [k]" d j] b unfolding p low_link_def by (simp del: fold_append)
  show "is_stacked (pop_component i d) j \<longleftrightarrow> j \<notin> index_of d ` set (hi @ [k]) \<and> is_stacked d j"
    using fold_unstack_node(2) [of "hi @ [k]" d j] b unfolding p is_stacked_def by (simp del: fold_append set_append)
qed

lemma pop_component_inv:
  assumes inv: "tarjan_inv g U d" and st: "t_stack d = hi @ k # lo"
    and k: "fmlookup (t_index d) k = Some i" and low: "low_link d i = i"
    and succs: "\<And>s. s \<in> set (succs g k) \<Longrightarrow> succ_done i d s"
  shows "tarjan_inv g U (pop_component i d)"
proof -
  note D = tarjan_invD [OF inv] and P = pop_component_simps [OF inv st k]
  let ?d = "pop_component i d"
  have dist: "distinct (t_stack d)"
  proof -
    have "distinct xs" if "sorted_wrt (\<lambda>a b. index_of d b < index_of d a) xs" for xs
      using that by (induction xs) auto
    from this [OF D(7)] show ?thesis .
  qed
  show ?thesis
  proof (rule tarjan_invI)
    fix x j assume "fmlookup (t_index ?d) x = Some j"
    then have x: "fmlookup (t_index d) x = Some j" by (simp add: P)
    show "j < length (t_nodes ?d)" "low_link ?d j \<le> j" using D(2,4) x by (simp_all add: P)
    show "is_stacked ?d j \<longleftrightarrow> x \<in> set (t_stack ?d)"
    proof (cases "x \<in> set (hi @ [k])")
      case True
      then have "j \<in> index_of d ` set (hi @ [k])" using index_of_Some [OF x] by force
      with True dist show ?thesis by (auto simp: P st)
    next
      case False
      have "j \<notin> index_of d ` set (hi @ [k])"
      proof
        assume "j \<in> index_of d ` set (hi @ [k])"
        then obtain y where y: "y \<in> set (hi @ [k])" "index_of d y = j" by blast
        then have "y \<in> set (t_stack d)" by (auto simp: st)
        with stack_index_less [OF inv this] y(2) have "fmlookup (t_index d) y = Some j" by auto
        with D(3) x y(1) False show False by blast
      qed
      with False D(5) [OF x] show ?thesis by (auto simp: P st)
    qed
    show "index_of ?d (last (t_stack ?d)) \<le> low_link ?d j" if "x \<in> set (t_stack ?d)"
    proof -
      from that have "lo \<noteq> []" "x \<in> set (t_stack d)" by (auto simp: P st)
      with D(8) [OF x] show ?thesis by (simp add: P st)
    qed
    fix y assume "fmlookup (t_index ?d) y = Some j"
    with D(3) x show "x = y" by (simp add: P)
  next
    show "sorted_wrt (\<lambda>a b. index_of ?d b < index_of ?d a) (t_stack ?d)"
      using D(7) by (simp add: P st sorted_wrt_append)
    show "distinct (concat (t_output ?d))" using D(9,10) dist by (auto simp: P st)
    show "set (concat (t_output ?d)) = fset (fmdom (t_index ?d)) - set (t_stack ?d)"
      using D(6,10) dist by (auto simp: P st)
    show "output_ordered g (t_output ?d)"
      unfolding P output_ordered_snoc
    proof (intro conjI allI impI ballI)
      show "output_ordered g (t_output d)" by (rule D(12))
      fix k' s assume "hi @ [k] = [k']" and s: "s \<in> set (succs g k')" "s \<noteq> k'"
      then have h: "hi = []" "k' = k" by (simp_all add: append_eq_Cons_conv)
      from succs s h obtain j where j: "fmlookup (t_index d) s = Some j" "is_stacked d j \<longrightarrow> i \<le> j"
        by (auto simp: succ_done_def low)
      have "s \<notin> set (t_stack d)"
      proof
        assume "s \<in> set (t_stack d)"
        with D(7) s h have "index_of d s < index_of d k" by (auto simp: st)
        with index_of_Some [OF k] index_of_Some [OF j(1)] j(2) D(5) [OF j(1)] \<open>s \<in> set (t_stack d)\<close>
        show False by simp
      qed
      then show "s \<in> set (concat (t_output d))" using D(10) j(1) by (auto simp: fmdomI)
    qed
  qed (use D(1,6,11) in \<open>auto simp: P st\<close>)
qed

lemma extends_push:
  assumes "fmlookup (t_index d) k = None" "extends (Some (length (t_nodes d))) (push_node k d) d'"
  shows "extends None d d'"
proof -
  from assms(2) obtain new outs where "t_stack d' = (new @ [k]) @ t_stack d" "t_output d' = t_output d @ outs"
    by (auto simp: extends_def)
  moreover have "fmlookup (t_index d') x = Some j" if "fmlookup (t_index d) x = Some j" for x j
  proof -
    have "fmlookup (t_index (push_node k d)) x = Some j" using assms(1) that by auto
    with assms(2) show ?thesis unfolding extends_def by blast
  qed
  ultimately show ?thesis
    using assms(2) unfolding extends_def by (auto simp: push_node_node less_Suc_eq)
qed

lemma extends_pop:
  assumes inv: "tarjan_inv g U d'" and ext: "extends None d d'" and k: "fmlookup (t_index d') k = Some i"
    and st: "t_stack d' = hi @ k # t_stack d" and i: "i = length (t_nodes d)"
  shows "extends None d (pop_component i d')"
proof -
  note P = pop_component_simps [OF inv st k]
  have "index_of d' x \<ge> i" if "x \<in> set (hi @ [k])" for x
    using tarjan_invD(7) [OF inv] that index_of_Some [OF k] by (auto simp: st sorted_wrt_append less_imp_le)
  then have "j \<notin> index_of d' ` set (hi @ [k])" if "j < length (t_nodes d)" for j
    using that i by fastforce
  with ext show ?thesis unfolding extends_def P by auto
qed

subsection \<open>Reachability\<close>

definition edges :: "successors \<Rightarrow> (string \<times> string) set" where
  "edges g = {(x, y). y \<in> set (succs g x)}"

definition mutual :: "successors \<Rightarrow> string list \<Rightarrow> bool" where
  "mutual g c \<longleftrightarrow> (\<forall>x \<in> set c. \<forall>y \<in> set c. (x, y) \<in> (edges g)\<^sup>*)"

definition reach_inv :: "successors \<Rightarrow> tarjan \<Rightarrow> bool" where
  "reach_inv g d \<longleftrightarrow>
     (\<forall>y \<in> set (t_stack d). \<forall>x \<in> set (t_stack d). index_of d y \<le> index_of d x \<longrightarrow> (y, x) \<in> (edges g)\<^sup>*) \<and>
     (\<forall>x \<in> set (t_stack d). \<exists>z \<in> set (t_stack d).
        index_of d z = low_link d (index_of d x) \<and> (x, z) \<in> (edges g)\<^sup>*) \<and>
     (\<forall>c \<in> set (t_output d). mutual g c)"

definition leads_to :: "successors \<Rightarrow> tarjan \<Rightarrow> string \<Rightarrow> bool" where
  "leads_to g d v \<longleftrightarrow> (\<forall>x \<in> set (t_stack d). (x, v) \<in> (edges g)\<^sup>*)"

lemma push_node_reach:
  assumes inv: "tarjan_inv g U d" and new: "fmlookup (t_index d) k = None"
    and r: "reach_inv g d" and v: "leads_to g d k"
  shows "reach_inv g (push_node k d)" "leads_to g (push_node k d) k"
proof -
  have kst: "x \<noteq> k" if "x \<in> set (t_stack d)" for x
    using stack_index_less [OF inv that] new by auto
  have st: "index_of (push_node k d) x = index_of d x" "index_of d x < length (t_nodes d)"
    if "x \<in> set (t_stack d)" for x
    using kst [OF that] stack_index_less [OF inv that] by (auto simp: push_node_index)
  show "leads_to g (push_node k d) k" using v by (simp add: leads_to_def)
  show "reach_inv g (push_node k d)"
    unfolding reach_inv_def
  proof (intro conjI ballI impI)
    fix x y assume "y \<in> set (t_stack (push_node k d))" "x \<in> set (t_stack (push_node k d))"
      and "index_of (push_node k d) y \<le> index_of (push_node k d) x"
    then show "(y, x) \<in> (edges g)\<^sup>*"
      using st r v by (auto simp: push_node_index reach_inv_def leads_to_def) (metis leD)
  next
    fix x assume x: "x \<in> set (t_stack (push_node k d))"
    show "\<exists>z \<in> set (t_stack (push_node k d)). index_of (push_node k d) z =
        low_link (push_node k d) (index_of (push_node k d) x) \<and> (x, z) \<in> (edges g)\<^sup>*"
    proof (cases "x = k")
      case True
      then show ?thesis by (auto simp: push_node_index push_node_node)
    next
      case False
      with x have "x \<in> set (t_stack d)" by simp
      with r st show ?thesis by (auto simp: push_node_node reach_inv_def)
    qed
  next
    fix c assume "c \<in> set (t_output (push_node k d))"
    with r show "mutual g c" by (simp add: reach_inv_def)
  qed
qed

lemma lower_link_reach:
  assumes inv: "tarjan_inv g U d" and v: "v \<in> set (t_stack d)" "index_of d v = i" and r: "reach_inv g d"
    and z: "l < low_link d i \<Longrightarrow> \<exists>z \<in> set (t_stack d). index_of d z = l \<and> (v, z) \<in> (edges g)\<^sup>*"
  shows "reach_inv g (lower_link i l d)"
proof -
  have "x = v" if "x \<in> set (t_stack d)" "index_of d x = i" for x
    using stack_index_less [OF inv that(1)] stack_index_less [OF inv v(1)] tarjan_invD(3) [OF inv] that(2) v(2)
    by auto
  with r z show ?thesis
    unfolding reach_inv_def lower_link_simps lower_link_node by auto
qed

lemma pop_component_reach:
  assumes inv: "tarjan_inv g U d" and st: "t_stack d = hi @ k # lo"
    and k: "fmlookup (t_index d) k = Some i" and r: "reach_inv g d" and v: "leads_to g d k"
  shows "reach_inv g (pop_component i d)"
proof -
  note P = pop_component_simps [OF inv st k]
  have ki: "index_of d k = i" using k by (rule index_of_Some)
  have hi: "i \<le> index_of d x" if "x \<in> set (hi @ [k])" for x
    using tarjan_invD(7) [OF inv] that ki by (auto simp: st sorted_wrt_append less_imp_le)
  have lo: "index_of d x < i" if "x \<in> set lo" for x
    using tarjan_invD(7) [OF inv] that ki by (auto simp: st sorted_wrt_append)
  have to_k: "(x, k) \<in> (edges g)\<^sup>*" if "x \<in> set (hi @ [k])" for x
    using v that by (auto simp: leads_to_def st)
  have from_k: "(k, x) \<in> (edges g)\<^sup>*" if "x \<in> set (hi @ [k])" for x
    using r hi [OF that] that ki by (auto simp: reach_inv_def st)
  have "mutual g (hi @ [k])" unfolding mutual_def using to_k from_k by (meson rtrancl_trans)
  moreover have "\<exists>z \<in> set lo. index_of d z = low_link d (index_of d x) \<and> (x, z) \<in> (edges g)\<^sup>*"
    if x: "x \<in> set lo" for x
  proof -
    from x have "x \<in> set (t_stack d)" by (simp add: st)
    with r obtain z where z: "z \<in> set (t_stack d)" "index_of d z = low_link d (index_of d x)"
        "(x, z) \<in> (edges g)\<^sup>*" by (auto simp: reach_inv_def)
    from stack_index_less [OF inv \<open>x \<in> set (t_stack d)\<close>] tarjan_invD(4) [OF inv] lo [OF x] z(2)
    have "index_of d z < i" by (metis le_less_trans)
    with hi z(1) have "z \<in> set lo" by (auto simp: st) (metis leD ki less_irrefl)+
    with z show ?thesis by blast
  qed
  ultimately show ?thesis using r unfolding reach_inv_def P by (auto simp: st)
qed

text \<open>What a finished call of \<open>strongConnect\<close> leaves.\<close>

definition connected :: "successors \<Rightarrow> string set \<Rightarrow> string \<Rightarrow> tarjan \<Rightarrow> tarjan \<Rightarrow> bool" where
  "connected g U k d d' \<longleftrightarrow>
     tarjan_inv g U d' \<and> extends None d d' \<and> fmlookup (t_index d') k = Some (length (t_nodes d)) \<and>
     (t_stack d' = t_stack d \<and> low_link d' (length (t_nodes d)) = length (t_nodes d) \<or>
      low_link d' (length (t_nodes d)) < length (t_nodes d) \<and> (\<exists>new. t_stack d' = new @ k # t_stack d)) \<and>
     reach_inv g d' \<and> (\<forall>x \<in> set (t_stack d'). \<exists>z \<in> set (t_stack d). (x, z) \<in> (edges g)\<^sup>*)"

lemma strong_connect_end:
  assumes inv: "tarjan_inv g U d" and new: "fmlookup (t_index d) k = None"
    and inv': "tarjan_inv g U d'" and ext: "extends (Some (length (t_nodes d))) (push_node k d) d'"
    and succs: "\<And>s. s \<in> set (succs g k) \<Longrightarrow> succ_done (length (t_nodes d)) d' s"
    and r: "reach_inv g d'" and v: "leads_to g d' k"
  shows "connected g U k d
    (if low_link d' (length (t_nodes d)) = length (t_nodes d) then pop_component (length (t_nodes d)) d' else d')"
proof -
  let ?i = "length (t_nodes d)"
  have k: "fmlookup (t_index d') k = Some ?i" using ext by (simp add: extends_def)
  have e: "extends None d d'" using extends_push [OF new ext] .
  from ext obtain hi where st: "t_stack d' = hi @ k # t_stack d" by (auto simp: extends_def)
  note P = pop_component_simps [OF inv' st k]
  show ?thesis
  proof (cases "low_link d' ?i = ?i")
    case True
    with pop_component_inv [OF inv' st k True succs] pop_component_reach [OF inv' st k r v]
      extends_pop [OF inv' e k st refl] k
    show ?thesis by (auto simp: connected_def P)
  next
    case False
    with tarjan_invD(4) [OF inv' k] have low: "low_link d' ?i < ?i" by simp
    have "\<exists>z \<in> set (t_stack d). (x, z) \<in> (edges g)\<^sup>*" if x: "x \<in> set (t_stack d')" for x
    proof -
      from x v have xk: "(x, k) \<in> (edges g)\<^sup>*" by (simp add: leads_to_def)
      have "k \<in> set (t_stack d')" by (simp add: st)
      with r index_of_Some [OF k] obtain z where z: "z \<in> set (t_stack d')" "index_of d' z = low_link d' ?i"
          "(k, z) \<in> (edges g)\<^sup>*" by (auto simp: reach_inv_def)
      have "?i \<le> index_of d' y" if "y \<in> set (hi @ [k])" for y
        using tarjan_invD(7) [OF inv'] that index_of_Some [OF k] by (auto simp: st sorted_wrt_append less_imp_le)
      with z(1,2) low have "z \<in> set (t_stack d)" by (fastforce simp: st)
      with xk z(3) show ?thesis by (meson rtrancl_trans)
    qed
    with False low inv' e k st r show ?thesis by (auto simp: connected_def)
  qed
qed

lemma card_unindexed:
  assumes "finite U" "fset (fmdom (t_index d)) \<subseteq> fset (fmdom (t_index d'))"
  shows "card (U - fset (fmdom (t_index d'))) \<le> card (U - fset (fmdom (t_index d)))"
  using assms by (intro card_mono) auto

lemma extends_dom: "extends own d d' \<Longrightarrow> fset (fmdom (t_index d)) \<subseteq> fset (fmdom (t_index d'))"
  by (auto simp: extends_def fmlookup_dom_iff)

lemma connected_low:
  assumes inv: "tarjan_inv g U d" and c: "connected g U s d d'" and ne: "t_stack d \<noteq> []"
  shows "index_of d' s = length (t_nodes d)"
    and "index_of d' (last (t_stack d')) \<le> low_link d' (index_of d' s)"
proof -
  from c have s: "fmlookup (t_index d') s = Some (length (t_nodes d))" and inv': "tarjan_inv g U d'"
    and e: "extends None d d'" by (simp_all add: connected_def)
  show i: "index_of d' s = length (t_nodes d)" using s by (rule index_of_Some)
  show "index_of d' (last (t_stack d')) \<le> low_link d' (index_of d' s)"
  proof (cases "s \<in> set (t_stack d')")
    case True
    with tarjan_invD(8) [OF inv' s] i show ?thesis by simp
  next
    case False
    then have l: "t_stack d' = t_stack d" "low_link d' (index_of d' s) = length (t_nodes d)"
      using c i by (auto simp: connected_def)
    have "last (t_stack d) \<in> set (t_stack d)" using ne by simp
    from stack_index_less [OF inv this] obtain j where
      j: "fmlookup (t_index d) (last (t_stack d)) = Some j" "j < length (t_nodes d)" by auto
    with e have "index_of d' (last (t_stack d)) = j" by (auto simp: extends_def index_of_def)
    with l j show ?thesis by simp
  qed
qed

lemma strong_connect_ok:
  assumes "finite U"
  shows "\<forall>k \<in> U. set (succs g k) \<subseteq> U \<Longrightarrow> tarjan_inv g U d \<Longrightarrow> k \<in> U \<Longrightarrow> fmlookup (t_index d) k = None \<Longrightarrow>
      card (U - fset (fmdom (t_index d))) \<le> n \<Longrightarrow> reach_inv g d \<Longrightarrow> leads_to g d k \<Longrightarrow>
      \<exists>d'. strong_connect n g k d = Some d' \<and> connected g U k d d'"
    and "\<forall>k \<in> U. set (succs g k) \<subseteq> U \<Longrightarrow> tarjan_inv g U d \<Longrightarrow> fmlookup (t_index d) v = Some i \<Longrightarrow>
      v \<in> set (t_stack d) \<Longrightarrow> set ss \<subseteq> set (succs g v) \<Longrightarrow> v \<in> U \<Longrightarrow>
      card (U - fset (fmdom (t_index d))) \<le> n \<Longrightarrow> reach_inv g d \<Longrightarrow> leads_to g d v \<Longrightarrow>
      \<exists>d'. succ_loop n g i ss d = Some d' \<and> tarjan_inv g U d' \<and> extends (Some i) d d' \<and>
        reach_inv g d' \<and> leads_to g d' v \<and> (\<forall>s \<in> set ss. succ_done i d' s)"
proof (induction n g k d and n g i ss d arbitrary: and v rule: strong_connect_succ_loop.induct)
  case (1 g k d)
  then have "k \<in> U - fset (fmdom (t_index d))" by (auto simp: fmlookup_dom_iff)
  with 1 \<open>finite U\<close> show ?case by auto
next
  case (2 n g k d)
  let ?i = "length (t_nodes d)"
  note cl = 2(2) and inv = 2(3) and kU = 2(4) and new = 2(5) and r = 2(7,8)
  have "k \<in> U - fset (fmdom (t_index d))" using kU new by (auto simp: fmlookup_dom_iff)
  then have "card (U - fset (fmdom (t_index d)) - {k}) < card (U - fset (fmdom (t_index d)))"
    using \<open>finite U\<close> by (intro card_Diff1_less) auto
  moreover have "U - fset (fmdom (t_index (push_node k d))) = U - fset (fmdom (t_index d)) - {k}" by auto
  ultimately have n: "card (U - fset (fmdom (t_index (push_node k d)))) \<le> n" using 2(6) by simp
  have "\<exists>d'. succ_loop n g ?i (succs g k) (push_node k d) = Some d' \<and> tarjan_inv g U d' \<and>
      extends (Some ?i) (push_node k d) d' \<and> reach_inv g d' \<and> leads_to g d' k \<and>
      (\<forall>s \<in> set (succs g k). succ_done ?i d' s)"
    by (rule 2(1) [OF refl cl push_node_inv [OF inv new kU] _ _ subset_refl kU n
          push_node_reach [OF inv new r]]) simp_all
  then obtain d' where d': "succ_loop n g ?i (succs g k) (push_node k d) = Some d'" "tarjan_inv g U d'"
      "extends (Some ?i) (push_node k d) d'" "reach_inv g d'" "leads_to g d' k"
      "\<forall>s \<in> set (succs g k). succ_done ?i d' s" by blast
  with strong_connect_end [OF inv new d'(2,3) _ d'(4,5)] show ?case by (simp add: Let_def)
next
  case (3 n g i d)
  then show ?case by simp
next
  case (4 n g i s ss d)
  note cl = 4(5) and inv = 4(6) and vi = 4(7) and vs = 4(8) and sub = 4(9) and vU = 4(10) and n = 4(11)
    and r = 4(12,13)
  have i: "i < length (t_nodes d)" using tarjan_invD(2) [OF inv vi] .
  have rest: "\<exists>d'. succ_loop n g i ss e = Some d' \<and> tarjan_inv g U d' \<and> extends (Some i) d d' \<and>
        reach_inv g d' \<and> leads_to g d' v \<and> (\<forall>x \<in> set (s # ss). succ_done i d' x)"
    if IH: "fmlookup (t_index e) v = Some i \<Longrightarrow> v \<in> set (t_stack e) \<Longrightarrow> set ss \<subseteq> set (succs g v) \<Longrightarrow> v \<in> U \<Longrightarrow>
        card (U - fset (fmdom (t_index e))) \<le> n \<Longrightarrow> reach_inv g e \<Longrightarrow> leads_to g e v \<Longrightarrow>
        \<exists>d'. succ_loop n g i ss e = Some d' \<and> tarjan_inv g U d' \<and> extends (Some i) e d' \<and>
          reach_inv g d' \<and> leads_to g d' v \<and> (\<forall>s \<in> set ss. succ_done i d' s)"
      and e: "tarjan_inv g U e" "extends (Some i) d e" "succ_done i e s" "reach_inv g e" "leads_to g e v" for e
  proof -
    have ie: "i < length (t_nodes e)" using e(2) i by (auto simp: extends_def)
    have "fmlookup (t_index e) v = Some i" "v \<in> set (t_stack e)" using e(2) vi vs by (auto simp: extends_def)
    moreover have "card (U - fset (fmdom (t_index e))) \<le> n"
      using card_unindexed [OF \<open>finite U\<close> extends_dom [OF e(2)]] n by simp
    ultimately obtain d' where d': "succ_loop n g i ss e = Some d'" "tarjan_inv g U d'"
        "extends (Some i) e d'" "reach_inv g d'" "leads_to g d' v" "\<forall>s \<in> set ss. succ_done i d' s"
      using IH sub vU e(4,5) by auto
    with extends_trans [OF e(2) d'(3)] succ_done_extends [OF e(3) d'(3) e(1) ie] show ?thesis by auto
  qed
  have ne: "t_stack d \<noteq> []" using vs by auto
  have vs': "(v, s) \<in> edges g" and sU: "s \<in> U" using sub cl vU by (auto simp: edges_def)
  have iv: "index_of d v = i" using vi by (rule index_of_Some)
  show ?case
  proof (cases "fmlookup (t_index d) s")
    case None
    have "leads_to g d s" using r(2) vs' unfolding leads_to_def by (meson rtrancl.rtrancl_into_rtrancl)
    with 4(1) [OF None cl inv sU None n r(1)]
    obtain d1 where d1: "strong_connect n g s d = Some d1" and c: "connected g U s d d1" by auto
    let ?l = "low_link d1 (index_of d1 s)"
    let ?e = "lower_link i ?l d1"
    note low = connected_low [OF inv c ne]
    have ext: "extends (Some i) d d1" and s: "fmlookup (t_index d1) s = Some (length (t_nodes d))"
      and inv1: "tarjan_inv g U d1" and r1: "reach_inv g d1"
      and down: "\<forall>x \<in> set (t_stack d1). \<exists>z \<in> set (t_stack d). (x, z) \<in> (edges g)\<^sup>*"
      using c by (auto simp: connected_def intro: extends_weaken)
    have v1: "v \<in> set (t_stack d1)" "fmlookup (t_index d1) v = Some i" and i1: "i < length (t_nodes d1)"
      using ext vs vi i by (auto simp: extends_def)
    have "t_stack d1 \<noteq> []" using v1 by auto
    then have "tarjan_inv g U ?e" using lower_link_inv [OF inv1 _ low(2)] by simp
    moreover have "extends (Some i) d ?e" by (rule extends_trans [OF ext extends_lower])
    moreover have "succ_done i ?e s"
    proof -
      have "low_link ?e i \<le> low_link d1 (length (t_nodes d))" using i1 by (simp add: lower_link_node low(1))
      also have "\<dots> \<le> length (t_nodes d)" by (rule tarjan_invD(4) [OF inv1 s])
      finally show ?thesis using s by (simp add: succ_done_def)
    qed
    moreover have "reach_inv g ?e"
    proof (rule lower_link_reach [OF inv1 v1(1) index_of_Some [OF v1(2)] r1])
      assume "?l < low_link d1 i"
      with tarjan_invD(4) [OF inv1 v1(2)] i low(1) c have "s \<in> set (t_stack d1)" by (auto simp: connected_def)
      with r1 obtain z where "z \<in> set (t_stack d1)" "index_of d1 z = ?l" "(s, z) \<in> (edges g)\<^sup>*"
        by (auto simp: reach_inv_def)
      with vs' show "\<exists>z \<in> set (t_stack d1). index_of d1 z = ?l \<and> (v, z) \<in> (edges g)\<^sup>*"
        by (meson converse_rtrancl_into_rtrancl)
    qed
    moreover have "leads_to g ?e v"
      using down r(2) unfolding leads_to_def lower_link_simps by (meson rtrancl_trans)
    ultimately show ?thesis using rest [of ?e] 4(2) [OF None d1 cl] None d1 by simp
  next
    case (Some j)
    show ?thesis
    proof (cases "is_stacked d j")
      case True
      let ?e = "lower_link i j d"
      have st: "s \<in> set (t_stack d)" using tarjan_invD(5) [OF inv Some] True by simp
      with stack_last_least [OF inv this] index_of_Some [OF Some] lower_link_inv [OF inv ne]
      have "tarjan_inv g U ?e" by simp
      moreover have "succ_done i ?e s" using Some i by (simp add: succ_done_def lower_link_node)
      moreover have "reach_inv g ?e"
        using lower_link_reach [OF inv vs iv r(1)] st index_of_Some [OF Some] vs' by blast
      moreover have "leads_to g ?e v" using r(2) by (simp add: leads_to_def)
      ultimately show ?thesis
        using rest [of ?e] extends_lower [of i d j] 4(3) [OF Some True cl] Some True by simp
    next
      case False
      have "succ_done i d s" using Some False by (simp add: succ_done_def)
      then show ?thesis using rest [of d] 4(4) [OF Some False cl] Some False inv r by simp
    qed
  qed
qed

lemma connect_all_ok:
  assumes "finite U" and closed: "\<forall>k \<in> U. set (succs g k) \<subseteq> U" and "card U \<le> n"
  shows "tarjan_inv g U d \<Longrightarrow> t_stack d = [] \<Longrightarrow> reach_inv g d \<Longrightarrow> set ks \<subseteq> U \<Longrightarrow>
      \<exists>d'. connect_all n g ks d = Some d' \<and> tarjan_inv g U d' \<and> t_stack d' = [] \<and> reach_inv g d' \<and>
        fset (fmdom (t_index d)) \<union> set ks \<subseteq> fset (fmdom (t_index d'))"
proof (induction ks arbitrary: d)
  case (Cons k ks)
  show ?case
  proof (cases "fmlookup (t_index d) k")
    case None
    have "card (U - fset (fmdom (t_index d))) \<le> n"
      using card_mono [OF \<open>finite U\<close>, of "U - fset (fmdom (t_index d))"] \<open>card U \<le> n\<close> by auto
    moreover have "leads_to g d k" using Cons.prems(2) by (simp add: leads_to_def)
    ultimately have "\<exists>d'. strong_connect n g k d = Some d' \<and> connected g U k d d'"
      using Cons.prems(3,4) by (intro strong_connect_ok(1) [OF \<open>finite U\<close> closed Cons.prems(1) _ None]) auto
    then obtain d' where d': "strong_connect n g k d = Some d'" and c: "connected g U k d d'" by blast
    have inv: "tarjan_inv g U d'" and r: "reach_inv g d'" and k: "fmlookup (t_index d') k = Some (length (t_nodes d))"
      and dom: "fset (fmdom (t_index d)) \<subseteq> fset (fmdom (t_index d'))"
      using c by (auto simp: connected_def dest: extends_dom)
    have "t_stack d' = []"
    proof (rule ccontr)
      assume "t_stack d' \<noteq> []"
      with c Cons.prems(2) obtain new where "t_stack d' = new @ [k]"
          and low: "low_link d' (length (t_nodes d)) < length (t_nodes d)"
        by (auto simp: connected_def)
      with tarjan_invD(8) [OF inv k] index_of_Some [OF k] show False by simp
    qed
    with Cons.IH [OF inv _ r] Cons.prems(4) obtain e where e: "connect_all n g ks d' = Some e"
        "tarjan_inv g U e" "t_stack e = []" "reach_inv g e" "fset (fmdom (t_index d')) \<union> set ks \<subseteq> fset (fmdom (t_index e))"
      by auto
    with dom k None d' show ?thesis by (auto simp: fmdomI)
  next
    case (Some j)
    with Cons show ?thesis by (auto simp: fmdomI) (metis fmdomI subset_iff)
  qed
qed auto

lemma tarjan_start_inv: "tarjan_inv g U tarjan_start" "reach_inv g tarjan_start"
  by (simp_all add: tarjan_inv_def tarjan_start_def output_ordered_def reach_inv_def)

lemma tarjan_ids_set: "set (tarjan_ids g) = fset (fmdom g)"
  by (simp add: tarjan_ids_def sorted_list_of_fset.rep_eq)

lemma succs_outside: "k \<notin> fset (fmdom g) \<Longrightarrow> succs g k = []"
  by (simp add: succs_def fmdom_notD)

definition tarjan_universe :: "successors \<Rightarrow> string set" where
  "tarjan_universe g = set (tarjan_ids g) \<union> set (concat (map (succs g) (tarjan_ids g)))"

lemma tarjanSort_ok:
  "\<exists>out. tarjanSort g = Some out \<and> distinct (concat out) \<and> [] \<notin> set out \<and>
     fset (fmdom g) \<subseteq> set (concat out) \<and> set (concat out) \<subseteq> tarjan_universe g \<and>
     output_ordered g out \<and> (\<forall>c \<in> set out. mutual g c)"
proof -
  let ?U = "tarjan_universe g"
  have fin: "finite ?U" by (simp add: tarjan_universe_def)
  have closed: "\<forall>k \<in> ?U. set (succs g k) \<subseteq> ?U"
  proof (intro ballI subsetI)
    fix k s assume "s \<in> set (succs g k)"
    then have "k \<in> set (tarjan_ids g)"
      using succs_outside [of k g] by (cases "k \<in> fset (fmdom g)") (auto simp: tarjan_ids_set)
    with \<open>s \<in> set (succs g k)\<close> show "s \<in> ?U" by (auto simp: tarjan_universe_def)
  qed
  have "?U = set (tarjan_ids g @ concat (map (succs g) (tarjan_ids g)))"
    by (simp add: tarjan_universe_def)
  then have "card ?U \<le> tarjan_fuel g"
    unfolding tarjan_fuel_def by (metis card_length length_append)
  from connect_all_ok [OF fin closed this tarjan_start_inv(1) _ tarjan_start_inv(2), of "tarjan_ids g"]
  obtain d where d: "connect_all (tarjan_fuel g) g (tarjan_ids g) tarjan_start = Some d"
      "tarjan_inv g ?U d" "t_stack d = []" "reach_inv g d" "set (tarjan_ids g) \<subseteq> fset (fmdom (t_index d))"
    by (auto simp: tarjan_start_def tarjan_universe_def)
  let ?f = "\<lambda>c :: string list. if 1 < length c then sort c else c"
  have out: "tarjanSort g = Some (map ?f (t_output d))" by (simp add: tarjanSort_def d)
  have sets: "set (concat (map ?f o')) = set (concat o')" for o' by auto
  have "distinct (concat (map ?f o'))" if "distinct (concat o')" for o'
    using that by (induction o') auto
  moreover have "output_ordered g (map ?f o')" if "output_ordered g o'" for o'
    unfolding output_ordered_def
  proof (intro allI impI ballI)
    fix pre k post s assume "map ?f o' = pre @ [k] # post" and s: "s \<in> set (succs g k)" "s \<noteq> k"
    then obtain p c q where o: "o' = p @ c # q" "map ?f p = pre" "?f c = [k]"
      by (auto simp: map_eq_append_conv)
    then have "c = [k]" by (metis length_sort less_irrefl list.size(3,4) add.right_neutral add_Suc_right One_nat_def)
    with o(1) that s have "s \<in> set (concat p)" unfolding output_ordered_def by blast
    with sets [of p] show "s \<in> set (concat pre)" unfolding o(2) by blast
  qed
  moreover have "\<forall>c \<in> set (map ?f (t_output d)). mutual g c"
    using d(4) by (auto simp: reach_inv_def mutual_def)
  moreover have "[] \<notin> set (map ?f (t_output d))"
  proof
    assume "[] \<in> set (map ?f (t_output d))"
    then obtain c where "c \<in> set (t_output d)" "?f c = []" by auto
    then have "[] \<in> set (t_output d)" by (metis length_0_conv length_sort list.size(3))
    with tarjan_invD(11) [OF d(2)] show False by contradiction
  qed
  ultimately show ?thesis
    using tarjan_invD(1,9,10,12) [OF d(2)] d(3,5) unfolding tarjan_ids_set
    by (intro exI [of _ "map ?f (t_output d)"] conjI out) (simp_all only: sets Diff_empty list.set(1) not_False_eq_True)
qed

end
