(* ===== verification/PlanLayers.thy ===== *)
theory PlanLayers
  imports PlanTypes
begin

text \<open>
  \<open>CombineLayers\<close> of \<open>plan.go\<close>: the objects of the layers stacked per name, then the defaults.  The
  sections of plan extensions are left out.  The locale holds what stacking needs of a kind of
  object, and shows that what a name stands for depends on the entries of that name only, and that
  consecutive layers can be combined beforehand; services, checks and log targets are its instances.
\<close>

datatype plan_error =
    PlanPanic
  | FormatError message
  | LabelExists string
  | PlanError message

abbreviation (input) format_error :: "string \<Rightarrow> string list \<Rightarrow> plan_error" where
  "format_error f args \<equiv> FormatError (f, args)"

definition override_error :: "string \<Rightarrow> string \<Rightarrow> string \<Rightarrow> string \<Rightarrow> plan_error" where
  "override_error kind ov label name =
     (if ov = [] then format_error (''layer %q must define \"override\" for '' @ kind @ '' %q'') [label, name]
      else format_error (''layer %q has invalid \"override\" value for '' @ kind @ '' %q'') [label, name])"

text \<open>The loop over the objects of one layer, for services.\<close>

fun combine_section ::
    "('a \<Rightarrow> string) \<Rightarrow> ('a \<Rightarrow> string) \<Rightarrow> ('a \<Rightarrow> 'a \<Rightarrow> 'a) \<Rightarrow> string \<Rightarrow> string \<Rightarrow>
     'a option go_map \<Rightarrow> 'a go_map \<Rightarrow> plan_error + 'a go_map" where
  "combine_section ov nm merge kind label [] m = Inr m"
| "combine_section ov nm merge kind label ((name, v) # entries) m =
     (case v of
        None \<Rightarrow> Inl PlanPanic
      | Some x \<Rightarrow>
          if ov x = MergeOverride then
            combine_section ov nm merge kind label entries
              (AList.update name (case map_of m name of Some old \<Rightarrow> merge old x | None \<Rightarrow> x) m)
          else if ov x = ReplaceOverride then
            combine_section ov nm merge kind label entries (AList.update name x m)
          else Inl (override_error kind (ov x) label (nm x)))"

definition combine_services :: "string \<Rightarrow> service option go_map \<Rightarrow> service go_map \<Rightarrow> plan_error + service go_map" where
  "combine_services = combine_section svc_override svc_name service_Merge ''service''"

definition combine_checks :: "string \<Rightarrow> check option go_map \<Rightarrow> check go_map \<Rightarrow> plan_error + check go_map" where
  "combine_checks = combine_section chk_override chk_name check_Merge ''check''"

definition combine_targets ::
    "string \<Rightarrow> log_target option go_map \<Rightarrow> log_target go_map \<Rightarrow> plan_error + log_target go_map" where
  "combine_targets = combine_section lt_override lt_name log_target_Merge ''log target''"

definition defaultBackoffDelay :: duration where "defaultBackoffDelay = 500 * millisecond"
definition defaultBackoffFactor :: rat where "defaultBackoffFactor = 2"
definition defaultBackoffLimit :: duration where "defaultBackoffLimit = 30 * second"
definition defaultCheckPeriod :: duration where "defaultCheckPeriod = 10 * second"
definition defaultCheckTimeout :: duration where "defaultCheckTimeout = 3 * second"
definition defaultCheckThreshold :: int where "defaultCheckThreshold = 3"

definition dur_default :: "duration \<Rightarrow> optional_duration \<Rightarrow> optional_duration" where
  "dur_default d o' = (if od_is_set o' then o' else o'\<lparr>od_value := d\<rparr>)"

definition service_defaults :: "service \<Rightarrow> service" where
  "service_defaults s =
     s\<lparr>svc_backoff_delay := dur_default defaultBackoffDelay (svc_backoff_delay s),
       svc_backoff_factor := (if of_is_set (svc_backoff_factor s) then svc_backoff_factor s
                              else (svc_backoff_factor s)\<lparr>of_value := defaultBackoffFactor\<rparr>),
       svc_backoff_limit := dur_default defaultBackoffLimit (svc_backoff_limit s)\<rparr>"

definition check_defaults :: "check \<Rightarrow> check" where
  "check_defaults c =
     (let p = dur_default defaultCheckPeriod (chk_period c);
          t = dur_default defaultCheckTimeout (chk_timeout c)
      in c\<lparr>chk_period := p,
           chk_timeout := (if od_value p < od_value t then t\<lparr>od_value := od_value p\<rparr> else t),
           chk_threshold := (if chk_threshold c = 0 then defaultCheckThreshold else chk_threshold c)\<rparr>)"

record combined =
  cmb_services :: "service go_map"
  cmb_checks :: "check go_map"
  cmb_targets :: "log_target go_map"

definition combine_layer :: "layer \<Rightarrow> combined \<Rightarrow> plan_error + combined" where
  "combine_layer l c =
     and_then (combine_services (lay_label l) (lay_services l) (cmb_services c)) (\<lambda>ss.
       and_then (combine_checks (lay_label l) (lay_checks l) (cmb_checks c)) (\<lambda>cs.
         and_then (combine_targets (lay_label l) (lay_log_targets l) (cmb_targets c)) (\<lambda>ts.
           Inr \<lparr>cmb_services = ss, cmb_checks = cs, cmb_targets = ts\<rparr>)))"

definition map_values :: "('a \<Rightarrow> 'b) \<Rightarrow> 'a go_map \<Rightarrow> 'b go_map" where
  "map_values f m = map (\<lambda>(k, v). (k, f v)) m"

definition CombineLayers :: "layer list \<Rightarrow> plan_error + layer" where
  "CombineLayers layers =
     (if layers = [] then
        Inr \<lparr>lay_order = 0, lay_label = [], lay_summary = [], lay_description = [], lay_services = [],
             lay_checks = [], lay_log_targets = []\<rparr>
      else and_then (fold_try combine_layer layers \<lparr>cmb_services = [], cmb_checks = [], cmb_targets = []\<rparr>)
        (\<lambda>c. Inr \<lparr>lay_order = 0, lay_label = [], lay_summary = lay_summary (last layers),
                   lay_description = lay_description (last layers),
                   lay_services = map_values (\<lambda>s. Some (service_defaults s)) (cmb_services c),
                   lay_checks = map_values (\<lambda>k. Some (check_defaults k)) (cmb_checks c),
                   lay_log_targets = map_values Some (cmb_targets c)\<rparr>))"

subsection \<open>Stacking one kind of object\<close>

text \<open>What one more entry of a name does to what the name stands for.\<close>

definition stack_entry :: "('a \<Rightarrow> string) \<Rightarrow> ('a \<Rightarrow> 'a \<Rightarrow> 'a) \<Rightarrow> 'a option \<Rightarrow> 'a \<Rightarrow> 'a option" where
  "stack_entry ov merge acc x =
     (if ov x = ReplaceOverride then Some x
      else (case acc of None \<Rightarrow> Some x | Some old \<Rightarrow> Some (merge old x)))"

lemma stack_entry_Some: "\<exists>b. stack_entry ov merge acc x = Some b"
  by (simp add: stack_entry_def split: option.split)

fun entries_of :: "string \<Rightarrow> (string \<times> 'a option go_map) list \<Rightarrow> 'a list" where
  "entries_of name [] = []"
| "entries_of name ((label, entries) # layers) =
     (case map_of entries name of
        Some (Some x) \<Rightarrow> x # entries_of name layers
      | _ \<Rightarrow> entries_of name layers)"

definition combine_sections ::
    "('a \<Rightarrow> string) \<Rightarrow> ('a \<Rightarrow> string) \<Rightarrow> ('a \<Rightarrow> 'a \<Rightarrow> 'a) \<Rightarrow> string \<Rightarrow>
     (string \<times> 'a option go_map) list \<Rightarrow> 'a go_map \<Rightarrow> plan_error + 'a go_map" where
  "combine_sections ov nm merge kind layers m =
     fold_try (\<lambda>(label, entries). combine_section ov nm merge kind label entries) layers m"

locale layer_section =
  fixes override :: "'a \<Rightarrow> string"
    and name_of :: "'a \<Rightarrow> string"
    and merge :: "'a \<Rightarrow> 'a \<Rightarrow> 'a"
  assumes merge_assoc: "merge (merge a b) c = merge a (merge b c)"
    and merge_override: "override (merge a b) = override a"
    and merge_name: "name_of (merge a b) = name_of a"
begin

lemma combine_section_lookup:
  "combine_section override name_of merge kind label entries m = Inr m' \<Longrightarrow> distinct (map fst entries) \<Longrightarrow>
     map_of m' name =
       (case map_of entries name of
          Some (Some x) \<Rightarrow> stack_entry override merge (map_of m name) x
        | _ \<Rightarrow> map_of m name)"
proof (induction entries arbitrary: m)
  case (Cons e entries)
  obtain k v where e: "e = (k, v)" by (cases e)
  from Cons.prems(1) obtain x where v: "v = Some x" by (auto simp: e split: option.split_asm)
  define y where "y = (case map_of m k of Some old \<Rightarrow> if override x = MergeOverride then merge old x else x | None \<Rightarrow> x)"
  have ok: "override x = MergeOverride \<or> override x = ReplaceOverride"
    using Cons.prems(1) by (auto simp: e v split: if_split_asm)
  have y: "stack_entry override merge (map_of m k) x = Some y"
    using ok by (auto simp: stack_entry_def y_def MergeOverride_def ReplaceOverride_def split: option.split)
  have "combine_section override name_of merge kind label entries (AList.update k y m) = Inr m'"
    using Cons.prems(1) ok
    by (auto simp: e v y_def MergeOverride_def ReplaceOverride_def split: option.split_asm option.split)
  from Cons.IH [OF this] Cons.prems(2)
  have IH: "map_of m' name = (case map_of entries name of
      Some (Some x) \<Rightarrow> stack_entry override merge (map_of (AList.update k y m) name) x
    | _ \<Rightarrow> map_of (AList.update k y m) name)" by (simp add: e)
  show ?case
  proof (cases "name = k")
    case True
    with Cons.prems(2) have "map_of entries name = None" by (auto simp: e map_of_eq_None_iff)
    with IH True y show ?thesis by (simp add: e v update_conv')
  next
    case False
    then have same: "map_of (AList.update k y m) name = map_of m name" by (simp add: update_conv')
    from IH False show ?thesis unfolding same by (simp add: e)
  qed
qed simp

text \<open>What a name stands for after all layers: its own entries, stacked in the order of the layers.\<close>

lemma combine_sections_lookup:
  "combine_sections override name_of merge kind layers m = Inr m' \<Longrightarrow>
     (\<And>l es. (l, es) \<in> set layers \<Longrightarrow> distinct (map fst es)) \<Longrightarrow>
     map_of m' name = foldl (stack_entry override merge) (map_of m name) (entries_of name layers)"
proof (induction layers arbitrary: m)
  case (Cons l layers)
  obtain label es where l: "l = (label, es)" by (cases l)
  from Cons.prems(1) obtain m1 where m1: "combine_section override name_of merge kind label es m = Inr m1"
    and rest: "combine_sections override name_of merge kind layers m1 = Inr m'"
    by (auto simp: combine_sections_def l and_then_Inr_iff)
  have d: "distinct (map fst es)" using Cons.prems(2) [of label es] by (simp add: l)
  have "map_of m' name = foldl (stack_entry override merge) (map_of m1 name) (entries_of name layers)"
    by (rule Cons.IH [OF rest]) (use Cons.prems(2) in auto)
  with combine_section_lookup [OF m1 d, of name] show ?case
    by (auto simp: l split: option.split option.split_asm)
qed (simp add: combine_sections_def)

text \<open>Consecutive entries can be stacked beforehand.\<close>

lemma stack_assoc:
  "foldl (stack_entry override merge) acc (x # xs) =
     stack_entry override merge acc (the (foldl (stack_entry override merge) None (x # xs)))"
proof (induction xs rule: rev_induct)
  case Nil
  show ?case by (simp add: stack_entry_def split: option.split)
next
  case (snoc y ys)
  obtain b where b: "foldl (stack_entry override merge) None (x # ys) = Some b"
    using stack_entry_Some by (cases ys rule: rev_cases) (fastforce simp del: not_None_eq)+
  from snoc b have acc: "foldl (stack_entry override merge) acc (x # ys) = stack_entry override merge acc b"
    by simp
  have "foldl (stack_entry override merge) acc (x # ys @ [y]) =
      stack_entry override merge (stack_entry override merge acc b) y"
    using acc by simp
  also have "\<dots> = stack_entry override merge acc (the (stack_entry override merge (Some b) y))"
    by (auto simp: stack_entry_def merge_assoc merge_override split: option.split)
  also have "stack_entry override merge (Some b) y = foldl (stack_entry override merge) None (x # ys @ [y])"
    using b by simp
  finally show ?case by simp
qed

end

interpretation services: layer_section svc_override svc_name service_Merge
  by unfold_locales (simp_all add: service_Merge_assoc, simp_all add: service_Merge_def)

interpretation checks: layer_section chk_override chk_name check_Merge
  by unfold_locales (simp_all add: check_Merge_assoc, simp_all add: check_Merge_def)

interpretation targets: layer_section lt_override lt_name log_target_Merge
  by unfold_locales (simp_all add: log_target_Merge_assoc, simp_all add: log_target_Merge_def)


subsection \<open>Properties\<close>

definition layers_wf :: "layer list \<Rightarrow> bool" where
  "layers_wf layers \<longleftrightarrow> (\<forall>l \<in> set layers. distinct (map fst (lay_services l)) \<and>
     distinct (map fst (lay_checks l)) \<and> distinct (map fst (lay_log_targets l)))"

lemma combine_sections_simps [simp]:
  "combine_sections ov nm merge kind [] m = Inr m"
  "combine_sections ov nm merge kind ((l, es) # layers) m =
     and_then (combine_section ov nm merge kind l es m) (combine_sections ov nm merge kind layers)"
  by (simp_all add: combine_sections_def [abs_def])

lemma combine_layers_sections:
  "fold_try combine_layer layers c = Inr c' \<Longrightarrow>
     combine_sections svc_override svc_name service_Merge ''service'' (map (\<lambda>l. (lay_label l, lay_services l)) layers)
       (cmb_services c) = Inr (cmb_services c') \<and>
     combine_sections chk_override chk_name check_Merge ''check'' (map (\<lambda>l. (lay_label l, lay_checks l)) layers)
       (cmb_checks c) = Inr (cmb_checks c') \<and>
     combine_sections lt_override lt_name log_target_Merge ''log target''
       (map (\<lambda>l. (lay_label l, lay_log_targets l)) layers) (cmb_targets c) = Inr (cmb_targets c')"
proof (induction layers arbitrary: c)
  case (Cons l layers)
  then obtain c1 where c1: "combine_layer l c = Inr c1" and rest: "fold_try combine_layer layers c1 = Inr c'"
    by (auto simp: and_then_Inr_iff)
  from c1 have "combine_section svc_override svc_name service_Merge ''service'' (lay_label l) (lay_services l)
        (cmb_services c) = Inr (cmb_services c1) \<and>
      combine_section chk_override chk_name check_Merge ''check'' (lay_label l) (lay_checks l)
        (cmb_checks c) = Inr (cmb_checks c1) \<and>
      combine_section lt_override lt_name log_target_Merge ''log target'' (lay_label l) (lay_log_targets l)
        (cmb_targets c) = Inr (cmb_targets c1)"
    by (auto simp: combine_layer_def and_then_Inr_iff combine_services_def combine_checks_def combine_targets_def)
  with Cons.IH [OF rest] show ?case by simp
qed simp

lemma map_of_map_values [simp]: "map_of (map_values f m) k = map_option f (map_of m k)"
  by (induction m) (auto simp: map_values_def)

text \<open>
  C7: what a name stands for in the combined layer: its own entries in the layers, stacked in the
  order of the layers (a replacement starts afresh, a merge is put on what is there), with the
  defaults put in; other names, and the order in which Go ranges over the maps, have no part in it.
\<close>

theorem CombineLayers_stacks:
  assumes run: "CombineLayers layers = Inr l" and wf: "layers_wf layers"
  shows "map_of (lay_services l) n = map_option (\<lambda>s. Some (service_defaults s))
      (foldl (stack_entry svc_override service_Merge) None
         (entries_of n (map (\<lambda>l. (lay_label l, lay_services l)) layers))) \<and>
    map_of (lay_checks l) n = map_option (\<lambda>c. Some (check_defaults c))
      (foldl (stack_entry chk_override check_Merge) None
         (entries_of n (map (\<lambda>l. (lay_label l, lay_checks l)) layers))) \<and>
    map_of (lay_log_targets l) n = map_option Some
      (foldl (stack_entry lt_override log_target_Merge) None
         (entries_of n (map (\<lambda>l. (lay_label l, lay_log_targets l)) layers)))"
proof (cases "layers = []")
  case False
  with run obtain c where c: "fold_try combine_layer layers \<lparr>cmb_services = [], cmb_checks = [], cmb_targets = []\<rparr> = Inr c"
    and l: "lay_services l = map_values (\<lambda>s. Some (service_defaults s)) (cmb_services c)"
      "lay_checks l = map_values (\<lambda>k. Some (check_defaults k)) (cmb_checks c)"
      "lay_log_targets l = map_values Some (cmb_targets c)"
    by (auto simp: CombineLayers_def and_then_Inr_iff)
  note s = combine_layers_sections [OF c]
  have "map_of (cmb_services c) n = foldl (stack_entry svc_override service_Merge) None
         (entries_of n (map (\<lambda>l. (lay_label l, lay_services l)) layers))"
    using services.combine_sections_lookup [of _ _ "[]" "cmb_services c"] s wf by (fastforce simp: layers_wf_def)
  moreover have "map_of (cmb_checks c) n = foldl (stack_entry chk_override check_Merge) None
         (entries_of n (map (\<lambda>l. (lay_label l, lay_checks l)) layers))"
    using checks.combine_sections_lookup [of _ _ "[]" "cmb_checks c"] s wf by (fastforce simp: layers_wf_def)
  moreover have "map_of (cmb_targets c) n = foldl (stack_entry lt_override log_target_Merge) None
         (entries_of n (map (\<lambda>l. (lay_label l, lay_log_targets l)) layers))"
    using targets.combine_sections_lookup [of _ _ "[]" "cmb_targets c"] s wf by (fastforce simp: layers_wf_def)
  ultimately show ?thesis by (simp add: l)
qed (use run in \<open>auto simp: CombineLayers_def\<close>)

definition unset_dur :: optional_duration where "unset_dur = \<lparr>od_value = 0, od_is_set = False\<rparr>"

definition blank_service :: "string \<Rightarrow> string \<Rightarrow> service" where
  "blank_service name ov =
     \<lparr>svc_name = name, svc_summary = [], svc_description = [], svc_startup = [], svc_override = ov,
      svc_command = [], svc_after = [], svc_before = [], svc_requires = [], svc_workload = [],
      svc_environment = fmempty, svc_user_id = None, svc_user = [], svc_group_id = None, svc_group = [],
      svc_working_dir = [], svc_on_success = [], svc_on_failure = [], svc_on_check_failure = fmempty,
      svc_backoff_delay = unset_dur, svc_backoff_factor = \<lparr>of_value = 0, of_is_set = False\<rparr>,
      svc_backoff_limit = unset_dur, svc_kill_delay = unset_dur\<rparr>"

definition blank_check :: "string \<Rightarrow> string \<Rightarrow> check" where
  "blank_check name ov =
     \<lparr>chk_name = name, chk_override = ov, chk_level = [], chk_startup = [], chk_period = unset_dur,
      chk_timeout = unset_dur, chk_threshold = 0, chk_http = None, chk_tcp = None, chk_exec = None\<rparr>"

definition blank_layer :: "string \<Rightarrow> layer" where
  "blank_layer label =
     \<lparr>lay_order = 0, lay_label = label, lay_summary = [], lay_description = [], lay_services = [],
      lay_checks = [], lay_log_targets = []\<rparr>"

definition sample_layers :: "layer list" where
  "sample_layers =
     [(blank_layer ''base'')\<lparr>lay_services := [(''web'', Some ((blank_service ''web'' ''replace'')
         \<lparr>svc_command := ''httpd'', svc_requires := [''db'']\<rparr>))]\<rparr>,
      (blank_layer ''local'')\<lparr>lay_services := [(''web'', Some ((blank_service ''web'' ''merge'')
         \<lparr>svc_command := ''httpd -v'', svc_requires := [''cache'']\<rparr>))]\<rparr>]"

theorem CombineLayers_stacks_witness:
  "\<exists>l s. CombineLayers sample_layers = Inr l \<and> map_of (lay_services l) ''web'' = Some (Some s) \<and>
     svc_command s = ''httpd -v'' \<and> svc_requires s = [''db'', ''cache'']"
proof -
  have "case CombineLayers sample_layers of Inl e \<Rightarrow> False | Inr l \<Rightarrow> True" by code_simp
  then obtain l where l: "CombineLayers sample_layers = Inr l"
    by (cases "CombineLayers sample_layers") auto
  have wf: "layers_wf sample_layers" by (simp add: layers_wf_def sample_layers_def blank_layer_def)
  from CombineLayers_stacks [OF l wf, of "''web''"]
  have "map_of (lay_services l) ''web'' = map_option (\<lambda>s. Some (service_defaults s))
      (foldl (stack_entry svc_override service_Merge) None
         (entries_of ''web'' (map (\<lambda>l. (lay_label l, lay_services l)) sample_layers)))" by blast
  then have "\<exists>s. map_of (lay_services l) ''web'' = Some (Some s) \<and>
     svc_command s = ''httpd -v'' \<and> svc_requires s = [''db'', ''cache'']"
    by (simp add: sample_layers_def stack_entry_def ReplaceOverride_def blank_service_def blank_layer_def
        service_Merge_def or_str_def service_defaults_def)
  with l show ?thesis by blast
qed

end
