(* ===== verification/StartOrder.thy ===== *)
theory StartOrder
  imports TarjanSort PlanLayers "HOL-Library.Multiset" "HOL-Library.Sublist"
begin

text \<open>
  \<open>order\<close>, \<open>StartOrder\<close>, \<open>StopOrder\<close> and \<open>checkCycles\<close> of \<open>plan.go\<close>.  \<open>iter\<close> is the order in which Go
  ranges over the map of the collected services: any permutation.  The lemmas characterise when an
  order exists and what it contains; the lanes are shown to be a partition that keeps the order,
  and the cases in which related services end up in different lanes are exhibited.
\<close>

definition no_service :: "string \<Rightarrow> plan_error" where
  "no_service name = format_error ''service %q does not exist'' [name]"

definition predecessors :: "service go_map \<Rightarrow> string \<Rightarrow> string list" where
  "predecessors services name =
     concat (map (\<lambda>(n, s). map (\<lambda>_. n) (filter (\<lambda>req. req = name) (svc_requires s))) services)"

function collect :: "bool \<Rightarrow> service go_map \<Rightarrow> string list \<Rightarrow> string list \<Rightarrow> plan_error + string list" where
  "collect stop services [] seen = Inr seen"
| "collect stop services (name # pending) seen =
     (if name \<in> set seen then collect stop services pending seen
      else if stop then collect stop services (pending @ predecessors services name) (seen @ [name])
      else (case map_of services name of
              None \<Rightarrow> Inl (no_service name)
            | Some s \<Rightarrow> collect stop services (pending @ svc_requires s) (seen @ [name])))"
  by pat_completeness auto

lemma predecessors_known: "n \<in> set (predecessors services name) \<Longrightarrow> n \<in> fst ` set services"
  by (force simp: predecessors_def)

lemma collect_known_less:
  assumes "name \<in> fst ` set services" "name \<notin> set seen"
  shows "card (fst ` set services - set (seen @ [name])) < card (fst ` set services - set seen)"
  using assms by (intro psubset_card_mono) auto

lemma collect_unknown_eq:
  assumes "name \<notin> fst ` set services"
  shows "fst ` set services - set (seen @ [name]) = fst ` set services - set seen"
  using assms by auto

termination collect
proof (relation "measures [\<lambda>(stop, ss, pending, seen). card (fst ` set ss - set seen),
      \<lambda>(stop, ss, pending, seen). length (filter (\<lambda>n. n \<notin> fst ` set ss) pending),
      \<lambda>(stop, ss, pending, seen). length pending]", goal_cases)
  case 1
  show ?case by simp
next
  case (2 stop services name pending seen)
  then show ?case by auto
next
  case (3 stop services name pending seen)
  show ?case
  proof (cases "name \<in> fst ` set services")
    case True
    with 3 collect_known_less [OF True 3(1)] show ?thesis by simp
  next
    case False
    have "filter (\<lambda>n. n \<notin> fst ` set services) (predecessors services name) = []"
      using predecessors_known by (auto simp: filter_empty_conv)
    with False collect_unknown_eq [OF False, of seen] show ?thesis by simp
  qed
next
  case (4 stop services name pending seen s)
  then have "name \<in> fst ` set services" by (auto dest: map_of_SomeD intro: rev_image_eqI)
  from collect_known_less [OF this 4(1)] show ?case by simp
qed

definition link_service :: "bool \<Rightarrow> service go_map \<Rightarrow> string \<Rightarrow> successors \<Rightarrow> plan_error + successors" where
  "link_service stop services name g =
     (case map_of services name of
        None \<Rightarrow> Inl (no_service name)
      | Some s \<Rightarrow>
          (let after = (if stop then svc_before s else svc_after s);
               before = (if stop then svc_after s else svc_before s);
               g' = fmupd name (succs g name @ filter (\<lambda>a. a |\<in>| fmdom g) after) g
           in Inr (fold (\<lambda>b g. case fmlookup g b of None \<Rightarrow> g | Some l \<Rightarrow> fmupd b (l @ [name]) g) before g')))"

fun strings_Join :: "string list \<Rightarrow> string \<Rightarrow> string" where
  "strings_Join [] sep = []"
| "strings_Join [x] sep = x"
| "strings_Join (x # xs) sep = x @ sep @ strings_Join xs sep"

definition concat_components :: "string list \<Rightarrow> string list \<Rightarrow> plan_error + string list" where
  "concat_components names order =
     (case names of
        [] \<Rightarrow> Inl PlanPanic
      | [name] \<Rightarrow> Inr (order @ [name])
      | _ \<Rightarrow> Inl (format_error ''services in before/after loop: %s'' [strings_Join names '', '']))"

definition order :: "service go_map \<Rightarrow> (string list \<Rightarrow> string list) \<Rightarrow> string list \<Rightarrow> bool \<Rightarrow> plan_error + string list" where
  "order services iter names stop =
     and_then (collect stop services names []) (\<lambda>seen.
       and_then (fold_try (link_service stop services) (iter seen) (fmap_of_list (map (\<lambda>n. (n, [])) seen))) (\<lambda>g.
         case tarjanSort g of
           None \<Rightarrow> Inl PlanPanic
         | Some components \<Rightarrow> fold_try concat_components components []))"

type_synonym lane_mapping = "(string, int) fmap"

definition mapServiceToLane :: "service \<Rightarrow> int \<Rightarrow> lane_mapping \<Rightarrow> lane_mapping" where
  "mapServiceToLane s lane m = fold (\<lambda>d m. fmupd d lane m) (svc_requires s) (fmupd (svc_name s) lane m)"

fun first_lane :: "string list \<Rightarrow> lane_mapping \<Rightarrow> int option" where
  "first_lane [] m = None"
| "first_lane (d # ds) m = (case fmlookup m d of Some lane \<Rightarrow> Some lane | None \<Rightarrow> first_lane ds m)"

definition getOrCreateLane :: "int \<Rightarrow> service \<Rightarrow> lane_mapping \<Rightarrow> int \<times> lane_mapping" where
  "getOrCreateLane current s m =
     (let lane = (case first_lane (svc_name s # svc_requires s) m of Some lane \<Rightarrow> lane | None \<Rightarrow> current + 1)
      in (lane, mapServiceToLane s lane m))"

fun map_lanes :: "service go_map \<Rightarrow> string list \<Rightarrow> int \<times> int \<times> lane_mapping \<Rightarrow> plan_error + int \<times> lane_mapping" where
  "map_lanes services [] (lane, high, m) = Inr (high, m)"
| "map_lanes services (name # names) (lane, high, m) =
     (case map_of services name of
        None \<Rightarrow> Inl (no_service name)
      | Some s \<Rightarrow>
          (let (lane', m') = getOrCreateLane lane s m in
           map_lanes services names (lane', max high lane', m')))"

definition lane_of :: "lane_mapping \<Rightarrow> string \<Rightarrow> nat" where
  "lane_of m n = nat (case fmlookup m n of None \<Rightarrow> 0 | Some lane \<Rightarrow> lane)"

definition createLanes :: "string list \<Rightarrow> service go_map \<Rightarrow> plan_error + string list list" where
  "createLanes names services =
     and_then (map_lanes services names (-1, 0, fmempty)) (\<lambda>(high, m).
       Inr (fold (\<lambda>n lanes. lanes[lane_of m n := lanes ! lane_of m n @ [n]]) names
              (replicate (nat (high + 1)) [])))"

definition StartOrder :: "plan \<Rightarrow> (string list \<Rightarrow> string list) \<Rightarrow> string list \<Rightarrow> plan_error + string list list" where
  "StartOrder p iter names =
     and_then (order (plan_services p) iter names False) (\<lambda>ordered. createLanes ordered (plan_services p))"

definition StopOrder :: "plan \<Rightarrow> (string list \<Rightarrow> string list) \<Rightarrow> string list \<Rightarrow> plan_error + string list list" where
  "StopOrder p iter names =
     and_then (order (plan_services p) iter names True) (\<lambda>ordered. createLanes ordered (plan_services p))"

definition checkCycles :: "plan \<Rightarrow> (string list \<Rightarrow> string list) \<Rightarrow> plan_error + unit" where
  "checkCycles p iter =
     and_then (order (plan_services p) iter (map fst (plan_services p)) False) (\<lambda>_. Inr ())"

subsection \<open>The services collected\<close>

definition neighbours :: "bool \<Rightarrow> service go_map \<Rightarrow> string \<Rightarrow> string list" where
  "neighbours stop services n =
     (if stop then predecessors services n
      else case map_of services n of None \<Rightarrow> [] | Some s \<Rightarrow> svc_requires s)"

definition deps :: "bool \<Rightarrow> service go_map \<Rightarrow> (string \<times> string) set" where
  "deps stop services = {(x, y). y \<in> set (neighbours stop services x)}"

definition needed :: "bool \<Rightarrow> service go_map \<Rightarrow> string list \<Rightarrow> string set" where
  "needed stop services names = (deps stop services)\<^sup>* `` set names"

lemma collect_Inr:
  "collect stop services pending seen = Inr out \<Longrightarrow> distinct seen \<Longrightarrow>
     (\<And>x. x \<in> set seen \<Longrightarrow> set (neighbours stop services x) \<subseteq> set seen \<union> set pending) \<Longrightarrow>
     distinct out \<and> set seen \<union> set pending \<subseteq> set out \<and> deps stop services `` set out \<subseteq> set out \<and>
     set out \<subseteq> set seen \<union> needed stop services pending \<and>
     (stop \<or> (\<forall>x \<in> set out - set seen. map_of services x \<noteq> None))"
proof (induction stop services pending seen rule: collect.induct)
  case (1 stop services seen)
  then show ?case by (auto simp: deps_def)
next
  case (2 stop services name pending seen)
  show ?case
  proof (cases "name \<in> set seen")
    case True
    have "needed stop services pending \<subseteq> needed stop services (name # pending)"
      by (auto simp: needed_def)
    moreover have "distinct out \<and> set seen \<union> set pending \<subseteq> set out \<and> deps stop services `` set out \<subseteq> set out \<and>
        set out \<subseteq> set seen \<union> needed stop services pending \<and>
        (stop \<or> (\<forall>x \<in> set out - set seen. map_of services x \<noteq> None))"
      using 2(4-6) True by (intro 2(1)) auto
    ultimately show ?thesis using True by auto
  next
    case False
    define nbs where "nbs = neighbours stop services name"
    have run: "collect stop services (pending @ nbs) (seen @ [name]) = Inr out"
      and known: "stop \<or> map_of services name \<noteq> None"
      using 2(4) False by (auto simp: nbs_def neighbours_def split: option.split_asm if_split_asm)
    have n: "(name, x) \<in> deps stop services" if "x \<in> set nbs" for x
      using that by (simp add: deps_def nbs_def)
    have "needed stop services (pending @ nbs) \<subseteq> needed stop services (name # pending)"
      unfolding needed_def using n by (auto intro: converse_rtrancl_into_rtrancl)
    moreover have "name \<in> needed stop services (name # pending)" by (auto simp: needed_def)
    moreover have d: "distinct (seen @ [name])" using 2(5) False by simp
    have pre: "set (neighbours stop services x) \<subseteq> set (seen @ [name]) \<union> set (pending @ nbs)"
      if "x \<in> set (seen @ [name])" for x
      using 2(6) [of x] that by (auto simp: nbs_def)
    have "distinct out \<and> set (seen @ [name]) \<union> set (pending @ nbs) \<subseteq> set out \<and>
        deps stop services `` set out \<subseteq> set out \<and>
        set out \<subseteq> set (seen @ [name]) \<union> needed stop services (pending @ nbs) \<and>
        (stop \<or> (\<forall>x \<in> set out - set (seen @ [name]). map_of services x \<noteq> None))"
    proof (cases stop)
      case True
      then have nb: "nbs = predecessors services name" by (simp add: nbs_def neighbours_def)
      show ?thesis using 2(2) [OF False True] run d pre unfolding nb by blast
    next
      case start: False
      with known obtain s where s: "map_of services name = Some s" by auto
      with start have nb: "nbs = svc_requires s" by (simp add: nbs_def neighbours_def)
      show ?thesis using 2(3) [OF False start s] run d pre unfolding nb by blast
    qed
    ultimately show ?thesis using known by auto
  qed
qed

lemma collect_Inl:
  "collect stop services pending seen = Inl e \<Longrightarrow>
     \<not> stop \<and> (\<exists>x \<in> needed stop services pending. map_of services x = None \<and> e = no_service x)"
proof (induction stop services pending seen rule: collect.induct)
  case (2 stop services name pending seen)
  show ?case
  proof (cases "name \<in> set seen")
    case True
    with 2(4) have "collect stop services pending seen = Inl e" by simp
    from 2(1) [OF True this] have "\<not> stop \<and> (\<exists>x \<in> needed stop services pending. map_of services x = None \<and> e = no_service x)"
      .
    moreover have "needed stop services pending \<subseteq> needed stop services (name # pending)"
      by (auto simp: needed_def)
    ultimately show ?thesis by blast
  next
    case False
    show ?thesis
    proof (cases "stop \<or> map_of services name \<noteq> None")
      case True
      define nbs where "nbs = neighbours stop services name"
      have "collect stop services (pending @ nbs) (seen @ [name]) = Inl e"
        using 2(4) False True by (auto simp: nbs_def neighbours_def split: option.split_asm)
      then have "\<not> stop \<and> (\<exists>x \<in> needed stop services (pending @ nbs). map_of services x = None \<and> e = no_service x)"
        using True 2(2,3) [OF False] by (auto simp: nbs_def neighbours_def split: option.split_asm)
      moreover have "(name, x) \<in> deps stop services" if "x \<in> set nbs" for x
        using that by (simp add: deps_def nbs_def)
      then have "needed stop services (pending @ nbs) \<subseteq> needed stop services (name # pending)"
        unfolding needed_def by (auto intro: converse_rtrancl_into_rtrancl)
      ultimately show ?thesis by blast
    next
      case unknown: False
      with 2(4) False have "e = no_service name" by auto
      with unknown show ?thesis by (auto simp: needed_def)
    qed
  qed
qed simp

lemma collect_needed:
  assumes "collect stop services names [] = Inr out"
  shows "distinct out" "set out = needed stop services names"
    and "stop \<or> (\<forall>x \<in> set out. map_of services x \<noteq> None)"
proof -
  have *: "distinct out \<and> set names \<subseteq> set out \<and> deps stop services `` set out \<subseteq> set out \<and>
     set out \<subseteq> needed stop services names \<and> (stop \<or> (\<forall>x \<in> set out. map_of services x \<noteq> None))"
    using collect_Inr [OF assms] by auto
  then have "needed stop services names \<subseteq> set out"
    unfolding needed_def using Image_closed_trancl [of "deps stop services" "set out"] by blast
  with * show "distinct out" "set out = needed stop services names"
    "stop \<or> (\<forall>x \<in> set out. map_of services x \<noteq> None)" by blast+
qed

subsection \<open>The graph that is sorted\<close>

text \<open>\<open>a\<close> has to be handled before \<open>b\<close>.\<close>

definition after_of :: "bool \<Rightarrow> service go_map \<Rightarrow> string \<Rightarrow> string list" where
  "after_of stop services n =
     (case map_of services n of None \<Rightarrow> [] | Some s \<Rightarrow> if stop then svc_before s else svc_after s)"

definition before_of :: "bool \<Rightarrow> service go_map \<Rightarrow> string \<Rightarrow> string list" where
  "before_of stop services n =
     (case map_of services n of None \<Rightarrow> [] | Some s \<Rightarrow> if stop then svc_after s else svc_before s)"

definition must_precede :: "bool \<Rightarrow> service go_map \<Rightarrow> string \<Rightarrow> string \<Rightarrow> bool" where
  "must_precede stop services a b \<longleftrightarrow> a \<in> set (after_of stop services b) \<or> b \<in> set (before_of stop services a)"

definition linked :: "bool \<Rightarrow> service go_map \<Rightarrow> string set \<Rightarrow> successors \<Rightarrow> bool" where
  "linked stop services D g \<longleftrightarrow> (\<forall>n. set (succs g n) = {a. a |\<in>| fmdom g \<and> n |\<in>| fmdom g \<and>
     (n \<in> D \<and> a \<in> set (after_of stop services n) \<or> a \<in> D \<and> n \<in> set (before_of stop services a))})"

lemma succs_upd: "succs (fmupd k l g) n = (if n = k then l else succs g n)"
  by (simp add: succs_def)

lemma succs_fmdom: "fmlookup g n = Some l \<Longrightarrow> succs g n = l"
  by (simp add: succs_def)

lemma append_before:
  fixes g :: successors
  defines "step \<equiv> \<lambda>name b (g :: successors). case fmlookup g b of None \<Rightarrow> g | Some l \<Rightarrow> fmupd b (l @ [name]) g"
  shows "fmdom (fold (step name) before g) = fmdom g"
    and "set (succs (fold (step name) before g) n) =
      set (succs g n) \<union> (if n \<in> set before \<and> n |\<in>| fmdom g then {name} else {})"
proof -
  have d: "fmdom (step name b h) = fmdom h" for b h
    by (auto simp: step_def fmdomI finsert_absorb split: option.split)
  show dom: "fmdom (fold (step name) before g) = fmdom g"
    by (induction before arbitrary: g) (simp_all add: d)
  show "set (succs (fold (step name) before g) n) =
      set (succs g n) \<union> (if n \<in> set before \<and> n |\<in>| fmdom g then {name} else {})"
  proof (induction before arbitrary: g)
    case (Cons b bs)
    have "set (succs (step name b g) n) = set (succs g n) \<union> (if n = b \<and> n |\<in>| fmdom g then {name} else {})"
      by (auto simp: step_def succs_upd succs_fmdom fmlookup_dom_iff split: option.split)
    then show ?case using Cons [of "step name b g"] by (auto simp: d)
  qed simp
qed

lemma link_service_linked:
  assumes run: "link_service stop services name g = Inr g'" and l: "linked stop services D g"
    and name: "name |\<in>| fmdom g"
  shows "linked stop services (insert name D) g'" "fmdom g' = fmdom g" "map_of services name \<noteq> None"
proof -
  from run obtain s where s: "map_of services name = Some s"
    by (auto simp: link_service_def split: option.split_asm)
  then show "map_of services name \<noteq> None" by simp
  let ?after = "after_of stop services name"
  let ?before = "before_of stop services name"
  let ?g = "fmupd name (succs g name @ filter (\<lambda>a. a |\<in>| fmdom g) ?after) g"
  have g': "g' = fold (\<lambda>b g. case fmlookup g b of None \<Rightarrow> g | Some l \<Rightarrow> fmupd b (l @ [name]) g) ?before ?g"
    using run s by (simp add: link_service_def Let_def after_of_def before_of_def)
  have dom: "fmdom ?g = fmdom g" using name by (auto simp: finsert_absorb)
  show d: "fmdom g' = fmdom g" unfolding g' append_before dom ..
  have g1: "set (succs g' n) = set (succs ?g n) \<union> (if n \<in> set ?before \<and> n |\<in>| fmdom g then {name} else {})" for n
    unfolding g' append_before dom ..
  have g2: "set (succs ?g n) = set (succs g n) \<union> (if n = name then {a \<in> set ?after. a |\<in>| fmdom g} else {})" for n
    by (auto simp: succs_upd)
  show "linked stop services (insert name D) g'"
    unfolding linked_def d g1 g2
  proof
    fix n
    from l have "set (succs g n) = {a. a |\<in>| fmdom g \<and> n |\<in>| fmdom g \<and>
        (n \<in> D \<and> a \<in> set (after_of stop services n) \<or> a \<in> D \<and> n \<in> set (before_of stop services a))}"
      unfolding linked_def by blast
    then show "set (succs g n) \<union> (if n = name then {a \<in> set ?after. a |\<in>| fmdom g} else {}) \<union>
        (if n \<in> set ?before \<and> n |\<in>| fmdom g then {name} else {}) =
      {a. a |\<in>| fmdom g \<and> n |\<in>| fmdom g \<and>
        (n \<in> insert name D \<and> a \<in> set (after_of stop services n) \<or>
         a \<in> insert name D \<and> n \<in> set (before_of stop services a))}"
      using name by auto
  qed
qed

lemma link_all_Inr:
  "fold_try (link_service stop services) xs g = Inr g' \<Longrightarrow> linked stop services D g \<Longrightarrow>
     set xs \<subseteq> fset (fmdom g) \<Longrightarrow>
     linked stop services (D \<union> set xs) g' \<and> fmdom g' = fmdom g \<and> (\<forall>x \<in> set xs. map_of services x \<noteq> None)"
proof (induction xs arbitrary: g D)
  case (Cons x xs)
  then obtain h where h: "link_service stop services x g = Inr h" "fold_try (link_service stop services) xs h = Inr g'"
    by (auto simp: and_then_Inr_iff)
  from Cons.prems(3) have x: "x |\<in>| fmdom g" by simp
  note l = link_service_linked [OF h(1) Cons.prems(2) x]
  from Cons.IH [OF h(2) l(1)] Cons.prems(3) l(2,3) show ?case by simp
qed simp

lemma link_all_Inl:
  "fold_try (link_service stop services) xs g = Inl e \<Longrightarrow> \<exists>x \<in> set xs. map_of services x = None \<and> e = no_service x"
proof (induction xs arbitrary: g)
  case (Cons x xs)
  then show ?case
    by (auto simp: and_then_Inl_iff link_service_def Let_def split: option.split_asm)
qed simp

definition loop_error :: "string list \<Rightarrow> plan_error" where
  "loop_error names = format_error ''services in before/after loop: %s'' [strings_Join names '', '']"

lemma concat_components_cases:
  "names \<noteq> [] \<Longrightarrow> concat_components names out =
     (if 1 < length names then Inl (loop_error names) else Inr (out @ names))"
  by (cases names rule: remdups_adj.cases) (simp_all add: concat_components_def loop_error_def)

lemma concat_all:
  "[] \<notin> set cs \<Longrightarrow>
     (\<forall>c \<in> set cs. length c = 1) \<and> fold_try concat_components cs out = Inr (out @ concat cs) \<or>
     (\<exists>c \<in> set cs. 1 < length c \<and> fold_try concat_components cs out = Inl (loop_error c))"
proof (induction cs arbitrary: out)
  case (Cons c cs)
  show ?case
  proof (cases "1 < length c")
    case True
    then show ?thesis using Cons.prems by (auto simp: concat_components_cases)
  next
    case False
    with Cons.prems have "length c = 1" "[] \<notin> set cs" by (cases c; auto)+
    moreover have "fold_try concat_components (c # cs) out = fold_try concat_components cs (out @ c)"
      using Cons.prems False by (auto simp: concat_components_cases)
    ultimately show ?thesis using Cons.IH [of "out @ c"] by auto
  qed
qed simp

definition reordering :: "(string list \<Rightarrow> string list) \<Rightarrow> bool" where
  "reordering iter \<longleftrightarrow> (\<forall>xs. mset (iter xs) = mset xs)"

definition precedence :: "bool \<Rightarrow> service go_map \<Rightarrow> string list \<Rightarrow> (string \<times> string) set" where
  "precedence stop services names =
     {(b, a). b \<in> needed stop services names \<and> a \<in> needed stop services names \<and> must_precede stop services a b}"

text \<open>How \<open>order\<close> comes to its result.\<close>

lemma order_cases:
  assumes perm: "reordering iter"
  obtains (unknown) n where "n \<in> needed stop services names" "map_of services n = None"
      "order services iter names stop = Inl (no_service n)"
  | (sorted) g cs where "\<forall>n \<in> needed stop services names. map_of services n \<noteq> None"
      "edges g = precedence stop services names"
      "distinct (concat cs)" "[] \<notin> set cs" "set (concat cs) = needed stop services names"
      "output_ordered g cs" "\<forall>c \<in> set cs. mutual g c"
      "order services iter names stop = fold_try concat_components cs []"
proof (cases "collect stop services names []")
  case (Inl e)
  from collect_Inl [OF this] obtain n where "n \<in> needed stop services names" "map_of services n = None"
      "e = no_service n" by blast
  with Inl unknown show thesis by (simp add: order_def)
next
  case (Inr seen)
  note seen = collect_needed [OF Inr]
  let ?g = "fmap_of_list (map (\<lambda>n. (n, [])) seen) :: successors"
  have iter: "set (iter seen) = set seen" using perm unfolding reordering_def by (metis mset_eq_setD)
  have dom0: "fset (fmdom ?g) = set seen" by (auto simp: fset_of_list.rep_eq image_image)
  have s0: "succs ?g n = []" for n by (auto simp: succs_def fmlookup_of_list map_of_map_restrict restrict_map_def)
  have "linked stop services {} ?g" by (simp add: linked_def s0)
  show thesis
  proof (cases "fold_try (link_service stop services) (iter seen) ?g")
    case (Inl e)
    from link_all_Inl [OF this] obtain n where "n \<in> set seen" "map_of services n = None" "e = no_service n"
      using iter by blast
    with Inl Inr seen(2) unknown show thesis by (simp add: order_def)
  next
    case g: (Inr g)
    from link_all_Inr [OF g \<open>linked stop services {} ?g\<close>] iter dom0
    have l: "linked stop services (set seen) g" "fset (fmdom g) = set seen"
      and known: "\<forall>n \<in> set seen. map_of services n \<noteq> None" by auto
    have e: "edges g = precedence stop services names"
      using l unfolding edges_def linked_def precedence_def must_precede_def seen(2) [symmetric] by auto
    obtain cs where cs: "tarjanSort g = Some cs" "distinct (concat cs)" "[] \<notin> set cs"
        "fset (fmdom g) \<subseteq> set (concat cs)" "set (concat cs) \<subseteq> tarjan_universe g" "output_ordered g cs"
        "\<forall>c \<in> set cs. mutual g c"
      using tarjanSort_ok [of g] by blast
    have "tarjan_universe g \<subseteq> set seen"
      using l unfolding tarjan_universe_def linked_def by (auto simp: tarjan_ids_set)
    with cs(4,5) l(2) seen(2) have "set (concat cs) = needed stop services names" by blast
    with sorted [OF _ e cs(2,3) _ cs(6,7)] known seen(2) show thesis
      by (simp add: order_def Inr g cs(1))
  qed
qed

lemma singletons_ordered:
  assumes "output_ordered g cs" "\<forall>c \<in> set cs. length c = 1" "(k, s) \<in> edges g" "s \<noteq> k" "k \<in> set (concat cs)"
  shows "\<exists>xs ys zs. concat cs = xs @ s # ys @ k # zs"
proof -
  from assms(5) obtain c where c: "c \<in> set cs" "k \<in> set c" by auto
  with assms(2) have "c = [k]" by (cases c) auto
  with c(1) obtain pre post where cs: "cs = pre @ [k] # post" by (meson split_list)
  with assms(1,3,4) have "s \<in> set (concat pre)" unfolding output_ordered_def edges_def by blast
  then obtain xs ys where "concat pre = xs @ s # ys" by (meson split_list)
  with cs have "concat cs = xs @ s # ys @ k # concat post" by simp
  then show ?thesis by blast
qed

definition position :: "string list \<Rightarrow> string \<Rightarrow> nat" where
  "position xs x = length (takeWhile (\<lambda>y. y \<noteq> x) xs)"

lemma position_less:
  assumes "distinct (xs @ s # ys @ k # zs)"
  shows "position (xs @ s # ys @ k # zs) s < position (xs @ s # ys @ k # zs) k"
proof -
  have "position (xs @ s # ys @ k # zs) s = length xs"
    using assms by (subst position_def, subst takeWhile_append2) auto
  moreover have "position (xs @ s # ys @ k # zs) k = length (xs @ s # ys)"
  proof -
    have "takeWhile (\<lambda>y. y \<noteq> k) ((xs @ s # ys) @ k # zs) = xs @ s # ys"
      using assms by (subst takeWhile_append2) auto
    then show ?thesis by (simp add: position_def)
  qed
  ultimately show ?thesis by simp
qed

lemma singletons_acyclic:
  assumes "output_ordered g cs" "\<forall>c \<in> set cs. length c = 1" "distinct (concat cs)"
    and "\<And>k s. (k, s) \<in> edges g \<Longrightarrow> k \<in> set (concat cs)"
    and "(a, b) \<in> (edges g)\<^sup>*" "(b, a) \<in> (edges g)\<^sup>*"
  shows "a = b"
proof -
  have edge: "position (concat cs) s < position (concat cs) k" if "(k, s) \<in> edges g" "s \<noteq> k" for k s
    using singletons_ordered [OF assms(1,2) that assms(4) [OF that(1)]] position_less assms(3) by metis
  have "x = y \<or> position (concat cs) y < position (concat cs) x" if "(x, y) \<in> (edges g)\<^sup>*" for x y
    using that by induction (use edge in \<open>fastforce intro: less_trans\<close>)+
  from this [OF assms(5)] this [OF assms(6)] show ?thesis by auto
qed

subsection \<open>Lanes\<close>

lemma fmlookup_mapServiceToLane:
  "fmlookup (mapServiceToLane s lane m) x =
     (if x = svc_name s \<or> x \<in> set (svc_requires s) then Some lane else fmlookup m x)"
proof -
  have "fmlookup (fold (\<lambda>d m. fmupd d lane m) ds m) x = (if x \<in> set ds then Some lane else fmlookup m x)" for ds m
    by (induction ds arbitrary: m) auto
  then show ?thesis by (auto simp: mapServiceToLane_def)
qed

lemma mapServiceToLane_range:
  "l |\<in>| fmran (mapServiceToLane s lane m) \<Longrightarrow> l = lane \<or> l |\<in>| fmran m"
  by (auto elim!: fmranE simp: fmlookup_mapServiceToLane intro: fmranI split: if_split_asm)

lemma first_lane_range: "first_lane ds m = Some l \<Longrightarrow> l |\<in>| fmran m"
  by (induction ds) (auto split: option.split_asm intro: fmranI)

definition lanes_within :: "lane_mapping \<Rightarrow> int \<Rightarrow> bool" where
  "lanes_within m high \<longleftrightarrow> (\<forall>l. l |\<in>| fmran m \<longrightarrow> 0 \<le> l \<and> l \<le> high)"

lemma map_lanes_ok:
  "map_lanes services names (lane, high, m) = Inr (high', m') \<Longrightarrow> lanes_within m high \<Longrightarrow> -1 \<le> lane \<Longrightarrow>
     (\<And>n s. map_of services n = Some s \<Longrightarrow> svc_name s = n) \<Longrightarrow>
     lanes_within m' high' \<and> high \<le> high' \<and> (\<forall>n. n \<in> set names \<or> fmlookup m n \<noteq> None \<longrightarrow> fmlookup m' n \<noteq> None)"
proof (induction names arbitrary: lane high m)
  case (Cons n names)
  from Cons.prems(1) obtain s where s: "map_of services n = Some s" by (auto split: option.split_asm)
  define l where "l = (case first_lane (svc_name s # svc_requires s) m of Some l \<Rightarrow> l | None \<Rightarrow> lane + 1)"
  let ?m = "mapServiceToLane s l m"
  have rest: "map_lanes services names (l, max high l, ?m) = Inr (high', m')"
    using Cons.prems(1) s by (simp add: getOrCreateLane_def Let_def l_def)
  have "0 \<le> l"
  proof (cases "first_lane (svc_name s # svc_requires s) m")
    case None
    then show ?thesis using Cons.prems(3) by (simp add: l_def)
  next
    case (Some l')
    from first_lane_range [OF this] Some Cons.prems(2) show ?thesis by (simp add: l_def lanes_within_def)
  qed
  moreover have "lanes_within ?m (max high l)"
    using Cons.prems(2) mapServiceToLane_range [of _ s l m] \<open>0 \<le> l\<close> unfolding lanes_within_def by fastforce
  ultimately have "lanes_within m' high' \<and> max high l \<le> high' \<and>
      (\<forall>x. x \<in> set names \<or> fmlookup ?m x \<noteq> None \<longrightarrow> fmlookup m' x \<noteq> None)"
    using Cons.IH [OF rest _ _ Cons.prems(4)] by simp
  with Cons.prems(4) [OF s] show ?case by (auto simp: fmlookup_mapServiceToLane)
qed simp

lemma fold_lanes:
  assumes "\<And>n. n \<in> set names \<Longrightarrow> f n < k"
  shows "fold (\<lambda>n lanes. lanes[f n := lanes ! f n @ [n]]) names (replicate k []) =
    map (\<lambda>i. filter (\<lambda>n. f n = i) names) [0..<k]"
  using assms
proof (induction names rule: rev_induct)
  case Nil
  show ?case by (simp add: map_replicate_const)
next
  case (snoc n names)
  then show ?case by (auto intro!: nth_equalityI simp: nth_list_update)
qed

lemma createLanes_ok:
  assumes run: "createLanes names services = Inr lanes"
    and named: "\<And>n s. map_of services n = Some s \<Longrightarrow> svc_name s = n"
  shows "\<exists>f k. lanes = map (\<lambda>i. filter (\<lambda>n. f n = i) names) [0..<k] \<and> (\<forall>n \<in> set names. f n < k)"
proof -
  from run obtain high m where m: "map_lanes services names (-1, 0, fmempty) = Inr (high, m)"
    and l: "lanes = fold (\<lambda>n lanes. lanes[lane_of m n := lanes ! lane_of m n @ [n]]) names (replicate (nat (high + 1)) [])"
    by (auto simp: createLanes_def and_then_Inr_iff)
  have "lanes_within fmempty 0" by (simp add: lanes_within_def)
  from map_lanes_ok [OF m this _ named]
  have ok: "lanes_within m high" "\<forall>n \<in> set names. fmlookup m n \<noteq> None" by auto
  have "lane_of m n < nat (high + 1)" if "n \<in> set names" for n
  proof -
    from ok(2) that obtain i where i: "fmlookup m n = Some i" by auto
    with ok(1) have "0 \<le> i" "i \<le> high" by (auto simp: lanes_within_def fmranI)
    with i show ?thesis by (simp add: lane_of_def)
  qed
  with fold_lanes [of names "lane_of m" "nat (high + 1)"] l show ?thesis by auto
qed

lemma map_lanes_known:
  "\<forall>n \<in> set names. map_of services n \<noteq> None \<Longrightarrow> \<exists>r. map_lanes services names st = Inr r"
  by (induction services names st rule: map_lanes.induct) (auto split: option.split prod.split)

lemma mset_concat_lanes:
  assumes "\<forall>n \<in> set names. f n < (k :: nat)"
  shows "mset (concat (map (\<lambda>i. filter (\<lambda>n. f n = i) names) [0..<k])) = mset names"
  using assms
proof (induction k arbitrary: names)
  case (Suc k)
  have "map (\<lambda>i. filter (\<lambda>n. f n = i) names) [0..<k] =
      map (\<lambda>i. filter (\<lambda>n. f n = i) (filter (\<lambda>n. f n < k) names)) [0..<k]"
    by (auto intro!: filter_cong)
  then have "mset (concat (map (\<lambda>i. filter (\<lambda>n. f n = i) names) [0..<k])) = mset (filter (\<lambda>n. f n < k) names)"
    by (rule ssubst) (rule Suc.IH, simp)
  moreover have "filter_mset (\<lambda>n. \<not> f n < k) (mset names) = filter_mset (\<lambda>n. f n = k) (mset names)"
    using Suc.prems by (intro filter_mset_cong) auto
  then have "mset names = filter_mset (\<lambda>n. f n < k) (mset names) + filter_mset (\<lambda>n. f n = k) (mset names)"
    using multiset_partition [of "mset names" "\<lambda>n. f n < k"] by simp
  ultimately show ?case by simp
qed simp

subsection \<open>When an order exists\<close>

lemma order_exists_char:
  assumes "reordering iter"
  shows "((\<exists>out. order services iter names stop = Inr out) \<longleftrightarrow>
      (\<forall>n \<in> needed stop services names. map_of services n \<noteq> None) \<and>
      (\<forall>a b. (a, b) \<in> (precedence stop services names)\<^sup>* \<and> (b, a) \<in> (precedence stop services names)\<^sup>* \<longrightarrow> a = b)) \<and>
    (\<forall>e. order services iter names stop = Inl e \<longrightarrow>
      (\<exists>n \<in> needed stop services names. map_of services n = None \<and> e = no_service n) \<or>
      (\<exists>c. e = loop_error c \<and> 1 < length c \<and> distinct c \<and> set c \<subseteq> needed stop services names \<and>
         (\<forall>a \<in> set c. \<forall>b \<in> set c. (a, b) \<in> (precedence stop services names)\<^sup>*)))"
  using assms
proof (cases rule: order_cases [where services = services and names = names and stop = stop])
  case (sorted g cs)
  consider (one) "\<forall>c \<in> set cs. length c = 1" "order services iter names stop = Inr (concat cs)"
    | (many) c where "c \<in> set cs" "1 < length c" "order services iter names stop = Inl (loop_error c)"
    using concat_all [OF sorted(4), of "[]"] sorted(8) by auto
  then show ?thesis
  proof cases
    case one
    have "a = b" if "(a, b) \<in> (edges g)\<^sup>*" "(b, a) \<in> (edges g)\<^sup>*" for a b
      by (rule singletons_acyclic [OF sorted(6) one(1) sorted(3) _ that])
        (simp add: sorted(2,5) precedence_def del: set_concat)
    with one sorted(1,2) show ?thesis by auto
  next
    case many
    have d: "distinct c" using sorted(3) many(1) by (auto simp: distinct_concat_iff)
    have m: "\<forall>a \<in> set c. \<forall>b \<in> set c. (a, b) \<in> (precedence stop services names)\<^sup>*"
      using sorted(2,7) many(1) by (simp add: mutual_def)
    have s: "set c \<subseteq> needed stop services names" using sorted(5) many(1) by auto
    from d many(2) obtain a b r where c: "c = a # b # r" by (cases c rule: remdups_adj.cases) auto
    with d m have "a \<noteq> b" "(a, b) \<in> (precedence stop services names)\<^sup>*" "(b, a) \<in> (precedence stop services names)\<^sup>*"
      by auto
    moreover have "e = loop_error c" if "order services iter names stop = Inl e" for e
      using that many(3) by simp
    ultimately show ?thesis using many(2,3) d m s by fastforce
  qed
qed (auto simp: Bex_def)

lemma order_contents:
  assumes "order services iter names stop = Inr out" and "reordering iter"
  shows "distinct out \<and> set out = needed stop services names \<and>
    (\<forall>a \<in> set out. \<forall>b \<in> set out. must_precede stop services a b \<and> a \<noteq> b \<longrightarrow>
       (\<exists>xs ys zs. out = xs @ a # ys @ b # zs))"
  using assms(2)
proof (cases rule: order_cases [where services = services and names = names and stop = stop])
  case (sorted g cs)
  with concat_all [OF sorted(4), of "[]"] assms(1)
  have cs: "\<forall>c \<in> set cs. length c = 1" "out = concat cs" by auto
  have "\<exists>xs ys zs. out = xs @ a # ys @ b # zs"
    if "a \<in> set out" "b \<in> set out" "must_precede stop services a b" "a \<noteq> b" for a b
  proof -
    have "(b, a) \<in> edges g" using that sorted(2,5) cs(2) by (simp add: precedence_def del: set_concat)
    with singletons_ordered [OF sorted(6) cs(1) this] that cs(2) show ?thesis by blast
  qed
  with sorted(3,5) cs(2) show ?thesis by blast
qed (use assms in simp)

definition plan_named :: "plan \<Rightarrow> bool" where
  "plan_named p \<longleftrightarrow> (\<forall>n s. map_of (plan_services p) n = Some s \<longrightarrow> svc_name s = n)"

lemma lanes_of_order:
  assumes "plan_named p" and "reordering iter" and "order (plan_services p) iter names stop = Inr ordered"
  shows "\<exists>lanes. (if stop then StopOrder p iter names else StartOrder p iter names) = Inr lanes \<and>
    mset (concat lanes) = mset ordered \<and> (\<forall>lane \<in> set lanes. subseq lane ordered)"
proof -
  have "\<forall>n \<in> set ordered. map_of (plan_services p) n \<noteq> None"
    using assms(2)
  proof (cases rule: order_cases [where services = "plan_services p" and names = names and stop = stop])
    case (sorted g cs)
    with concat_all [OF sorted(4), of "[]"] assms(3) have "ordered = concat cs" by auto
    with sorted(1,5) show ?thesis by simp
  qed (use assms in simp)
  from map_lanes_known [OF this] obtain lanes where run: "createLanes ordered (plan_services p) = Inr lanes"
    by (fastforce simp: createLanes_def and_then_Inr_iff)
  from createLanes_ok [OF run] assms(1) obtain f and k :: nat where
    l: "lanes = map (\<lambda>i. filter (\<lambda>n. f n = i) ordered) [0..<k]" "\<forall>n \<in> set ordered. f n < k"
    by (auto simp: plan_named_def)
  have "mset (concat lanes) = mset ordered" unfolding l(1) by (rule mset_concat_lanes [OF l(2)])
  moreover have "\<forall>lane \<in> set lanes. subseq lane ordered" by (auto simp: l(1))
  ultimately show ?thesis using run assms(3) by (auto simp: StartOrder_def StopOrder_def)
qed

subsection \<open>Properties\<close>

text \<open>
  C3: an order that \<open>order\<close> returns holds each of the named services and the services they
  transitively need (with \<open>requires\<close>, or its converse to stop them) exactly once, and puts one service
  before another wherever \<open>before\<close> or \<open>after\<close> asks for it, for every iteration order of the map.
\<close>

theorem order_correct:
  assumes "order services iter names stop = Inr out" and "reordering iter"
  shows "distinct out \<and> set out = needed stop services names \<and>
    (\<forall>a \<in> set out. \<forall>b \<in> set out. must_precede stop services a b \<and> a \<noteq> b \<longrightarrow>
       (\<exists>xs ys zs. out = xs @ a # ys @ b # zs))"
  by (rule order_contents [OF assms])

text \<open>
  C14: \<open>order\<close> returns an order exactly when every needed service exists and no two of them have to precede
  each other; an error names a missing service, or services that all wait for each other in a loop.
\<close>

theorem order_exists_iff:
  assumes "reordering iter"
  shows "((\<exists>out. order services iter names stop = Inr out) \<longleftrightarrow>
      (\<forall>n \<in> needed stop services names. map_of services n \<noteq> None) \<and>
      (\<forall>a b. (a, b) \<in> (precedence stop services names)\<^sup>* \<and> (b, a) \<in> (precedence stop services names)\<^sup>* \<longrightarrow> a = b)) \<and>
    (\<forall>e. order services iter names stop = Inl e \<longrightarrow>
      (\<exists>n \<in> needed stop services names. map_of services n = None \<and> e = no_service n) \<or>
      (\<exists>c. e = loop_error c \<and> 1 < length c \<and> distinct c \<and> set c \<subseteq> needed stop services names \<and>
         (\<forall>a \<in> set c. \<forall>b \<in> set c. (a, b) \<in> (precedence stop services names)\<^sup>*)))"
  by (rule order_exists_char [OF assms])

text \<open>
  the lanes of \<open>StartOrder\<close> and \<open>StopOrder\<close> hold every service of the order exactly once, and within a
  lane the services keep the order; they exist whenever the order exists and (to stop) no service
  outside the plan is involved.
\<close>

lemma lanes_partition_order:
  assumes "plan_named p" and "reordering iter" and "order (plan_services p) iter names stop = Inr ordered"
  shows "\<exists>lanes. (if stop then StopOrder p iter names else StartOrder p iter names) = Inr lanes \<and>
    mset (concat lanes) = mset ordered \<and> (\<forall>lane \<in> set lanes. subseq lane ordered)"
  by (rule lanes_of_order [OF assms])

definition plan_of :: "(string \<times> string list \<times> string list) list \<Rightarrow> plan" where
  "plan_of l = NewPlan\<lparr>plan_services :=
     map (\<lambda>(n, req, after). (n, (blank_service n [])\<lparr>svc_requires := req, svc_after := after\<rparr>)) l\<rparr>"

definition web_plan :: plan where
  "web_plan = plan_of [(''db'', [], []), (''web'', [''db''], [''db'']), (''log'', [], [])]"

theorem order_correct_witness:
  "\<exists>out. order (plan_services web_plan) id [''web''] False = Inr out \<and> set out = {''db'', ''web''}"
proof -
  have run: "order (plan_services web_plan) id [''web''] False = Inr [''db'', ''web'']" by code_simp
  from order_correct [OF run] show ?thesis using run by (simp add: reordering_def)
qed

text \<open>A plan in which two services come after each other.\<close>

definition loop_plan :: plan where
  "loop_plan = plan_of [(''a'', [], [''b'']), (''b'', [], [''a''])]"

theorem order_exists_iff_witness:
  "order (plan_services loop_plan) id [''a'', ''b''] False = Inl (loop_error [''a'', ''b'']) \<and>
   \<not> (\<forall>a b. (a, b) \<in> (precedence False (plan_services loop_plan) [''a'', ''b''])\<^sup>* \<and>
        (b, a) \<in> (precedence False (plan_services loop_plan) [''a'', ''b''])\<^sup>* \<longrightarrow> a = b)"
proof -
  have run: "order (plan_services loop_plan) id [''a'', ''b''] False = Inl (loop_error [''a'', ''b''])" by code_simp
  have "reordering id" by (simp add: reordering_def)
  from order_exists_iff [OF this, of "plan_services loop_plan" "[''a'', ''b'']" False] run
  have or: "(\<exists>n \<in> needed False (plan_services loop_plan) [''a'', ''b'']. map_of (plan_services loop_plan) n = None) \<or>
      \<not> (\<forall>a b. (a, b) \<in> (precedence False (plan_services loop_plan) [''a'', ''b''])\<^sup>* \<and>
        (b, a) \<in> (precedence False (plan_services loop_plan) [''a'', ''b''])\<^sup>* \<longrightarrow> a = b)" by auto
  have "collect False (plan_services loop_plan) [''a'', ''b''] [] = Inr [''a'', ''b'']" by code_simp
  from collect_needed(2,3) [OF this] or run show ?thesis by auto
qed

text \<open>
  A service that requires another and comes after it can still be put in another lane, where it
  does not wait for it: a third service that requires both it and a service of an earlier lane
  moves it, and leaves what it requires behind.
\<close>

lemma StartOrder_splits_dependency:
  "StartOrder (plan_of [(''a'', [], []), (''b'', [''d''], [''d'']), (''c'', [''a'', ''b''], [''a'', ''b'']), (''d'', [], [])])
     id [''c''] = Inr [[''a'', ''b'', ''c''], [''d'']]"
  by code_simp

text \<open>
  \<open>after\<close> alone does not keep two services in one lane, so the one does not wait for the other.
\<close>

lemma StartOrder_after_alone:
  "StartOrder (plan_of [(''a'', [], []), (''b'', [], [''a''])]) id [''a'', ''b''] = Inr [[''a''], [''b'']]"
  by code_simp

end
