(* ===== verification/PlanValidate.thy ===== *)
theory PlanValidate
  imports StartOrder
begin

text \<open>
  Validation in \<open>plan.go\<close>: \<open>ParseCommand\<close>, \<open>CommandString\<close>, \<open>LogsTo\<close>, \<open>Layer.Validate\<close>,
  \<open>Plan.Validate\<close>, \<open>MergeServiceContext\<close>, and \<open>NormalizeUidGid\<close> of \<open>osutil\<close>.  What lies outside the
  repository is a field of \<open>plan_env\<close>: \<open>shlex\<close>, the lookups of users and groups (their ids as
  \<open>strconv.Atoi\<close> reads them), the printing of a float, and the checks of the registered extensions.
\<close>

record plan_env =
  shlex_split :: "string \<Rightarrow> string + string list"
  shlex_join :: "string list \<Rightarrow> string"
  userLookup :: "string \<Rightarrow> string + int \<times> int"
  userLookupId :: "int \<Rightarrow> string + int \<times> int"
  userLookupGroup :: "string \<Rightarrow> string + int"
  go_float :: "rat \<Rightarrow> string"
  ext_ValidatePlan :: "plan \<Rightarrow> plan_error + unit"

definition require :: "bool \<Rightarrow> 'e \<Rightarrow> 'e + unit" where
  "require c e = (if c then Inr () else Inl e)"

definition each :: "('x \<Rightarrow> 'e + unit) \<Rightarrow> 'x list \<Rightarrow> 'e + unit" where
  "each f xs = fold_try (\<lambda>x u. f x) xs ()"

lemma require_iff [simp]: "require c e = Inr u \<longleftrightarrow> c"
  by (simp add: require_def)

lemma and_then_unit [simp]: "and_then r (\<lambda>_. s) = Inr y \<longleftrightarrow> (\<exists>x. r = Inr x) \<and> s = Inr y"
  by (cases r) simp_all

lemma each_iff [simp]: "each f xs = Inr u \<longleftrightarrow> (\<forall>x \<in> set xs. f x = Inr ())"
  by (induction xs) (auto simp: each_def and_then_Inr_iff)

subsection \<open>Commands\<close>

fun parse_args :: "nat \<Rightarrow> string list \<Rightarrow> bool \<Rightarrow> bool \<Rightarrow> string list \<Rightarrow> string list \<Rightarrow> string + string list \<times> string list" where
  "parse_args idx [] inBrackets gotBrackets base extra = Inr (base, extra)"
| "parse_args idx (arg # args) inBrackets gotBrackets base extra =
     (if inBrackets then
        (if arg = ''['' then Inl ''cannot nest [ ... ] groups''
         else if arg = '']'' then parse_args (idx + 1) args False gotBrackets base extra
         else parse_args (idx + 1) args inBrackets gotBrackets base (extra @ [arg]))
      else if gotBrackets then Inl ''cannot have any arguments after [ ... ] group''
      else if arg = ''['' then
        (if idx = 0 then Inl ''cannot start command with [ ... ] group''
         else parse_args (idx + 1) args True True base extra)
      else if arg = '']'' then Inl ''cannot have ] outside of [ ... ] group''
      else parse_args (idx + 1) args inBrackets gotBrackets (base @ [arg]) extra)"

definition ParseCommand :: "plan_env \<Rightarrow> service \<Rightarrow> err + string list \<times> string list" where
  "ParseCommand env s =
     (case and_then (shlex_split env (svc_command s)) (\<lambda>args. parse_args 0 args False False [] []) of
        Inl e \<Rightarrow> Inl (''cannot parse service %q command: %w'', [svc_name s, e])
      | Inr r \<Rightarrow> Inr r)"

definition CommandString :: "plan_env \<Rightarrow> string list \<Rightarrow> string list \<Rightarrow> string" where
  "CommandString env base extra =
     (if extra \<noteq> [] then shlex_join env base @ '' [ '' @ shlex_join env extra @ '' ]''
      else shlex_join env base)"

fun logs_to :: "string \<Rightarrow> string list \<Rightarrow> bool" where
  "logs_to name [] = False"
| "logs_to name (s # rest) =
     (if s = name then True
      else if s = CHR ''-'' # name then False
      else if s = ''all'' then True
      else if s = ''-all'' then False
      else logs_to name rest)"

definition LogsTo :: "service \<Rightarrow> log_target \<Rightarrow> bool" where
  "LogsTo s t = logs_to (svc_name s) (rev (lt_services t))"

definition no_brackets :: "string list \<Rightarrow> bool" where
  "no_brackets args \<longleftrightarrow> ''['' \<notin> set args \<and> '']'' \<notin> set args"

lemma parse_args_in:
  "parse_args idx args True True base extra = Inr (b, x) \<longleftrightarrow>
     b = base \<and> (\<exists>ys. x = extra @ ys \<and> no_brackets ys \<and> (args = ys \<or> args = ys @ ['']'']))"
proof (induction args arbitrary: idx extra)
  case Nil
  show ?case by (auto simp: no_brackets_def)
next
  case (Cons a args)
  show ?case
  proof (cases "a = ''['' \<or> a = '']''")
    case True
    then show ?thesis by (cases args) (auto simp: no_brackets_def Cons_eq_append_conv)
  next
    case False
    with Cons.IH [of "idx + 1" "extra @ [a]"]
    have "parse_args idx (a # args) True True base extra = Inr (b, x) \<longleftrightarrow>
      b = base \<and> (\<exists>ys. x = extra @ a # ys \<and> no_brackets ys \<and> (args = ys \<or> args = ys @ ['']'']))" by simp
    also have "\<dots> \<longleftrightarrow> b = base \<and> (\<exists>ys. x = extra @ ys \<and> no_brackets ys \<and> (a # args = ys \<or> a # args = ys @ ['']'']))"
      using False by (force simp: no_brackets_def Cons_eq_append_conv)
    finally show ?thesis .
  qed
qed

lemma parse_args_out:
  "parse_args idx args False False base [] = Inr (b, x) \<longleftrightarrow>
     (\<exists>ys. b = base @ ys \<and> no_brackets ys \<and>
        (args = ys \<and> x = [] \<or>
         0 < idx + length ys \<and> no_brackets x \<and> (args = ys @ ''['' # x \<or> args = ys @ ''['' # x @ ['']''])))"
proof (induction args arbitrary: idx base)
  case Nil
  show ?case by (auto simp: no_brackets_def)
next
  case (Cons a args)
  consider "a = ''[''" | "a = '']''" | "a \<noteq> ''[''" "a \<noteq> '']''" by blast
  then show ?case
  proof cases
    case 1
    then show ?thesis by (auto simp: parse_args_in no_brackets_def Cons_eq_append_conv)
  next
    case 2
    then show ?thesis by (auto simp: no_brackets_def Cons_eq_append_conv)
  next
    case 3
    with Cons.IH [of "idx + 1" "base @ [a]"]
    have "parse_args idx (a # args) False False base [] = Inr (b, x) \<longleftrightarrow>
      (\<exists>ys. b = base @ a # ys \<and> no_brackets ys \<and> (args = ys \<and> x = [] \<or>
         no_brackets x \<and> (args = ys @ ''['' # x \<or> args = ys @ ''['' # x @ ['']''])))" by simp
    also have "\<dots> \<longleftrightarrow> (\<exists>ys. b = base @ ys \<and> no_brackets ys \<and>
        (a # args = ys \<and> x = [] \<or>
         0 < idx + length ys \<and> no_brackets x \<and> (a # args = ys @ ''['' # x \<or> a # args = ys @ ''['' # x @ ['']''])))"
      (is "?L \<longleftrightarrow> ?R")
    proof
      assume ?L
      then obtain ys where "b = base @ a # ys" "no_brackets ys" "args = ys \<and> x = [] \<or>
         no_brackets x \<and> (args = ys @ ''['' # x \<or> args = ys @ ''['' # x @ ['']''])" by blast
      with 3 show ?R by (intro exI [of _ "a # ys"]) (auto simp: no_brackets_def)
    next
      assume ?R
      then obtain ys where ys: "b = base @ ys" "no_brackets ys" "a # args = ys \<and> x = [] \<or>
         no_brackets x \<and> (a # args = ys @ ''['' # x \<or> a # args = ys @ ''['' # x @ ['']''])" by blast
      with 3 obtain zs where "ys = a # zs" by (cases ys) auto
      with ys show ?L by (intro exI [of _ zs]) (auto simp: no_brackets_def)
    qed
    finally show ?thesis .
  qed
qed

lemma ParseCommand_Inr:
  "ParseCommand env s = Inr (base, extra) \<longleftrightarrow>
     (\<exists>args. shlex_split env (svc_command s) = Inr args \<and> no_brackets base \<and>
        (args = base \<and> extra = [] \<or>
         base \<noteq> [] \<and> no_brackets extra \<and> (args = base @ ''['' # extra \<or> args = base @ ''['' # extra @ ['']''])))"
proof -
  have "ParseCommand env s = Inr (base, extra) \<longleftrightarrow>
      (\<exists>args. shlex_split env (svc_command s) = Inr args \<and> parse_args 0 args False False [] [] = Inr (base, extra))"
    by (auto simp: ParseCommand_def and_then_def split: sum.split)
  then show ?thesis unfolding parse_args_out by simp
qed

subsection \<open>Users and groups\<close>

definition show_int :: "int \<Rightarrow> string" where
  "show_int i = (if i < 0 then CHR ''-'' # itoa (nat (- i)) else itoa (nat i))"

definition enoentMessage :: string where "enoentMessage = ''no such file or directory''"

definition lookup_error :: "string \<Rightarrow> string \<Rightarrow> string \<Rightarrow> err" where
  "lookup_error unknown who e = (if sublist enoentMessage e then (unknown, [who]) else (e, []))"

definition lookup_uid :: "plan_env \<Rightarrow> int option \<Rightarrow> string \<Rightarrow> err + int option" where
  "lookup_uid env uid username =
     (if username = [] then Inr uid
      else case userLookup env username of
        Inl e \<Rightarrow> Inl (lookup_error ''user: unknown user '' username e)
      | Inr (n, _) \<Rightarrow>
          if uid \<noteq> None \<and> uid \<noteq> Some n
          then Inl (''user %q UID (%d) does not match user-id (%d)'', [username, show_int n, show_int (the uid)]) else Inr (Some n))"

definition lookup_gid :: "plan_env \<Rightarrow> int option \<Rightarrow> string \<Rightarrow> err + int option" where
  "lookup_gid env gid groupname =
     (if groupname = [] then Inr gid
      else case userLookupGroup env groupname of
        Inl e \<Rightarrow> Inl (lookup_error ''group: unknown group '' groupname e)
      | Inr n \<Rightarrow>
          if gid \<noteq> None \<and> gid \<noteq> Some n
          then Inl (''group %q GID (%d) does not match group-id (%d)'', [groupname, show_int n, show_int (the gid)]) else Inr (Some n))"

definition primary_gid :: "plan_env \<Rightarrow> int option \<Rightarrow> int option \<Rightarrow> err + int option" where
  "primary_gid env uid gid =
     (case (gid, uid) of
        (Some g, _) \<Rightarrow> Inr (Some g)
      | (None, None) \<Rightarrow> Inr None
      | (None, Some u) \<Rightarrow>
          (case userLookupId env u of
             Inl e \<Rightarrow> Inl (lookup_error ''user: unknown userid '' (show_int u) e)
           | Inr (_, g) \<Rightarrow> Inr (Some g)))"

definition NormalizeUidGid ::
    "plan_env \<Rightarrow> int option \<Rightarrow> int option \<Rightarrow> string \<Rightarrow> string \<Rightarrow> err + int option \<times> int option" where
  "NormalizeUidGid env uid gid username groupname =
     (if uid = None \<and> username = [] \<and> gid = None \<and> groupname = [] then Inr (None, None)
      else and_then (lookup_uid env uid username) (\<lambda>uid.
        and_then (lookup_gid env gid groupname) (\<lambda>gid.
          and_then (primary_gid env uid gid) (\<lambda>gid.
            if uid = None \<and> gid \<noteq> None then Inl (''must specify user, not just group'', [])
            else Inr (uid, gid)))))"

lemma NormalizeUidGid_both:
  "NormalizeUidGid env uid gid u g = Inr (uid', gid') \<Longrightarrow>
     (uid' = None \<longleftrightarrow> gid' = None) \<and> (uid' = None \<longleftrightarrow> uid = None \<and> gid = None \<and> u = [] \<and> g = []) \<and>
     (uid \<noteq> None \<longrightarrow> uid' = uid) \<and> (gid \<noteq> None \<longrightarrow> gid' = gid)"
  by (auto simp: NormalizeUidGid_def lookup_uid_def lookup_gid_def primary_gid_def and_then_Inr_iff
      split: if_split_asm sum.split_asm option.split_asm prod.split_asm)

subsection \<open>Layers\<close>

definition validServiceAction :: "string \<Rightarrow> string list \<Rightarrow> bool" where
  "validServiceAction action additionalValid \<longleftrightarrow>
     action \<in> set additionalValid \<or> action \<in> {[], ''restart'', ''shutdown'', ''ignore''}"

text \<open>The entries of a Go map whose order matters only for which error is reported first.\<close>

definition entries :: "(string, 'v) fmap \<Rightarrow> (string \<times> 'v) list" where
  "entries m = map (\<lambda>k. (k, the (fmlookup m k))) (sorted_list_of_fset (fmdom m))"

definition valid_layer_service :: "plan_env \<Rightarrow> string \<Rightarrow> service option \<Rightarrow> plan_error + unit" where
  "valid_layer_service env name svc =
     and_then (require (name \<noteq> []) (format_error ''cannot use empty string as service name'' [])) (\<lambda>_.
     and_then (require (name \<noteq> ''pebble'') (format_error ''cannot use reserved service name %q'' [name])) (\<lambda>_.
     and_then (require (\<not> prefix ''-'' name)
       (format_error ''cannot use service name %q: starting with \"-\" not allowed'' [name])) (\<lambda>_.
     case svc of
       None \<Rightarrow> Inl (format_error ''service object cannot be null for service %q'' [name])
     | Some s \<Rightarrow>
         and_then (case ParseCommand env s of
             Inl (f, args) \<Rightarrow> Inl (format_error (''plan service %q command invalid: '' @ f) (name # args))
           | Inr _ \<Rightarrow> Inr ()) (\<lambda>_.
         and_then (require (validServiceAction (svc_on_success s) [''failure-shutdown''])
           (format_error ''plan service %q on-success action %q invalid'' [name, svc_on_success s])) (\<lambda>_.
         and_then (require (validServiceAction (svc_on_failure s) [''success-shutdown''])
           (format_error ''plan service %q on-failure action %q invalid'' [name, svc_on_failure s])) (\<lambda>_.
         and_then (each (\<lambda>(check, action). require (validServiceAction action [''success-shutdown''])
             (format_error ''plan service %q on-check-failure action %q invalid'' [name, action]))
             (entries (svc_on_check_failure s))) (\<lambda>_.
         require (\<not> (of_is_set (svc_backoff_factor s) \<and> of_value (svc_backoff_factor s) < 1))
           (format_error ''plan service %q backoff-factor must be 1.0 or greater, not %g''
              [name, go_float env (of_value (svc_backoff_factor s))]))))))))"

definition valid_layer_check :: "plan_env \<Rightarrow> string \<Rightarrow> check option \<Rightarrow> plan_error + unit" where
  "valid_layer_check env name chk =
     and_then (require (name \<noteq> []) (format_error ''cannot use empty string as check name'' [])) (\<lambda>_.
     case chk of
       None \<Rightarrow> Inl (format_error ''check object cannot be null for check %q'' [name])
     | Some c \<Rightarrow>
         and_then (require (name \<noteq> []) (format_error ''cannot use empty string as log target name'' [])) (\<lambda>_.
         and_then (require (chk_level c \<in> {[], ''alive'', ''ready''})
           (format_error ''plan check %q level must be \"alive\" or \"ready\"'' [name])) (\<lambda>_.
         and_then (require (chk_startup c \<in> {[], ''enabled'', ''disabled''})
           (format_error ''plan check %q startup must be \"enabled\" or \"disabled\"'' [name])) (\<lambda>_.
         and_then (require (\<not> (od_is_set (chk_period c) \<and> od_value (chk_period c) = 0))
           (format_error ''plan check %q period must not be zero'' [name])) (\<lambda>_.
         and_then (require (\<not> (od_is_set (chk_timeout c) \<and> od_value (chk_timeout c) = 0))
           (format_error ''plan check %q timeout must not be zero'' [name])) (\<lambda>_.
         case chk_exec c of
           None \<Rightarrow> Inr ()
         | Some x \<Rightarrow>
             and_then (case shlex_split env (exec_command x) of
                 Inl e \<Rightarrow> Inl (format_error ''plan check %q command invalid: %v'' [name, e])
               | Inr _ \<Rightarrow> Inr ()) (\<lambda>_.
             case NormalizeUidGid env (exec_user_id x) (exec_group_id x) (exec_user x) (exec_group x) of
               Inl (f, args) \<Rightarrow> Inl (format_error (''plan check %q has invalid user/group: '' @ f) (name # args))
             | Inr _ \<Rightarrow> Inr ())))))))"

definition target_types :: "string list" where
  "target_types = [''loki'', ''opentelemetry'', ''syslog'']"

definition valid_layer_target :: "string \<Rightarrow> log_target option \<Rightarrow> plan_error + unit" where
  "valid_layer_target name tgt =
     (case tgt of
        None \<Rightarrow> Inl (format_error ''log target object cannot be null for log target %q'' [name])
      | Some t \<Rightarrow>
          and_then (each (\<lambda>(label, value). require (\<not> prefix ''pebble_'' label)
              (format_error ''log target %q: label %q uses reserved prefix \"pebble_\"'' [name, label]))
              (entries (lt_labels t))) (\<lambda>_.
          require (lt_type t \<in> set target_types \<or> lt_type t = [])
            (format_error ''log target %q has unsupported type %q, must be %q, %q or %q''
               ([name, lt_type t] @ target_types))))"

definition layer_Validate :: "plan_env \<Rightarrow> layer \<Rightarrow> plan_error + unit" where
  "layer_Validate env l =
     and_then (require (\<not> prefix ''pebble-'' (lay_label l))
       (format_error ''cannot use reserved label prefix \"pebble-\"'' [])) (\<lambda>_.
     and_then (each (\<lambda>(name, s). valid_layer_service env name s) (lay_services l)) (\<lambda>_.
     and_then (each (\<lambda>(name, c). valid_layer_check env name c) (lay_checks l)) (\<lambda>_.
     each (\<lambda>(name, t). valid_layer_target name t) (lay_log_targets l))))"

subsection \<open>Plans\<close>

definition strings_TrimPrefix :: "string \<Rightarrow> string \<Rightarrow> string" where
  "strings_TrimPrefix s p = (if prefix p s then drop (length p) s else s)"

definition known_service :: "plan \<Rightarrow> string \<Rightarrow> bool" where
  "known_service p name \<longleftrightarrow> map_of (plan_services p) name \<noteq> None"

definition valid_http :: "string \<Rightarrow> http_check option \<Rightarrow> plan_error + nat" where
  "valid_http name h =
     (case h of
        None \<Rightarrow> Inr 0
      | Some x \<Rightarrow> if http_url x = [] then Inl (format_error ''plan must set \"url\" for http check %q'' [name]) else Inr 1)"

definition valid_tcp :: "string \<Rightarrow> tcp_check option \<Rightarrow> plan_error + nat" where
  "valid_tcp name t =
     (case t of
        None \<Rightarrow> Inr 0
      | Some x \<Rightarrow> if tcp_port x = 0 then Inl (format_error ''plan must set \"port\" for tcp check %q'' [name]) else Inr 1)"

definition valid_exec :: "plan \<Rightarrow> string \<Rightarrow> exec_check option \<Rightarrow> plan_error + nat" where
  "valid_exec p name e =
     (case e of
        None \<Rightarrow> Inr 0
      | Some x \<Rightarrow>
          if exec_command x = [] then Inl (format_error ''plan must set \"command\" for exec check %q'' [name])
          else if exec_service_context x \<noteq> [] \<and> \<not> known_service p (exec_service_context x)
          then Inl (format_error ''plan check %q service context specifies non-existent service %q''
                      [name, exec_service_context x])
          else Inr 1)"

definition valid_plan_check :: "plan \<Rightarrow> string \<Rightarrow> check \<Rightarrow> plan_error + unit" where
  "valid_plan_check p name c =
     and_then (valid_http name (chk_http c)) (\<lambda>h.
     and_then (valid_tcp name (chk_tcp c)) (\<lambda>t.
     and_then (valid_exec p name (chk_exec c)) (\<lambda>e.
     require (h + t + e = 1)
       (format_error ''plan must specify one of \"http\", \"tcp\", or \"exec\" for check %q'' [name]))))"

definition valid_plan_target :: "plan \<Rightarrow> string \<Rightarrow> log_target \<Rightarrow> plan_error + unit" where
  "valid_plan_target p name t =
     and_then (require (lt_type t \<noteq> [])
       (format_error ''plan must define \"type\" (%q, %q or %q) for log target %q'' (target_types @ [name]))) (\<lambda>_.
     and_then (each (\<lambda>s. let s = strings_TrimPrefix s ''-'' in
         require (s = ''all'' \<or> known_service p s)
           (format_error ''log target %q specifies unknown service %q'' [lt_name t, s])) (lt_services t)) (\<lambda>_.
     require (lt_location t \<noteq> []) (format_error ''plan must define \"location\" for log target %q'' [name])))"

text \<open>The part of \<open>Validate\<close> before the extensions are asked.\<close>

definition builtin_Validate :: "(string list \<Rightarrow> string list) \<Rightarrow> plan \<Rightarrow> plan_error + unit" where
  "builtin_Validate iter p =
     and_then (each (\<lambda>(name, s). require (svc_command s \<noteq> [])
         (format_error ''plan must define \"command\" for service %q'' [name])) (plan_services p)) (\<lambda>_.
     and_then (each (\<lambda>(name, c). valid_plan_check p name c) (plan_checks p)) (\<lambda>_.
     and_then (each (\<lambda>(name, t). valid_plan_target p name t) (plan_log_targets p)) (\<lambda>_.
     checkCycles p iter)))"

definition plan_Validate :: "plan_env \<Rightarrow> (string list \<Rightarrow> string list) \<Rightarrow> plan \<Rightarrow> plan_error + unit" where
  "plan_Validate env iter p = and_then (builtin_Validate iter p) (\<lambda>_. ext_ValidatePlan env p)"

lemma plan_Validate_parts:
  "plan_Validate env iter p = Inr u \<Longrightarrow> builtin_Validate iter p = Inr () \<and> checkCycles p iter = Inr () \<and>
     (\<forall>(name, c) \<in> set (plan_checks p). valid_plan_check p name c = Inr ())"
proof -
  assume "plan_Validate env iter p = Inr u"
  then obtain v where b: "builtin_Validate iter p = Inr v" by (auto simp: plan_Validate_def)
  then have c: "checkCycles p iter = Inr v" and e: "each (\<lambda>(name, c). valid_plan_check p name c) (plan_checks p) = Inr ()"
    unfolding builtin_Validate_def and_then_unit by auto
  from e have "\<forall>x \<in> set (plan_checks p). (\<lambda>(name, c). valid_plan_check p name c) x = Inr ()" unfolding each_iff .
  with b c show ?thesis by (auto simp: case_prod_beta)
qed

record context_options =
  co_environment :: "(string, string) fmap"
  co_user_id :: "int option"
  co_user :: string
  co_group_id :: "int option"
  co_group :: string
  co_working_dir :: string

definition MergeServiceContext :: "plan \<Rightarrow> string \<Rightarrow> context_options \<Rightarrow> err + context_options" where
  "MergeServiceContext p serviceName overrides =
     (if serviceName = [] then Inr overrides
      else case find (\<lambda>(_, s). svc_name s = serviceName) (plan_services p) of
        None \<Rightarrow> Inl (''context service %q not found'', [serviceName])
      | Some (_, s) \<Rightarrow>
          Inr \<lparr>co_environment = svc_environment s ++\<^sub>f co_environment overrides,
               co_user_id = or_opt (svc_user_id s) (co_user_id overrides),
               co_user = or_str (svc_user s) (co_user overrides),
               co_group_id = or_opt (svc_group_id s) (co_group_id overrides),
               co_group = or_str (svc_group s) (co_group overrides),
               co_working_dir = or_str (svc_working_dir s) (co_working_dir overrides)\<rparr>)"

text \<open>A context that validation accepted is found.\<close>

lemma MergeServiceContext_found:
  assumes "plan_Validate env iter p = Inr ()" "plan_named p" "(name, c) \<in> set (plan_checks p)" "chk_exec c = Some x"
  shows "\<exists>r. MergeServiceContext p (exec_service_context x) overrides = Inr r"
proof (cases "exec_service_context x = []")
  case False
  have "valid_plan_check p name c = Inr ()" using plan_Validate_parts [OF assms(1)] assms(3) by auto
  with assms(4) False obtain s where "map_of (plan_services p) (exec_service_context x) = Some s"
    by (auto simp: valid_plan_check_def valid_exec_def known_service_def and_then_Inr_iff split: if_split_asm)
  with assms(2) have "(exec_service_context x, s) \<in> set (plan_services p)" "svc_name s = exec_service_context x"
    by (auto simp: plan_named_def dest: map_of_SomeD)
  then have "find (\<lambda>(_, s). svc_name s = exec_service_context x) (plan_services p) \<noteq> None"
    by (auto simp: find_None_iff)
  with False show ?thesis by (auto simp: MergeServiceContext_def split: option.split)
qed (simp add: MergeServiceContext_def)

subsection \<open>Orders in a valid plan\<close>

lemma needed_mono: "set names \<subseteq> set names' \<Longrightarrow> needed stop services names \<subseteq> needed stop services names'"
  by (auto simp: needed_def)

lemma must_precede_stop: "must_precede True services a b \<longleftrightarrow> must_precede False services b a"
  by (auto simp: must_precede_def after_of_def before_of_def)

lemma needed_stop_known:
  assumes "set names \<subseteq> fst ` set services"
  shows "needed True services names \<subseteq> fst ` set services"
proof
  fix x assume "x \<in> needed True services names"
  then obtain n where "n \<in> set names" "(n, x) \<in> (deps True services)\<^sup>*" by (auto simp: needed_def)
  from this(2) \<open>n \<in> set names\<close> show "x \<in> fst ` set services"
    by (cases rule: rtranclE) (use assms in \<open>auto simp: deps_def neighbours_def dest: predecessors_known\<close>)
qed

lemma cycle_free_orders:
  assumes perm: "reordering iter0" "reordering iter" and cf: "checkCycles p iter0 = Inr ()"
    and names: "set names \<subseteq> fst ` set (plan_services p)"
  shows "\<exists>out. order (plan_services p) iter names stop = Inr out"
proof -
  let ?S = "plan_services p"
  let ?all = "map fst ?S"
  from cf have ex: "\<exists>out. order ?S iter0 ?all False = Inr out" by (auto simp: checkCycles_def and_then_Inr_iff)
  from order_exists_char [OF perm(1), of ?S ?all False] ex
  have known: "\<forall>n \<in> needed False ?S ?all. map_of ?S n \<noteq> None"
    and acyc: "\<And>a b. (a, b) \<in> (precedence False ?S ?all)\<^sup>* \<Longrightarrow> (b, a) \<in> (precedence False ?S ?all)\<^sup>* \<Longrightarrow> a = b"
    by auto
  have all: "needed False ?S ?all = fst ` set ?S"
    using known by (auto simp: needed_def map_of_eq_None_iff)
  have nk: "needed stop ?S names \<subseteq> fst ` set ?S"
    using needed_stop_known [OF names] needed_mono [of names ?all False ?S] names all by (cases stop) auto
  have sub: "precedence stop ?S names \<subseteq> (if stop then (precedence False ?S ?all)\<inverse> else precedence False ?S ?all)"
    using nk all by (auto simp: precedence_def must_precede_stop)
  have "a = b" if "(a, b) \<in> (precedence stop ?S names)\<^sup>*" "(b, a) \<in> (precedence stop ?S names)\<^sup>*" for a b
    using that rtrancl_mono [OF sub] acyc by (cases stop) (auto simp: rtrancl_converse)
  moreover have "\<forall>n \<in> needed stop ?S names. map_of ?S n \<noteq> None"
    using nk by (auto simp: map_of_eq_None_iff)
  ultimately show ?thesis using order_exists_char [OF perm(2), of ?S names stop] by blast
qed

subsection \<open>Properties\<close>

text \<open>
  C5: in a plan that \<open>Validate\<close> accepts, any services of the plan can be started and stopped: the
  order and its lanes exist whatever the iteration order of the map, and hold what is needed.
\<close>

theorem valid_plan_orders:
  assumes "plan_Validate env iter0 p = Inr ()" and "reordering iter0" "reordering iter"
    and "plan_named p" and "set names \<subseteq> fst ` set (plan_services p)"
  shows "(\<exists>lanes. StartOrder p iter names = Inr lanes \<and>
      set (concat lanes) = needed False (plan_services p) names \<and> distinct (concat lanes)) \<and>
    (\<exists>lanes. StopOrder p iter names = Inr lanes \<and>
      set (concat lanes) = needed True (plan_services p) names \<and> distinct (concat lanes))"
proof -
  from plan_Validate_parts [OF assms(1)] have cf: "checkCycles p iter0 = Inr ()" by simp
  have "\<exists>lanes. (if stop then StopOrder p iter names else StartOrder p iter names) = Inr lanes \<and>
      set (concat lanes) = needed stop (plan_services p) names \<and> distinct (concat lanes)" for stop
  proof -
    from cycle_free_orders [OF assms(2,3) cf assms(5)] obtain out where
      out: "order (plan_services p) iter names stop = Inr out" by blast
    from lanes_of_order [OF assms(4,3) out] obtain lanes where
      l: "(if stop then StopOrder p iter names else StartOrder p iter names) = Inr lanes"
        "mset (concat lanes) = mset out" by blast
    from l(2) have "set (concat lanes) = set out" "distinct (concat lanes) \<longleftrightarrow> distinct out"
      by (metis mset_eq_setD, metis mset_eq_imp_distinct_iff)
    with l(1) order_contents [OF out assms(3)] show ?thesis by auto
  qed
  from this [of False] this [of True] show ?thesis by simp
qed

text \<open>
  \<open>ParseCommand\<close> accepts a command exactly when its words are a base without brackets, or a
  nonempty base followed by one bracket group at the end, whose closing bracket may be missing;
  it returns the words outside and inside of the group.
\<close>

lemma ParseCommand_result:
  "ParseCommand env s = Inr (base, extra) \<longleftrightarrow>
     (\<exists>args. shlex_split env (svc_command s) = Inr args \<and> no_brackets base \<and>
        (args = base \<and> extra = [] \<or>
         base \<noteq> [] \<and> no_brackets extra \<and> (args = base @ ''['' # extra \<or> args = base @ ''['' # extra @ ['']''])))"
  by (rule ParseCommand_Inr)


text \<open>A log target without a name passes \<open>Layer.Validate\<close>: the test for it stands in the loop over the checks.\<close>

lemma layer_Validate_unnamed_target:
  "layer_Validate env ((blank_layer ''base'')\<lparr>lay_log_targets :=
     [([], Some \<lparr>lt_name = [], lt_type = ''loki'', lt_location = ''http://x'', lt_services = [], lt_override = ''merge'',
                lt_labels = fmempty\<rparr>)]\<rparr>) = Inr ()"
  by (simp add: layer_Validate_def blank_layer_def valid_layer_target_def target_types_def entries_def)

subsection \<open>Witnesses\<close>

text \<open>An environment in which words are separated by single blanks and nobody is known.\<close>

fun blank_words :: "string \<Rightarrow> string \<Rightarrow> string list" where
  "blank_words [] w = (if w = [] then [] else [rev w])"
| "blank_words (c # s) w =
     (if c = CHR '' '' then (if w = [] then blank_words s [] else rev w # blank_words s [])
      else blank_words s (c # w))"

definition sample_env :: plan_env where
  "sample_env =
     \<lparr>shlex_split = (\<lambda>s. Inr (blank_words s [])), shlex_join = (\<lambda>l. strings_Join l '' ''),
      userLookup = (\<lambda>_. Inl ''no such user''), userLookupId = (\<lambda>_. Inl ''no such user''),
      userLookupGroup = (\<lambda>_. Inl ''no such group''), go_float = (\<lambda>_. ''?''), ext_ValidatePlan = (\<lambda>_. Inr ())\<rparr>"

definition valid_web_plan :: plan where
  "valid_web_plan = web_plan\<lparr>plan_services :=
     map (\<lambda>(n, s). (n, s\<lparr>svc_command := ''run''\<rparr>)) (plan_services web_plan)\<rparr>"

theorem valid_plan_orders_witness:
  "\<exists>lanes. StartOrder valid_web_plan id [''web''] = Inr lanes \<and> distinct (concat lanes)"
proof -
  have v: "plan_Validate sample_env id valid_web_plan = Inr ()" by code_simp
  have r: "reordering id" by (simp add: reordering_def)
  have n: "plan_named valid_web_plan"
    by (simp add: plan_named_def valid_web_plan_def web_plan_def plan_of_def NewPlan_def blank_service_def)
  have "set [''web''] \<subseteq> fst ` set (plan_services valid_web_plan)" by code_simp
  from valid_plan_orders [OF v r r n this] show ?thesis by blast
qed


end
