(* ===== verification/PlanFiles.thy ===== *)
theory PlanFiles
  imports PlanValidate
begin

text \<open>
  Reading the layers of a directory (\<open>configLayerEntries\<close>, \<open>loadConfigLayer\<close>, \<open>ReadLayersDir\<close>,
  \<open>ReadDir\<close> and the end of \<open>ParseLayer\<close> in \<open>plan.go\<close>).  The file system and the decoding of YAML are
  the record \<open>plan_fs\<close>; \<open>os.ReadDir\<close> lists a directory in the order of the file names.  The lemmas
  show that the layers read have increasing orders and labels of their own.
\<close>

type_synonym path = "string list"

record plan_fs =
  fs_ReadDir :: "path \<Rightarrow> string + string list"
  fs_IsDir :: "path \<Rightarrow> string + bool"
  fs_exists :: "path \<Rightarrow> string + bool"
  fs_ReadFile :: "path \<Rightarrow> string + string"
  yaml_layer :: "string \<Rightarrow> string \<Rightarrow> plan_error + layer"

subsection \<open>Layer file names\<close>

definition is_lower :: "char \<Rightarrow> bool" where
  "is_lower c \<longleftrightarrow> CHR ''a'' \<le> c \<and> c \<le> CHR ''z''"

fun label_units :: "string \<Rightarrow> nat option" where
  "label_units [] = Some 0"
| "label_units (c # cs) =
     (if is_lower c \<or> is_digit c then map_option Suc (label_units cs)
      else if c = CHR ''-'' then
        (case cs of
           [] \<Rightarrow> None
         | d # ds \<Rightarrow> if is_lower d \<or> is_digit d then map_option Suc (label_units ds) else None)
      else None)"

definition valid_label :: "string \<Rightarrow> bool" where
  "valid_label l \<longleftrightarrow>
     (case l of
        [] \<Rightarrow> False
      | c # cs \<Rightarrow> is_lower c \<and> (case label_units cs of None \<Rightarrow> False | Some n \<Rightarrow> 2 \<le> n))"

definition cut_suffix :: "string \<Rightarrow> string \<Rightarrow> string option" where
  "cut_suffix s suf = (if suffix suf s then Some (take (length s - length suf) s) else None)"

text \<open>The submatches of \<open>configEntryRegexp\<close>, on a name that ends in \<open>.yaml\<close> or \<open>.d\<close>.\<close>

fun match_entry :: "string \<Rightarrow> (nat \<times> string) option" where
  "match_entry (a # b # c # h # rest) =
     (if is_digit a \<and> is_digit b \<and> is_digit c \<and> h = CHR ''-'' then
        (case (case cut_suffix rest ''.yaml'' of Some l \<Rightarrow> Some l | None \<Rightarrow> cut_suffix rest ''.d'') of
           None \<Rightarrow> None
         | Some l \<Rightarrow>
             if valid_label l then Some (100 * digit_value a + 10 * digit_value b + digit_value c, l) else None)
      else None)"
| "match_entry _ = None"

record config_entry =
  ce_name :: string
  ce_order :: nat
  ce_label :: string

definition config_suffix :: "string \<Rightarrow> bool" where
  "config_suffix name \<longleftrightarrow> suffix ''.yaml'' name \<or> suffix ''.d'' name"

definition entry_step ::
    "plan_fs \<Rightarrow> path \<Rightarrow> bool \<Rightarrow> string \<Rightarrow>
     (nat, string) fmap \<times> (string, nat) fmap \<times> config_entry list \<Rightarrow>
     plan_error + (nat, string) fmap \<times> (string, nat) fmap \<times> config_entry list" where
  "entry_step fs dir dirOK name st =
     (let (orders, labels, configs) = st in
      if \<not> config_suffix name then Inr st
      else case fs_IsDir fs (dir @ [name]) of
        Inl e \<Rightarrow> Inl (PlanError (e, []))
      | Inr isdir \<Rightarrow>
          (case match_entry name of
             None \<Rightarrow>
               Inl (PlanError (if isdir
                 then (''invalid layer sub-directory name: %q (must look like \"123-some-label.d\")'', [name])
                 else (''invalid layer filename: %q (must look like \"123-some-label.yaml\")'', [name])))
           | Some (ord, label) \<Rightarrow>
               if isdir \<and> \<not> dirOK
               then Inl (PlanError (''cannot have a layers sub-directory at this level'', []))
               else if fmlookup orders ord \<noteq> None
               then Inl (PlanError (''invalid layer filename: %q not unique (have \"%03d-%s.yaml\" already)'',
                      [name, itoa ord, the (fmlookup orders ord)]))
               else if fmlookup labels label \<noteq> None
               then Inl (PlanError (''invalid layer filename: %q not unique (have \"%03d-%s.yaml\" already)'',
                      [name, itoa (the (fmlookup labels label)), label]))
               else Inr (fmupd ord label orders, fmupd label ord labels,
                         configs @ [\<lparr>ce_name = name, ce_order = ord, ce_label = label\<rparr>])))"

definition configLayerEntries :: "plan_fs \<Rightarrow> path \<Rightarrow> bool \<Rightarrow> plan_error + config_entry list" where
  "configLayerEntries fs dir dirOK =
     (case fs_ReadDir fs dir of
        Inl e \<Rightarrow> Inl (PlanError (''cannot read layers directory: %v'', [e]))
      | Inr names \<Rightarrow>
          and_then (fold_try (entry_step fs dir dirOK) names (fmempty, fmempty, []))
            (\<lambda>(orders, labels, configs). Inr configs))"

subsection \<open>Loading\<close>

definition name_objects :: "layer \<Rightarrow> layer" where
  "name_objects l =
     l\<lparr>lay_services := map (\<lambda>(n, s). (n, map_option (\<lambda>x. x\<lparr>svc_name := n\<rparr>) s)) (lay_services l),
       lay_checks := map (\<lambda>(n, c). (n, map_option (\<lambda>x. x\<lparr>chk_name := n\<rparr>) c)) (lay_checks l),
       lay_log_targets := map (\<lambda>(n, t). (n, map_option (\<lambda>x. x\<lparr>lt_name := n\<rparr>) t)) (lay_log_targets l)\<rparr>"

definition ParseLayer :: "plan_env \<Rightarrow> plan_fs \<Rightarrow> int \<Rightarrow> string \<Rightarrow> string \<Rightarrow> plan_error + layer" where
  "ParseLayer env fs ord label data =
     and_then (yaml_layer fs label data) (\<lambda>l.
       (let l' = name_objects (l\<lparr>lay_order := ord, lay_label := label\<rparr>) in
        and_then (layer_Validate env l') (\<lambda>_. Inr l')))"

definition loadConfigLayer ::
    "plan_env \<Rightarrow> plan_fs \<Rightarrow> path \<Rightarrow> config_entry \<Rightarrow> config_entry option \<Rightarrow> plan_error + layer" where
  "loadConfigLayer env fs dir l1 l2 =
     (let (label, ord, path) =
        (case l2 of
           None \<Rightarrow> (ce_label l1, 1000 * ce_order l1, dir @ [ce_name l1])
         | Some e \<Rightarrow> (ce_label l1 @ ''/'' @ ce_label e, 1000 * ce_order l1 + ce_order e, dir @ [ce_name l1, ce_name e]))
      in case fs_ReadFile fs path of
           Inl e \<Rightarrow> Inl (PlanError (''cannot read layer file: %v'', [e]))
         | Inr data \<Rightarrow> ParseLayer env fs (int ord) label data)"

definition load_entry :: "plan_env \<Rightarrow> plan_fs \<Rightarrow> path \<Rightarrow> config_entry \<Rightarrow> layer list \<Rightarrow> plan_error + layer list" where
  "load_entry env fs dir l1 layers =
     (case fs_IsDir fs (dir @ [ce_name l1]) of
        Inl e \<Rightarrow> Inl (PlanError (e, []))
      | Inr True \<Rightarrow>
          and_then (configLayerEntries fs (dir @ [ce_name l1]) False) (\<lambda>l2s.
            fold_try (\<lambda>l2 layers. and_then (loadConfigLayer env fs dir l1 (Some l2)) (\<lambda>l. Inr (layers @ [l])))
              l2s layers)
      | Inr False \<Rightarrow> and_then (loadConfigLayer env fs dir l1 None) (\<lambda>l. Inr (layers @ [l])))"

definition ReadLayersDir :: "plan_env \<Rightarrow> plan_fs \<Rightarrow> path \<Rightarrow> plan_error + layer list" where
  "ReadLayersDir env fs dir =
     and_then (configLayerEntries fs dir True) (\<lambda>l1s. fold_try (load_entry env fs dir) l1s [])"

definition plan_from_layers ::
    "plan_env \<Rightarrow> (string list \<Rightarrow> string list) \<Rightarrow> layer list \<Rightarrow> plan_error + plan" where
  "plan_from_layers env iter layers =
     and_then (CombineLayers layers) (\<lambda>combined.
       (let p = \<lparr>plan_layers = layers, plan_services = map_values the (lay_services combined),
                 plan_checks = map_values the (lay_checks combined),
                 plan_log_targets = map_values the (lay_log_targets combined)\<rparr>
        in and_then (plan_Validate env iter p) (\<lambda>_. Inr p)))"

definition base_layer :: "plan \<Rightarrow> layer" where
  "base_layer p =
     \<lparr>lay_order = 0, lay_label = ''pebble-base'', lay_summary = [], lay_description = [],
      lay_services = map_values Some (plan_services p), lay_checks = map_values Some (plan_checks p),
      lay_log_targets = map_values Some (plan_log_targets p)\<rparr>"

definition ReadDir ::
    "plan_env \<Rightarrow> plan_fs \<Rightarrow> (string list \<Rightarrow> string list) \<Rightarrow> path \<Rightarrow> plan option \<Rightarrow> plan_error + plan" where
  "ReadDir env fs iter dir base =
     (case fs_exists fs dir of
        Inl e \<Rightarrow> Inl (PlanError (e, []))
      | Inr ex \<Rightarrow>
          and_then (if ex then ReadLayersDir env fs dir else Inr []) (\<lambda>layers.
            case base of
              None \<Rightarrow> if layers = [] then Inr NewPlan else plan_from_layers env iter layers
            | Some b \<Rightarrow> plan_from_layers env iter (base_layer b # layers)))"

subsection \<open>The entries of a directory\<close>

lemma match_entryE:
  assumes "match_entry name = Some (k, l)"
  obtains a b c rest where "name = a # b # c # CHR ''-'' # rest" "is_digit a" "is_digit b" "is_digit c"
    "k = 100 * digit_value a + 10 * digit_value b + digit_value c" "valid_label l"
  using assms by (cases name rule: match_entry.cases) (auto split: if_split_asm option.split_asm)

lemma match_entry_mono:
  assumes "match_entry x = Some (k, l)" "match_entry y = Some (k', l')" "x \<le> y"
  shows "k \<le> k'"
proof -
  from assms(1) obtain a b c r where x: "x = a # b # c # CHR ''-'' # r" "is_digit a" "is_digit b" "is_digit c"
    and k: "k = 100 * digit_value a + 10 * digit_value b + digit_value c" by (rule match_entryE)
  from assms(2) obtain a' b' c' r' where y: "y = a' # b' # c' # CHR ''-'' # r'" "is_digit a'" "is_digit b'" "is_digit c'"
    and k': "k' = 100 * digit_value a' + 10 * digit_value b' + digit_value c'" by (rule match_entryE)
  note d = digit_value_le [OF x(3)] digit_value_le [OF x(4)] digit_value_le [OF y(3)] digit_value_le [OF y(4)]
  from assms(3) x(1) y(1) consider "a < a'" | "a = a'" "b < b'" | "a = a'" "b = b'" "c \<le> c'" by auto
  then show ?thesis
  proof cases
    case 1
    from digit_value_mono [OF x(2) y(2) 1] d k k' show ?thesis by linarith
  next
    case 2
    from digit_value_mono [OF x(3) y(3) 2(2)] d k k' 2(1) show ?thesis by simp
  next
    case 3
    then show ?thesis using digit_value_mono [OF x(4) y(4)] k k' by (cases "c = c'") (auto simp: less_imp_le)
  qed
qed

lemma match_entry_bound:
  assumes "match_entry name = Some (k, l)"
  shows "k < 1000" "valid_label l"
proof -
  from assms obtain a b c r where "is_digit a" "is_digit b" "is_digit c"
    and k: "k = 100 * digit_value a + 10 * digit_value b + digit_value c" and "valid_label l"
    by (rule match_entryE)
  then show "k < 1000" "valid_label l" using digit_value_le [of a] digit_value_le [of b] digit_value_le [of c] by simp_all
qed

definition entries_inv ::
    "string list \<Rightarrow> (nat, string) fmap \<times> (string, nat) fmap \<times> config_entry list \<Rightarrow> bool" where
  "entries_inv names st \<longleftrightarrow>
     (case st of (orders, labels, es) \<Rightarrow>
        map ce_name es = filter config_suffix names \<and>
        fset (fmdom orders) = set (map ce_order es) \<and> fset (fmdom labels) = set (map ce_label es) \<and>
        distinct (map ce_order es) \<and> distinct (map ce_label es) \<and>
        (\<forall>e \<in> set es. match_entry (ce_name e) = Some (ce_order e, ce_label e)))"

lemma entry_step_inv:
  assumes "entry_step fs dir dirOK name st = Inr st'" "entries_inv names st"
  shows "entries_inv (names @ [name]) st'"
proof -
  obtain orders labels es where st: "st = (orders, labels, es)" by (cases st)
  show ?thesis
  proof (cases "config_suffix name")
    case False
    with assms st show ?thesis by (simp add: entry_step_def entries_inv_def)
  next
    case True
    with assms(1) st obtain k l where m: "match_entry name = Some (k, l)"
      and new: "fmlookup orders k = None" "fmlookup labels l = None"
      and st': "st' = (fmupd k l orders, fmupd l k labels,
          es @ [\<lparr>ce_name = name, ce_order = k, ce_label = l\<rparr>])"
      by (auto simp: entry_step_def split: sum.split_asm option.split_asm if_split_asm)
    from new assms(2) st have "k \<notin> set (map ce_order es)" "l \<notin> set (map ce_label es)"
      by (auto simp: entries_inv_def dest: fmdom_notI)
    with assms(2) st st' m True show ?thesis by (auto simp: entries_inv_def)
  qed
qed

lemma entry_steps_inv:
  "fold_try (entry_step fs dir dirOK) names st = Inr st' \<Longrightarrow> entries_inv ns st \<Longrightarrow> entries_inv (ns @ names) st'"
proof (induction names arbitrary: st ns)
  case (Cons n names)
  from Cons.prems(1) obtain s1 where s1: "entry_step fs dir dirOK n st = Inr s1"
      "fold_try (entry_step fs dir dirOK) names s1 = Inr st'" by (auto simp: and_then_Inr_iff)
  from Cons.IH [OF s1(2) entry_step_inv [OF s1(1) Cons.prems(2)]] show ?case by simp
qed simp

definition sorted_listings :: "plan_fs \<Rightarrow> bool" where
  "sorted_listings fs \<longleftrightarrow> (\<forall>dir names. fs_ReadDir fs dir = Inr names \<longrightarrow> sorted names)"

lemma configLayerEntries_sorted:
  assumes run: "configLayerEntries fs dir dirOK = Inr es" and "sorted_listings fs"
  shows "sorted_wrt (\<lambda>a b. ce_order a < ce_order b) es" "distinct (map ce_label es)"
    "\<forall>e \<in> set es. ce_order e < 1000 \<and> valid_label (ce_label e)"
proof -
  from run obtain names orders labels where n: "fs_ReadDir fs dir = Inr names"
    and f: "fold_try (entry_step fs dir dirOK) names (fmempty, fmempty, []) = Inr (orders, labels, es)"
    by (auto simp: configLayerEntries_def and_then_Inr_iff split: sum.split_asm)
  have "entries_inv [] (fmempty, fmempty, [])" by (simp add: entries_inv_def)
  from entry_steps_inv [OF f this] have i: "map ce_name es = filter config_suffix names"
    "distinct (map ce_order es)" "distinct (map ce_label es)"
    "\<forall>e \<in> set es. match_entry (ce_name e) = Some (ce_order e, ce_label e)"
    by (simp_all add: entries_inv_def)
  have "sorted (map ce_name es)" using assms(2) n i(1) by (simp add: sorted_listings_def sorted_wrt_filter)
  then have "sorted_wrt (\<lambda>a b. ce_order a \<le> ce_order b) es"
    unfolding sorted_map
    by (rule sorted_wrt_mono_rel [rotated]) (use i(4) in \<open>meson match_entry_mono\<close>)
  with i(2) show "sorted_wrt (\<lambda>a b. ce_order a < ce_order b) es"
    by (induction es) (auto simp: less_le)
  show "distinct (map ce_label es)" by (rule i(3))
  show "\<forall>e \<in> set es. ce_order e < 1000 \<and> valid_label (ce_label e)"
    using i(4) match_entry_bound by blast
qed

subsection \<open>The layers read\<close>

definition sub_label :: "string \<Rightarrow> string" where
  "sub_label l = takeWhile (\<lambda>c. c \<noteq> CHR ''/'') l"

text \<open>
  The layers of a plan: increasing orders, labels of their own, and the orders from 1000n to
  1000n + 999 belong to one file or directory.
\<close>

definition layers_inv :: "layer list \<Rightarrow> bool" where
  "layers_inv ls \<longleftrightarrow>
     sorted_wrt (\<lambda>a b. lay_order a < lay_order b) ls \<and> distinct (map lay_label ls) \<and>
     (\<forall>a \<in> set ls. 0 \<le> lay_order a) \<and>
     (\<forall>a \<in> set ls. \<forall>b \<in> set ls. lay_order a div 1000 = lay_order b div 1000 \<longrightarrow>
        sub_label (lay_label a) = sub_label (lay_label b))"

lemma layers_inv_append:
  "layers_inv (xs @ ys) \<longleftrightarrow> layers_inv xs \<and> layers_inv ys \<and>
     (\<forall>a \<in> set xs. \<forall>b \<in> set ys. lay_order a < lay_order b \<and> lay_label a \<noteq> lay_label b \<and>
        (lay_order a div 1000 = lay_order b div 1000 \<longrightarrow> sub_label (lay_label a) = sub_label (lay_label b)))"
proof -
  let ?R = "\<lambda>a b. lay_order a div 1000 = lay_order b div 1000 \<longrightarrow> sub_label (lay_label a) = sub_label (lay_label b)"
  have r: "(\<forall>a \<in> set (xs @ ys). \<forall>b \<in> set (xs @ ys). ?R a b) \<longleftrightarrow>
      (\<forall>a \<in> set xs. \<forall>b \<in> set xs. ?R a b) \<and> (\<forall>a \<in> set ys. \<forall>b \<in> set ys. ?R a b) \<and>
      (\<forall>a \<in> set xs. \<forall>b \<in> set ys. ?R a b)"
  proof -
    have g: "(\<forall>a \<in> A \<union> B. \<forall>b \<in> A \<union> B. R a b) \<longleftrightarrow> (\<forall>a \<in> A. \<forall>b \<in> A. R a b) \<and>
        (\<forall>a \<in> B. \<forall>b \<in> B. R a b) \<and> (\<forall>a \<in> A. \<forall>b \<in> B. R a b)"
      if "\<And>a b. R a b \<Longrightarrow> R b a" for A B and R :: "layer \<Rightarrow> layer \<Rightarrow> bool"
      using that unfolding ball_Un by blast
    show ?thesis unfolding set_append by (rule g) simp
  qed
  have d: "distinct (map lay_label (xs @ ys)) \<longleftrightarrow> distinct (map lay_label xs) \<and> distinct (map lay_label ys) \<and>
      (\<forall>a \<in> set xs. \<forall>b \<in> set ys. lay_label a \<noteq> lay_label b)" by (auto simp: image_iff)
  have o': "(\<forall>a \<in> set (xs @ ys). 0 \<le> lay_order a) \<longleftrightarrow> (\<forall>a \<in> set xs. 0 \<le> lay_order a) \<and> (\<forall>a \<in> set ys. 0 \<le> lay_order a)"
    by auto
  show ?thesis unfolding layers_inv_def r d o' sorted_wrt_append by blast
qed

lemma slash_char [simp]: "\<not> is_lower CHR ''/''" "\<not> is_digit CHR ''/''"
  by code_simp+

lemma units_no_slash: "label_units l = Some n \<Longrightarrow> CHR ''/'' \<notin> set l"
proof (induction l arbitrary: n rule: label_units.induct)
  case (2 c cs)
  show ?case
  proof (cases "is_lower c \<or> is_digit c")
    case True
    with 2 show ?thesis by (cases "label_units cs") auto
  next
    case False
    with 2(3) obtain d ds where c: "c = CHR ''-''" and d: "cs = d # ds" "is_lower d \<or> is_digit d"
        "map_option Suc (label_units ds) = Some n"
      by (auto split: list.split_asm if_split_asm)
    from 2(2) [OF False c d(1,2)] d(3) have "CHR ''/'' \<notin> set ds" by (cases "label_units ds") auto
    moreover have "CHR ''/'' \<noteq> d" using d(2) by auto
    ultimately show ?thesis using c d(1) by simp
  qed
qed simp

lemma valid_label_no_slash: "valid_label l \<Longrightarrow> CHR ''/'' \<notin> set l"
proof (cases l)
  case (Cons c cs)
  assume "valid_label l"
  with Cons have "is_lower c" "\<exists>n. label_units cs = Some n"
    by (auto simp: valid_label_def split: option.split_asm)
  with Cons units_no_slash [of cs] show ?thesis by auto
qed simp

lemma sub_label_valid:
  "valid_label l \<Longrightarrow> sub_label l = l" "valid_label l \<Longrightarrow> sub_label (l @ ''/'' @ m) = l"
  using valid_label_no_slash [of l] by (auto simp: sub_label_def takeWhile_eq_all_conv takeWhile_append)

lemma ParseLayer_label:
  "ParseLayer env fs ord label data = Inr l \<Longrightarrow> lay_order l = ord \<and> lay_label l = label"
  by (auto simp: ParseLayer_def and_then_Inr_iff Let_def name_objects_def)

lemma loadConfigLayer_label:
  "loadConfigLayer env fs dir l1 None = Inr l \<Longrightarrow>
     lay_order l = int (1000 * ce_order l1) \<and> lay_label l = ce_label l1"
  "loadConfigLayer env fs dir l1 (Some e) = Inr l \<Longrightarrow>
     lay_order l = int (1000 * ce_order l1 + ce_order e) \<and> lay_label l = ce_label l1 @ ''/'' @ ce_label e"
  by (auto simp: loadConfigLayer_def dest!: ParseLayer_label split: sum.split_asm)

lemma load_inner_labels:
  "fold_try (\<lambda>l2 layers. and_then (loadConfigLayer env fs dir l1 (Some l2)) (\<lambda>l. Inr (layers @ [l]))) l2s layers = Inr out \<Longrightarrow>
     \<exists>new. out = layers @ new \<and> map lay_order new = map (\<lambda>e. int (1000 * ce_order l1 + ce_order e)) l2s \<and>
       map lay_label new = map (\<lambda>e. ce_label l1 @ ''/'' @ ce_label e) l2s"
proof (induction l2s arbitrary: layers)
  case (Cons e l2s)
  then obtain l where l: "loadConfigLayer env fs dir l1 (Some e) = Inr l"
    and r: "fold_try (\<lambda>l2 layers. and_then (loadConfigLayer env fs dir l1 (Some l2)) (\<lambda>l. Inr (layers @ [l]))) l2s
      (layers @ [l]) = Inr out" by (auto simp: and_then_Inr_iff)
  from Cons.IH [OF r] loadConfigLayer_label(2) [OF l] show ?case by auto
qed simp

text \<open>What one entry of the layers directory adds: orders in its own thousand, with its label first.\<close>

lemma load_entry_adds:
  assumes "load_entry env fs dir l1 layers = Inr out" "sorted_listings fs" "valid_label (ce_label l1)"
  shows "\<exists>new. out = layers @ new \<and> layers_inv new \<and>
    (\<forall>l \<in> set new. lay_order l div 1000 = int (ce_order l1) \<and> sub_label (lay_label l) = ce_label l1)"
proof (cases "fs_IsDir fs (dir @ [ce_name l1])")
  case (Inl e)
  with assms(1) show ?thesis by (simp add: load_entry_def)
next
  case (Inr isdir)
  show ?thesis
  proof (cases isdir)
    case True
    with Inr assms(1) obtain l2s where c: "configLayerEntries fs (dir @ [ce_name l1]) False = Inr l2s"
      and f: "fold_try (\<lambda>l2 layers. and_then (loadConfigLayer env fs dir l1 (Some l2)) (\<lambda>l. Inr (layers @ [l]))) l2s layers = Inr out"
      by (auto simp: load_entry_def and_then_Inr_iff)
    from load_inner_labels [OF f] obtain new where new: "out = layers @ new"
      "map lay_order new = map (\<lambda>e. int (1000 * ce_order l1 + ce_order e)) l2s"
      "map lay_label new = map (\<lambda>e. ce_label l1 @ ''/'' @ ce_label e) l2s" by blast
    note es = configLayerEntries_sorted [OF c assms(2)]
    have el: "\<exists>e \<in> set l2s. lay_order l = int (1000 * ce_order l1 + ce_order e) \<and> lay_label l = ce_label l1 @ ''/'' @ ce_label e"
      if "l \<in> set new" for l
    proof -
      from that obtain i where i: "i < length new" "new ! i = l" by (auto simp: in_set_conv_nth)
      moreover have "length new = length l2s" using arg_cong [OF new(2), of length] by simp
      ultimately show ?thesis using arg_cong [OF new(2), of "\<lambda>x. x ! i"] arg_cong [OF new(3), of "\<lambda>x. x ! i"]
        by (intro bexI [of _ "l2s ! i"]) auto
    qed
    have own: "lay_order l div 1000 = int (ce_order l1) \<and> 0 \<le> lay_order l \<and> sub_label (lay_label l) = ce_label l1"
      if "l \<in> set new" for l
      using el [OF that] es(3) sub_label_valid(2) [OF assms(3)] by auto
    have "sorted_wrt (<) (map lay_order new)"
      unfolding new(2) using es(1) by (simp add: sorted_wrt_map)
    moreover have "distinct (map lay_label new)"
      unfolding new(3) using es(2) by (auto simp: distinct_map inj_on_def)
    ultimately have "layers_inv new"
      using own by (auto simp: layers_inv_def sorted_wrt_map)
    with new(1) own show ?thesis by blast
  next
    case False
    with Inr assms(1) obtain l where l: "loadConfigLayer env fs dir l1 None = Inr l" "out = layers @ [l]"
      by (auto simp: load_entry_def and_then_Inr_iff)
    with loadConfigLayer_label(1) [OF l(1)] sub_label_valid(1) [OF assms(3)] show ?thesis
      by (intro exI [of _ "[l]"]) (simp add: layers_inv_def)
  qed
qed

lemma load_entries_inv:
  "fold_try (load_entry env fs dir) l1s layers = Inr out \<Longrightarrow> sorted_listings fs \<Longrightarrow>
     sorted_wrt (\<lambda>a b. ce_order a < ce_order b) l1s \<Longrightarrow> distinct (map ce_label l1s) \<Longrightarrow>
     (\<forall>e \<in> set l1s. valid_label (ce_label e)) \<Longrightarrow> layers_inv layers \<Longrightarrow>
     (\<forall>l \<in> set layers. \<forall>e \<in> set l1s. lay_order l div 1000 < int (ce_order e) \<and> sub_label (lay_label l) \<noteq> ce_label e) \<Longrightarrow>
     layers_inv out"
proof (induction l1s arbitrary: layers)
  case (Cons e l1s)
  from Cons.prems(1) obtain out1 where o1: "load_entry env fs dir e layers = Inr out1"
    and rest: "fold_try (load_entry env fs dir) l1s out1 = Inr out" by (auto simp: and_then_Inr_iff)
  from load_entry_adds [OF o1 Cons.prems(2)] Cons.prems(5) obtain new where new: "out1 = layers @ new" "layers_inv new"
    "\<forall>l \<in> set new. lay_order l div 1000 = int (ce_order e) \<and> sub_label (lay_label l) = ce_label e" by auto
  have less: "lay_order a < lay_order b" if "lay_order a div 1000 < lay_order b div 1000" for a b :: layer
    using that by (metis linorder_not_less zdiv_mono1 zero_less_numeral)
  have "layers_inv out1"
    unfolding new(1) layers_inv_append
  proof (intro conjI ballI Cons.prems(6) new(2))
    fix a b assume "a \<in> set layers" "b \<in> set new"
    with Cons.prems(7) new(3) have "lay_order a div 1000 < lay_order b div 1000"
      and s: "sub_label (lay_label a) \<noteq> sub_label (lay_label b)" by fastforce+
    from less [OF this(1)] this show "lay_order a < lay_order b"
      "lay_order a div 1000 = lay_order b div 1000 \<longrightarrow> sub_label (lay_label a) = sub_label (lay_label b)" by simp_all
    from s show "lay_label a \<noteq> lay_label b" by auto
  qed
  moreover have "\<forall>l \<in> set out1. \<forall>e' \<in> set l1s. lay_order l div 1000 < int (ce_order e') \<and> sub_label (lay_label l) \<noteq> ce_label e'"
    using Cons.prems(3,4,7) new(1,3) by (auto simp: image_iff)
  ultimately show ?case using Cons.IH [OF rest Cons.prems(2)] Cons.prems(3-5) by simp
qed simp

lemma ReadLayersDir_inv:
  assumes "ReadLayersDir env fs dir = Inr layers" "sorted_listings fs"
  shows "layers_inv layers"
proof -
  from assms(1) obtain es where c: "configLayerEntries fs dir True = Inr es"
    and f: "fold_try (load_entry env fs dir) es [] = Inr layers"
    by (auto simp: ReadLayersDir_def and_then_Inr_iff)
  note e = configLayerEntries_sorted [OF c assms(2)]
  show ?thesis
    by (rule load_entries_inv [OF f assms(2) e(1,2)]) (use e(3) in \<open>auto simp: layers_inv_def\<close>)
qed

subsection \<open>Properties\<close>

text \<open>
  the layers of a directory come in the order of their numbers: orders increase strictly, no two
  layers share a label, and the orders from 1000n to 1000n + 999 belong to one file or one
  sub-directory, given that directory listings are sorted by name.
\<close>

lemma ReadLayersDir_ordered:
  assumes "ReadLayersDir env fs dir = Inr layers" and "sorted_listings fs"
  shows "layers_inv layers"
  by (rule ReadLayersDir_inv [OF assms])

definition sample_fs :: "string list \<Rightarrow> plan_fs" where
  "sample_fs names =
     \<lparr>fs_ReadDir = (\<lambda>p. if p = [''layers''] then Inr names
                        else if p = [''layers'', ''002-bar.d''] then Inr [''001-aaa.yaml'', ''002-bbb.yaml'']
                        else Inl ''no such directory''),
      fs_IsDir = (\<lambda>p. Inr (suffix ''.d'' (last p))), fs_exists = (\<lambda>p. Inr True), fs_ReadFile = (\<lambda>p. Inr []),
      yaml_layer = (\<lambda>label data. Inr (blank_layer label))\<rparr>"

lemma sample_fs_sorted: "sorted names \<Longrightarrow> sorted_listings (sample_fs names)"
  by (auto simp: sorted_listings_def sample_fs_def split: if_split_asm)

definition sample_read :: "layer list" where
  "sample_read = (case ReadLayersDir sample_env (sample_fs [''001-foo.yaml'', ''002-bar.d'', ''readme'']) [''layers''] of
     Inl e \<Rightarrow> [] | Inr ls \<Rightarrow> ls)"

text \<open>
  A layer file numbered 000 is read, although the base layer relies on it being forbidden: with a
  base plan the plan then has two layers of order 0.
\<close>

lemma ReadDir_order_zero:
  "case ReadDir sample_env (sample_fs [''000-foo.yaml'']) id [''layers''] (Some NewPlan) of
     Inl e \<Rightarrow> False
   | Inr p \<Rightarrow> map (\<lambda>l. (lay_order l, lay_label l)) (plan_layers p) = [(0, ''pebble-base''), (0, ''foo'')]"
  by code_simp

end
