(* ===== verification/PlanState.thy ===== *)
theory PlanState
  imports PlanFiles
begin

text \<open>
  The plan manager (\<open>internals/overlord/planstate/manager.go\<close>): loading, appending and combining
  layers, and service arguments.  The slice of layers is kept with its spare capacity \<open>pm_spare\<close>,
  because \<open>slices.Insert\<close> shifts the elements of the current plan in place when there is room;
  \<open>grow\<close> is the spare capacity that Go allocates when there is none.  The calls of the change
  listeners are recorded in \<open>pm_notified\<close>.
\<close>

record plan_manager =
  pm_plan :: plan
  pm_spare :: nat
  pm_loaded :: bool
  pm_notified :: "plan list"

definition NewManager :: plan_manager where
  "NewManager = \<lparr>pm_plan = NewPlan, pm_spare = 0, pm_loaded = False, pm_notified = []\<rparr>"

definition callChangeListeners :: "plan \<Rightarrow> plan_manager \<Rightarrow> plan_manager" where
  "callChangeListeners p m = m\<lparr>pm_notified := pm_notified m @ [p]\<rparr>"

fun findLayer :: "nat \<Rightarrow> layer list \<Rightarrow> string \<Rightarrow> (nat \<times> layer) option" where
  "findLayer i [] label = None"
| "findLayer i (l # ls) label = (if lay_label l = label then Some (i, l) else findLayer (Suc i) ls label)"

text \<open>The backward search of \<open>appendLayer\<close> for the directory of a label.\<close>

fun search_sub :: "string \<Rightarrow> layer list \<Rightarrow> nat \<Rightarrow> (nat \<times> int) option" where
  "search_sub sub layers 0 = None"
| "search_sub sub layers (Suc i) =
     (if sub_label (lay_label (layers ! i)) = sub then Some (i + 1, lay_order (layers ! i) + 1)
      else search_sub sub layers i)"

definition new_position :: "layer list \<Rightarrow> string \<Rightarrow> nat \<times> int" where
  "new_position layers label =
     (if layers = [] then (0, 1000)
      else case search_sub (sub_label label) layers (length layers) of
        Some (i, ord) \<Rightarrow> (i, ord)
      | None \<Rightarrow>
          (length layers,
           (lay_order (last layers) div 1000 + 1) * 1000 + (if CHR ''/'' \<in> set label then 1 else 0)))"

text \<open>\<open>slices.Insert\<close>: the new slice, its spare capacity, and what the old slice shows afterwards.\<close>

definition slices_Insert :: "(nat \<Rightarrow> nat) \<Rightarrow> 'a list \<Rightarrow> nat \<Rightarrow> nat \<Rightarrow> 'a \<Rightarrow> 'a list \<times> nat \<times> 'a list" where
  "slices_Insert grow xs spare i v =
     (let ys = take i xs @ v # drop i xs in
      if 0 < spare then (ys, spare - 1, take (length xs) ys) else (ys, grow (length ys), xs))"

definition updatePlanLayers ::
    "plan_env \<Rightarrow> (string list \<Rightarrow> string list) \<Rightarrow> layer list \<Rightarrow> nat \<Rightarrow> plan_manager \<Rightarrow> plan_error + plan_manager" where
  "updatePlanLayers env iter layers spare m =
     and_then (plan_from_layers env iter layers) (\<lambda>p. Inr (m\<lparr>pm_plan := p, pm_spare := spare\<rparr>))"

definition set_layer_order :: "nat \<Rightarrow> int \<Rightarrow> plan \<Rightarrow> plan" where
  "set_layer_order i ord p = p\<lparr>plan_layers := (plan_layers p)[i := (plan_layers p ! i)\<lparr>lay_order := ord\<rparr>]\<rparr>"

text \<open>The result is the order the new layer gets, or the error; the manager changes in both cases.\<close>

definition appendLayer ::
    "plan_env \<Rightarrow> (string list \<Rightarrow> string list) \<Rightarrow> (nat \<Rightarrow> nat) \<Rightarrow> layer \<Rightarrow> bool \<Rightarrow> plan_manager \<Rightarrow>
     (plan_error + int) \<times> plan_manager" where
  "appendLayer env iter grow newLayer inner m =
     (let layers = plan_layers (pm_plan m);
          (i, ord) = new_position layers (lay_label newLayer)
      in if i \<noteq> length layers \<and> \<not> inner
         then (Inl (PlanError (''cannot insert sub-directory layer without 'inner' attribute set'', [])), m)
         else
           (let (ys, spare, old) = slices_Insert grow layers (pm_spare m) i newLayer;
                m1 = m\<lparr>pm_plan := (pm_plan m)\<lparr>plan_layers := old\<rparr>\<rparr>
            in case updatePlanLayers env iter ys spare m1 of
                 Inl e \<Rightarrow> (Inl e, m1)
               | Inr m2 \<Rightarrow>
                   (let p = set_layer_order i ord (pm_plan m2) in
                    (Inr ord, callChangeListeners p (m2\<lparr>pm_plan := p\<rparr>)))))"

definition AppendLayer ::
    "plan_env \<Rightarrow> (string list \<Rightarrow> string list) \<Rightarrow> (nat \<Rightarrow> nat) \<Rightarrow> layer \<Rightarrow> bool \<Rightarrow> plan_manager \<Rightarrow>
     (plan_error + int) \<times> plan_manager" where
  "AppendLayer env iter grow layer inner m =
     (case findLayer 0 (plan_layers (pm_plan m)) (lay_label layer) of
        Some _ \<Rightarrow> (Inl (LabelExists (lay_label layer)), m)
      | None \<Rightarrow> appendLayer env iter grow layer inner m)"

definition CombineLayer ::
    "plan_env \<Rightarrow> (string list \<Rightarrow> string list) \<Rightarrow> (nat \<Rightarrow> nat) \<Rightarrow> layer \<Rightarrow> bool \<Rightarrow> plan_manager \<Rightarrow>
     (plan_error + int) \<times> plan_manager" where
  "CombineLayer env iter grow layer inner m =
     (case findLayer 0 (plan_layers (pm_plan m)) (lay_label layer) of
        None \<Rightarrow> appendLayer env iter grow layer inner m
      | Some (i, found) \<Rightarrow>
          (case and_then (CombineLayers [found, layer]) (\<lambda>c.
                  updatePlanLayers env iter
                    ((plan_layers (pm_plan m))[i := c\<lparr>lay_order := lay_order found, lay_label := lay_label found\<rparr>]) 0 m) of
             Inl e \<Rightarrow> (Inl e, m)
           | Inr m1 \<Rightarrow> (Inr (lay_order found), callChangeListeners (pm_plan m1) m1)))"

definition args_service ::
    "plan_env \<Rightarrow> plan \<Rightarrow> string \<times> string list \<Rightarrow> plan_error + string \<times> service option" where
  "args_service env p na =
     (case map_of (plan_services p) (fst na) of
        None \<Rightarrow> Inl (PlanError (''service %q not found in plan'', [fst na]))
      | Some s \<Rightarrow>
          (case ParseCommand env s of
             Inl e \<Rightarrow> Inl (PlanError e)
           | Inr (base, extra) \<Rightarrow>
               Inr (fst na, Some ((blank_service [] MergeOverride)\<lparr>svc_command := CommandString env base (snd na)\<rparr>))))"

definition SetServiceArgs ::
    "plan_env \<Rightarrow> (string list \<Rightarrow> string list) \<Rightarrow> (nat \<Rightarrow> nat) \<Rightarrow> (string \<times> string list) list \<Rightarrow> plan_manager \<Rightarrow>
     (plan_error + int) \<times> plan_manager" where
  "SetServiceArgs env iter grow serviceArgs m =
     (case map_try (args_service env (pm_plan m)) serviceArgs of
        Inl e \<Rightarrow> (Inl e, m)
      | Inr svcs \<Rightarrow>
          appendLayer env iter grow ((blank_layer ''pebble-service-args'')\<lparr>lay_services := svcs\<rparr>) False m)"

definition Load ::
    "plan_env \<Rightarrow> plan_fs \<Rightarrow> (string list \<Rightarrow> string list) \<Rightarrow> nat \<Rightarrow> path \<Rightarrow> plan option \<Rightarrow> plan_manager \<Rightarrow>
     plan_error + plan_manager" where
  "Load env fs iter spare dir base m =
     (if pm_loaded m then Inr m
      else and_then (ReadDir env fs iter dir base) (\<lambda>p.
        Inr (callChangeListeners p (m\<lparr>pm_plan := p, pm_spare := spare, pm_loaded := True\<rparr>))))"

subsection \<open>Where a new layer goes\<close>

lemma findLayer_None: "findLayer i ls label = None \<longleftrightarrow> label \<notin> lay_label ` set ls"
  by (induction ls arbitrary: i) auto

lemma findLayer_Some:
  "findLayer i ls label = Some (j, l) \<Longrightarrow> i \<le> j \<and> j < i + length ls \<and> ls ! (j - i) = l \<and> lay_label l = label"
proof (induction ls arbitrary: i)
  case (Cons x xs)
  then show ?case by (cases "lay_label x = label") (fastforce simp: nth_Cons' Suc_diff_le)+
qed simp

lemma search_sub_Some:
  "search_sub sub layers n = Some (i, ord) \<Longrightarrow>
     \<exists>j < n. i = j + 1 \<and> ord = lay_order (layers ! j) + 1 \<and> sub_label (lay_label (layers ! j)) = sub \<and>
       (\<forall>k. j < k \<longrightarrow> k < n \<longrightarrow> sub_label (lay_label (layers ! k)) \<noteq> sub)"
  by (induction n) (fastforce simp: less_Suc_eq split: if_split_asm)+

lemma search_sub_None:
  "search_sub sub layers n = None \<Longrightarrow> \<forall>k < n. sub_label (lay_label (layers ! k)) \<noteq> sub"
  by (induction n) (auto simp: less_Suc_eq split: if_split_asm)

definition has_room :: "layer list \<Rightarrow> bool" where
  "has_room layers \<longleftrightarrow> (\<forall>l \<in> set layers. lay_order l mod 1000 < 999)"

lemma layers_inv_single [simp]: "layers_inv [l] \<longleftrightarrow> 0 \<le> lay_order l"
  by (simp add: layers_inv_def)

lemma same_thousand:
  assumes "(a :: int) \<le> b" "b < c" "a div 1000 = c div 1000"
  shows "b div 1000 = a div 1000"
  using zdiv_mono1 [OF assms(1), of 1000] zdiv_mono1 [of b c 1000] assms by simp

lemma next_order:
  assumes "(a :: int) mod 1000 < 999"
  shows "(a + 1) div 1000 = a div 1000"
proof -
  have "(a mod 1000 + 1) div 1000 = 0" using assms by (intro div_pos_pos_trivial) simp_all
  then show ?thesis using div_add1_eq [of a 1 1000] by simp
qed

lemma new_position_inv:
  assumes inv: "layers_inv layers" and pos: "new_position layers label = (i, ord)" and room: "has_room layers"
    and l: "lay_label l = label" "lay_order l = ord" and new: "label \<notin> lay_label ` set layers"
  shows "i \<le> length layers" "layers_inv (take i layers @ l # drop i layers)"
proof -
  have pre: "layers_inv (take i layers)" and post: "layers_inv (drop i layers)" for i
    using inv layers_inv_append [of "take i layers" "drop i layers"] by simp_all
  have cons: "layers_inv (l # drop i layers) \<longleftrightarrow> layers_inv ([l] @ drop i layers)" for i by simp
  have nl: "lay_label a \<noteq> lay_label l" "lay_label l \<noteq> lay_label a" if "a \<in> set layers" for a
    using that new l(1) by (metis imageI)+
  have nonneg: "0 \<le> lay_order a" if "a \<in> set layers" for a
    using that inv by (simp add: layers_inv_def)
  have ordered: "lay_order (layers ! a) < lay_order (layers ! b)" if "a < b" "b < length layers" for a b
    using that inv by (simp add: layers_inv_def sorted_wrt_iff_nth_less)
  have "i \<le> length layers \<and> layers_inv (take i layers @ l # drop i layers)"
  proof (cases "search_sub (sub_label label) layers (length layers)")
    case (Some io)
    then have ne: "layers \<noteq> []" by auto
    with Some pos have "search_sub (sub_label label) layers (length layers) = Some (i, ord)"
      by (auto simp: new_position_def split: prod.split_asm)
    from search_sub_Some [OF this] obtain j where j: "j < length layers" "i = j + 1" "ord = lay_order (layers ! j) + 1"
      "sub_label (lay_label (layers ! j)) = sub_label label"
      "\<forall>k. j < k \<longrightarrow> k < length layers \<longrightarrow> sub_label (lay_label (layers ! k)) \<noteq> sub_label label" by blast
    let ?o = "lay_order (layers ! j)"
    have th: "ord div 1000 = ?o div 1000"
      using room j(1,3) next_order by (simp add: has_room_def)
    have before: "lay_order a \<le> ?o" if "a \<in> set (take i layers)" for a
    proof -
      from that j(2) obtain m where "m \<le> j" "a = layers ! m" by (fastforce simp: in_set_conv_nth less_Suc_eq_le)
      with ordered [of m j] j(1) show ?thesis by (cases "m = j") auto
    qed
    have after: "?o < lay_order b \<and> sub_label (lay_label b) \<noteq> sub_label label" if "b \<in> set (drop i layers)" for b
    proof -
      from that obtain m where "m < length layers - i" "b = layers ! (i + m)" by (auto simp: in_set_conv_nth)
      with j(2,5) ordered [of j "i + m"] show ?thesis by auto
    qed
    have same: "sub_label (lay_label a) = sub_label (lay_label b)"
      if "a \<in> set layers" "b \<in> set layers" "lay_order a div 1000 = lay_order b div 1000" for a b
      using inv that unfolding layers_inv_def by blast
    have jin: "layers ! j \<in> set layers" using j(1) by simp
    have far: "?o div 1000 < lay_order b div 1000" if "b \<in> set (drop i layers)" for b
    proof -
      from that have b: "b \<in> set layers" by (rule in_set_dropD)
      from after [OF that] j(4) same [OF jin b] have "?o div 1000 \<noteq> lay_order b div 1000" by auto
      with zdiv_mono1 [of ?o "lay_order b" 1000] after [OF that] show ?thesis by simp
    qed
    have "layers_inv ([l] @ drop i layers)"
      unfolding layers_inv_append
    proof (intro conjI ballI post)
      show "layers_inv [l]" using l(2) j(3) nonneg [OF jin] by simp
      fix a b assume a: "a \<in> set [l]" and b: "b \<in> set (drop i layers)"
      from a have al: "a = l" by simp
      from far [OF b] th have f: "ord div 1000 < lay_order b div 1000" by simp
      then have "ord < lay_order b" by (metis linorder_not_less zdiv_mono1 zero_less_numeral)
      with al l(2) show "lay_order a < lay_order b" by simp
      show "lay_label a \<noteq> lay_label b" using al nl in_set_dropD [OF b] by simp
      show "lay_order a div 1000 = lay_order b div 1000 \<longrightarrow> sub_label (lay_label a) = sub_label (lay_label b)"
        using f al l(2) by simp
    qed
    moreover have "lay_order a < lay_order b \<and> lay_label a \<noteq> lay_label b \<and>
        (lay_order a div 1000 = lay_order b div 1000 \<longrightarrow> sub_label (lay_label a) = sub_label (lay_label b))"
      if a: "a \<in> set (take i layers)" and b: "b \<in> set ([l] @ drop i layers)" for a b
    proof (cases "b = l")
      case True
      have al: "a \<in> set layers" using a by (rule in_set_takeD)
      from before [OF a] j(3) l(2) True have "lay_order a < lay_order b" by simp
      moreover have "sub_label (lay_label a) = sub_label (lay_label b)" if "lay_order a div 1000 = lay_order b div 1000"
        using same [OF al jin] that th True l(1,2) j(4) by simp
      ultimately show ?thesis using nl(1) [OF al] True by simp
    next
      case False
      with b have "b \<in> set (drop i layers)" by simp
      with a inv layers_inv_append [of "take i layers" "drop i layers"] show ?thesis by simp
    qed
    ultimately have "layers_inv (take i layers @ ([l] @ drop i layers))"
      unfolding layers_inv_append [of "take i layers" "[l] @ drop i layers"] using pre by blast
    with j show ?thesis by simp
  next
    case None
    show ?thesis
    proof (cases "layers = []")
      case True
      with pos l(2) show ?thesis by (simp add: new_position_def)
    next
      case False
      with pos None have i: "i = length layers"
        and ord: "ord = (lay_order (last layers) div 1000 + 1) * 1000 + (if CHR ''/'' \<in> set label then 1 else 0)"
        by (auto simp: new_position_def)
      have th: "ord div 1000 = lay_order (last layers) div 1000 + 1" unfolding ord by simp
      have last: "lay_order a \<le> lay_order (last layers)" if "a \<in> set layers" for a
      proof -
        from that obtain m where m: "m < length layers" "a = layers ! m" by (auto simp: in_set_conv_nth)
        with ordered [of m "length layers - 1"] False show ?thesis
          by (cases "m = length layers - 1") (auto simp: last_conv_nth less_imp_le)
      qed
      have "lay_order a div 1000 < ord div 1000" if "a \<in> set layers" for a
        using zdiv_mono1 [OF last [OF that], of 1000] th by simp
      moreover from this have "lay_order a < ord" if "a \<in> set layers" for a
        using that by (metis linorder_not_less zdiv_mono1 zero_less_numeral)
      moreover have "0 \<le> ord" using nonneg [of "last layers"] False ord by auto
      ultimately have "layers_inv (layers @ [l])"
        unfolding layers_inv_append using inv l(2) nl(1) by (metis layers_inv_single empty_iff insert_iff list.set less_irrefl)
      with i show ?thesis by simp
    qed
  qed
  then show "i \<le> length layers" "layers_inv (take i layers @ l # drop i layers)" by simp_all
qed

subsection \<open>The plan agrees with its layers\<close>

definition agrees :: "plan \<Rightarrow> bool" where
  "agrees p \<longleftrightarrow> (\<exists>c. CombineLayers (plan_layers p) = Inr c \<and>
     plan_services p = map_values the (lay_services c) \<and> plan_checks p = map_values the (lay_checks c) \<and>
     plan_log_targets p = map_values the (lay_log_targets c))"

definition plan_ok :: "plan \<Rightarrow> bool" where
  "plan_ok p \<longleftrightarrow> agrees p \<and> (\<forall>iter. reordering iter \<longrightarrow> builtin_Validate iter p = Inr ()) \<and> layers_inv (plan_layers p)"

lemma builtin_Validate_iter:
  assumes "builtin_Validate iter0 p = Inr u" "reordering iter0" "reordering iter"
  shows "builtin_Validate iter p = Inr ()"
proof -
  from assms(1) have "checkCycles p iter0 = Inr ()" by (auto simp: builtin_Validate_def)
  from cycle_free_orders [OF assms(2,3) this, of "map fst (plan_services p)" False]
  have eq: "checkCycles p iter = checkCycles p iter0"
    using \<open>checkCycles p iter0 = Inr ()\<close> by (auto simp: checkCycles_def)
  have "builtin_Validate iter p = builtin_Validate iter0 p" unfolding builtin_Validate_def eq ..
  with assms(1) show ?thesis by simp
qed

lemma combine_layer_order [simp]: "combine_layer (l\<lparr>lay_order := ord\<rparr>) c = combine_layer l c"
  by (simp add: combine_layer_def)

lemma CombineLayers_order:
  "i < length ls \<Longrightarrow> CombineLayers (ls[i := (ls ! i)\<lparr>lay_order := ord\<rparr>]) = CombineLayers ls"
proof -
  assume i: "i < length ls"
  have fold: "fold_try combine_layer (map (\<lambda>l. l\<lparr>lay_order := 0\<rparr>) xs) c = fold_try combine_layer xs c" for xs c
    by (induction xs arbitrary: c) (simp_all add: and_then_def split: sum.split)
  have *: "CombineLayers (map (\<lambda>l. l\<lparr>lay_order := 0\<rparr>) xs) = CombineLayers xs" for xs
    by (cases "xs = []") (simp_all add: CombineLayers_def fold last_map)
  have "map (\<lambda>l. l\<lparr>lay_order := 0\<rparr>) (ls[i := (ls ! i)\<lparr>lay_order := ord\<rparr>]) = map (\<lambda>l. l\<lparr>lay_order := 0\<rparr>) ls"
    using i by (intro nth_equalityI) (auto simp: nth_list_update)
  with * [of "ls[i := (ls ! i)\<lparr>lay_order := ord\<rparr>]"] * [of ls] show ?thesis by simp
qed

lemma builtin_Validate_layers [simp]: "builtin_Validate iter (p\<lparr>plan_layers := ls\<rparr>) = builtin_Validate iter p"
proof -
  let ?q = "p\<lparr>plan_layers := ls\<rparr>"
  have k: "known_service ?q = known_service p" by (rule ext) (simp add: known_service_def)
  have e: "valid_exec ?q = valid_exec p" by (intro ext) (simp only: valid_exec_def k)
  have c: "valid_plan_check ?q = valid_plan_check p" by (intro ext) (simp only: valid_plan_check_def e)
  have t: "valid_plan_target ?q = valid_plan_target p" by (intro ext) (simp only: valid_plan_target_def k)
  show ?thesis by (simp add: builtin_Validate_def checkCycles_def c t)
qed

lemma plan_from_layers_agrees:
  assumes "plan_from_layers env iter ls = Inr p"
  shows "plan_layers p = ls" "agrees p" "reordering iter \<Longrightarrow> reordering iter' \<Longrightarrow> builtin_Validate iter' p = Inr ()"
proof -
  from assms obtain c where c: "CombineLayers ls = Inr c"
    and p: "p = \<lparr>plan_layers = ls, plan_services = map_values the (lay_services c),
        plan_checks = map_values the (lay_checks c), plan_log_targets = map_values the (lay_log_targets c)\<rparr>"
    and v: "plan_Validate env iter p = Inr ()"
    by (auto simp: plan_from_layers_def and_then_Inr_iff Let_def)
  show "plan_layers p = ls" "agrees p" using c p by (simp_all add: agrees_def)
  show "reordering iter \<Longrightarrow> reordering iter' \<Longrightarrow> builtin_Validate iter' p = Inr ()"
    using plan_Validate_parts [OF v] builtin_Validate_iter by blast
qed

lemma set_layer_order_agrees:
  assumes "agrees p" "i < length (plan_layers p)"
  shows "agrees (set_layer_order i ord p)"
  using assms CombineLayers_order [OF assms(2), of ord] by (simp add: agrees_def set_layer_order_def)

text \<open>A successful append or insertion.\<close>

lemma appendLayer_ok:
  assumes run: "appendLayer env iter grow l inner m = (Inr ord, m')" and perm: "reordering iter" and inv: "layers_inv (plan_layers (pm_plan m))"
    and room: "has_room (plan_layers (pm_plan m))" and new: "lay_label l \<notin> lay_label ` set (plan_layers (pm_plan m))"
  shows "plan_ok (pm_plan m')" "pm_notified m' = pm_notified m @ [pm_plan m']"
    "\<exists>i. plan_layers (pm_plan m') =
       take i (plan_layers (pm_plan m)) @ l\<lparr>lay_order := ord\<rparr> # drop i (plan_layers (pm_plan m))"
proof -
  let ?ls = "plan_layers (pm_plan m)"
  obtain i ord' where pos: "new_position ?ls (lay_label l) = (i, ord')" by fastforce
  obtain ys spare old where ins: "slices_Insert grow ?ls (pm_spare m) i l = (ys, spare, old)" by (metis prod_cases3)
  then have ys: "ys = take i ?ls @ l # drop i ?ls" by (auto simp: slices_Insert_def Let_def split: if_split_asm)
  from run pos ins obtain p where p: "plan_from_layers env iter ys = Inr p" and o': "ord' = ord"
    and plan': "pm_plan m' = set_layer_order i ord p"
    and notif: "pm_notified m' = pm_notified m @ [set_layer_order i ord p]"
    by (auto simp: appendLayer_def Let_def updatePlanLayers_def callChangeListeners_def and_then_def
        split: if_split_asm sum.split_asm)
  note np = new_position_inv [OF inv pos room, of "l\<lparr>lay_order := ord'\<rparr>"]
  have i: "i \<le> length ?ls" using np new by simp
  note a = plan_from_layers_agrees [OF p]
  have il: "i < length (plan_layers p)" using i a(1) ys by simp
  have "plan_layers (set_layer_order i ord p) = take i ?ls @ l\<lparr>lay_order := ord\<rparr> # drop i ?ls"
    using i unfolding set_layer_order_def by (simp add: a(1) ys list_update_append nth_append)
  with np(2) new o' have "layers_inv (plan_layers (set_layer_order i ord p))" by simp
  moreover have "builtin_Validate iter' (set_layer_order i ord p) = Inr ()" if "reordering iter'" for iter'
    using a(3) [OF perm that] by (simp add: set_layer_order_def)
  ultimately show "plan_ok (pm_plan m')"
    using set_layer_order_agrees [OF a(2) il] plan' by (simp add: plan_ok_def)
  show "pm_notified m' = pm_notified m @ [pm_plan m']" using notif plan' by simp
  show "\<exists>i. plan_layers (pm_plan m') = take i ?ls @ l\<lparr>lay_order := ord\<rparr> # drop i ?ls"
    using \<open>plan_layers (set_layer_order i ord p) = _\<close> plan' by metis
qed

text \<open>A failed append leaves the manager alone, unless it is an insertion into spare room.\<close>

lemma appendLayer_failed:
  assumes "appendLayer env iter grow l inner m = (Inl e, m')" "\<not> inner \<or> pm_spare m = 0"
    and "layers_inv (plan_layers (pm_plan m))"
  shows "m' = m"
proof -
  let ?ls = "plan_layers (pm_plan m)"
  obtain i ord where pos: "new_position ?ls (lay_label l) = (i, ord)" by fastforce
  obtain ys spare old where ins: "slices_Insert grow ?ls (pm_spare m) i l = (ys, spare, old)" by (metis prod_cases3)
  have "old = ?ls" if "i = length ?ls \<or> pm_spare m = 0"
    using ins that by (auto simp: slices_Insert_def Let_def split: if_split_asm)
  with assms(1,2) pos ins show ?thesis
    by (auto simp: appendLayer_def Let_def split: if_split_asm sum.split_asm)
qed

subsection \<open>Runs of the manager\<close>

text \<open>
  The steps of a manager after loading: its operations, whatever they return, except that a failed
  \<open>AppendLayer\<close> or \<open>CombineLayer\<close> is only a step here when it was not asked to insert
  (\<open>AppendLayer_failed_insert\<close> shows what it does otherwise).
\<close>

inductive pm_step ::
    "plan_env \<Rightarrow> (nat \<Rightarrow> nat) \<Rightarrow> plan_manager \<Rightarrow> plan_manager \<Rightarrow> bool"
  for env grow where
  append: "AppendLayer env iter grow l inner m = (Inr ord, m') \<Longrightarrow> reordering iter \<Longrightarrow> has_room (plan_layers (pm_plan m)) \<Longrightarrow>
    pm_step env grow m m'"
| append_failed: "AppendLayer env iter grow l False m = (Inl e, m') \<Longrightarrow> reordering iter \<Longrightarrow> pm_step env grow m m'"
| combine: "CombineLayer env iter grow l inner m = (Inr ord, m') \<Longrightarrow> reordering iter \<Longrightarrow> has_room (plan_layers (pm_plan m)) \<Longrightarrow>
    pm_step env grow m m'"
| combine_failed: "CombineLayer env iter grow l False m = (Inl e, m') \<Longrightarrow> reordering iter \<Longrightarrow> pm_step env grow m m'"

lemma combine_existing:
  assumes run: "CombineLayer env iter grow l inner m = (r, m')"
    and f: "findLayer 0 (plan_layers (pm_plan m)) (lay_label l) = Some (i, found)"
    and ok: "plan_ok (pm_plan m)" and perm: "reordering iter"
  shows "plan_ok (pm_plan m')" "\<And>e. r = Inl e \<Longrightarrow> m' = m"
    "\<And>ord. r = Inr ord \<Longrightarrow> pm_notified m' = pm_notified m @ [pm_plan m']"
proof -
  let ?ls = "plan_layers (pm_plan m)"
  from findLayer_Some [OF f] have i: "i < length ?ls" "?ls ! i = found" by simp_all
  have inv: "layers_inv ?ls" using ok by (simp add: plan_ok_def)
  have keep: "layers_inv (?ls[i := c\<lparr>lay_order := lay_order found, lay_label := lay_label found\<rparr>])" for c
  proof -
    let ?c = "c\<lparr>lay_order := lay_order found, lay_label := lay_label found\<rparr>"
    have o': "map lay_order (?ls[i := ?c]) = map lay_order ?ls"
      and l': "map lay_label (?ls[i := ?c]) = map lay_label ?ls"
      using i by (auto intro!: nth_equalityI simp: nth_list_update)
    have el: "\<exists>x' \<in> set ?ls. lay_order x' = lay_order x \<and> lay_label x' = lay_label x" if "x \<in> set (?ls[i := ?c])" for x
      using that set_update_subset_insert [of ?ls i ?c] i nth_mem [OF i(1)] by fastforce
    show ?thesis
      using inv el unfolding layers_inv_def
      by (simp only: sorted_wrt_map [symmetric, of "(<)" lay_order] o' l' cong: conj_cong) metis
  qed
  show "plan_ok (pm_plan m')"
    using run f ok keep perm plan_from_layers_agrees
    by (auto simp: CombineLayer_def updatePlanLayers_def callChangeListeners_def plan_ok_def and_then_def
        split: sum.split_asm)
  show "\<And>e. r = Inl e \<Longrightarrow> m' = m" "\<And>ord. r = Inr ord \<Longrightarrow> pm_notified m' = pm_notified m @ [pm_plan m']"
    using run f by (auto simp: CombineLayer_def callChangeListeners_def updatePlanLayers_def and_then_Inr_iff
        split: sum.split_asm)
qed

lemma pm_step_ok:
  assumes "pm_step env grow m m'" "plan_ok (pm_plan m)"
  shows "plan_ok (pm_plan m') \<and>
    (m' = m \<or> pm_notified m' = pm_notified m @ [pm_plan m'])"
proof -
  have inv: "layers_inv (plan_layers (pm_plan m))" using assms(2) by (simp add: plan_ok_def)
  have app: "plan_ok (pm_plan m') \<and> pm_notified m' = pm_notified m @ [pm_plan m']"
    if "appendLayer env iter grow l inner m = (Inr ord, m')" "reordering iter" "has_room (plan_layers (pm_plan m))"
      "findLayer 0 (plan_layers (pm_plan m)) (lay_label l) = None" for iter l inner ord
    using appendLayer_ok [OF that(1,2) inv that(3)] that(4) by (simp add: findLayer_None)
  have failed: "m' = m" if "appendLayer env iter grow l False m = (Inl e, m')" for iter l e
    using appendLayer_failed [OF that _ inv] by simp
  from assms(1) show ?thesis
  proof (cases rule: pm_step.cases)
    case (append iter l inner ord)
    with app show ?thesis by (auto simp: AppendLayer_def split: option.split_asm)
  next
    case (append_failed iter l e)
    with failed assms(2) have "m' = m" by (auto simp: AppendLayer_def split: option.split_asm)
    with assms(2) show ?thesis by simp
  next
    case (combine iter l inner ord)
    show ?thesis
    proof (cases "findLayer 0 (plan_layers (pm_plan m)) (lay_label l)")
      case None
      with combine app show ?thesis by (auto simp: CombineLayer_def)
    next
      case (Some x)
      obtain i found where "x = (i, found)" by (cases x)
      with combine_existing [OF combine(1) _ assms(2) combine(2)] Some show ?thesis by blast
    qed
  next
    case (combine_failed iter l e)
    show ?thesis
    proof (cases "findLayer 0 (plan_layers (pm_plan m)) (lay_label l)")
      case None
      with combine_failed failed have "m' = m" by (auto simp: CombineLayer_def)
      with assms(2) show ?thesis by simp
    next
      case (Some x)
      obtain i found where "x = (i, found)" by (cases x)
      with combine_existing [OF combine_failed(1) _ assms(2) combine_failed(2)] Some assms(2) show ?thesis by blast
    qed
  qed
qed

lemma pm_steps_ok:
  "(pm_step env grow)\<^sup>*\<^sup>* m m' \<Longrightarrow> plan_ok (pm_plan m) \<Longrightarrow> plan_ok (pm_plan m')"
  by (induction rule: rtranclp_induct) (use pm_step_ok in blast)+

text \<open>Loading gives such a plan.\<close>

lemma NewPlan_ok: "plan_ok NewPlan"
proof -
  have "builtin_Validate iter NewPlan = Inr ()" if "reordering iter" for iter
  proof (rule builtin_Validate_iter [OF _ _ that])
    show "builtin_Validate id NewPlan = Inr ()" by code_simp
  qed (simp add: reordering_def)
  then show ?thesis
    by (simp add: plan_ok_def agrees_def NewPlan_def CombineLayers_def layers_inv_def map_values_def)
qed

lemma Load_ok:
  assumes "Load env fs iter spare dir None NewManager = Inr m" "sorted_listings fs" "reordering iter"
  shows "plan_ok (pm_plan m)"
proof -
  from assms(1) obtain p where p: "ReadDir env fs iter dir None = Inr p" and m: "pm_plan m = p"
    by (auto simp: Load_def NewManager_def callChangeListeners_def and_then_Inr_iff)
  from p obtain ex where "fs_exists fs dir = Inr ex" by (auto simp: ReadDir_def split: sum.split_asm)
  with p obtain layers where rd: "(if ex then ReadLayersDir env fs dir else Inr []) = Inr layers"
    and l: "if layers = [] then p = NewPlan else plan_from_layers env iter layers = Inr p"
    by (auto simp: ReadDir_def and_then_Inr_iff split: if_split_asm)
  have inv: "layers_inv layers"
  proof (cases ex)
    case True
    with rd ReadLayersDir_inv [OF _ assms(2)] show ?thesis by simp
  next
    case False
    with rd show ?thesis by (simp add: layers_inv_def)
  qed
  show ?thesis
  proof (cases "layers = []")
    case True
    with l NewPlan_ok m show ?thesis by simp
  next
    case False
    with l have "plan_from_layers env iter layers = Inr p" by simp
    from plan_from_layers_agrees [OF this] inv m assms(3) show ?thesis by (simp add: plan_ok_def)
  qed
qed

subsection \<open>Properties\<close>


definition manager_of :: "layer list \<Rightarrow> nat \<Rightarrow> plan_manager" where
  "manager_of layers spare =
     (case plan_from_layers sample_env id layers of
        Inl e \<Rightarrow> NewManager
      | Inr p \<Rightarrow> NewManager\<lparr>pm_plan := p, pm_spare := spare, pm_loaded := True\<rparr>)"

definition service_layer :: "string \<Rightarrow> int \<Rightarrow> string \<Rightarrow> string \<Rightarrow> layer" where
  "service_layer label ord name cmd =
     (blank_layer label)\<lparr>lay_order := ord,
       lay_services := [(name, Some ((blank_service name MergeOverride)\<lparr>svc_command := cmd\<rparr>))]\<rparr>"

definition sample_loaded :: plan_manager where
  "sample_loaded =
     (case Load sample_env (sample_fs [''001-foo.yaml'', ''002-bar.d'']) id 0 [''layers''] None NewManager of
        Inl e \<Rightarrow> NewManager | Inr m \<Rightarrow> m)"

definition sample_appended :: plan_manager where
  "sample_appended =
     snd (AppendLayer sample_env id (\<lambda>n. n) (service_layer ''bar/ccc'' 0 ''web'' ''httpd'') True sample_loaded)"


text \<open>
  A failed \<open>AppendLayer\<close> that inserts into a slice with spare capacity changes the current plan: the
  invalid layer stays in its list of layers, and the last layer is gone from it.
\<close>

lemma AppendLayer_failed_insert:
  "let m = manager_of [service_layer ''sub/one'' 1001 ''one'' ''run'', service_layer ''last'' 2000 ''two'' ''run''] 1;
       (r, m') = AppendLayer sample_env id (\<lambda>n. n) (service_layer ''sub/two'' 0 ''three'' []) True m
   in isl r \<and> map lay_label (plan_layers (pm_plan m)) = [''sub/one'', ''last''] \<and>
      map lay_label (plan_layers (pm_plan m')) = [''sub/one'', ''sub/two'']"
  by code_simp

definition check_layer :: "string \<Rightarrow> int \<Rightarrow> string \<Rightarrow> int \<Rightarrow> layer" where
  "check_layer label ord ov threshold =
     (blank_layer label)\<lparr>lay_order := ord,
       lay_checks := [(''up'', Some ((blank_check ''up'' ov)\<lparr>chk_threshold := threshold,
         chk_tcp := Some \<lparr>tcp_port = 80, tcp_host = []\<rparr>\<rparr>))]\<rparr>"

text \<open>
  \<open>CombineLayer\<close> stores the defaults of the combined layer in it: combining a layer that says nothing
  about the threshold of a check, into one that does not either, resets the threshold that an
  earlier layer of the plan gives.
\<close>

lemma CombineLayer_resets_threshold:
  "let m = manager_of [check_layer ''base'' 1000 ReplaceOverride 5, check_layer ''over'' 2000 MergeOverride 0] 0;
       (r, m') = CombineLayer sample_env id (\<lambda>n. n) (check_layer ''over'' 0 MergeOverride 0) False m
   in \<not> isl r \<and> map (\<lambda>(n, c). chk_threshold c) (plan_checks (pm_plan m)) = [5] \<and>
      map (\<lambda>(n, c). chk_threshold c) (plan_checks (pm_plan m')) = [3]"
  by code_simp

end
