(* ===== verification/ServiceCommand.thy ===== *)
theory ServiceCommand
  imports PlanValidate
begin

text \<open>
  The command of a service: the workloads section of the plan (\<open>internals/workloads/workloads.go\<close>)
  and the part of \<open>startInternal\<close> in \<open>servstate/handlers.go\<close> that prepares the command from the
  configuration of the service and its workload.  The record \<open>svc_env\<close> adds what preparing a command
  asks the system: the current user, and the home directory and name of a user.
\<close>

subsection \<open>Workloads\<close>

record workload =
  wl_name :: string
  wl_override :: string
  wl_environment :: "(string, string) fmap"
  wl_user_id :: "int option"
  wl_user :: string
  wl_group_id :: "int option"
  wl_group :: string

definition workload_validate :: "workload \<Rightarrow> string + unit" where
  "workload_validate w = require (wl_name w \<noteq> []) ''cannot have an empty name''"

definition workload_merge :: "workload \<Rightarrow> workload \<Rightarrow> workload" where
  "workload_merge w other =
     w\<lparr>wl_environment := wl_environment w ++\<^sub>f wl_environment other,
       wl_user_id := or_opt (wl_user_id w) (wl_user_id other),
       wl_user := or_str (wl_user w) (wl_user other),
       wl_group_id := or_opt (wl_group_id w) (wl_group_id other),
       wl_group := or_str (wl_group w) (wl_group other)\<rparr>"

text \<open>\<open>WorkloadsSection.Validate\<close> on the entries of a section as decoded, nil ones included.\<close>

definition workloads_Validate :: "workload option go_map \<Rightarrow> plan_error + unit" where
  "workloads_Validate ws =
     each (\<lambda>(name, w). case w of
         None \<Rightarrow> Inl (format_error ''workload %q: cannot have a null value'' [name])
       | Some x \<Rightarrow>
           (case workload_validate x of
              Inl e \<Rightarrow> Inl (format_error ''workload %q: %v'' [name, e])
            | Inr _ \<Rightarrow> Inr ())) ws"

fun workloads_combine :: "workload option go_map \<Rightarrow> workload go_map \<Rightarrow> plan_error + workload go_map" where
  "workloads_combine [] ws = Inr ws"
| "workloads_combine ((name, v) # ents) ws =
     (case v of
        None \<Rightarrow> Inl PlanPanic
      | Some w \<Rightarrow>
          if wl_override w = MergeOverride then
            workloads_combine ents
              (AList.update name (case map_of ws name of Some current \<Rightarrow> workload_merge current w | None \<Rightarrow> w) ws)
          else if wl_override w = ReplaceOverride then workloads_combine ents (AList.update name w ws)
          else if wl_override w = [] then
            Inl (format_error ''workload %q: must define an \"override\" policy'' [name])
          else Inl (format_error ''workload %q: has an invalid \"override\" policy: %q'' [name, wl_override w]))"

definition CombineSections :: "workload option go_map list \<Rightarrow> plan_error + workload go_map" where
  "CombineSections sections = fold_try workloads_combine sections []"

definition name_workloads :: "workload option go_map \<Rightarrow> workload option go_map" where
  "name_workloads ws = map (\<lambda>(n, w). (n, map_option (\<lambda>x. x\<lparr>wl_name := n\<rparr>) w)) ws"

definition valid_workload_service :: "workload go_map \<Rightarrow> string \<times> service \<Rightarrow> plan_error + unit" where
  "valid_workload_service ws ns =
     (let (name, s) = ns in
      if svc_workload s = [] then Inr ()
      else if map_of ws (svc_workload s) = None
      then Inl (format_error ''workload %q: not defined for service %q'' [svc_workload s, name])
      else if svc_user_id s \<noteq> None \<or> svc_user s \<noteq> []
      then Inl (format_error ''plan service %q cannot have user information and a workload at the same time'' [name])
      else if svc_group_id s \<noteq> None \<or> svc_group s \<noteq> []
      then Inl (format_error ''plan service %q cannot have group information and a workload at the same time'' [name])
      else Inr ())"

definition workloads_ValidatePlan :: "plan_env \<Rightarrow> workload go_map \<Rightarrow> plan \<Rightarrow> plan_error + unit" where
  "workloads_ValidatePlan env ws p =
     and_then (each (valid_workload_service ws) (plan_services p)) (\<lambda>_.
       each (\<lambda>(name, w).
           case NormalizeUidGid env (wl_user_id w) (wl_group_id w) (wl_user w) (wl_group w) of
             Inl (f, args) \<Rightarrow> Inl (format_error (''workload %q: '' @ f) (name # args))
           | Inr _ \<Rightarrow> Inr ()) ws)"

lemma workload_merge_assoc: "workload_merge (workload_merge a b) c = workload_merge a (workload_merge b c)"
  by (simp add: workload_merge_def)

interpretation workloads: layer_section wl_override wl_name workload_merge
  by unfold_locales (simp_all add: workload_merge_assoc, simp_all add: workload_merge_def)

text \<open>Workloads are stacked as services are; only the wording of the errors differs.\<close>

lemma workloads_combine_section:
  "workloads_combine ents ws = Inr ws' \<longleftrightarrow>
     combine_section wl_override wl_name workload_merge ''workload'' [] ents ws = Inr ws'"
  by (induction ents ws rule: workloads_combine.induct) (auto split: option.split)

lemma CombineSections_section:
  "fold_try workloads_combine sections ws = Inr ws' \<longleftrightarrow>
     combine_sections wl_override wl_name workload_merge ''workload'' (map (Pair []) sections) ws = Inr ws'"
  by (induction sections arbitrary: ws)
     (auto simp: combine_sections_def and_then_Inr_iff workloads_combine_section)

lemma CombineSections_stacks:
  assumes "CombineSections sections = Inr ws" "\<And>es. es \<in> set sections \<Longrightarrow> distinct (map fst es)"
  shows "map_of ws name =
    foldl (stack_entry wl_override workload_merge) None (entries_of name (map (Pair []) sections))"
  using workloads.combine_sections_lookup [OF assms(1) [unfolded CombineSections_def CombineSections_section], of name]
    assms(2) by auto

subsection \<open>Preparing the command\<close>

text \<open>
  The ids as \<open>strconv.Atoi\<close> reads them; \<open>se_lookup\<close> gives the home directory and the name of a user.
\<close>

record svc_env =
  se_plan :: plan_env
  se_current :: "string + int \<times> int"
  se_lookup :: "int \<Rightarrow> string + string \<times> string"

record command =
  cmd_args :: "string list"
  cmd_dir :: string
  cmd_environment :: "(string, string) fmap"
  cmd_credential :: "(int \<times> int) option"
  cmd_wait_delay :: duration

definition killDelayDefault :: duration where "killDelayDefault = 5 * second"
definition okayDelay :: duration where "okayDelay = 1 * second"
definition failDelay :: duration where "failDelay = 5 * second"

definition killDelay :: "service \<Rightarrow> duration" where
  "killDelay config = (if od_is_set (svc_kill_delay config) then od_value (svc_kill_delay config) else killDelayDefault)"

text \<open>Go divides integers towards zero.\<close>

definition quot :: "int \<Rightarrow> int \<Rightarrow> int" where
  "quot a b = (if a < 0 then - ((- a) div b) else a div b)"

text \<open>The ids and names a service runs as: those of its workload unless its own are set.\<close>

definition run_as :: "service \<Rightarrow> workload option \<Rightarrow> int option \<times> int option \<times> string \<times> string" where
  "run_as config wl =
     (let (uid, gid, u, g) =
        (case wl of
           None \<Rightarrow> (None, None, [], [])
         | Some w \<Rightarrow> (wl_user_id w, wl_group_id w, wl_user w, wl_group w))
      in (or_opt uid (svc_user_id config), or_opt gid (svc_group_id config),
          or_str u (svc_user config), or_str g (svc_group config)))"

definition IsCurrent :: "svc_env \<Rightarrow> int \<Rightarrow> int \<Rightarrow> bool" where
  "IsCurrent env uid gid = (case se_current env of Inl _ \<Rightarrow> False | Inr cur \<Rightarrow> cur = (uid, gid))"

definition unset_var :: "(string, string) fmap \<Rightarrow> string \<Rightarrow> bool" where
  "unset_var e k \<longleftrightarrow> (case fmlookup e k of None \<Rightarrow> True | Some v \<Rightarrow> v = [])"

definition add_home :: "svc_env \<Rightarrow> int option \<Rightarrow> (string, string) fmap \<Rightarrow> (string, string) fmap" where
  "add_home env uid e =
     (case uid of
        None \<Rightarrow> e
      | Some u \<Rightarrow>
          if unset_var e ''HOME'' \<or> unset_var e ''USER'' then
            (case se_lookup env u of
               Inl _ \<Rightarrow> e
             | Inr (home, name) \<Rightarrow>
                 (let e1 = (if unset_var e ''HOME'' then fmupd ''HOME'' home e else e)
                  in if unset_var e1 ''USER'' then fmupd ''USER'' name e1 else e1))
          else e)"

definition command_environment :: "svc_env \<Rightarrow> service \<Rightarrow> workload option \<Rightarrow> int option \<Rightarrow> (string, string) fmap" where
  "command_environment env config wl uid =
     add_home env uid
       ((case wl of None \<Rightarrow> fmempty | Some w \<Rightarrow> wl_environment w) ++\<^sub>f svc_environment config)"

definition prepare_command :: "svc_env \<Rightarrow> service \<Rightarrow> workload option \<Rightarrow> string list \<Rightarrow> err + command" where
  "prepare_command env config wl args =
     (let (uid, gid, u, g) = run_as config wl in
      and_then (NormalizeUidGid (se_plan env) uid gid u g) (\<lambda>(uid, gid).
        Inr \<lparr>cmd_args = args, cmd_dir = svc_working_dir config,
             cmd_environment = command_environment env config wl uid,
             cmd_credential =
               (case (uid, gid) of
                  (Some a, Some b) \<Rightarrow> if IsCurrent env a b then None else Some (a, b)
                | _ \<Rightarrow> None),
             cmd_wait_delay = quot (killDelay config * 9) 10\<rparr>))"

text \<open>A service runs with the credentials its ids and names stand for, or as the daemon itself.\<close>

lemma prepare_command_credential:
  assumes "prepare_command env config wl args = Inr c" "run_as config wl = (uid, gid, u, g)"
  shows "(cmd_credential c = None \<longrightarrow>
            uid = None \<and> gid = None \<and> u = [] \<and> g = [] \<or>
            (\<exists>a b. se_current env = Inr (a, b) \<and> NormalizeUidGid (se_plan env) uid gid u g = Inr (Some a, Some b))) \<and>
         (\<forall>a b. cmd_credential c = Some (a, b) \<longrightarrow>
            NormalizeUidGid (se_plan env) uid gid u g = Inr (Some a, Some b) \<and>
            (uid \<noteq> None \<longrightarrow> uid = Some a) \<and> (gid \<noteq> None \<longrightarrow> gid = Some b))"
proof -
  from assms obtain uid' gid' where n: "NormalizeUidGid (se_plan env) uid gid u g = Inr (uid', gid')"
    and c: "cmd_credential c = (case (uid', gid') of
        (Some a, Some b) \<Rightarrow> if IsCurrent env a b then None else Some (a, b) | _ \<Rightarrow> None)"
    by (auto simp: prepare_command_def and_then_Inr_iff)
  from n NormalizeUidGid_both [OF n] c show ?thesis
    by (auto simp: IsCurrent_def split: option.split_asm if_split_asm sum.split_asm)
qed

lemma command_environment_lookup:
  assumes "fmlookup (svc_environment config) k = Some v" "v \<noteq> []"
  shows "fmlookup (command_environment env config wl uid) k = Some v"
proof -
  have keep: "fmlookup (add_home env uid e) k = Some v" if "fmlookup e k = Some v" for e
  proof -
    have u: "\<not> unset_var e k" using that assms(2) by (simp add: unset_var_def)
    have "\<not> unset_var (fmupd ''HOME'' home e) k" if "unset_var e ''HOME''" for home
      using u that by (auto simp: unset_var_def)
    with u \<open>fmlookup e k = Some v\<close> show ?thesis
      by (auto simp: add_home_def Let_def split: option.split sum.split)
  qed
  show ?thesis unfolding command_environment_def
    by (rule keep) (use assms(1) in \<open>simp add: fmdomI\<close>)
qed

end
