(* ===== verification/ServiceFsm.thy ===== *)
theory ServiceFsm
  imports ServiceCommand
begin

text \<open>
  The state machine of one service (\<open>servstate/handlers.go\<close>): \<open>serviceData\<close> with the timers, the
  processes and the tasks that wait for it.  Every method that holds \<open>servicesLock\<close> is one operation;
  a timer of \<open>time.AfterFunc\<close> is an entry of \<open>sd_timers\<close> with the instant it is due, and may fire at any
  moment after that; a process whose \<open>exited\<close> has not been called yet is in \<open>sd_procs\<close>.  A send on a
  full channel is the outcome \<open>BlockedStarted\<close> or \<open>BlockedStopped\<close>.
\<close>

datatype service_state =
  StateInitial | StateStarting | StateRunning | StateTerminating | StateKilling | StateStopped | StateBackoff
  | StateExited

datatype service_status = StatusActive | StatusBackoff | StatusError | StatusInactive

datatype restart_type = RestartDaemon | RestartServiceFailure | RestartCheckFailure

datatype timer = OkayWait | TerminateWait | KillWait | BackoffWait | ResetWait nat

datatype svc_fault = NilCommand | NoArguments | BlockedStarted | BlockedStopped

record service_data =
  sd_state :: service_state
  sd_config :: service
  sd_workload :: "workload option"
  sd_started :: "err option list"
  sd_stopped :: "err option list"
  sd_cmd :: "nat option"
  sd_backoffNum :: int
  sd_backoffTime :: duration
  sd_resetTimer :: "nat option"
  sd_restarting :: bool
  sd_currentSince :: time
  sd_startCount :: nat

text \<open>
  The surroundings of a service: the clock, the processes and timers, how many \<open>doStart\<close> and \<open>doStop\<close>
  wait in their \<open>select\<close>, the signals sent (a negative pid is a process group) and the restarts asked for.
\<close>

record service_world = service_data +
  sd_now :: time
  sd_procs :: "nat list"
  sd_timers :: "(time \<times> timer) list"
  sd_starting :: nat
  sd_stopping :: nat
  sd_signals :: "(int \<times> string) list"
  sd_restarts :: "restart_type list"

type_synonym svc_result = "svc_fault + err option \<times> service_world"

subsection \<open>Transitions\<close>

fun state_name :: "service_state \<Rightarrow> string" where
  "state_name StateInitial = ''initial''"
| "state_name StateStarting = ''starting''"
| "state_name StateRunning = ''running''"
| "state_name StateTerminating = ''terminating''"
| "state_name StateKilling = ''killing''"
| "state_name StateStopped = ''stopped''"
| "state_name StateBackoff = ''backoff''"
| "state_name StateExited = ''exited''"

fun stateToStatus :: "service_state \<Rightarrow> service_status" where
  "stateToStatus StateStarting = StatusActive"
| "stateToStatus StateRunning = StatusActive"
| "stateToStatus StateTerminating = StatusInactive"
| "stateToStatus StateKilling = StatusInactive"
| "stateToStatus StateStopped = StatusInactive"
| "stateToStatus StateBackoff = StatusBackoff"
| "stateToStatus StateInitial = StatusError"
| "stateToStatus StateExited = StatusError"

definition transitionRestarting :: "service_state \<Rightarrow> bool \<Rightarrow> service_world \<Rightarrow> service_world" where
  "transitionRestarting st restarting s =
     s\<lparr>sd_currentSince := (if stateToStatus (sd_state s) \<noteq> stateToStatus st then sd_now s else sd_currentSince s),
       sd_state := st, sd_restarting := restarting\<rparr>"

definition transition :: "service_state \<Rightarrow> service_world \<Rightarrow> service_world" where
  "transition st s = transitionRestarting st False s"

definition AfterFunc :: "duration \<Rightarrow> timer \<Rightarrow> service_world \<Rightarrow> service_world" where
  "AfterFunc d t s = s\<lparr>sd_timers := sd_timers s @ [(sd_now s + d, t)]\<rparr>"

definition send_started :: "err option \<Rightarrow> service_world \<Rightarrow> svc_fault + service_world" where
  "send_started e s = (if sd_started s = [] then Inr (s\<lparr>sd_started := [e]\<rparr>) else Inl BlockedStarted)"

definition send_stopped :: "err option \<Rightarrow> service_world \<Rightarrow> svc_fault + service_world" where
  "send_stopped e s =
     (if length (sd_stopped s) < 2 then Inr (s\<lparr>sd_stopped := sd_stopped s @ [e]\<rparr>) else Inl BlockedStopped)"

definition HandleRestart :: "restart_type \<Rightarrow> service_world \<Rightarrow> service_world" where
  "HandleRestart r s = s\<lparr>sd_restarts := sd_restarts s @ [r]\<rparr>"

text \<open>A signal to the process group of the service; a failure of the call is only logged.\<close>

definition kill_group :: "string \<Rightarrow> service_world \<Rightarrow> svc_fault + service_world" where
  "kill_group sig s =
     (case sd_cmd s of
        None \<Rightarrow> Inl NilCommand
      | Some pid \<Rightarrow> Inr (s\<lparr>sd_signals := sd_signals s @ [(- int pid, sig)]\<rparr>))"

subsection \<open>Starting\<close>

text \<open>
  \<open>startInternal\<close>; \<open>out\<close> is the outcome of \<open>reaper.StartCommand\<close>, an error or the pid.
\<close>

definition startInternal :: "svc_env \<Rightarrow> string + nat \<Rightarrow> service_world \<Rightarrow> svc_result" where
  "startInternal env out s =
     (case ParseCommand (se_plan env) (sd_config s) of
        Inl e \<Rightarrow> Inr (Some e, s)
      | Inr (base, extra) \<Rightarrow>
          if base @ extra = [] then Inl NoArguments
          else
            (let s1 = s\<lparr>sd_cmd := None\<rparr> in
             case prepare_command env (sd_config s1) (sd_workload s1) (base @ extra) of
               Inl e \<Rightarrow> Inr (Some e, s1)
             | Inr cmd \<Rightarrow>
                 (case out of
                    Inl e \<Rightarrow> Inr (Some (''cannot start service: %w'', [e]), s1)
                  | Inr pid \<Rightarrow>
                      (let s2 = s1\<lparr>sd_cmd := Some pid, sd_procs := sd_procs s1 @ [pid],
                                   sd_resetTimer := Some pid, sd_startCount := sd_startCount s1 + 1\<rparr>
                       in Inr (None, AfterFunc (od_value (svc_backoff_limit (sd_config s2))) (ResetWait pid) s2)))))"

definition start :: "svc_env \<Rightarrow> string + nat \<Rightarrow> service_world \<Rightarrow> svc_result" where
  "start env out s =
     (if sd_state s = StateInitial then
        and_then (startInternal env out s) (\<lambda>(e, s1).
          case e of
            Some err \<Rightarrow> Inr (Some err, transition StateStopped s1)
          | None \<Rightarrow> Inr (None, AfterFunc okayDelay OkayWait (transition StateStarting s1)))
      else Inr (Some (''cannot start service while %s'', [state_name (sd_state s)]), s))"

definition okayWaitElapsed :: "service_world \<Rightarrow> svc_result" where
  "okayWaitElapsed s =
     (if sd_state s = StateStarting
      then and_then (send_started None s) (\<lambda>s1. Inr (None, transition StateRunning s1))
      else Inr (None, s))"

subsection \<open>The exit of a process\<close>

definition getAction :: "service \<Rightarrow> bool \<Rightarrow> string \<times> string" where
  "getAction config success =
     (let (action, onType) =
        (if success then (svc_on_success config, ''on-success'') else (svc_on_failure config, ''on-failure''))
      in (if action = [] then ''restart'' else action, onType))"

text \<open>\<open>scale\<close> is the multiplication of a duration by the backoff factor in floating point.\<close>

definition calculateNextBackoff :: "(duration \<Rightarrow> rat \<Rightarrow> duration) \<Rightarrow> service \<Rightarrow> duration \<Rightarrow> duration" where
  "calculateNextBackoff scale config current =
     (if current = 0 then od_value (svc_backoff_delay config)
      else if od_value (svc_backoff_limit config) \<le> current then od_value (svc_backoff_limit config)
      else min (scale current (of_value (svc_backoff_factor config))) (od_value (svc_backoff_limit config)))"

definition doBackoff :: "(duration \<Rightarrow> rat \<Rightarrow> duration) \<Rightarrow> duration \<Rightarrow> service_world \<Rightarrow> service_world" where
  "doBackoff scale jitter s =
     (let s1 = s\<lparr>sd_backoffNum := sd_backoffNum s + 1,
                 sd_backoffTime := calculateNextBackoff scale (sd_config s) (sd_backoffTime s)\<rparr>;
          s2 = transition StateBackoff s1
      in AfterFunc (sd_backoffTime s2 + jitter) BackoffWait s2)"

definition unexpected_exit :: "(duration \<Rightarrow> rat \<Rightarrow> duration) \<Rightarrow> int \<Rightarrow> duration \<Rightarrow> service_world \<Rightarrow> svc_result" where
  "unexpected_exit scale exitCode jitter s =
     (let (action, onType) = getAction (sd_config s) (exitCode = 0) in
      if action = ''ignore''
      then Inr (None, transition (if exitCode = 0 then StateStopped else StateExited) s)
      else if action = ''shutdown''
      then Inr (None, transition StateExited
             (HandleRestart (if exitCode \<noteq> 0 then RestartServiceFailure else RestartDaemon) s))
      else if action = ''success-shutdown'' then Inr (None, transition StateExited (HandleRestart RestartDaemon s))
      else if action = ''failure-shutdown''
      then Inr (None, transition StateExited (HandleRestart RestartServiceFailure s))
      else if action = ''restart'' then Inr (None, doBackoff scale jitter s)
      else Inr (Some (''internal error: unexpected action %q'', [action]), s))"

definition stop_reset_timer :: "service_world \<Rightarrow> service_world" where
  "stop_reset_timer s =
     (case sd_resetTimer s of
        None \<Rightarrow> s
      | Some pid \<Rightarrow> s\<lparr>sd_timers := filter (\<lambda>(due, t). t \<noteq> ResetWait pid) (sd_timers s)\<rparr>)"

definition exited :: "(duration \<Rightarrow> rat \<Rightarrow> duration) \<Rightarrow> int \<Rightarrow> duration \<Rightarrow> service_world \<Rightarrow> svc_result" where
  "exited scale exitCode jitter s0 =
     (let s = stop_reset_timer s0 in
      case sd_state s of
        StateStarting \<Rightarrow>
          and_then (send_started (Some (''exited quickly with code %d, will %s'',
              [show_int exitCode, fst (getAction (sd_config s) (exitCode = 0))])) s)
            (unexpected_exit scale exitCode jitter)
      | StateRunning \<Rightarrow> unexpected_exit scale exitCode jitter s
      | StateTerminating \<Rightarrow>
          if sd_restarting s then Inr (None, doBackoff scale jitter s)
          else and_then (send_stopped None s) (\<lambda>s1. Inr (None, transition StateStopped s1))
      | StateKilling \<Rightarrow>
          if sd_restarting s then Inr (None, doBackoff scale jitter s)
          else and_then (send_stopped None s) (\<lambda>s1. Inr (None, transition StateStopped s1))
      | StateStopped \<Rightarrow> Inr (None, s)
      | _ \<Rightarrow> Inr (Some (''internal error: exited invalid in state %q'', [state_name (sd_state s)]), s))"

subsection \<open>Signals, stopping and the timers\<close>

text \<open>\<open>valid\<close> is \<open>unix.SignalNum\<close> being known, \<open>failed\<close> an error of the call.\<close>

definition sendSignal :: "(string \<Rightarrow> bool) \<Rightarrow> err option \<Rightarrow> string \<Rightarrow> service_world \<Rightarrow> svc_result" where
  "sendSignal valid failed signal s =
     (if sd_state s \<in> {StateStarting, StateRunning} then
        (if \<not> valid signal then Inr (Some (''invalid signal name %q'', [signal]), s)
         else case sd_cmd s of
           None \<Rightarrow> Inl NilCommand
         | Some pid \<Rightarrow>
             (case failed of
                Some e \<Rightarrow> Inr (Some e, s)
              | None \<Rightarrow> Inr (None, s\<lparr>sd_signals := sd_signals s @ [(int pid, signal)]\<rparr>)))
      else if sd_state s \<in> {StateBackoff, StateTerminating, StateKilling, StateStopped, StateExited}
      then Inr (Some (''service is not running'', []), s)
      else Inr (Some (''invalid in state %q'', [state_name (sd_state s)]), s))"

definition stop_running :: "service_world \<Rightarrow> svc_result" where
  "stop_running s =
     and_then (kill_group ''SIGTERM'' s) (\<lambda>s1.
       Inr (None, AfterFunc (killDelay (sd_config s1)) TerminateWait (transition StateTerminating s1)))"

definition stop :: "service_world \<Rightarrow> svc_result" where
  "stop s =
     (case sd_state s of
        StateStarting \<Rightarrow>
          and_then (send_started (Some (''stopped before the %s okay delay'', [''1s''])) s) stop_running
      | StateRunning \<Rightarrow> stop_running s
      | StateBackoff \<Rightarrow> and_then (send_stopped None s) (\<lambda>s1. Inr (None, transition StateStopped s1))
      | _ \<Rightarrow> Inr (Some (''cannot stop service while %s'', [state_name (sd_state s)]), s))"

definition backoffTimeElapsed :: "svc_env \<Rightarrow> string + nat \<Rightarrow> service_world \<Rightarrow> svc_result" where
  "backoffTimeElapsed env out s =
     (if sd_state s = StateBackoff then
        and_then (startInternal env out s) (\<lambda>(e, s1).
          case e of Some err \<Rightarrow> Inr (Some err, s1) | None \<Rightarrow> Inr (None, transition StateRunning s1))
      else Inr (None, s))"

definition terminateTimeElapsed :: "service_world \<Rightarrow> svc_result" where
  "terminateTimeElapsed s =
     (if sd_state s = StateTerminating then
        and_then (kill_group ''SIGKILL'' s) (\<lambda>s1.
          Inr (None, AfterFunc failDelay KillWait (transitionRestarting StateKilling (sd_restarting s1) s1)))
      else Inr (None, s))"

definition killTimeElapsed :: "service_world \<Rightarrow> svc_result" where
  "killTimeElapsed s =
     (if sd_state s = StateKilling then
        (if sd_restarting s then Inr (None, transition StateStopped s)
         else and_then (send_stopped (Some (''process still running after SIGTERM and SIGKILL'', [])) s)
           (\<lambda>s1. Inr (None, transition StateStopped s1)))
      else Inr (None, s))"

definition backoffResetElapsed :: "service_world \<Rightarrow> svc_result" where
  "backoffResetElapsed s =
     (if sd_state s = StateRunning then Inr (None, s\<lparr>sd_backoffNum := 0, sd_backoffTime := 0\<rparr>)
      else Inr (None, s))"

definition checkFailed :: "(duration \<Rightarrow> rat \<Rightarrow> duration) \<Rightarrow> duration \<Rightarrow> string \<Rightarrow> service_world \<Rightarrow> svc_fault + service_world" where
  "checkFailed scale jitter action s =
     (if sd_state s \<in> {StateRunning, StateBackoff, StateExited} then
        (if action = ''ignore'' then Inr s
         else if action = ''shutdown'' then Inr (HandleRestart RestartCheckFailure s)
         else if action = ''success-shutdown'' then Inr (HandleRestart RestartDaemon s)
         else if action = ''restart'' then
           (case sd_state s of
              StateRunning \<Rightarrow>
                and_then (kill_group ''SIGTERM'' s) (\<lambda>s1.
                  Inr (AfterFunc (killDelay (sd_config s1)) TerminateWait
                    (transitionRestarting StateTerminating True s1)))
            | StateExited \<Rightarrow> Inr (doBackoff scale jitter s)
            | _ \<Rightarrow> Inr s)
         else Inr s)
      else Inr s)"

subsection \<open>The tasks\<close>

definition new_service :: "time \<Rightarrow> service \<Rightarrow> workload option \<Rightarrow> service_world" where
  "new_service now config wl =
     \<lparr>sd_state = StateInitial, sd_config = config, sd_workload = wl, sd_started = [], sd_stopped = [],
      sd_cmd = None, sd_backoffNum = 0, sd_backoffTime = 0, sd_resetTimer = None, sd_restarting = False,
      sd_currentSince = 0, sd_startCount = 0, sd_now = now, sd_procs = [], sd_timers = [], sd_starting = 0,
      sd_stopping = 0, sd_signals = [], sd_restarts = []\<rparr>"

text \<open>The service, and the message for the log of the task when there is nothing to start.\<close>

definition serviceForStart ::
    "time \<Rightarrow> service \<Rightarrow> workload option \<Rightarrow> service_world option \<Rightarrow> service_world \<times> message option" where
  "serviceForStart now config wl service =
     (case service of
        None \<Rightarrow> (new_service now config wl, None)
      | Some s0 \<Rightarrow>
          (let s = s0\<lparr>sd_config := config, sd_workload := or_opt (sd_workload s0) wl\<rparr> in
           if sd_state s \<in> {StateInitial, StateStarting, StateRunning}
           then (s, Some (''Service %q already started.'', [svc_name config]))
           else if sd_state s \<in> {StateBackoff, StateStopped, StateExited}
           then (transition StateInitial (s\<lparr>sd_backoffNum := 0, sd_backoffTime := 0\<rparr>), None)
           else (s, None)))"

definition serviceForStop :: "string \<Rightarrow> service_world \<Rightarrow> service_world \<times> message option" where
  "serviceForStop name s =
     (if sd_state s \<in> {StateTerminating, StateKilling} then (s, Some (''Service %q already stopping.'', [name]))
      else if sd_state s = StateStopped then (s, Some (''Service %q already stopped.'', [name]))
      else if sd_state s = StateExited
      then (transition StateStopped s, Some (''Service %q had already exited.'', [name]))
      else (s, None))"

text \<open>
  What a task comes to: it ends with a message for its log or an error, or waits in its \<open>select\<close>.
\<close>

datatype task_result = TaskLogs message | TaskFails err | TaskDone | TaskWaits

text \<open>\<open>doStart\<close> and \<open>doStop\<close> up to their \<open>select\<close>, and the branches of the \<open>select\<close>.\<close>

definition start_service ::
    "svc_env \<Rightarrow> string + nat \<Rightarrow> time \<Rightarrow> service \<Rightarrow> workload option \<Rightarrow> service_world option \<Rightarrow>
     svc_fault + task_result \<times> service_world" where
  "start_service env out now config wl service =
     (case serviceForStart now config wl service of
        (s, Some msg) \<Rightarrow> Inr (TaskLogs msg, s)
      | (s, None) \<Rightarrow>
          and_then (start env out s) (\<lambda>(e, s1).
            case e of
              Some err \<Rightarrow> Inr (TaskFails err, s1)
            | None \<Rightarrow> Inr (TaskWaits, s1\<lparr>sd_starting := sd_starting s1 + 1\<rparr>)))"

definition start_result :: "service_world \<Rightarrow> (task_result \<times> service_world) option" where
  "start_result s =
     (case sd_started s of
        [] \<Rightarrow> None
      | e # es \<Rightarrow>
          if sd_starting s = 0 then None
          else Some (case e of None \<Rightarrow> TaskDone | Some (f, args) \<Rightarrow> TaskFails (''service start attempt: '' @ f, args),
                     s\<lparr>sd_started := es, sd_starting := sd_starting s - 1\<rparr>))"

definition start_aborted :: "service_world \<Rightarrow> (svc_fault + task_result \<times> service_world) option" where
  "start_aborted s =
     (if sd_starting s = 0 then None
      else Some (and_then (kill_group ''SIGKILL'' (transition StateStopped s)) (\<lambda>s1.
        Inr (TaskFails (''start aborted, sent SIGKILL to process'', []),
             s1\<lparr>sd_starting := sd_starting s1 - 1\<rparr>))))"

definition stop_service :: "string \<Rightarrow> service_world \<Rightarrow> svc_fault + task_result \<times> service_world" where
  "stop_service name s =
     (case serviceForStop name s of
        (s1, Some msg) \<Rightarrow> Inr (TaskLogs msg, s1)
      | (s1, None) \<Rightarrow>
          and_then (stop s1) (\<lambda>(e, s2).
            case e of
              Some err \<Rightarrow> Inr (TaskFails err, s2)
            | None \<Rightarrow> Inr (TaskWaits, s2\<lparr>sd_stopping := sd_stopping s2 + 1\<rparr>)))"

definition stop_result :: "service_world \<Rightarrow> (task_result \<times> service_world) option" where
  "stop_result s =
     (case sd_stopped s of
        [] \<Rightarrow> None
      | e # es \<Rightarrow>
          if sd_stopping s = 0 then None
          else Some (case e of None \<Rightarrow> TaskDone | Some (f, args) \<Rightarrow> TaskFails (''cannot stop service: '' @ f, args),
                     s\<lparr>sd_stopped := es, sd_stopping := sd_stopping s - 1\<rparr>))"

subsection \<open>What can happen to a service\<close>

text \<open>
  The outcome of starting a process and the jitter of the backoff come with the event they are used in.
  \<open>Reconfigure\<close> is \<open>Replan\<close> taking over a changed configuration.
\<close>

datatype svc_event =
    Tick duration
  | StartTask service "workload option" "string + nat"
  | StartResult
  | StartAborted
  | StopTask
  | StopResult
  | Fires time timer "string + nat"
  | Exits nat int duration
  | CheckFails string duration
  | Reconfigure service "workload option"

definition fresh_pid :: "string + nat \<Rightarrow> service_world \<Rightarrow> bool" where
  "fresh_pid out s \<longleftrightarrow> (case out of Inl _ \<Rightarrow> True | Inr pid \<Rightarrow> pid \<notin> set (sd_procs s))"

definition fire :: "svc_env \<Rightarrow> timer \<Rightarrow> string + nat \<Rightarrow> service_world \<Rightarrow> svc_result" where
  "fire env t out s =
     (case t of
        OkayWait \<Rightarrow> okayWaitElapsed s
      | TerminateWait \<Rightarrow> terminateTimeElapsed s
      | KillWait \<Rightarrow> killTimeElapsed s
      | BackoffWait \<Rightarrow> backoffTimeElapsed env out s
      | ResetWait pid \<Rightarrow> backoffResetElapsed s)"

text \<open>The errors of timers and exits are logged, those of tasks are the result of the task.\<close>

definition logged :: "svc_result \<Rightarrow> svc_fault + service_world" where
  "logged r = and_then r (\<lambda>(e, s). Inr s)"

definition svc_step ::
    "svc_env \<Rightarrow> (duration \<Rightarrow> rat \<Rightarrow> duration) \<Rightarrow> svc_event \<Rightarrow> service_world \<Rightarrow> (svc_fault + service_world) option" where
  "svc_step env scale e s =
     (case e of
        Tick d \<Rightarrow> if 0 \<le> d then Some (Inr (s\<lparr>sd_now := sd_now s + d\<rparr>)) else None
      | StartTask config wl out \<Rightarrow>
          if fresh_pid out s
          then Some (and_then (start_service env out (sd_now s) config wl (Some s)) (\<lambda>(r, s1). Inr s1)) else None
      | StartResult \<Rightarrow> map_option (\<lambda>(r, s1). Inr s1) (start_result s)
      | StartAborted \<Rightarrow> map_option (\<lambda>r. and_then r (\<lambda>(r, s1). Inr s1)) (start_aborted s)
      | StopTask \<Rightarrow> Some (and_then (stop_service (svc_name (sd_config s)) s) (\<lambda>(r, s1). Inr s1))
      | StopResult \<Rightarrow> map_option (\<lambda>(r, s1). Inr s1) (stop_result s)
      | Fires due t out \<Rightarrow>
          if (due, t) \<in> set (sd_timers s) \<and> due \<le> sd_now s \<and> fresh_pid out s
          then Some (logged (fire env t out (s\<lparr>sd_timers := remove1 (due, t) (sd_timers s)\<rparr>))) else None
      | Exits pid code jitter \<Rightarrow>
          if pid \<in> set (sd_procs s) \<and> 0 \<le> jitter
          then Some (logged (exited scale code jitter (s\<lparr>sd_procs := remove1 pid (sd_procs s)\<rparr>))) else None
      | CheckFails action jitter \<Rightarrow> if 0 \<le> jitter then Some (checkFailed scale jitter action s) else None
      | Reconfigure config wl \<Rightarrow>
          Some (Inr (s\<lparr>sd_config := config, sd_workload := or_opt (sd_workload s) wl\<rparr>)))"

text \<open>A run: events one after another; a fault, or an event that cannot happen, ends it.\<close>

fun svc_run ::
    "svc_env \<Rightarrow> (duration \<Rightarrow> rat \<Rightarrow> duration) \<Rightarrow> svc_event list \<Rightarrow> service_world \<Rightarrow> service_world option" where
  "svc_run env scale [] s = Some s"
| "svc_run env scale (e # es) s =
     (case svc_step env scale e s of Some (Inr s1) \<Rightarrow> svc_run env scale es s1 | _ \<Rightarrow> None)"

definition valid_actions :: "service \<Rightarrow> bool" where
  "valid_actions c \<longleftrightarrow> validServiceAction (svc_on_success c) [''failure-shutdown''] \<and>
     validServiceAction (svc_on_failure c) [''success-shutdown'']"

definition configured :: "svc_event \<Rightarrow> bool" where
  "configured e \<longleftrightarrow>
     (case e of StartTask c wl out \<Rightarrow> valid_actions c | Reconfigure c wl \<Rightarrow> valid_actions c | _ \<Rightarrow> True)"

inductive reached ::
    "svc_env \<Rightarrow> (duration \<Rightarrow> rat \<Rightarrow> duration) \<Rightarrow> (svc_event \<Rightarrow> bool) \<Rightarrow> service_world \<Rightarrow> bool"
  for env :: svc_env and scale :: "duration \<Rightarrow> rat \<Rightarrow> duration" and allowed :: "svc_event \<Rightarrow> bool" where
  created: "start_service env out now config wl None = Inr (r, s) \<Longrightarrow> valid_actions config \<Longrightarrow>
    reached env scale allowed s"
| step: "reached env scale allowed s \<Longrightarrow> configured e \<Longrightarrow> allowed e \<Longrightarrow>
    svc_step env scale e s = Some (Inr s') \<Longrightarrow> reached env scale allowed s'"

subsection \<open>Timers\<close>

definition pending :: "timer \<Rightarrow> (time \<times> timer) list \<Rightarrow> bool" where
  "pending t ts \<longleftrightarrow> t \<in> snd ` set ts"

lemma pending_simps [simp]:
  "\<not> pending t []" "pending t (ts @ us) \<longleftrightarrow> pending t ts \<or> pending t us"
  "pending t [(d, t')] \<longleftrightarrow> t = t'"
  by (auto simp: pending_def)

lemma pending_remove1 [simp]: "t \<noteq> t' \<Longrightarrow> pending t (remove1 (d, t') ts) \<longleftrightarrow> pending t ts"
proof -
  assume "t \<noteq> t'"
  then have "t \<in> snd ` set (remove1 (d, t') ts) \<longleftrightarrow> t \<in> snd ` set ts"
    by (induction ts) auto
  then show ?thesis by (simp add: pending_def)
qed

lemma pending_filter [simp]:
  "(\<And>p. t \<noteq> ResetWait p) \<Longrightarrow> pending t (filter (\<lambda>(due, t). t \<noteq> ResetWait pid) ts) \<longleftrightarrow> pending t ts"
  by (force simp: pending_def)

subsection \<open>The fields after the small steps\<close>

lemma transitionRestarting_fields [simp]:
  "sd_state (transitionRestarting st r s) = st" "sd_config (transitionRestarting st r s) = sd_config s"
  "sd_restarting (transitionRestarting st r s) = r" "sd_cmd (transitionRestarting st r s) = sd_cmd s"
  "sd_procs (transitionRestarting st r s) = sd_procs s"
  "sd_timers (transitionRestarting st r s) = sd_timers s"
  "sd_stopped (transitionRestarting st r s) = sd_stopped s"
  "sd_stopping (transitionRestarting st r s) = sd_stopping s"
  "sd_started (transitionRestarting st r s) = sd_started s"
  "sd_starting (transitionRestarting st r s) = sd_starting s"
  "sd_now (transitionRestarting st r s) = sd_now s"
  "sd_resetTimer (transitionRestarting st r s) = sd_resetTimer s"
  "sd_backoffTime (transitionRestarting st r s) = sd_backoffTime s"
  by (simp_all add: transitionRestarting_def)

lemma transition_fields [simp]:
  "sd_state (transition st s) = st" "sd_config (transition st s) = sd_config s"
  "sd_restarting (transition st s) = False" "sd_cmd (transition st s) = sd_cmd s"
  "sd_procs (transition st s) = sd_procs s" "sd_timers (transition st s) = sd_timers s"
  "sd_stopped (transition st s) = sd_stopped s" "sd_stopping (transition st s) = sd_stopping s"
  "sd_started (transition st s) = sd_started s" "sd_starting (transition st s) = sd_starting s"
  "sd_now (transition st s) = sd_now s" "sd_resetTimer (transition st s) = sd_resetTimer s"
  "sd_backoffTime (transition st s) = sd_backoffTime s"
  by (simp_all add: transition_def)

lemma AfterFunc_fields [simp]:
  "sd_state (AfterFunc d t s) = sd_state s" "sd_config (AfterFunc d t s) = sd_config s"
  "sd_restarting (AfterFunc d t s) = sd_restarting s" "sd_cmd (AfterFunc d t s) = sd_cmd s"
  "sd_procs (AfterFunc d t s) = sd_procs s" "sd_timers (AfterFunc d t s) = sd_timers s @ [(sd_now s + d, t)]"
  "sd_stopped (AfterFunc d t s) = sd_stopped s" "sd_stopping (AfterFunc d t s) = sd_stopping s"
  "sd_started (AfterFunc d t s) = sd_started s" "sd_starting (AfterFunc d t s) = sd_starting s"
  "sd_now (AfterFunc d t s) = sd_now s" "sd_resetTimer (AfterFunc d t s) = sd_resetTimer s"
  "sd_backoffTime (AfterFunc d t s) = sd_backoffTime s"
  by (simp_all add: AfterFunc_def)

lemma HandleRestart_fields [simp]:
  "sd_state (HandleRestart r s) = sd_state s" "sd_config (HandleRestart r s) = sd_config s"
  "sd_restarting (HandleRestart r s) = sd_restarting s" "sd_cmd (HandleRestart r s) = sd_cmd s"
  "sd_procs (HandleRestart r s) = sd_procs s" "sd_timers (HandleRestart r s) = sd_timers s"
  "sd_stopped (HandleRestart r s) = sd_stopped s" "sd_stopping (HandleRestart r s) = sd_stopping s"
  "sd_started (HandleRestart r s) = sd_started s" "sd_starting (HandleRestart r s) = sd_starting s"
  "sd_now (HandleRestart r s) = sd_now s" "sd_resetTimer (HandleRestart r s) = sd_resetTimer s"
  "sd_backoffTime (HandleRestart r s) = sd_backoffTime s"
  by (simp_all add: HandleRestart_def)

lemma doBackoff_fields [simp]:
  "sd_state (doBackoff scale jitter s) = StateBackoff" "sd_config (doBackoff scale jitter s) = sd_config s"
  "sd_restarting (doBackoff scale jitter s) = False" "sd_cmd (doBackoff scale jitter s) = sd_cmd s"
  "sd_procs (doBackoff scale jitter s) = sd_procs s"
  "sd_timers (doBackoff scale jitter s) = sd_timers s @ [(sd_now s + (calculateNextBackoff scale (sd_config s) (sd_backoffTime s) + jitter), BackoffWait)]"
  "sd_stopped (doBackoff scale jitter s) = sd_stopped s"
  "sd_stopping (doBackoff scale jitter s) = sd_stopping s"
  "sd_started (doBackoff scale jitter s) = sd_started s"
  "sd_starting (doBackoff scale jitter s) = sd_starting s" "sd_now (doBackoff scale jitter s) = sd_now s"
  "sd_resetTimer (doBackoff scale jitter s) = sd_resetTimer s"
  "sd_backoffTime (doBackoff scale jitter s) = calculateNextBackoff scale (sd_config s) (sd_backoffTime s)"
  by (simp_all add: doBackoff_def Let_def)

subsection \<open>The invariant of every run\<close>

definition active :: "service_state \<Rightarrow> bool" where
  "active st \<longleftrightarrow> st \<in> {StateStarting, StateRunning, StateTerminating, StateKilling}"

lemma active_simps [simp]:
  "active StateStarting" "active StateRunning" "active StateTerminating" "active StateKilling"
  "\<not> active StateInitial" "\<not> active StateStopped" "\<not> active StateBackoff" "\<not> active StateExited"
  by (simp_all add: active_def)

definition stop_due :: "service_world \<Rightarrow> nat" where
  "stop_due s = (if sd_state s \<in> {StateTerminating, StateKilling} \<and> \<not> sd_restarting s then 1 else 0)"

definition svc_inv :: "service_world \<Rightarrow> bool" where
  "svc_inv s \<longleftrightarrow>
     sd_state s \<noteq> StateInitial \<and> valid_actions (sd_config s) \<and>
     (sd_restarting s \<longrightarrow> sd_state s \<in> {StateTerminating, StateKilling}) \<and>
     (active (sd_state s) \<longrightarrow> sd_cmd s \<noteq> None \<and> sd_procs s \<noteq> []) \<and>
     (sd_state s = StateStarting \<longrightarrow> pending OkayWait (sd_timers s)) \<and>
     (sd_state s = StateTerminating \<longrightarrow> pending TerminateWait (sd_timers s)) \<and>
     (sd_state s = StateKilling \<longrightarrow> pending KillWait (sd_timers s)) \<and>
     length (sd_stopped s) + stop_due s \<le> sd_stopping s"

lemmas send_defs = send_started_def send_stopped_def kill_group_def
lemmas timer_defs = okayWaitElapsed_def terminateTimeElapsed_def killTimeElapsed_def backoffResetElapsed_def
  backoffTimeElapsed_def

text \<open>The single operations.\<close>

lemma startInternal_result:
  assumes "startInternal env out s = Inr (e, s')"
  shows "(e = None \<longrightarrow> (\<exists>pid. out = Inr pid \<and> s' = s\<lparr>sd_cmd := Some pid, sd_procs := sd_procs s @ [pid],
             sd_resetTimer := Some pid, sd_startCount := sd_startCount s + 1,
             sd_timers := sd_timers s @ [(sd_now s + od_value (svc_backoff_limit (sd_config s)), ResetWait pid)]\<rparr>)) \<and>
         (e \<noteq> None \<longrightarrow> s' = s \<or> s' = s\<lparr>sd_cmd := None\<rparr>)"
  using assms
  by (auto simp: startInternal_def AfterFunc_def Let_def split: sum.split_asm if_split_asm prod.split_asm)

lemma getAction_valid:
  assumes "valid_actions c"
  shows "fst (getAction c ok) \<in> {''ignore'', ''shutdown'', ''success-shutdown'', ''failure-shutdown'', ''restart''}"
  using assms by (auto simp: getAction_def valid_actions_def validServiceAction_def)

lemma unexpected_exit_result:
  assumes "valid_actions (sd_config s)" "unexpected_exit scale code jitter s = Inr (e, s')"
  shows "e = None" "sd_state s' \<in> {StateStopped, StateExited, StateBackoff}" "\<not> sd_restarting s'"
    "sd_state s' = StateBackoff \<longrightarrow> pending BackoffWait (sd_timers s')"
    "sd_stopped s' = sd_stopped s" "sd_stopping s' = sd_stopping s" "sd_config s' = sd_config s"
    "sd_started s' = sd_started s" "sd_starting s' = sd_starting s" "sd_procs s' = sd_procs s"
  using assms(2) getAction_valid [OF assms(1), of "code = 0"]
  by (auto simp: unexpected_exit_def Let_def split: prod.split_asm if_split_asm)

text \<open>The sends and signals that succeed, as equations.\<close>

lemma send_started_Inr [simp]:
  "send_started e s = Inr s' \<longleftrightarrow> sd_started s = [] \<and> s' = s\<lparr>sd_started := [e]\<rparr>"
  by (auto simp: send_started_def)

lemma send_stopped_Inr [simp]:
  "send_stopped e s = Inr s' \<longleftrightarrow> length (sd_stopped s) < 2 \<and> s' = s\<lparr>sd_stopped := sd_stopped s @ [e]\<rparr>"
  by (auto simp: send_stopped_def)

lemma kill_group_Inr [simp]:
  "kill_group sig s = Inr s' \<longleftrightarrow>
     (\<exists>pid. sd_cmd s = Some pid \<and> s' = s\<lparr>sd_signals := sd_signals s @ [(- int pid, sig)]\<rparr>)"
  by (auto simp: kill_group_def split: option.split)

lemma start_inv:
  assumes "start env out s = Inr (e, s')" "sd_state s \<noteq> StateInitial \<longrightarrow> svc_inv s"
    "valid_actions (sd_config s)" "length (sd_stopped s) + stop_due s \<le> sd_stopping s"
  shows "svc_inv s'"
proof (cases "sd_state s = StateInitial")
  case True
  with assms(1) obtain s1 where i: "startInternal env out s = Inr (e, s1)"
    and s': "s' = (case e of Some err \<Rightarrow> transition StateStopped s1
      | None \<Rightarrow> AfterFunc okayDelay OkayWait (transition StateStarting s1))"
    by (cases "startInternal env out s") (auto simp: start_def split: option.split_asm)
  have l: "length (sd_stopped s) \<le> sd_stopping s" using assms(4) by simp
  show ?thesis
  proof (cases e)
    case None
    with startInternal_result [OF i] assms(3) l show ?thesis
      by (auto simp: s' svc_inv_def stop_due_def)
  next
    case (Some err)
    with startInternal_result [OF i] have "s1 = s \<or> s1 = s\<lparr>sd_cmd := None\<rparr>" by simp
    with Some assms(3) l show ?thesis by (auto simp: s' svc_inv_def stop_due_def)
  qed
next
  case False
  with assms(1,2) show ?thesis by (simp add: start_def)
qed

lemma stop_running_inv:
  assumes "stop_running s = Inr (e, s')" "svc_inv s" "sd_state s \<in> {StateStarting, StateRunning}"
  shows "e = None" "svc_inv (s'\<lparr>sd_stopping := sd_stopping s' + 1\<rparr>)"
proof -
  from assms(1) obtain pid where e: "e = None" and s': "s' = AfterFunc (killDelay (sd_config s)) TerminateWait
      (transition StateTerminating (s\<lparr>sd_signals := sd_signals s @ [(- int pid, ''SIGTERM'')]\<rparr>))"
    by (auto simp: stop_running_def and_then_Inr_iff)
  show "e = None" by (rule e)
  show "svc_inv (s'\<lparr>sd_stopping := sd_stopping s' + 1\<rparr>)"
    using assms(2,3) unfolding s' svc_inv_def stop_due_def by auto
qed

lemma stop_inv:
  assumes "stop s = Inr (e, s')" "svc_inv s"
  shows "svc_inv (if e = None then s'\<lparr>sd_stopping := sd_stopping s' + 1\<rparr> else s')"
proof (cases "sd_state s")
  case StateStarting
  with assms(1) have "stop_running (s\<lparr>sd_started := [Some (''stopped before the %s okay delay'', [''1s''])]\<rparr>) = Inr (e, s')"
    by (auto simp: stop_def and_then_Inr_iff)
  moreover have "svc_inv (s\<lparr>sd_started := x\<rparr>)" for x using assms(2) by (simp add: svc_inv_def stop_due_def)
  ultimately show ?thesis using stop_running_inv StateStarting by simp
next
  case StateRunning
  with assms(1) have "stop_running s = Inr (e, s')" by (simp add: stop_def)
  from stop_running_inv [OF this assms(2)] StateRunning show ?thesis by simp
next
  case StateBackoff
  with assms show ?thesis
    by (auto simp: stop_def and_then_Inr_iff svc_inv_def stop_due_def)
qed (use assms in \<open>auto simp: stop_def\<close>)

lemma exited_inv:
  assumes "exited scale code jitter (s\<lparr>sd_procs := ps\<rparr>) = Inr (e, s')" "svc_inv s"
  shows "svc_inv s'"
proof -
  define t where "t = stop_reset_timer (s\<lparr>sd_procs := ps\<rparr>)"
  have t: "sd_state t = sd_state s" "sd_config t = sd_config s" "sd_stopped t = sd_stopped s"
    "sd_stopping t = sd_stopping s" "sd_restarting t = sd_restarting s"
    by (simp_all add: t_def stop_reset_timer_def split: option.split)
  have v: "valid_actions (sd_config s)" and r: "sd_restarting s \<longrightarrow> sd_state s \<in> {StateTerminating, StateKilling}"
    and l: "length (sd_stopped s) + stop_due s \<le> sd_stopping s" and i: "sd_state s \<noteq> StateInitial"
    using assms(2) by (simp_all add: svc_inv_def)
  have unexpected: "svc_inv s'" if "unexpected_exit scale code jitter u = Inr (e, s')"
    "sd_config u = sd_config s" "sd_stopped u = sd_stopped s" "sd_stopping u = sd_stopping s" for u
    using unexpected_exit_result [OF _ that(1)] that(2-4) v l
    by (auto simp: svc_inv_def stop_due_def)
  have settled: "svc_inv u" if "sd_state u \<in> {StateStopped, StateBackoff, StateExited}" "sd_config u = sd_config s"
    "\<not> sd_restarting u" "length (sd_stopped u) \<le> sd_stopping u" for u
    using that v by (auto simp: svc_inv_def stop_due_def)
  have ending: "svc_inv s'" if st: "sd_state s \<in> {StateTerminating, StateKilling}"
    and x: "(if sd_restarting t then Inr (None, doBackoff scale jitter t)
       else and_then (send_stopped None t) (\<lambda>s1. Inr (None, transition StateStopped s1))) = Inr (e, s')"
    using x st t l by (intro settled) (auto simp: and_then_Inr_iff stop_due_def split: if_split_asm)
  note x = assms(1) [unfolded exited_def Let_def, folded t_def]
  show ?thesis
  proof (cases "sd_state s")
    case StateStarting
    with x t show ?thesis by (auto simp: and_then_Inr_iff intro: unexpected)
  next
    case StateRunning
    with x t show ?thesis by (auto intro: unexpected)
  next
    case StateTerminating
    with x t show ?thesis by (auto intro: ending)
  next
    case StateKilling
    with x t show ?thesis by (auto intro: ending)
  qed (use x t i l r in \<open>auto intro!: settled simp: stop_due_def\<close>)
qed

lemma serviceForStart_inv:
  assumes "serviceForStart now config wl (Some s) = (s', m)" "svc_inv s" "valid_actions config"
  shows "sd_state s' \<noteq> StateInitial \<longrightarrow> svc_inv s'" "valid_actions (sd_config s')"
    "length (sd_stopped s') + stop_due s' \<le> sd_stopping s'" "m \<noteq> None \<longrightarrow> sd_state s' \<noteq> StateInitial"
proof -
  let ?s = "s\<lparr>sd_config := config, sd_workload := or_opt (sd_workload s) wl\<rparr>"
  have i: "svc_inv ?s" using assms(2,3) by (simp add: svc_inv_def stop_due_def)
  then have l: "length (sd_stopped s) \<le> sd_stopping s" by (simp add: svc_inv_def)
  from assms(1) consider "s' = ?s" | "s' = transition StateInitial (?s\<lparr>sd_backoffNum := 0, sd_backoffTime := 0\<rparr>)" "m = None"
    by (auto simp: serviceForStart_def Let_def split: if_split_asm)
  then have "(sd_state s' \<noteq> StateInitial \<longrightarrow> svc_inv s') \<and> valid_actions (sd_config s') \<and>
    length (sd_stopped s') + stop_due s' \<le> sd_stopping s' \<and> (m \<noteq> None \<longrightarrow> sd_state s' \<noteq> StateInitial)"
  proof cases
    case 1
    from i show ?thesis unfolding 1 svc_inv_def by blast
  next
    case 2
    from l assms(3) show ?thesis unfolding 2 by (simp add: stop_due_def)
  qed
  then show "sd_state s' \<noteq> StateInitial \<longrightarrow> svc_inv s'" "valid_actions (sd_config s')"
    "length (sd_stopped s') + stop_due s' \<le> sd_stopping s'" "m \<noteq> None \<longrightarrow> sd_state s' \<noteq> StateInitial"
    by simp_all
qed

lemma fire_inv:
  assumes "fire env t out (s\<lparr>sd_timers := remove1 (due, t) (sd_timers s)\<rparr>) = Inr (e, s')" "svc_inv s"
  shows "svc_inv s'"
proof -
  let ?s = "s\<lparr>sd_timers := remove1 (due, t) (sd_timers s)\<rparr>"
  show ?thesis
  proof (cases t)
    case OkayWait
    show ?thesis
    proof (cases "sd_state s = StateStarting")
      case True
      with assms(1) OkayWait have "s' = transition StateRunning (?s\<lparr>sd_started := [None]\<rparr>)"
        by (auto simp: fire_def okayWaitElapsed_def and_then_Inr_iff)
      with True assms(2) show ?thesis by (simp add: svc_inv_def stop_due_def)
    next
      case False
      with assms(1) OkayWait have "s' = ?s" by (simp add: fire_def okayWaitElapsed_def)
      with False OkayWait assms(2) show ?thesis by (simp add: svc_inv_def stop_due_def)
    qed
  next
    case TerminateWait
    show ?thesis
    proof (cases "sd_state s = StateTerminating")
      case True
      with assms(1) TerminateWait obtain sig where
        "s' = AfterFunc failDelay KillWait (transitionRestarting StateKilling (sd_restarting s) (?s\<lparr>sd_signals := sig\<rparr>))"
        by (auto simp: fire_def terminateTimeElapsed_def and_then_Inr_iff)
      with True assms(2) show ?thesis by (simp add: svc_inv_def stop_due_def)
    next
      case False
      with assms(1) TerminateWait have "s' = ?s" by (simp add: fire_def terminateTimeElapsed_def)
      with False TerminateWait assms(2) show ?thesis by (simp add: svc_inv_def stop_due_def)
    qed
  next
    case KillWait
    show ?thesis
    proof (cases "sd_state s = StateKilling")
      case True
      with assms(1) KillWait have "\<exists>x. s' = transition StateStopped x \<and> sd_config x = sd_config s \<and>
          sd_stopping x = sd_stopping s \<and> length (sd_stopped x) = length (sd_stopped s) + (if sd_restarting s then 0 else 1)"
        by (auto simp: fire_def killTimeElapsed_def and_then_Inr_iff split: if_split_asm)
      with True assms(2) show ?thesis by (auto simp: svc_inv_def stop_due_def split: if_split_asm)
    next
      case False
      with assms(1) KillWait have "s' = ?s" by (simp add: fire_def killTimeElapsed_def)
      with False KillWait assms(2) show ?thesis by (simp add: svc_inv_def stop_due_def)
    qed
  next
    case (ResetWait pid)
    have i: "svc_inv ?s" "svc_inv (?s\<lparr>sd_backoffNum := 0, sd_backoffTime := 0\<rparr>)"
      using assms(2) ResetWait by (simp_all add: svc_inv_def stop_due_def)
    have "s' = (if sd_state s = StateRunning then ?s\<lparr>sd_backoffNum := 0, sd_backoffTime := 0\<rparr> else ?s)"
      using assms(1) ResetWait by (simp add: fire_def backoffResetElapsed_def split: if_split_asm)
    then show ?thesis using i by (cases "sd_state s = StateRunning") simp_all
  next
    case BackoffWait
    show ?thesis
    proof (cases "sd_state s = StateBackoff")
      case True
      with assms(1) BackoffWait obtain s1 where i: "startInternal env out ?s = Inr (e, s1)"
        and s': "s' = (case e of Some err \<Rightarrow> s1 | None \<Rightarrow> transition StateRunning s1)"
        by (cases "startInternal env out ?s")
           (auto simp: fire_def backoffTimeElapsed_def split: option.split_asm)
      show ?thesis
      proof (cases e)
        case None
        with startInternal_result [OF i] assms(2) True show ?thesis
          by (auto simp: s' svc_inv_def stop_due_def)
      next
        case (Some err)
        with startInternal_result [OF i] have "s1 = ?s \<or> s1 = ?s\<lparr>sd_cmd := None\<rparr>" by simp
        with Some assms(2) True show ?thesis by (auto simp: s' svc_inv_def stop_due_def)
      qed
    next
      case False
      with assms(1) BackoffWait have "s' = ?s" by (simp add: fire_def backoffTimeElapsed_def)
      with assms(2) BackoffWait show ?thesis by (simp add: svc_inv_def stop_due_def)
    qed
  qed
qed

text \<open>What a failed check comes to.\<close>

lemma checkFailed_cases:
  assumes "checkFailed scale jitter action s = Inr s'"
  obtains "s' = s"
  | r where "s' = HandleRestart r s"
  | sig where "sd_state s = StateRunning" "s' = AfterFunc (killDelay (sd_config s)) TerminateWait
      (transitionRestarting StateTerminating True (s\<lparr>sd_signals := sig\<rparr>))"
  | "sd_state s = StateExited" "s' = doBackoff scale jitter s"
proof (cases "sd_state s \<in> {StateRunning, StateBackoff, StateExited} \<and> action = ''restart''")
  case True
  then have a: "action = ''restart''" by simp
  from True consider "sd_state s = StateRunning" | "sd_state s = StateBackoff" | "sd_state s = StateExited" by blast
  then show thesis
  proof cases
    case 1
    with assms a obtain pid where "s' = AfterFunc (killDelay (sd_config s)) TerminateWait
      (transitionRestarting StateTerminating True (s\<lparr>sd_signals := sd_signals s @ [(- int pid, ''SIGTERM'')]\<rparr>))"
      by (auto simp: checkFailed_def and_then_Inr_iff)
    with 1 show thesis by (rule that(3))
  next
    case 2
    with assms a show thesis by (intro that(1)) (simp add: checkFailed_def)
  next
    case 3
    with assms a show thesis by (intro that(4)) (simp_all add: checkFailed_def)
  qed
next
  case False
  with assms have "s' = s \<or> s' = HandleRestart RestartCheckFailure s \<or> s' = HandleRestart RestartDaemon s"
    unfolding checkFailed_def by (simp split: if_split_asm)
  then show thesis using that(1,2) by blast
qed

lemma checkFailed_inv:
  assumes "checkFailed scale jitter action s = Inr s'" "svc_inv s"
  shows "svc_inv s'"
  using assms(1)
proof (cases rule: checkFailed_cases)
  case (3 sig)
  with assms(2) show ?thesis by (simp add: svc_inv_def stop_due_def)
next
  case 4
  with assms(2) show ?thesis by (simp add: svc_inv_def stop_due_def)
qed (use assms(2) in \<open>simp_all add: svc_inv_def stop_due_def\<close>)

text \<open>The invariant is kept by everything that can happen.\<close>

lemma svc_step_inv:
  assumes "svc_step env scale e s = Some (Inr s')" "svc_inv s" "configured e"
  shows "svc_inv s'"
proof (cases e)
  case (StartTask config wl out)
  obtain s1 m where f: "serviceForStart (sd_now s) config wl (Some s) = (s1, m)" by fastforce
  have c: "valid_actions config" using assms(3) StartTask by (simp add: configured_def)
  note i = serviceForStart_inv [OF f assms(2) c]
  show ?thesis
  proof (cases m)
    case None
    with assms(1) StartTask f obtain err s2 where st: "start env out s1 = Inr (err, s2)"
      and s': "s' = (if err = None then s2\<lparr>sd_starting := sd_starting s2 + 1\<rparr> else s2)"
      by (cases "start env out s1")
         (auto simp: svc_step_def start_service_def split: if_split_asm option.split_asm)
    have "svc_inv s2" by (rule start_inv [OF st i(1-3)])
    then show ?thesis by (simp add: s' svc_inv_def stop_due_def)
  next
    case (Some msg)
    with assms(1) StartTask f i show ?thesis
      by (auto simp: svc_step_def start_service_def split: if_split_asm)
  qed
next
  case StopTask
  let ?f = "serviceForStop (svc_name (sd_config s)) s"
  obtain s1 m where f: "?f = (s1, m)" by fastforce
  then have i: "svc_inv s1" using assms(2)
    by (auto simp: serviceForStop_def svc_inv_def stop_due_def split: if_split_asm)
  show ?thesis
  proof (cases m)
    case None
    with assms(1) StopTask f obtain err s2 where st: "stop s1 = Inr (err, s2)"
      and s': "s' = (if err = None then s2\<lparr>sd_stopping := sd_stopping s2 + 1\<rparr> else s2)"
      by (cases "stop s1") (auto simp: svc_step_def stop_service_def split: option.split_asm)
    show ?thesis unfolding s' by (rule stop_inv [OF st i])
  next
    case (Some msg)
    with assms(1) StopTask f i show ?thesis by (auto simp: svc_step_def stop_service_def)
  qed
next
  case (Exits pid code jitter)
  with assms(1) obtain err where "exited scale code jitter (s\<lparr>sd_procs := remove1 pid (sd_procs s)\<rparr>) = Inr (err, s')"
    by (auto simp: svc_step_def logged_def and_then_Inr_iff split: if_split_asm)
  then show ?thesis using assms(2) by (rule exited_inv)
next
  case (Fires due t out)
  with assms(1) obtain err where
    "fire env t out (s\<lparr>sd_timers := remove1 (due, t) (sd_timers s)\<rparr>) = Inr (err, s')"
    by (auto simp: svc_step_def logged_def and_then_Inr_iff split: if_split_asm)
  then show ?thesis using assms(2) by (rule fire_inv)
next
  case (CheckFails action jitter)
  with assms(1) have "checkFailed scale jitter action s = Inr s'"
    by (auto simp: svc_step_def split: if_split_asm)
  then show ?thesis using assms(2) by (rule checkFailed_inv)
next
  case (Tick d)
  with assms(1) have "s' = s\<lparr>sd_now := sd_now s + d\<rparr>" by (simp add: svc_step_def split: if_split_asm)
  with assms(2) show ?thesis by (simp add: svc_inv_def stop_due_def)
next
  case StartResult
  with assms(1) obtain x xs where "s' = s\<lparr>sd_started := xs, sd_starting := x\<rparr>"
    by (auto simp: svc_step_def start_result_def split: list.split_asm if_split_asm)
  with assms(2) show ?thesis by (simp add: svc_inv_def stop_due_def)
next
  case StartAborted
  with assms(1) obtain sig x where s': "s' = transition StateStopped s\<lparr>sd_signals := sig, sd_starting := x\<rparr>"
    by (auto simp: svc_step_def start_aborted_def and_then_Inr_iff split: if_split_asm)
  from assms(2) show ?thesis unfolding s' by (simp add: svc_inv_def stop_due_def)
next
  case StopResult
  with assms(1) obtain x where x: "sd_stopped s = x # sd_stopped s'" "sd_stopping s \<noteq> 0"
    and s': "s' = s\<lparr>sd_stopped := sd_stopped s', sd_stopping := sd_stopping s - 1\<rparr>"
    by (auto simp: svc_step_def stop_result_def split: list.split_asm if_split_asm)
  have "stop_due (s\<lparr>sd_stopped := y, sd_stopping := z\<rparr>) = stop_due s" for y z by (simp add: stop_due_def)
  with assms(2) x show ?thesis by (subst s') (auto simp: svc_inv_def)
next
  case (Reconfigure config wl)
  with assms(1,3) have "s' = s\<lparr>sd_config := config, sd_workload := or_opt (sd_workload s) wl\<rparr>" "valid_actions config"
    by (auto simp: svc_step_def configured_def)
  with assms(2) show ?thesis by (simp add: svc_inv_def stop_due_def)
qed

lemma created_service_inv:
  assumes "start_service env out now config wl None = Inr (r, s)" "valid_actions config"
  shows "svc_inv s"
proof -
  let ?n = "new_service now config wl"
  from assms(1) obtain err s2 where st: "start env out ?n = Inr (err, s2)"
    and s: "s = (if err = None then s2\<lparr>sd_starting := sd_starting s2 + 1\<rparr> else s2)"
    by (cases "start env out ?n")
       (auto simp: start_service_def serviceForStart_def split: option.split_asm)
  have "svc_inv s2"
    by (rule start_inv [OF st]) (simp_all add: new_service_def assms(2) stop_due_def)
  then show ?thesis by (simp add: s svc_inv_def stop_due_def)
qed

lemma reached_inv: "reached env scale allowed s \<Longrightarrow> svc_inv s"
  by (induction rule: reached.induct) (auto intro: created_service_inv svc_step_inv)

end
