(* ===== verification/ServiceLife.thy ===== *)
theory ServiceLife
  imports ServiceFsm
begin

text \<open>
  The life of a service as an abstract machine: its state, the processes, and how many answers are in
  the two channels and how many tasks wait for them.  Every step of the detailed machine is a step of
  this one (\<open>svc_step_refines\<close>), and what holds of it by rule induction holds of the code: no task
  waits for an answer that cannot come, at most one process runs, a stopped service stops in time.
\<close>

subsection \<open>The abstract machine\<close>

text \<open>State, restarting, processes, answers and waiting tasks for starts and for stops.\<close>

datatype life = Life service_state bool nat nat nat nat nat

definition life_of :: "service_world \<Rightarrow> life" where
  "life_of s = Life (sd_state s) (sd_restarting s) (length (sd_procs s))
     (length (sd_started s)) (sd_starting s) (length (sd_stopped s)) (sd_stopping s)"

datatype life_label = Quiet | Launch | Answer | Abort | Halt | Escalate | GiveUp | Exit | Relaunch | Check

inductive lifecycle :: "life_label \<Rightarrow> life \<Rightarrow> life \<Rightarrow> bool" where
  quiet: "lifecycle Quiet l l"
| launch: "st \<in> {StateStopped, StateBackoff, StateExited} \<Longrightarrow>
    lifecycle Launch (Life st r p a w b v) (Life StateStarting False (Suc p) a (Suc w) b v)"
| launch_fails: "st \<in> {StateStopped, StateBackoff, StateExited} \<Longrightarrow>
    lifecycle Launch (Life st r p a w b v) (Life StateStopped False p a w b v)"
| okay: "lifecycle Quiet (Life StateStarting r p 0 w b v) (Life StateRunning False p (Suc 0) w b v)"
| answer_start: "lifecycle Answer (Life st r p (Suc a) (Suc w) b v) (Life st r p a w b v)"
| answer_stop: "lifecycle Answer (Life st r p a w (Suc b) (Suc v)) (Life st r p a w b v)"
| abort: "lifecycle Abort (Life st r p a (Suc w) b v) (Life StateStopped False p a w b v)"
| halt_starting: "lifecycle Halt (Life StateStarting r p 0 w b v) (Life StateTerminating False p (Suc 0) w b (Suc v))"
| halt_running: "lifecycle Halt (Life StateRunning r p a w b v) (Life StateTerminating False p a w b (Suc v))"
| halt_backoff: "lifecycle Halt (Life StateBackoff r p a w b v) (Life StateStopped False p a w (Suc b) (Suc v))"
| halt_exited: "lifecycle Halt (Life StateExited r p a w b v) (Life StateStopped False p a w b v)"
| escalate: "lifecycle Escalate (Life StateTerminating r p a w b v) (Life StateKilling r p a w b v)"
| give_up: "lifecycle GiveUp (Life StateKilling r p a w b v)
    (Life StateStopped False p a w (if r then b else Suc b) v)"
| exit_starting: "st \<in> {StateStopped, StateExited, StateBackoff} \<Longrightarrow>
    lifecycle Exit (Life StateStarting r (Suc p) 0 w b v) (Life st False p (Suc 0) w b v)"
| exit_running: "st \<in> {StateStopped, StateExited, StateBackoff} \<Longrightarrow>
    lifecycle Exit (Life StateRunning r (Suc p) a w b v) (Life st False p a w b v)"
| exit_restarting: "st \<in> {StateTerminating, StateKilling} \<Longrightarrow>
    lifecycle Exit (Life st True (Suc p) a w b v) (Life StateBackoff False p a w b v)"
| exit_stopping: "st \<in> {StateTerminating, StateKilling} \<Longrightarrow>
    lifecycle Exit (Life st False (Suc p) a w b v) (Life StateStopped False p a w (Suc b) v)"
| exit_late: "st \<in> {StateStopped, StateBackoff, StateExited} \<Longrightarrow>
    lifecycle Exit (Life st r (Suc p) a w b v) (Life st r p a w b v)"
| relaunch: "lifecycle Relaunch (Life StateBackoff r p a w b v) (Life StateRunning False (Suc p) a w b v)"
| check_running: "lifecycle Check (Life StateRunning r p a w b v) (Life StateTerminating True p a w b v)"
| check_exited: "lifecycle Check (Life StateExited r p a w b v) (Life StateBackoff False p a w b v)"

inductive_cases lifecycleE: "lifecycle lab (Life st r p a w b v) l"

text \<open>The labels an event can have.\<close>

definition event_labels :: "svc_event \<Rightarrow> life_label set" where
  "event_labels e =
     (case e of
        StartTask c wl out \<Rightarrow> {Quiet, Launch}
      | StartResult \<Rightarrow> {Answer}
      | StopResult \<Rightarrow> {Answer}
      | StartAborted \<Rightarrow> {Abort}
      | StopTask \<Rightarrow> {Quiet, Halt}
      | Fires due t out \<Rightarrow>
          (case t of
             OkayWait \<Rightarrow> {Quiet} | TerminateWait \<Rightarrow> {Quiet, Escalate} | KillWait \<Rightarrow> {Quiet, GiveUp}
           | BackoffWait \<Rightarrow> {Quiet, Relaunch} | ResetWait p \<Rightarrow> {Quiet})
      | Exits p c j \<Rightarrow> {Exit}
      | CheckFails a j \<Rightarrow> {Quiet, Check}
      | Tick d \<Rightarrow> {Quiet}
      | Reconfigure c wl \<Rightarrow> {Quiet})"

subsection \<open>The refinement\<close>

lemma start_refines:
  assumes "start_service env out now config wl (Some s) = Inr (r, s')" "svc_inv s"
  shows "life_of s' = life_of s \<or> lifecycle Launch (life_of s) (life_of s')"
proof (cases "sd_state s \<in> {StateBackoff, StateStopped, StateExited}")
  case True
  let ?i = "transition StateInitial (s\<lparr>sd_config := config, sd_workload := or_opt (sd_workload s) wl,
    sd_backoffNum := 0, sd_backoffTime := 0\<rparr>)"
  have "serviceForStart now config wl (Some s) = (?i, None)"
    using True by (auto simp: serviceForStart_def Let_def)
  with assms(1) obtain e s1 where i: "startInternal env out ?i = Inr (e, s1)"
    and s': "life_of s' = (case e of
        Some err \<Rightarrow> life_of (transition StateStopped s1)
      | None \<Rightarrow> life_of (transition StateStarting s1\<lparr>sd_starting := sd_starting s1 + 1\<rparr>))"
    by (cases "startInternal env out ?i")
       (auto simp: start_service_def start_def life_of_def split: option.split_asm)
  show ?thesis
  proof (cases e)
    case None
    with startInternal_result [OF i] obtain pid where s1: "sd_procs s1 = sd_procs s @ [pid]"
      "sd_started s1 = sd_started s" "sd_starting s1 = sd_starting s" "sd_stopped s1 = sd_stopped s"
      "sd_stopping s1 = sd_stopping s" by auto
    have "life_of s' = Life StateStarting False (Suc (length (sd_procs s))) (length (sd_started s))
        (Suc (sd_starting s)) (length (sd_stopped s)) (sd_stopping s)"
      unfolding s' None by (simp add: life_of_def s1)
    then show ?thesis using True unfolding life_of_def [of s] by (auto intro: lifecycle.launch)
  next
    case (Some err)
    with startInternal_result [OF i] have s1: "sd_procs s1 = sd_procs s"
      "sd_started s1 = sd_started s" "sd_starting s1 = sd_starting s" "sd_stopped s1 = sd_stopped s"
      "sd_stopping s1 = sd_stopping s" by auto
    have "life_of s' = Life StateStopped False (length (sd_procs s)) (length (sd_started s))
        (sd_starting s) (length (sd_stopped s)) (sd_stopping s)"
      unfolding s' Some by (simp add: life_of_def s1)
    then show ?thesis using True unfolding life_of_def [of s] by (auto intro: lifecycle.launch_fails)
  qed
next
  case False
  have "sd_state s \<noteq> StateInitial" using assms(2) by (simp add: svc_inv_def)
  with False assms(1) have "life_of s' = life_of s"
    by (cases "sd_state s") (auto simp: start_service_def serviceForStart_def start_def life_of_def Let_def)
  then show ?thesis ..
qed

lemma stop_running_life:
  assumes "stop_running s = Inr (e, s')"
  shows "e = None" "life_of s' = Life StateTerminating False (length (sd_procs s)) (length (sd_started s))
    (sd_starting s) (length (sd_stopped s)) (sd_stopping s)"
  using assms by (auto simp: stop_running_def and_then_Inr_iff life_of_def)

lemma stop_refines:
  assumes "stop_service name s = Inr (r, s')" "svc_inv s"
  shows "life_of s' = life_of s \<or> lifecycle Halt (life_of s) (life_of s')"
proof (cases "sd_state s")
  case StateStarting
  with assms(1) obtain e s2 where s2: "sd_started s = []" "stop_running (s\<lparr>sd_started :=
      [Some (''stopped before the %s okay delay'', [''1s''])]\<rparr>) = Inr (e, s2)"
    and s': "s' = (if e = None then s2\<lparr>sd_stopping := sd_stopping s2 + 1\<rparr> else s2)"
    by (auto simp: stop_service_def serviceForStop_def stop_def and_then_Inr_iff split: option.split_asm)
  have "life_of s' = Life StateTerminating False (length (sd_procs s)) 1 (sd_starting s)
      (length (sd_stopped s)) (Suc (sd_stopping s))"
    using stop_running_life [OF s2(2)] by (simp add: s' life_of_def)
  then show ?thesis using StateStarting s2(1) unfolding life_of_def [of s]
    by (auto intro: lifecycle.halt_starting)
next
  case StateRunning
  with assms(1) obtain e s2 where s2: "stop_running s = Inr (e, s2)"
    and s': "s' = (if e = None then s2\<lparr>sd_stopping := sd_stopping s2 + 1\<rparr> else s2)"
    by (auto simp: stop_service_def serviceForStop_def stop_def and_then_Inr_iff split: option.split_asm)
  have "life_of s' = Life StateTerminating False (length (sd_procs s)) (length (sd_started s)) (sd_starting s)
      (length (sd_stopped s)) (Suc (sd_stopping s))"
    using stop_running_life [OF s2] by (simp add: s' life_of_def)
  then show ?thesis using StateRunning unfolding life_of_def [of s]
    by (auto intro: lifecycle.halt_running)
next
  case StateBackoff
  with assms(1) have "life_of s' = Life StateStopped False (length (sd_procs s)) (length (sd_started s)) (sd_starting s)
      (Suc (length (sd_stopped s))) (Suc (sd_stopping s))"
    by (auto simp: stop_service_def serviceForStop_def stop_def and_then_Inr_iff life_of_def)
  then show ?thesis using StateBackoff unfolding life_of_def [of s]
    by (auto intro: lifecycle.halt_backoff)
next
  case StateExited
  with assms(1) have "life_of s' = Life StateStopped False (length (sd_procs s)) (length (sd_started s)) (sd_starting s)
      (length (sd_stopped s)) (sd_stopping s)"
    by (auto simp: stop_service_def serviceForStop_def life_of_def)
  then show ?thesis using StateExited unfolding life_of_def [of s]
    by (auto intro: lifecycle.halt_exited)
qed (use assms in \<open>auto simp: stop_service_def serviceForStop_def svc_inv_def\<close>)

lemma exited_refines:
  assumes run: "exited scale code jitter (s\<lparr>sd_procs := remove1 pid (sd_procs s)\<rparr>) = Inr (e, s')"
    and inv: "svc_inv s" and pid: "pid \<in> set (sd_procs s)"
  shows "lifecycle Exit (life_of s) (life_of s')"
proof -
  define t where "t = stop_reset_timer (s\<lparr>sd_procs := remove1 pid (sd_procs s)\<rparr>)"
  obtain p where p: "length (sd_procs s) = Suc p" using pid by (cases "sd_procs s") auto
  then have "length (remove1 pid (sd_procs s)) = p" using pid by (simp add: length_remove1)
  then have t: "sd_state t = sd_state s" "sd_config t = sd_config s" "sd_stopped t = sd_stopped s"
    "sd_stopping t = sd_stopping s" "sd_restarting t = sd_restarting s" "sd_started t = sd_started s"
    "sd_starting t = sd_starting s" "length (sd_procs t) = p"
    by (simp_all add: t_def stop_reset_timer_def split: option.split)
  have v: "valid_actions (sd_config s)" using inv by (simp add: svc_inv_def)
  note x = run [unfolded exited_def Let_def, folded t_def]
  have late: "lifecycle Exit (life_of s) (life_of s')" if "sd_state s \<in> {StateStopped, StateBackoff, StateExited}"
  proof -
    from that x t(1) have "s' = t" by auto
    with that t p show ?thesis by (simp add: life_of_def lifecycle.exit_late)
  qed
  have ending: "lifecycle Exit (life_of s) (life_of s')" if st: "sd_state s \<in> {StateTerminating, StateKilling}"
  proof (cases "sd_restarting s")
    case True
    with st x t(1,5) have "s' = doBackoff scale jitter t" by auto
    then have "life_of s' = Life StateBackoff False p (length (sd_started s)) (sd_starting s)
        (length (sd_stopped s)) (sd_stopping s)" by (simp add: life_of_def t)
    with True st p show ?thesis unfolding life_of_def [of s] by (auto intro: lifecycle.exit_restarting)
  next
    case False
    with st x t(1,5) have "s' = transition StateStopped (t\<lparr>sd_stopped := sd_stopped t @ [None]\<rparr>)"
      by (auto simp: and_then_Inr_iff)
    then have "life_of s' = Life StateStopped False p (length (sd_started s)) (sd_starting s)
        (Suc (length (sd_stopped s))) (sd_stopping s)" by (simp add: life_of_def t)
    with False st p show ?thesis unfolding life_of_def [of s] by (auto intro: lifecycle.exit_stopping)
  qed
  have unexpected: "life_of s' = Life (sd_state s') False p (length (sd_started u)) (sd_starting s)
      (length (sd_stopped s)) (sd_stopping s) \<and> sd_state s' \<in> {StateStopped, StateExited, StateBackoff}"
    if "unexpected_exit scale code jitter u = Inr (e, s')" "u = t\<lparr>sd_started := x\<rparr>" for u x
    using unexpected_exit_result [OF _ that(1)] that(2) v t by (simp add: life_of_def)
  show ?thesis
  proof (cases "sd_state s")
    case StateStarting
    with x t obtain m where m: "sd_started s = []" "unexpected_exit scale code jitter (t\<lparr>sd_started := [m]\<rparr>) = Inr (e, s')"
      by (auto simp: and_then_Inr_iff)
    from unexpected [OF m(2) refl] StateStarting p m(1) show ?thesis
      unfolding life_of_def [of s] by (auto intro: lifecycle.exit_starting)
  next
    case StateRunning
    have same: "t\<lparr>sd_started := sd_started t\<rparr> = t" by simp
    from StateRunning x t have m: "unexpected_exit scale code jitter (t\<lparr>sd_started := sd_started t\<rparr>) = Inr (e, s')"
      unfolding same by simp
    from unexpected [OF m refl] StateRunning p t show ?thesis
      unfolding life_of_def [of s] by (auto intro: lifecycle.exit_running)
  qed (use late ending inv in \<open>simp_all add: svc_inv_def\<close>)
qed

lemma fire_refines:
  assumes run: "fire env t out (s\<lparr>sd_timers := ts\<rparr>) = Inr (e, s')" and inv: "svc_inv s"
  shows "\<exists>lab \<in> event_labels (Fires due t out). lifecycle lab (life_of s) (life_of s')"
proof (cases t)
  case OkayWait
  show ?thesis
  proof (cases "sd_state s = StateStarting")
    case True
    with run OkayWait have "sd_started s = [] \<and> life_of s' = Life StateRunning False (length (sd_procs s)) (Suc 0)
        (sd_starting s) (length (sd_stopped s)) (sd_stopping s)"
      by (auto simp: fire_def okayWaitElapsed_def and_then_Inr_iff life_of_def)
    with True OkayWait show ?thesis unfolding life_of_def [of s] event_labels_def
      by (auto intro: lifecycle.okay)
  next
    case False
    with run OkayWait have "life_of s' = life_of s" by (auto simp: fire_def okayWaitElapsed_def life_of_def)
    with OkayWait show ?thesis by (simp add: event_labels_def lifecycle.quiet)
  qed
next
  case TerminateWait
  show ?thesis
  proof (cases "sd_state s = StateTerminating")
    case True
    with run TerminateWait have "life_of s' = Life StateKilling (sd_restarting s) (length (sd_procs s))
        (length (sd_started s)) (sd_starting s) (length (sd_stopped s)) (sd_stopping s)"
      by (auto simp: fire_def terminateTimeElapsed_def and_then_Inr_iff life_of_def)
    with True TerminateWait show ?thesis unfolding life_of_def [of s] event_labels_def
      by (auto intro: lifecycle.escalate)
  next
    case False
    with run TerminateWait have "life_of s' = life_of s" by (auto simp: fire_def terminateTimeElapsed_def life_of_def)
    with TerminateWait show ?thesis by (simp add: event_labels_def lifecycle.quiet)
  qed
next
  case KillWait
  show ?thesis
  proof (cases "sd_state s = StateKilling")
    case True
    with run KillWait have "life_of s' = Life StateStopped False (length (sd_procs s))
        (length (sd_started s)) (sd_starting s)
        (if sd_restarting s then length (sd_stopped s) else Suc (length (sd_stopped s))) (sd_stopping s)"
      by (auto simp: fire_def killTimeElapsed_def and_then_Inr_iff life_of_def split: if_split_asm)
    with True KillWait show ?thesis unfolding life_of_def [of s] event_labels_def
      using lifecycle.give_up by auto
  next
    case False
    with run KillWait have "life_of s' = life_of s" by (auto simp: fire_def killTimeElapsed_def life_of_def)
    with KillWait show ?thesis by (simp add: event_labels_def lifecycle.quiet)
  qed
next
  case (ResetWait p)
  with run have "life_of s' = life_of s"
    by (auto simp: fire_def backoffResetElapsed_def life_of_def split: if_split_asm)
  with ResetWait show ?thesis by (simp add: event_labels_def lifecycle.quiet)
next
  case BackoffWait
  show ?thesis
  proof (cases "sd_state s = StateBackoff")
    case True
    with run BackoffWait obtain s1 where i: "startInternal env out (s\<lparr>sd_timers := ts\<rparr>) = Inr (e, s1)"
      and s': "s' = (case e of Some err \<Rightarrow> s1 | None \<Rightarrow> transition StateRunning s1)"
      by (cases "startInternal env out (s\<lparr>sd_timers := ts\<rparr>)")
         (auto simp: fire_def backoffTimeElapsed_def split: option.split_asm)
    show ?thesis
    proof (cases e)
      case None
      with startInternal_result [OF i] have "life_of s1 = Life (sd_state s1) (sd_restarting s1)
          (Suc (length (sd_procs s))) (length (sd_started s)) (sd_starting s) (length (sd_stopped s)) (sd_stopping s)"
        by (auto simp: life_of_def)
      then have "life_of s' = Life StateRunning False (Suc (length (sd_procs s))) (length (sd_started s))
          (sd_starting s) (length (sd_stopped s)) (sd_stopping s)" by (simp add: s' None life_of_def)
      with True BackoffWait show ?thesis unfolding life_of_def [of s] event_labels_def
        by (auto intro: lifecycle.relaunch)
    next
      case (Some err)
      with startInternal_result [OF i] have "life_of s1 = life_of s" by (auto simp: life_of_def)
      with Some BackoffWait show ?thesis by (simp add: s' event_labels_def lifecycle.quiet)
    qed
  next
    case False
    with run BackoffWait have "life_of s' = life_of s" by (auto simp: fire_def backoffTimeElapsed_def life_of_def)
    with BackoffWait show ?thesis by (simp add: event_labels_def lifecycle.quiet)
  qed
qed

lemma checkFailed_refines:
  assumes "checkFailed scale jitter action s = Inr s'"
  shows "life_of s' = life_of s \<or> lifecycle Check (life_of s) (life_of s')"
  using assms
proof (cases rule: checkFailed_cases)
  case (3 sig)
  then show ?thesis unfolding life_of_def by (auto intro: lifecycle.check_running)
next
  case 4
  then show ?thesis unfolding life_of_def by (auto intro: lifecycle.check_exited)
qed (simp_all add: life_of_def)

text \<open>Every step of a service is a step of its life, with a label of its event.\<close>

lemma svc_step_refines:
  assumes "svc_step env scale e s = Some (Inr s')" "svc_inv s"
  shows "\<exists>lab \<in> event_labels e. lifecycle lab (life_of s) (life_of s')"
proof (cases e)
  case (StartTask config wl out)
  with assms(1) obtain r where "start_service env out (sd_now s) config wl (Some s) = Inr (r, s')"
    by (auto simp: svc_step_def and_then_Inr_iff split: if_split_asm)
  from start_refines [OF this assms(2)] StartTask show ?thesis
    by (auto simp: event_labels_def intro: lifecycle.quiet)
next
  case StopTask
  with assms(1) obtain r where "stop_service (svc_name (sd_config s)) s = Inr (r, s')"
    by (auto simp: svc_step_def and_then_Inr_iff)
  from stop_refines [OF this assms(2)] StopTask show ?thesis
    by (auto simp: event_labels_def intro: lifecycle.quiet)
next
  case (Exits pid code jitter)
  with assms(1) obtain err where "exited scale code jitter (s\<lparr>sd_procs := remove1 pid (sd_procs s)\<rparr>) = Inr (err, s')"
      "pid \<in> set (sd_procs s)"
    by (auto simp: svc_step_def logged_def and_then_Inr_iff split: if_split_asm)
  from exited_refines [OF this(1) assms(2) this(2)] Exits show ?thesis by (simp add: event_labels_def)
next
  case (Fires due t out)
  with assms(1) obtain err where
    "fire env t out (s\<lparr>sd_timers := remove1 (due, t) (sd_timers s)\<rparr>) = Inr (err, s')"
    by (auto simp: svc_step_def logged_def and_then_Inr_iff split: if_split_asm)
  from fire_refines [OF this assms(2)] Fires show ?thesis by simp
next
  case (CheckFails action jitter)
  with assms(1) have "checkFailed scale jitter action s = Inr s'"
    by (auto simp: svc_step_def split: if_split_asm)
  from checkFailed_refines [OF this] CheckFails show ?thesis
    by (auto simp: event_labels_def intro: lifecycle.quiet)
next
  case (Tick d)
  with assms(1) have "life_of s' = life_of s" by (auto simp: svc_step_def life_of_def split: if_split_asm)
  with Tick show ?thesis by (simp add: event_labels_def lifecycle.quiet)
next
  case StartResult
  with assms(1) have "life_of s = Life (sd_state s) (sd_restarting s) (length (sd_procs s)) (Suc (length (sd_started s')))
      (Suc (sd_starting s')) (length (sd_stopped s)) (sd_stopping s) \<and>
    life_of s' = Life (sd_state s) (sd_restarting s) (length (sd_procs s)) (length (sd_started s'))
      (sd_starting s') (length (sd_stopped s)) (sd_stopping s)"
    by (auto simp: svc_step_def start_result_def life_of_def split: list.split_asm if_split_asm)
  with StartResult show ?thesis by (simp add: event_labels_def lifecycle.answer_start)
next
  case StopResult
  with assms(1) have "life_of s = Life (sd_state s) (sd_restarting s) (length (sd_procs s)) (length (sd_started s))
      (sd_starting s) (Suc (length (sd_stopped s'))) (Suc (sd_stopping s')) \<and>
    life_of s' = Life (sd_state s) (sd_restarting s) (length (sd_procs s)) (length (sd_started s))
      (sd_starting s) (length (sd_stopped s')) (sd_stopping s')"
    by (auto simp: svc_step_def stop_result_def life_of_def split: list.split_asm if_split_asm)
  with StopResult show ?thesis by (simp add: event_labels_def lifecycle.answer_stop)
next
  case StartAborted
  with assms(1) have "life_of s = Life (sd_state s) (sd_restarting s) (length (sd_procs s)) (length (sd_started s))
      (Suc (sd_starting s')) (length (sd_stopped s)) (sd_stopping s) \<and>
    life_of s' = Life StateStopped False (length (sd_procs s)) (length (sd_started s))
      (sd_starting s') (length (sd_stopped s)) (sd_stopping s)"
    by (auto simp: svc_step_def start_aborted_def and_then_Inr_iff life_of_def split: if_split_asm)
  with StartAborted show ?thesis by (simp add: event_labels_def lifecycle.abort)
next
  case (Reconfigure config wl)
  with assms(1) have "life_of s' = life_of s" by (auto simp: svc_step_def life_of_def)
  with Reconfigure show ?thesis by (simp add: event_labels_def lifecycle.quiet)
qed

subsection \<open>What holds of every life\<close>

text \<open>The answers owed to the tasks that wait, unless a start was aborted.\<close>

fun answers_owed :: "life \<Rightarrow> bool" where
  "answers_owed (Life st r p a w b v) \<longleftrightarrow>
     w = a + (if st = StateStarting then 1 else 0) \<and>
     v = b + (if st \<in> {StateTerminating, StateKilling} \<and> \<not> r then 1 else 0)"

text \<open>One process and no more, unless a start was aborted or a stop given up.\<close>

fun one_process :: "life \<Rightarrow> bool" where
  "one_process (Life st r p a w b v) \<longleftrightarrow> p = (if active st then 1 else 0)"

lemma answers_owed_step:
  "lifecycle lab l l' \<Longrightarrow> lab \<noteq> Abort \<Longrightarrow> answers_owed l \<Longrightarrow> answers_owed l'"
  by (induction rule: lifecycle.induct) auto

lemma one_process_step:
  "lifecycle lab l l' \<Longrightarrow> lab \<notin> {Abort, GiveUp} \<Longrightarrow> one_process l \<Longrightarrow> one_process l'"
  by (induction rule: lifecycle.induct) (auto simp: active_def)

lemma created_life:
  assumes "start_service env out now config wl None = Inr (r, s)"
  shows "life_of s = Life StateStarting False 1 0 1 0 0 \<or> life_of s = Life StateStopped False 0 0 0 0 0"
proof -
  let ?n = "new_service now config wl"
  have n: "sd_state ?n = StateInitial" "sd_procs ?n = []" "sd_started ?n = []" "sd_stopped ?n = []"
    "sd_starting ?n = 0" "sd_stopping ?n = 0" by (simp_all add: new_service_def)
  from assms n obtain e s1 where i: "startInternal env out ?n = Inr (e, s1)"
    and s: "life_of s = (case e of
        Some err \<Rightarrow> life_of (transition StateStopped s1)
      | None \<Rightarrow> life_of (transition StateStarting s1\<lparr>sd_starting := sd_starting s1 + 1\<rparr>))"
    by (cases "startInternal env out ?n")
       (auto simp: start_service_def serviceForStart_def start_def life_of_def split: option.split_asm)
  show ?thesis
  proof (cases e)
    case None
    with startInternal_result [OF i] n have "life_of s = Life StateStarting False 1 0 1 0 0"
      unfolding s None by (auto simp: life_of_def)
    then show ?thesis ..
  next
    case (Some err)
    with startInternal_result [OF i] n have "life_of s = Life StateStopped False 0 0 0 0 0"
      unfolding s Some by (auto simp: life_of_def)
    then show ?thesis ..
  qed
qed

lemma reached_answers_owed:
  "reached env scale (\<lambda>e. e \<noteq> StartAborted) s \<Longrightarrow> answers_owed (life_of s)"
proof (induction rule: reached.induct)
  case (created out now config wl r s)
  from created_life [OF created(1)] show ?case by auto
next
  case (step s e s')
  from svc_step_refines [OF step(4) reached_inv [OF step(1)]] obtain lab where
    lab: "lab \<in> event_labels e" "lifecycle lab (life_of s) (life_of s')" by blast
  have "lab \<noteq> Abort" using lab(1) step(3)
    by (auto simp: event_labels_def split: svc_event.split_asm timer.split_asm)
  from answers_owed_step [OF lab(2) this step(5)] show ?case .
qed

definition undisturbed :: "svc_event \<Rightarrow> bool" where
  "undisturbed e \<longleftrightarrow> e \<noteq> StartAborted \<and> (\<forall>due out. e \<noteq> Fires due KillWait out)"

lemma reached_one_process:
  "reached env scale undisturbed s \<Longrightarrow> one_process (life_of s)"
proof (induction rule: reached.induct)
  case (created out now config wl r s)
  from created_life [OF created(1)] show ?case by auto
next
  case (step s e s')
  from svc_step_refines [OF step(4) reached_inv [OF step(1)]] obtain lab where
    lab: "lab \<in> event_labels e" "lifecycle lab (life_of s) (life_of s')" by blast
  have "lab \<notin> {Abort, GiveUp}" using lab(1) step(3)
    by (auto simp: event_labels_def undisturbed_def split: svc_event.split_asm timer.split_asm)
  from one_process_step [OF lab(2) this step(5)] show ?case .
qed

subsection \<open>A stop is answered\<close>

lemma svc_run_append:
  "svc_run env scale (es @ fs) s =
     (case svc_run env scale es s of None \<Rightarrow> None | Some s1 \<Rightarrow> svc_run env scale fs s1)"
  by (induction es arbitrary: s) (auto split: option.split sum.split)

definition wait_for :: "time \<Rightarrow> service_world \<Rightarrow> svc_event" where
  "wait_for due s = Tick (max 0 (due - sd_now s))"

lemma wait_for_step:
  "svc_step env scale (wait_for due s) s = Some (Inr (s\<lparr>sd_now := max due (sd_now s)\<rparr>))"
  by (simp add: svc_step_def wait_for_def max_def)

definition by_timer :: "svc_event \<Rightarrow> bool" where
  "by_timer e \<longleftrightarrow> e = StopResult \<or> (\<exists>d. e = Tick d) \<or> (\<exists>due out. e = Fires due TerminateWait out \<or> e = Fires due KillWait out)"

lemma pendingE:
  assumes "pending t ts"
  obtains due where "(due, t) \<in> set ts"
  using assms by (auto simp: pending_def)

lemma killing_answers:
  assumes "sd_state s = StateKilling" "\<not> sd_restarting s" "pending KillWait (sd_timers s)" "sd_stopped s = []"
    "0 < sd_stopping s"
  shows "\<exists>es s'. (\<forall>e \<in> set es. by_timer e) \<and> svc_run env scale es s = Some s' \<and>
    sd_stopping s' = sd_stopping s - 1 \<and> sd_state s' = StateStopped"
proof -
  from assms(3) obtain due where d: "(due, KillWait) \<in> set (sd_timers s)" by (rule pendingE)
  let ?w = "s\<lparr>sd_now := max due (sd_now s)\<rparr>"
  let ?t = "?w\<lparr>sd_timers := remove1 (due, KillWait) (sd_timers s)\<rparr>"
  let ?k = "transition StateStopped (?t\<lparr>sd_stopped := [Some (''process still running after SIGTERM and SIGKILL'', [])]\<rparr>)"
  have k: "svc_step env scale (Fires due KillWait (Inl [])) ?w = Some (Inr ?k)"
    using assms d by (simp add: svc_step_def fresh_pid_def fire_def killTimeElapsed_def logged_def send_stopped_def)
  have "svc_step env scale StopResult ?k = Some (Inr (?k\<lparr>sd_stopped := [], sd_stopping := sd_stopping s - 1\<rparr>))"
    using assms(5) by (simp add: svc_step_def stop_result_def)
  with k have "svc_run env scale [wait_for due s, Fires due KillWait (Inl []), StopResult] s =
      Some (?k\<lparr>sd_stopped := [], sd_stopping := sd_stopping s - 1\<rparr>)"
    by (simp add: wait_for_step)
  moreover have "\<forall>e \<in> set [wait_for due s, Fires due KillWait (Inl []), StopResult]. by_timer e"
    by (auto simp: by_timer_def wait_for_def)
  ultimately show ?thesis by (intro exI conjI) (assumption, assumption, simp_all)
qed

lemma terminating_answers:
  assumes "sd_state s = StateTerminating" "\<not> sd_restarting s" "pending TerminateWait (sd_timers s)" "sd_stopped s = []"
    "0 < sd_stopping s" "sd_cmd s = Some pid"
  shows "\<exists>es s'. (\<forall>e \<in> set es. by_timer e) \<and> svc_run env scale es s = Some s' \<and>
    sd_stopping s' = sd_stopping s - 1 \<and> sd_state s' = StateStopped"
proof -
  from assms(3) obtain due where d: "(due, TerminateWait) \<in> set (sd_timers s)" by (rule pendingE)
  let ?w = "s\<lparr>sd_now := max due (sd_now s)\<rparr>"
  let ?t = "?w\<lparr>sd_timers := remove1 (due, TerminateWait) (sd_timers s)\<rparr>"
  let ?k = "AfterFunc failDelay KillWait (transitionRestarting StateKilling False
    (?t\<lparr>sd_signals := sd_signals s @ [(- int pid, ''SIGKILL'')]\<rparr>))"
  have k: "svc_step env scale (Fires due TerminateWait (Inl [])) ?w = Some (Inr ?k)"
    using assms d
    by (simp add: svc_step_def fresh_pid_def fire_def terminateTimeElapsed_def logged_def kill_group_def)
  have "\<exists>es s'. (\<forall>e \<in> set es. by_timer e) \<and> svc_run env scale es ?k = Some s' \<and>
      sd_stopping s' = sd_stopping ?k - 1 \<and> sd_state s' = StateStopped"
    by (rule killing_answers) (use assms in simp_all)
  then obtain es s' where es: "\<forall>e \<in> set es. by_timer e" "svc_run env scale es ?k = Some s'"
    "sd_stopping s' = sd_stopping s - 1" "sd_state s' = StateStopped" by auto
  have "svc_run env scale (wait_for due s # Fires due TerminateWait (Inl []) # es) s = Some s'"
    using k es(2) by (simp add: wait_for_step)
  moreover have "\<forall>e \<in> set (wait_for due s # Fires due TerminateWait (Inl []) # es). by_timer e"
    using es(1) by (auto simp: by_timer_def wait_for_def)
  ultimately show ?thesis using es(3,4) by blast
qed

lemma reached_stop_answered:
  assumes "reached env scale (\<lambda>e. e \<noteq> StartAborted) s" "0 < sd_stopping s"
  shows "\<exists>es s'. (\<forall>e \<in> set es. by_timer e) \<and> svc_run env scale es s = Some s' \<and> sd_stopping s' = sd_stopping s - 1"
proof (cases "sd_stopped s")
  case (Cons x xs)
  with assms(2) have "svc_run env scale [StopResult] s = Some (s\<lparr>sd_stopped := xs, sd_stopping := sd_stopping s - 1\<rparr>)"
    by (simp add: svc_step_def stop_result_def)
  then show ?thesis by (intro exI [of _ "[StopResult]"] exI conjI) (auto simp: by_timer_def)
next
  case Nil
  from reached_answers_owed [OF assms(1)] Nil assms(2)
  have st: "sd_state s \<in> {StateTerminating, StateKilling}" "\<not> sd_restarting s"
    by (auto simp: life_of_def split: if_split_asm)
  note i = reached_inv [OF assms(1), unfolded svc_inv_def]
  show ?thesis
  proof (cases "sd_state s = StateKilling")
    case True
    with killing_answers [OF True st(2) _ Nil assms(2)] i show ?thesis by blast
  next
    case False
    with st have t: "sd_state s = StateTerminating" by simp
    with i obtain pid where "sd_cmd s = Some pid" by auto
    with terminating_answers [OF t st(2) _ Nil assms(2)] i t show ?thesis by blast
  qed
qed

subsection \<open>Backoff\<close>

text \<open>The delays of successive restarts.\<close>

definition backoff_delay :: "(duration \<Rightarrow> rat \<Rightarrow> duration) \<Rightarrow> service \<Rightarrow> nat \<Rightarrow> duration" where
  "backoff_delay scale c n = (calculateNextBackoff scale c ^^ n) 0"

lemma backoff_delay_Suc: "backoff_delay scale c (Suc n) = calculateNextBackoff scale c (backoff_delay scale c n)"
  by (simp add: backoff_delay_def)

lemma backoff_delay_range:
  assumes "0 \<le> od_value (svc_backoff_delay c)" "0 \<le> od_value (svc_backoff_limit c)"
    "\<And>d. 0 \<le> d \<Longrightarrow> 0 \<le> scale d (of_value (svc_backoff_factor c))"
  shows "0 \<le> backoff_delay scale c n \<and>
    backoff_delay scale c n \<le> max (od_value (svc_backoff_delay c)) (od_value (svc_backoff_limit c))"
proof (induction n)
  case 0
  show ?case using assms(1) by (simp add: backoff_delay_def)
next
  case (Suc n)
  then show ?case unfolding backoff_delay_Suc calculateNextBackoff_def
    using assms(1,2) assms(3) [of "backoff_delay scale c n"] by (simp add: min.coboundedI2 max.coboundedI2)
qed

lemma backoff_delay_mono:
  assumes "0 < od_value (svc_backoff_delay c)" "od_value (svc_backoff_delay c) \<le> od_value (svc_backoff_limit c)"
    "\<And>d. 0 < d \<Longrightarrow> d < scale d (of_value (svc_backoff_factor c))"
  shows "min (int n) (od_value (svc_backoff_limit c)) \<le> backoff_delay scale c n \<and>
    backoff_delay scale c n \<le> od_value (svc_backoff_limit c) \<and>
    backoff_delay scale c n \<le> backoff_delay scale c (Suc n)"
proof (induction n)
  case 0
  show ?case using assms(1,2) by (simp add: backoff_delay_def calculateNextBackoff_def)
next
  case (Suc n)
  define D L B where "D = od_value (svc_backoff_delay c)" and "L = od_value (svc_backoff_limit c)"
    and "B = backoff_delay scale c n"
  have D: "0 < D" "D \<le> L" and B: "min (int n) L \<le> B" "B \<le> L"
    using assms(1,2) Suc by (simp_all add: D_def L_def B_def)
  have new: "backoff_delay scale c (Suc n) =
      (if B = 0 then D else if L \<le> B then L else min (scale B (of_value (svc_backoff_factor c))) L)"
    unfolding backoff_delay_Suc calculateNextBackoff_def B_def D_def L_def ..
  have b: "min (int (Suc n)) L \<le> backoff_delay scale c (Suc n)" "backoff_delay scale c (Suc n) \<le> L"
    "0 < backoff_delay scale c (Suc n)"
  proof -
    consider "B = 0" | "0 < B" "L \<le> B" | "0 < B" "B < L" using B D by linarith
    then have "min (int (Suc n)) L \<le> backoff_delay scale c (Suc n) \<and> backoff_delay scale c (Suc n) \<le> L \<and>
        0 < backoff_delay scale c (Suc n)"
    proof cases
      case 1
      with B D have "n = 0" by linarith
      with 1 D show ?thesis unfolding new by simp
    next
      case 2
      with D show ?thesis unfolding new by simp
    next
      case 3
      from 3 B have "int n \<le> B" by linarith
      with assms(3) [OF 3(1)] 3 show ?thesis unfolding new by simp
    qed
    then show "min (int (Suc n)) L \<le> backoff_delay scale c (Suc n)" "backoff_delay scale c (Suc n) \<le> L"
      "0 < backoff_delay scale c (Suc n)" by simp_all
  qed
  from assms(3) [OF b(3)] b have "backoff_delay scale c (Suc n) \<le> backoff_delay scale c (Suc (Suc n))"
    by (simp add: backoff_delay_Suc [of scale c "Suc n"] calculateNextBackoff_def L_def)
  with b show ?case by (simp add: L_def)
qed

subsection \<open>Properties\<close>

text \<open>
  C2: Whatever happens to a service (starts, stops, aborted starts, timers, exits, failed checks, plan
  changes), while its state is starting, running, terminating or killing there is a process and the
  command that \<open>stop\<close>, the timers and \<open>sendSignal\<close> signal is set; the timer that leads out of starting,
  terminating and killing is pending; \<open>restarting\<close> is set in terminating and killing only; and every
  answer to a stop, sent or still due, has a task that waits for it.
\<close>
theorem service_invariant:
  assumes "reached env scale allowed s"
  shows "(sd_state s \<in> {StateStarting, StateRunning, StateTerminating, StateKilling} \<longrightarrow>
           sd_cmd s \<noteq> None \<and> sd_procs s \<noteq> []) \<and>
         (sd_state s = StateStarting \<longrightarrow> (\<exists>due. (due, OkayWait) \<in> set (sd_timers s))) \<and>
         (sd_state s = StateTerminating \<longrightarrow> (\<exists>due. (due, TerminateWait) \<in> set (sd_timers s))) \<and>
         (sd_state s = StateKilling \<longrightarrow> (\<exists>due. (due, KillWait) \<in> set (sd_timers s))) \<and>
         (sd_restarting s \<longrightarrow> sd_state s \<in> {StateTerminating, StateKilling}) \<and>
         length (sd_stopped s) +
           (if sd_state s \<in> {StateTerminating, StateKilling} \<and> \<not> sd_restarting s then 1 else 0) \<le> sd_stopping s"
  using reached_inv [OF assms] unfolding svc_inv_def stop_due_def active_def by (auto elim: pendingE)

text \<open>
  C6: Every step of a service is a step of the abstract life of a service: a transition of its state
  that the event allows, with the processes, answers and waiting tasks it adds or takes away.
\<close>
theorem service_refines_lifecycle:
  assumes "reached env scale allowed s" "svc_step env scale e s = Some (Inr s')"
  shows "\<exists>lab \<in> event_labels e. lifecycle lab (life_of s) (life_of s')"
  by (rule svc_step_refines [OF assms(2) reached_inv [OF assms(1)]])

lemma reached_mono:
  "reached env scale A s \<Longrightarrow> (\<And>e. A e \<Longrightarrow> B e) \<Longrightarrow> reached env scale B s"
  by (induction rule: reached.induct) (auto intro: reached.intros)

text \<open>
  C15: As long as no start is aborted and no kill given up, exactly one process runs while the service
  is starting, running, terminating or killing and none otherwise, so that \<open>exited\<close> is never called in
  a wrong state; and the tasks waiting for a start or a stop are exactly those whose answer is in the
  channel or due.
\<close>
theorem service_undisturbed:
  assumes "reached env scale undisturbed s"
  shows "length (sd_procs s) =
           (if sd_state s \<in> {StateStarting, StateRunning, StateTerminating, StateKilling} then 1 else 0) \<and>
         sd_starting s = length (sd_started s) + (if sd_state s = StateStarting then 1 else 0) \<and>
         sd_stopping s = length (sd_stopped s) +
           (if sd_state s \<in> {StateTerminating, StateKilling} \<and> \<not> sd_restarting s then 1 else 0)"
proof -
  have "reached env scale (\<lambda>e. e \<noteq> StartAborted) s"
    by (rule reached_mono [OF assms]) (simp add: undisturbed_def)
  from reached_answers_owed [OF this] reached_one_process [OF assms] show ?thesis
    by (cases "sd_state s") (simp_all add: life_of_def)
qed


text \<open>
  With a positive delay that is not above the limit and a factor that makes every delay longer, the
  delays of successive restarts never get shorter, never exceed the limit, and reach it: the n-th is
  at least the smaller of n and the limit.
\<close>
lemma backoff_bounds:
  assumes "0 < od_value (svc_backoff_delay c)" "od_value (svc_backoff_delay c) \<le> od_value (svc_backoff_limit c)"
    "\<And>d. 0 < d \<Longrightarrow> d < scale d (of_value (svc_backoff_factor c))"
  shows "min (int n) (od_value (svc_backoff_limit c)) \<le> backoff_delay scale c n \<and>
    backoff_delay scale c n \<le> od_value (svc_backoff_limit c) \<and>
    backoff_delay scale c n \<le> backoff_delay scale c (Suc n)"
  using assms by (rule backoff_delay_mono)

subsection \<open>Runs\<close>

lemma reached_run:
  "reached env scale allowed s \<Longrightarrow> svc_run env scale es s = Some s' \<Longrightarrow>
     \<forall>e \<in> set es. configured e \<and> allowed e \<Longrightarrow> reached env scale allowed s'"
proof (induction es arbitrary: s)
  case (Cons e es)
  from Cons.prems(2) obtain s1 where s1: "svc_step env scale e s = Some (Inr s1)" "svc_run env scale es s1 = Some s'"
    by (auto split: option.split_asm sum.split_asm)
  from Cons.prems(1,3) s1(1) have "reached env scale allowed s1" by (auto intro: reached.step)
  from Cons.IH [OF this s1(2)] Cons.prems(3) show ?case by simp
qed simp

definition calm :: svc_env where
  "calm = \<lparr>se_plan = sample_env, se_current = Inr (0, 0), se_lookup = (\<lambda>_. Inl ''unknown user'')\<rparr>"

definition exact :: "duration \<Rightarrow> rat \<Rightarrow> duration" where
  "exact d f = \<lfloor>of_int d * f\<rfloor>"

definition httpd :: service where
  "httpd = (blank_service ''httpd'' [])\<lparr>svc_command := ''httpd'',
     svc_backoff_delay := \<lparr>od_value = 500 * millisecond, od_is_set = False\<rparr>,
     svc_backoff_factor := \<lparr>of_value = 2, of_is_set = False\<rparr>,
     svc_backoff_limit := \<lparr>od_value = 30 * second, od_is_set = False\<rparr>\<rparr>"

definition httpd_started :: service_world where
  "httpd_started = snd (projr (start_service calm (Inr 7) 0 httpd None None))"

lemma reached_httpd:
  assumes "svc_run calm exact es httpd_started = Some s" "\<forall>e \<in> set es. configured e \<and> allowed e"
  shows "reached calm exact allowed s"
proof -
  have "\<not> isl (start_service calm (Inr 7) 0 httpd None None)" by code_simp
  then have c: "start_service calm (Inr 7) 0 httpd None None =
      Inr (fst (projr (start_service calm (Inr 7) 0 httpd None None)), httpd_started)"
    unfolding httpd_started_def by (cases "start_service calm (Inr 7) 0 httpd None None") simp_all
  have "valid_actions httpd" by code_simp
  from reached_run [OF reached.created [OF c this] assms] show ?thesis .
qed

lemma svc_run_the: "svc_run env scale es s \<noteq> None \<Longrightarrow> svc_run env scale es s = Some (the (svc_run env scale es s))"
  by simp

definition httpd_stopping :: service_world where
  "httpd_stopping = the (svc_run calm exact [Tick second, Fires second OkayWait (Inl []), StopTask] httpd_started)"

lemma reached_httpd_stopping: "reached calm exact undisturbed httpd_stopping"
proof (rule reached_httpd)
  let ?es = "[Tick second, Fires second OkayWait (Inl []), StopTask]"
  have "svc_run calm exact ?es httpd_started \<noteq> None" by code_simp
  then show "svc_run calm exact ?es httpd_started = Some httpd_stopping"
    unfolding httpd_stopping_def by (rule svc_run_the)
  show "\<forall>e \<in> set ?es. configured e \<and> undisturbed e"
    by (simp add: configured_def undisturbed_def)
qed

theorem service_invariant_witness:
  "sd_state httpd_stopping = StateTerminating \<and> sd_procs httpd_stopping \<noteq> [] \<and>
     (\<exists>due. (due, TerminateWait) \<in> set (sd_timers httpd_stopping))"
proof -
  have "sd_state httpd_stopping = StateTerminating" by code_simp
  with service_invariant [OF reached_httpd_stopping] show ?thesis by simp
qed

theorem service_refines_lifecycle_witness:
  "\<exists>s'. svc_step calm exact (Exits 7 0 0) httpd_stopping = Some (Inr s') \<and>
     (\<exists>lab \<in> event_labels (Exits 7 0 0). lifecycle lab (life_of httpd_stopping) (life_of s'))"
proof -
  have "case svc_step calm exact (Exits 7 0 0) httpd_stopping of Some (Inr _) \<Rightarrow> True | _ \<Rightarrow> False" by code_simp
  then obtain s' where s': "svc_step calm exact (Exits 7 0 0) httpd_stopping = Some (Inr s')"
    by (simp split: option.split_asm sum.split_asm)
  with service_refines_lifecycle [OF reached_httpd_stopping s'] show ?thesis by blast
qed

theorem service_undisturbed_witness:
  "length (sd_procs httpd_stopping) = 1 \<and> sd_starting httpd_stopping = 1 \<and> sd_stopping httpd_stopping = 1"
proof -
  have "sd_state httpd_stopping = StateTerminating \<and> \<not> sd_restarting httpd_stopping \<and>
      length (sd_started httpd_stopping) = 1 \<and> sd_stopped httpd_stopping = []" by code_simp
  with service_undisturbed [OF reached_httpd_stopping] show ?thesis by simp
qed


subsection \<open>What the code gets wrong\<close>

definition second_run :: "svc_event list" where
  "second_run =
     [Tick (500 * millisecond), StopTask, StartResult, Exits 7 0 0, StopResult,
      Tick (200 * millisecond), StartTask httpd None (Inr 8), Tick (300 * millisecond),
      Fires second OkayWait (Inl [])]"

text \<open>
  The timer of \<open>okayDelay\<close> is not stopped when its start is over: a service that was stopped and
  started again is taken to run successfully after 0.3 seconds, when the timer of the first start fires.
\<close>

lemma okay_timer_of_earlier_start:
  "\<exists>s. svc_run calm exact second_run httpd_started = Some s \<and>
     sd_state s = StateRunning \<and> sd_procs s = [8] \<and> sd_now s - 700 * millisecond = 300 * millisecond"
proof -
  have "case svc_run calm exact second_run httpd_started of
      None \<Rightarrow> False
    | Some s \<Rightarrow> sd_state s = StateRunning \<and> sd_procs s = [8] \<and> sd_now s - 700 * millisecond = 300 * millisecond"
    by code_simp
  then show ?thesis by (simp split: option.split_asm)
qed

definition survivor_run :: "svc_event list" where
  "survivor_run =
     [Tick second, Fires second OkayWait (Inl []), StartResult, StopTask,
      Tick killDelayDefault, Fires (second + killDelayDefault) TerminateWait (Inl []),
      Tick failDelay, Fires (second + killDelayDefault + failDelay) KillWait (Inl []), StopResult,
      StartTask httpd None (Inr 8), Exits 7 1 0, StartResult,
      Tick (500 * millisecond),
      Fires (second + killDelayDefault + failDelay + 500 * millisecond) BackoffWait (Inr 9)]"

text \<open>
  A process that survives SIGKILL and exits after the service was started again is taken for the new
  process: the start fails, and the restart after the backoff runs a second process beside the new one.
\<close>
lemma late_exit_ends_new_service:
  "\<exists>s. svc_run calm exact survivor_run httpd_started = Some s \<and> sd_state s = StateRunning \<and> sd_procs s = [8, 9]"
proof -
  have "case svc_run calm exact survivor_run httpd_started of
      None \<Rightarrow> False | Some s \<Rightarrow> sd_state s = StateRunning \<and> sd_procs s = [8, 9]"
    by code_simp
  then show ?thesis by (simp split: option.split_asm)
qed

text \<open>
  An aborted start that finds the service being stopped makes it stopped: the exit of the process is then
  ignored, and the task that stops the service waits for ever.
\<close>

lemma aborted_start_strands_stop:
  "\<exists>s. svc_run calm exact [StopTask, StartAborted, Exits 7 0 0] httpd_started = Some s \<and>
     sd_stopping s = 1 \<and> sd_stopped s = [] \<and> sd_state s = StateStopped \<and> sd_procs s = []"
proof -
  have "case svc_run calm exact [StopTask, StartAborted, Exits 7 0 0] httpd_started of
      None \<Rightarrow> False
    | Some s \<Rightarrow> sd_stopping s = 1 \<and> sd_stopped s = [] \<and> sd_state s = StateStopped \<and> sd_procs s = []"
    by code_simp
  then show ?thesis by (simp split: option.split_asm)
qed

text \<open>A restart that fails leaves the service in backoff with no timer left: it is never tried again.\<close>

lemma failed_restart_stays_in_backoff:
  "\<exists>s. svc_run calm exact [Exits 7 1 0, Tick (30 * second), Fires second OkayWait (Inl []),
       Fires (500 * millisecond) BackoffWait (Inl ''out of memory'')] httpd_started = Some s \<and>
     sd_state s = StateBackoff \<and> sd_timers s = [] \<and> sd_procs s = []"
proof -
  have "case svc_run calm exact [Exits 7 1 0, Tick (30 * second), Fires second OkayWait (Inl []),
       Fires (500 * millisecond) BackoffWait (Inl ''out of memory'')] httpd_started of
      None \<Rightarrow> False | Some s \<Rightarrow> sd_state s = StateBackoff \<and> sd_timers s = [] \<and> sd_procs s = []"
    by code_simp
  then show ?thesis by (simp split: option.split_asm)
qed

text \<open>
  A plan whose service has a command of blanks only is valid, and starting that service panics
  (\<open>args[0]\<close> of no arguments).
\<close>
lemma blank_command_panics:
  "plan_Validate sample_env id (NewPlan\<lparr>plan_services := [(''web'', (blank_service ''web'' [])\<lparr>svc_command := '' ''\<rparr>)]\<rparr>) = Inr () \<and>
   start_service calm (Inr 7) 0 ((blank_service ''web'' [])\<lparr>svc_command := '' ''\<rparr>) None None = Inl NoArguments"
proof
  show "plan_Validate sample_env id (NewPlan\<lparr>plan_services := [(''web'', (blank_service ''web'' [])\<lparr>svc_command := '' ''\<rparr>)]\<rparr>) = Inr ()"
    by code_simp
  have "(case start_service calm (Inr 7) 0 ((blank_service ''web'' [])\<lparr>svc_command := '' ''\<rparr>) None None of
      Inl f \<Rightarrow> f = NoArguments | Inr _ \<Rightarrow> False)" by code_simp
  then show "start_service calm (Inr 7) 0 ((blank_service ''web'' [])\<lparr>svc_command := '' ''\<rparr>) None None = Inl NoArguments"
    by (simp split: sum.split_asm)
qed

end
