(* ===== verification/ServiceTasks.thy ===== *)
theory ServiceTasks
  imports StatePrune StartOrder
begin

text \<open>
  The tasks that start and stop services (\<open>servstate/request.go\<close>, and \<open>TaskServiceRequest\<close> of
  \<open>servstate/handlers.go\<close>): one lane per list of services, one task per service, each waiting for the
  one before it in its lane.  \<open>quote\<close> is \<open>strconv.Quote\<close>, which the summaries use.  The lemmas show which
  tasks there are afterwards, and with \<open>StartOrder\<close> that a service waits for what it comes after.
\<close>

definition service_request :: "string \<Rightarrow> json" where
  "service_request name = JObj [(''Name'', JStr name)]"

definition new_service_task ::
    "(string \<Rightarrow> string) \<Rightarrow> time \<Rightarrow> string \<Rightarrow> string \<Rightarrow> int \<Rightarrow> string option \<Rightarrow> string \<Rightarrow> st \<Rightarrow> fault + string \<times> st" where
  "new_service_task quote now kind verb lane prev name s =
     (let (tid, s1) = NewTask now kind (verb @ quote name) s in
      and_then (need_task s1 tid) (\<lambda>t.
        let s2 = put_task tid (t\<lparr>task_data := data_set ''service-request'' (Some (service_request name)) (task_data t)\<rparr>) s1 in
        and_then (JoinLane tid lane s2) (\<lambda>s3.
          case prev of
            None \<Rightarrow> Inr (tid, s3)
          | Some p \<Rightarrow> and_then (WaitFor tid p s3) (\<lambda>s4. Inr (tid, s4)))))"

fun lane_tasks ::
    "(string \<Rightarrow> string) \<Rightarrow> time \<Rightarrow> string \<Rightarrow> string \<Rightarrow> int \<Rightarrow> string option \<Rightarrow> string list \<Rightarrow> st \<Rightarrow> fault + string list \<times> st" where
  "lane_tasks quote now kind verb lane prev [] s = Inr ([], s)"
| "lane_tasks quote now kind verb lane prev (name # names) s =
     and_then (new_service_task quote now kind verb lane prev name s) (\<lambda>(tid, s1).
       and_then (lane_tasks quote now kind verb lane (Some tid) names s1) (\<lambda>(tids, s2). Inr (tid # tids, s2)))"

fun service_tasks ::
    "(string \<Rightarrow> string) \<Rightarrow> time \<Rightarrow> string \<Rightarrow> string \<Rightarrow> string list list \<Rightarrow> st \<Rightarrow> fault + string list \<times> st" where
  "service_tasks quote now kind verb [] s = Inr ([], s)"
| "service_tasks quote now kind verb (services # lanes) s =
     (let (lane, s1) = NewLane s in
      and_then (lane_tasks quote now kind verb lane None services s1) (\<lambda>(tids, s2).
        and_then (service_tasks quote now kind verb lanes s2) (\<lambda>(rest_ids, s3). Inr (tids @ rest_ids, s3))))"

definition Start :: "(string \<Rightarrow> string) \<Rightarrow> time \<Rightarrow> string list list \<Rightarrow> st \<Rightarrow> fault + task_set \<times> st" where
  "Start quote now lanes s =
     and_then (service_tasks quote now ''start'' ''Start service '' lanes s) (\<lambda>(tids, s1). Inr (NewTaskSet tids, s1))"

definition Stop :: "(string \<Rightarrow> string) \<Rightarrow> time \<Rightarrow> string list list \<Rightarrow> st \<Rightarrow> fault + task_set \<times> st" where
  "Stop quote now lanes s =
     and_then (service_tasks quote now ''stop'' ''Stop service '' lanes s) (\<lambda>(tids, s1). Inr (NewTaskSet tids, s1))"

text \<open>Decoding a stored \<open>ServiceRequest\<close>: a missing name is the empty string.\<close>

fun decode_request :: "json \<Rightarrow> string option" where
  "decode_request JNull = Some []"
| "decode_request (JObj kvs) =
     (case map_of kvs ''Name'' of None \<Rightarrow> Some [] | Some (JStr n) \<Rightarrow> Some n | Some JNull \<Rightarrow> Some [] | _ \<Rightarrow> None)"
| "decode_request _ = None"

definition get_request :: "task \<Rightarrow> err + string" where
  "get_request t =
     (case data_get (task_data t) ''service-request'' of
        None \<Rightarrow> Inl (''no state entry for key %q'', [''service-request''])
      | Some j \<Rightarrow>
          (case decode_request j of
             None \<Rightarrow> Inl (''internal error: could not unmarshal state entry %q: %w'', [''service-request''])
           | Some n \<Rightarrow> Inr n))"

definition TaskServiceRequest :: "st \<Rightarrow> task \<Rightarrow> err + string" where
  "TaskServiceRequest s t =
     (if data_has (task_data t) ''service-request'' then get_request t
      else case data_get (task_data t) ''service-request-task'' of
        None \<Rightarrow> Inl (''no state entry for key %q'', [''service-request-task''])
      | Some j \<Rightarrow>
          (case string_entry j of
             None \<Rightarrow> Inl (''internal error: could not unmarshal state entry %q: %w'', [''service-request-task''])
           | Some tid \<Rightarrow>
               (case state_Task s tid of
                  None \<Rightarrow> Inl (''internal error: missing task referenced (incorrect pruning?)'', [])
                | Some t' \<Rightarrow> get_request t')))"

subsection \<open>The tasks there are afterwards\<close>

text \<open>Ids above the counter are not in use.\<close>

definition fresh_ids :: "st \<Rightarrow> bool" where
  "fresh_ids s \<longleftrightarrow> (\<forall>n > last_task_id s. fmlookup (tasks s) (itoa n) = None)"

definition service_task ::
    "(string \<Rightarrow> string) \<Rightarrow> time \<Rightarrow> string \<Rightarrow> string \<Rightarrow> int \<Rightarrow> string list \<Rightarrow> string \<Rightarrow> string list \<Rightarrow> string \<Rightarrow> task" where
  "service_task quote now kind verb lane prev tid follow name =
     (newTask now tid kind (verb @ quote name))
       \<lparr>task_data := fmupd ''service-request'' (service_request name) fmempty,
        task_lanes := [lane], wait_tasks := prev, halt_tasks := follow\<rparr>"

definition halt_also :: "string option \<Rightarrow> string \<Rightarrow> (string, task) fmap \<Rightarrow> (string, task) fmap" where
  "halt_also prev tid ts =
     (case prev of
        None \<Rightarrow> ts
      | Some p \<Rightarrow>
          (case fmlookup ts p of
             None \<Rightarrow> ts
           | Some u \<Rightarrow> fmupd p (u\<lparr>halt_tasks := add_once (halt_tasks u) tid\<rparr>) ts))"

definition prev_list :: "string option \<Rightarrow> string list" where
  "prev_list prev = (case prev of None \<Rightarrow> [] | Some p \<Rightarrow> [p])"

lemma halt_also_other: "prev \<noteq> Some k \<Longrightarrow> fmlookup (halt_also prev tid ts) k = fmlookup ts k"
  by (auto simp: halt_also_def split: option.split)

lemma halt_also_this:
  "fmlookup ts p = Some u \<Longrightarrow>
     fmlookup (halt_also (Some p) tid ts) p = Some (u\<lparr>halt_tasks := add_once (halt_tasks u) tid\<rparr>)"
  by (simp add: halt_also_def)

lemma new_service_task_spec:
  assumes "fresh_ids s" "\<And>p. prev = Some p \<Longrightarrow> fmlookup (tasks s) p \<noteq> None"
  defines "tid \<equiv> itoa (Suc (last_task_id s))"
  shows "\<exists>s'. new_service_task quote now kind verb lane prev name s = Inr (tid, s') \<and>
    last_task_id s' = Suc (last_task_id s) \<and> last_lane_id s' = last_lane_id s \<and>
    tasks s' = fmupd tid (service_task quote now kind verb lane (prev_list prev) tid [] name) (halt_also prev tid (tasks s))"
proof -
  have new: "fmlookup (tasks s) tid = None" using assms(1) by (simp add: fresh_ids_def tid_def)
  show ?thesis
  proof (cases prev)
    case None
    then show ?thesis
      by (simp add: new_service_task_def NewTask_def JoinLane_def Let_def tid_def [symmetric] service_task_def
          newTask_def data_set_def prev_list_def halt_also_def put_task_def)
  next
    case (Some p)
    with assms(2) obtain u where u: "fmlookup (tasks s) p = Some u" by auto
    with new have ne: "p \<noteq> tid" "tid \<noteq> p" by auto
    have swap: "fmupd p a (fmupd tid b m) = fmupd tid b (fmupd p a m)" for a b and m :: "(string, task) fmap"
      using ne by (auto intro!: fmap_ext)
    have twice: "fmupd tid a (fmupd tid b m) = fmupd tid a m" for a b and m :: "(string, task) fmap"
      by (auto intro!: fmap_ext)
    show ?thesis using u ne
      by (simp add: Some new_service_task_def NewTask_def JoinLane_def WaitFor_def Let_def tid_def [symmetric]
          service_task_def newTask_def data_set_def prev_list_def halt_also_def put_task_def add_once_def swap twice)
  qed
qed

lemma ids_Cons:
  "itoa (Suc n) # map itoa [Suc (Suc n) ..< Suc (Suc n + k)] = map itoa [Suc n ..< Suc (n + (k + Suc 0))]"
  by (subst (2) upt_conv_Cons) (simp_all del: upt_Suc)

lemma ids_append:
  "map itoa [Suc n ..< Suc (n + m)] @ map itoa [Suc (n + m) ..< Suc (n + m + k)] = map itoa [Suc n ..< Suc (n + (m + k))]"
  using upt_add_eq_append [of "Suc n" "Suc (n + m)" k] unfolding map_append [symmetric] by (simp add: add.assoc del: upt_Suc)

lemma lane_tasks_spec:
  assumes "fresh_ids s" "\<And>p. prev = Some p \<Longrightarrow> fmlookup (tasks s) p \<noteq> None"
  shows "\<exists>s' ids. lane_tasks quote now kind verb lane prev names s = Inr (ids, s') \<and>
    ids = map itoa [Suc (last_task_id s) ..< Suc (last_task_id s + length names)] \<and>
    last_task_id s' = last_task_id s + length names \<and> last_lane_id s' = last_lane_id s \<and> fresh_ids s' \<and>
    (\<forall>i < length names. fmlookup (tasks s') (ids ! i) = Some (service_task quote now kind verb lane
        (if i = 0 then prev_list prev else [ids ! (i - 1)]) (ids ! i)
        (if Suc i < length names then [ids ! Suc i] else []) (names ! i))) \<and>
    (\<forall>k. k \<notin> set ids \<longrightarrow> fmlookup (tasks s') k =
        fmlookup (if names = [] then tasks s else halt_also prev (hd ids) (tasks s)) k)"
  using assms
proof (induction names arbitrary: prev s)
  case Nil
  then show ?case by simp
next
  case (Cons name names)
  define tid where "tid = itoa (Suc (last_task_id s))"
  define T where "T = service_task quote now kind verb lane (prev_list prev) tid [] name"
  from new_service_task_spec [OF Cons.prems(1,2), where quote = quote and now = now and kind = kind and verb = verb and lane = lane and name = name] obtain s1 where
    s1: "new_service_task quote now kind verb lane prev name s = Inr (tid, s1)"
      "last_task_id s1 = Suc (last_task_id s)" "last_lane_id s1 = last_lane_id s"
      "tasks s1 = fmupd tid T (halt_also prev tid (tasks s))"
    unfolding T_def tid_def by blast
  have halt_dom: "fmlookup (halt_also prev tid (tasks s)) k = None" if "fmlookup (tasks s) k = None" for k
    using that by (cases prev) (auto simp: halt_also_def split: option.split)
  have f1: "fresh_ids s1" using Cons.prems(1) halt_dom
    by (auto simp: fresh_ids_def s1 tid_def)
  have "fmlookup (tasks s1) tid \<noteq> None" by (simp add: s1)
  with Cons.IH [OF f1, where prev = "Some tid"] obtain s2 ids where
    s2: "lane_tasks quote now kind verb lane (Some tid) names s1 = Inr (ids, s2)"
      "ids = map itoa [Suc (last_task_id s1) ..< Suc (last_task_id s1 + length names)]"
      "last_task_id s2 = last_task_id s1 + length names" "last_lane_id s2 = last_lane_id s1" "fresh_ids s2"
    and these: "\<And>i. i < length names \<Longrightarrow> fmlookup (tasks s2) (ids ! i) = Some (service_task quote now kind verb lane
        (if i = 0 then prev_list (Some tid) else [ids ! (i - 1)]) (ids ! i)
        (if Suc i < length names then [ids ! Suc i] else []) (names ! i))"
    and others: "\<And>k. k \<notin> set ids \<Longrightarrow> fmlookup (tasks s2) k =
        fmlookup (if names = [] then tasks s1 else halt_also (Some tid) (hd ids) (tasks s1)) k"
    by auto
  have tid_new: "tid \<notin> set ids" by (auto simp: s2(2) s1(2) tid_def)
  have len: "length ids = length names" by (simp add: s2(2) del: upt_Suc)
  have all: "tid # ids = map itoa [Suc (last_task_id s) ..< Suc (last_task_id s + length (name # names))]"
    unfolding s2(2) s1(2) tid_def list.size by (rule ids_Cons)
  have first: "fmlookup (tasks s2) tid = Some (service_task quote now kind verb lane (prev_list prev) tid
      (if names = [] then [] else [ids ! 0]) name)"
  proof (cases "names = []")
    case True
    with others [OF tid_new] show ?thesis by (simp add: s1(4) T_def)
  next
    case False
    with len have "hd ids = ids ! 0" by (cases ids) auto
    moreover have "fmlookup (tasks s1) tid = Some T" by (simp add: s1(4))
    ultimately show ?thesis using others [OF tid_new] False halt_also_this
      by (simp add: T_def service_task_def add_once_def)
  qed
  show ?case
  proof (intro exI conjI allI impI)
    show "lane_tasks quote now kind verb lane prev (name # names) s = Inr (tid # ids, s2)" by (simp add: s1(1) s2(1))
    show "fmlookup (tasks s2) ((tid # ids) ! i) = Some (service_task quote now kind verb lane
        (if i = 0 then prev_list prev else [(tid # ids) ! (i - 1)]) ((tid # ids) ! i)
        (if Suc i < length (name # names) then [(tid # ids) ! Suc i] else []) ((name # names) ! i))"
      if "i < length (name # names)" for i
    proof (cases i)
      case 0
      with first show ?thesis by auto
    next
      case (Suc j)
      with these [of j] that show ?thesis by (auto simp: prev_list_def nth_Cons' split: if_splits)
    qed
    show "fmlookup (tasks s2) k = fmlookup (if name # names = [] then tasks s else halt_also prev (hd (tid # ids)) (tasks s)) k"
      if "k \<notin> set (tid # ids)" for k
    proof -
      from that have "fmlookup (tasks s2) k = fmlookup (tasks s1) k"
        using others [of k] halt_also_other [of "Some tid" k] by auto
      moreover have "k \<noteq> tid" using that by simp
      ultimately show ?thesis by (simp add: s1(4))
    qed
  qed (use all s1 s2 in simp_all)
qed

text \<open>
  What \<open>ids\<close> and \<open>s'\<close> have to do with the lanes: \<open>ids\<close> is the task of every service of every lane.
\<close>

definition tasks_of_lanes ::
    "(string \<Rightarrow> string) \<Rightarrow> time \<Rightarrow> string \<Rightarrow> string \<Rightarrow> int \<Rightarrow> string list list \<Rightarrow> string list list \<Rightarrow> st \<Rightarrow> bool" where
  "tasks_of_lanes quote now kind verb first lanes ids s' \<longleftrightarrow>
     map length ids = map length lanes \<and> distinct (concat ids) \<and>
     (\<forall>j < length lanes. \<forall>i < length (lanes ! j).
        fmlookup (tasks s') (ids ! j ! i) = Some (service_task quote now kind verb (first + int j)
          (if i = 0 then [] else [ids ! j ! (i - 1)]) (ids ! j ! i)
          (if Suc i < length (lanes ! j) then [ids ! j ! Suc i] else []) (lanes ! j ! i)))"

lemma service_tasks_spec:
  assumes "fresh_ids s"
  shows "\<exists>s' ids. service_tasks quote now kind verb lanes s = Inr (concat ids, s') \<and>
    tasks_of_lanes quote now kind verb (int (Suc (last_lane_id s))) lanes ids s' \<and>
    concat ids = map itoa [Suc (last_task_id s) ..< Suc (last_task_id s + length (concat lanes))] \<and>
    (\<forall>k. k \<notin> set (concat ids) \<longrightarrow> fmlookup (tasks s') k = fmlookup (tasks s) k)"
  using assms
proof (induction lanes arbitrary: s)
  case Nil
  then show ?case by (intro exI [of _ s] exI [of _ "[]"]) (simp add: tasks_of_lanes_def)
next
  case (Cons names lanes)
  define s0 where "s0 = snd (NewLane s)"
  have s0: "NewLane s = (int (Suc (last_lane_id s)), s0)" "tasks s0 = tasks s" "last_task_id s0 = last_task_id s"
    "last_lane_id s0 = Suc (last_lane_id s)"
    by (simp_all add: s0_def NewLane_def)
  have f0: "fresh_ids s0" using Cons.prems by (simp add: fresh_ids_def s0)
  obtain s1 ids1 where
    s1: "lane_tasks quote now kind verb (int (Suc (last_lane_id s))) None names s0 = Inr (ids1, s1)"
      "ids1 = map itoa [Suc (last_task_id s) ..< Suc (last_task_id s + length names)]"
      "last_task_id s1 = last_task_id s + length names" "last_lane_id s1 = Suc (last_lane_id s)" "fresh_ids s1"
    and these: "\<And>i. i < length names \<Longrightarrow> fmlookup (tasks s1) (ids1 ! i) =
      Some (service_task quote now kind verb (int (Suc (last_lane_id s)))
        (if i = 0 then [] else [ids1 ! (i - 1)]) (ids1 ! i)
        (if Suc i < length names then [ids1 ! Suc i] else []) (names ! i))"
    and others1: "\<And>k. k \<notin> set ids1 \<Longrightarrow> fmlookup (tasks s1) k = fmlookup (tasks s) k"
    using lane_tasks_spec [OF f0, where prev = None and quote = quote and now = now and kind = kind and verb = verb
        and lane = "int (Suc (last_lane_id s))" and names = names]
    by (auto simp: s0 prev_list_def halt_also_def)
  obtain s2 ids where
    s2: "service_tasks quote now kind verb lanes s1 = Inr (concat ids, s2)"
      "tasks_of_lanes quote now kind verb (int (Suc (last_lane_id s1))) lanes ids s2"
      "concat ids = map itoa [Suc (last_task_id s1) ..< Suc (last_task_id s1 + length (concat lanes))]"
    and others2: "\<And>k. k \<notin> set (concat ids) \<Longrightarrow> fmlookup (tasks s2) k = fmlookup (tasks s1) k"
    using Cons.IH [OF s1(5)] by blast
  have apart: "set ids1 \<inter> set (concat ids) = {}"
    unfolding s1(2) s2(3) s1(3) set_map set_upt by auto
  have len: "length ids1 = length names" by (simp add: s1(2) del: upt_Suc)
  have joined: "ids1 @ concat ids = map itoa [Suc (last_task_id s) ..< Suc (last_task_id s + length (concat (names # lanes)))]"
    unfolding s2(3) s1(2,3) map_append [symmetric]
    unfolding map_append ids_append by simp
  have "tasks_of_lanes quote now kind verb (int (Suc (last_lane_id s))) (names # lanes) (ids1 # ids) s2"
    unfolding tasks_of_lanes_def
  proof (intro conjI allI impI)
    show "map length (ids1 # ids) = map length (names # lanes)" using s2(2) len by (simp add: tasks_of_lanes_def)
    have "inj itoa" by (simp add: inj_def)
    then show "distinct (concat (ids1 # ids))"
      unfolding concat.simps joined by (simp add: distinct_map inj_on_def del: upt_Suc)
    fix j i assume j: "j < length (names # lanes)" "i < length ((names # lanes) ! j)"
    show "fmlookup (tasks s2) ((ids1 # ids) ! j ! i) =
        Some (service_task quote now kind verb (int (Suc (last_lane_id s)) + int j)
          (if i = 0 then [] else [(ids1 # ids) ! j ! (i - 1)]) ((ids1 # ids) ! j ! i)
          (if Suc i < length ((names # lanes) ! j) then [(ids1 # ids) ! j ! Suc i] else []) ((names # lanes) ! j ! i))"
    proof (cases j)
      case 0
      with j len have "ids1 ! i \<in> set ids1" by simp
      with apart have "ids1 ! i \<notin> set (concat ids)" by blast
      with 0 j others2 these show ?thesis by simp
    next
      case (Suc m)
      with j s2(2) s1(4) show ?thesis by (auto simp: tasks_of_lanes_def algebra_simps)
    qed
  qed
  moreover have "service_tasks quote now kind verb (names # lanes) s = Inr (concat (ids1 # ids), s2)"
    using s1(1) s2(1) by (simp add: s0(1))
  moreover have "fmlookup (tasks s2) k = fmlookup (tasks s) k" if "k \<notin> set (concat (ids1 # ids))" for k
    using that others1 others2 by simp
  ultimately show ?case using joined by (intro exI [of _ s2] exI [of _ "ids1 # ids"]) simp
qed

subsection \<open>Services wait for what they come after\<close>

definition waits_on :: "st \<Rightarrow> (string \<times> string) set" where
  "waits_on s = {(a, b). \<exists>t. fmlookup (tasks s) b = Some t \<and> a \<in> set (wait_tasks t)}"

lemma lane_chain:
  assumes t: "tasks_of_lanes quote now kind verb first lanes ids s" and j: "j < length lanes"
    and ab: "a < b" "b < length (lanes ! j)"
  shows "(ids ! j ! a, ids ! j ! b) \<in> (waits_on s)\<^sup>+"
proof -
  have link: "(ids ! j ! i, ids ! j ! Suc i) \<in> waits_on s" if "Suc i < length (lanes ! j)" for i
    using t j that by (force simp: tasks_of_lanes_def waits_on_def service_task_def)
  from ab show ?thesis
  proof (induction b)
    case (Suc b)
    have step: "(ids ! j ! b, ids ! j ! Suc b) \<in> waits_on s" using link Suc.prems(2) .
    show ?case
    proof (cases "a = b")
      case True
      with step show ?thesis by auto
    next
      case False
      with Suc have "(ids ! j ! a, ids ! j ! b) \<in> (waits_on s)\<^sup>+" by simp
      then show ?thesis using step by (rule trancl_into_trancl)
    qed
  qed simp
qed

lemma subseq_sorted_wrt: "subseq xs ys \<Longrightarrow> sorted_wrt R ys \<Longrightarrow> sorted_wrt R xs"
  by (induction rule: list_emb.induct) (auto dest: list_emb_set)

lemma subseq_distinct: "subseq xs ys \<Longrightarrow> distinct ys \<Longrightarrow> distinct xs"
  by (induction rule: list_emb.induct) (auto dest: list_emb_set)

lemma subseq_index:
  assumes "subseq lane (xs @ a # ys @ b # zs)" "distinct (xs @ a # ys @ b # zs)"
    and "i < length lane" "k < length lane" "lane ! i = a" "lane ! k = b"
  shows "i < k"
proof (rule ccontr)
  assume "\<not> i < k"
  have "a \<noteq> b" using assms(2) by auto
  with \<open>\<not> i < k\<close> assms(5,6) have ki: "k < i" by (metis nat_neq_iff)
  have "sorted_wrt (\<lambda>x y. \<not> (x = b \<and> y = a)) (xs @ a # ys @ b # zs)"
    using assms(2) by (auto simp: sorted_wrt_append intro!: sorted_wrt_mono_rel [OF _ sorted_wrt_true])
  from subseq_sorted_wrt [OF assms(1) this] ki assms(3,5,6) show False
    by (auto simp: sorted_wrt_iff_nth_less)
qed

lemma start_waits:
  assumes "plan_named p" "reordering iter" "StartOrder p iter names = Inr lanes" "fresh_ids s"
  shows "\<exists>ids s'. Start quote now lanes s = Inr (NewTaskSet (concat ids), s') \<and>
    tasks_of_lanes quote now ''start'' ''Start service '' (int (Suc (last_lane_id s))) lanes ids s' \<and>
    (\<forall>lane a b. lane < length lanes \<longrightarrow> a < length (lanes ! lane) \<longrightarrow> b < length (lanes ! lane) \<longrightarrow> a \<noteq> b \<longrightarrow>
       must_precede False (plan_services p) (lanes ! lane ! a) (lanes ! lane ! b) \<longrightarrow>
       (ids ! lane ! a, ids ! lane ! b) \<in> (waits_on s')\<^sup>+)"
proof -
  from service_tasks_spec [OF assms(4), of quote now "''start''" "''Start service ''" lanes]
  obtain s' ids where s': "service_tasks quote now ''start'' ''Start service '' lanes s = Inr (concat ids, s')"
    and t: "tasks_of_lanes quote now ''start'' ''Start service '' (int (Suc (last_lane_id s))) lanes ids s'" by blast
  from assms(3) obtain ordered where o: "order (plan_services p) iter names False = Inr ordered"
    by (auto simp: StartOrder_def and_then_Inr_iff)
  from lanes_of_order [OF assms(1,2) o] assms(3)
  have l: "mset (concat lanes) = mset ordered" "\<And>l. l \<in> set lanes \<Longrightarrow> subseq l ordered" by auto
  from order_contents [OF o assms(2)]
  have d: "distinct ordered" and before: "\<And>a b. a \<in> set ordered \<Longrightarrow> b \<in> set ordered \<Longrightarrow>
      must_precede False (plan_services p) a b \<Longrightarrow> a \<noteq> b \<Longrightarrow> \<exists>xs ys zs. ordered = xs @ a # ys @ b # zs" by blast+
  have "(ids ! lane ! a, ids ! lane ! b) \<in> (waits_on s')\<^sup>+"
    if j: "lane < length lanes" and ab: "a < length (lanes ! lane)" "b < length (lanes ! lane)" "a \<noteq> b"
      and mp: "must_precede False (plan_services p) (lanes ! lane ! a) (lanes ! lane ! b)" for lane a b
  proof -
    let ?l = "lanes ! lane"
    from j l(2) have sub: "subseq ?l ordered" by simp
    then have dl: "distinct ?l" using d by (rule subseq_distinct)
    have mem: "?l ! i \<in> set ordered" if "i < length ?l" for i
      using list_emb_set [OF sub nth_mem [OF that]] by auto
    from dl ab have "?l ! a \<noteq> ?l ! b" by (simp add: nth_eq_iff_index_eq)
    with before mem ab mp obtain xs ys zs where e: "ordered = xs @ ?l ! a # ys @ ?l ! b # zs" by blast
    from subseq_index [OF sub [unfolded e] d [unfolded e] ab(1,2)] have "a < b" by simp
    then show ?thesis by (rule lane_chain [OF t j _ ab(2)])
  qed
  then show ?thesis using t s' by (intro exI [of _ ids] exI [of _ s']) (simp add: Start_def)
qed

lemma request_of_service_task:
  "TaskServiceRequest s (service_task quote now kind verb lane prev tid follow name) = Inr name"
  by (simp add: TaskServiceRequest_def get_request_def service_task_def service_request_def data_has_def data_get_def)

subsection \<open>Properties\<close>

text \<open>
  \<open>Start\<close> and \<open>Stop\<close> create, for every service of every lane, one new task that holds the request for
  that service, is in a lane of its own list only, waits for the task before it in the list and for
  nothing else, and is waited for by the task after it only; all other tasks stay as they are.
\<close>
lemma Start_Stop_tasks:
  assumes "fresh_ids s"
  shows "\<exists>ids s'.
    (if stop then Stop quote now lanes s else Start quote now lanes s) = Inr (NewTaskSet (concat ids), s') \<and>
    map length ids = map length lanes \<and> distinct (concat ids) \<and>
    (\<forall>k. k \<notin> set (concat ids) \<longrightarrow> fmlookup (tasks s') k = fmlookup (tasks s) k) \<and>
    (\<forall>j < length lanes. \<forall>i < length (lanes ! j). fmlookup (tasks s) (ids ! j ! i) = None \<and>
       (\<exists>t. fmlookup (tasks s') (ids ! j ! i) = Some t \<and> TaskServiceRequest s' t = Inr (lanes ! j ! i) \<and>
          task_kind t = (if stop then ''stop'' else ''start'') \<and>
          task_lanes t = [int (last_lane_id s + 1 + j)] \<and>
          wait_tasks t = (if i = 0 then [] else [ids ! j ! (i - 1)]) \<and>
          halt_tasks t = (if Suc i < length (lanes ! j) then [ids ! j ! Suc i] else [])))"
proof -
  let ?k = "if stop then ''stop'' else ''start''" and ?v = "if stop then ''Stop service '' else ''Start service ''"
  from service_tasks_spec [OF assms, of quote now ?k ?v lanes] obtain s' ids where
    s': "service_tasks quote now ?k ?v lanes s = Inr (concat ids, s')"
    and t: "tasks_of_lanes quote now ?k ?v (int (Suc (last_lane_id s))) lanes ids s'"
    and c: "concat ids = map itoa [Suc (last_task_id s) ..< Suc (last_task_id s + length (concat lanes))]"
    and other: "\<forall>k. k \<notin> set (concat ids) \<longrightarrow> fmlookup (tasks s') k = fmlookup (tasks s) k" by blast
  have new: "fmlookup (tasks s) k = None" if "k \<in> set (concat ids)" for k
    using that assms unfolding c set_map set_upt by (auto simp: fresh_ids_def)
  have mem: "ids ! j ! i \<in> set (concat ids)" if "j < length lanes" "i < length (lanes ! j)" for i j
  proof -
    from t have l: "map length ids = map length lanes" by (simp add: tasks_of_lanes_def)
    then have "length ids = length lanes" by (metis length_map)
    with that l have "j < length ids" "i < length (ids ! j)" by (simp_all, metis nth_map)
    then have "ids ! j \<in> set ids" "ids ! j ! i \<in> set (ids ! j)" by simp_all
    then show ?thesis by auto
  qed
  have "(if stop then Stop quote now lanes s else Start quote now lanes s) = Inr (NewTaskSet (concat ids), s')"
    using s' by (cases stop) (simp_all add: Start_def Stop_def)
  moreover have "map length ids = map length lanes" "distinct (concat ids)" using t by (simp_all add: tasks_of_lanes_def)
  moreover have "fmlookup (tasks s) (ids ! j ! i) = None \<and>
       (\<exists>t. fmlookup (tasks s') (ids ! j ! i) = Some t \<and> TaskServiceRequest s' t = Inr (lanes ! j ! i) \<and>
          task_kind t = ?k \<and> task_lanes t = [int (last_lane_id s + 1 + j)] \<and>
          wait_tasks t = (if i = 0 then [] else [ids ! j ! (i - 1)]) \<and>
          halt_tasks t = (if Suc i < length (lanes ! j) then [ids ! j ! Suc i] else []))"
    if "j < length lanes" "i < length (lanes ! j)" for i j
  proof -
    let ?t = "service_task quote now ?k ?v (int (Suc (last_lane_id s)) + int j)
          (if i = 0 then [] else [ids ! j ! (i - 1)]) (ids ! j ! i)
          (if Suc i < length (lanes ! j) then [ids ! j ! Suc i] else []) (lanes ! j ! i)"
    have "fmlookup (tasks s') (ids ! j ! i) = Some ?t" using t that by (simp add: tasks_of_lanes_def)
    moreover have "TaskServiceRequest s' ?t = Inr (lanes ! j ! i)" by (rule request_of_service_task)
    moreover have "task_kind ?t = ?k" "task_lanes ?t = [int (last_lane_id s + 1 + j)]"
      "wait_tasks ?t = (if i = 0 then [] else [ids ! j ! (i - 1)])"
      "halt_tasks ?t = (if Suc i < length (lanes ! j) then [ids ! j ! Suc i] else [])"
      by (simp_all add: service_task_def newTask_def)
    ultimately show ?thesis using new [OF mem [OF that]] by blast
  qed
  ultimately show ?thesis using other by blast
qed



end
