(* ===== verification/ServiceManager.thy ===== *)
theory ServiceManager
  imports ServiceLife ServiceTasks
begin

text \<open>
  The service manager (\<open>servstate/manager.go\<close>, and \<open>doStart\<close>, \<open>doStop\<close> of \<open>handlers.go\<close> up to their
  \<open>select\<close>).  The map of services is an association list in the order Go ranges over it.  The lemmas
  show what \<open>Prune\<close> removes, what \<open>Replan\<close> restarts, and which services are stopped at shutdown.
\<close>

record service_manager =
  sm_plan :: "plan option"
  sm_workloads :: "workload go_map option"
  sm_services :: "service_world go_map"

datatype manager_fault = InvalidPlanState | NilWorkloads | ServiceFault svc_fault | StateFault fault

definition NewServiceManager :: service_manager where
  "NewServiceManager = \<lparr>sm_plan = None, sm_workloads = None, sm_services = []\<rparr>"

definition PlanChanged :: "plan \<Rightarrow> workload go_map option \<Rightarrow> service_manager \<Rightarrow> service_manager" where
  "PlanChanged p ws m = m\<lparr>sm_plan := Some p, sm_workloads := ws\<rparr>"

definition getPlan :: "service_manager \<Rightarrow> manager_fault + plan" where
  "getPlan m = (case sm_plan m of None \<Rightarrow> Inl InvalidPlanState | Some p \<Rightarrow> Inr p)"

definition lift_fault :: "('e \<Rightarrow> 'f) \<Rightarrow> 'e + 'a \<Rightarrow> 'f + 'a" where
  "lift_fault f r = (case r of Inl e \<Rightarrow> Inl (f e) | Inr a \<Rightarrow> Inr a)"

subsection \<open>What the manager reports\<close>

record service_info =
  si_name :: string
  si_startup :: string
  si_current :: service_status
  si_since :: time

definition service_info_of :: "service_manager \<Rightarrow> string \<times> service \<Rightarrow> service_info" where
  "service_info_of m nc =
     (let (name, config) = nc in
      \<lparr>si_name = name, si_startup = (if svc_startup config = ''enabled'' then ''enabled'' else ''disabled''),
       si_current = (case map_of (sm_services m) name of
           None \<Rightarrow> StatusInactive | Some s \<Rightarrow> stateToStatus (sd_state s)),
       si_since = (case map_of (sm_services m) name of None \<Rightarrow> 0 | Some s \<Rightarrow> sd_currentSince s)\<rparr>)"

definition Services :: "string list \<Rightarrow> service_manager \<Rightarrow> manager_fault + service_info list" where
  "Services names m =
     and_then (getPlan m) (\<lambda>p.
       Inr (sort_key si_name (map (service_info_of m)
         (filter (\<lambda>(name, config). names = [] \<or> name \<in> set names) (plan_services p)))))"

definition StopTimeout :: "service_manager \<Rightarrow> duration" where
  "StopTimeout m =
     fold (\<lambda>(name, s) d.
         if sd_state s \<in> {StateStarting, StateRunning, StateTerminating} \<and> d < killDelay (sd_config s)
         then killDelay (sd_config s) else d)
       (sm_services m) killDelayDefault
     + failDelay + 100 * millisecond"

definition DefaultServiceNames ::
    "(string list \<Rightarrow> string list) \<Rightarrow> service_manager \<Rightarrow> manager_fault + plan_error + string list" where
  "DefaultServiceNames iter m =
     and_then (getPlan m) (\<lambda>p.
       Inr (and_then (StartOrder p iter (map fst (filter (\<lambda>(n, s). svc_startup s = ''enabled'') (plan_services p))))
         (\<lambda>lanes. Inr (concat lanes))))"

subsection \<open>Replan\<close>

text \<open>One round of the first loop of \<open>Replan\<close>: the service afterwards, and whether it needs a restart.\<close>

definition replan_service ::
    "workload go_map option \<Rightarrow> plan \<Rightarrow> string \<Rightarrow> service_world \<Rightarrow> service_world \<times> bool" where
  "replan_service ws p name s =
     (case map_of (plan_services p) name of
        None \<Rightarrow> (s, True)
      | Some config \<Rightarrow>
          (let wl = (case ws of None \<Rightarrow> None | Some es \<Rightarrow> map_of es (svc_workload (sd_config s))) in
           if config = sd_config s \<and> (wl = None \<or> wl = sd_workload s) then (s, False)
           else (s\<lparr>sd_config := config, sd_workload := or_opt (sd_workload s) wl\<rparr>, True)))"

definition restarted :: "service_manager \<Rightarrow> plan \<Rightarrow> string list" where
  "restarted m p = map fst (filter (\<lambda>(n, s). snd (replan_service (sm_workloads m) p n s)) (sm_services m))"

definition replanned :: "service_manager \<Rightarrow> plan \<Rightarrow> service_manager" where
  "replanned m p =
     m\<lparr>sm_services := map (\<lambda>(n, s). (n, fst (replan_service (sm_workloads m) p n s))) (sm_services m)\<rparr>"

definition Replan ::
    "(string list \<Rightarrow> string list) \<Rightarrow> service_manager \<Rightarrow>
     manager_fault + (plan_error + string list list \<times> string list list) \<times> service_manager" where
  "Replan iter m =
     and_then (getPlan m) (\<lambda>p.
       (let stop = restarted m p;
            start = map fst (filter (\<lambda>(n, c). n \<in> set stop \<or> svc_startup c = ''enabled'') (plan_services p))
        in Inr (and_then (StopOrder p iter stop) (\<lambda>stopLanes.
             and_then (StartOrder p iter start) (\<lambda>startLanes. Inr (stopLanes, startLanes))),
           replanned m p)))"

subsection \<open>Signals, failed checks, pruning\<close>

fun SendSignal ::
    "(string \<Rightarrow> bool) \<Rightarrow> (string \<Rightarrow> err option) \<Rightarrow> string list \<Rightarrow> string \<Rightarrow> service_manager \<Rightarrow>
     manager_fault + err list \<times> service_manager" where
  "SendSignal valid failed [] signal m = Inr ([], m)"
| "SendSignal valid failed (name # names) signal m =
     (case map_of (sm_services m) name of
        None \<Rightarrow>
          and_then (SendSignal valid failed names signal m) (\<lambda>(es, m1).
            Inr ((''cannot send signal to %q: service is not running'', [name]) # es, m1))
      | Some s \<Rightarrow>
          and_then (lift_fault ServiceFault (sendSignal valid (failed name) signal s)) (\<lambda>(e, s1).
            and_then (SendSignal valid failed names signal (m\<lparr>sm_services := AList.update name s1 (sm_services m)\<rparr>))
              (\<lambda>(es, m1).
                Inr (case e of
                    None \<Rightarrow> es
                  | Some (f, args) \<Rightarrow> (''cannot send signal to %q: '' @ f, name # args) # es, m1))))"

definition check_service ::
    "(duration \<Rightarrow> rat \<Rightarrow> duration) \<Rightarrow> (string \<Rightarrow> duration) \<Rightarrow> string \<Rightarrow> string \<times> service_world \<Rightarrow>
     manager_fault + string \<times> service_world" where
  "check_service scale jitter check ns =
     (let (n, s) = ns in
      case fmlookup (svc_on_check_failure (sd_config s)) check of
        None \<Rightarrow> Inr (n, s)
      | Some action \<Rightarrow>
          and_then (lift_fault ServiceFault (checkFailed scale (jitter n) action s)) (\<lambda>s1. Inr (n, s1)))"

definition CheckFailed ::
    "(duration \<Rightarrow> rat \<Rightarrow> duration) \<Rightarrow> (string \<Rightarrow> duration) \<Rightarrow> string \<Rightarrow> service_manager \<Rightarrow> manager_fault + service_manager" where
  "CheckFailed scale jitter check m =
     and_then (map_try (check_service scale jitter check) (sm_services m)) (\<lambda>ss. Inr (m\<lparr>sm_services := ss\<rparr>))"

definition inactive :: "service_world \<Rightarrow> bool" where
  "inactive s \<longleftrightarrow> stateToStatus (sd_state s) = StatusInactive"

text \<open>The services removed by number are found by the name in their configuration.\<close>

definition PruneServices :: "time \<Rightarrow> duration \<Rightarrow> nat \<Rightarrow> service_manager \<Rightarrow> service_manager" where
  "PruneServices now pruneWait maxServiceData m =
     (let kept = filter (\<lambda>(n, s). \<not> (inactive s \<and> sd_currentSince s < now - pruneWait)) (sm_services m) in
      if maxServiceData < length kept then
        (let ordered = sort_key sd_currentSince (filter inactive (map snd kept));
             excess = length ordered - maxServiceData;
             gone = map (\<lambda>s. svc_name (sd_config s)) (take excess ordered)
         in m\<lparr>sm_services := filter (\<lambda>(n, s). n \<notin> set gone) kept\<rparr>)
      else m\<lparr>sm_services := kept\<rparr>)"

subsection \<open>Shutdown\<close>

definition not_stopped :: "service_manager \<Rightarrow> string \<Rightarrow> bool" where
  "not_stopped m name \<longleftrightarrow>
     (case map_of (sm_services m) name of
        None \<Rightarrow> False | Some s \<Rightarrow> sd_state s \<in> {StateStarting, StateRunning, StateBackoff})"

definition servicesToStop ::
    "(string list \<Rightarrow> string list) \<Rightarrow> service_manager \<Rightarrow> manager_fault + plan_error + string list list" where
  "servicesToStop iter m =
     and_then (getPlan m) (\<lambda>p.
       Inr (and_then (StopOrder p iter (map fst (plan_services p))) (\<lambda>stop.
         Inr (filter (\<lambda>l. l \<noteq> []) (map (filter (not_stopped m)) stop)))))"

definition StopRunning ::
    "(string \<Rightarrow> string) \<Rightarrow> time \<Rightarrow> (string list \<Rightarrow> string list) \<Rightarrow> service_manager \<Rightarrow> st \<Rightarrow>
     manager_fault + plan_error + task_set option \<times> st" where
  "StopRunning quote now iter m s =
     and_then (servicesToStop iter m) (\<lambda>r.
       case r of
         Inl e \<Rightarrow> Inr (Inl e)
       | Inr lanes \<Rightarrow>
           if lanes = [] then Inr (Inr (None, s))
           else and_then (lift_fault StateFault (Stop quote now lanes s)) (\<lambda>(ts, s1). Inr (Inr (Some ts, s1))))"

subsection \<open>The handlers\<close>

definition task_started :: "task \<Rightarrow> bool" where
  "task_started t \<longleftrightarrow> data_get (task_data t) ''started'' = Some (JBool True)"

definition with_service :: "string \<Rightarrow> service_world \<Rightarrow> service_manager \<Rightarrow> service_manager" where
  "with_service name s m = m\<lparr>sm_services := AList.update name s (sm_services m)\<rparr>"

definition workload_of :: "service_manager \<Rightarrow> service \<Rightarrow> manager_fault + err + workload option" where
  "workload_of m config =
     (if svc_workload config = [] then Inr (Inr None)
      else case sm_workloads m of
        None \<Rightarrow> Inl NilWorkloads
      | Some ws \<Rightarrow>
          (case map_of ws (svc_workload config) of
             None \<Rightarrow> Inr (Inl (''internal error: cannot find workload %q for service %q in plan'',
                 [svc_workload config, svc_name config]))
           | Some w \<Rightarrow> Inr (Inr (Some w))))"

text \<open>
  \<open>doStart\<close> of the task \<open>tid\<close> up to its \<open>select\<close>: its result, the manager and the state.
\<close>

definition doStart ::
    "svc_env \<Rightarrow> string + nat \<Rightarrow> time \<Rightarrow> string \<Rightarrow> service_manager \<Rightarrow> st \<Rightarrow>
     manager_fault + task_result \<times> service_manager \<times> st" where
  "doStart env out now tid m s =
     and_then (lift_fault StateFault (need_task s tid)) (\<lambda>t.
       if task_started t then Inr (TaskFails (''service already started, not retrying'', []), m, s)
       else case TaskServiceRequest s t of
         Inl e \<Rightarrow> Inr (TaskFails e, m, s)
       | Inr name \<Rightarrow>
           and_then (getPlan m) (\<lambda>p.
             case map_of (plan_services p) name of
               None \<Rightarrow> Inr (TaskFails (''cannot find service %q in plan'', [name]), m, s)
             | Some config \<Rightarrow>
                 and_then (workload_of m config) (\<lambda>r.
                   case r of
                     Inl e \<Rightarrow> Inr (TaskFails e, m, s)
                   | Inr wl \<Rightarrow>
                       (let s1 = put_task tid (t\<lparr>task_data := data_set ''started'' (Some (JBool True)) (task_data t)\<rparr>) s
                        in and_then (lift_fault ServiceFault
                               (start_service env out now config wl (map_of (sm_services m) (svc_name config))))
                             (\<lambda>(res, sw).
                               Inr (res, with_service (svc_name config) sw m,
                                    case res of TaskLogs msg \<Rightarrow> s | _ \<Rightarrow> s1))))))"

definition doStop :: "string \<Rightarrow> service_manager \<Rightarrow> st \<Rightarrow> manager_fault + task_result \<times> service_manager" where
  "doStop tid m s =
     and_then (lift_fault StateFault (need_task s tid)) (\<lambda>t.
       case TaskServiceRequest s t of
         Inl e \<Rightarrow> Inr (TaskFails e, m)
       | Inr name \<Rightarrow>
           (case map_of (sm_services m) name of
              None \<Rightarrow> Inr (TaskLogs (''Service %q has never been started.'', [name]), m)
            | Some sw \<Rightarrow>
                and_then (lift_fault ServiceFault (stop_service name sw)) (\<lambda>(res, sw1).
                  Inr (res, with_service name sw1 m))))"

subsection \<open>What pruning removes\<close>

definition named_services :: "service_world go_map \<Rightarrow> bool" where
  "named_services ss \<longleftrightarrow> distinct (map fst ss) \<and> (\<forall>(n, s) \<in> set ss. svc_name (sd_config s) = n)"

lemma sorted_take_drop:
  assumes "sorted (map f xs)" "x \<in> set (take k xs)" "y \<in> set (drop k xs)"
  shows "f x \<le> f y"
proof -
  have "sorted (map f (take k xs @ drop k xs))" using assms(1) by simp
  then show ?thesis using assms(2,3) unfolding map_append sorted_append by auto
qed

lemma PruneServices_spec:
  fixes now pruneWait m and limit :: nat
  assumes "named_services (sm_services m)"
  defines "m' \<equiv> PruneServices now pruneWait limit m"
  shows "set (sm_services m') \<subseteq> set (sm_services m)"
    "\<And>n s. (n, s) \<in> set (sm_services m) \<Longrightarrow> \<not> inactive s \<Longrightarrow> (n, s) \<in> set (sm_services m')"
    "length (filter (\<lambda>(n, s). inactive s) (sm_services m')) \<le> limit"
    "\<And>n s. (n, s) \<in> set (sm_services m') \<Longrightarrow> inactive s \<Longrightarrow> now - pruneWait \<le> sd_currentSince s"
    "\<And>n s n' s'. (n, s) \<in> set (sm_services m) \<Longrightarrow> (n, s) \<notin> set (sm_services m') \<Longrightarrow>
       (n', s') \<in> set (sm_services m') \<Longrightarrow> inactive s' \<Longrightarrow> sd_currentSince s \<le> sd_currentSince s'"
proof -
  let ?nm = "\<lambda>s. svc_name (sd_config s)"
  define kept where "kept = filter (\<lambda>(n, s). \<not> (inactive s \<and> sd_currentSince s < now - pruneWait)) (sm_services m)"
  define ordered where "ordered = sort_key sd_currentSince (filter inactive (map snd kept))"
  define e where "e = length ordered - limit"
  define gone where "gone = map ?nm (take e ordered)"
  have m': "sm_services m' = (if limit < length kept then filter (\<lambda>(n, s). n \<notin> set gone) kept else kept)"
    unfolding m'_def PruneServices_def Let_def kept_def [symmetric] ordered_def [symmetric] e_def [symmetric]
      gone_def [symmetric] by simp
  have sub: "set kept \<subseteq> set (sm_services m)" unfolding kept_def by auto
  have nm: "?nm s = n" if "(n, s) \<in> set kept" for n s
    using that sub assms(1) unfolding named_services_def by blast
  have dkept: "distinct (map fst kept)"
    using assms(1) by (auto simp: kept_def named_services_def intro: distinct_map_filter)
  have same: "map ?nm (map snd xs) = map fst xs" if "set xs \<subseteq> set kept" for xs
    unfolding map_map using that nm by (intro map_cong) auto
  have oset: "set ordered = {s. inactive s \<and> (\<exists>n. (n, s) \<in> set kept)}" unfolding ordered_def by force
  have few: "e = 0" if "\<not> limit < length kept"
  proof -
    have "length ordered \<le> length kept" unfolding ordered_def length_sort
      by (metis length_filter_le length_map)
    with that show ?thesis by (simp add: e_def)
  qed
  have stays: "(n, s) \<in> set (sm_services m') \<longleftrightarrow> (n, s) \<in> set kept \<and> n \<notin> set gone" for n s
    using few unfolding m' gone_def by auto
  show "set (sm_services m') \<subseteq> set (sm_services m)" using sub stays by auto
  show "(n, s) \<in> set (sm_services m')" if "(n, s) \<in> set (sm_services m)" "\<not> inactive s" for n s
  proof -
    have k: "(n, s) \<in> set kept" using that by (simp add: kept_def)
    have "n \<notin> set gone"
    proof
      assume "n \<in> set gone"
      then obtain u where u: "u \<in> set (take e ordered)" "?nm u = n" unfolding gone_def by auto
      from in_set_takeD [OF u(1)] obtain k' where k': "(k', u) \<in> set kept" "inactive u" by (auto simp: oset)
      with nm u(2) have "k' = n" by auto
      with k k' dkept have "u = s" by (meson eq_key_imp_eq_value)
      with k'(2) that(2) show False by simp
    qed
    with k stays show ?thesis by simp
  qed
  show "now - pruneWait \<le> sd_currentSince s" if "(n, s) \<in> set (sm_services m')" "inactive s" for n s
    using that stays by (auto simp: kept_def)
  have late: "s \<in> set (drop e ordered)" if "(n, s) \<in> set (sm_services m')" "inactive s" for n s
  proof -
    from that stays have k: "(n, s) \<in> set kept" "n \<notin> set gone" by auto
    then have o: "s \<in> set ordered" using that(2) by (auto simp: oset)
    have "s \<notin> set (take e ordered)" using k nm [OF k(1)] by (auto simp: gone_def)
    with o show ?thesis by (metis Un_iff append_take_drop_id set_append)
  qed
  show "sd_currentSince s \<le> sd_currentSince s'"
    if "(n, s) \<in> set (sm_services m)" "(n, s) \<notin> set (sm_services m')" "(n', s') \<in> set (sm_services m')" "inactive s'"
    for n s n' s'
  proof (cases "(n, s) \<in> set kept")
    case False
    with that(1) have "sd_currentSince s < now - pruneWait" by (auto simp: kept_def)
    moreover have "now - pruneWait \<le> sd_currentSince s'" using that(3,4) stays by (auto simp: kept_def)
    ultimately show ?thesis by simp
  next
    case True
    with that(2) stays have "n \<in> set gone" by simp
    then obtain u where u: "u \<in> set (take e ordered)" "?nm u = n" unfolding gone_def by auto
    from in_set_takeD [OF u(1)] obtain k' where k': "(k', u) \<in> set kept" by (auto simp: oset)
    with nm u(2) have "k' = n" by auto
    with k' True dkept have "u = s" by (meson eq_key_imp_eq_value)
    with u(1) late [OF that(3,4)] show ?thesis
      using sorted_take_drop [of sd_currentSince ordered s e s'] by (simp add: ordered_def)
  qed
  show "length (filter (\<lambda>(n, s). inactive s) (sm_services m')) \<le> limit"
  proof -
    let ?l = "filter (\<lambda>(n, s). inactive s) (sm_services m')"
    have ne: "sm_services m' = filter (\<lambda>(n, s). n \<notin> set gone) kept"
      using few unfolding m' gone_def by auto
    have "distinct (map fst ?l)" unfolding ne
      by (intro distinct_map_filter) (rule dkept)
    moreover have sub_l: "set ?l \<subseteq> set kept" unfolding ne by auto
    ultimately have "distinct (map ?nm (map snd ?l))" unfolding same [OF sub_l] by simp
    then have "distinct (map snd ?l)" unfolding distinct_map [of ?nm] ..
    moreover have "set (map snd ?l) \<subseteq> set (drop e ordered)" using late by auto
    ultimately have "length (map snd ?l) \<le> length (drop e ordered)"
      by (metis card_mono distinct_card finite_set card_length order_trans)
    also have "\<dots> \<le> limit" by (simp add: e_def)
    finally show ?thesis by simp
  qed
qed

subsection \<open>Restarts and shutdown\<close>

lemma lanes_needed:
  assumes "plan_named p" "reordering iter"
    and "(if halting then StopOrder p iter names else StartOrder p iter names) = Inr lanes"
  shows "distinct (concat lanes)" "set (concat lanes) = needed halting (plan_services p) names"
proof -
  from assms(3) obtain ordered where o: "order (plan_services p) iter names halting = Inr ordered"
    by (auto simp: StartOrder_def StopOrder_def and_then_Inr_iff split: if_split_asm)
  from lanes_of_order [OF assms(1,2) o] assms(3) have m: "mset (concat lanes) = mset ordered" by auto
  from order_contents [OF o assms(2)] have "distinct ordered" "set ordered = needed halting (plan_services p) names"
    by auto
  with m show "distinct (concat lanes)" "set (concat lanes) = needed halting (plan_services p) names"
    by (metis mset_eq_imp_distinct_iff, metis mset_eq_setD)
qed

lemma replan_service_config:
  assumes "map_of (plan_services p) n = Some c"
  shows "sd_config (fst (replan_service ws p n s)) = c"
  using assms by (auto simp: replan_service_def Let_def)

lemma replan_service_keeps:
  "sd_state (fst (replan_service ws p n s)) = sd_state s" "sd_cmd (fst (replan_service ws p n s)) = sd_cmd s"
  "sd_procs (fst (replan_service ws p n s)) = sd_procs s" "sd_timers (fst (replan_service ws p n s)) = sd_timers s"
  by (auto simp: replan_service_def Let_def split: option.split)

lemma replan_service_again:
  "snd (replan_service None p n (fst (replan_service None p n s))) \<longleftrightarrow> map_of (plan_services p) n = None"
  by (auto simp: replan_service_def Let_def split: option.split)

lemma needed_in_plan:
  assumes "x \<in> needed True services names" "set names \<subseteq> fst ` set services"
  shows "x \<in> fst ` set services"
proof -
  have "b \<in> fst ` set services" if "(a, b) \<in> deps True services" for a b
    using that by (force simp: deps_def neighbours_def predecessors_def)
  note range = this
  from assms(1) obtain a where "(a, x) \<in> (deps True services)\<^sup>*" "a \<in> set names"
    unfolding needed_def by auto
  then show ?thesis using assms(2) range by (induction rule: rtrancl_induct) auto
qed

lemma servicesToStop_running:
  assumes p: "sm_plan m = Some p" and "plan_named p" "reordering iter" and run: "servicesToStop iter m = Inr (Inr lanes)"
  shows "distinct (concat lanes)" "[] \<notin> set lanes"
    "set (concat lanes) = {n \<in> fst ` set (plan_services p). not_stopped m n}"
proof -
  let ?names = "map fst (plan_services p)"
  from run p obtain halted where halted: "StopOrder p iter ?names = Inr halted"
    and lanes: "lanes = filter (\<lambda>l. l \<noteq> []) (map (filter (not_stopped m)) halted)"
    by (auto simp: servicesToStop_def getPlan_def and_then_Inr_iff)
  have c: "concat lanes = filter (not_stopped m) (concat halted)"
    unfolding lanes by (induction halted) simp_all
  from halted have s: "(if True then StopOrder p iter ?names else StartOrder p iter ?names) = Inr halted" by simp
  note n = lanes_needed [OF assms(2,3) s]
  have "set ?names \<subseteq> needed True (plan_services p) ?names" by (auto simp: needed_def)
  with n(2) needed_in_plan [of _ "plan_services p" ?names]
  have "set (concat halted) = fst ` set (plan_services p)" by auto
  then show "set (concat lanes) = {n \<in> fst ` set (plan_services p). not_stopped m n}"
    unfolding c by auto
  show "distinct (concat lanes)" unfolding c using n(1) by (rule distinct_filter)
  show "[] \<notin> set lanes" by (simp add: lanes)
qed

subsection \<open>Properties\<close>

text \<open>
  Pruning the services removes nothing but inactive ones, leaves no inactive one that is older than
  the limit of age and no more inactive ones than the limit of number, and whatever it removes became
  inactive no later than every inactive service it keeps.
\<close>
lemma PruneServices_correct:
  assumes "named_services (sm_services m)"
  shows "set (sm_services (PruneServices now pruneWait limit m)) \<subseteq> set (sm_services m) \<and>
    (\<forall>(n, s) \<in> set (sm_services m). \<not> inactive s \<longrightarrow> (n, s) \<in> set (sm_services (PruneServices now pruneWait limit m))) \<and>
    length (filter (\<lambda>(n, s). inactive s) (sm_services (PruneServices now pruneWait limit m))) \<le> limit \<and>
    (\<forall>(n', s') \<in> set (sm_services (PruneServices now pruneWait limit m)). inactive s' \<longrightarrow>
       now - pruneWait \<le> sd_currentSince s' \<and>
       (\<forall>(n, s) \<in> set (sm_services m). (n, s) \<notin> set (sm_services (PruneServices now pruneWait limit m)) \<longrightarrow>
          sd_currentSince s \<le> sd_currentSince s'))"
  using PruneServices_spec [OF assms, where now = now and pruneWait = pruneWait and limit = limit] by blast

text \<open>
  \<open>Replan\<close> stops the services whose configuration or workload is no longer what they were started with
  and everything that requires them, starts those and the enabled services with everything they require,
  and gives every service of the plan its configuration without touching its state, process or timers;
  without workloads a second \<open>Replan\<close> restarts only services that are not in the plan any more.
\<close>
lemma Replan_correct:
  assumes "sm_plan m = Some p" "plan_named p" "reordering iter" "Replan iter m = Inr (Inr (stops, starts), m')"
  shows "set (concat stops) = needed True (plan_services p) (restarted m p) \<and>
    set (concat starts) = needed False (plan_services p)
      (map fst (filter (\<lambda>(n, c). n \<in> set (restarted m p) \<or> svc_startup c = ''enabled'') (plan_services p))) \<and>
    list_all2 (\<lambda>(n, s) (n', s'). n' = n \<and> sd_state s' = sd_state s \<and> sd_procs s' = sd_procs s \<and>
        sd_timers s' = sd_timers s \<and> (\<forall>c. map_of (plan_services p) n = Some c \<longrightarrow> sd_config s' = c))
      (sm_services m) (sm_services m') \<and>
    (sm_workloads m = None \<longrightarrow>
       restarted m' p = filter (\<lambda>n. map_of (plan_services p) n = None) (map fst (sm_services m)))"
proof -
  from assms(1,4) have m': "m' = replanned m p"
    and st: "StopOrder p iter (restarted m p) = Inr stops"
    and sa: "StartOrder p iter (map fst (filter (\<lambda>(n, c). n \<in> set (restarted m p) \<or> svc_startup c = ''enabled'')
        (plan_services p))) = Inr starts"
    by (auto simp: Replan_def getPlan_def Let_def and_then_Inr_iff)
  have "restarted m' p = filter (\<lambda>n. map_of (plan_services p) n = None) (map fst (sm_services m))"
    if "sm_workloads m = None"
    using that by (simp add: m' restarted_def replanned_def filter_map o_def case_prod_beta replan_service_again)
  moreover have "list_all2 (\<lambda>(n, s) (n', s'). n' = n \<and> sd_state s' = sd_state s \<and> sd_procs s' = sd_procs s \<and>
        sd_timers s' = sd_timers s \<and> (\<forall>c. map_of (plan_services p) n = Some c \<longrightarrow> sd_config s' = c))
      (sm_services m) (sm_services m')"
    by (simp add: m' replanned_def list_all2_map2 list_all2_same case_prod_beta replan_service_keeps replan_service_config)
  ultimately show ?thesis
    using lanes_needed(2) [OF assms(2,3), of True] lanes_needed(2) [OF assms(2,3), of False] st sa by simp
qed

text \<open>
  At shutdown exactly the services of the plan that are starting, running or backing off are stopped,
  each once, and there is no task set when there are none.
\<close>
lemma servicesToStop_correct:
  assumes "sm_plan m = Some p" "plan_named p" "reordering iter" "servicesToStop iter m = Inr (Inr lanes)"
  shows "distinct (concat lanes) \<and> [] \<notin> set lanes \<and>
    set (concat lanes) = {n \<in> fst ` set (plan_services p). not_stopped m n} \<and>
    (StopRunning quote now iter m s = Inr (Inr (None, s)) \<longleftrightarrow> (\<forall>n \<in> fst ` set (plan_services p). \<not> not_stopped m n))"
proof -
  note r = servicesToStop_running [OF assms]
  have "lanes = [] \<longleftrightarrow> (\<forall>n \<in> fst ` set (plan_services p). \<not> not_stopped m n)"
  proof
    assume "\<forall>n \<in> fst ` set (plan_services p). \<not> not_stopped m n"
    then have "concat lanes = []" using r(3) by (metis (mono_tags, lifting) empty_Collect_eq set_empty)
    with r(2) show "lanes = []" by (cases lanes) auto
  next
    assume "lanes = []"
    with r(3) show "\<forall>n \<in> fst ` set (plan_services p). \<not> not_stopped m n" by auto
  qed
  moreover have "StopRunning quote now iter m s = Inr (Inr (None, s)) \<longleftrightarrow> lanes = []"
    using assms(4) by (cases "Stop quote now lanes s") (auto simp: StopRunning_def lift_fault_def)
  ultimately show ?thesis using r by blast
qed

definition web_manager :: service_manager where
  "web_manager =
     \<lparr>sm_plan = Some valid_web_plan, sm_workloads = None,
      sm_services = [(''web'', httpd_started\<lparr>sd_config := (blank_service ''web'' [])\<lparr>svc_command := ''old''\<rparr>\<rparr>),
                     (''db'', httpd_started\<lparr>sd_config := (blank_service ''db'' [])\<lparr>svc_command := ''run''\<rparr>,
                        sd_state := StateStopped\<rparr>)]\<rparr>"

lemma web_plan_named: "plan_named valid_web_plan"
  by (simp add: plan_named_def valid_web_plan_def web_plan_def plan_of_def NewPlan_def blank_service_def)

text \<open>
  \<open>serviceForStart\<close> and \<open>Replan\<close> never take a workload away from a service: one that had a workload and has
  none in the plan any more is started with the environment and the user of the old workload.
\<close>

lemma workload_outlives_plan:
  assumes "sd_state s \<in> {StateBackoff, StateStopped, StateExited}" "sd_workload s = Some w"
    "svc_user_id config = None" "svc_group_id config = None" "svc_user config = []" "svc_group config = []"
  shows "\<exists>s'. serviceForStart now config None (Some s) = (s', None) \<and> sd_workload s' = Some w \<and>
    run_as (sd_config s') (sd_workload s') = (wl_user_id w, wl_group_id w, wl_user w, wl_group w)"
proof -
  let ?s = "transition StateInitial (s\<lparr>sd_config := config, sd_workload := Some w, sd_backoffNum := 0, sd_backoffTime := 0\<rparr>)"
  have "serviceForStart now config None (Some s) = (?s, None)"
    using assms(1,2) by (auto simp: serviceForStart_def or_opt_def Let_def)
  moreover have "sd_workload ?s = Some w" by (simp add: transition_def transitionRestarting_def)
  moreover have "run_as (sd_config ?s) (sd_workload ?s) = (wl_user_id w, wl_group_id w, wl_user w, wl_group w)"
    using assms(3-6) by (simp add: calculation(2) run_as_def or_opt_def or_str_def)
  ultimately show ?thesis by blast
qed

end
