(* ===== verification/RingBuffer.thy ===== *)
theory RingBuffer
  imports Prelude
begin

text \<open>
  \<open>src/internals/servicelog/ringbuffer.go\<close>: the buffer that keeps the last bytes of a service's output.
  Positions count all the bytes ever written (a \<open>RingPos\<close> is an \<open>int64\<close>: it would wrap after 2^63
  bytes, which is out of reach), and a byte at position \<open>k\<close> is kept at index \<open>k mod size\<close>.  The lemmas
  show that the two-part copies of the code implement a bounded queue: \<open>held\<close> is the queue, and a
  write keeps the last \<open>size\<close> bytes of the queue with the bytes written.  The iterators are in
  \<open>LogIterator\<close>.  Locks are not modelled: every operation runs under the lock of the buffer.
\<close>

datatype io_err = ErrRange | ErrEOF | ErrShortWrite | ErrClosedPipe | OtherErr string
datatype ring_fault = DivideByZero | SliceBounds

record ring =
  readIndex :: int
  writeIndex :: int
  writeClosed :: bool
  rb_data :: "char list"

abbreviation newline :: char where "newline \<equiv> CHR 0x0A"

definition TailPosition :: int where "TailPosition = - 1"

definition NewRingBuffer :: "nat \<Rightarrow> ring" where
  "NewRingBuffer n = \<lparr>readIndex = 0, writeIndex = 0, writeClosed = False, rb_data = replicate n (CHR 0x00)\<rparr>"

definition Size :: "ring \<Rightarrow> int" where "Size rb = int (length (rb_data rb))"
definition available :: "ring \<Rightarrow> int" where "available rb = Size rb - (writeIndex rb - readIndex rb)"
definition buffered :: "ring \<Rightarrow> int" where "buffered rb = writeIndex rb - readIndex rb"
definition Positions :: "ring \<Rightarrow> int \<times> int" where "Positions rb = (readIndex rb, writeIndex rb)"
definition Closed :: "ring \<Rightarrow> bool" where "Closed rb = writeClosed rb"

definition discard :: "int \<Rightarrow> ring \<Rightarrow> ring" where
  "discard n rb = rb\<lparr>readIndex := readIndex rb + (if buffered rb < n then buffered rb else n)\<rparr>"

text \<open>The built-in \<open>copy (dst [low : high], src)\<close> of Go: as many bytes as both slices have.\<close>

definition go_copy :: "'a list \<Rightarrow> nat \<Rightarrow> nat \<Rightarrow> 'a list \<Rightarrow> 'a list" where
  "go_copy dst low high src =
     (let n = min (high - low) (length src) in take low dst @ take n src @ drop (low + n) dst)"

text \<open>The indices at which a range of positions starts and ends; the end index is never 0.\<close>

definition low_index :: "int \<Rightarrow> ring \<Rightarrow> nat" where "low_index pos rb = nat (pos mod Size rb)"

definition high_index :: "int \<Rightarrow> ring \<Rightarrow> nat" where
  "high_index pos rb = (let high = nat (pos mod Size rb) in if high = 0 then length (rb_data rb) else high)"

definition Write :: "char list \<Rightarrow> ring \<Rightarrow> ring_fault + (nat \<times> io_err option) \<times> ring" where
  "Write p rb =
     (if p = [] then Inr ((0, None), rb)
      else if writeClosed rb then Inr ((0, Some ErrClosedPipe), rb)
      else
        (let len = min (length p) (length (rb_data rb));
             rb1 = (if available rb < int len then discard (int len - available rb) rb else rb);
             from = writeIndex rb1;
             till = writeIndex rb1 + int len
         in if rb_data rb1 = [] then Inl DivideByZero
            else
              (let low = low_index from rb1; high = high_index till rb1 in
               and_then
                 (if low < high then Inr (go_copy (rb_data rb1) low high (take len p))
                  else let lowLength = length (rb_data rb1) - low in
                    if length p < lowLength then Inl SliceBounds
                    else Inr (go_copy (go_copy (rb_data rb1) low (length (rb_data rb1)) p) 0 high (drop lowLength p)))
                 (\<lambda>data. Inr ((len, if len < length p then Some ErrShortWrite else None),
                              rb1\<lparr>rb_data := data, writeIndex := writeIndex rb1 + int len\<rparr>)))))"

definition buffers :: "int \<Rightarrow> int \<Rightarrow> ring \<Rightarrow> ring_fault + char list \<times> char list" where
  "buffers from till rb =
     (if till < from then Inr ([], [])
      else if from < readIndex rb \<or> writeIndex rb < from then Inr ([], [])
      else if till < readIndex rb \<or> writeIndex rb < till then Inr ([], [])
      else if rb_data rb = [] then Inl DivideByZero
      else
        (let low = low_index from rb; high = high_index till rb in
         if low < high then Inr (take (high - low) (drop low (rb_data rb)), [])
         else Inr (drop low (rb_data rb), take high (rb_data rb))))"

text \<open>
  \<open>Copy\<close> fills a destination of the given length; its results are the next position, the bytes copied
  (in place of their number and the destination) and the error.
\<close>

definition Copy :: "nat \<Rightarrow> int \<Rightarrow> ring \<Rightarrow> ring_fault + int \<times> char list \<times> io_err option" where
  "Copy dest from rb =
     (let readPos = (if from = TailPosition then readIndex rb else from) in
      if readPos < readIndex rb \<or> writeIndex rb < readPos then Inr (from, [], Some ErrRange)
      else if readPos = writeIndex rb then Inr (from, [], Some ErrEOF)
      else
        (let copyLength = min (nat (writeIndex rb - readPos)) dest in
         if copyLength = 0 then Inr (from, [], None)
         else and_then (buffers readPos (readPos + int copyLength) rb) (\<lambda>(b0, b1).
           let out0 = take dest b0;
               out1 = take (dest - length out0) b1;
               next = readPos + int (length (out0 @ out1))
           in Inr (next, out0 @ out1, if next = writeIndex rb then Some ErrEOF else None))))"

text \<open>\<open>WriteTo\<close> for a writer \<open>write\<close> with a state: the two parts are written in turn until one fails.\<close>

fun write_parts ::
    "(char list \<Rightarrow> 'w \<Rightarrow> (nat \<times> io_err option) \<times> 'w) \<Rightarrow> char list list \<Rightarrow> nat \<Rightarrow> 'w \<Rightarrow> (nat \<times> io_err option) \<times> 'w" where
  "write_parts write [] written w = ((written, None), w)"
| "write_parts write (b # bs) written w =
     (if b = [] then write_parts write bs written w
      else case write b w of
        ((n, Some e), w1) \<Rightarrow> ((written + n, Some e), w1)
      | ((n, None), w1) \<Rightarrow> write_parts write bs (written + n) w1)"

definition WriteTo ::
    "(char list \<Rightarrow> 'w \<Rightarrow> (nat \<times> io_err option) \<times> 'w) \<Rightarrow> int \<Rightarrow> ring \<Rightarrow> 'w \<Rightarrow>
     ring_fault + (int \<times> nat \<times> io_err option) \<times> 'w" where
  "WriteTo write from rb w =
     (let readPos = (if from = TailPosition then readIndex rb else from) in
      if readPos < readIndex rb \<or> writeIndex rb < readPos then Inr ((from, 0, Some ErrRange), w)
      else if writeIndex rb - readPos = 0 then Inr ((from, 0, None), w)
      else and_then (buffers readPos (writeIndex rb) rb) (\<lambda>(b0, b1).
        case write_parts write [b0, b1] 0 w of
          ((n, e), w1) \<Rightarrow> Inr ((readPos + int n, n, e), w1)))"

text \<open>
  \<open>reverseLinePosition\<close>: the bytes are visited backwards, \<open>lines\<close> counting the newlines seen less one,
  until \<open>n\<close> is reached.
\<close>

fun line_scan :: "int \<Rightarrow> char list \<Rightarrow> int \<Rightarrow> int \<Rightarrow> char \<Rightarrow> int \<times> char" where
  "line_scan n [] lines firstLine prev = (firstLine, prev)"
| "line_scan n (b # bs) lines firstLine prev =
     (let lines' = (if b = newline then lines + 1 else lines) in
      if lines' = n then (firstLine - 1, b) else line_scan n bs lines' (firstLine - 1) b)"

definition reverseLinePosition :: "int \<Rightarrow> ring \<Rightarrow> ring_fault + int" where
  "reverseLinePosition n rb =
     (if n \<le> 0 then Inr (writeIndex rb)
      else and_then (buffers (readIndex rb) (writeIndex rb) rb) (\<lambda>(b0, b1).
        case line_scan n (rev b1 @ rev b0) (- 1) (writeIndex rb) (CHR 0x00) of
          (firstLine, prev) \<Rightarrow> Inr (if prev = newline then firstLine + 1 else firstLine)))"

subsection \<open>The bounded queue\<close>

text \<open>The bytes at the positions from \<open>a\<close> to \<open>b\<close> of a ring with the given data.\<close>

definition segment :: "'a list \<Rightarrow> nat \<Rightarrow> nat \<Rightarrow> 'a list" where
  "segment d a b = map (\<lambda>k. d ! (k mod length d)) [a..<b]"

definition ring_wf :: "ring \<Rightarrow> bool" where
  "ring_wf rb \<longleftrightarrow> rb_data rb \<noteq> [] \<and> 0 \<le> readIndex rb \<and> readIndex rb \<le> writeIndex rb \<and>
     writeIndex rb - readIndex rb \<le> Size rb"

definition held :: "ring \<Rightarrow> char list" where
  "held rb = segment (rb_data rb) (nat (readIndex rb)) (nat (writeIndex rb))"

text \<open>What a queue bounded to \<open>n\<close> elements keeps of a list.\<close>

definition keep :: "nat \<Rightarrow> 'a list \<Rightarrow> 'a list" where
  "keep n xs = drop (length xs - n) xs"

lemma length_keep [simp]: "length (keep n xs) = min n (length xs)"
  by (simp add: keep_def)

lemma keep_keep_append: "keep n (keep n xs @ ys) = keep n (xs @ ys)"
proof (cases "length xs \<le> n")
  case False
  then have "length xs + length ys - (length xs - n + n) + (length xs - n) = length xs + length ys - n" by simp
  with False show ?thesis by (simp add: keep_def)
qed (simp add: keep_def)

lemma keep_all [simp]: "length xs \<le> n \<Longrightarrow> keep n xs = xs"
  by (simp add: keep_def)

lemma length_segment [simp]: "length (segment d a b) = b - a"
  by (simp add: segment_def)

lemma nth_segment [simp]: "i < b - a \<Longrightarrow> segment d a b ! i = d ! ((a + i) mod length d)"
  by (simp add: segment_def)

lemma held_length: "ring_wf rb \<Longrightarrow> int (length (held rb)) = buffered rb"
  by (auto simp: held_def ring_wf_def buffered_def nat_diff_distrib [symmetric])

lemma NewRingBuffer_wf: "0 < n \<Longrightarrow> ring_wf (NewRingBuffer n) \<and> held (NewRingBuffer n) = []"
  by (simp add: ring_wf_def NewRingBuffer_def held_def segment_def Size_def)

lemma mod_add_small:
  fixes a i n :: nat
  assumes "i < n"
  shows "(a + i) mod n = (if a mod n + i < n then a mod n + i else a mod n + i - n)"
proof -
  have "(a + i) mod n = (a mod n + i) mod n" by (simp add: mod_simps)
  moreover have "a mod n + i - n < n" if "\<not> a mod n + i < n" using assms mod_less_divisor [of n a] by linarith
  ultimately show ?thesis using assms by (simp add: mod_if [of "a mod n + i"] mod_if [of "a mod n + i - n"])
qed

lemma index_low: "0 \<le> pos \<Longrightarrow> rb_data rb \<noteq> [] \<Longrightarrow> low_index pos rb = nat pos mod length (rb_data rb)"
  by (simp add: low_index_def Size_def nat_mod_distrib)

lemma index_high: "0 \<le> pos \<Longrightarrow> rb_data rb \<noteq> [] \<Longrightarrow>
    high_index pos rb = (if nat pos mod length (rb_data rb) = 0 then length (rb_data rb) else nat pos mod length (rb_data rb))"
  by (simp add: high_index_def Size_def nat_mod_distrib Let_def)

text \<open>A range of at most \<open>n\<close> positions is one piece of the data, or a piece at its end and one at its start.\<close>

lemma wrap_cases:
  fixes a l n :: nat
  assumes "0 < l" "l \<le> n"
  defines "low \<equiv> a mod n" and "high \<equiv> if (a + l) mod n = 0 then n else (a + l) mod n"
  obtains (one) "low < high" "high = low + l" "high \<le> n"
    | (two) "\<not> low < high" "low + l = n + high" "high \<le> low" "low < n" "n - low \<le> l"
proof (cases "low + l \<le> n")
  case True
  then have "high = low + l"
    using mod_add_small [of l n a] assms by (cases "l = n") (auto simp: low_def high_def)
  moreover have "low < n" using assms by (simp add: low_def)
  ultimately show ?thesis using True assms(1) by (intro one) simp_all
next
  case False
  then have "l \<noteq> n \<or> low \<noteq> 0" by auto
  have "(a + l) mod n = low + l - n"
    using mod_add_small [of l n a] assms False by (cases "l = n") (auto simp: low_def)
  with False assms have "high = low + l - n" by (simp add: high_def)
  moreover have "low < n" using assms by (simp add: low_def)
  ultimately show ?thesis using False assms(1,2) by (intro two) simp_all
qed

lemma segment_one:
  assumes "a mod length d + l \<le> length d"
  shows "take l (drop (a mod length d) d) = segment d a (a + l)"
proof (rule nth_equalityI)
  show "length (take l (drop (a mod length d) d)) = length (segment d a (a + l))" using assms by simp
  fix i
  assume "i < length (take l (drop (a mod length d) d))"
  with assms show "take l (drop (a mod length d) d) ! i = segment d a (a + l) ! i"
    by (cases "i < length d") (auto simp: mod_add_small)
qed

lemma segment_two:
  assumes "a mod length d + l = length d + high" "high \<le> a mod length d" "d \<noteq> []"
  shows "drop (a mod length d) d @ take high d = segment d a (a + l)"
proof (rule nth_equalityI)
  have low: "a mod length d < length d" using assms(3) by simp
  with assms(2) have "high < length d" by linarith
  with assms(1) low show "length (drop (a mod length d) d @ take high d) = length (segment d a (a + l))"
    by (simp only: length_append length_drop length_take length_segment)
  fix i
  assume i: "i < length (drop (a mod length d) d @ take high d)"
  with assms low have *: "i < l" "l \<le> length d" by auto
  show "(drop (a mod length d) d @ take high d) ! i = segment d a (a + l) ! i"
  proof (cases "i < length d - a mod length d")
    case True
    then have "a mod length d + i < length d" by linarith
    with True * low show ?thesis by (simp add: nth_append mod_add_small)
  next
    case False
    with * low assms have "i - (length d - a mod length d) < high" by simp
    moreover from False low have "i - (length d - a mod length d) = a mod length d + i - length d" by simp
    moreover from False low have "\<not> a mod length d + i < length d" by linarith
    ultimately show ?thesis using False * low by (simp add: nth_append mod_add_small)
  qed
qed

lemma buffers_segment:
  assumes wf: "ring_wf rb" and r: "readIndex rb \<le> a" "a < b" "b \<le> writeIndex rb"
  obtains x y where "buffers a b rb = Inr (x, y)" "x @ y = segment (rb_data rb) (nat a) (nat b)"
proof -
  define n where "n = length (rb_data rb)"
  define l where "l = nat b - nat a"
  from wf r have l: "0 < l" "l \<le> n" and n: "0 < n" and ab: "nat b = nat a + l" "0 \<le> a" "0 \<le> b"
    by (auto simp: ring_wf_def l_def n_def Size_def)
  have low: "low_index a rb = nat a mod n" using index_low [of a rb] ab n by (simp add: n_def)
  have high: "high_index b rb = (if (nat a + l) mod n = 0 then n else (nat a + l) mod n)"
    using index_high [of b rb] ab n by (simp add: n_def)
  from n have ne: "rb_data rb \<noteq> []" by (auto simp: n_def)
  have eq: "buffers a b rb = (if low_index a rb < high_index b rb
      then Inr (take (high_index b rb - low_index a rb) (drop (low_index a rb) (rb_data rb)), [])
      else Inr (drop (low_index a rb) (rb_data rb), take (high_index b rb) (rb_data rb)))"
    using r ne by (simp add: buffers_def Let_def)
  from l show thesis
  proof (cases rule: wrap_cases [of l n "nat a"])
    case one
    from one have "high_index b rb - low_index a rb = l" "nat a mod n + l \<le> n" using low high by auto
    with one have "buffers a b rb = Inr (segment (rb_data rb) (nat a) (nat b), [])"
      unfolding eq low high using segment_one [of "nat a" "rb_data rb" l] by (simp add: n_def ab)
    then show thesis using that by simp
  next
    case two
    then have "buffers a b rb = Inr (drop (nat a mod n) (rb_data rb), take (high_index b rb) (rb_data rb))"
      unfolding eq by (simp add: low high)
    moreover have "drop (nat a mod n) (rb_data rb) @ take (high_index b rb) (rb_data rb) =
        segment (rb_data rb) (nat a) (nat b)"
      using segment_two [of "nat a" "rb_data rb" l "high_index b rb"] two ne by (simp add: high n_def ab)
    ultimately show thesis using that by blast
  qed
qed

text \<open>
  What \<open>Write\<close> stores: the new bytes at their positions, and nothing else changes.  \<open>d'\<close> is the data with
  the bytes \<open>p\<close> put at the \<open>l\<close> positions from \<open>w\<close>.
\<close>

definition stored :: "char list \<Rightarrow> char list \<Rightarrow> nat \<Rightarrow> nat \<Rightarrow> char list \<Rightarrow> bool" where
  "stored d d' w l p \<longleftrightarrow> length d' = length d \<and>
     (\<forall>i < l. d' ! ((w + i) mod length d) = p ! i) \<and>
     (\<forall>m. 0 < m \<longrightarrow> m \<le> w \<longrightarrow> m + l \<le> length d \<longrightarrow>
        d' ! ((w - m) mod length d) = d ! ((w - m) mod length d))"

lemma before_index:
  fixes w m n :: nat
  assumes "0 < m" "m \<le> w" "m < n"
  shows "w mod n = (w - m) mod n + m \<or> w mod n + n = (w - m) mod n + m"
  using mod_add_small [of m n "w - m"] assms mod_less_divisor [of n "w - m"] by (auto split: if_splits)

lemma stored_one:
  assumes "w mod length d + l \<le> length d" "0 < l" "l \<le> length p"
  shows "stored d (go_copy d (w mod length d) (w mod length d + l) (take l p)) w l p"
proof -
  define n low where "n = length d" and "low = w mod n"
  have low: "low < n" "low + l \<le> n" using assms by (auto simp: low_def n_def)
  have eq: "go_copy d low (low + l) (take l p) = take low d @ take l p @ drop (low + l) d"
    using assms by (simp add: go_copy_def)
  have same: "go_copy d low (low + l) (take l p) ! j = d ! j" if "j < n" "j < low \<or> low + l \<le> j" for j
    using that low assms unfolding eq by (auto simp: nth_append n_def min_def)
  have new: "go_copy d low (low + l) (take l p) ! ((w + i) mod n) = p ! i" if "i < l" for i
    using that low assms unfolding eq by (simp add: mod_add_small nth_append n_def low_def min_def)
  have old: "go_copy d low (low + l) (take l p) ! ((w - m) mod n) = d ! ((w - m) mod n)"
    if "0 < m" "m \<le> w" "m + l \<le> n" for m
  proof (rule same)
    show "(w - m) mod n < n" using low by simp
    from before_index [of m w n] that assms(2) low
    show "(w - m) mod n < low \<or> low + l \<le> (w - m) mod n" by (auto simp: low_def)
  qed
  show ?thesis
    unfolding stored_def n_def [symmetric] low_def [symmetric]
    using new old low eq assms by (auto simp: n_def)
qed

lemma stored_two:
  assumes "w mod length d + l = length d + high" "high \<le> w mod length d" "l \<le> length p" "d \<noteq> []"
  shows "stored d (go_copy (go_copy d (w mod length d) (length d) p) 0 high (drop (length d - w mod length d) p)) w l p"
proof -
  define n low where "n = length d" and "low = w mod n"
  have low: "low < n" "low + l = n + high" "high \<le> low" "l \<le> n" using assms by (auto simp: low_def n_def)
  have le: "n - low \<le> length p" "high \<le> length p - (n - low)" using low assms(3) by linarith+
  define d' where "d' = go_copy (go_copy d low n p) 0 high (drop (n - low) p)"
  have eq: "d' = take high (drop (n - low) p) @ drop high (take low d) @ take (n - low) p"
    using low le unfolding d'_def by (simp add: go_copy_def n_def min_def)
  have len: "length d' = n" using low le unfolding eq by (simp add: n_def min_def)
  have same: "d' ! j = d ! j" if "high \<le> j" "j < low" for j
  proof -
    from that have "j - high < low - high" by linarith
    with that low le show ?thesis unfolding eq by (simp add: nth_append n_def min_def)
  qed
  have new: "d' ! ((w + i) mod n) = p ! i" if "i < l" for i
  proof (cases "low + i < n")
    case True
    with that low have "(w + i) mod n = low + i" by (simp add: mod_add_small low_def)
    moreover from True low have "\<not> low + i - high < low - high" "low + i - high - (low - high) = i"
      "\<not> low + i < high" "i < n - low" by linarith+
    ultimately show ?thesis using low le unfolding eq by (simp add: nth_append n_def min_def)
  next
    case False
    with that low have "(w + i) mod n = low + i - n" by (simp add: mod_add_small low_def)
    moreover from False that low have "low + i - n < high" "n - low + (low + i - n) = i" by linarith+
    ultimately show ?thesis using low le unfolding eq by (simp add: nth_append n_def min_def)
  qed
  have old: "d' ! ((w - m) mod n) = d ! ((w - m) mod n)" if "0 < m" "m \<le> w" "m + l \<le> n" for m
  proof (rule same)
    have "m < n" using that low by linarith
    note split = before_index [OF that(1,2) this, folded low_def]
    have "(w - m) mod n < n" using low by simp
    with split low that show "high \<le> (w - m) mod n" "(w - m) mod n < low" by linarith+
  qed
  show ?thesis
    unfolding stored_def n_def [symmetric] low_def [symmetric] d'_def [symmetric]
    using new old len by (auto simp: n_def)
qed

lemma held_after_write:
  assumes st: "stored d d' w l p" and r: "r \<le> r'" "r' \<le> w + l" "w + l - r' \<le> length d"
    and rw: "r \<le> w" "l \<le> length d" and keeps: "r' = (if w + l - r \<le> length d then r else w + l - length d)"
    and p: "length p = l"
  shows "segment d' r' (w + l) = keep (length d) (segment d r w @ p)"
proof (rule nth_equalityI)
  have len: "length d' = length d" using st by (simp add: stored_def)
  have drop: "length (segment d r w @ p) - length d = r' - r" using keeps p rw by (auto split: if_splits)
  show "length (segment d' r' (w + l)) = length (keep (length d) (segment d r w @ p))"
    using drop p rw r by (auto simp: keeps)
  fix i
  assume "i < length (segment d' r' (w + l))"
  then have i: "i < w + l - r'" by simp
  then have "keep (length d) (segment d r w @ p) ! i = (segment d r w @ p) ! (r' - r + i)"
    unfolding keep_def drop using p rw r by (intro nth_drop) auto
  moreover have "d' ! ((r' + i) mod length d) = (segment d r w @ p) ! (r' - r + i)"
  proof (cases "r' + i < w")
    case True
    define m where "m = w - (r' + i)"
    from True i r have m: "0 < m" "m \<le> w" "m + l \<le> length d" "r' + i = w - m" by (auto simp: m_def)
    with st have "d' ! ((w - m) mod length d) = d ! ((w - m) mod length d)" by (auto simp: stored_def)
    moreover have "(segment d r w @ p) ! (r' - r + i) = d ! ((r' + i) mod length d)"
    proof -
      from True r have "r' - r + i < w - r" "r + (r' - r + i) = r' + i" by linarith+
      then show ?thesis by (simp add: nth_append)
    qed
    ultimately show ?thesis using m by simp
  next
    case False
    define j where "j = r' + i - w"
    from False i have j: "j < l" "r' + i = w + j" by (auto simp: j_def)
    with st have "d' ! ((w + j) mod length d) = p ! j" by (auto simp: stored_def)
    moreover have "(segment d r w @ p) ! (r' - r + i) = p ! j"
    proof -
      from False r rw j have "\<not> r' - r + i < w - r" "r' - r + i - (w - r) = j" by linarith+
      then show ?thesis by (simp add: nth_append)
    qed
    ultimately show ?thesis using j by simp
  qed
  ultimately show "segment d' r' (w + l) ! i = keep (length d) (segment d r w @ p) ! i" using i len by simp
qed

text \<open>A write never panics, and is a write to the bounded queue.\<close>

lemma Write_ok:
  fixes p :: "char list"
  assumes wf: "ring_wf rb" and op: "\<not> writeClosed rb"
  defines "n \<equiv> length (rb_data rb)" and "l \<equiv> min (length p) (length (rb_data rb))"
  obtains rb' where "Write p rb = Inr ((l, if l < length p then Some ErrShortWrite else None), rb')"
    and "ring_wf rb'" "length (rb_data rb') = n" "writeClosed rb' = False"
    and "writeIndex rb' = writeIndex rb + int l"
    and "readIndex rb' = (if writeIndex rb + int l - readIndex rb \<le> int n then readIndex rb
                          else writeIndex rb + int l - int n)"
    and "held rb' = keep n (held rb @ take l p)"
proof (cases "p = []")
  case True
  then have "held rb @ take l p = held rb" "length (held rb) \<le> n"
    using held_length [OF wf] wf by (simp_all add: buffered_def ring_wf_def Size_def n_def)
  with True wf op show thesis
    by (intro that [of rb]) (auto simp: Write_def l_def n_def ring_wf_def Size_def)
next
  case False
  define r w where "r = nat (readIndex rb)" and "w = nat (writeIndex rb)"
  from wf have rw: "readIndex rb = int r" "writeIndex rb = int w" "r \<le> w" "w - r \<le> n" "0 < n" "rb_data rb \<noteq> []"
    by (auto simp: ring_wf_def r_def w_def Size_def n_def)
  from False rw have l: "0 < l" "l \<le> n" "l \<le> length p" by (auto simp: l_def n_def)
  define r' where "r' = (if w + l - r \<le> n then r else w + l - n)"
  define rb1 where "rb1 = (if available rb < int l then discard (int l - available rb) rb else rb)"
  have rb1: "rb1 = rb\<lparr>readIndex := int r'\<rparr>"
    using rw l by (auto simp: rb1_def available_def discard_def buffered_def Size_def r'_def n_def [symmetric])
  have low: "low_index (writeIndex rb1) rb1 = w mod n"
    using index_low [of "int w" rb1] rw by (simp add: rb1 n_def)
  have high: "high_index (writeIndex rb1 + int l) rb1 = (if (w + l) mod n = 0 then n else (w + l) mod n)"
    using index_high [of "int w + int l" rb1] rw by (simp add: rb1 n_def nat_add_distrib)
  define high where "high = high_index (writeIndex rb1 + int l) rb1"
  define result where "result = (\<lambda>d. Inr ((l, if l < length p then Some ErrShortWrite else None),
                              rb1\<lparr>rb_data := d, writeIndex := writeIndex rb1 + int l\<rparr>) ::
                              ring_fault + (nat \<times> io_err option) \<times> ring)"
  have W: "Write p rb = (if w mod n < high then result (go_copy (rb_data rb) (w mod n) high (take l p))
      else if length p < n - w mod n then Inl SliceBounds
      else result (go_copy (go_copy (rb_data rb) (w mod n) n p) 0 high (drop (n - w mod n) p)))"
    using False op rw(6) unfolding Write_def Let_def l_def [symmetric] rb1_def [symmetric] low high_def [symmetric]
    by (simp add: result_def n_def) (simp add: rb1)
  have "\<exists>d'. Write p rb = result d' \<and> stored (rb_data rb) d' w l (take l p)"
    using l(1,2)
  proof (cases rule: wrap_cases [of l n w])
    case one
    with high have "high = w mod n + l" by (simp add: high_def)
    moreover have "stored (rb_data rb) (go_copy (rb_data rb) (w mod n) (w mod n + l) (take l (take l p))) w l (take l p)"
      using stored_one [of w "rb_data rb" l "take l p"] one l by (simp add: n_def)
    ultimately show ?thesis using W l by auto
  next
    case two
    with high have h: "\<not> w mod n < high" "w mod n + l = n + high" "high \<le> w mod n" by (simp_all add: high_def)
    with two l have "\<not> length p < n - w mod n" by simp
    with h have "Write p rb = result (go_copy (go_copy (rb_data rb) (w mod n) n p) 0 high (drop (n - w mod n) p))"
      unfolding W by simp
    moreover have "stored (rb_data rb) (go_copy (go_copy (rb_data rb) (w mod n) n p) 0 high (drop (n - w mod n) p)) w l p"
      using stored_two [of w "rb_data rb" l high p] h l rw(6) by (simp add: n_def)
    ultimately show ?thesis by (auto simp: stored_def)
  qed
  then obtain d' where d': "Write p rb = result d'" and st: "stored (rb_data rb) d' w l (take l p)" by blast
  define rb' where "rb' = rb1\<lparr>rb_data := d', writeIndex := writeIndex rb1 + int l\<rparr>"
  have len: "length d' = n" using st by (simp add: stored_def n_def)
  have r': "r \<le> r'" "r' \<le> w + l" "w + l - r' \<le> n" using rw l by (auto simp: r'_def)
  have "segment d' r' (w + l) = keep n (segment (rb_data rb) r w @ take l p)"
    by (rule held_after_write [OF st, folded n_def]) (use r' rw l in \<open>simp_all add: r'_def\<close>)
  then have "held rb' = keep n (held rb @ take l p)"
    by (simp add: held_def rb'_def rb1 rw nat_add_distrib)
  moreover have "d' \<noteq> []" using len rw(5) by auto
  then have "ring_wf rb'" using r' len
    by (auto simp: ring_wf_def rb'_def rb1 Size_def rw)
  ultimately show thesis
    using d' len op rw by (intro that [of rb']) (auto simp: result_def rb'_def rb1 r'_def)
qed

lemma segment_part:
  "r \<le> a \<Longrightarrow> b \<le> w \<Longrightarrow> a \<le> b \<Longrightarrow> segment d a b = take (b - a) (drop (a - r) (segment d r w))"
  by (rule nth_equalityI) auto

text \<open>
  A read gives the next bytes of the queue: from its start for \<open>TailPosition\<close>, else from the position
  asked for, with \<open>ErrRange\<close> where that is not in the buffer and \<open>EOF\<close> where the end is reached.
\<close>

lemma Copy_spec:
  fixes dest :: nat
  assumes wf: "ring_wf rb"
  defines "a \<equiv> \<lambda>from. if from = TailPosition then readIndex rb else from"
  defines "bs \<equiv> \<lambda>from. take dest (drop (nat (a from - readIndex rb)) (held rb))"
  shows "Copy dest from rb = Inr
    (if a from < readIndex rb \<or> writeIndex rb < a from then (from, [], Some ErrRange)
     else if a from = writeIndex rb then (from, [], Some ErrEOF)
     else if dest = 0 then (from, [], None)
     else (a from + int (length (bs from)), bs from,
           if a from + int (length (bs from)) = writeIndex rb then Some ErrEOF else None))"
proof (cases "a from < readIndex rb \<or> writeIndex rb \<le> a from \<or> dest = 0")
  case True
  with wf show ?thesis by (auto simp: Copy_def Let_def a_def)
next
  case False
  define c where "c = min (nat (writeIndex rb - a from)) dest"
  from False have c: "0 < c" "a from + int c \<le> writeIndex rb" "c \<le> dest"
    and r: "readIndex rb \<le> a from" "a from < a from + int c" by (auto simp: c_def)
  from buffers_segment [OF wf r c(2)] obtain x y where b: "buffers (a from) (a from + int c) rb = Inr (x, y)"
    and xy: "x @ y = segment (rb_data rb) (nat (a from)) (nat (a from + int c))" .
  have fits: "nat (a from) + c \<le> nat (writeIndex rb)" "0 \<le> a from"
    using c(2) r wf unfolding ring_wf_def by linarith+
  have "segment (rb_data rb) (nat (a from)) (nat (a from + int c)) =
      take c (drop (nat (a from) - nat (readIndex rb)) (held rb))"
    using segment_part [of "nat (readIndex rb)" "nat (a from)" "nat (a from + int c)" "nat (writeIndex rb)" "rb_data rb"] c r fits
    by (simp add: held_def nat_add_distrib nat_mono)
  also have "nat (a from) - nat (readIndex rb) = nat (a from - readIndex rb)"
    using r wf by (simp add: ring_wf_def nat_diff_distrib)
  also have "take c (drop (nat (a from - readIndex rb)) (held rb)) = bs from"
  proof -
    have "length (drop (nat (a from - readIndex rb)) (held rb)) = nat (writeIndex rb - a from)"
      using held_length [OF wf] r(1) unfolding buffered_def length_drop by linarith
    then show ?thesis unfolding bs_def c_def by (metis min.commute take_take take_all order_refl)
  qed
  finally have xy: "x @ y = bs from" using xy by simp
  have len: "length (x @ y) \<le> dest" unfolding xy by (simp add: bs_def)
  then have x: "take dest x = x" and y: "take (dest - length x) y = y" by simp_all
  have "Copy dest from rb = and_then (buffers (a from) (a from + int c) rb) (\<lambda>(b0, b1).
      let out0 = take dest b0; out1 = take (dest - length out0) b1; next = a from + int (length (out0 @ out1))
      in Inr (next, out0 @ out1, if next = writeIndex rb then Some ErrEOF else None))"
  proof -
    have af: "(if from = TailPosition then readIndex rb else from) = a from" by (simp add: a_def)
    show ?thesis using False c(1) unfolding Copy_def Let_def af c_def [symmetric] by simp
  qed
  also have "\<dots> = Inr (a from + int (length (bs from)), bs from,
      if a from + int (length (bs from)) = writeIndex rb then Some ErrEOF else None)"
    unfolding b and_then_simps prod.case Let_def x y xy by (rule refl)
  finally show ?thesis using False by auto
qed

text \<open>The lines of the buffer, from its head: \<open>reverseLinePosition\<close> finds the start of the last \<open>n\<close>.\<close>

definition newlines :: "char list \<Rightarrow> nat" where
  "newlines bs = length (filter (\<lambda>b. b = newline) bs)"

lemma line_scan_spec:
  assumes "line_scan n bs lines pos prev = (pos', prev')" and "lines < n"
  shows "\<exists>k \<le> length bs. pos' = pos - int k \<and> prev' = (if k = 0 then prev else bs ! (k - 1)) \<and>
    (if lines + int (newlines bs) < n then k = length bs
     else lines + int (newlines (take k bs)) = n \<and> 0 < k \<and> bs ! (k - 1) = newline)"
  using assms
proof (induction bs arbitrary: lines pos prev)
  case Nil
  then show ?case by (simp add: newlines_def)
next
  case (Cons b bs)
  define lines' where "lines' = (if b = newline then lines + 1 else lines)"
  have nl: "lines' + int (newlines xs) = lines + int (newlines (b # xs))" for xs
    by (simp add: lines'_def newlines_def)
  show ?case
  proof (cases "lines' = n")
    case True
    with Cons.prems have "b = newline" "pos' = pos - 1" "prev' = b"
      by (auto simp: lines'_def Let_def split: if_splits)
    then show ?thesis using True nl [of bs] nl [of "[]"]
      by (intro exI [of _ 1]) (auto simp: newlines_def)
  next
    case False
    with Cons.prems have "line_scan n bs lines' (pos - 1) b = (pos', prev')" "lines' < n"
      by (auto simp: lines'_def Let_def split: if_splits)
    from Cons.IH [OF this] obtain k where k: "k \<le> length bs" "pos' = pos - 1 - int k"
      "prev' = (if k = 0 then b else bs ! (k - 1))"
      "if lines' + int (newlines bs) < n then k = length bs
       else lines' + int (newlines (take k bs)) = n \<and> 0 < k \<and> bs ! (k - 1) = newline" by blast
    then show ?thesis using nl [of bs] nl [of "take k bs"]
      by (intro exI [of _ "Suc k"]) (auto simp: nth_Cons' split: if_splits)
  qed
qed

lemma newlines_rev [simp]: "newlines (rev bs) = newlines bs"
  by (simp add: newlines_def rev_filter [symmetric])

lemma newlines_append [simp]: "newlines (xs @ ys) = newlines xs + newlines ys"
  by (simp add: newlines_def)

lemma reverseLinePosition_spec:
  assumes wf: "ring_wf rb" and ne: "held rb \<noteq> []" and n: "0 < n"
  obtains pos where "reverseLinePosition n rb = Inr pos" and "readIndex rb \<le> pos" "pos \<le> writeIndex rb"
    and "if int (newlines (held rb)) \<le> n
         then pos = readIndex rb + (if hd (held rb) = newline then 1 else 0)
         else int (newlines (drop (nat (pos - readIndex rb)) (held rb))) = n \<and> readIndex rb < pos \<and>
              held rb ! (nat (pos - readIndex rb) - 1) = newline"
proof -
  from held_length [OF wf] ne have less: "readIndex rb < writeIndex rb" by (cases "held rb") (auto simp: buffered_def)
  obtain x y where b: "buffers (readIndex rb) (writeIndex rb) rb = Inr (x, y)" and xy: "x @ y = held rb"
    using buffers_segment [OF wf order_refl less order_refl] by (auto simp: held_def)
  then have bs: "rev y @ rev x = rev (held rb)" by (simp add: rev_append [symmetric])
  obtain pos' prev where scan: "line_scan n (rev (held rb)) (- 1) (writeIndex rb) (CHR 0x00) = (pos', prev)"
    by (cases "line_scan n (rev (held rb)) (- 1) (writeIndex rb) (CHR 0x00)")
  define pos where "pos = (if prev = newline then pos' + 1 else pos')"
  have res: "reverseLinePosition n rb = Inr pos"
    using n by (simp add: reverseLinePosition_def b bs scan pos_def)
  have "- 1 < n" using n by simp
  from line_scan_spec [OF scan this, unfolded length_rev newlines_rev] obtain k where k: "k \<le> length (held rb)" "pos' = writeIndex rb - int k"
    "prev = (if k = 0 then CHR 0x00 else rev (held rb) ! (k - 1))"
    and split: "if - 1 + int (newlines (held rb)) < n then k = length (held rb)
     else - 1 + int (newlines (take k (rev (held rb)))) = n \<and> 0 < k \<and> rev (held rb) ! (k - 1) = newline"
    by blast
  have w: "writeIndex rb = readIndex rb + int (length (held rb))" using held_length [OF wf] by (simp add: buffered_def)
  show thesis
  proof (cases "int (newlines (held rb)) \<le> n")
    case True
    with split have "k = length (held rb)" by simp
    with k ne have "pos' = readIndex rb" "prev = hd (held rb)" by (simp_all add: w rev_nth hd_conv_nth)
    moreover have "Suc 0 \<le> length (held rb)" using ne by (simp add: Suc_le_eq)
    ultimately show thesis using True less
      by (intro that [OF res]) (auto simp: pos_def w)
  next
    case False
    with split have s: "int (newlines (take k (rev (held rb)))) = n + 1" "0 < k" "rev (held rb) ! (k - 1) = newline"
      by auto
    with k have pos: "pos = readIndex rb + int (length (held rb) - (k - 1))" by (simp add: pos_def w)
    define c where "c = length (held rb) - (k - 1)"
    have c: "pos = readIndex rb + int c" "nat (pos - readIndex rb) = c" "0 < c" "c \<le> length (held rb)"
      using pos s(2) k(1) by (auto simp: c_def)
    have "take k (rev (held rb)) = take (k - 1) (rev (held rb)) @ [newline]"
      using s k(1) take_Suc_conv_app_nth [of "k - 1" "rev (held rb)"] by simp
    with s(1) have "int (newlines (take (k - 1) (rev (held rb)))) = n" by (simp add: newlines_def)
    moreover have "take (k - 1) (rev (held rb)) = rev (drop c (held rb))"
      unfolding c_def by (simp add: rev_drop [symmetric] take_rev)
    moreover have "rev (held rb) ! (k - 1) = held rb ! (c - 1)"
      using s(2) k(1) unfolding c_def by (subst rev_nth) auto
    ultimately have "int (newlines (drop c (held rb))) = n" "held rb ! (c - 1) = newline" using s(3) by simp_all
    with False c show thesis by (intro that [OF res]) (simp_all add: w)
  qed
qed

text \<open>
  An empty range is not empty for \<open>buffers\<close>: it gives the whole backing array.  So \<open>reverseLinePosition\<close>
  walks through \<open>size\<close> bytes that were never written, to a position before the start of the buffer.
\<close>

lemma buffers_empty_range:
  "map_sum id (\<lambda>(x, y). x @ y) (buffers 0 0 (NewRingBuffer 4)) = Inr (replicate 4 (CHR 0x00))"
  by code_simp

lemma reverseLinePosition_empty: "reverseLinePosition 10 (NewRingBuffer 4) = Inr (- 4)"
  by code_simp

text \<open>
  What is written to an open ring buffer is read back: a write of at most the size of the buffer is
  taken whole, a \<open>Copy\<close> from the old head returns exactly the bytes written with \<open>EOF\<close>, and the buffer
  then holds the last \<open>size\<close> bytes of what it held followed by the bytes written.
\<close>

lemma Write_Copy_roundtrip:
  assumes "ring_wf rb" "\<not> writeClosed rb" "p \<noteq> []" "length p \<le> length (rb_data rb)"
  shows "\<exists>rb'. Write p rb = Inr ((length p, None), rb') \<and> ring_wf rb' \<and>
    Copy (length p) (writeIndex rb) rb' = Inr (writeIndex rb', p, Some ErrEOF) \<and>
    held rb' = keep (length (rb_data rb)) (held rb @ p)"
proof -
  have m: "min (length p) (length (rb_data rb)) = length p" using assms(4) by simp
  from Write_ok [OF assms(1,2), of p, unfolded m] obtain rb' where
    w: "Write p rb = Inr ((length p, if length p < length p then Some ErrShortWrite else None), rb')"
    "ring_wf rb'" "writeIndex rb' = writeIndex rb + int (length p)"
    and r: "readIndex rb' = (if writeIndex rb + int (length p) - readIndex rb \<le> int (length (rb_data rb)) then readIndex rb
              else writeIndex rb + int (length p) - int (length (rb_data rb)))"
    and h: "held rb' = keep (length (rb_data rb)) (held rb @ take (length p) p)" by metis
  have "readIndex rb' \<le> writeIndex rb" using r assms(1,4) by (simp add: ring_wf_def)
  moreover have "held rb' = keep (length (rb_data rb)) (held rb @ p)" using h by simp
  moreover have "Write p rb = Inr ((length p, None), rb')" using w(1) by simp
  ultimately have w: "Write p rb = Inr ((length p, None), rb')"
    "ring_wf rb'" "writeIndex rb' = writeIndex rb + int (length p)" "readIndex rb' \<le> writeIndex rb"
    "held rb' = keep (length (rb_data rb)) (held rb @ p)"
    using w by blast+
  have wi: "writeIndex rb \<noteq> TailPosition" using assms(1) by (auto simp: ring_wf_def TailPosition_def)
  have len: "int (length (held rb')) = writeIndex rb' - readIndex rb'" using held_length [OF w(2)] by (simp add: buffered_def)
  have "drop (nat (writeIndex rb - readIndex rb')) (held rb') = p"
  proof -
    have l: "length (held rb') = nat (writeIndex rb - readIndex rb') + length p" using len w(3,4) by simp
    have "\<exists>q. held rb' = q @ p"
      using l unfolding w(5) keep_def by (intro exI [of _ "drop (length (held rb @ p) - length (rb_data rb)) (held rb)"]) simp
    then obtain q where q: "held rb' = q @ p" ..
    with l show ?thesis by simp
  qed
  with Copy_spec [OF w(2), of "length p" "writeIndex rb"] wi w(3,4) assms(3)
  have "Copy (length p) (writeIndex rb) rb' = Inr (writeIndex rb', p, Some ErrEOF)" by simp
  with w show ?thesis by blast
qed

end
