(* ===== verification/LogIterator.thy ===== *)
theory LogIterator
  imports RingBuffer
begin

text \<open>
  \<open>src/internals/servicelog/iterator.go\<close> and the iterators of \<open>ringbuffer.go\<close>: readers that follow a ring
  buffer while it is written, and put a marker where bytes were overwritten before they were read.
  A channel with room for one token is a boolean; the notification channel set by a client is the
  number of sends it still takes.  The iterators of a buffer are in a map, \<open>lb_list\<close> being the list
  \<open>iteratorList\<close>.  The lemmas show that what a reader is given is what was written, in order, except
  where it is given the whole marker.
\<close>

record iterator =
  it_open :: bool
  it_index :: int
  it_trunc :: "char list"
  it_truncWritten :: bool
  it_next :: bool
  it_closed :: bool
  it_notify :: "nat option"

record log_buffer =
  lb_ring :: ring
  lb_iters :: "(nat, iterator) fmap"
  lb_list :: "nat list"

definition truncBytes :: "char list" where
  "truncBytes = [newline] @ ''(... output truncated ...)'' @ [newline]"

definition new_iterator :: "int \<Rightarrow> bool \<Rightarrow> iterator" where
  "new_iterator pos closed =
     \<lparr>it_open = True, it_index = pos, it_trunc = [], it_truncWritten = False, it_next = False,
      it_closed = closed, it_notify = None\<rparr>"

definition TailIterator :: "nat \<Rightarrow> log_buffer \<Rightarrow> log_buffer" where
  "TailIterator i b =
     b\<lparr>lb_iters := fmupd i (new_iterator (readIndex (lb_ring b)) (writeClosed (lb_ring b))) (lb_iters b),
       lb_list := lb_list b @ [i]\<rparr>"

definition HeadIterator :: "int \<Rightarrow> nat \<Rightarrow> log_buffer \<Rightarrow> ring_fault + log_buffer" where
  "HeadIterator lines i b =
     and_then (reverseLinePosition lines (lb_ring b)) (\<lambda>firstLine.
       Inr (b\<lparr>lb_iters := fmupd i (new_iterator firstLine (writeClosed (lb_ring b))) (lb_iters b),
              lb_list := lb_list b @ [i]\<rparr>))"

text \<open>A send that is dropped when the channel does not take it.\<close>

definition notify_send :: "nat option \<Rightarrow> nat option" where
  "notify_send ch = (case ch of Some (Suc room) \<Rightarrow> Some room | _ \<Rightarrow> ch)"

definition signal :: "iterator \<Rightarrow> iterator" where
  "signal it = it\<lparr>it_next := True, it_notify := notify_send (it_notify it)\<rparr>"

definition signalIterators :: "log_buffer \<Rightarrow> log_buffer" where
  "signalIterators b = b\<lparr>lb_iters := fmmap_keys (\<lambda>i it. if i \<in> set (lb_list b) then signal it else it) (lb_iters b)\<rparr>"

definition releaseIterators :: "log_buffer \<Rightarrow> log_buffer" where
  "releaseIterators b =
     b\<lparr>lb_iters := fmmap_keys (\<lambda>i it. if i \<in> set (lb_list b) then it\<lparr>it_closed := True\<rparr> else it) (lb_iters b),
       lb_list := []\<rparr>"

definition log_Write :: "char list \<Rightarrow> log_buffer \<Rightarrow> ring_fault + (nat \<times> io_err option) \<times> log_buffer" where
  "log_Write p b =
     and_then (Write p (lb_ring b)) (\<lambda>((n, e), rb).
       let b1 = b\<lparr>lb_ring := rb\<rparr> in
       Inr ((n, e), if 0 < n then signalIterators b1 else b1))"

definition Close :: "log_buffer \<Rightarrow> log_buffer" where
  "Close b = (if writeClosed (lb_ring b) then b
              else releaseIterators (b\<lparr>lb_ring := (lb_ring b)\<lparr>writeClosed := True\<rparr>\<rparr>))"

text \<open>\<open>removeIterator\<close>: the last of the list takes the place of the one removed.\<close>

definition remove_at :: "nat \<Rightarrow> 'a list \<Rightarrow> 'a list" where
  "remove_at k xs = butlast (xs[k := last xs])"

definition removeIterator :: "nat \<Rightarrow> log_buffer \<Rightarrow> log_buffer" where
  "removeIterator i b =
     (case find (\<lambda>k. lb_list b ! k = i) [0..<length (lb_list b)] of
        None \<Rightarrow> b
      | Some k \<Rightarrow>
          b\<lparr>lb_iters := (case fmlookup (lb_iters b) i of
                           None \<Rightarrow> lb_iters b | Some it \<Rightarrow> fmupd i (it\<lparr>it_closed := True\<rparr>) (lb_iters b)),
            lb_list := remove_at k (lb_list b)\<rparr>)"

definition iterator_Close :: "nat \<Rightarrow> log_buffer \<Rightarrow> log_buffer" where
  "iterator_Close i b =
     (case fmlookup (lb_iters b) i of
        None \<Rightarrow> b
      | Some it \<Rightarrow>
          if \<not> it_open it then b
          else
            (let b1 = removeIterator i b in
             case fmlookup (lb_iters b1) i of
               None \<Rightarrow> b1
             | Some it1 \<Rightarrow> b1\<lparr>lb_iters := fmupd i (it1\<lparr>it_open := False\<rparr>) (lb_iters b1)\<rparr>))"

definition truncated :: "iterator \<Rightarrow> iterator" where
  "truncated it =
     (let it1 = it\<lparr>it_index := TailPosition\<rparr> in
      if it_trunc it1 \<noteq> [] then it1
      else if it_truncWritten it1 then it1
      else it1\<lparr>it_trunc := truncBytes\<rparr>)"

text \<open>The test that \<open>Next\<close> makes at first and after every wake-up.\<close>

definition next_check :: "ring \<Rightarrow> iterator \<Rightarrow> bool \<times> iterator" where
  "next_check rb it =
     (let it1 = (if it_index it \<noteq> TailPosition \<and> it_index it < readIndex rb
                 then truncated (it\<lparr>it_index := readIndex rb\<rparr>) else it)
      in ((writeIndex rb \<noteq> 0 \<and> it_index it1 < writeIndex rb) \<or> it_trunc it1 \<noteq> [], it1))"

text \<open>
  \<open>Next\<close> up to its waiting loop: the result is \<open>Some\<close> when it returns.  In the loop \<open>Next_wake\<close> is one
  round, for the case of the \<open>select\<close> that is taken; the loop ends when \<open>cancel\<close> has been set to nil.
\<close>

datatype wake = WakeClosed | WakeCancelled | WakeToken

definition Next :: "bool \<Rightarrow> ring \<Rightarrow> iterator \<Rightarrow> bool option \<times> iterator" where
  "Next waits rb it =
     (if \<not> it_open it then (Some False, it)
      else
        (let (more_data, it1) = next_check rb (it\<lparr>it_next := False\<rparr>) in
         (if more_data then Some True else if waits then None else Some False, it1)))"

definition can_wake :: "wake \<Rightarrow> iterator \<Rightarrow> bool" where
  "can_wake w it = (case w of WakeClosed \<Rightarrow> it_closed it | WakeCancelled \<Rightarrow> True | WakeToken \<Rightarrow> it_next it)"

definition Next_wake :: "wake \<Rightarrow> ring \<Rightarrow> iterator \<Rightarrow> bool option \<times> iterator" where
  "Next_wake w rb it =
     (let closed = (w = WakeClosed \<and> Closed rb);
          it0 = (if w = WakeToken then it\<lparr>it_next := False\<rparr> else it);
          (more_data, it1) = next_check rb it0
      in (if more_data then Some True
          else if w = WakeCancelled \<or> it_index it1 = writeIndex rb \<and> closed then Some False
          else None, it1))"

definition iterator_Read :: "nat \<Rightarrow> ring \<Rightarrow> iterator \<Rightarrow> ring_fault + (char list \<times> io_err option) \<times> iterator" where
  "iterator_Read dest rb it =
     (if \<not> it_open it then Inr (([], Some ErrEOF), it)
      else if it_trunc it \<noteq> [] then
        Inr ((take dest (it_trunc it), None),
             it\<lparr>it_trunc := drop (length (take dest (it_trunc it))) (it_trunc it), it_truncWritten := True\<rparr>)
      else and_then (Copy dest (it_index it) rb) (\<lambda>(next, bs, e).
        let it1 = it\<lparr>it_truncWritten := (if bs \<noteq> [] then False else it_truncWritten it), it_index := next\<rparr> in
        if e = Some ErrRange then Inr ((bs, Some ErrEOF), truncated it1) else Inr ((bs, e), it1)))"

definition iterator_WriteTo ::
    "(char list \<Rightarrow> 'w \<Rightarrow> (nat \<times> io_err option) \<times> 'w) \<Rightarrow> ring \<Rightarrow> iterator \<Rightarrow> 'w \<Rightarrow>
     ring_fault + (nat \<times> io_err option) \<times> iterator \<times> 'w" where
  "iterator_WriteTo write rb it w =
     (if \<not> it_open it then Inr ((0, Some ErrEOF), it, w)
      else if it_trunc it \<noteq> [] then
        (case write (it_trunc it) w of ((n, e), w1) \<Rightarrow>
           Inr ((n, e), it\<lparr>it_trunc := drop n (it_trunc it), it_truncWritten := True\<rparr>, w1))
      else and_then (WriteTo write (it_index it) rb w) (\<lambda>((next, n, e), w1).
        let it1 = it\<lparr>it_truncWritten := (if 0 < n then False else it_truncWritten it), it_index := next\<rparr> in
        if e = Some ErrRange then Inr ((n, Some ErrEOF), truncated it1, w1) else Inr ((n, e), it1, w1)))"

definition iterator_Buffered :: "ring \<Rightarrow> iterator \<Rightarrow> int" where
  "iterator_Buffered rb it =
     (let (from, till) = Positions rb in till - (if from < it_index it then it_index it else from))"

definition Notify :: "nat option \<Rightarrow> iterator \<Rightarrow> iterator" where
  "Notify ch it = it\<lparr>it_notify := ch\<rparr>"

subsection \<open>What a reader is given\<close>

text \<open>
  The pieces handed to a reader are data or parts of the marker.  \<open>delivers h a out p\<close>: reading from
  position \<open>a\<close> of the bytes \<open>h\<close> has given \<open>out\<close> and goes on at \<open>p\<close>, where the position only skips bytes after
  the whole marker was given.
\<close>

datatype chunk = Data "char list" | Mark "char list"

definition partly_marked :: "chunk list \<Rightarrow> char list \<Rightarrow> bool" where
  "partly_marked out rest \<longleftrightarrow> (\<exists>out' ms. out = out' @ map Mark ms \<and> concat ms @ rest = truncBytes)"

inductive delivers :: "char list \<Rightarrow> int \<Rightarrow> chunk list \<Rightarrow> int \<Rightarrow> bool" for h a where
  begins: "delivers h a [] a"
| reads_data: "delivers h a out p \<Longrightarrow> 0 \<le> p \<Longrightarrow> bs = take (length bs) (drop (nat p) h) \<Longrightarrow>
    delivers h a (out @ [Data bs]) (p + int (length bs))"
| marks: "delivers h a out p \<Longrightarrow> delivers h a (out @ [Mark bs]) p"
| skips: "delivers h a out p \<Longrightarrow> partly_marked out [] \<Longrightarrow> p \<le> q \<Longrightarrow> delivers h a out q"

inductive_cases delivers_NilE: "delivers h a [] p"

text \<open>The life of a reader: the buffer is written, closed or discarded from, and the reader polls or reads.\<close>

datatype log_event = Writes "char list" | Closes | Discards nat | Polls | Reads nat

definition log_step ::
    "log_event \<Rightarrow> char list \<times> ring \<times> iterator \<times> chunk list \<Rightarrow> ring_fault + char list \<times> ring \<times> iterator \<times> chunk list" where
  "log_step e w =
     (case w of (h, rb, it, out) \<Rightarrow> case e of
        Writes p \<Rightarrow> and_then (Write p rb) (\<lambda>((n, err), rb1). Inr (h @ take n p, rb1, signal it, out))
      | Closes \<Rightarrow> Inr (h, rb\<lparr>writeClosed := True\<rparr>, it\<lparr>it_closed := True\<rparr>, out)
      | Discards n \<Rightarrow> Inr (h, discard (int n) rb, it, out)
      | Polls \<Rightarrow> Inr (h, rb, snd (Next True rb it), out)
      | Reads n \<Rightarrow> and_then (iterator_Read n rb it) (\<lambda>((bs, err), it1).
          Inr (h, rb, it1, out @ (if it_open it \<and> it_trunc it \<noteq> [] then [Mark bs]
                                  else if bs = [] then [] else [Data bs]))))"

fun log_run ::
    "log_event list \<Rightarrow> char list \<times> ring \<times> iterator \<times> chunk list \<Rightarrow> ring_fault + char list \<times> ring \<times> iterator \<times> chunk list" where
  "log_run [] w = Inr w"
| "log_run (e # es) w = and_then (log_step e w) (log_run es)"

text \<open>The ring holds the end of the bytes \<open>h\<close> that were written to it.\<close>

definition recorded :: "char list \<Rightarrow> ring \<Rightarrow> bool" where
  "recorded h rb \<longleftrightarrow> ring_wf rb \<and> int (length h) = writeIndex rb \<and> held rb = drop (nat (readIndex rb)) h"

lemma recorded_new: "0 < n \<Longrightarrow> recorded [] (NewRingBuffer n)"
  using NewRingBuffer_wf [of n] by (simp add: recorded_def NewRingBuffer_def)

lemma recorded_closed [simp]: "recorded h (rb\<lparr>writeClosed := c\<rparr>) = recorded h rb"
  by (simp add: recorded_def ring_wf_def held_def Size_def)

lemma recorded_discard: "recorded h rb \<Longrightarrow> recorded h (discard (int n) rb)"
proof -
  assume rec: "recorded h rb"
  define k where "k = min n (nat (buffered rb))"
  have d: "discard (int n) rb = rb\<lparr>readIndex := readIndex rb + int k\<rparr>"
    using rec by (auto simp: discard_def k_def recorded_def ring_wf_def buffered_def min_def)
  have k: "readIndex rb + int k \<le> writeIndex rb" "0 \<le> readIndex rb"
    using rec by (auto simp: k_def recorded_def ring_wf_def buffered_def min_def)
  have "segment (rb_data rb) (nat (readIndex rb + int k)) (nat (writeIndex rb)) = drop k (held rb)"
    by (simp add: held_def segment_def drop_map nat_add_distrib k)
  with rec k show ?thesis
    by (auto simp: d recorded_def ring_wf_def held_def Size_def nat_add_distrib drop_drop add.commute)
qed

lemma recorded_Write:
  assumes "recorded h rb"
  obtains n err rb' where "Write p rb = Inr ((n, err), rb')" "recorded (h @ take n p) rb'"
    "readIndex rb \<le> readIndex rb'" "writeIndex rb' = writeIndex rb + int n"
    "writeClosed rb \<longrightarrow> n = 0" "\<not> writeClosed rb \<longrightarrow> n = min (length p) (length (rb_data rb))"
proof (cases "writeClosed rb")
  case True
  with assms show thesis
    by (intro that [of 0 "if p = [] then None else Some ErrClosedPipe" rb]) (auto simp: Write_def)
next
  case False
  define n l where "n = length (rb_data rb)" and "l = min (length p) (length (rb_data rb))"
  from assms have wf: "ring_wf rb" and h: "int (length h) = writeIndex rb" "held rb = drop (nat (readIndex rb)) h"
    by (auto simp: recorded_def)
  define r where "r = nat (readIndex rb)"
  have r: "readIndex rb = int r" "r \<le> length h" "length h - r \<le> n"
    using wf h(1) by (auto simp: ring_wf_def r_def n_def Size_def)
  have l: "length (take l p) = l" by (simp add: l_def)
  from Write_ok [OF wf False, of p, folded n_def l_def] obtain rb' where
    w: "Write p rb = Inr ((l, if l < length p then Some ErrShortWrite else None), rb')" "ring_wf rb'"
    "writeIndex rb' = writeIndex rb + int l"
    "readIndex rb' = (if writeIndex rb + int l - readIndex rb \<le> int n then readIndex rb else writeIndex rb + int l - int n)"
    "held rb' = keep n (held rb @ take l p)" .
  have "held rb' = drop (length h - r + l - n) (drop r (h @ take l p))"
    using r(2) l by (simp add: w(5) h(2) r_def [symmetric] keep_def)
  also have "\<dots> = drop (r + (length h - r + l - n)) (h @ take l p)"
    by (simp only: drop_drop add.commute)
  also have "r + (length h - r + l - n) = nat (readIndex rb')"
    using w(4) r h(1) by (auto split: if_splits)
  finally have "recorded (h @ take l p) rb'" using w(2,3) h(1) l by (simp add: recorded_def)
  moreover have "readIndex rb \<le> readIndex rb'" using w(4) by simp
  ultimately show thesis using w(1,3) False by (intro that) (auto simp: l_def)
qed

lemma delivers_more: "delivers h a out p \<Longrightarrow> delivers (h @ x) a out p"
proof (induction rule: delivers.induct)
  case (reads_data out p bs)
  have "length bs \<le> length (drop (nat p) h)" by (subst reads_data(3)) simp
  then have "take (length bs) (drop (nat p) (h @ x)) = take (length bs) (drop (nat p) h)" by simp
  with reads_data show ?case by (intro delivers.reads_data) simp_all
qed (auto intro: delivers.intros)

lemma partly_marked_new [simp]: "partly_marked out truncBytes"
  unfolding partly_marked_def by (intro exI [of _ out] exI [of _ "[]"]) simp

lemma partly_marked_part:
  assumes "partly_marked out t"
  shows "partly_marked (out @ [Mark (take n t)]) (drop n t)"
proof -
  from assms obtain out' ms where "out = out' @ map Mark ms" "concat ms @ t = truncBytes"
    by (auto simp: partly_marked_def)
  then show ?thesis unfolding partly_marked_def
    by (intro exI [of _ out'] exI [of _ "ms @ [take n t]"]) simp
qed

lemma partly_marked_self: "partly_marked out t \<Longrightarrow> partly_marked (out @ [Mark t]) []"
  using partly_marked_part [of out t "length t"] by simp

definition reader_inv :: "int \<Rightarrow> char list \<times> ring \<times> iterator \<times> chunk list \<Rightarrow> bool" where
  "reader_inv a w \<longleftrightarrow> (case w of (h, rb, it, out) \<Rightarrow>
     recorded h rb \<and> it_open it \<and>
     (it_trunc it \<noteq> [] \<longrightarrow> it_index it = TailPosition \<and> partly_marked out (it_trunc it)) \<and>
     (it_trunc it = [] \<and> (it_truncWritten it \<or> it_index it = TailPosition) \<longrightarrow> partly_marked out []) \<and>
     (\<exists>p. delivers h a out p \<and>
        (if it_index it = TailPosition then p \<le> readIndex rb else p = it_index it \<and> p \<le> writeIndex rb)))"

lemma truncBytes_ne [simp]: "truncBytes \<noteq> []"
  by (simp add: truncBytes_def)

lemma truncated_fields [simp]:
  "it_open (truncated it) = it_open it" "it_index (truncated it) = TailPosition"
  "it_truncWritten (truncated it) = it_truncWritten it"
  "it_trunc (truncated it) =
     (if it_trunc it \<noteq> [] \<or> it_truncWritten it then it_trunc it else truncBytes)"
  by (simp_all add: truncated_def Let_def)

lemma truncated_inv:
  assumes "reader_inv a (h, rb, it, out)" and "it_index it < readIndex rb"
  shows "reader_inv a (h, rb, truncated (it\<lparr>it_index := x\<rparr>), out)"
  using assms unfolding reader_inv_def by (auto split: if_splits)

lemma next_check_inv:
  assumes "reader_inv a (h, rb, it, out)"
  shows "reader_inv a (h, rb, snd (next_check rb it), out)"
  using assms truncated_inv [OF assms] unfolding next_check_def by (simp add: Let_def)

lemma Next_inv:
  assumes "reader_inv a (h, rb, it, out)"
  shows "reader_inv a (h, rb, snd (Next waits rb it), out)"
proof -
  have "reader_inv a (h, rb, it\<lparr>it_next := False\<rparr>, out)"
    using assms by (cases "it_index it = TailPosition") (simp_all add: reader_inv_def)
  from next_check_inv [OF this] assms show ?thesis
    by (cases "next_check rb (it\<lparr>it_next := False\<rparr>)") (simp add: Next_def)
qed

lemma reader_inv_write:
  assumes "reader_inv a (h, rb, it, out)" and "recorded (h @ x) rb'" "readIndex rb \<le> readIndex rb'"
    "writeIndex rb \<le> writeIndex rb'"
  shows "reader_inv a (h @ x, rb', signal it, out)"
proof -
  from assms(1) obtain p where p: "delivers h a out p"
    "if it_index it = TailPosition then p \<le> readIndex rb else p = it_index it \<and> p \<le> writeIndex rb"
    by (auto simp: reader_inv_def)
  have "delivers (h @ x) a out p \<and>
      (if it_index it = TailPosition then p \<le> readIndex rb' else p = it_index it \<and> p \<le> writeIndex rb')"
    using p(2) assms(3,4) delivers_more [OF p(1)] by (auto split: if_splits)
  then show ?thesis using assms(1,2) by (auto simp: reader_inv_def signal_def)
qed

lemma reader_invD:
  assumes "reader_inv a (h, rb, it, out)"
  obtains p where "recorded h rb" "it_open it" "delivers h a out p"
    "if it_index it = TailPosition then p \<le> readIndex rb else p = it_index it \<and> p \<le> writeIndex rb"
    "it_trunc it \<noteq> [] \<Longrightarrow> it_index it = TailPosition \<and> partly_marked out (it_trunc it)"
    "it_trunc it = [] \<Longrightarrow> it_truncWritten it \<or> it_index it = TailPosition \<Longrightarrow> partly_marked out []"
  using assms by (auto simp: reader_inv_def)

lemma reader_inv_mark:
  assumes i: "reader_inv a (h, rb, it, out)" and t: "it_trunc it \<noteq> []"
  shows "reader_inv a (h, rb, it\<lparr>it_trunc := drop n (it_trunc it), it_truncWritten := True\<rparr>,
           out @ [Mark (take n (it_trunc it))])"
proof -
  from i t obtain p where p: "recorded h rb" "it_open it" "delivers h a out p" "it_index it = TailPosition"
    "p \<le> readIndex rb" "partly_marked out (it_trunc it)"
    by (elim reader_invD) auto
  from partly_marked_part [OF p(6), of n]
  have m: "partly_marked (out @ [Mark (take n (it_trunc it))]) (drop n (it_trunc it))" .
  then have "partly_marked (out @ [Mark (take n (it_trunc it))]) []" if "length (it_trunc it) \<le> n"
    using that by simp
  with p m marks [OF p(3)] show ?thesis by (auto simp: reader_inv_def)
qed

text \<open>Data is read at the position the reader has reached, after the marker if that skips bytes.\<close>

lemma reader_inv_data:
  assumes i: "reader_inv a (h, rb, it, out)" and t: "it_trunc it = []"
    and pos: "pos = (if it_index it = TailPosition then readIndex rb else it_index it)" "readIndex rb \<le> pos"
    and bs: "bs = take (length bs) (drop (nat (pos - readIndex rb)) (held rb))" "bs \<noteq> []"
  shows "reader_inv a (h, rb, it\<lparr>it_truncWritten := False, it_index := pos + int (length bs)\<rparr>, out @ [Data bs])"
proof -
  from i obtain p where p: "recorded h rb" "it_open it" "delivers h a out p"
    "if it_index it = TailPosition then p \<le> readIndex rb else p = it_index it \<and> p \<le> writeIndex rb"
    "it_index it = TailPosition \<Longrightarrow> partly_marked out []"
    using t by (elim reader_invD) auto
  have "delivers h a out pos" using p(3,4,5) pos(1) by (auto intro: skips split: if_splits)
  moreover have r: "0 \<le> readIndex rb" "held rb = drop (nat (readIndex rb)) h" "int (length h) = writeIndex rb"
    using p(1) by (auto simp: recorded_def ring_wf_def)
  then have "drop (nat (pos - readIndex rb)) (held rb) = drop (nat pos) h"
    using pos(2) by (simp add: drop_drop nat_diff_distrib)
  with bs have d: "bs = take (length bs) (drop (nat pos) h)" by simp
  ultimately have "delivers h a (out @ [Data bs]) (pos + int (length bs))"
    using r pos(2) by (intro reads_data) auto
  moreover have "length bs \<le> length (drop (nat pos) h)" by (subst d) simp
  then have "nat pos + length bs \<le> length h" using bs(2) by (cases "drop (nat pos) h = []") auto
  then have "pos + int (length bs) \<le> writeIndex rb" using r pos(2) by linarith
  moreover have "pos + int (length bs) \<noteq> TailPosition" using r pos(2) by (simp add: TailPosition_def)
  ultimately show ?thesis using p(1,2) t by (auto simp: reader_inv_def)
qed

lemma iterator_Read_inv:
  assumes i: "reader_inv a (h, rb, it, out)"
  obtains bs err it' where "iterator_Read n rb it = Inr ((bs, err), it')"
    "reader_inv a (h, rb, it', out @ (if it_trunc it \<noteq> [] then [Mark bs] else if bs = [] then [] else [Data bs]))"
proof (cases "it_trunc it = []")
  case False
  have "drop (length (take n (it_trunc it))) (it_trunc it) = drop n (it_trunc it)"
    by (cases "n \<le> length (it_trunc it)") simp_all
  moreover have "it_open it" using i by (simp add: reader_inv_def)
  ultimately have "iterator_Read n rb it = Inr ((take n (it_trunc it), None),
      it\<lparr>it_trunc := drop n (it_trunc it), it_truncWritten := True\<rparr>)"
    using False by (simp add: iterator_Read_def del: length_take)
  then show thesis using reader_inv_mark [OF i False, of n] False by (intro that) simp_all
next
  case True
  from i have wf: "ring_wf rb" and op: "it_open it" by (auto simp: reader_inv_def recorded_def)
  define pos where "pos = (if it_index it = TailPosition then readIndex rb else it_index it)"
  define bs where "bs = take n (drop (nat (pos - readIndex rb)) (held rb))"
  note copy = Copy_spec [OF wf, of n "it_index it", folded pos_def bs_def]
  have "pos \<le> writeIndex rb" using i wf by (auto simp: pos_def reader_inv_def ring_wf_def split: if_splits)
  then consider (range) "pos < readIndex rb" | (eof) "pos = writeIndex rb" | (none) "readIndex rb \<le> pos" "pos < writeIndex rb" "n = 0"
    | (data) "readIndex rb \<le> pos" "pos < writeIndex rb" "0 < n" by linarith
  then show thesis
  proof cases
    case range
    then have "it_index it = pos" by (auto simp: pos_def split: if_splits)
    with range have "iterator_Read n rb it = Inr (([], Some ErrEOF), truncated (it\<lparr>it_index := it_index it\<rparr>))"
      using True op copy by (simp add: iterator_Read_def)
    moreover have "it_index it < readIndex rb" using range \<open>it_index it = pos\<close> by simp
    ultimately show thesis using truncated_inv [OF i, of "it_index it"] True
      by (intro that [of "[]" "Some ErrEOF" "truncated it"]) simp_all
  next
    case eof
    then have "iterator_Read n rb it = Inr (([], Some ErrEOF), it)"
      using True op copy wf by (simp add: iterator_Read_def ring_wf_def)
    then show thesis using i True by (intro that [of "[]" "Some ErrEOF" it]) simp_all
  next
    case none
    then have "iterator_Read n rb it = Inr (([], None), it)"
      using True op copy wf by (simp add: iterator_Read_def)
    then show thesis using i True by (intro that [of "[]" None it]) simp_all
  next
    case data
    have "int (length (held rb)) = writeIndex rb - readIndex rb" using held_length [OF wf] by (simp add: buffered_def)
    with data have ne: "bs \<noteq> []" by (simp add: bs_def)
    with data have "iterator_Read n rb it = Inr ((bs, if pos + int (length bs) = writeIndex rb then Some ErrEOF else None),
        it\<lparr>it_truncWritten := False, it_index := pos + int (length bs)\<rparr>)"
      using True op copy by (simp add: iterator_Read_def)
    moreover have "bs = take (length bs) (drop (nat (pos - readIndex rb)) (held rb))"
      by (simp add: bs_def min_def)
    ultimately show thesis
      using reader_inv_data [OF i True pos_def data(1), of bs] ne True
      by (intro that [of bs _ "it\<lparr>it_truncWritten := False, it_index := pos + int (length bs)\<rparr>"]) simp_all
  qed
qed

lemma log_step_inv:
  assumes "reader_inv a w"
  obtains w' where "log_step e w = Inr w'" "reader_inv a w'"
proof -
  obtain h rb it out where w: "w = (h, rb, it, out)" by (cases w)
  from assms have rec: "recorded h rb" and op: "it_open it" by (auto simp: w reader_inv_def)
  show thesis
  proof (cases e)
    case (Writes p)
    from recorded_Write [OF rec, of p] obtain n err rb' where
      "Write p rb = Inr ((n, err), rb')" "recorded (h @ take n p) rb'" "readIndex rb \<le> readIndex rb'"
      "writeIndex rb' = writeIndex rb + int n" by metis
    then show thesis using assms w Writes
      by (intro that [of "(h @ take n p, rb', signal it, out)"]) (auto simp: log_step_def intro: reader_inv_write)
  next
    case Closes
    with assms w show thesis by (intro that) (auto simp: log_step_def reader_inv_def split: if_splits)
  next
    case (Discards n)
    have "readIndex rb \<le> readIndex (discard (int n) rb)" "writeIndex (discard (int n) rb) = writeIndex rb"
      using rec by (auto simp: discard_def recorded_def ring_wf_def buffered_def)
    then show thesis using assms w Discards recorded_discard [OF rec, of n]
      by (intro that [of "(h, discard (int n) rb, it, out)"]) (auto simp: log_step_def reader_inv_def split: if_splits)
  next
    case Polls
    then show thesis using Next_inv assms w
      by (intro that [of "(h, rb, snd (Next True rb it), out)"]) (auto simp: log_step_def)
  next
    case (Reads n)
    from iterator_Read_inv [of a h rb it out n] assms w obtain bs err it' where
      "iterator_Read n rb it = Inr ((bs, err), it')"
      "reader_inv a (h, rb, it', out @ (if it_trunc it \<noteq> [] then [Mark bs] else if bs = [] then [] else [Data bs]))"
      by metis
    with Reads w op show thesis by (intro that) (auto simp: log_step_def)
  qed
qed

lemma log_run_inv: "reader_inv a w \<Longrightarrow> \<exists>w'. log_run es w = Inr w' \<and> reader_inv a w'"
proof (induction es arbitrary: w)
  case (Cons e es)
  from log_step_inv [OF Cons.prems] obtain w1 where "log_step e w = Inr w1" "reader_inv a w1" .
  with Cons.IH show ?case by simp
qed simp

lemma reader_starts:
  "recorded h rb \<Longrightarrow> a \<le> writeIndex rb \<Longrightarrow> a \<noteq> TailPosition \<Longrightarrow> reader_inv a (h, rb, new_iterator a c, [])"
  by (auto simp: reader_inv_def new_iterator_def intro: begins)

text \<open>A written byte wakes every reader, and a reader that polls finds what it has not read.\<close>

lemma next_check_unread:
  assumes "recorded h rb" "it_index it < writeIndex rb" "readIndex rb < writeIndex rb"
  shows "fst (next_check rb it)"
  using assms by (auto simp: next_check_def Let_def recorded_def ring_wf_def TailPosition_def)

lemma log_Write_wakes:
  assumes "recorded h (lb_ring b)" and "log_Write p b = Inr ((n, err), b')" "0 < n"
    and "i \<in> set (lb_list b)" "fmlookup (lb_iters b) i = Some it"
  shows "\<exists>it'. fmlookup (lb_iters b') i = Some it' \<and> it_next it' \<and> it_index it' = it_index it"
proof -
  obtain err rb' where w: "Write p (lb_ring b) = Inr ((n, err), rb')"
    using assms(2) by (auto simp: log_Write_def Let_def and_then_Inr_iff)
  with assms show ?thesis
    by (auto simp: log_Write_def signalIterators_def signal_def Let_def)
qed

text \<open>
  C24: Whatever happens to the buffer, a reader that starts at a position of the buffer is given the bytes
  that were written, in order and without gaps, except that it is given the whole truncation marker
  wherever it lost bytes; and no read or write fails.  A reader that stands at the head and has no
  marker to give has been given everything.
\<close>

theorem iterator_delivers:
  assumes "recorded h rb" "a \<le> writeIndex rb" "a \<noteq> TailPosition"
  shows "\<exists>h' rb' it' out p. log_run es (h, rb, new_iterator a c, []) = Inr (h', rb', it', out) \<and>
    recorded h' rb' \<and> delivers h' a out p \<and>
    (it_index it' = writeIndex rb' \<longrightarrow> p = int (length h'))"
proof -
  from log_run_inv [OF reader_starts [OF assms], of es c] obtain h' rb' it' out where
    run: "log_run es (h, rb, new_iterator a c, []) = Inr (h', rb', it', out)"
    and inv: "reader_inv a (h', rb', it', out)"
    by (metis prod_cases4)
  from inv obtain p where "recorded h' rb'" "delivers h' a out p"
    "if it_index it' = TailPosition then p \<le> readIndex rb' else p = it_index it' \<and> p \<le> writeIndex rb'"
    by (elim reader_invD)
  moreover from this have "it_index it' = writeIndex rb' \<longrightarrow> p = int (length h')"
    by (auto simp: recorded_def ring_wf_def TailPosition_def)
  ultimately show ?thesis using run by blast
qed

theorem iterator_delivers_witness:
  "\<exists>h' rb' it' out p.
     log_run [Writes ''abc'', Reads 2, Writes ''defg'', Polls, Reads 99, Reads 99] ([], NewRingBuffer 4, new_iterator 0 False, []) =
       Inr (h', rb', it', out) \<and> recorded h' rb' \<and> delivers h' 0 out p \<and>
     (it_index it' = writeIndex rb' \<longrightarrow> p = int (length h'))"
  by (rule iterator_delivers [OF recorded_new]) (simp_all add: NewRingBuffer_def TailPosition_def)

lemma iterator_truncated_sample:
  "map_sum id (\<lambda>(h, rb, it, out). out)
     (log_run [Writes ''abc'', Reads 2, Writes ''defg'', Polls, Reads 99, Reads 99]
        ([], NewRingBuffer 4, new_iterator 0 False, [])) =
   Inr [Data ''ab'', Mark truncBytes, Data ''defg'']"
  by code_simp

text \<open>
  A reader put ten lines back on a buffer nothing was written to is told that output was truncated: the
  position it starts from is before the start of the buffer.
\<close>

lemma HeadIterator_empty_truncated:
  "case reverseLinePosition 10 (NewRingBuffer 4) of
     Inl _ \<Rightarrow> False
   | Inr a \<Rightarrow> fst (Next False (NewRingBuffer 4) (new_iterator a False)) = Some True \<and>
       it_trunc (snd (Next False (NewRingBuffer 4) (new_iterator a False))) = truncBytes"
  by code_simp

end
