(* ===== verification/LogFormat.thy ===== *)
theory LogFormat
  imports LogIterator
begin

text \<open>
  \<open>src/internals/servicelog/formatter.go\<close> and \<open>AppendTimestamp\<close> of \<open>src/internals/logger/logger.go\<close>: the
  writer that puts a time and the service's name before every line.  The \<open>time.Now\<close> of each line is read
  from a clock, a function from the number of times it was read.  The formatter writes to any
  \<open>io.Writer\<close>: a function from the bytes and the writer's state to the number of bytes taken, an error
  and the new state.  What it relies on is the locale \<open>io_writer\<close>, the contract of \<open>io.Writer\<close>,
  which the ring buffer is shown to meet.  A writer that takes nothing and reports no error would keep the loop over the timestamp
  from ending: the loops are partial functions, and the locale's lemmas show that they return.
\<close>

text \<open>The fields of a \<open>time.Time\<close> in UTC.\<close>

record utc_time =
  utc_year :: nat
  utc_month :: nat
  utc_day :: nat
  utc_hour :: nat
  utc_minute :: nat
  utc_second :: nat
  utc_nano :: nat

definition two_digits :: "nat \<Rightarrow> char list" where
  "two_digits n = [char_of (48 + n div 10), char_of (48 + n mod 10)]"

text \<open>\<open>AppendTimestamp\<close> on the emptied buffer that every caller passes.\<close>

definition AppendTimestamp :: "utc_time \<Rightarrow> char list" where
  "AppendTimestamp t =
     (let ms = utc_nano t div 1000000 in
      [char_of (48 + utc_year t div 1000 mod 10), char_of (48 + utc_year t div 100 mod 10),
       char_of (48 + utc_year t div 10 mod 10), char_of (48 + utc_year t mod 10), CHR ''-''] @
      two_digits (utc_month t) @ ''-'' @ two_digits (utc_day t) @ ''T'' @
      two_digits (utc_hour t) @ '':'' @ two_digits (utc_minute t) @ '':'' @ two_digits (utc_second t) @ ''.'' @
      [char_of (48 + ms div 100), char_of (48 + ms div 10 mod 10), char_of (48 + ms mod 10), CHR ''Z''])"

record formatter =
  f_service :: string
  f_writeTimestamp :: bool
  f_timestamp :: "char list"
  f_ticks :: nat

definition NewFormatWriter :: "string \<Rightarrow> formatter" where
  "NewFormatWriter name = \<lparr>f_service = name, f_writeTimestamp = True, f_timestamp = [], f_ticks = 0\<rparr>"

definition line_prefix :: "(nat \<Rightarrow> utc_time) \<Rightarrow> string \<Rightarrow> nat \<Rightarrow> char list" where
  "line_prefix clock name k = AppendTimestamp (clock k) @ '' ['' @ name @ ''] ''"

definition begin_line :: "(nat \<Rightarrow> utc_time) \<Rightarrow> formatter \<Rightarrow> formatter" where
  "begin_line clock f =
     (if f_writeTimestamp f
      then f\<lparr>f_writeTimestamp := False, f_timestamp := line_prefix clock (f_service f) (f_ticks f),
             f_ticks := f_ticks f + 1\<rparr>
      else f)"

text \<open>The loop that writes the timestamp: the result is what is left of it, with the error.\<close>

partial_function (option) write_timestamp ::
    "(char list \<Rightarrow> 'w \<Rightarrow> (nat \<times> io_err option) \<times> 'w) \<Rightarrow> char list \<Rightarrow> 'w \<Rightarrow> ((char list \<times> io_err option) \<times> 'w) option" where
  "write_timestamp put ts w =
     (if ts = [] then Some (([], None), w)
      else case put ts w of
        ((n, Some e), w1) \<Rightarrow> Some ((drop n ts, Some e), w1)
      | ((n, None), w1) \<Rightarrow> write_timestamp put (drop n ts) w1)"

definition line_length :: "char list \<Rightarrow> nat" where
  "line_length p = (let l = length (takeWhile (\<lambda>c. c \<noteq> newline) p) in if l < length p then l + 1 else l)"

text \<open>
  The loop of \<open>formatter.Write\<close>: \<open>written\<close> bytes of the payload are done and \<open>p\<close> is left.  \<open>None\<close> is a
  loop that does not end.
\<close>

partial_function (option) format_loop ::
    "(char list \<Rightarrow> 'w \<Rightarrow> (nat \<times> io_err option) \<times> 'w) \<Rightarrow> (nat \<Rightarrow> utc_time) \<Rightarrow> char list \<Rightarrow> nat \<Rightarrow>
     formatter \<Rightarrow> 'w \<Rightarrow> ((nat \<times> io_err option) \<times> formatter \<times> 'w) option" where
  "format_loop put clock p written f w =
     (if p = [] then Some ((written, None), f, w)
      else
        (let f1 = begin_line clock f in
         case write_timestamp put (f_timestamp f1) w of
           None \<Rightarrow> None
         | Some ((ts, Some e), w1) \<Rightarrow> Some ((written, Some e), f1\<lparr>f_timestamp := ts\<rparr>, w1)
         | Some ((ts, None), w1) \<Rightarrow>
             (let len = line_length p;
                  f2 = f1\<lparr>f_timestamp := ts, f_writeTimestamp := f_writeTimestamp f1 \<or> newline \<in> set p\<rparr>
              in case put (take len p) w1 of
                   ((n, Some e), w2) \<Rightarrow> Some ((written + n, Some e), f2, w2)
                 | ((n, None), w2) \<Rightarrow> format_loop put clock (drop n p) (written + n) f2 w2)))"

definition formatter_Write ::
    "(char list \<Rightarrow> 'w \<Rightarrow> (nat \<times> io_err option) \<times> 'w) \<Rightarrow> (nat \<Rightarrow> utc_time) \<Rightarrow> char list \<Rightarrow>
     formatter \<Rightarrow> 'w \<Rightarrow> ((nat \<times> io_err option) \<times> formatter \<times> 'w) option" where
  "formatter_Write put clock p f w = format_loop put clock p 0 f w"

text \<open>
  The reference: the payload with a prefix at the start of every line, byte by byte.  \<open>fresh\<close>: the next
  byte starts a line.
\<close>

fun annotate :: "(nat \<Rightarrow> char list) \<Rightarrow> nat \<Rightarrow> bool \<Rightarrow> char list \<Rightarrow> char list" where
  "annotate pre k fresh [] = []"
| "annotate pre k fresh (c # cs) =
     (if fresh then pre k else []) @ c # annotate pre (if fresh then k + 1 else k) (c = newline) cs"

text \<open>How the line state and the number of prefixes go on after some bytes.\<close>

fun after_line :: "nat \<Rightarrow> bool \<Rightarrow> char list \<Rightarrow> nat \<times> bool" where
  "after_line k fresh [] = (k, fresh)"
| "after_line k fresh (c # cs) = after_line (if fresh then k + 1 else k) (c = newline) cs"

lemma annotate_append:
  "annotate pre k fresh (xs @ ys) =
     annotate pre k fresh xs @ (case after_line k fresh xs of (k', fresh') \<Rightarrow> annotate pre k' fresh' ys)"
  by (induction xs arbitrary: k fresh) auto

lemma after_line_append:
  "after_line k fresh (xs @ ys) = (case after_line k fresh xs of (k', fresh') \<Rightarrow> after_line k' fresh' ys)"
  by (induction xs arbitrary: k fresh) auto

lemma annotate_plain: "newline \<notin> set xs \<Longrightarrow> annotate pre k False xs = xs \<and> after_line k False xs = (k, False)"
  by (induction xs) auto

lemma line_length_le: "line_length p \<le> length p"
  using length_takeWhile_le [of "\<lambda>c. c \<noteq> newline" p] by (auto simp: line_length_def Let_def)

lemma line_length_pos: "p \<noteq> [] \<Longrightarrow> 0 < line_length p"
  by (cases p) (auto simp: line_length_def Let_def)

text \<open>One line: its bytes follow its prefix, and the next starts with one exactly when it has its newline.\<close>

lemma annotate_line:
  assumes "p \<noteq> []"
  shows "annotate pre k fresh (take (line_length p) p) = (if fresh then pre k else []) @ take (line_length p) p \<and>
    after_line k fresh (take (line_length p) p) = (if fresh then k + 1 else k, newline \<in> set p)"
proof (cases "newline \<in> set p")
  case True
  then obtain xs ys where p: "p = xs @ newline # ys" and xs: "newline \<notin> set xs" using split_list_first by metis
  moreover from xs have "takeWhile (\<lambda>c. c \<noteq> newline) xs = xs" by (auto simp: takeWhile_eq_all_conv)
  ultimately have "line_length p = length xs + 1" by (simp add: line_length_def Let_def takeWhile_tail)
  with p have l: "take (line_length p) p = xs @ [newline]" by simp
  show ?thesis unfolding l
    using xs True annotate_plain [of xs] by (cases xs) (auto simp: annotate_append after_line_append)
next
  case False
  then have "length (takeWhile (\<lambda>c. c \<noteq> newline) p) = length p"
    by (intro arg_cong [where f = length]) (auto simp: takeWhile_eq_all_conv)
  then have "line_length p = length p" by (simp add: line_length_def)
  then show ?thesis using assms False annotate_plain [of "tl p"] by (cases p) auto
qed

text \<open>What a formatter in state \<open>f\<close> has to write for the payload \<open>p\<close>, and its state after it.\<close>

definition formatted :: "(nat \<Rightarrow> utc_time) \<Rightarrow> formatter \<Rightarrow> char list \<Rightarrow> char list" where
  "formatted clock f p =
     (if p = [] then []
      else (if f_writeTimestamp f then [] else f_timestamp f) @
           annotate (line_prefix clock (f_service f)) (f_ticks f) (f_writeTimestamp f) p)"

definition formatted_state :: "formatter \<Rightarrow> char list \<Rightarrow> formatter" where
  "formatted_state f p =
     (if p = [] then f
      else f\<lparr>f_timestamp := [], f_ticks := fst (after_line (f_ticks f) (f_writeTimestamp f) p),
             f_writeTimestamp := snd (after_line (f_ticks f) (f_writeTimestamp f) p)\<rparr>)"

lemma formatted_append:
  "formatted clock f (p @ q) = formatted clock f p @ formatted clock (formatted_state f p) q"
  by (simp add: formatted_def formatted_state_def annotate_append split: prod.splits)

lemma formatted_state_append: "formatted_state f (p @ q) = formatted_state (formatted_state f p) q"
  by (simp add: formatted_state_def after_line_append split: prod.splits)

text \<open>A payload of one line and more: its prefix, the line, and the rest from the state after the line.\<close>

lemma formatted_line:
  fixes clock :: "nat \<Rightarrow> utc_time" and f :: formatter and p :: "char list"
  assumes "p \<noteq> []"
  defines "f1 \<equiv> begin_line clock f"
  defines "f2 \<equiv> f1\<lparr>f_timestamp := [], f_writeTimestamp := f_writeTimestamp f1 \<or> newline \<in> set p\<rparr>"
  shows "formatted clock f p =
      f_timestamp f1 @ take (line_length p) p @ formatted clock f2 (drop (line_length p) p)"
    and "formatted_state f p = formatted_state f2 (drop (line_length p) p)"
proof -
  define l where "l = take (line_length p) p"
  have l: "l \<noteq> []" using assms(1) line_length_pos [OF assms(1)] by (simp add: l_def)
  have a: "annotate pre k fresh l = (if fresh then pre k else []) @ l"
    "after_line k fresh l = (if fresh then k + 1 else k, newline \<in> set p)" for pre k fresh
    using annotate_line [OF assms(1), of pre k fresh] by (simp_all add: l_def)
  have p: "p = l @ drop (line_length p) p" by (simp add: l_def)
  have "formatted clock f l = f_timestamp f1 @ l"
    using l by (simp add: formatted_def a f1_def begin_line_def)
  moreover have s: "formatted_state f l = f2"
    using l by (simp add: formatted_state_def a f1_def f2_def begin_line_def)
  ultimately show "formatted clock f p = f_timestamp f1 @ take (line_length p) p @ formatted clock f2 (drop (line_length p) p)"
    using formatted_append [of clock f l "drop (line_length p) p"]
    unfolding l_def [symmetric] by (simp add: p [symmetric])
  show "formatted_state f p = formatted_state f2 (drop (line_length p) p)"
    using formatted_state_append [of f l "drop (line_length p) p"] by (simp add: p [symmetric] s)
qed

subsection \<open>Writers\<close>

text \<open>
  The contract of \<open>io.Writer\<close>: \<open>Write\<close> takes a prefix of its argument, and reports an error when that is
  not all of it.  \<open>holds\<close> is what the writer keeps of the bytes it took; it has room for \<open>room\<close> bytes.
\<close>

locale io_writer =
  fixes put :: "char list \<Rightarrow> 'w \<Rightarrow> (nat \<times> io_err option) \<times> 'w"
    and holds :: "'w \<Rightarrow> char list"
    and room :: "'w \<Rightarrow> nat"
    and sound :: "'w \<Rightarrow> bool"
  assumes takes: "sound w \<Longrightarrow> put p w = ((n, e), w') \<Longrightarrow>
      sound w' \<and> room w' = room w \<and> n \<le> length p \<and> holds w' = keep (room w) (holds w @ take n p)"
    and short: "sound w \<Longrightarrow> put p w = ((n, None), w') \<Longrightarrow> n = length p"
begin

text \<open>\<open>took w x w'\<close>: from \<open>w\<close> to \<open>w'\<close> the writer has taken the bytes \<open>x\<close>.\<close>

definition took :: "'w \<Rightarrow> char list \<Rightarrow> 'w \<Rightarrow> bool" where
  "took w x w' \<longleftrightarrow> sound w' \<and> room w' = room w \<and> keep (room w) (holds w') = keep (room w) (holds w @ x)"

lemma took_refl: "sound w \<Longrightarrow> took w [] w"
  by (simp add: took_def)

lemma took_trans:
  assumes "took w x w1" "took w1 y w2"
  shows "took w (x @ y) w2"
proof -
  have "keep (room w) (holds w2) = keep (room w) (holds w1 @ y)" using assms by (simp add: took_def)
  also have "\<dots> = keep (room w) (keep (room w) (holds w1) @ y)" by (rule keep_keep_append [symmetric])
  also have "\<dots> = keep (room w) (keep (room w) (holds w @ x) @ y)" using assms by (simp add: took_def)
  also have "\<dots> = keep (room w) (holds w @ x @ y)" by (simp add: keep_keep_append)
  finally show ?thesis using assms by (simp add: took_def)
qed

lemma took_write:
  assumes "sound w" "put p w = ((n, e), w')"
  shows "took w (take n p) w'"
  using takes [OF assms] keep_keep_append [of "room w" "holds w @ take n p" "[]"] by (simp add: took_def)

text \<open>The loop over the timestamp ends, and leaves what the writer did not take.\<close>

lemma write_timestamp_ok:
  assumes "sound w"
  obtains n e w' where "write_timestamp put ts w = Some ((drop n ts, e), w')"
    and "took w (take n ts) w'" and "e = None \<longrightarrow> length ts \<le> n"
proof (cases "ts = []")
  case True
  then show thesis using took_refl [OF assms]
    by (intro that [of 0 None w]) (simp_all add: write_timestamp.simps)
next
  case False
  obtain n e w1 where w: "put ts w = ((n, e), w1)" by (metis prod.exhaust)
  show thesis
  proof (cases e)
    case None
    with w short [OF assms] have "n = length ts" by simp
    then have "write_timestamp put ts w = Some ((drop n ts, None), w1)"
      using False w None by (simp add: write_timestamp.simps [of put ts] write_timestamp.simps [of put "[]"])
    then show thesis using took_write [OF assms w] \<open>n = length ts\<close> by (intro that [of n None w1]) simp_all
  next
    case (Some x)
    with False w have "write_timestamp put ts w = Some ((drop n ts, Some x), w1)"
      by (simp add: write_timestamp.simps [of put ts])
    then show thesis using took_write [OF assms w] by (intro that [of n "Some x" w1]) simp_all
  qed
qed

text \<open>The whole loop ends: without an error it has written all that it had to, else a part of it.\<close>

lemma format_loop_ok:
  assumes "sound w"
  shows "\<exists>n e f' w' x. format_loop put clock p written f w = Some ((written + n, e), f', w') \<and>
    n \<le> length p \<and> took w x w' \<and> (\<exists>rest. formatted clock f p = x @ rest) \<and>
    (e = None \<longrightarrow> n = length p \<and> x = formatted clock f p \<and> f' = formatted_state f p)"
  using assms
proof (induction "length p" arbitrary: p written f w rule: less_induct)
  case less
  show ?case
  proof (cases "p = []")
    case True
    then show ?thesis using took_refl [OF less.prems]
      by (simp add: format_loop.simps formatted_def formatted_state_def exI [of _ "[]"])
  next
    case False
    define f1 l where "f1 = begin_line clock f" and "l = take (line_length p) p"
    define f2 where "f2 = f1\<lparr>f_timestamp := [], f_writeTimestamp := f_writeTimestamp f1 \<or> newline \<in> set p\<rparr>"
    note line = formatted_line [OF False, where f = f and clock = clock, folded f1_def, folded f2_def l_def]
    from write_timestamp_ok [OF less.prems, of "f_timestamp f1"] obtain m e w1 where
      ts: "write_timestamp put (f_timestamp f1) w = Some ((drop m (f_timestamp f1), e), w1)"
        "took w (take m (f_timestamp f1)) w1" "e = None \<longrightarrow> length (f_timestamp f1) \<le> m" .
    show ?thesis
    proof (cases e)
      case (Some err)
      have "\<exists>rest. formatted clock f p = take m (f_timestamp f1) @ rest"
        unfolding line(1) by (metis append_assoc append_take_drop_id)
      with False ts Some show ?thesis
        by (simp add: format_loop.simps [of put clock p] Let_def f1_def [symmetric]) blast
    next
      case None
      with ts have t1: "took w (f_timestamp f1) w1" "sound w1" by (auto simp: took_def)
      obtain n e2 w2 where put: "put l w1 = ((n, e2), w2)" by (metis prod.exhaust)
      from takes [OF t1(2) put] have n: "n \<le> length l" by simp
      have t2: "took w (f_timestamp f1 @ take n l) w2" by (rule took_trans [OF t1(1) took_write [OF t1(2) put]])
      have len: "length l \<le> length p" by (simp add: l_def)
      show ?thesis
      proof (cases e2)
        case (Some err)
        then have "format_loop put clock p written f w = Some ((written + n, Some err), f2, w2)"
          using False ts(1,3) None put
          by (simp add: format_loop.simps [of put clock p] Let_def f1_def [symmetric] l_def [symmetric] f2_def)
        moreover have "\<exists>rest. formatted clock f p = (f_timestamp f1 @ take n l) @ rest"
          unfolding line(1) by (metis append_assoc append_take_drop_id)
        moreover have "n \<le> length p" using n len by simp
        ultimately show ?thesis using t2 by blast
      next
        case no_error: None
        from short [OF t1(2)] put no_error have n: "n = length l" by simp
        have l: "line_length p = length l" using line_length_le [of p] by (simp add: l_def)
        from line_length_pos [OF False] False l have "length (drop (length l) p) < length p" by simp
        from less.hyps [OF this, of w2 "written + length l" f2] t2 obtain k e3 f' w' x where
          loop: "format_loop put clock (drop (length l) p) (written + length l) f2 w2 = Some ((written + length l + k, e3), f', w')"
            "k \<le> length (drop (length l) p)" "took w2 x w'" "\<exists>rest. formatted clock f2 (drop (length l) p) = x @ rest"
            "e3 = None \<longrightarrow> k = length (drop (length l) p) \<and> x = formatted clock f2 (drop (length l) p) \<and>
               f' = formatted_state f2 (drop (length l) p)"
          by (auto simp: took_def)
        have "format_loop put clock p written f w = Some ((written + (length l + k), e3), f', w')"
          using False ts(1,3) None put no_error loop(1) n
          by (simp add: format_loop.simps [of put clock p] Let_def f1_def [symmetric] l_def [symmetric] f2_def add.assoc)
        moreover have "took w (f_timestamp f1 @ l @ x) w'" using took_trans [OF t2 loop(3)] n by simp
        moreover have "length l + k \<le> length p" using loop(2) len by simp
        moreover have "\<exists>rest. formatted clock f p = (f_timestamp f1 @ l @ x) @ rest"
          using loop(4) unfolding line(1) l by auto
        moreover have "e3 = None \<longrightarrow> length l + k = length p \<and> f_timestamp f1 @ l @ x = formatted clock f p \<and>
            f' = formatted_state f p"
          using loop(5) len unfolding line l by auto
        ultimately show ?thesis by blast
      qed
    qed
  qed
qed

end

text \<open>A writer that takes everything it has room for, as long as it is open.\<close>

locale roomy_writer = io_writer put holds room sound
  for put :: "char list \<Rightarrow> 'w \<Rightarrow> (nat \<times> io_err option) \<times> 'w" and holds room sound +
  fixes opened :: "'w \<Rightarrow> bool"
  assumes accepts: "sound w \<Longrightarrow> opened w \<Longrightarrow> length p \<le> room w \<Longrightarrow> put p w = ((n, e), w') \<Longrightarrow>
      e = None \<and> opened w'"
begin

lemma write_timestamp_fits:
  assumes "sound w" "opened w" "length ts \<le> room w"
  obtains w' where "write_timestamp put ts w = Some (([], None), w')" "took w ts w'" "opened w'"
proof (cases "ts = []")
  case True
  then show thesis using assms took_refl by (intro that [of w]) (simp_all add: write_timestamp.simps)
next
  case False
  obtain n e w1 where w: "put ts w = ((n, e), w1)" by (metis prod.exhaust)
  from accepts [OF assms w] have e: "e = None" "opened w1" by auto
  with w short [OF assms(1)] have n: "n = length ts" by simp
  have "write_timestamp put ts w = Some (([], None), w1)"
    using False w e n by (simp add: write_timestamp.simps [of put ts] write_timestamp.simps [of put "[]"])
  then show thesis using took_write [OF assms(1) w] e n by (intro that [of w1]) simp_all
qed

lemma format_loop_fits:
  assumes "sound w" "opened w" "length p \<le> room w" "length (f_timestamp f) \<le> room w"
    and "\<And>k. length (line_prefix clock (f_service f) k) \<le> room w"
  shows "\<exists>f' w'. format_loop put clock p written f w = Some ((written + length p, None), f', w') \<and>
    took w (formatted clock f p) w' \<and> f' = formatted_state f p \<and> opened w'"
  using assms
proof (induction "length p" arbitrary: p written f w rule: less_induct)
  case less
  show ?case
  proof (cases "p = []")
    case True
    then show ?thesis using took_refl [OF less.prems(1)] less.prems(2)
      by (simp add: format_loop.simps formatted_def formatted_state_def)
  next
    case False
    define f1 l where "f1 = begin_line clock f" and "l = take (line_length p) p"
    define f2 where "f2 = f1\<lparr>f_timestamp := [], f_writeTimestamp := f_writeTimestamp f1 \<or> newline \<in> set p\<rparr>"
    note line = formatted_line [OF False, where f = f and clock = clock, folded f1_def, folded f2_def l_def]
    have "length (f_timestamp f1) \<le> room w" "f_service f1 = f_service f"
      using less.prems(4,5) by (simp_all add: f1_def begin_line_def)
    then obtain w1 where ts: "write_timestamp put (f_timestamp f1) w = Some (([], None), w1)"
      "took w (f_timestamp f1) w1" "opened w1" and name: "f_service f2 = f_service f"
      using write_timestamp_fits [OF less.prems(1,2)] by (auto simp: f2_def)
    from ts(2) have w1: "sound w1" "room w1 = room w" by (auto simp: took_def)
    obtain n e w2 where put: "put l w1 = ((n, e), w2)" by (metis prod.exhaust)
    have len: "length l \<le> room w1" using less.prems(3) w1 by (simp add: l_def)
    from accepts [OF w1(1) ts(3) len put] have e: "e = None" "opened w2" by auto
    with short [OF w1(1)] put have n: "n = length l" by simp
    have t2: "took w (f_timestamp f1 @ l) w2" using took_trans [OF ts(2) took_write [OF w1(1) put]] n by simp
    then have w2: "sound w2" "room w2 = room w" by (auto simp: took_def)
    have l: "line_length p = length l" using line_length_le [of p] by (simp add: l_def)
    from line_length_pos [OF False] False l have "length (drop (length l) p) < length p" by simp
    have fits: "length (drop (length l) p) \<le> room w2" "length (f_timestamp f2) \<le> room w2"
      "\<And>k. length (line_prefix clock (f_service f2) k) \<le> room w2"
      using w2 name less.prems(3,5) by (auto simp: f2_def)
    from less.hyps [OF \<open>length (drop (length l) p) < length p\<close> w2(1) e(2) fits] obtain f' w' where
      loop: "format_loop put clock (drop (length l) p) (written + length l) f2 w2 =
         Some ((written + length l + length (drop (length l) p), None), f', w')"
      "took w2 (formatted clock f2 (drop (length l) p)) w'" "f' = formatted_state f2 (drop (length l) p)" "opened w'"
      by blast
    have len: "length l \<le> length p" by (simp add: l_def)
    have "format_loop put clock p written f w = Some ((written + length p, None), f', w')"
      using False ts(1) put e n loop(1) len
      by (simp add: format_loop.simps [of put clock p] Let_def f1_def [symmetric] l_def [symmetric] f2_def)
    moreover have "took w (formatted clock f p) w'"
      using took_trans [OF t2 loop(2)] unfolding line(1) l by (simp add: append_assoc)
    moreover have "f' = formatted_state f p" using loop(3) line(2) l by simp
    ultimately show ?thesis using loop(4) by blast
  qed
qed

end

subsection \<open>The ring buffer as a writer\<close>

definition ring_put :: "char list \<Rightarrow> ring \<Rightarrow> (nat \<times> io_err option) \<times> ring" where
  "ring_put p rb = (case Write p rb of Inr r \<Rightarrow> r | Inl _ \<Rightarrow> ((0, Some (OtherErr ''panic'')), rb))"

lemma ring_put_cases:
  assumes "ring_wf rb" and "ring_put p rb = ((n, e), rb')"
  shows "ring_wf rb' \<and> length (rb_data rb') = length (rb_data rb) \<and> n \<le> length p \<and>
    held rb' = keep (length (rb_data rb)) (held rb @ take n p) \<and> (e = None \<longrightarrow> n = length p) \<and>
    (\<not> writeClosed rb \<longrightarrow> length p \<le> length (rb_data rb) \<longrightarrow> e = None \<and> \<not> writeClosed rb')"
proof (cases "writeClosed rb")
  case True
  have "length (held rb) \<le> length (rb_data rb)"
    using held_length [OF assms(1)] assms(1) by (simp add: buffered_def ring_wf_def Size_def)
  with True assms show ?thesis by (auto simp: ring_put_def Write_def split: if_splits)
next
  case False
  from Write_ok [OF assms(1) False, of p] obtain rb1 where
    "Write p rb = Inr ((min (length p) (length (rb_data rb)),
        if min (length p) (length (rb_data rb)) < length p then Some ErrShortWrite else None), rb1)"
    "ring_wf rb1" "length (rb_data rb1) = length (rb_data rb)" "\<not> writeClosed rb1"
    "held rb1 = keep (length (rb_data rb)) (held rb @ take (min (length p) (length (rb_data rb))) p)" by metis
  moreover from this(1) assms(2) have "rb' = rb1" "n = min (length p) (length (rb_data rb))"
    "e = (if n < length p then Some ErrShortWrite else None)"
    by (auto simp: ring_put_def)
  ultimately show ?thesis by auto
qed

interpretation ring_writer: roomy_writer ring_put held "\<lambda>rb. length (rb_data rb)" ring_wf "\<lambda>rb. \<not> writeClosed rb"
proof (unfold_locales, goal_cases)
  case (1 w p n e w')
  then show ?case using ring_put_cases by blast
next
  case (2 w p n w')
  then show ?case using ring_put_cases by blast
next
  case (3 w p n e w')
  then show ?case using ring_put_cases by blast
qed

text \<open>
  C25: Writing to an open ring buffer through a formatter ends without an error when the payload and the
  prefix of a line fit the buffer: the whole payload is counted, and the buffer holds the last
  \<open>size\<close> bytes of what it held and of the payload with the time and the service's name at the start
  of each line; the state of the formatter after it is that after the payload, however it was split
  into writes.
\<close>

theorem formatter_on_ring:
  assumes "ring_wf rb" "\<not> writeClosed rb" "length p \<le> length (rb_data rb)"
    and "28 + length name \<le> length (rb_data rb)"
  shows "\<exists>f' rb'. formatter_Write ring_put clock p (NewFormatWriter name) rb = Some ((length p, None), f', rb') \<and>
    held rb' = keep (length (rb_data rb)) (held rb @ annotate (line_prefix clock name) 0 True p) \<and>
    f' = formatted_state (NewFormatWriter name) p \<and> ring_wf rb' \<and> \<not> writeClosed rb'"
proof -
  have len: "length (line_prefix clock name k) = 28 + length name" for k
    by (simp add: line_prefix_def AppendTimestamp_def two_digits_def Let_def)
  have "\<exists>f' rb'. format_loop ring_put clock p 0 (NewFormatWriter name) rb = Some ((0 + length p, None), f', rb') \<and>
      ring_writer.took rb (formatted clock (NewFormatWriter name) p) rb' \<and> f' = formatted_state (NewFormatWriter name) p \<and>
      \<not> writeClosed rb'"
    using assms len by (intro ring_writer.format_loop_fits) (simp_all add: NewFormatWriter_def)
  then obtain rb' where r: "format_loop ring_put clock p 0 (NewFormatWriter name) rb =
      Some ((length p, None), formatted_state (NewFormatWriter name) p, rb')"
    and took: "ring_writer.took rb (formatted clock (NewFormatWriter name) p) rb'" "\<not> writeClosed rb'" by auto
  have "formatted clock (NewFormatWriter name) p = annotate (line_prefix clock name) 0 True p"
    by (simp add: formatted_def NewFormatWriter_def)
  moreover have "length (held rb') \<le> length (rb_data rb)"
    using took held_length [of rb'] by (simp add: ring_writer.took_def ring_wf_def buffered_def Size_def)
  ultimately show ?thesis
    using r took by (simp add: formatter_Write_def ring_writer.took_def)
qed

theorem formatter_on_ring_witness:
  "\<forall>t. \<exists>f' rb'. formatter_Write ring_put (\<lambda>_. t) (''ab'' @ [newline]) (NewFormatWriter ''web'') (NewRingBuffer 64) =
      Some ((3, None), f', rb') \<and>
    held rb' = AppendTimestamp t @ '' [web] ab'' @ [newline]"
proof
  fix t :: utc_time
  have wf: "ring_wf (NewRingBuffer 64)" and h: "held (NewRingBuffer 64) = []" using NewRingBuffer_wf [of 64] by auto
  have d: "length (rb_data (NewRingBuffer 64)) = 64" "\<not> writeClosed (NewRingBuffer 64)" by (simp_all add: NewRingBuffer_def)
  have a: "annotate (line_prefix (\<lambda>_. t) ''web'') 0 True (''ab'' @ [newline]) = AppendTimestamp t @ '' [web] ab'' @ [newline]"
    by (simp add: line_prefix_def)
  have "length (AppendTimestamp t) = 24" by (simp add: AppendTimestamp_def two_digits_def Let_def)
  with formatter_on_ring [OF wf d(2), of "''ab'' @ [newline]" "''web''" "\<lambda>_. t"] d a h show "\<exists>f' rb'. formatter_Write ring_put (\<lambda>_. t) (''ab'' @ [newline]) (NewFormatWriter ''web'') (NewRingBuffer 64) =
      Some ((3, None), f', rb') \<and> held rb' = AppendTimestamp t @ '' [web] ab'' @ [newline]"
    by (auto simp: numeral_3_eq_3)
qed

end
