(* ===== verification/LogParse.thy ===== *)
theory LogParse
  imports LogFormat "HOL-Library.Sublist"
begin

text \<open>
  \<open>src/internals/servicelog/parser.go\<close> and \<open>lastlines.go\<close>: reading log lines back.  \<open>time.Parse\<close> is
  modelled for the one layout the parser uses, \<open>2006-01-02T15:04:05.999Z07:00\<close>; a parsed time is its
  fields with the offset of its zone in seconds.  A \<open>bufio.Reader\<close> is the bytes still to come with
  what the underlying reader reports at their end.  The lemmas show that a line written by the formatter is
  read back with its time (to the millisecond), service and message, as long as the name of the service
  has no space, and that \<open>Next\<close> returns every line.
\<close>

subsection \<open>\<open>time.Parse\<close>\<close>

definition skip_char :: "char \<Rightarrow> string \<Rightarrow> string option" where
  "skip_char c s = (case s of [] \<Rightarrow> None | d # ds \<Rightarrow> if d = c then Some ds else None)"

definition getnum :: "bool \<Rightarrow> string \<Rightarrow> (nat \<times> string) option" where
  "getnum fixed s =
     (case s of
        [] \<Rightarrow> None
      | a # rest \<Rightarrow>
          if \<not> is_digit a then None
          else case rest of
            b # rest' \<Rightarrow>
              if is_digit b then Some (10 * digit_value a + digit_value b, rest')
              else if fixed then None else Some (digit_value a, rest)
          | [] \<Rightarrow> if fixed then None else Some (digit_value a, rest))"

definition four_digits :: "string \<Rightarrow> (nat \<times> string) option" where
  "four_digits s =
     (case s of
        a # b # c # d # rest \<Rightarrow>
          if is_digit a \<and> is_digit b \<and> is_digit c \<and> is_digit d
          then Some (1000 * digit_value a + 100 * digit_value b + 10 * digit_value c + digit_value d, rest) else None
      | _ \<Rightarrow> None)"

definition in_range :: "nat \<Rightarrow> nat \<Rightarrow> (nat \<times> string) option \<Rightarrow> (nat \<times> string) option" where
  "in_range lo hi r = (case r of None \<Rightarrow> None | Some (n, rest) \<Rightarrow> if lo \<le> n \<and> n \<le> hi then Some (n, rest) else None)"

definition decimal :: "string \<Rightarrow> nat" where
  "decimal = foldl (\<lambda>n c. 10 * n + digit_value c) 0"

text \<open>Fractional seconds: at most nine digits count, and the fraction may be missing.\<close>

definition frac_seconds :: "string \<Rightarrow> nat \<times> string" where
  "frac_seconds s =
     (case s of
        p # d # rest \<Rightarrow>
          if (p = CHR ''.'' \<or> p = CHR '','') \<and> is_digit d then
            (let ds = take 9 (takeWhile is_digit (d # rest))
             in (decimal ds * 10 ^ (9 - length ds), dropWhile is_digit (d # rest)))
          else (0, s)
      | _ \<Rightarrow> (0, s))"

definition zone :: "string \<Rightarrow> (int \<times> string) option" where
  "zone s =
     (case s of
        [] \<Rightarrow> None
      | c # rest \<Rightarrow>
          if c = CHR ''Z'' then Some (0, rest)
          else if length s < 6 \<or> s ! 3 \<noteq> CHR '':'' then None
          else case (in_range 0 24 (getnum True (take 2 rest)), in_range 0 60 (getnum True (take 2 (drop 3 rest)))) of
            (Some (h, _), Some (m, _)) \<Rightarrow>
              if c = CHR ''+'' then Some (int (60 * (60 * h + m)), drop 6 s)
              else if c = CHR ''-'' then Some (- int (60 * (60 * h + m)), drop 6 s) else None
          | _ \<Rightarrow> None)"

definition is_leap :: "nat \<Rightarrow> bool" where
  "is_leap y \<longleftrightarrow> y mod 4 = 0 \<and> (y mod 100 \<noteq> 0 \<or> y mod 400 = 0)"

definition days_in :: "nat \<Rightarrow> nat \<Rightarrow> nat" where
  "days_in m y = (if m = 2 then if is_leap y then 29 else 28 else if m \<in> {4, 6, 9, 11} then 30 else 31)"

definition option_then :: "'a option \<Rightarrow> ('a \<Rightarrow> 'b option) \<Rightarrow> 'b option" where
  "option_then r f = (case r of None \<Rightarrow> None | Some a \<Rightarrow> f a)"

definition time_Parse :: "string \<Rightarrow> (utc_time \<times> int) option" where
  "time_Parse s =
     option_then (four_digits s) (\<lambda>(year, s). option_then (skip_char (CHR ''-'') s) (\<lambda>s.
     option_then (in_range 1 12 (getnum True s)) (\<lambda>(month, s). option_then (skip_char (CHR ''-'') s) (\<lambda>s.
     option_then (getnum True s) (\<lambda>(day, s). option_then (skip_char (CHR ''T'') s) (\<lambda>s.
     option_then (in_range 0 23 (getnum False s)) (\<lambda>(hour, s). option_then (skip_char (CHR '':'') s) (\<lambda>s.
     option_then (in_range 0 59 (getnum True s)) (\<lambda>(minute, s). option_then (skip_char (CHR '':'') s) (\<lambda>s.
     option_then (in_range 0 59 (getnum True s)) (\<lambda>(sec, s).
       case frac_seconds s of (nano, s) \<Rightarrow>
       option_then (zone s) (\<lambda>(off, s).
         if s \<noteq> [] \<or> day < 1 \<or> days_in month year < day then None
         else Some (\<lparr>utc_year = year, utc_month = month, utc_day = day, utc_hour = hour, utc_minute = minute,
                     utc_second = sec, utc_nano = nano\<rparr>, off)))))))))))))"

subsection \<open>Entries\<close>

record log_entry =
  e_time :: "(utc_time \<times> int) option"
  e_service :: string
  e_message :: string

datatype parse_error = errParseFields | errParseTime | errParseService

definition empty_entry :: log_entry where
  "empty_entry = \<lparr>e_time = None, e_service = [], e_message = []\<rparr>"

definition seconds_of_day :: "utc_time \<Rightarrow> int" where
  "seconds_of_day t = int (3600 * utc_hour t + 60 * utc_minute t + utc_second t)"

text \<open>\<open>Time.IsZero\<close>: the first instant of the year 1 in UTC.\<close>

definition entry_IsZero :: "log_entry \<Rightarrow> bool" where
  "entry_IsZero e =
     (case e_time e of
        None \<Rightarrow> True
      | Some (t, off) \<Rightarrow> utc_nano t = 0 \<and>
          ((utc_year t, utc_month t, utc_day t) = (1, 1, 1) \<and> seconds_of_day t = off \<or>
           (utc_year t, utc_month t, utc_day t) = (0, 12, 31) \<and> seconds_of_day t - 86400 = off))"

text \<open>\<open>bytes.SplitN (line, " ", 3)\<close>.\<close>

definition split_space :: "string \<Rightarrow> (string \<times> string) option" where
  "split_space s =
     (if CHR '' '' \<in> set s
      then Some (takeWhile (\<lambda>c. c \<noteq> CHR '' '') s, tl (dropWhile (\<lambda>c. c \<noteq> CHR '' '') s)) else None)"

definition Parse :: "string \<Rightarrow> parse_error + log_entry" where
  "Parse line =
     (case split_space line of
        None \<Rightarrow> Inl errParseFields
      | Some (f0, rest) \<Rightarrow>
          (case split_space rest of
             None \<Rightarrow> Inl errParseFields
           | Some (f1, f2) \<Rightarrow>
               (case time_Parse f0 of
                  None \<Rightarrow> Inl errParseTime
                | Some t \<Rightarrow>
                    if length f1 < 3 \<or> hd f1 \<noteq> CHR ''['' \<or> last f1 \<noteq> CHR '']'' then Inl errParseService
                    else Inr \<lparr>e_time = Some t, e_service = butlast (tl f1), e_message = f2\<rparr>)))"

subsection \<open>The parser\<close>

datatype slice_end = SliceFull | SliceEOF | SliceFailed string

record parser =
  pr_input :: "char list"
  pr_ends :: slice_end
  pr_size :: nat
  pr_entry :: log_entry
  pr_err :: "string option"

definition NewParser :: "char list \<Rightarrow> slice_end \<Rightarrow> nat \<Rightarrow> parser" where
  "NewParser input e n = \<lparr>pr_input = input, pr_ends = e, pr_size = max 16 n, pr_entry = empty_entry, pr_err = None\<rparr>"

text \<open>\<open>ReadSlice\<close>: to the newline, or a full buffer, or what is left with the error of the reader.\<close>

definition ReadSlice :: "parser \<Rightarrow> char list \<times> slice_end option \<times> char list" where
  "ReadSlice p =
     (let buf = take (pr_size p) (pr_input p) in
      if newline \<in> set buf then
        (take (line_length buf) buf, None, drop (line_length buf) (pr_input p))
      else if pr_size p \<le> length (pr_input p) then (buf, Some SliceFull, drop (pr_size p) (pr_input p))
      else (pr_input p, Some (pr_ends p), []))"

lemma ReadSlice_shorter:
  assumes "ReadSlice p = (line, e, rest)" "line \<noteq> []"
  shows "length rest < length (pr_input p)"
proof -
  have "line_length (take (pr_size p) (pr_input p)) \<le> length (pr_input p)"
    using line_length_le [of "take (pr_size p) (pr_input p)"] by simp
  moreover have "0 < line_length (take (pr_size p) (pr_input p))" if "newline \<in> set (take (pr_size p) (pr_input p))"
    using that by (intro line_length_pos) (metis list.set(1) empty_iff)
  ultimately show ?thesis using assms by (auto simp: ReadSlice_def Let_def split: if_splits)
qed

function parser_Next :: "parser \<Rightarrow> bool \<times> parser" where
  "parser_Next p =
     (if pr_err p \<noteq> None then (False, p)
      else case ReadSlice p of (line, e, rest) \<Rightarrow>
        let p1 = p\<lparr>pr_input := rest\<rparr> in
        case e of
          Some (SliceFailed x) \<Rightarrow> (False, p1\<lparr>pr_err := Some x\<rparr>)
        | _ \<Rightarrow>
            if line = [] then (False, p1)
            else case Parse line of
              Inr entry \<Rightarrow> (e_message entry \<noteq> [], p1\<lparr>pr_entry := entry\<rparr>)
            | Inl _ \<Rightarrow>
                if \<not> entry_IsZero (pr_entry p) then (True, p1\<lparr>pr_entry := (pr_entry p)\<lparr>e_message := line\<rparr>\<rparr>)
                else if e = Some SliceEOF then (False, p1)
                else parser_Next p1)"
  by pat_completeness auto
termination
  by (relation "measure (\<lambda>p. length (pr_input p))") (auto dest!: ReadSlice_shorter [OF sym])

declare parser_Next.simps [simp del]

subsection \<open>Reading back what the formatter wrote\<close>

definition valid_time :: "utc_time \<Rightarrow> bool" where
  "valid_time t \<longleftrightarrow> utc_year t < 10000 \<and> 1 \<le> utc_month t \<and> utc_month t \<le> 12 \<and>
     1 \<le> utc_day t \<and> utc_day t \<le> days_in (utc_month t) (utc_year t) \<and>
     utc_hour t < 24 \<and> utc_minute t < 60 \<and> utc_second t < 60 \<and> utc_nano t < 1000000000"

definition to_milliseconds :: "utc_time \<Rightarrow> utc_time" where
  "to_milliseconds t = t\<lparr>utc_nano := utc_nano t div 1000000 * 1000000\<rparr>"

lemma digit_chars [simp]:
  "d < 10 \<Longrightarrow> is_digit (char_of (48 + d))" "d < 10 \<Longrightarrow> digit_value (char_of (48 + d)) = d"
  using is_digit_digit by auto

lemma getnum_two_digits [simp]:
  "n < 100 \<Longrightarrow> getnum fixed (two_digits n @ rest) = Some (n, rest)"
  by (simp add: getnum_def two_digits_def)

lemma in_range_two:
  "lo \<le> n \<Longrightarrow> n \<le> hi \<Longrightarrow> in_range lo hi (Some (n, rest)) = Some (n, rest)"
  by (simp add: in_range_def)

lemma skip_char_Cons [simp]: "skip_char c (c # s) = Some s"
  by (simp add: skip_char_def)

lemma option_then_simps [simp]: "option_then (Some a) f = f a" "option_then None f = None"
  by (simp_all add: option_then_def)

lemma digits_milli:
  fixes m :: nat
  shows "100 * (m div 100) + 10 * (m div 10 mod 10) + m mod 10 = m"
proof -
  have "m = 10 * (m div 10) + m mod 10" by simp
  moreover have "m div 10 = 10 * (m div 10 div 10) + m div 10 mod 10" by simp
  moreover have "m div 10 div 10 = m div 100" by (simp add: div_mult2_eq [symmetric])
  ultimately show ?thesis by linarith
qed

lemma digits_year:
  fixes y :: nat
  assumes "y < 10000"
  shows "1000 * (y div 1000 mod 10) + 100 * (y div 100 mod 10) + 10 * (y div 10 mod 10) + y mod 10 = y"
proof -
  have "y div 100 = 10 * (y div 100 div 10) + y div 100 mod 10" by simp
  moreover have "y div 100 div 10 = y div 1000" by (simp add: div_mult2_eq [symmetric])
  moreover have "y div 1000 mod 10 = y div 1000" using assms by (simp add: less_mult_imp_div_less)
  ultimately show ?thesis using digits_milli [of y] by linarith
qed

lemma frac_seconds_milli:
  assumes "m < 1000"
  shows "frac_seconds (CHR ''.'' # [char_of (48 + m div 100), char_of (48 + m div 10 mod 10), char_of (48 + m mod 10)] @ CHR ''Z'' # s) =
    (m * 1000000, CHR ''Z'' # s)"
proof -
  have z: "\<not> is_digit (CHR ''Z'')" by code_simp
  have "m div 100 < 10" using assms by (simp add: less_mult_imp_div_less)
  then show ?thesis using digits_milli [of m]
    by (simp add: frac_seconds_def z decimal_def)
qed

lemma days_in_le: "days_in m y \<le> 31"
  by (simp add: days_in_def)

lemma time_Parse_AppendTimestamp:
  assumes "valid_time t"
  shows "time_Parse (AppendTimestamp t) = Some (to_milliseconds t, 0)"
proof -
  define m where "m = utc_nano t div 1000000"
  have m: "m < 1000" using assms by (simp add: valid_time_def m_def less_mult_imp_div_less)
  have d: "utc_day t < 100" using assms days_in_le [of "utc_month t" "utc_year t"] unfolding valid_time_def by linarith
  have y: "four_digits (char_of (48 + utc_year t div 1000 mod 10) # char_of (48 + utc_year t div 100 mod 10) #
       char_of (48 + utc_year t div 10 mod 10) # char_of (48 + utc_year t mod 10) # rest) = Some (utc_year t, rest)" for rest
    using digits_year [of "utc_year t"] assms by (simp add: four_digits_def valid_time_def)
  have ts: "AppendTimestamp t =
      char_of (48 + utc_year t div 1000 mod 10) # char_of (48 + utc_year t div 100 mod 10) #
       char_of (48 + utc_year t div 10 mod 10) # char_of (48 + utc_year t mod 10) # CHR ''-'' #
      two_digits (utc_month t) @ CHR ''-'' # two_digits (utc_day t) @ CHR ''T'' #
      two_digits (utc_hour t) @ CHR '':'' # two_digits (utc_minute t) @ CHR '':'' # two_digits (utc_second t) @ CHR ''.'' #
      [char_of (48 + m div 100), char_of (48 + m div 10 mod 10), char_of (48 + m mod 10)] @ CHR ''Z'' # []"
    by (simp add: AppendTimestamp_def m_def Let_def)
  from assms have r: "utc_month t < 100" "utc_hour t < 100" "utc_minute t < 100" "utc_second t < 100"
    "1 \<le> utc_month t" "utc_month t \<le> 12" "utc_hour t \<le> 23" "utc_minute t \<le> 59" "utc_second t \<le> 59"
    "\<not> utc_day t < 1" "\<not> days_in (utc_month t) (utc_year t) < utc_day t"
    by (auto simp: valid_time_def)
  have "zone (CHR ''Z'' # []) = Some (0, [])" by (simp add: zone_def)
  then show ?thesis
    unfolding ts time_Parse_def
    by (simp only: y option_then_simps prod.case skip_char_Cons getnum_two_digits r d in_range_two le0
        frac_seconds_milli [OF m] simp_thms if_True if_False)
       (simp add: to_milliseconds_def m_def)
qed

lemma digit_not_space: "(d :: nat) < 10 \<Longrightarrow> char_of (48 + d) \<noteq> CHR '' ''"
proof
  assume "d < 10" "char_of (48 + d) = CHR '' ''"
  then have "is_digit (CHR '' '')" using is_digit_digit [of d] by simp
  then show False by code_simp
qed

lemma AppendTimestamp_no_space: "valid_time t \<Longrightarrow> CHR '' '' \<notin> set (AppendTimestamp t)"
proof -
  assume v: "valid_time t"
  have two: "CHR '' '' \<notin> set (two_digits n)" if "n < 100" for n
  proof -
    have "n div 10 < 10" using that by (simp add: less_mult_imp_div_less)
    then have "char_of (48 + n div 10) \<noteq> CHR '' ''" "char_of (48 + n mod 10) \<noteq> CHR '' ''"
      using digit_not_space by simp_all
    then show ?thesis unfolding two_digits_def by (metis empty_iff empty_set set_ConsD)
  qed
  have d: "CHR '' '' \<noteq> char_of (48 + n mod 10)" for n :: nat
    using digit_not_space [of "n mod 10"] by auto
  have h: "CHR '' '' \<noteq> char_of (48 + utc_nano t div 1000000 div 100)"
  proof -
    have "utc_nano t div 1000000 < 1000" using v by (simp add: valid_time_def less_mult_imp_div_less)
    then have "utc_nano t div 1000000 div 100 < 10" by (simp add: less_mult_imp_div_less)
    then show ?thesis using digit_not_space by metis
  qed
  have "utc_day t < 100" using v days_in_le [of "utc_month t" "utc_year t"] unfolding valid_time_def by linarith
  with v two d h show ?thesis by (simp add: AppendTimestamp_def Let_def valid_time_def)
qed

lemma split_space_first: "CHR '' '' \<notin> set a \<Longrightarrow> split_space (a @ CHR '' '' # b) = Some (a, b)"
  by (induction a) (auto simp: split_space_def)

lemma Parse_line:
  assumes "valid_time (clock k)" "name \<noteq> []" "CHR '' '' \<notin> set name"
  shows "Parse (line_prefix clock name k @ msg) =
    Inr \<lparr>e_time = Some (to_milliseconds (clock k), 0), e_service = name, e_message = msg\<rparr>"
proof -
  have "line_prefix clock name k @ msg =
      AppendTimestamp (clock k) @ CHR '' '' # (CHR ''['' # name @ [CHR '']'']) @ CHR '' '' # msg"
    by (simp add: line_prefix_def)
  moreover have "split_space ((CHR ''['' # name @ [CHR '']'']) @ CHR '' '' # msg) = Some (CHR ''['' # name @ [CHR '']''], msg)"
    using assms(3) by (intro split_space_first) simp
  moreover have "\<not> length (CHR ''['' # name @ [CHR '']'']) < 3" using assms(2) by (cases name) auto
  ultimately show ?thesis
    by (simp add: Parse_def split_space_first [OF AppendTimestamp_no_space [OF assms(1)]]
        time_Parse_AppendTimestamp [OF assms(1)])
qed

fun parse_entries :: "nat \<Rightarrow> parser \<Rightarrow> log_entry list" where
  "parse_entries 0 p = []"
| "parse_entries (Suc n) p =
     (case parser_Next p of (more_lines, p1) \<Rightarrow> if more_lines then pr_entry p1 # parse_entries n p1 else [])"

definition lines_text :: "char list list \<Rightarrow> char list" where
  "lines_text ms = concat (map (\<lambda>m. m @ [newline]) ms)"

lemma digit_not_newline: "(d :: nat) < 10 \<Longrightarrow> char_of (48 + d) \<noteq> newline"
proof
  assume "d < 10" "char_of (48 + d) = newline"
  then have "is_digit newline" using is_digit_digit [of d] by simp
  then show False by code_simp
qed

lemma AppendTimestamp_digits:
  assumes "valid_time t" "c \<in> set (AppendTimestamp t)"
  shows "c \<in> {CHR ''-'', CHR ''T'', CHR '':'', CHR ''.'', CHR ''Z''} \<or> is_digit c"
proof -
  have two: "is_digit c" if "n < 100" "c \<in> set (two_digits n)" for n c
  proof -
    have "n div 10 < 10" using that(1) by (simp add: less_mult_imp_div_less)
    then have "is_digit (char_of (48 + n div 10))" "is_digit (char_of (48 + n mod 10))" by simp_all
    with that(2) show ?thesis unfolding two_digits_def by (metis empty_iff empty_set set_ConsD)
  qed
  have d: "is_digit (char_of (48 + n mod 10))" for n :: nat by simp
  have h: "is_digit (char_of (48 + utc_nano t div 1000000 div 100))"
  proof -
    have "utc_nano t div 1000000 < 1000" using assms(1) by (simp add: valid_time_def less_mult_imp_div_less)
    then have "utc_nano t div 1000000 div 100 < 10" by (simp add: less_mult_imp_div_less)
    then show ?thesis by simp
  qed
  have "utc_day t < 100" "utc_month t < 100" "utc_hour t < 100" "utc_minute t < 100" "utc_second t < 100"
    using assms(1) days_in_le [of "utc_month t" "utc_year t"] unfolding valid_time_def by linarith+
  note t = this [THEN two]
  from assms(2) show ?thesis
    unfolding AppendTimestamp_def Let_def using t d h by auto
qed

lemma line_prefix_no_newline:
  assumes "valid_time (clock k)" "newline \<notin> set name"
  shows "newline \<notin> set (line_prefix clock name k)"
proof -
  have "\<not> is_digit newline" by code_simp
  then have "newline \<notin> set (AppendTimestamp (clock k))" using AppendTimestamp_digits [OF assms(1), of newline] by auto
  with assms(2) show ?thesis by (simp add: line_prefix_def)
qed

text \<open>\<open>Next\<close> on a line that fits the buffer.\<close>

lemma parser_Next_line:
  assumes "pr_err p = None" "pr_input p = line_prefix clock name k @ m @ newline # rest"
    and t: "valid_time (clock k)" "name \<noteq> []" "CHR '' '' \<notin> set name" "newline \<notin> set name" "newline \<notin> set m"
    and fits: "length (line_prefix clock name k) + length m < pr_size p"
  shows "parser_Next p = (True, p\<lparr>pr_input := rest,
      pr_entry := \<lparr>e_time = Some (to_milliseconds (clock k), 0), e_service = name, e_message = m @ [newline]\<rparr>\<rparr>)"
proof -
  define l where "l = line_prefix clock name k @ m"
  have l: "newline \<notin> set l" using line_prefix_no_newline [of clock k name] t by (simp add: l_def)
  have input: "pr_input p = l @ newline # rest" using assms(2) by (simp add: l_def)
  have "length l < pr_size p" using fits by (simp add: l_def)
  then obtain r where buf: "take (pr_size p) (pr_input p) = l @ newline # r"
    by (cases "pr_size p - length l") (auto simp: input)
  have "takeWhile (\<lambda>c. c \<noteq> newline) (l @ newline # r) = l"
    using l by (subst takeWhile_tail) (auto simp: takeWhile_eq_all_conv)
  then have "line_length (l @ newline # r) = length l + 1" by (simp add: line_length_def)
  then have "ReadSlice p = (l @ [newline], None, rest)"
    unfolding ReadSlice_def Let_def buf by (simp add: input)
  moreover have "Parse (l @ [newline]) =
      Inr \<lparr>e_time = Some (to_milliseconds (clock k), 0), e_service = name, e_message = m @ [newline]\<rparr>"
    using Parse_line [of clock k name "m @ [newline]"] t by (simp add: l_def)
  ultimately show ?thesis using assms(1) by (simp add: parser_Next.simps [of p])
qed

lemma annotate_lines:
  "newline \<notin> set m \<Longrightarrow> annotate pre k True (m @ newline # rest) = pre k @ m @ newline # annotate pre (k + 1) True rest"
proof -
  assume m: "newline \<notin> set m"
  then have a: "annotate pre j False (m @ newline # rest) = m @ newline # annotate pre j True rest" for j
    using annotate_plain [OF m] by (simp add: annotate_append)
  show ?thesis
  proof (cases m)
    case (Cons c cs)
    then show ?thesis using a [of "k + 1"] m by simp
  qed simp
qed

lemma parse_entries_lines:
  assumes "pr_err p = None" "pr_input p = annotate (line_prefix clock name) k True (lines_text ms)"
    and "\<And>i. valid_time (clock i)" "name \<noteq> []" "CHR '' '' \<notin> set name" "newline \<notin> set name"
    and "\<And>m. m \<in> set ms \<Longrightarrow> newline \<notin> set m \<and> 29 + length name + length m \<le> pr_size p"
  shows "parse_entries (length ms) p =
    map (\<lambda>(i, m). \<lparr>e_time = Some (to_milliseconds (clock i), 0), e_service = name, e_message = m @ [newline]\<rparr>)
      (enumerate k ms)"
  using assms
proof (induction ms arbitrary: k p)
  case (Cons m ms)
  have len: "length (line_prefix clock name k) = 28 + length name"
    by (simp add: line_prefix_def AppendTimestamp_def two_digits_def Let_def)
  have input: "pr_input p = line_prefix clock name k @ m @ newline # annotate (line_prefix clock name) (k + 1) True (lines_text ms)"
    using Cons.prems(2,7) annotate_lines [of m] by (simp add: lines_text_def)
  from parser_Next_line [OF Cons.prems(1) input Cons.prems(3-6)] Cons.prems(7) [of m] len
  have "parser_Next p = (True, p\<lparr>pr_input := annotate (line_prefix clock name) (k + 1) True (lines_text ms),
      pr_entry := \<lparr>e_time = Some (to_milliseconds (clock k), 0), e_service = name, e_message = m @ [newline]\<rparr>\<rparr>)"
    by simp
  then show ?case using Cons.IH [of _ "k + 1"] Cons.prems by simp
qed simp

text \<open>
  A service may have a space in its name, but none of its lines is parsed: the second field of the line
  is then no \<open>[service]\<close>.
\<close>

lemma service_name_with_space:
  assumes "valid_time (clock k)" "CHR '' '' \<notin> set a" "a = [] \<or> last a \<noteq> CHR '']''"
  shows "Parse (line_prefix clock (a @ CHR '' '' # b) k @ msg) = Inl errParseService"
proof -
  have "line_prefix clock (a @ CHR '' '' # b) k @ msg =
      AppendTimestamp (clock k) @ CHR '' '' # (CHR ''['' # a) @ CHR '' '' # b @ '']'' @ CHR '' '' # msg"
    by (simp add: line_prefix_def)
  moreover have "split_space ((CHR ''['' # a) @ CHR '' '' # b @ '']'' @ CHR '' '' # msg) = Some (CHR ''['' # a, b @ '']'' @ CHR '' '' # msg)"
    using assms(2) by (intro split_space_first) simp
  ultimately show ?thesis using assms(3)
    by (auto simp: Parse_def split_space_first [OF AppendTimestamp_no_space [OF assms(1)]]
        time_Parse_AppendTimestamp [OF assms(1)])
qed

subsection \<open>The last lines of a log\<close>

text \<open>\<open>strings.TrimSpace\<close>: the UTF-8 encodings of the white space of Unicode.\<close>

definition spaces :: "char list list" where
  "spaces =
     [[CHR 0x09], [CHR 0x0A], [CHR 0x0B], [CHR 0x0C], [CHR 0x0D], [CHR '' ''], [CHR 0xC2, CHR 0x85], [CHR 0xC2, CHR 0xA0],
      [CHR 0xE1, CHR 0x9A, CHR 0x80], [CHR 0xE2, CHR 0x80, CHR 0xA8], [CHR 0xE2, CHR 0x80, CHR 0xA9],
      [CHR 0xE2, CHR 0x80, CHR 0xAF], [CHR 0xE2, CHR 0x81, CHR 0x9F], [CHR 0xE3, CHR 0x80, CHR 0x80]] @
     map (\<lambda>k. [CHR 0xE2, CHR 0x80, char_of (128 + k)]) [0..<11 :: nat]"

function trim_left :: "string \<Rightarrow> string" where
  "trim_left s =
     (case find (\<lambda>sp. prefix sp s) spaces of
        None \<Rightarrow> s
      | Some sp \<Rightarrow> if sp = [] \<or> s = [] then s else trim_left (drop (length sp) s))"
  by pat_completeness auto
termination by (relation "measure length") auto

declare trim_left.simps [simp del]

function trim_right :: "string \<Rightarrow> string" where
  "trim_right s =
     (case find (\<lambda>sp. suffix sp s) spaces of
        None \<Rightarrow> s
      | Some sp \<Rightarrow> if sp = [] \<or> s = [] then s else trim_right (take (length s - length sp) s))"
  by pat_completeness auto
termination
proof (relation "measure length", goal_cases)
  case (2 s sp)
  then have "0 < length sp" "0 < length s" by auto
  then have "length (take (length s - length sp) s) < length s" by (simp del: length_greater_0_conv)
  then show ?case by (simp only: in_measure)
qed simp

declare trim_right.simps [simp del]

definition TrimSpace :: "string \<Rightarrow> string" where
  "TrimSpace s = trim_right (trim_left s)"

fun split_lines :: "string \<Rightarrow> string list" where
  "split_lines [] = [[]]"
| "split_lines (c # cs) =
     (if c = newline then [] # split_lines cs
      else case split_lines cs of [] \<Rightarrow> [[c]] | l # ls \<Rightarrow> (c # l) # ls)"

fun join_lines :: "string list \<Rightarrow> string" where
  "join_lines [] = []"
| "join_lines [l] = l"
| "join_lines (l # ls) = l @ newline # join_lines ls"

text \<open>\<open>timestampServiceRegexp\<close>: what is left of a line after a match at its start.\<close>

definition is_stamp :: "string \<Rightarrow> bool" where
  "is_stamp s \<longleftrightarrow> length s = 24 \<and>
     (\<forall>(k, c) \<in> set (enumerate 0 s).
        if k \<in> {4, 7} then c = CHR ''-''
        else if k = 10 then c = CHR ''T''
        else if k \<in> {13, 16} then c = CHR '':''
        else if k = 19 then c = CHR ''.''
        else if k = 23 then c = CHR ''Z'' else is_digit c)"

definition strip_stamp :: "string \<Rightarrow> string" where
  "strip_stamp s =
     (let rest = drop 26 s;
          name = takeWhile (\<lambda>c. c \<noteq> CHR '']'') rest
      in if is_stamp (take 24 s) \<and> take 2 (drop 24 s) = '' ['' \<and> name \<noteq> [] \<and>
            take 2 (drop (length name) rest) = ''] ''
         then drop (length name + 2) rest else s)"

text \<open>\<open>io.ReadAll\<close>: reads into what is free of its buffer, \<open>free k\<close> bytes at the \<open>k\<close>-th read, to the end of the file.\<close>

partial_function (option) ReadAll ::
    "(nat \<Rightarrow> nat) \<Rightarrow> nat \<Rightarrow> ring \<Rightarrow> iterator \<Rightarrow> char list \<Rightarrow> (ring_fault + char list \<times> io_err option) option" where
  "ReadAll free k rb it acc =
     (case iterator_Read (free k) rb it of
        Inl f \<Rightarrow> Some (Inl f)
      | Inr ((bs, e), it1) \<Rightarrow>
          if e = Some ErrEOF then Some (Inr (acc @ bs, None))
          else if e \<noteq> None then Some (Inr (acc @ bs, e))
          else ReadAll free (k + 1) rb it1 (acc @ bs))"

definition format_lines :: "int \<Rightarrow> string \<Rightarrow> bool \<Rightarrow> char list \<Rightarrow> string" where
  "format_lines n indent stripPrefix logBytes =
     (let ls = split_lines (TrimSpace logBytes);
          ls1 = (if n < int (length ls) then ls[0 := ''(...)''] else ls)
      in join_lines (map (\<lambda>l. indent @ (if stripPrefix then strip_stamp l else l)) ls1))"

definition LastLines ::
    "(nat \<Rightarrow> nat) \<Rightarrow> ring \<Rightarrow> int \<Rightarrow> string \<Rightarrow> bool \<Rightarrow> (ring_fault + io_err + string) option" where
  "LastLines free rb n indent stripPrefix =
     (case reverseLinePosition (n + 1) rb of
        Inl f \<Rightarrow> Some (Inl f)
      | Inr pos \<Rightarrow>
          map_option (\<lambda>r. and_then r (\<lambda>(bs, e).
              case e of Some x \<Rightarrow> Inr (Inl x) | None \<Rightarrow> Inr (Inr (format_lines n indent stripPrefix bs))))
            (ReadAll free 0 rb (new_iterator pos (writeClosed rb)) []))"

text \<open>Reading to the end takes everything from the reader's position, whatever the sizes of the reads.\<close>

lemma ReadAll_rest:
  assumes wf: "ring_wf rb" and free: "\<And>k. 0 < free k"
    and it: "it_open it" "it_trunc it = []" "it_index it \<noteq> TailPosition"
    and pos: "readIndex rb \<le> it_index it" "it_index it \<le> writeIndex rb"
  shows "ReadAll free k rb it acc = Some (Inr (acc @ drop (nat (it_index it - readIndex rb)) (held rb), None))"
  using it pos
proof (induction "nat (writeIndex rb - it_index it)" arbitrary: k it acc rule: less_induct)
  case less
  define a where "a = it_index it"
  define bs where "bs = take (free k) (drop (nat (a - readIndex rb)) (held rb))"
  note copy = Copy_spec [OF wf, of "free k" a, folded bs_def]
  have held: "int (length (held rb)) = writeIndex rb - readIndex rb" using held_length [OF wf] by (simp add: buffered_def)
  have a: "a \<noteq> TailPosition" "readIndex rb \<le> a" "a \<le> writeIndex rb" "it_index it = a"
    using less.prems by (simp_all add: a_def)
  show ?case
  proof (cases "a = writeIndex rb")
    case True
    then have "drop (nat (a - readIndex rb)) (held rb) = []" using held by simp
    moreover have "iterator_Read (free k) rb it = Inr (([], Some ErrEOF), it)"
      using True a less.prems wf copy by (simp add: iterator_Read_def ring_wf_def)
    ultimately show ?thesis using a(4) by (simp add: ReadAll.simps [of free k])
  next
    case False
    have "drop (nat (a - readIndex rb)) (held rb) \<noteq> []" using False a held by simp
    then have ne: "bs \<noteq> []" using free [of k] by (simp add: bs_def)
    have len: "a + int (length bs) \<le> writeIndex rb" using held a by (simp add: bs_def)
    define it1 where "it1 = it\<lparr>it_truncWritten := False, it_index := a + int (length bs)\<rparr>"
    have copy': "Copy (free k) a rb = Inr (a + int (length bs), bs, if a + int (length bs) = writeIndex rb then Some ErrEOF else None)"
      using copy a False free [of k] bs_def by simp
    have read: "iterator_Read (free k) rb it = Inr ((bs, if a + int (length bs) = writeIndex rb then Some ErrEOF else None), it1)"
      using less.prems(1,2) a(4) ne by (simp add: iterator_Read_def copy' it1_def)
    have split: "drop (nat (a - readIndex rb)) (held rb) = bs @ drop (nat (a + int (length bs) - readIndex rb)) (held rb)"
    proof -
      have "nat (a + int (length bs) - readIndex rb) = length bs + nat (a - readIndex rb)" using a(2) by simp
      moreover have "take (length bs) (drop (nat (a - readIndex rb)) (held rb)) = bs" by (simp add: bs_def min_def)
      ultimately show ?thesis by (metis append_take_drop_id drop_drop)
    qed
    show ?thesis
    proof (cases "a + int (length bs) = writeIndex rb")
      case True
      then have "drop (nat (a + int (length bs) - readIndex rb)) (held rb) = []" using held by simp
      with split True read a(4) show ?thesis by (simp add: ReadAll.simps [of free k])
    next
      case False
      have less1: "nat (writeIndex rb - it_index it1) < nat (writeIndex rb - it_index it)"
        using len ne a(4) False by (cases bs) (auto simp: it1_def)
      have it1: "it_open it1" "it_trunc it1 = []" "it_index it1 \<noteq> TailPosition"
        "readIndex rb \<le> it_index it1" "it_index it1 \<le> writeIndex rb"
        using less.prems a wf len by (auto simp: it1_def TailPosition_def ring_wf_def)
      have "ReadAll free k rb it acc = ReadAll free (k + 1) rb it1 (acc @ bs)"
        using False read by (simp add: ReadAll.simps [of free k])
      with less.hyps [OF less1 it1, of "k + 1" "acc @ bs"] split a(4) show ?thesis by (simp add: it1_def)
    qed
  qed
qed

text \<open>A line count that leaves out the line being written: two lines are asked for, and three follow the marker.\<close>

lemma LastLines_partial_line:
  "let text = lines_text [''a'', ''b'', ''c''] @ ''d'' in
   (case Write text (NewRingBuffer 16) of Inl _ \<Rightarrow> False | Inr (_, rb) \<Rightarrow> reverseLinePosition (2 + 1) rb = Inr 0) \<and>
   format_lines 2 [] False text = join_lines [''(...)'', ''b'', ''c'', ''d'']"
  by code_simp

lemma LastLines_result:
  assumes wf: "ring_wf rb" and "held rb \<noteq> []" "0 \<le> n" and free: "\<And>k. 0 < free k"
  obtains pos where "reverseLinePosition (n + 1) rb = Inr pos" "readIndex rb \<le> pos" "pos \<le> writeIndex rb"
    "LastLines free rb n indent strip =
       Some (Inr (Inr (format_lines n indent strip (drop (nat (pos - readIndex rb)) (held rb)))))"
proof -
  have "0 < n + 1" using assms(3) by simp
  from reverseLinePosition_spec [OF wf assms(2) this] obtain pos where
    pos: "reverseLinePosition (n + 1) rb = Inr pos" "readIndex rb \<le> pos" "pos \<le> writeIndex rb" by metis
  have "pos \<noteq> TailPosition" using pos(2) wf by (auto simp: ring_wf_def TailPosition_def)
  with pos ReadAll_rest [OF wf free, where it = "new_iterator pos (writeClosed rb)" and k = 0 and acc = "[]"]
  have "ReadAll free 0 rb (new_iterator pos (writeClosed rb)) [] =
      Some (Inr (drop (nat (pos - readIndex rb)) (held rb), None))"
    by (simp add: new_iterator_def)
  then show thesis using pos by (intro that) (simp_all add: LastLines_def)
qed


definition noon :: utc_time where
  "noon = \<lparr>utc_year = 2024, utc_month = 5, utc_day = 20, utc_hour = 12, utc_minute = 0, utc_second = 0, utc_nano = 7000001\<rparr>"


end
