(* ===== verification/CheckManager.thy ===== *)
theory CheckManager
  imports TaskRunner PlanValidate
begin

text \<open>
  \<open>src/internals/overlord/checkstate\<close>: the health checks.  A check runs as the handler of the only task of
  a change, first of kind \<open>perform-check\<close> until it failed \<open>threshold\<close> times in a row, then of kind
  \<open>recover-check\<close> until it succeeds, and so on; the manager keeps what it shows of every check in a map.
  The world is the state with that map, the configurations cached per change and the names
  the failure handlers were called with.  What a checker finds is an argument; a handler is a record of
  its local variables, and each case of its \<open>select\<close> is one step.
\<close>

datatype check_fault = StateFault fault | CheckPanic string

definition lift_st :: "fault + 'a \<Rightarrow> check_fault + 'a" where
  "lift_st r = (case r of Inl f \<Rightarrow> Inl (StateFault f) | Inr x \<Rightarrow> Inr x)"

lemma lift_st_simps [simp]: "lift_st (Inl f) = Inl (StateFault f)" "lift_st (Inr x) = Inr x"
  "lift_st r = Inr x \<longleftrightarrow> r = Inr x"
  by (simp_all add: lift_st_def split: sum.split)

definition performCheckKind :: string where "performCheckKind = ''perform-check''"
definition recoverCheckKind :: string where "recoverCheckKind = ''recover-check''"
definition noPruneAttr :: string where "noPruneAttr = ''check-no-prune''"
definition checkDetailsAttr :: string where "checkDetailsAttr = ''check-details''"

record check_details =
  cd_name :: string
  cd_failures :: int
  cd_successes :: int
  cd_proceed :: bool

definition details_json :: "check_details \<Rightarrow> json" where
  "details_json d =
     JObj ([(''name'', JStr (cd_name d)), (''failures'', JNum (cd_failures d)), (''successes'', JNum (cd_successes d))] @
       (if cd_proceed d then [(''proceed'', JBool True)] else []))"

text \<open>Unmarshalling into \<open>checkDetails\<close>: unknown keys are passed over, an entry of another type is an error.\<close>

definition details_entry :: "string \<Rightarrow> json \<Rightarrow> check_details \<Rightarrow> check_details option" where
  "details_entry k v d =
     (if k = ''name'' then (case v of JStr x \<Rightarrow> Some (d\<lparr>cd_name := x\<rparr>) | JNull \<Rightarrow> Some d | _ \<Rightarrow> None)
      else if k = ''failures'' then (case v of JNum n \<Rightarrow> Some (d\<lparr>cd_failures := n\<rparr>) | JNull \<Rightarrow> Some d | _ \<Rightarrow> None)
      else if k = ''successes'' then (case v of JNum n \<Rightarrow> Some (d\<lparr>cd_successes := n\<rparr>) | JNull \<Rightarrow> Some d | _ \<Rightarrow> None)
      else if k = ''proceed'' then (case v of JBool b \<Rightarrow> Some (d\<lparr>cd_proceed := b\<rparr>) | JNull \<Rightarrow> Some d | _ \<Rightarrow> None)
      else Some d)"

fun details_entries :: "(string \<times> json) list \<Rightarrow> check_details \<Rightarrow> check_details option" where
  "details_entries [] d = Some d"
| "details_entries ((k, v) # kvs) d =
     (case details_entry k v d of None \<Rightarrow> None | Some d1 \<Rightarrow> details_entries kvs d1)"

definition no_details :: check_details where
  "no_details = \<lparr>cd_name = [], cd_failures = 0, cd_successes = 0, cd_proceed = False\<rparr>"

fun json_details :: "json \<Rightarrow> check_details option" where
  "json_details (JObj kvs) = details_entries kvs no_details"
| "json_details JNull = Some no_details"
| "json_details _ = None"

lemma json_details_details_json [simp]: "json_details (details_json d) = Some d"
  by (simp add: details_json_def details_entry_def no_details_def)

text \<open>\<open>task.Get (checkDetailsAttr, &details)\<close>: \<open>None\<close> is its error.\<close>

definition task_details :: "task \<Rightarrow> check_details option" where
  "task_details t =
     (case data_get (task_data t) checkDetailsAttr of None \<Rightarrow> None | Some j \<Rightarrow> json_details j)"

definition set_details :: "check_details \<Rightarrow> task \<Rightarrow> task" where
  "set_details d t = t\<lparr>task_data := data_set checkDetailsAttr (Some (details_json d)) (task_data t)\<rparr>"

lemma task_details_set [simp]: "task_details (set_details d t) = Some d"
  by (simp add: task_details_def set_details_def data_get_set)

subsection \<open>The changes of a check\<close>

definition checkType :: "check \<Rightarrow> string" where
  "checkType c =
     (if chk_http c \<noteq> None then ''HTTP'' else if chk_tcp c \<noteq> None then ''TCP''
      else if chk_exec c \<noteq> None then ''exec'' else ''<unknown>'')"

definition check_change :: "string \<Rightarrow> string \<Rightarrow> time \<Rightarrow> check_details \<Rightarrow> st \<Rightarrow> fault + string \<times> st" where
  "check_change kind summary now d s =
     (let (tid, s1) = NewTask now kind summary s in
      and_then (need_task s1 tid) (\<lambda>t.
        and_then (NewChangeWithNoticeData now kind summary [(''check-name'', cd_name d)] (put_task tid (set_details d t) s1))
          (\<lambda>(cid, s2). and_then (need_change s2 cid) (\<lambda>c.
             and_then (AddTask cid tid
                 (put_change cid (c\<lparr>chg_data := data_set noPruneAttr (Some (JBool True)) (chg_data c)\<rparr>) s2))
               (\<lambda>s3. Inr (cid, s3))))))"

record check_data =
  ck_name :: string
  ck_level :: string
  ck_startup :: string
  ck_status :: string
  ck_successes :: int
  ck_failures :: int
  ck_threshold :: int
  ck_changeID :: string
  ck_prevChangeID :: string
  ck_successMetric :: int
  ck_failureMetric :: int

record check_world =
  cm_st :: st
  cm_checks :: "(string, check_data) fmap"
  cm_perform :: "(string, check) fmap"
  cm_recover :: "(string, check) fmap"
  cm_failed :: "string list"

definition CheckStatusUp :: string where "CheckStatusUp = ''up''"
definition CheckStatusDown :: string where "CheckStatusDown = ''down''"
definition CheckStatusInactive :: string where "CheckStatusInactive = ''inactive''"

definition performCheckChange :: "(string \<Rightarrow> string) \<Rightarrow> time \<Rightarrow> check \<Rightarrow> check_world \<Rightarrow> check_fault + string \<times> check_world" where
  "performCheckChange quote now config w =
     and_then (lift_st (check_change performCheckKind (''Perform '' @ checkType config @ '' check '' @ quote (chk_name config)) now
        (no_details\<lparr>cd_name := chk_name config\<rparr>) (cm_st w)))
       (\<lambda>(cid, s). Inr (cid, w\<lparr>cm_st := s, cm_perform := fmupd cid config (cm_perform w)\<rparr>))"

definition recoverCheckChange ::
    "(string \<Rightarrow> string) \<Rightarrow> time \<Rightarrow> check \<Rightarrow> int \<Rightarrow> int \<Rightarrow> check_world \<Rightarrow> check_fault + string \<times> check_world" where
  "recoverCheckChange quote now config successes failures w =
     and_then (lift_st (check_change recoverCheckKind (''Recover '' @ checkType config @ '' check '' @ quote (chk_name config)) now
        \<lparr>cd_name = chk_name config, cd_failures = failures, cd_successes = successes, cd_proceed = False\<rparr> (cm_st w)))
       (\<lambda>(cid, s). Inr (cid, w\<lparr>cm_st := s, cm_recover := fmupd cid config (cm_recover w)\<rparr>))"

subsection \<open>What is shown of a check\<close>

definition empty_check :: "string \<Rightarrow> check_data" where
  "empty_check name =
     \<lparr>ck_name = name, ck_level = [], ck_startup = [], ck_status = [], ck_successes = 0, ck_failures = 0,
      ck_threshold = 0, ck_changeID = [], ck_prevChangeID = [], ck_successMetric = 0, ck_failureMetric = 0\<rparr>"

definition ensureCheck :: "string \<Rightarrow> check_world \<Rightarrow> check_data" where
  "ensureCheck name w = (case fmlookup (cm_checks w) name of Some d \<Rightarrow> d | None \<Rightarrow> empty_check name)"

definition put_check :: "check_data \<Rightarrow> check_world \<Rightarrow> check_world" where
  "put_check d w = w\<lparr>cm_checks := fmupd (ck_name d) d (cm_checks w)\<rparr>"

definition check_status :: "check \<Rightarrow> string \<Rightarrow> int \<Rightarrow> string" where
  "check_status config changeID failures =
     (if changeID = [] then CheckStatusInactive
      else if chk_threshold config \<le> failures then CheckStatusDown else CheckStatusUp)"

definition updateCheckData :: "check \<Rightarrow> string \<Rightarrow> string \<Rightarrow> int \<Rightarrow> int \<Rightarrow> check_world \<Rightarrow> check_world" where
  "updateCheckData config changeID prevChangeID successes failures w =
     (let d = ensureCheck (chk_name config) w in
      w\<lparr>cm_checks := fmupd (chk_name config)
          (d\<lparr>ck_level := chk_level config,
             ck_startup := (if chk_startup config = [] then ''enabled'' else chk_startup config),
             ck_status := check_status config changeID failures,
             ck_successes := successes, ck_failures := failures, ck_threshold := chk_threshold config,
             ck_changeID := changeID, ck_prevChangeID := prevChangeID\<rparr>) (cm_checks w)\<rparr>)"

definition incSuccessMetric :: "check \<Rightarrow> check_world \<Rightarrow> check_world" where
  "incSuccessMetric config w =
     (let d = ensureCheck (chk_name config) w in
      w\<lparr>cm_checks := fmupd (chk_name config) (d\<lparr>ck_successMetric := ck_successMetric d + 1\<rparr>) (cm_checks w)\<rparr>)"

definition incFailureMetric :: "check \<Rightarrow> check_world \<Rightarrow> check_world" where
  "incFailureMetric config w =
     (let d = ensureCheck (chk_name config) w in
      w\<lparr>cm_checks := fmupd (chk_name config) (d\<lparr>ck_failureMetric := ck_failureMetric d + 1\<rparr>) (cm_checks w)\<rparr>)"

definition deleteCheckData :: "string \<Rightarrow> check_world \<Rightarrow> check_world" where
  "deleteCheckData name w = w\<lparr>cm_checks := fmdrop name (cm_checks w)\<rparr>"

subsection \<open>From one change of a check to the next\<close>

definition mustGetCheckDetails :: "st \<Rightarrow> change \<Rightarrow> check_fault + check_details" where
  "mustGetCheckDetails s c =
     and_then (lift_st (map_try (need_task s) (chg_tasks c))) (\<lambda>ts.
       case ts of
         [t] \<Rightarrow> (case task_details t of None \<Rightarrow> Inl (CheckPanic ''cannot get check details'') | Some d \<Rightarrow> Inr d)
       | _ \<Rightarrow> Inl (CheckPanic ''change should have one task''))"

definition changeStatusChanged ::
    "(string \<Rightarrow> string) \<Rightarrow> time \<Rightarrow> string \<Rightarrow> status \<Rightarrow> check_world \<Rightarrow> check_fault + check_world" where
  "changeStatusChanged quote now cid new w =
     and_then (lift_st (need_change (cm_st w) cid)) (\<lambda>c.
       if chg_kind c = performCheckKind \<and> new = ErrorStatus then
         and_then (mustGetCheckDetails (cm_st w) c) (\<lambda>d.
           if \<not> cd_proceed d then Inr w
           else case fmlookup (cm_perform w) (chg_id c) of
             None \<Rightarrow> Inl (CheckPanic ''interface conversion'')
           | Some config \<Rightarrow>
               and_then (recoverCheckChange quote now config (cd_successes d) (cd_failures d) w) (\<lambda>(cid', w1).
                 let w2 = updateCheckData config cid' (chg_id c) (cd_successes d) (cd_failures d) w1 in
                 Inr (w2\<lparr>cm_st := ensure_before 0 (cm_st w2)\<rparr>)))
       else if chg_kind c = recoverCheckKind \<and> new = DoneStatus then
         and_then (mustGetCheckDetails (cm_st w) c) (\<lambda>d.
           if \<not> cd_proceed d then Inr w
           else case fmlookup (cm_recover w) (chg_id c) of
             None \<Rightarrow> Inl (CheckPanic ''interface conversion'')
           | Some config \<Rightarrow>
               and_then (performCheckChange quote now config w) (\<lambda>(cid', w1).
                 let w2 = updateCheckData config cid' (chg_id c) (cd_successes d) (cd_failures d) w1 in
                 Inr (w2\<lparr>cm_st := ensure_before 0 (cm_st w2)\<rparr>)))
       else Inr w)"

text \<open>
  An operation on the state, with the manager called for every change whose status it changed.  The
  manager is called in the middle of the operation; it only adds a change, so being called at its end comes to the same.
\<close>

fun dispatch :: "(string \<Rightarrow> string) \<Rightarrow> time \<Rightarrow> event list \<Rightarrow> check_world \<Rightarrow> check_fault + check_world" where
  "dispatch quote now [] w = Inr w"
| "dispatch quote now (e # es) w =
     (case e of
        ChangeStatusChanged cid old new \<Rightarrow>
          and_then (changeStatusChanged quote now cid new w) (dispatch quote now es)
      | _ \<Rightarrow> dispatch quote now es w)"

definition with_events ::
    "(string \<Rightarrow> string) \<Rightarrow> time \<Rightarrow> (st \<Rightarrow> fault + st) \<Rightarrow> check_world \<Rightarrow> check_fault + check_world" where
  "with_events quote now f w =
     and_then (lift_st (f (cm_st w))) (\<lambda>s.
       dispatch quote now (drop (length (events (cm_st w))) (events s)) (w\<lparr>cm_st := s\<rparr>))"

subsection \<open>Plan changes\<close>

definition mergeServiceContext :: "plan \<Rightarrow> check \<Rightarrow> check_fault + check" where
  "mergeServiceContext p config =
     (case chk_exec config of
        None \<Rightarrow> Inr config
      | Some x \<Rightarrow>
          if exec_service_context x = [] then Inr config
          else case MergeServiceContext p (exec_service_context x)
              \<lparr>co_environment = exec_environment x, co_user_id = exec_user_id x, co_user = exec_user x,
               co_group_id = exec_group_id x, co_group = exec_group x, co_working_dir = exec_working_dir x\<rparr> of
            Inl e \<Rightarrow> Inl (CheckPanic (fst e))
          | Inr m \<Rightarrow>
              Inr (config\<lparr>chk_exec := Some (x\<lparr>exec_environment := co_environment m, exec_user_id := co_user_id m,
                exec_user := co_user m, exec_group := co_group m, exec_group_id := co_group_id m,
                exec_working_dir := co_working_dir m\<rparr>)\<rparr>))"

text \<open>\<open>startup\<close> is \<open>enabled\<close>, or not given.\<close>

definition starts_enabled :: "check \<Rightarrow> bool" where
  "starts_enabled c \<longleftrightarrow> chk_startup c = ''enabled'' \<or> chk_startup c = []"

record plan_change =
  pc_modified :: "string list"
  pc_existing :: "string list"
  pc_ensure :: bool
  pc_world :: check_world

text \<open>One change in the first loop of \<open>PlanChanged\<close>.\<close>

definition plan_change_step ::
    "(string \<Rightarrow> string) \<Rightarrow> time \<Rightarrow> plan \<Rightarrow> string \<Rightarrow> plan_change \<Rightarrow> check_fault + plan_change" where
  "plan_change_step quote now p cid x =
     and_then (lift_st (need_change (cm_st (pc_world x)) cid)) (\<lambda>c.
       if chg_kind c \<notin> {performCheckKind, recoverCheckKind} then Inr x
       else if chg_ready c then Inr x
       else and_then (mustGetCheckDetails (cm_st (pc_world x)) c) (\<lambda>d.
         case fmlookup (if chg_kind c = performCheckKind then cm_perform (pc_world x) else cm_recover (pc_world x)) cid of
           None \<Rightarrow>
             and_then (with_events quote now (change_Abort now cid) (pc_world x)) (\<lambda>w.
               Inr (x\<lparr>pc_ensure := True, pc_world := w\<rparr>))
         | Some old \<Rightarrow>
             (let x1 = x\<lparr>pc_existing := pc_existing x @ [chk_name old]\<rparr>;
                  abort = (\<lambda>y. and_then (with_events quote now (change_Abort now cid) (pc_world y)) (\<lambda>w.
                             Inr (y\<lparr>pc_ensure := True, pc_world := deleteCheckData (cd_name d) w\<rparr>)))
              in case map_of (plan_checks p) (cd_name d) of
                   None \<Rightarrow> abort x1
                 | Some new \<Rightarrow>
                     and_then (mergeServiceContext p new) (\<lambda>merged.
                       if old = merged then Inr x1
                       else if chk_startup new = ''disabled'' \<and> starts_enabled old then Inr x1
                       else abort (x1\<lparr>pc_modified := pc_modified x1 @ [cd_name d]\<rparr>)))))"

text \<open>The second loop: checks the plan has and no running change is for.\<close>

definition new_check_step :: "check \<Rightarrow> plan_change \<Rightarrow> plan_change" where
  "new_check_step config x =
     (if chk_name config \<in> set (pc_existing x) then x
      else if starts_enabled config then x\<lparr>pc_modified := pc_modified x @ [chk_name config]\<rparr>
      else x\<lparr>pc_world := updateCheckData config [] [] 0 0 (pc_world x)\<rparr>)"

definition start_check_step :: "(string \<Rightarrow> string) \<Rightarrow> time \<Rightarrow> plan \<Rightarrow> check \<Rightarrow> plan_change \<Rightarrow> check_fault + plan_change" where
  "start_check_step quote now p config x =
     (if chk_name config \<notin> set (pc_modified x) then Inr x
      else and_then (mergeServiceContext p config) (\<lambda>merged.
        and_then (performCheckChange quote now merged (pc_world x)) (\<lambda>(cid, w).
          Inr (x\<lparr>pc_ensure := True, pc_world := updateCheckData config cid [] 0 0 w\<rparr>))))"

text \<open>\<open>order\<close> is the order in which Go ranges over the changes, the order of \<open>plan_checks\<close> that of the checks.\<close>

definition PlanChanged ::
    "(string \<Rightarrow> string) \<Rightarrow> time \<Rightarrow> string list \<Rightarrow> plan \<Rightarrow> check_world \<Rightarrow> check_fault + check_world" where
  "PlanChanged quote now cids p w =
     and_then (fold_try (plan_change_step quote now p) cids
         \<lparr>pc_modified = [], pc_existing = [], pc_ensure = False, pc_world = w\<rparr>) (\<lambda>x.
     and_then (fold_try (start_check_step quote now p) (map snd (plan_checks p))
         (fold new_check_step (map snd (plan_checks p)) x)) (\<lambda>y.
       Inr (if pc_ensure y then (pc_world y)\<lparr>cm_st := ensure_before 0 (cm_st (pc_world y))\<rparr> else pc_world y)))"

subsection \<open>Starting and stopping by request\<close>

definition missing_checks :: "plan \<Rightarrow> string list \<Rightarrow> string list" where
  "missing_checks p names = filter (\<lambda>n. map_of (plan_checks p) n = None) names"

fun start_checks ::
    "(string \<Rightarrow> string) \<Rightarrow> time \<Rightarrow> plan \<Rightarrow> string list \<Rightarrow> check_world \<Rightarrow> check_fault + string list \<times> check_world" where
  "start_checks quote now p [] w = Inr ([], w)"
| "start_checks quote now p (n # ns) w =
     (case map_of (plan_checks p) n of
        None \<Rightarrow> Inl (CheckPanic ''nil check'')
      | Some config \<Rightarrow>
          (case fmlookup (cm_checks w) n of
             None \<Rightarrow> start_checks quote now p ns w
           | Some d \<Rightarrow>
               if ck_changeID d \<noteq> [] then start_checks quote now p ns w
               else and_then (performCheckChange quote now config w) (\<lambda>(cid, w1).
                 and_then (start_checks quote now p ns (updateCheckData config cid [] 0 0 w1)) (\<lambda>(started, w2).
                   Inr (chk_name config # started, w2)))))"

text \<open>The first result is the error \<open>ChecksNotFound\<close> with the sorted names.\<close>

definition StartChecks ::
    "(string \<Rightarrow> string) \<Rightarrow> time \<Rightarrow> plan \<Rightarrow> string list \<Rightarrow> check_world \<Rightarrow>
     check_fault + (string list + string list) \<times> check_world" where
  "StartChecks quote now p names w =
     (if missing_checks p names \<noteq> [] then Inr (Inl (sort (missing_checks p names)), w)
      else and_then (start_checks quote now p names w) (\<lambda>(started, w1). Inr (Inr started, w1)))"

fun stop_checks ::
    "(string \<Rightarrow> string) \<Rightarrow> time \<Rightarrow> plan \<Rightarrow> string list \<Rightarrow> check_world \<Rightarrow> check_fault + string list \<times> check_world" where
  "stop_checks quote now p [] w = Inr ([], w)"
| "stop_checks quote now p (n # ns) w =
     (case map_of (plan_checks p) n of
        None \<Rightarrow> Inl (CheckPanic ''nil check'')
      | Some config \<Rightarrow>
          (case fmlookup (cm_checks w) n of
             None \<Rightarrow> stop_checks quote now p ns w
           | Some d \<Rightarrow>
               if ck_changeID d = [] then stop_checks quote now p ns w
               else and_then
                 (case fmlookup (changes (cm_st w)) (ck_changeID d) of
                    None \<Rightarrow> Inr ([], w)
                  | Some c \<Rightarrow> and_then (with_events quote now (change_Abort now (ck_changeID d)) w) (\<lambda>w1. Inr ([chk_name config], w1)))
                 (\<lambda>(stopped1, w1).
                   and_then (stop_checks quote now p ns
                       (updateCheckData config [] (ck_prevChangeID d) (ck_successes d) (ck_failures d) w1)) (\<lambda>(stopped2, w2).
                     Inr (stopped1 @ stopped2, w2)))))"

definition StopChecks ::
    "(string \<Rightarrow> string) \<Rightarrow> time \<Rightarrow> plan \<Rightarrow> string list \<Rightarrow> check_world \<Rightarrow>
     check_fault + (string list + string list) \<times> check_world" where
  "StopChecks quote now p names w =
     (if missing_checks p names \<noteq> [] then Inr (Inl (sort (missing_checks p names)), w)
      else and_then (stop_checks quote now p names w) (\<lambda>(done_names, w1). Inr (Inr done_names, w1)))"

definition replan_check :: "(string \<Rightarrow> string) \<Rightarrow> time \<Rightarrow> check \<Rightarrow> check_world \<Rightarrow> check_fault + check_world" where
  "replan_check quote now config w =
     (case fmlookup (cm_checks w) (chk_name config) of
        None \<Rightarrow> Inr w
      | Some d \<Rightarrow>
          if chk_startup config = ''disabled'' then Inr w
          else if ck_changeID d \<noteq> [] then Inr w
          else and_then (performCheckChange quote now config w) (\<lambda>(cid, w1). Inr (updateCheckData config cid [] 0 0 w1)))"

definition checks_Replan :: "(string \<Rightarrow> string) \<Rightarrow> time \<Rightarrow> plan \<Rightarrow> check_world \<Rightarrow> check_fault + check_world" where
  "checks_Replan quote now p w = fold_try (replan_check quote now) (map snd (plan_checks p)) w"

text \<open>\<open>Checks\<close>: the data of every check, by name.\<close>

definition Checks :: "check_world \<Rightarrow> check_data list" where
  "Checks w = map snd (sorted_list_of_fmap (cm_checks w))"

subsection \<open>The handlers\<close>

text \<open>What a checker finds: its error has a message and details.\<close>

datatype check_result = CheckOK | CheckError string string | DeadlineExceeded

definition runCheck :: "string \<Rightarrow> check_result \<Rightarrow> (string \<times> string) option" where
  "runCheck timeout r =
     (case r of CheckOK \<Rightarrow> None | CheckError m d \<Rightarrow> Some (m, d) | DeadlineExceeded \<Rightarrow> Some (''check timed out after '' @ timeout, []))"

definition errorDetails :: "string \<times> string \<Rightarrow> string" where
  "errorDetails e = (if snd e \<noteq> [] then fst e @ ''; '' @ snd e else fst e)"

definition pluralise :: "nat \<Rightarrow> string \<Rightarrow> string \<Rightarrow> string" where
  "pluralise n singular plural = itoa n @ '' '' @ (if n = 1 then singular else plural)"

text \<open>The variables of a running handler.\<close>

record check_run =
  cr_task :: string
  cr_change :: string
  cr_config :: check
  cr_prev :: string
  cr_details :: check_details

text \<open>
  The beginning of \<open>doPerformCheck\<close> and \<open>doRecoverCheck\<close>, up to the loop: the error, or the variables.
\<close>

definition begin_check :: "bool \<Rightarrow> string \<Rightarrow> check_world \<Rightarrow> check_fault + (string + check_run) \<times> check_world" where
  "begin_check perform tid w =
     and_then (lift_st (need_task (cm_st w) tid)) (\<lambda>t.
     and_then (lift_st (need_change (cm_st w) (task_change t))) (\<lambda>c.
       case fmlookup (if perform then cm_perform w else cm_recover w) (chg_id c) of
         None \<Rightarrow> Inl (CheckPanic ''interface conversion'')
       | Some config \<Rightarrow>
           (case task_details t of
              None \<Rightarrow> Inr (Inl ''cannot get check details'', w)
            | Some d \<Rightarrow>
                (let data = ensureCheck (chk_name config) w in
                 Inr (Inr \<lparr>cr_task = tid, cr_change = chg_id c, cr_config = config, cr_prev = ck_prevChangeID data, cr_details = d\<rparr>,
                      w\<lparr>cm_checks := fmupd (chk_name config) data (cm_checks w)\<rparr>)))))"

text \<open>\<open>task.Set (checkDetailsAttr, &details)\<close>, with a log message before or after it.\<close>

definition save_details :: "string \<Rightarrow> check_details \<Rightarrow> check_world \<Rightarrow> check_fault + check_world" where
  "save_details tid d w =
     and_then (lift_st (need_task (cm_st w) tid)) (\<lambda>t.
       Inr (w\<lparr>cm_st := put_task tid (set_details d t) (cm_st w)\<rparr>))"

definition log_check :: "time \<Rightarrow> string \<Rightarrow> string \<Rightarrow> string \<Rightarrow> check_world \<Rightarrow> check_fault + check_world" where
  "log_check now kind tid msg w =
     and_then (lift_st (task_Logf now kind tid (''%s'', [msg]) (cm_st w))) (\<lambda>s. Inr (w\<lparr>cm_st := s\<rparr>))"

text \<open>
  \<open>performCheck\<close>: \<open>dead\<close> is the error of the tomb when it is not alive after the check ran.  The first result is what
  the handler returns, \<open>None\<close> when it goes on; the second is the error of the check, which a refresh reports.
\<close>

type_synonym check_step = "(string option option \<times> string option) \<times> check_run \<times> check_world"

definition performCheck ::
    "time \<Rightarrow> string option option \<Rightarrow> (string \<times> string) option \<Rightarrow> check_run \<Rightarrow> check_world \<Rightarrow> check_fault + check_step" where
  "performCheck now dead err r w =
     (case dead of
        Some tombErr \<Rightarrow> Inr ((Some tombErr, tombErr), r, w)
      | None \<Rightarrow>
          (let config = cr_config r; d = cr_details r in
           case err of
             Some e \<Rightarrow>
               (let w1 = incFailureMetric config w;
                    d1 = d\<lparr>cd_failures := cd_failures d + 1\<rparr>;
                    atThreshold = chk_threshold config \<le> cd_failures d1;
                    d2 = (if atThreshold then d1\<lparr>cd_proceed := True\<rparr> else d1)
                in and_then (if atThreshold then Inr w1 else log_check now LogError (cr_task r) (errorDetails e) w1) (\<lambda>w2.
                   and_then (save_details (cr_task r) d2 w2) (\<lambda>w3.
                     let r1 = r\<lparr>cr_details := d2\<rparr> in
                     if atThreshold then
                       Inr ((Some (Some (errorDetails e)), Some (errorDetails e)), r1,
                            w3\<lparr>cm_failed := cm_failed w3 @ [chk_name config]\<rparr>)
                     else Inr ((None, Some (errorDetails e)), r1,
                            updateCheckData config (cr_change r) (cr_prev r) (cd_successes d2) (cd_failures d2) w3))))
           | None \<Rightarrow>
               (let w1 = incSuccessMetric config w;
                    d1 = d\<lparr>cd_successes := cd_successes d + 1, cd_failures := (if 0 < cd_failures d then 0 else cd_failures d)\<rparr>;
                    w2 = updateCheckData config (cr_change r) (cr_prev r) (cd_successes d1) (cd_failures d1) w1
                in and_then (if 0 < cd_failures d
                             then log_check now LogInfo (cr_task r)
                                    (''succeeded after '' @ pluralise (nat (cd_failures d)) ''failure'' ''failures'') w2
                             else Inr w2) (\<lambda>w3.
                   and_then (save_details (cr_task r) d1 w3) (\<lambda>w4.
                     Inr ((None, None), r\<lparr>cr_details := d1\<rparr>, w4))))))"

definition recoverCheck ::
    "time \<Rightarrow> string option option \<Rightarrow> (string \<times> string) option \<Rightarrow> check_run \<Rightarrow> check_world \<Rightarrow> check_fault + check_step" where
  "recoverCheck now dead err r w =
     (case dead of
        Some tombErr \<Rightarrow> Inr ((Some tombErr, tombErr), r, w)
      | None \<Rightarrow>
          (let config = cr_config r; d = cr_details r in
           case err of
             Some e \<Rightarrow>
               (let w1 = incFailureMetric config w;
                    d1 = d\<lparr>cd_failures := cd_failures d + 1\<rparr>;
                    w2 = updateCheckData config (cr_change r) (cr_prev r) (cd_successes d1) (cd_failures d1) w1
                in and_then (save_details (cr_task r) d1 w2) (\<lambda>w3.
                   and_then (log_check now LogError (cr_task r) (errorDetails e) w3) (\<lambda>w4.
                     Inr ((None, Some (errorDetails e)), r\<lparr>cr_details := d1\<rparr>, w4))))
           | None \<Rightarrow>
               (let w1 = incSuccessMetric config w;
                    d1 = d\<lparr>cd_successes := 1, cd_failures := 0, cd_proceed := True\<rparr>
                in and_then (save_details (cr_task r) d1 w1) (\<lambda>w2.
                     Inr ((Some None, None), r\<lparr>cr_details := d1\<rparr>, w2)))))"

subsection \<open>The life of a check\<close>

text \<open>
  What happens when a check is run once: a step of the handler; when the handler returns, its task gets
  the status for what it returned, which calls the manager, and the task of the change that the manager
  created is started.
\<close>

definition launch :: "(string \<Rightarrow> string) \<Rightarrow> time \<Rightarrow> bool \<Rightarrow> string \<Rightarrow> check_world \<Rightarrow> check_fault + bool \<times> check_run \<times> check_world" where
  "launch quote now perform cid w =
     and_then (lift_st (need_change (cm_st w) cid)) (\<lambda>c.
       case chg_tasks c of
         [tid] \<Rightarrow>
           and_then (with_events quote now (SetStatus now tid DoingStatus) w) (\<lambda>w1.
           and_then (begin_check perform tid w1) (\<lambda>(r, w2).
             case r of Inl e \<Rightarrow> Inl (CheckPanic e) | Inr run \<Rightarrow> Inr (perform, run, w2)))
       | _ \<Rightarrow> Inl (CheckPanic ''change should have one task''))"

definition check_round ::
    "(string \<Rightarrow> string) \<Rightarrow> time \<Rightarrow> (string \<times> string) option \<Rightarrow> bool \<times> check_run \<times> check_world \<Rightarrow>
     check_fault + bool \<times> check_run \<times> check_world" where
  "check_round quote now err x =
     (case x of (perform, r, w) \<Rightarrow>
        and_then ((if perform then performCheck else recoverCheck) now None err r w) (\<lambda>((ex, e), r1, w1).
          case ex of
            None \<Rightarrow> Inr (perform, r1, w1)
          | Some result \<Rightarrow>
              and_then (with_events quote now (SetStatus now (cr_task r1) (if result = None then DoneStatus else ErrorStatus)) w1) (\<lambda>w2.
                launch quote now (\<not> perform) (ck_changeID (ensureCheck (chk_name (cr_config r1)) w2)) w2)))"

text \<open>
  The specification: the check is up or down, with the failures in a row, the successes counted by the
  handler, the successes shown, and how often the threshold was hit.
\<close>

record check_count =
  down :: bool
  fails :: int
  oks :: int
  shown :: int
  hits :: nat

definition count_step :: "int \<Rightarrow> bool \<Rightarrow> check_count \<Rightarrow> check_count" where
  "count_step threshold ok x =
     (if ok then
        if down x then x\<lparr>down := False, fails := 0, oks := 0, shown := 1\<rparr>
        else x\<lparr>fails := 0, oks := oks x + 1, shown := oks x + 1\<rparr>
      else if \<not> down x \<and> threshold \<le> fails x + 1
           then x\<lparr>down := True, fails := fails x + 1, shown := oks x, hits := hits x + 1\<rparr>
           else x\<lparr>fails := fails x + 1, shown := oks x\<rparr>)"

text \<open>A running check change with its only task, which the handler works for.\<close>

definition check_task :: "bool \<Rightarrow> status \<Rightarrow> string \<Rightarrow> string \<Rightarrow> check_details \<Rightarrow> st \<Rightarrow> bool" where
  "check_task perform x cid tid d s \<longleftrightarrow>
     (\<exists>c t. fmlookup (changes s) cid = Some c \<and> chg_id c = cid \<and> cid \<noteq> [] \<and>
        chg_kind c = (if perform then performCheckKind else recoverCheckKind) \<and> chg_tasks c = [tid] \<and>
        chg_status c = DefaultStatus \<and> \<not> chg_ready c \<and> last_observed c = x \<and> notice_data_of c \<noteq> None \<and>
        fmlookup (tasks s) tid = Some t \<and> task_change t = cid \<and> task_status t = x \<and> task_details t = Some d)"

definition watching :: "check \<Rightarrow> check_count \<Rightarrow> bool \<times> check_run \<times> check_world \<Rightarrow> bool" where
  "watching config x y \<longleftrightarrow> (case y of (perform, r, w) \<Rightarrow>
     perform = (\<not> down x) \<and> cr_config r = config \<and>
     cr_details r = \<lparr>cd_name = chk_name config, cd_failures = fails x, cd_successes = oks x, cd_proceed = False\<rparr> \<and>
     check_task perform DoingStatus (cr_change r) (cr_task r) (cr_details r) (cm_st w) \<and>
     fmlookup (if perform then cm_perform w else cm_recover w) (cr_change r) = Some config \<and>
     (\<exists>d. fmlookup (cm_checks w) (chk_name config) = Some d \<and> ck_changeID d = cr_change r \<and>
        ck_failures d = fails x \<and> ck_successes d = shown x \<and>
        ck_status d = (if down x then CheckStatusDown else CheckStatusUp)) \<and>
     0 \<le> fails x \<and> (down x \<longleftrightarrow> chk_threshold config \<le> fails x))"

subsection \<open>Status changes of a check change\<close>

lemma count_list_single: "count_list [a] b = (if a = b then 1 else 0)"
  by simp

lemma find_statusOrder_single:
  "x \<noteq> DefaultStatus \<Longrightarrow> find (\<lambda>st. 0 < count_list [x] st) statusOrder = Some x"
  by (cases x) (simp_all add: statusOrder_def)

lemma computed_status_single:
  assumes "chg_tasks c = [tid]" "chg_status c = DefaultStatus" "fmlookup (tasks s) tid = Some t"
    and "task_status t \<notin> {DefaultStatus, WaitStatus}"
  shows "computed_status s c = Inr (task_status t, [])"
proof -
  have t: "task_Status t = task_status t" using assms(4) by (simp add: task_Status_def)
  have n: "\<not> 0 < count_list [task_status t] WaitStatus" using assms(4) by simp
  have "computed_status s c = (case find (\<lambda>st. 0 < count_list [task_status t] st) statusOrder of
      Some st \<Rightarrow> Inr (st, []) | None \<Rightarrow> Inl BadStatusAggregation)"
    using n by (simp add: computed_status_def assms(1,2,3) t Let_def)
  then show ?thesis using find_statusOrder_single [of "task_status t"] assms(4) by simp
qed

lemma change_addNotice_events:
  assumes "change_addNotice now cid s = Inr s'"
  obtains bs where "events s' = events s @ bs" "set bs \<subseteq> {NoticeBroadcast}"
  using assms
  by (elim change_addNoticeE) (auto simp: AddNotice_def Let_def emit_def split: option.splits if_splits prod.splits)

lemma notify_single:
  assumes c: "fmlookup (changes s) cid = Some c" "chg_id c = cid" "cid \<noteq> []" "notice_data_of c \<noteq> None"
    and new: "last_observed c \<noteq> x"
  obtains s' c' bs where "notifyStatusChange now cid x s = Inr s'" "tasks s' = tasks s"
    "fmlookup (changes s') cid = Some c'" "chg_core c' = chg_core c" "last_observed c' = x" "chg_ready c' = chg_ready c"
    "\<And>k. k \<noteq> cid \<Longrightarrow> fmlookup (changes s') k = fmlookup (changes s) k"
    "events s' = events s @ ChangeStatusChanged cid (last_observed c) x # bs" "set bs \<subseteq> {NoticeBroadcast}"
proof -
  define c1 where "c1 = c\<lparr>last_observed := x\<rparr>"
  define s1 where "s1 = put_change cid c1 (emit (ChangeStatusChanged cid (last_observed c) x) s)"
  have o: "observe_change cid x c s = s1" using new by (simp add: observe_change_def s1_def c1_def)
  have s1: "fmlookup (changes s1) cid = Some c1" "tasks s1 = tasks s"
    "events s1 = events s @ [ChangeStatusChanged cid (last_observed c) x]"
    "\<And>k. k \<noteq> cid \<Longrightarrow> fmlookup (changes s1) k = fmlookup (changes s) k"
    by (simp_all add: s1_def)
  have c1: "chg_core c1 = chg_core c" "chg_id c1 = cid" "notice_data_of c1 \<noteq> None" "chg_ready c1 = chg_ready c" "last_observed c1 = x"
    using c by (simp_all add: c1_def chg_core_def notice_data_of_def)
  show thesis
  proof (cases "shouldSkipChangeUpdateNotice (last_recorded c) x")
    case True
    then show thesis using s1 c1 c(1) by (intro that [of s1 c1 "[]"]) (simp_all add: notifyStatusChange_def o)
  next
    case False
    from change_addNotice_ok [OF s1(1) c1(3)] c1(2) c(3) obtain s2 where s2: "change_addNotice now cid s1 = Inr s2" by auto
    from change_addNotice_events [OF s2] obtain bs where bs: "events s2 = events s1 @ bs" "set bs \<subseteq> {NoticeBroadcast}" .
    have f: "tasks s2 = tasks s1" "changes s2 = changes s1" using change_addNotice_frame [OF s2] by auto
    have "notifyStatusChange now cid x s = Inr (put_change cid (c1\<lparr>last_recorded := x\<rparr>) s2)"
      using False c(1) s2 s1(1) f by (simp add: notifyStatusChange_def o)
    then show thesis using s1 c1 f bs
      by (intro that [of "put_change cid (c1\<lparr>last_recorded := x\<rparr>) s2" "c1\<lparr>last_recorded := x\<rparr>" bs]) (simp_all add: chg_core_def)
  qed
qed

lemma detectChangeReady_single:
  assumes "fmlookup (changes s) cid = Some c" "chg_tasks c = [tid]" "fmlookup (tasks s) tid = Some t" "\<not> chg_ready c"
  shows "detectChangeReady now cid tid s = Inr (put_change cid (markReady now c) s)"
  using assms by (simp add: detectChangeReady_def)

lemma SetStatus_check:
  assumes ct: "check_task perform old cid tid d s"
    and x: "\<not> status_Ready old" "old \<noteq> x" "x \<notin> {DefaultStatus, WaitStatus}" "old \<noteq> AbortStatus"
  obtains s' bs where "SetStatus now tid x s = Inr s'"
    "events s' = events s @ ChangeStatusChanged cid old x # bs" "set bs \<subseteq> {NoticeBroadcast, TaskStatusChanged tid old x}"
    "\<not> status_Ready x \<Longrightarrow> check_task perform x cid tid d s'"
    "\<exists>c t. fmlookup (changes s') cid = Some c \<and> chg_id c = cid \<and> chg_kind c = (if perform then performCheckKind else recoverCheckKind) \<and>
       chg_tasks c = [tid] \<and> fmlookup (tasks s') tid = Some t \<and> task_details t = Some d"
proof -
  from ct obtain c t where c: "fmlookup (changes s) cid = Some c" "chg_id c = cid" "cid \<noteq> []"
    "chg_kind c = (if perform then performCheckKind else recoverCheckKind)" "chg_tasks c = [tid]"
    "chg_status c = DefaultStatus" "\<not> chg_ready c" "last_observed c = old" "notice_data_of c \<noteq> None"
    and t: "fmlookup (tasks s) tid = Some t" "task_change t = cid" "task_status t = old" "task_details t = Some d"
    by (auto simp: check_task_def)
  define t1 where "t1 = set_task_status now old x t"
  have t1: "task_status t1 = x" "task_change t1 = cid" "task_details t1 = Some d"
    using t by (simp_all add: t1_def set_task_status_def task_details_def)
  define s1 where "s1 = put_task tid t1 (s\<lparr>modified := True\<rparr>)"
  have s1: "fmlookup (changes s1) cid = Some c" "fmlookup (tasks s1) tid = Some t1" "events s1 = events s" "changes s1 = changes s"
    using c by (simp_all add: s1_def)
  have status: "change_Status now cid s1 = Inr (s1, x)"
    using computed_status_single [of c tid s1 t1] c s1 t1 x(3) by (simp add: change_Status_def)
  define s2 where "s2 = (if status_Ready x then put_change cid (markReady now c) s1 else s1)"
  define c2 where "c2 = (if status_Ready x then markReady now c else c)"
  have c2: "fmlookup (changes s2) cid = Some c2" "chg_id c2 = cid" "notice_data_of c2 \<noteq> None" "last_observed c2 = old"
    "chg_core c2 = chg_core c" "chg_ready c2 = status_Ready x" "events s2 = events s" "tasks s2 = tasks s1"
    using c s1 by (auto simp: s2_def c2_def markReady_def notice_data_of_def chg_core_def)
  from notify_single [OF c2(1,2) c(3) c2(3), of x now] x(2) c2(4) obtain s3 c3 bs where
    s3: "notifyStatusChange now cid x s2 = Inr s3" "tasks s3 = tasks s2" "fmlookup (changes s3) cid = Some c3"
    "chg_core c3 = chg_core c2" "last_observed c3 = x" "chg_ready c3 = chg_ready c2"
    "events s3 = events s2 @ ChangeStatusChanged cid old x # bs" "set bs \<subseteq> {NoticeBroadcast}"
    by metis
  have "taskStatusChanged now cid tid old x s1 = Inr s3"
    using status x(1) s3(1) detectChangeReady_single [OF s1(1) c(5) s1(2) c(7)]
    by (simp add: taskStatusChanged_def s2_def split: if_splits)
  then have set: "SetStatus now tid x s = Inr (emit (TaskStatusChanged tid old x) s3)"
    using x t c s1 by (simp add: SetStatus_def changeStatus_def task_Change_def s1_def [symmetric] t1_def [symmetric])
  have core: "chg_id c3 = chg_id c" "chg_kind c3 = chg_kind c" "chg_tasks c3 = chg_tasks c" "chg_status c3 = chg_status c"
    "chg_data c3 = chg_data c"
  proof -
    have e: "chg_core c3 = chg_core c" using s3(4) c2(5) by simp
    show "chg_id c3 = chg_id c" "chg_kind c3 = chg_kind c" "chg_tasks c3 = chg_tasks c" "chg_status c3 = chg_status c"
      "chg_data c3 = chg_data c"
      using arg_cong [OF e, of chg_id] arg_cong [OF e, of chg_kind] arg_cong [OF e, of chg_tasks]
        arg_cong [OF e, of chg_status] arg_cong [OF e, of chg_data] by simp_all
  qed
  have nd: "notice_data_of c3 = notice_data_of c" using core by (simp add: notice_data_of_def)
  show thesis
  proof (rule that [OF set])
    show "events (emit (TaskStatusChanged tid old x) s3) =
        events s @ ChangeStatusChanged cid old x # (bs @ [TaskStatusChanged tid old x])"
      using s3(7) c2(7) by simp
    show "set (bs @ [TaskStatusChanged tid old x]) \<subseteq> {NoticeBroadcast, TaskStatusChanged tid old x}"
      using s3(8) by auto
    show "check_task perform x cid tid d (emit (TaskStatusChanged tid old x) s3)" if "\<not> status_Ready x"
      unfolding check_task_def using that s3 c2 core c t1 s1 nd
      by (intro exI [of _ c3] exI [of _ t1]) simp
    show "\<exists>c t. fmlookup (changes (emit (TaskStatusChanged tid old x) s3)) cid = Some c \<and> chg_id c = cid \<and>
        chg_kind c = (if perform then performCheckKind else recoverCheckKind) \<and> chg_tasks c = [tid] \<and>
        fmlookup (tasks (emit (TaskStatusChanged tid old x) s3)) tid = Some t \<and> task_details t = Some d"
      using s3 c2 core c t1 s1 by (intro exI [of _ c3] exI [of _ t1]) simp
  qed
qed

text \<open>Creating the change of a check.\<close>

lemma check_change_ok:
  assumes "kind = (if perform then performCheckKind else recoverCheckKind)"
  obtains cid tid s' where "check_change kind summary now d s = Inr (cid, s')"
    "check_task perform DefaultStatus cid tid d s'"
proof -
  define n m where "n = Suc (last_task_id s)" and "m = Suc (last_change_id s)"
  define t where "t = set_details d (newTask now (itoa n) kind summary)"
  define s1 where "s1 = put_task (itoa n) t (put_task (itoa n) (newTask now (itoa n) kind summary) (s\<lparr>last_task_id := n\<rparr>))"
  define nd where "nd = data_set ''notice-data'' (Some (JObj [(''check-name'', JStr (cd_name d))])) fmempty"
  define c where "c = (newChange now (itoa m) kind summary)\<lparr>chg_data := nd\<rparr>"
  define s2 where "s2 = put_change (itoa m) c (s1\<lparr>last_change_id := m\<rparr>)"
  have c: "chg_id c = itoa m" "chg_kind c = kind" "chg_tasks c = []" "chg_status c = DefaultStatus" "\<not> chg_ready c"
    "last_observed c = DefaultStatus" "chg_data c = nd"
    by (simp_all add: c_def newChange_def)
  have lc: "last_change_id s1 = last_change_id s" by (simp add: s1_def put_task_def)
  have notice: "notice_data_of c \<noteq> None"
    by (simp add: notice_data_of_def c nd_def data_get_set)
  have "fmlookup (changes s2) (itoa m) = Some c" by (simp add: s2_def)
  from change_addNotice_ok [OF this notice] obtain s3 where s3: "change_addNotice now (itoa m) s2 = Inr s3"
    by (auto simp: c itoa_ne)
  have f: "tasks s3 = tasks s2" "changes s3 = changes s2" using change_addNotice_frame [OF s3] by auto
  define c1 where "c1 = c\<lparr>chg_data := data_set noPruneAttr (Some (JBool True)) (chg_data c)\<rparr>"
  define s4 where "s4 = put_change (itoa m) (c1\<lparr>chg_tasks := [itoa n]\<rparr>) (put_task (itoa n) (t\<lparr>task_change := itoa m\<rparr>)
      (put_change (itoa m) c1 s3))"
  have t: "task_change t = []" "task_id t = itoa n" "task_status t = DefaultStatus" "task_details t = Some d"
    by (simp_all add: t_def set_details_def newTask_def task_details_def data_get_set)
  have "NewChangeWithNoticeData now kind summary [(''check-name'', cd_name d)] s1 = Inr (itoa m, s3)"
    using s3 by (simp add: NewChangeWithNoticeData_def Let_def lc m_def [symmetric] s2_def c_def nd_def newChange_def)
  moreover have "fmlookup (tasks s3) (itoa n) = Some t" by (simp add: f s2_def s1_def)
  ultimately have "check_change kind summary now d s = Inr (itoa m, s4)"
    using f t by (simp add: check_change_def NewTask_def Let_def n_def [symmetric] s1_def [symmetric] t_def [symmetric]
        s2_def c1_def [symmetric] AddTask_def s4_def add_once_def c1_def c_def newChange_def)
  moreover have "notice_data_of (c1\<lparr>chg_tasks := [itoa n]\<rparr>) \<noteq> None"
  proof -
    have "data_get (chg_data c1) ''notice-data'' = data_get (chg_data c) ''notice-data''"
      by (simp add: c1_def data_get_set noPruneAttr_def)
    then show ?thesis using notice by (simp add: notice_data_of_def c1_def)
  qed
  then have "check_task perform DefaultStatus (itoa m) (itoa n) d s4"
    using assms c t unfolding check_task_def
    by (intro exI [of _ "c1\<lparr>chg_tasks := [itoa n]\<rparr>"] exI [of _ "t\<lparr>task_change := itoa m\<rparr>"])
       (simp add: s4_def c1_def itoa_ne task_details_def)
  ultimately show thesis using that by blast
qed

lemma dispatch_quiet: "(\<And>cid old new. ChangeStatusChanged cid old new \<notin> set es) \<Longrightarrow> dispatch quote now es w = Inr w"
proof (induction es)
  case (Cons e es)
  then have "dispatch quote now es w = Inr w" by auto
  moreover have "\<not> (\<exists>cid old new. e = ChangeStatusChanged cid old new)" using Cons.prems by auto
  ultimately show ?case by (cases e) auto
qed simp

lemma with_SetStatus:
  assumes ct: "check_task perform old cid tid d (cm_st w)"
    and x: "\<not> status_Ready old" "old \<noteq> x" "x \<notin> {DefaultStatus, WaitStatus}" "old \<noteq> AbortStatus"
  obtains s' where "with_events quote now (SetStatus now tid x) w = changeStatusChanged quote now cid x (w\<lparr>cm_st := s'\<rparr>)"
    "\<not> status_Ready x \<Longrightarrow> check_task perform x cid tid d s'"
    "\<exists>c t. fmlookup (changes s') cid = Some c \<and> chg_id c = cid \<and> chg_kind c = (if perform then performCheckKind else recoverCheckKind) \<and>
       chg_tasks c = [tid] \<and> fmlookup (tasks s') tid = Some t \<and> task_details t = Some d"
proof -
  from SetStatus_check [OF ct x, of now] obtain s' bs where s': "SetStatus now tid x (cm_st w) = Inr s'"
    "events s' = events (cm_st w) @ ChangeStatusChanged cid old x # bs" "set bs \<subseteq> {NoticeBroadcast, TaskStatusChanged tid old x}"
    "\<not> status_Ready x \<Longrightarrow> check_task perform x cid tid d s'"
    "\<exists>c t. fmlookup (changes s') cid = Some c \<and> chg_id c = cid \<and> chg_kind c = (if perform then performCheckKind else recoverCheckKind) \<and>
       chg_tasks c = [tid] \<and> fmlookup (tasks s') tid = Some t \<and> task_details t = Some d" by blast
  have "dispatch quote now bs v = Inr v" for v using s'(3) by (intro dispatch_quiet) auto
  then have "with_events quote now (SetStatus now tid x) w = changeStatusChanged quote now cid x (w\<lparr>cm_st := s'\<rparr>)"
    using s'(1,2) by (simp add: with_events_def and_then_def split: sum.split)
  with s'(4,5) show thesis using that by blast
qed

lemma kinds_differ [simp]: "performCheckKind \<noteq> recoverCheckKind" "recoverCheckKind \<noteq> performCheckKind"
  by (simp_all add: performCheckKind_def recoverCheckKind_def)

definition cached :: "bool \<Rightarrow> check_world \<Rightarrow> (string, check) fmap" where
  "cached perform w = (if perform then cm_perform w else cm_recover w)"

lemma launch_ok:
  assumes ct: "check_task perform DefaultStatus cid tid d (cm_st w)" and cache: "fmlookup (cached perform w) cid = Some config"
  obtains w' r where "launch quote now perform cid w = Inr (perform, r, w')"
    "check_task perform DoingStatus cid tid d (cm_st w')" "cached perform w' = cached perform w" "cm_failed w' = cm_failed w"
    "cm_checks w' = fmupd (chk_name config) (ensureCheck (chk_name config) w) (cm_checks w)"
    "cr_task r = tid" "cr_change r = cid" "cr_config r = config" "cr_details r = d"
proof -
  from ct obtain c where c: "fmlookup (changes (cm_st w)) cid = Some c" "chg_tasks c = [tid]" by (auto simp: check_task_def)
  from with_SetStatus [OF ct, of DoingStatus quote now] obtain s' where
    s': "with_events quote now (SetStatus now tid DoingStatus) w = changeStatusChanged quote now cid DoingStatus (w\<lparr>cm_st := s'\<rparr>)"
    "check_task perform DoingStatus cid tid d s'" by auto
  from s'(2) obtain c' t' where c': "fmlookup (changes s') cid = Some c'" "chg_id c' = cid" "chg_tasks c' = [tid]"
    "fmlookup (tasks s') tid = Some t'" "task_change t' = cid" "task_details t' = Some d" by (auto simp: check_task_def)
  have "with_events quote now (SetStatus now tid DoingStatus) w = Inr (w\<lparr>cm_st := s'\<rparr>)"
    using s'(1) c'(1) by (simp add: changeStatusChanged_def)
  moreover have "ensureCheck (chk_name config) (w\<lparr>cm_st := s'\<rparr>) = ensureCheck (chk_name config) w" by (simp add: ensureCheck_def)
  ultimately have l: "launch quote now perform cid w = Inr (perform,
      \<lparr>cr_task = tid, cr_change = cid, cr_config = config, cr_prev = ck_prevChangeID (ensureCheck (chk_name config) w), cr_details = d\<rparr>,
      w\<lparr>cm_st := s', cm_checks := fmupd (chk_name config) (ensureCheck (chk_name config) w) (cm_checks w)\<rparr>)"
    using c c' cache by (cases perform) (simp_all add: launch_def begin_check_def cached_def Let_def)
  show thesis by (rule that [OF l]) (use s'(2) in \<open>simp_all add: cached_def\<close>)
qed

lemma updateCheckData_lookup:
  "fmlookup (cm_checks (updateCheckData config cid prev ok bad w)) (chk_name config) =
     Some ((ensureCheck (chk_name config) w)\<lparr>ck_level := chk_level config,
             ck_startup := (if chk_startup config = [] then ''enabled'' else chk_startup config),
             ck_status := check_status config cid bad, ck_successes := ok, ck_failures := bad,
             ck_threshold := chk_threshold config, ck_changeID := cid, ck_prevChangeID := prev\<rparr>)"
  "cm_st (updateCheckData config cid prev ok bad w) = cm_st w" "cm_failed (updateCheckData config cid prev ok bad w) = cm_failed w"
  "cached p (updateCheckData config cid prev ok bad w) = cached p w"
  by (simp_all add: updateCheckData_def Let_def cached_def)

text \<open>The next change of a check: the manager creates it, shows it and its handler is started.\<close>

lemma next_change_ok:
  fixes prev :: string
  assumes d: "d = \<lparr>cd_name = chk_name config, cd_failures = bad, cd_successes = ok, cd_proceed = False\<rparr>"
    and kind: "kind = (if perform then performCheckKind else recoverCheckKind)"
  obtains cid tid s where "check_change kind summary now d (cm_st w) = Inr (cid, s)" "check_task perform DefaultStatus cid tid d s" "cid \<noteq> []"
proof -
  from check_change_ok [OF kind, of summary now d "cm_st w"] obtain cid tid s where
    "check_change kind summary now d (cm_st w) = Inr (cid, s)" "check_task perform DefaultStatus cid tid d s" .
  then show thesis using that by (auto simp: check_task_def)
qed

lemma check_task_ensure [simp]: "check_task p x cid tid d (ensure_before n s) = check_task p x cid tid d s"
  by (simp add: check_task_def ensure_before_def)

lemma save_details_ok:
  assumes "check_task p x cid tid d (cm_st w)"
  obtains s where "save_details tid d' w = Inr (w\<lparr>cm_st := s\<rparr>)" "check_task p x cid tid d' s"
proof -
  from assms obtain c t where c: "fmlookup (changes (cm_st w)) cid = Some c" "chg_id c = cid" "cid \<noteq> []"
    "chg_kind c = (if p then performCheckKind else recoverCheckKind)" "chg_tasks c = [tid]"
    "chg_status c = DefaultStatus" "\<not> chg_ready c" "last_observed c = x" "notice_data_of c \<noteq> None"
    and t: "fmlookup (tasks (cm_st w)) tid = Some t" "task_change t = cid" "task_status t = x"
    by (auto simp: check_task_def)
  have "check_task p x cid tid d' (put_task tid (set_details d' t) (cm_st w))"
    unfolding check_task_def using c t
    by (intro exI [of _ c] exI [of _ "set_details d' t"]) (simp add: set_details_def task_details_def data_get_set)
  with t show thesis by (intro that) (simp_all add: save_details_def)
qed

lemma log_check_ok:
  assumes "check_task p x cid tid d (cm_st w)"
  obtains s where "log_check now kind tid msg w = Inr (w\<lparr>cm_st := s\<rparr>)" "check_task p x cid tid d s"
proof -
  from assms obtain c t where c: "fmlookup (changes (cm_st w)) cid = Some c" "chg_id c = cid" "cid \<noteq> []"
    "chg_kind c = (if p then performCheckKind else recoverCheckKind)" "chg_tasks c = [tid]"
    "chg_status c = DefaultStatus" "\<not> chg_ready c" "last_observed c = x" "notice_data_of c \<noteq> None"
    and t: "fmlookup (tasks (cm_st w)) tid = Some t" "task_change t = cid" "task_status t = x" "task_details t = Some d"
    by (auto simp: check_task_def)
  have "task_data (addLog now kind (''%s'', [msg]) t) = task_data t" by (simp add: addLog_def Let_def)
  then have "check_task p x cid tid d (put_task tid (addLog now kind (''%s'', [msg]) t) (cm_st w))"
    unfolding check_task_def using c t
    by (intro exI [of _ c] exI [of _ "addLog now kind (''%s'', [msg]) t"]) (simp add: task_details_def)
  with t show thesis by (intro that) (simp_all add: log_check_def task_Logf_def)
qed

lemma switch_ok:
  assumes ct: "check_task p DoingStatus cid tid d (cm_st w)"
    and d: "d = \<lparr>cd_name = chk_name config, cd_failures = f, cd_successes = k, cd_proceed = True\<rparr>"
    and cache: "fmlookup (cached p w) cid = Some config"
  obtains w1 r w' e where
    "with_events quote now (SetStatus now tid (if p then ErrorStatus else DoneStatus)) w = Inr w1"
    "launch quote now (\<not> p) (ck_changeID (ensureCheck (chk_name config) w1)) w1 = Inr (\<not> p, r, w')"
    "check_task (\<not> p) DoingStatus (cr_change r) (cr_task r) (cr_details r) (cm_st w')"
    "cr_details r = \<lparr>cd_name = chk_name config, cd_failures = (if p then f else 0), cd_successes = (if p then k else 0), cd_proceed = False\<rparr>"
    "cr_config r = config" "fmlookup (cached (\<not> p) w') (cr_change r) = Some config" "cm_failed w' = cm_failed w"
    "fmlookup (cm_checks w') (chk_name config) = Some e" "ck_changeID e = cr_change r" "cr_change r \<noteq> []"
    "ck_failures e = f" "ck_successes e = k" "ck_status e = check_status config (cr_change r) f"
proof -
  define x where "x = (if p then ErrorStatus else DoneStatus)"
  have "\<not> status_Ready DoingStatus" "DoingStatus \<noteq> x" "x \<notin> {DefaultStatus, WaitStatus}" "DoingStatus \<noteq> AbortStatus"
    by (simp_all add: x_def)
  from with_SetStatus [OF ct this, of quote now] obtain s' where
    ev: "with_events quote now (SetStatus now tid x) w = changeStatusChanged quote now cid x (w\<lparr>cm_st := s'\<rparr>)"
    and "\<exists>c t. fmlookup (changes s') cid = Some c \<and> chg_id c = cid \<and> chg_kind c = (if p then performCheckKind else recoverCheckKind) \<and>
       chg_tasks c = [tid] \<and> fmlookup (tasks s') tid = Some t \<and> task_details t = Some d" by metis
  then obtain c t where c: "fmlookup (changes s') cid = Some c" "chg_id c = cid"
    "chg_kind c = (if p then performCheckKind else recoverCheckKind)" "chg_tasks c = [tid]"
    "fmlookup (tasks s') tid = Some t" "task_details t = Some d" by blast
  have must: "mustGetCheckDetails s' c = Inr d" using c by (simp add: mustGetCheckDetails_def)
  define d' where "d' = \<lparr>cd_name = chk_name config, cd_failures = (if p then f else 0), cd_successes = (if p then k else 0), cd_proceed = False\<rparr>"
  define kind where "kind = (if \<not> p then performCheckKind else recoverCheckKind)"
  define summary where "summary = (if p then ''Recover '' else ''Perform '') @ checkType config @ '' check '' @ quote (chk_name config)"
  have st: "cm_st (w\<lparr>cm_st := s'\<rparr>) = s'" by simp
  from next_change_ok [OF d'_def kind_def, of summary now "w\<lparr>cm_st := s'\<rparr>", unfolded st] obtain cid' tid' s1 where
    new: "check_change kind summary now d' s' = Inr (cid', s1)" "check_task (\<not> p) DefaultStatus cid' tid' d' s1" "cid' \<noteq> []" .
  define v where "v = (if p then w\<lparr>cm_st := s1, cm_recover := fmupd cid' config (cm_recover w)\<rparr>
                            else w\<lparr>cm_st := s1, cm_perform := fmupd cid' config (cm_perform w)\<rparr>)"
  have v: "cm_st v = s1" "cm_checks v = cm_checks w" "cm_failed v = cm_failed w" "fmlookup (cached (\<not> p) v) cid' = Some config"
    by (simp_all add: v_def cached_def)
  define w2 where "w2 = updateCheckData config cid' cid k f v"
  define w1 where "w1 = w2\<lparr>cm_st := ensure_before 0 (cm_st w2)\<rparr>"
  have "changeStatusChanged quote now cid x (w\<lparr>cm_st := s'\<rparr>) = Inr w1"
  proof (cases p)
    case True
    then have "recoverCheckChange quote now config k f (w\<lparr>cm_st := s'\<rparr>) = Inr (cid', v)"
      using new(1) by (simp add: recoverCheckChange_def kind_def summary_def d'_def v_def)
    then show ?thesis using True c cache must
      by (simp add: changeStatusChanged_def x_def d cached_def w1_def w2_def Let_def)
  next
    case False
    then have "performCheckChange quote now config (w\<lparr>cm_st := s'\<rparr>) = Inr (cid', v)"
      using new(1) by (simp add: performCheckChange_def kind_def summary_def d'_def v_def no_details_def)
    then show ?thesis using False c cache must
      by (simp add: changeStatusChanged_def x_def d cached_def w1_def w2_def Let_def)
  qed
  with ev have w1: "with_events quote now (SetStatus now tid x) w = Inr w1" by simp
  have e: "fmlookup (cm_checks w1) (chk_name config) = fmlookup (cm_checks w2) (chk_name config)" "cm_failed w1 = cm_failed w"
    "cached (\<not> p) w1 = cached (\<not> p) v" "cm_st w1 = ensure_before 0 s1"
    by (simp_all add: w1_def w2_def updateCheckData_lookup v cached_def) (simp_all add: w2_def updateCheckData_def Let_def v)
  obtain e1 where e1: "fmlookup (cm_checks w1) (chk_name config) = Some e1" "ck_changeID e1 = cid'" "ck_failures e1 = f"
    "ck_successes e1 = k" "ck_status e1 = check_status config cid' f"
    using e(1) by (simp add: w2_def updateCheckData_lookup)
  have en: "ensureCheck (chk_name config) w1 = e1" using e1(1) by (simp add: ensureCheck_def)
  have "check_task (\<not> p) DefaultStatus cid' tid' d' (cm_st w1)" "fmlookup (cached (\<not> p) w1) cid' = Some config"
    using new(2) v(4) by (simp_all add: e)
  from launch_ok [OF this, of quote now] obtain w' r where
    l: "launch quote now (\<not> p) cid' w1 = Inr (\<not> p, r, w')" "check_task (\<not> p) DoingStatus cid' tid' d' (cm_st w')"
    "cached (\<not> p) w' = cached (\<not> p) w1" "cm_failed w' = cm_failed w1"
    "cm_checks w' = fmupd (chk_name config) (ensureCheck (chk_name config) w1) (cm_checks w1)"
    "cr_task r = tid'" "cr_change r = cid'" "cr_config r = config" "cr_details r = d'" .
  show thesis
    by (rule that [OF w1 [unfolded x_def], of r w' e1]) (use l e e1 en new v in \<open>simp_all add: d'_def\<close>)
qed

lemma watchingE:
  assumes "watching config x (p, r, w)"
  obtains e where "p = (\<not> down x)" "cr_config r = config"
    "cr_details r = \<lparr>cd_name = chk_name config, cd_failures = fails x, cd_successes = oks x, cd_proceed = False\<rparr>"
    "check_task p DoingStatus (cr_change r) (cr_task r) (cr_details r) (cm_st w)" "cr_change r \<noteq> []"
    "fmlookup (cached p w) (cr_change r) = Some config" "fmlookup (cm_checks w) (chk_name config) = Some e"
    "ck_changeID e = cr_change r" "0 \<le> fails x" "down x \<longleftrightarrow> chk_threshold config \<le> fails x"
  using assms by (auto simp: watching_def cached_def check_task_def)

text \<open>A check that goes on in its handler: its data is brought up to date, and nothing else.\<close>

lemma watching_same:
  assumes y: "watching config x (p, r, w)" and "check_task p DoingStatus (cr_change r) (cr_task r) d s"
    and d: "d = \<lparr>cd_name = chk_name config, cd_failures = fails x', cd_successes = oks x', cd_proceed = False\<rparr>"
    and "down x' = down x" "0 \<le> fails x'" "down x' \<longleftrightarrow> chk_threshold config \<le> fails x'"
    and "cached p v = cached p w" "cm_st v = s"
    and "\<exists>e. fmlookup (cm_checks v) (chk_name config) = Some e \<and> ck_changeID e = cr_change r \<and> ck_failures e = fails x' \<and>
      ck_successes e = shown x' \<and> ck_status e = check_status config (cr_change r) (fails x')"
  shows "watching config x' (p, r\<lparr>cr_details := d\<rparr>, v)"
proof -
  from y obtain e0 where y': "p = (\<not> down x)" "cr_config r = config" "cr_change r \<noteq> []"
    "fmlookup (cached p w) (cr_change r) = Some config" by (elim watchingE)
  have "fmlookup (if p then cm_perform v else cm_recover v) (cr_change r) = Some config"
    using y'(4) assms(7) by (simp add: cached_def split: if_splits)
  then show ?thesis
    using assms y' by (auto simp: watching_def check_status_def)
qed

lemma metric_simps [simp]:
  "cm_st (incFailureMetric c w) = cm_st w" "cm_st (incSuccessMetric c w) = cm_st w"
  "cm_failed (incFailureMetric c w) = cm_failed w" "cm_failed (incSuccessMetric c w) = cm_failed w"
  "cached p (incFailureMetric c w) = cached p w" "cached p (incSuccessMetric c w) = cached p w"
  "cached p (w\<lparr>cm_st := s\<rparr>) = cached p w" "cached p (w\<lparr>cm_failed := fs\<rparr>) = cached p w"
  by (simp_all add: incFailureMetric_def incSuccessMetric_def Let_def cached_def)

lemma round_ok_up:
  assumes y: "watching config x (True, r, w)" and up: "\<not> down x" and thr: "0 < chk_threshold config"
  shows "\<exists>r' w'. check_round quote now None (True, r, w) = Inr (True, r', w') \<and>
    watching config (count_step (chk_threshold config) True x) (True, r', w') \<and> cm_failed w' = cm_failed w"
proof -
  from y obtain e where y': "cr_config r = config" 
    "cr_details r = \<lparr>cd_name = chk_name config, cd_failures = fails x, cd_successes = oks x, cd_proceed = False\<rparr>"
    "check_task True DoingStatus (cr_change r) (cr_task r) (cr_details r) (cm_st w)" "0 \<le> fails x" by (elim watchingE)
  define d where "d = \<lparr>cd_name = chk_name config, cd_failures = 0, cd_successes = oks x + 1, cd_proceed = False\<rparr>"
  have d: "(cr_details r)\<lparr>cd_successes := cd_successes (cr_details r) + 1,
      cd_failures := (if 0 < cd_failures (cr_details r) then 0 else cd_failures (cr_details r))\<rparr> = d"
    using y'(2,4) by (simp add: d_def)
  define v where "v = updateCheckData config (cr_change r) (cr_prev r) (oks x + 1) 0 (incSuccessMetric config w)"
  have v: "cm_st v = cm_st w" by (simp add: v_def updateCheckData_lookup)
  obtain s1 where s1: "(if 0 < cd_failures (cr_details r)
      then log_check now LogInfo (cr_task r) (''succeeded after '' @ pluralise (nat (cd_failures (cr_details r))) ''failure'' ''failures'') v
      else Inr v) = Inr (v\<lparr>cm_st := s1\<rparr>)" "check_task True DoingStatus (cr_change r) (cr_task r) (cr_details r) s1"
  proof (cases "0 < cd_failures (cr_details r)")
    case True
    have "check_task True DoingStatus (cr_change r) (cr_task r) (cr_details r) (cm_st v)" using y'(3) v by simp
    from log_check_ok [OF this] show thesis using True that by (metis (full_types))
  next
    case False
    then show thesis using y'(3) by (intro that [of "cm_st w"]) (simp_all add: v [symmetric])
  qed
  have "check_task True DoingStatus (cr_change r) (cr_task r) (cr_details r) (cm_st (v\<lparr>cm_st := s1\<rparr>))" using s1(2) by simp
  from save_details_ok [OF this, of d] obtain s2 where s2: "save_details (cr_task r) d (v\<lparr>cm_st := s1\<rparr>) = Inr (v\<lparr>cm_st := s2\<rparr>)"
    "check_task True DoingStatus (cr_change r) (cr_task r) d s2" by auto
  have dd: "cd_successes d = oks x + 1" "cd_failures d = 0" by (simp_all add: d_def)
  have "performCheck now None None r w = Inr ((None, None), r\<lparr>cr_details := d\<rparr>, v\<lparr>cm_st := s2\<rparr>)"
    unfolding performCheck_def Let_def option.case d y'(1) dd v_def [symmetric] s1(1) and_then_simps s2(1) by (rule refl)
  then have round: "check_round quote now None (True, r, w) = Inr (True, r\<lparr>cr_details := d\<rparr>, v\<lparr>cm_st := s2\<rparr>)"
    by (simp add: check_round_def)
  have "watching config (count_step (chk_threshold config) True x) (True, r\<lparr>cr_details := d\<rparr>, v\<lparr>cm_st := s2\<rparr>)"
    by (rule watching_same [OF y s2(2)])
       (use up thr in \<open>simp_all add: count_step_def d_def v_def updateCheckData_lookup\<close>)
  moreover have "cm_failed (v\<lparr>cm_st := s2\<rparr>) = cm_failed w" by (simp add: v_def updateCheckData_lookup)
  ultimately show ?thesis using round by blast
qed

lemma round_fail_up:
  assumes y: "watching config x (True, r, w)" and up: "\<not> down x" "fails x + 1 < chk_threshold config"
  shows "\<exists>r' w'. check_round quote now (Some err) (True, r, w) = Inr (True, r', w') \<and>
    watching config (count_step (chk_threshold config) False x) (True, r', w') \<and> cm_failed w' = cm_failed w"
proof -
  from y obtain e where y': "cr_config r = config" 
    "cr_details r = \<lparr>cd_name = chk_name config, cd_failures = fails x, cd_successes = oks x, cd_proceed = False\<rparr>"
    "check_task True DoingStatus (cr_change r) (cr_task r) (cr_details r) (cm_st w)" "0 \<le> fails x" by (elim watchingE)
  define d where "d = \<lparr>cd_name = chk_name config, cd_failures = fails x + 1, cd_successes = oks x, cd_proceed = False\<rparr>"
  have d: "(cr_details r)\<lparr>cd_failures := cd_failures (cr_details r) + 1\<rparr> = d" using y'(2) by (simp add: d_def)
  define u where "u = incFailureMetric config w"
  have "check_task True DoingStatus (cr_change r) (cr_task r) (cr_details r) (cm_st u)" using y'(3) by (simp add: u_def)
  from log_check_ok [OF this, of now LogError "errorDetails err"] obtain s1 where
    s1: "log_check now LogError (cr_task r) (errorDetails err) u = Inr (u\<lparr>cm_st := s1\<rparr>)"
    "check_task True DoingStatus (cr_change r) (cr_task r) (cr_details r) s1" by blast
  then have "check_task True DoingStatus (cr_change r) (cr_task r) (cr_details r) (cm_st (u\<lparr>cm_st := s1\<rparr>))" by simp
  from save_details_ok [OF this, of d] obtain s2 where s2: "save_details (cr_task r) d (u\<lparr>cm_st := s1\<rparr>) = Inr (u\<lparr>cm_st := s2\<rparr>)"
    "check_task True DoingStatus (cr_change r) (cr_task r) d s2" by auto
  define v where "v = updateCheckData config (cr_change r) (cr_prev r) (oks x) (fails x + 1) (u\<lparr>cm_st := s2\<rparr>)"
  have dd: "cd_successes d = oks x" "cd_failures d = fails x + 1" by (simp_all add: d_def)
  then have "\<not> chk_threshold config \<le> cd_failures d" using up(2) by simp
  then have "performCheck now None (Some err) r w = Inr ((None, Some (errorDetails err)), r\<lparr>cr_details := d\<rparr>, v)"
    using s1(1) s2(1) dd unfolding performCheck_def Let_def option.case d y'(1) by (simp add: v_def u_def)
  then have round: "check_round quote now (Some err) (True, r, w) = Inr (True, r\<lparr>cr_details := d\<rparr>, v)"
    by (simp add: check_round_def)
  have "watching config (count_step (chk_threshold config) False x) (True, r\<lparr>cr_details := d\<rparr>, v)"
    by (rule watching_same [OF y s2(2)])
       (use up y'(4) in \<open>simp_all add: count_step_def d_def v_def updateCheckData_lookup u_def\<close>)
  moreover have "cm_failed v = cm_failed w" by (simp add: v_def updateCheckData_lookup u_def)
  ultimately show ?thesis using round by blast
qed

lemma round_fail_down:
  assumes y: "watching config x (False, r, w)" and down: "down x"
  shows "\<exists>r' w'. check_round quote now (Some err) (False, r, w) = Inr (False, r', w') \<and>
    watching config (count_step (chk_threshold config) False x) (False, r', w') \<and> cm_failed w' = cm_failed w"
proof -
  from y obtain e where y': "cr_config r = config" 
    "cr_details r = \<lparr>cd_name = chk_name config, cd_failures = fails x, cd_successes = oks x, cd_proceed = False\<rparr>"
    "check_task False DoingStatus (cr_change r) (cr_task r) (cr_details r) (cm_st w)" "0 \<le> fails x"
    "down x \<longleftrightarrow> chk_threshold config \<le> fails x" by (elim watchingE)
  define d where "d = \<lparr>cd_name = chk_name config, cd_failures = fails x + 1, cd_successes = oks x, cd_proceed = False\<rparr>"
  have d: "(cr_details r)\<lparr>cd_failures := cd_failures (cr_details r) + 1\<rparr> = d" using y'(2) by (simp add: d_def)
  define u where "u = updateCheckData config (cr_change r) (cr_prev r) (oks x) (fails x + 1) (incFailureMetric config w)"
  have "check_task False DoingStatus (cr_change r) (cr_task r) (cr_details r) (cm_st u)"
    using y'(3) by (simp add: u_def updateCheckData_lookup)
  from save_details_ok [OF this, of d] obtain s1 where s1: "save_details (cr_task r) d u = Inr (u\<lparr>cm_st := s1\<rparr>)"
    "check_task False DoingStatus (cr_change r) (cr_task r) d s1" by auto
  then have "check_task False DoingStatus (cr_change r) (cr_task r) d (cm_st (u\<lparr>cm_st := s1\<rparr>))" by simp
  from log_check_ok [OF this, of now LogError "errorDetails err"] obtain s2 where
    s2: "log_check now LogError (cr_task r) (errorDetails err) (u\<lparr>cm_st := s1\<rparr>) = Inr (u\<lparr>cm_st := s2\<rparr>)"
    "check_task False DoingStatus (cr_change r) (cr_task r) d s2" by auto
  have dd: "cd_successes d = oks x" "cd_failures d = fails x + 1" by (simp_all add: d_def)
  then have "recoverCheck now None (Some err) r w = Inr ((None, Some (errorDetails err)), r\<lparr>cr_details := d\<rparr>, u\<lparr>cm_st := s2\<rparr>)"
    using s1(1) s2(1) unfolding recoverCheck_def Let_def option.case d y'(1) by (simp add: u_def)
  then have round: "check_round quote now (Some err) (False, r, w) = Inr (False, r\<lparr>cr_details := d\<rparr>, u\<lparr>cm_st := s2\<rparr>)"
    by (simp add: check_round_def)
  have "watching config (count_step (chk_threshold config) False x) (False, r\<lparr>cr_details := d\<rparr>, u\<lparr>cm_st := s2\<rparr>)"
    by (rule watching_same [OF y s2(2)])
       (use down y'(4,5) in \<open>simp_all add: count_step_def d_def u_def updateCheckData_lookup\<close>)
  moreover have "cm_failed (u\<lparr>cm_st := s2\<rparr>) = cm_failed w" by (simp add: u_def updateCheckData_lookup)
  ultimately show ?thesis using round by blast
qed

text \<open>The handler returns: the check goes down, or comes up again.\<close>

lemma round_hit:
  assumes y: "watching config x (True, r, w)" and up: "\<not> down x" "chk_threshold config \<le> fails x + 1"
  shows "\<exists>r' w'. check_round quote now (Some err) (True, r, w) = Inr (False, r', w') \<and>
    watching config (count_step (chk_threshold config) False x) (False, r', w') \<and> cm_failed w' = cm_failed w @ [chk_name config]"
proof -
  from y obtain e where y': "cr_config r = config" 
    "cr_details r = \<lparr>cd_name = chk_name config, cd_failures = fails x, cd_successes = oks x, cd_proceed = False\<rparr>"
    "check_task True DoingStatus (cr_change r) (cr_task r) (cr_details r) (cm_st w)" "0 \<le> fails x"
    "fmlookup (cached True w) (cr_change r) = Some config" by (elim watchingE)
  define d where "d = \<lparr>cd_name = chk_name config, cd_failures = fails x + 1, cd_successes = oks x, cd_proceed = True\<rparr>"
  have d: "(cr_details r)\<lparr>cd_failures := cd_failures (cr_details r) + 1, cd_proceed := True\<rparr> = d"
    "cd_failures ((cr_details r)\<lparr>cd_failures := cd_failures (cr_details r) + 1\<rparr>) = fails x + 1" using y'(2) by (simp_all add: d_def)
  define u where "u = incFailureMetric config w"
  have "check_task True DoingStatus (cr_change r) (cr_task r) (cr_details r) (cm_st u)" using y'(3) by (simp add: u_def)
  from save_details_ok [OF this, of d] obtain s1 where s1: "save_details (cr_task r) d u = Inr (u\<lparr>cm_st := s1\<rparr>)"
    "check_task True DoingStatus (cr_change r) (cr_task r) d s1" by auto
  define v where "v = u\<lparr>cm_st := s1, cm_failed := cm_failed u @ [chk_name config]\<rparr>"
  have step: "performCheck now None (Some err) r w =
      Inr ((Some (Some (errorDetails err)), Some (errorDetails err)), r\<lparr>cr_details := d\<rparr>, v)"
    using s1(1) up(2) unfolding performCheck_def Let_def option.case y'(1) d by (simp add: d u_def v_def)
  have ct: "check_task True DoingStatus (cr_change r) (cr_task r) d (cm_st v)" "fmlookup (cached True v) (cr_change r) = Some config"
    using s1(2) y'(5) by (simp_all add: v_def u_def cached_def incFailureMetric_def Let_def)
  from switch_ok [OF ct(1) d_def ct(2), of quote now] obtain w1 r' w' e' where
    sw: "with_events quote now (SetStatus now (cr_task r) (if True then ErrorStatus else DoneStatus)) v = Inr w1"
    "launch quote now (\<not> True) (ck_changeID (ensureCheck (chk_name config) w1)) w1 = Inr (\<not> True, r', w')"
    "check_task (\<not> True) DoingStatus (cr_change r') (cr_task r') (cr_details r') (cm_st w')"
    "cr_details r' = \<lparr>cd_name = chk_name config, cd_failures = (if True then fails x + 1 else 0), cd_successes = (if True then oks x else 0), cd_proceed = False\<rparr>"
    "cr_config r' = config" "fmlookup (cached (\<not> True) w') (cr_change r') = Some config" "cm_failed w' = cm_failed v"
    "fmlookup (cm_checks w') (chk_name config) = Some e'" "ck_changeID e' = cr_change r'" "cr_change r' \<noteq> []"
    "ck_failures e' = fails x + 1" "ck_successes e' = oks x" "ck_status e' = check_status config (cr_change r') (fails x + 1)" .
  have "check_round quote now (Some err) (True, r, w) = Inr (False, r', w')"
    using sw(1,2) y'(1) by (simp add: check_round_def step)
  moreover have "watching config (count_step (chk_threshold config) False x) (False, r', w')"
    using sw up y'(4) by (simp add: watching_def count_step_def cached_def check_status_def)
  moreover have "cm_failed w' = cm_failed w @ [chk_name config]" by (simp add: sw(7) v_def u_def)
  ultimately show ?thesis by blast
qed

lemma round_ok_down:
  assumes y: "watching config x (False, r, w)" and down: "down x" and thr: "0 < chk_threshold config"
  shows "\<exists>r' w'. check_round quote now None (False, r, w) = Inr (True, r', w') \<and>
    watching config (count_step (chk_threshold config) True x) (True, r', w') \<and> cm_failed w' = cm_failed w"
proof -
  from y obtain e where y': "cr_config r = config" 
    "cr_details r = \<lparr>cd_name = chk_name config, cd_failures = fails x, cd_successes = oks x, cd_proceed = False\<rparr>"
    "check_task False DoingStatus (cr_change r) (cr_task r) (cr_details r) (cm_st w)" "0 \<le> fails x"
    "fmlookup (cached False w) (cr_change r) = Some config" by (elim watchingE)
  define d where "d = \<lparr>cd_name = chk_name config, cd_failures = 0, cd_successes = 1, cd_proceed = True\<rparr>"
  have d: "(cr_details r)\<lparr>cd_successes := 1, cd_failures := 0, cd_proceed := True\<rparr> = d" using y'(2) by (simp add: d_def)
  define u where "u = incSuccessMetric config w"
  have "check_task False DoingStatus (cr_change r) (cr_task r) (cr_details r) (cm_st u)" using y'(3) by (simp add: u_def)
  from save_details_ok [OF this, of d] obtain s1 where s1: "save_details (cr_task r) d u = Inr (u\<lparr>cm_st := s1\<rparr>)"
    "check_task False DoingStatus (cr_change r) (cr_task r) d s1" by auto
  define v where "v = u\<lparr>cm_st := s1\<rparr>"
  have step: "recoverCheck now None None r w = Inr ((Some None, None), r\<lparr>cr_details := d\<rparr>, v)"
    using s1(1) unfolding recoverCheck_def Let_def option.case y'(1) d by (simp add: u_def v_def)
  have ct: "check_task False DoingStatus (cr_change r) (cr_task r) d (cm_st v)" "fmlookup (cached False v) (cr_change r) = Some config"
    using s1(2) y'(5) by (simp_all add: v_def u_def)
  from switch_ok [OF ct(1) d_def ct(2), of quote now] obtain w1 r' w' e' where
    sw: "with_events quote now (SetStatus now (cr_task r) (if False then ErrorStatus else DoneStatus)) v = Inr w1"
    "launch quote now (\<not> False) (ck_changeID (ensureCheck (chk_name config) w1)) w1 = Inr (\<not> False, r', w')"
    "check_task (\<not> False) DoingStatus (cr_change r') (cr_task r') (cr_details r') (cm_st w')"
    "cr_details r' = \<lparr>cd_name = chk_name config, cd_failures = (if False then 0 else 0), cd_successes = (if False then 1 else 0), cd_proceed = False\<rparr>"
    "cr_config r' = config" "fmlookup (cached (\<not> False) w') (cr_change r') = Some config" "cm_failed w' = cm_failed v"
    "fmlookup (cm_checks w') (chk_name config) = Some e'" "ck_changeID e' = cr_change r'" "cr_change r' \<noteq> []"
    "ck_failures e' = 0" "ck_successes e' = 1" "ck_status e' = check_status config (cr_change r') 0" .
  have "check_round quote now None (False, r, w) = Inr (True, r', w')"
    using sw(1,2) y'(1) by (simp add: check_round_def step)
  moreover have "watching config (count_step (chk_threshold config) True x) (True, r', w')"
    using sw down thr by (simp add: watching_def count_step_def cached_def check_status_def)
  moreover have "cm_failed w' = cm_failed w" by (simp add: sw(7) v_def u_def)
  ultimately show ?thesis by blast
qed

lemma check_round_counts:
  assumes "watching config x y" "0 < chk_threshold config"
  shows "\<exists>y'. check_round quote now err y = Inr y' \<and> watching config (count_step (chk_threshold config) (err = None) x) y' \<and>
    cm_failed (snd (snd y')) = cm_failed (snd (snd y)) @
      replicate (hits (count_step (chk_threshold config) (err = None) x) - hits x) (chk_name config)"
proof -
  obtain p r w where y: "y = (p, r, w)" by (cases y)
  have p: "p = (\<not> down x)" using assms(1) by (simp add: y watching_def)
  consider (ok_up) "\<not> down x" "err = None" | (hit) e where "\<not> down x" "err = Some e" "chk_threshold config \<le> fails x + 1"
    | (fail_up) e where "\<not> down x" "err = Some e" "fails x + 1 < chk_threshold config"
    | (ok_down) "down x" "err = None" | (fail_down) e where "down x" "err = Some e"
    by (cases err) fastforce+
  then show ?thesis
  proof cases
    case ok_up
    with round_ok_up [of config x r w quote now] assms p show ?thesis by (auto simp: y count_step_def)
  next
    case hit
    with round_hit [of config x r w quote now e] assms p show ?thesis by (auto simp: y count_step_def)
  next
    case fail_up
    with round_fail_up [of config x r w quote now e] assms p show ?thesis by (auto simp: y count_step_def)
  next
    case ok_down
    with round_ok_down [of config x r w quote now] assms p show ?thesis by (auto simp: y count_step_def)
  next
    case fail_down
    with round_fail_down [of config x r w quote now e] assms p show ?thesis by (auto simp: y count_step_def)
  qed
qed

definition check_rounds ::
    "(string \<Rightarrow> string) \<Rightarrow> (time \<times> (string \<times> string) option) list \<Rightarrow> bool \<times> check_run \<times> check_world \<Rightarrow>
     check_fault + bool \<times> check_run \<times> check_world" where
  "check_rounds quote rounds = fold_try (\<lambda>(now, err). check_round quote now err) rounds"

definition count_rounds :: "int \<Rightarrow> (time \<times> (string \<times> string) option) list \<Rightarrow> check_count \<Rightarrow> check_count" where
  "count_rounds threshold rounds = fold (\<lambda>(now, err). count_step threshold (err = None)) rounds"

definition start_count :: check_count where
  "start_count = \<lparr>down = False, fails = 0, oks = 0, shown = 0, hits = 0\<rparr>"

lemma count_step_hits: "hits x \<le> hits (count_step threshold ok x)"
  by (simp add: count_step_def)

lemma count_rounds_hits: "hits x \<le> hits (count_rounds threshold rounds x)"
proof (induction rounds arbitrary: x)
  case (Cons e rounds)
  obtain now err where e: "e = (now, err)" by (cases e)
  show ?case using Cons [of "count_step threshold (err = None) x"] count_step_hits [of x threshold "err = None"]
    by (simp add: count_rounds_def e)
qed (simp add: count_rounds_def)

lemma check_rounds_counts:
  assumes "watching config x y" "0 < chk_threshold config"
  shows "\<exists>y'. check_rounds quote rounds y = Inr y' \<and> watching config (count_rounds (chk_threshold config) rounds x) y' \<and>
    cm_failed (snd (snd y')) = cm_failed (snd (snd y)) @
      replicate (hits (count_rounds (chk_threshold config) rounds x) - hits x) (chk_name config)"
  using assms(1)
proof (induction rounds arbitrary: x y)
  case Nil
  then show ?case by (simp add: check_rounds_def count_rounds_def)
next
  case (Cons e rounds)
  obtain now err where e: "e = (now, err)" by (cases e)
  define x1 where "x1 = count_step (chk_threshold config) (err = None) x"
  from check_round_counts [OF Cons.prems assms(2), of quote now err] obtain y1 where
    y1: "check_round quote now err y = Inr y1" "watching config x1 y1"
    "cm_failed (snd (snd y1)) = cm_failed (snd (snd y)) @ replicate (hits x1 - hits x) (chk_name config)"
    by (auto simp: x1_def)
  from Cons.IH [OF y1(2)] obtain y' where y': "check_rounds quote rounds y1 = Inr y'"
    "watching config (count_rounds (chk_threshold config) rounds x1) y'"
    "cm_failed (snd (snd y')) = cm_failed (snd (snd y1)) @
      replicate (hits (count_rounds (chk_threshold config) rounds x1) - hits x1) (chk_name config)" by blast
  have "hits x \<le> hits x1" "hits x1 \<le> hits (count_rounds (chk_threshold config) rounds x1)"
    by (simp_all add: x1_def count_step_hits count_rounds_hits)
  with y1(3) y'(3) have "cm_failed (snd (snd y')) = cm_failed (snd (snd y)) @
      replicate (hits (count_rounds (chk_threshold config) rounds x1) - hits x) (chk_name config)"
    by (simp add: replicate_add [symmetric])
  then show ?case using y1(1) y'(1,2) by (simp add: e check_rounds_def count_rounds_def x1_def)
qed

lemma start_watching:
  assumes "0 < chk_threshold config"
  obtains cid w1 y where "performCheckChange quote now config w = Inr (cid, w1)"
    "launch quote now True cid (updateCheckData config cid [] 0 0 w1) = Inr y"
    "watching config start_count y" "cm_failed (snd (snd y)) = cm_failed w"
proof -
  define d where "d = \<lparr>cd_name = chk_name config, cd_failures = 0, cd_successes = 0, cd_proceed = False\<rparr>"
  define summary where "summary = ''Perform '' @ checkType config @ '' check '' @ quote (chk_name config)"
  have kind: "performCheckKind = (if True then performCheckKind else recoverCheckKind)" by simp
  from next_change_ok [OF d_def kind, of summary now w] obtain cid tid s where
    new: "check_change performCheckKind summary now d (cm_st w) = Inr (cid, s)" "check_task True DefaultStatus cid tid d s" "cid \<noteq> []" .
  define w1 where "w1 = w\<lparr>cm_st := s, cm_perform := fmupd cid config (cm_perform w)\<rparr>"
  define w2 where "w2 = updateCheckData config cid [] 0 0 w1"
  have start: "performCheckChange quote now config w = Inr (cid, w1)"
    using new(1) by (simp add: performCheckChange_def summary_def d_def w1_def no_details_def)
  have w2: "cm_st w2 = s" "cm_failed w2 = cm_failed w" "fmlookup (cached True w2) cid = Some config"
    by (simp_all add: w2_def updateCheckData_lookup w1_def) (simp add: w1_def cached_def)
  have "check_task True DefaultStatus cid tid d (cm_st w2)" using new(2) w2 by simp
  from launch_ok [OF this w2(3), of quote now] obtain w' r where
    l: "launch quote now True cid w2 = Inr (True, r, w')" "check_task True DoingStatus cid tid d (cm_st w')"
    "cached True w' = cached True w2" "cm_failed w' = cm_failed w2"
    "cm_checks w' = fmupd (chk_name config) (ensureCheck (chk_name config) w2) (cm_checks w2)"
    "cr_task r = tid" "cr_change r = cid" "cr_config r = config" "cr_details r = d" .
  have "watching config start_count (True, r, w')"
    using l w2(3) assms new(3) unfolding watching_def start_count_def
    by (simp add: d_def cached_def ensureCheck_def w2_def updateCheckData_lookup check_status_def)
  moreover have "cm_failed (snd (snd (True, r, w'))) = cm_failed w" using l(4) w2(2) by simp
  ultimately show thesis using that [OF start l(1) [unfolded w2_def]] by blast
qed

text \<open>
  C27: A check follows its count.  Whatever its runs find, in whatever order, nothing panics, and after
  them the manager shows the status, the failures and the successes of the specification: the check goes down exactly when the
  threshold of failures in a row is reached, comes up with the first success after it, and the
  failure handlers are called once for each time it goes down.
\<close>

theorem check_follows_counts:
  assumes "0 < chk_threshold config"
  shows "\<exists>cid w1 y r w' d. performCheckChange quote now config w = Inr (cid, w1) \<and>
    launch quote now True cid (updateCheckData config cid [] 0 0 w1) = Inr y \<and>
    check_rounds quote rounds y = Inr (\<not> down (count_rounds (chk_threshold config) rounds start_count), r, w') \<and>
    fmlookup (cm_checks w') (chk_name config) = Some d \<and> ck_changeID d = cr_change r \<and>
    ck_status d = (if down (count_rounds (chk_threshold config) rounds start_count) then CheckStatusDown else CheckStatusUp) \<and>
    ck_failures d = fails (count_rounds (chk_threshold config) rounds start_count) \<and>
    ck_successes d = shown (count_rounds (chk_threshold config) rounds start_count) \<and>
    cm_failed w' = cm_failed w @ replicate (hits (count_rounds (chk_threshold config) rounds start_count)) (chk_name config)"
proof -
  from start_watching [OF assms, of quote now w] obtain cid w1 y where
    s: "performCheckChange quote now config w = Inr (cid, w1)"
    "launch quote now True cid (updateCheckData config cid [] 0 0 w1) = Inr y"
    "watching config start_count y" "cm_failed (snd (snd y)) = cm_failed w" .
  from check_rounds_counts [OF s(3) assms, of quote rounds] obtain p r w' where
    "check_rounds quote rounds y = Inr (p, r, w')"
    "watching config (count_rounds (chk_threshold config) rounds start_count) (p, r, w')"
    "cm_failed w' = cm_failed w @ replicate (hits (count_rounds (chk_threshold config) rounds start_count)) (chk_name config)"
    by (auto simp: s(4) start_count_def)
  moreover from this(2) obtain d where "p = (\<not> down (count_rounds (chk_threshold config) rounds start_count))"
    "fmlookup (cm_checks w') (chk_name config) = Some d" "ck_changeID d = cr_change r"
    "ck_status d = (if down (count_rounds (chk_threshold config) rounds start_count) then CheckStatusDown else CheckStatusUp)"
    "ck_failures d = fails (count_rounds (chk_threshold config) rounds start_count)"
    "ck_successes d = shown (count_rounds (chk_threshold config) rounds start_count)"
    by (auto simp: watching_def)
  ultimately show ?thesis using s(1,2) by blast
qed

definition sample_check :: check where
  "sample_check =
     \<lparr>chk_name = ''chk'', chk_override = ''replace'', chk_level = ''alive'', chk_startup = [],
      chk_period = \<lparr>od_value = 10 * second, od_is_set = True\<rparr>, chk_timeout = \<lparr>od_value = second, od_is_set = True\<rparr>,
      chk_threshold = 2, chk_http = None, chk_tcp = Some \<lparr>tcp_port = 80, tcp_host = []\<rparr>, chk_exec = None\<rparr>"

theorem check_follows_counts_witness:
  "\<exists>cid w1 y r w' d.
    performCheckChange id 5 sample_check \<lparr>cm_st = empty_state, cm_checks = fmempty, cm_perform = fmempty, cm_recover = fmempty, cm_failed = []\<rparr> = Inr (cid, w1) \<and>
    launch id 5 True cid (updateCheckData sample_check cid [] 0 0 w1) = Inr y \<and>
    check_rounds id [(6, Some (''refused'', [])), (7, Some (''refused'', []))] y = Inr (False, r, w') \<and>
    fmlookup (cm_checks w') ''chk'' = Some d \<and> ck_status d = CheckStatusDown \<and> ck_failures d = 2 \<and> cm_failed w' = [''chk'']"
proof -
  have t: "0 < chk_threshold sample_check" by (simp add: sample_check_def)
  have c: "count_rounds (chk_threshold sample_check) [(6, Some (''refused'', [])), (7, Some (''refused'', []))] start_count =
      \<lparr>down = True, fails = 2, oks = 0, shown = 0, hits = 1\<rparr>"
    by (simp add: count_rounds_def count_step_def start_count_def sample_check_def)
  have n: "chk_name sample_check = ''chk''" by (simp add: sample_check_def)
  from check_follows_counts [OF t, of id 5 "\<lparr>cm_st = empty_state, cm_checks = fmempty, cm_perform = fmempty, cm_recover = fmempty, cm_failed = []\<rparr>"
      "[(6, Some (''refused'', [])), (7, Some (''refused'', []))]"]
  show ?thesis unfolding c n by auto
qed

text \<open>
  The successes shown after a recovery are one too few from the second success on: the first is shown,
  but the handler of the new change starts to count at zero.
\<close>

lemma successes_after_recovery:
  "shown (count_rounds 1 [(1, Some (''refused'', [])), (2, None)] start_count) = 1"
  "shown (count_rounds 1 [(1, Some (''refused'', [])), (2, None), (3, None)] start_count) = 1"
  by (simp_all add: count_rounds_def count_step_def start_count_def)

text \<open>A check started by request runs without the context of its service, which only \<open>PlanChanged\<close> merges.\<close>

lemma StartChecks_unmerged:
  assumes "map_of (plan_checks p) n = Some config" "fmlookup (cm_checks w) n = Some d" "ck_changeID d = []"
    and "StartChecks quote now p [n] w = Inr (r, w')"
  shows "r = Inr [chk_name config] \<and> (\<exists>cid. fmlookup (cm_perform w') cid = Some config)"
  using assms
  by (auto simp: StartChecks_def missing_checks_def performCheckChange_def and_then_Inr_iff updateCheckData_def Let_def)

text \<open>
  A running check that a plan changes from enabled to disabled goes on as it is, with its old
  configuration; a check that is not running is not forgotten when it leaves the plan.
\<close>

lemma PlanChanged_disabled_goes_on:
  assumes "fmlookup (changes (cm_st (pc_world x))) cid = Some c" "chg_kind c = performCheckKind" "\<not> chg_ready c"
    and "mustGetCheckDetails (cm_st (pc_world x)) c = Inr d" "fmlookup (cm_perform (pc_world x)) cid = Some old"
    and "map_of (plan_checks p) (cd_name d) = Some new" "chk_exec new = None"
    and "chk_startup new = ''disabled''" "starts_enabled old"
  shows "plan_change_step quote now p cid x = Inr (x\<lparr>pc_existing := pc_existing x @ [chk_name old]\<rparr>)"
  using assms by (simp add: plan_change_step_def Let_def mergeServiceContext_def)

lemma PlanChanged_keeps_stopped: "PlanChanged quote now [] NewPlan w = Inr w"
  by (simp add: PlanChanged_def NewPlan_def)

subsection \<open>The data of the checks is consistent\<close>

text \<open>
  The status shown is the one for the change, the failures and the threshold shown with it; only a check that was never
  updated has none.
\<close>

definition data_ok :: "string \<Rightarrow> check_data \<Rightarrow> bool" where
  "data_ok name d \<longleftrightarrow> ck_name d = name \<and>
     (ck_status d = [] \<and> ck_changeID d = [] \<or>
      ck_status d = (if ck_changeID d = [] then CheckStatusInactive
                     else if ck_threshold d \<le> ck_failures d then CheckStatusDown else CheckStatusUp))"

definition checks_ok :: "check_world \<Rightarrow> bool" where
  "checks_ok w \<longleftrightarrow> (\<forall>name d. fmlookup (cm_checks w) name = Some d \<longrightarrow> data_ok name d)"

text \<open>The operations of the manager, of its handlers, and of the state it is told of.\<close>

datatype check_op =
    PlanOp "string list" plan
  | StartOp plan "string list"
  | StopOp plan "string list"
  | ReplanOp plan
  | ChangedOp string status
  | BeginOp bool string
  | PerformOp "string option option" "(string \<times> string) option" check_run
  | RecoverOp "string option option" "(string \<times> string) option" check_run

definition check_op_step :: "(string \<Rightarrow> string) \<Rightarrow> time \<Rightarrow> check_op \<Rightarrow> check_world \<Rightarrow> check_fault + check_world" where
  "check_op_step quote now e w =
     (case e of
        PlanOp cids p \<Rightarrow> PlanChanged quote now cids p w
      | StartOp p names \<Rightarrow> map_sum id snd (StartChecks quote now p names w)
      | StopOp p names \<Rightarrow> map_sum id snd (StopChecks quote now p names w)
      | ReplanOp p \<Rightarrow> checks_Replan quote now p w
      | ChangedOp cid new \<Rightarrow> changeStatusChanged quote now cid new w
      | BeginOp perform tid \<Rightarrow> map_sum id snd (begin_check perform tid w)
      | PerformOp dead err r \<Rightarrow> map_sum id (snd \<circ> snd) (performCheck now dead err r w)
      | RecoverOp dead err r \<Rightarrow> map_sum id (snd \<circ> snd) (recoverCheck now dead err r w))"

lemma map_sum_Inr_iff: "map_sum id f r = Inr b \<longleftrightarrow> (\<exists>a. r = Inr a \<and> b = f a)"
  by (cases r) auto

lemma ensureCheck_ok: "checks_ok w \<Longrightarrow> data_ok name (ensureCheck name w)"
proof (cases "fmlookup (cm_checks w) name")
  case None
  then show ?thesis by (simp add: ensureCheck_def data_ok_def empty_check_def)
qed (simp add: checks_ok_def ensureCheck_def)

lemma checks_ok_simps [simp]:
  "checks_ok (w\<lparr>cm_st := s\<rparr>) = checks_ok w" "checks_ok (w\<lparr>cm_failed := fs\<rparr>) = checks_ok w"
  "checks_ok (w\<lparr>cm_perform := ps\<rparr>) = checks_ok w" "checks_ok (w\<lparr>cm_recover := ps\<rparr>) = checks_ok w"
  by (simp_all add: checks_ok_def)

lemma checks_ok_put: "checks_ok w \<Longrightarrow> data_ok k d \<Longrightarrow> checks_ok (w\<lparr>cm_checks := fmupd k d (cm_checks w)\<rparr>)"
  by (simp add: checks_ok_def)

lemma updateCheckData_ok: "checks_ok w \<Longrightarrow> checks_ok (updateCheckData config cid prev ok bad w)"
  using ensureCheck_ok [of w "chk_name config"] unfolding updateCheckData_def Let_def
  by (intro checks_ok_put) (simp_all add: data_ok_def check_status_def)

lemma data_ok_metric [simp]:
  "data_ok k (d\<lparr>ck_successMetric := n\<rparr>) = data_ok k d" "data_ok k (d\<lparr>ck_failureMetric := n\<rparr>) = data_ok k d"
  by (simp_all add: data_ok_def)

lemma metric_ok:
  "checks_ok w \<Longrightarrow> checks_ok (incSuccessMetric config w)" "checks_ok w \<Longrightarrow> checks_ok (incFailureMetric config w)"
  by (simp_all add: incSuccessMetric_def incFailureMetric_def Let_def checks_ok_put ensureCheck_ok)

lemma deleteCheckData_ok: "checks_ok w \<Longrightarrow> checks_ok (deleteCheckData name w)"
  by (auto simp: checks_ok_def deleteCheckData_def split: if_splits)

lemma change_ok:
  "performCheckChange quote now config w = Inr (cid, w') \<Longrightarrow> checks_ok w \<Longrightarrow> checks_ok w'"
  "recoverCheckChange quote now config k f w = Inr (cid, w') \<Longrightarrow> checks_ok w \<Longrightarrow> checks_ok w'"
  "save_details tid d w = Inr w' \<Longrightarrow> checks_ok w \<Longrightarrow> checks_ok w'"
  "log_check now kind tid msg w = Inr w' \<Longrightarrow> checks_ok w \<Longrightarrow> checks_ok w'"
  by (auto simp: performCheckChange_def recoverCheckChange_def save_details_def log_check_def and_then_Inr_iff)

lemma changeStatusChanged_ok:
  assumes "changeStatusChanged quote now cid new w = Inr w'" "checks_ok w"
  shows "checks_ok w'"
proof -
  from assms(1) consider "w' = w"
    | config k f cid' w1 prev ok bad s where "recoverCheckChange quote now config k f w = Inr (cid', w1)"
        "w' = (updateCheckData config cid' prev ok bad w1)\<lparr>cm_st := s\<rparr>"
    | config cid' w1 prev ok bad s where "performCheckChange quote now config w = Inr (cid', w1)"
        "w' = (updateCheckData config cid' prev ok bad w1)\<lparr>cm_st := s\<rparr>"
    unfolding changeStatusChanged_def Let_def by (auto simp: and_then_Inr_iff split: if_splits option.splits)
  then show ?thesis
    by cases (use assms(2) change_ok(1,2) updateCheckData_ok in fastforce)+
qed

lemma dispatch_ok: "dispatch quote now es w = Inr w' \<Longrightarrow> checks_ok w \<Longrightarrow> checks_ok w'"
proof (induction es arbitrary: w)
  case (Cons e es)
  then show ?case by (cases e) (auto simp: and_then_Inr_iff intro: changeStatusChanged_ok)
qed simp

lemma with_events_ok: "with_events quote now f w = Inr w' \<Longrightarrow> checks_ok w \<Longrightarrow> checks_ok w'"
  by (auto simp: with_events_def and_then_Inr_iff intro: dispatch_ok)

lemma on_ok_with_events: "checks_ok w \<Longrightarrow> (\<And>v. checks_ok v \<Longrightarrow> P v) \<Longrightarrow> on_ok P (with_events quote now f w)"
  using with_events_ok by (auto simp: on_ok_def)

lemma plan_change_step_ok:
  assumes "plan_change_step quote now p cid x = Inr x'" "checks_ok (pc_world x)"
  shows "checks_ok (pc_world x')"
proof -
  have "on_ok (\<lambda>y. checks_ok (pc_world y)) (plan_change_step quote now p cid x)"
    unfolding plan_change_step_def Let_def
    by (simp add: assms(2) on_okI on_ok_with_events deleteCheckData_ok split: option.split)
  from on_okD [OF this assms(1)] show ?thesis .
qed

lemma new_check_steps_ok: "checks_ok (pc_world x) \<Longrightarrow> checks_ok (pc_world (fold new_check_step cs x))"
proof (induction cs arbitrary: x)
  case (Cons c cs)
  have "checks_ok (pc_world (new_check_step c x))"
    using Cons.prems updateCheckData_ok by (simp add: new_check_step_def)
  then show ?case using Cons.IH by simp
qed simp

lemma start_check_step_ok:
  assumes "start_check_step quote now p c x = Inr x'" "checks_ok (pc_world x)"
  shows "checks_ok (pc_world x')"
proof -
  from assms(1) consider "x' = x" | config cid w where "performCheckChange quote now config (pc_world x) = Inr (cid, w)"
      "pc_world x' = updateCheckData c cid [] 0 0 w"
    by (auto simp: start_check_step_def and_then_Inr_iff split: if_splits)
  then show ?thesis
    by cases (use assms(2) change_ok(1) updateCheckData_ok in fastforce)+
qed

lemma PlanChanged_ok:
  assumes "PlanChanged quote now cids p w = Inr w'" "checks_ok w"
  shows "checks_ok w'"
proof -
  from assms(1) obtain x y where
    x: "fold_try (plan_change_step quote now p) cids \<lparr>pc_modified = [], pc_existing = [], pc_ensure = False, pc_world = w\<rparr> = Inr x"
    and y: "fold_try (start_check_step quote now p) (map snd (plan_checks p)) (fold new_check_step (map snd (plan_checks p)) x) = Inr y"
    and w': "w' = (if pc_ensure y then (pc_world y)\<lparr>cm_st := ensure_before 0 (cm_st (pc_world y))\<rparr> else pc_world y)"
    by (auto simp: PlanChanged_def and_then_Inr_iff)
  have "checks_ok (pc_world x)"
  proof (rule fold_try_inv [OF x])
    show "checks_ok (pc_world \<lparr>pc_modified = [], pc_existing = [], pc_ensure = False, pc_world = w\<rparr>)" using assms(2) by simp
  qed (rule plan_change_step_ok)
  then have "checks_ok (pc_world (fold new_check_step (map snd (plan_checks p)) x))" by (rule new_check_steps_ok)
  then have "checks_ok (pc_world y)" by (rule fold_try_inv [OF y]) (rule start_check_step_ok)
  then show ?thesis by (simp add: w')
qed

lemma start_checks_ok: "start_checks quote now p ns w = Inr (r, w') \<Longrightarrow> checks_ok w \<Longrightarrow> checks_ok w'"
proof (induction ns arbitrary: w r)
  case (Cons n ns)
  show ?case
  proof (cases "\<exists>config d. map_of (plan_checks p) n = Some config \<and> fmlookup (cm_checks w) n = Some d \<and> ck_changeID d = []")
    case False
    with Cons.prems(1) have "start_checks quote now p ns w = Inr (r, w')" by (auto split: option.splits if_splits)
    from Cons.IH [OF this Cons.prems(2)] show ?thesis .
  next
    case True
    then obtain config d where "map_of (plan_checks p) n = Some config" "fmlookup (cm_checks w) n = Some d" "ck_changeID d = []"
      by blast
    with Cons.prems(1) obtain cid w1 r1 where w1: "performCheckChange quote now config w = Inr (cid, w1)"
      "start_checks quote now p ns (updateCheckData config cid [] 0 0 w1) = Inr (r1, w')"
      by (auto simp: and_then_Inr_iff)
    from Cons.IH [OF w1(2)] updateCheckData_ok [OF change_ok(1) [OF w1(1) Cons.prems(2)]] show ?thesis by blast
  qed
qed simp

lemma stop_checks_ok: "stop_checks quote now p ns w = Inr (r, w') \<Longrightarrow> checks_ok w \<Longrightarrow> checks_ok w'"
proof (induction ns arbitrary: w r)
  case (Cons n ns)
  show ?case
  proof (cases "map_of (plan_checks p) n")
    case None
    with Cons.prems show ?thesis by simp
  next
    case c: (Some config)
    show ?thesis
    proof (cases "\<exists>d. fmlookup (cm_checks w) n = Some d \<and> ck_changeID d \<noteq> []")
      case False
      with Cons.prems(1) c have "stop_checks quote now p ns w = Inr (r, w')" by (auto split: option.splits if_splits)
      from Cons.IH [OF this Cons.prems(2)] show ?thesis .
    next
      case True
      then obtain d where d: "fmlookup (cm_checks w) n = Some d" "ck_changeID d \<noteq> []" by blast
      from Cons.prems(1) c d obtain s1 w1 s2 where
        1: "(case fmlookup (changes (cm_st w)) (ck_changeID d) of
              None \<Rightarrow> Inr ([], w)
            | Some ch \<Rightarrow> and_then (with_events quote now (change_Abort now (ck_changeID d)) w) (\<lambda>w1. Inr ([chk_name config], w1))) =
           (Inr (s1, w1) :: check_fault + string list \<times> check_world)"
        and 2: "stop_checks quote now p ns (updateCheckData config [] (ck_prevChangeID d) (ck_successes d) (ck_failures d) w1) = Inr (s2, w')"
        by (auto simp: and_then_Inr_iff)
      from 1 Cons.prems(2) have "checks_ok w1"
        by (auto simp: and_then_Inr_iff split: option.splits intro: with_events_ok)
      with Cons.IH [OF 2] show ?thesis by (simp add: updateCheckData_ok)
    qed
  qed
qed simp

lemma replan_check_ok:
  assumes "replan_check quote now c w = Inr w'" "checks_ok w"
  shows "checks_ok w'"
proof -
  from assms(1) consider "w' = w" | cid w1 where "performCheckChange quote now c w = Inr (cid, w1)" "w' = updateCheckData c cid [] 0 0 w1"
    by (auto simp: replan_check_def and_then_Inr_iff split: option.splits if_splits)
  then show ?thesis
    by cases (use assms(2) change_ok(1) updateCheckData_ok in fastforce)+
qed

text \<open>A step of a handler only updates the data through the operations above.\<close>

lemma performCheck_ok:
  assumes "performCheck now dead err r w = Inr (e, r', w')" "checks_ok w"
  shows "checks_ok w'"
proof (cases dead)
  case None
  show ?thesis
  proof (cases err)
    case e: (Some x)
    have w1: "checks_ok (incFailureMetric (cr_config r) w)" using metric_ok(2) [OF assms(2)] .
    show ?thesis
    proof (cases "chk_threshold (cr_config r) \<le> cd_failures (cr_details r) + 1")
      case True
      with assms(1) None e obtain w3 d fs where "save_details (cr_task r) d (incFailureMetric (cr_config r) w) = Inr w3"
        "w' = w3\<lparr>cm_failed := fs\<rparr>"
        by (auto simp: performCheck_def Let_def and_then_Inr_iff)
      with change_ok(3) [OF _ w1] show ?thesis by simp
    next
      case False
      with assms(1) None e obtain w2 w3 where
        "log_check now LogError (cr_task r) (errorDetails x) (incFailureMetric (cr_config r) w) = Inr w2"
        "save_details (cr_task r) (cr_details r\<lparr>cd_failures := cd_failures (cr_details r) + 1\<rparr>) w2 = Inr w3"
        "w' = updateCheckData (cr_config r) (cr_change r) (cr_prev r) (cd_successes (cr_details r)) (cd_failures (cr_details r) + 1) w3"
        by (auto simp: performCheck_def Let_def and_then_Inr_iff)
      with change_ok(3) [OF _ change_ok(4) [OF _ w1]] updateCheckData_ok show ?thesis by blast
    qed
  next
    case o: None
    define v where "v = updateCheckData (cr_config r) (cr_change r) (cr_prev r) (cd_successes (cr_details r) + 1)
      (if 0 < cd_failures (cr_details r) then 0 else cd_failures (cr_details r)) (incSuccessMetric (cr_config r) w)"
    have v: "checks_ok v" unfolding v_def by (intro updateCheckData_ok metric_ok assms(2))
    from assms(1) None o obtain w3 d where "v = w3 \<or> (\<exists>m. log_check now LogInfo (cr_task r) m v = Inr w3)"
      "save_details (cr_task r) d w3 = Inr w'"
      by (auto simp: performCheck_def Let_def and_then_Inr_iff v_def split: if_splits)
    with v change_ok(3,4) show ?thesis by blast
  qed
qed (use assms in \<open>simp add: performCheck_def\<close>)

lemma recoverCheck_ok:
  assumes "recoverCheck now dead err r w = Inr (e, r', w')" "checks_ok w"
  shows "checks_ok w'"
proof (cases dead)
  case None
  show ?thesis
  proof (cases err)
    case e: (Some x)
    from assms(1) None e obtain v w3 c i j k l d m where
      v: "v = updateCheckData c i j k l (incFailureMetric (cr_config r) w)"
      and 3: "save_details (cr_task r) d v = Inr w3" and 4: "log_check now LogError (cr_task r) m w3 = Inr w'"
      by (auto simp: recoverCheck_def Let_def and_then_Inr_iff)
    have "checks_ok v" unfolding v by (intro updateCheckData_ok metric_ok assms(2))
    from change_ok(4) [OF 4 change_ok(3) [OF 3 this]] show ?thesis .
  next
    case o: None
    from assms(1) None o obtain d where "save_details (cr_task r) d (incSuccessMetric (cr_config r) w) = Inr w'"
      by (auto simp: recoverCheck_def Let_def and_then_Inr_iff)
    then show ?thesis by (rule change_ok(3)) (rule metric_ok(1) [OF assms(2)])
  qed
qed (use assms in \<open>simp add: recoverCheck_def\<close>)

lemma begin_check_ok:
  assumes "begin_check perform tid w = Inr (r, w')" "checks_ok w"
  shows "checks_ok w'"
proof -
  from assms(1) consider "w' = w" | name where "w' = w\<lparr>cm_checks := fmupd name (ensureCheck name w) (cm_checks w)\<rparr>"
    unfolding begin_check_def Let_def by (force simp: and_then_Inr_iff split: option.splits)
  then show ?thesis
    by cases (use assms(2) checks_ok_put ensureCheck_ok in auto)
qed

lemma check_op_step_ok:
  assumes "check_op_step quote now e w = Inr w'" "checks_ok w"
  shows "checks_ok w'"
proof (cases e)
  case (StartOp p names)
  with assms show ?thesis
    by (auto simp: check_op_step_def StartChecks_def and_then_Inr_iff map_sum_Inr_iff split: if_splits dest: start_checks_ok)
next
  case (StopOp p names)
  with assms show ?thesis
    by (auto simp: check_op_step_def StopChecks_def and_then_Inr_iff map_sum_Inr_iff split: if_splits dest: stop_checks_ok)
next
  case (ReplanOp p)
  with assms have r: "fold_try (replan_check quote now) (map snd (plan_checks p)) w = Inr w'"
    by (simp add: check_op_step_def checks_Replan_def)
  show ?thesis by (rule fold_try_inv [OF r]) (use assms replan_check_ok in auto)
qed (use assms in \<open>auto simp: check_op_step_def map_sum_Inr_iff
  intro: PlanChanged_ok changeStatusChanged_ok performCheck_ok recoverCheck_ok begin_check_ok\<close>)



end
