(* ===== verification/Strings.thy ===== *)
theory Strings
  imports Prelude "HOL-Library.Sublist"
begin

text \<open>
  What the components use of Go's packages \<open>strings\<close>, \<open>strconv\<close> and \<open>path/filepath\<close>: splitting and joining,
  and the lexical treatment of slash separated paths.
\<close>

subsection \<open>Splitting and joining at a character\<close>

text \<open>\<open>strings.Split (s, sep)\<close> and \<open>strings.Join (ps, sep)\<close> for a separator of one character.\<close>

fun split_on :: "char \<Rightarrow> string \<Rightarrow> string list" where
  "split_on c [] = [[]]"
| "split_on c (x # xs) =
     (if x = c then [] # split_on c xs else (x # hd (split_on c xs)) # tl (split_on c xs))"

fun join_with :: "char \<Rightarrow> string list \<Rightarrow> string" where
  "join_with c [] = []"
| "join_with c [p] = p"
| "join_with c (p # q # ps) = p @ c # join_with c (q # ps)"

lemma split_on_ne [simp]: "split_on c s \<noteq> []"
  by (cases s) auto

lemma split_on_free: "p \<in> set (split_on c s) \<Longrightarrow> c \<notin> set p"
proof (induction s arbitrary: p)
  case (Cons x s)
  then show ?case by (cases "split_on c s") (auto split: if_splits)
qed simp

lemma join_with_Cons: "ps \<noteq> [] \<Longrightarrow> join_with c (p # ps) = p @ c # join_with c ps"
  by (cases ps) auto

lemma split_on_single [simp]: "c \<notin> set s \<Longrightarrow> split_on c s = [s]"
  by (induction s) auto

lemma split_on_append: "c \<notin> set p \<Longrightarrow> split_on c (p @ c # s) = p # split_on c s"
  by (induction p) auto

lemma split_on_append_gen: "split_on c (p @ c # s) = split_on c p @ split_on c s"
  by (induction p) auto

lemma split_on_join: "ps \<noteq> [] \<Longrightarrow> \<forall>p \<in> set ps. c \<notin> set p \<Longrightarrow> split_on c (join_with c ps) = ps"
  by (induction c ps rule: join_with.induct) (auto simp: split_on_append)

lemma join_with_split [simp]: "join_with c (split_on c s) = s"
proof (induction s)
  case (Cons x s)
  then show ?case by (cases "split_on c s"; cases "tl (split_on c s)") auto
qed simp

lemma join_with_append: "ps \<noteq> [] \<Longrightarrow> qs \<noteq> [] \<Longrightarrow> join_with c (ps @ qs) = join_with c ps @ c # join_with c qs"
  by (induction c ps rule: join_with.induct) (auto simp: join_with_Cons)

lemma set_join_with: "x \<in> set (join_with c ps) \<Longrightarrow> x = c \<or> (\<exists>p \<in> set ps. x \<in> set p)"
  by (induction c ps rule: join_with.induct) auto

text \<open>\<open>strconv.Itoa\<close> and \<open>%d\<close> for integers.\<close>

definition int_string :: "int \<Rightarrow> string" where
  "int_string i = (if i < 0 then CHR ''-'' # itoa (nat (- i)) else itoa (nat i))"

text \<open>The value of a string of digits, \<open>strconv.ParseUint(s, 10, 32)\<close> and \<open>strconv.Atoi\<close> on one or two digits.\<close>

definition decimal_of :: "string \<Rightarrow> nat" where
  "decimal_of s = foldl (\<lambda>n c. 10 * n + digit_value c) 0 s"

definition ParseUint32 :: "string \<Rightarrow> nat option" where
  "ParseUint32 s = (if s \<noteq> [] \<and> list_all is_digit s \<and> int (decimal_of s) < 2 ^ 32 then Some (decimal_of s) else None)"

lemma decimal_of_itoa [simp]: "decimal_of (itoa n) = n"
  by (induction n rule: itoa.induct)
    (subst itoa.simps, simp add: decimal_of_def digit_def is_digit_digit)

text \<open>The split at the first occurrence of a character.\<close>

fun cut_at :: "char \<Rightarrow> string \<Rightarrow> (string \<times> string) option" where
  "cut_at c [] = None"
| "cut_at c (x # s) = (if x = c then Some ([], s) else map_option (\<lambda>(a, b). (x # a, b)) (cut_at c s))"

lemma cut_at_append: "c \<notin> set p \<Longrightarrow> cut_at c (p @ c # q) = Some (p, q)"
  by (induction p) auto

subsection \<open>Lexical paths\<close>

abbreviation slash :: char where "slash \<equiv> CHR ''/''"

definition IsAbs :: "string \<Rightarrow> bool" where
  "IsAbs p \<longleftrightarrow> p \<noteq> [] \<and> hd p = slash"

text \<open>
  \<open>filepath.Clean\<close> by its parts: empty and dot parts are dropped, a \<open>..\<close> takes back the part before it,
  is dropped at the root, and stays at the start of a relative path.  The parts kept so far are reversed.
\<close>

fun clean_parts :: "bool \<Rightarrow> string list \<Rightarrow> string list \<Rightarrow> string list" where
  "clean_parts rooted kept [] = rev kept"
| "clean_parts rooted kept (c # cs) =
     (if c = [] \<or> c = ''.'' then clean_parts rooted kept cs
      else if c = ''..'' then
        (case kept of
           [] \<Rightarrow> clean_parts rooted (if rooted then [] else [''..'']) cs
         | k # ks \<Rightarrow> if k = ''..'' then clean_parts rooted (''..'' # kept) cs else clean_parts rooted ks cs)
      else clean_parts rooted (c # kept) cs)"

definition Clean :: "string \<Rightarrow> string" where
  "Clean p =
     (if p = [] then ''.''
      else let ps = clean_parts (IsAbs p) [] (split_on slash p) in
        if IsAbs p then slash # join_with slash ps else if ps = [] then ''.'' else join_with slash ps)"

definition Join :: "string \<Rightarrow> string \<Rightarrow> string" where
  "Join d p = (if d = [] then (if p = [] then [] else Clean p) else Clean (d @ slash # p))"

text \<open>\<open>filepath.Dir\<close>: the path up to its last slash.\<close>

definition Dir :: "string \<Rightarrow> string" where
  "Dir p = Clean (rev (dropWhile (\<lambda>c. c \<noteq> slash) (rev p)))"

definition IsLocal :: "string \<Rightarrow> bool" where
  "IsLocal p \<longleftrightarrow> p \<noteq> [] \<and> \<not> IsAbs p \<and>
     (let q = (if \<exists>c \<in> set (split_on slash p). c = ''.'' \<or> c = ''..'' then Clean p else p)
      in q \<noteq> ''..'' \<and> \<not> prefix ''../'' q)"

text \<open>The parts of a path that name something.\<close>

definition parts :: "string \<Rightarrow> string list" where
  "parts p = filter (\<lambda>c. c \<noteq> [] \<and> c \<noteq> ''.'') (split_on slash p)"

definition plain_part :: "string \<Rightarrow> bool" where
  "plain_part c \<longleftrightarrow> c \<noteq> [] \<and> c \<noteq> ''.'' \<and> c \<noteq> ''..'' \<and> slash \<notin> set c"

lemma parts_free: "p \<in> set (parts s) \<Longrightarrow> p \<noteq> [] \<and> p \<noteq> ''.'' \<and> slash \<notin> set p"
  using split_on_free by (auto simp: parts_def)

lemma clean_parts_filter:
  "clean_parts r kept (filter (\<lambda>c. c \<noteq> [] \<and> c \<noteq> ''.'') cs) = clean_parts r kept cs"
  by (induction r kept cs rule: clean_parts.induct) (auto split: list.splits)

lemma clean_parts_split: "clean_parts r kept (split_on slash p) = clean_parts r kept (parts p)"
  by (simp add: parts_def clean_parts_filter)

lemma clean_parts_plain: "\<forall>c \<in> set cs. plain_part c \<Longrightarrow> clean_parts r kept cs = rev kept @ cs"
  by (induction cs arbitrary: kept) (auto simp: plain_part_def)

lemma clean_parts_plain_append:
  "\<forall>c \<in> set cs. plain_part c \<Longrightarrow> clean_parts r kept (cs @ ds) = clean_parts r (rev cs @ kept) ds"
  by (induction cs arbitrary: kept) (auto simp: plain_part_def)

lemma clean_parts_rooted_plain:
  "\<forall>c \<in> set kept. plain_part c \<Longrightarrow> \<forall>c \<in> set cs. slash \<notin> set c \<Longrightarrow> c \<in> set (clean_parts True kept cs) \<Longrightarrow> plain_part c"
proof (induction True kept cs rule: clean_parts.induct)
  case (2 kept c cs)
  then show ?case by (cases kept) (auto simp: plain_part_def split: if_splits)
qed auto

lemma clean_parts_up_stays:
  "kept \<noteq> [] \<Longrightarrow> last kept = ''..'' \<Longrightarrow> clean_parts False kept cs \<noteq> [] \<and> hd (clean_parts False kept cs) = ''..''"
proof (induction False kept cs rule: clean_parts.induct)
  case (1 kept)
  then show ?case by (simp add: hd_rev)
next
  case (2 kept c cs)
  then obtain k ks where k: "kept = k # ks" by (cases kept) auto
  show ?case
  proof (cases "c = ''..'' \<and> k \<noteq> ''..''")
    case True
    with 2 k have "ks \<noteq> [] \<and> last ks = ''..''" by (auto split: if_splits)
    with 2 k True show ?thesis by simp
  qed (use 2 k in auto)
qed

text \<open>A relative path that does not lead up is the same below any directory.\<close>

lemma clean_parts_below:
  assumes "''..'' \<notin> set kept" "clean_parts False kept cs = [] \<or> hd (clean_parts False kept cs) \<noteq> ''..''"
    and "''..'' \<notin> set d"
  shows "clean_parts True (kept @ rev d) cs = d @ clean_parts False kept cs"
  using assms(1,2)
proof (induction False kept cs rule: clean_parts.induct)
  case (2 kept c cs)
  show ?case
  proof (cases "c = ''..''")
    case True
    show ?thesis
    proof (cases kept)
      case Nil
      with clean_parts_up_stays [of "[''..'']" cs] 2 True show ?thesis by auto
    qed (use 2 True in auto)
  qed (use 2 in auto)
qed (use assms(3) in auto)

lemma split_on_slash_abs: "IsAbs p \<Longrightarrow> split_on slash p = [] # split_on slash (tl p)"
  by (cases p) (auto simp: IsAbs_def)

lemma parts_abs: "parts (slash # p) = parts p"
  by (simp add: parts_def)

lemma parts_append: "parts (d @ slash # p) = parts d @ parts p"
  by (simp add: parts_def split_on_append_gen)

lemma parts_join: "\<forall>c \<in> set ps. c \<noteq> [] \<and> c \<noteq> ''.'' \<and> slash \<notin> set c \<Longrightarrow> parts (join_with slash ps) = ps"
proof (cases "ps = []")
  case True
  then show ?thesis by (simp add: parts_def)
next
  case False
  assume "\<forall>c \<in> set ps. c \<noteq> [] \<and> c \<noteq> ''.'' \<and> slash \<notin> set c"
  with False show ?thesis unfolding parts_def by (subst split_on_join) auto
qed

lemma Clean_abs: "IsAbs p \<Longrightarrow> Clean p = slash # join_with slash (clean_parts True [] (parts p))"
  by (auto simp: Clean_def Let_def IsAbs_def clean_parts_split)

lemma parts_Clean_abs:
  assumes "IsAbs p"
  shows "parts (Clean p) = clean_parts True [] (parts p)" "\<forall>c \<in> set (parts (Clean p)). plain_part c"
proof -
  have plain: "\<forall>c \<in> set (clean_parts True [] (parts p)). plain_part c"
    using clean_parts_rooted_plain [of "[]" "parts p"] parts_free by auto
  then show *: "parts (Clean p) = clean_parts True [] (parts p)"
    by (simp add: Clean_abs [OF assms] parts_abs parts_join plain_part_def)
  with plain show "\<forall>c \<in> set (parts (Clean p)). plain_part c" by simp
qed

lemma prefix_up_join: "ps \<noteq> [] \<Longrightarrow> hd ps = ''..'' \<Longrightarrow> join_with slash ps = ''..'' \<or> prefix ''../'' (join_with slash ps)"
  by (cases ps; cases "tl ps") auto

lemma clean_parts_subset: "c \<in> set (clean_parts r kept cs) \<Longrightarrow> c \<in> set kept \<or> c \<in> set cs"
proof (induction r kept cs rule: clean_parts.induct)
  case (2 r kept c cs)
  then show ?case by (cases kept) (auto split: if_splits)
qed auto

lemma IsLocal_parts:
  assumes "IsLocal p"
  shows "clean_parts False [] (parts p) = [] \<or> hd (clean_parts False [] (parts p)) \<noteq> ''..''"
proof (cases "\<exists>c \<in> set (split_on slash p). c = ''.'' \<or> c = ''..''")
  case True
  with assms have "Clean p \<noteq> ''..''" "\<not> prefix ''../'' (Clean p)" "\<not> IsAbs p" "p \<noteq> []"
    by (auto simp: IsLocal_def Let_def)
  moreover from this(3,4) have "Clean p = (if clean_parts False [] (parts p) = [] then ''.'' else join_with slash (clean_parts False [] (parts p)))"
    by (simp add: Clean_def Let_def clean_parts_split)
  ultimately show ?thesis using prefix_up_join by (auto split: if_splits)
next
  case False
  then have "''..'' \<notin> set (parts p)" by (auto simp: parts_def)
  with clean_parts_subset [of "''..''" False "[]" "parts p"] show ?thesis by (metis empty_iff empty_set hd_in_set)
qed

text \<open>A local name joined to a directory is below the directory.\<close>

lemma Join_local:
  assumes "IsAbs d" "clean_parts True [] (parts d) = parts d" "IsLocal p"
  shows "parts (Join d p) = parts d @ clean_parts False [] (parts p)" "IsAbs (Join d p)"
    "\<forall>c \<in> set (parts (Join d p)). plain_part c"
proof -
  have a: "IsAbs (d @ slash # p)" "d \<noteq> []" using assms(1) by (auto simp: IsAbs_def)
  have plain: "\<forall>c \<in> set (parts d). plain_part c"
    using parts_Clean_abs(2) [OF assms(1)] unfolding parts_Clean_abs(1) [OF assms(1)] assms(2) .
  then have u: "''..'' \<notin> set (parts d)" by (auto simp: plain_part_def)
  have "clean_parts True [] (parts (d @ slash # p)) = clean_parts True (rev (parts d)) (parts p)"
    using clean_parts_plain_append [OF plain, of True "[]"] by (simp add: parts_append)
  with clean_parts_below [of "[]" "parts p" "parts d"] IsLocal_parts [OF assms(3)] u
  show "parts (Join d p) = parts d @ clean_parts False [] (parts p)"
    using a parts_Clean_abs(1) [OF a(1)] by (simp add: Join_def)
  show "IsAbs (Join d p)" using a Clean_abs [OF a(1)] by (simp add: Join_def IsAbs_def)
  show "\<forall>c \<in> set (parts (Join d p)). plain_part c" using a parts_Clean_abs(2) [OF a(1)] by (simp add: Join_def)
qed

lemma Join_abs:
  assumes "IsAbs d"
  shows "Join d p = slash # join_with slash (parts (Join d p))"
proof -
  have a: "IsAbs (d @ slash # p)" "d \<noteq> []" using assms by (auto simp: IsAbs_def)
  then show ?thesis using parts_Clean_abs(1) [OF a(1)] Clean_abs [OF a(1)] by (simp add: Join_def)
qed

lemma parts_Dir:
  assumes "\<forall>c \<in> set ps. plain_part c"
  shows "parts (Dir (slash # join_with slash ps)) = butlast ps"
proof (cases ps rule: rev_cases)
  case Nil
  then show ?thesis by (simp add: Dir_def Clean_def IsAbs_def parts_def)
next
  case (snoc qs c)
  let ?up = "slash # (if qs = [] then [] else join_with slash qs @ [slash])"
  from assms snoc have c: "slash \<notin> set c" and q: "\<forall>c \<in> set qs. plain_part c" by (auto simp: plain_part_def)
  have "slash # join_with slash ps = ?up @ c"
    using snoc by (cases "qs = []") (auto simp: join_with_append)
  moreover have "dropWhile (\<lambda>c. c \<noteq> slash) (rev (?up @ c)) = rev ?up"
  proof -
    have "dropWhile (\<lambda>c. c \<noteq> slash) (rev c @ ys) = dropWhile (\<lambda>c. c \<noteq> slash) ys" for ys
      by (rule dropWhile_append2) (use c in auto)
    then show ?thesis by simp
  qed
  ultimately have "Dir (slash # join_with slash ps) = Clean ?up" by (simp add: Dir_def)
  moreover have "parts (Clean ?up) = clean_parts True [] (parts ?up)" by (rule parts_Clean_abs) (simp add: IsAbs_def)
  moreover have "parts ?up = qs"
  proof (cases "qs = []")
    case False
    have "parts (join_with slash qs @ slash # []) = qs @ parts []"
      unfolding parts_append using q by (subst parts_join) (auto simp: plain_part_def)
    with False show ?thesis by (simp add: parts_abs) (simp add: parts_def)
  qed (simp add: parts_def)
  ultimately show ?thesis using clean_parts_plain [OF q] snoc by simp
qed

end
