(* ===== verification/Tarball.thy ===== *)
theory Tarball
  imports Strings
begin

text \<open>
  \<open>buildteststate/tarball.go\<close>: the extraction of an uploaded archive.  A file system is a map from the
  parts of the real path of an entry to the entry; the calls of the package \<open>os\<close> follow symbolic links as the system
  does.  The errors of the system that do not come from the entries themselves (permissions, a full disk)
  are left out.  An archive is what its reader returns: its entries, and how it ends.
\<close>

subsection \<open>The file system\<close>

datatype node = DirNode | FileNode string | LinkNode string

type_synonym fs = "(string list, node) fmap"

definition node_at :: "fs \<Rightarrow> string list \<Rightarrow> node option" where
  "node_at fs p = (if p = [] then Some DirNode else fmlookup fs p)"

text \<open>The real path of a path, with \<open>n\<close> symbolic links at most to follow on the way.\<close>

fun walk :: "nat \<Rightarrow> fs \<Rightarrow> string list \<Rightarrow> string list \<Rightarrow> string list option" where
  "walk n fs cur [] = Some cur"
| "walk n fs cur (c # cs) =
     (if c = ''..'' then walk n fs (butlast cur) cs
      else case fmlookup fs (cur @ [c]) of
        Some (LinkNode t) \<Rightarrow>
          (case n of 0 \<Rightarrow> None | Suc m \<Rightarrow> walk m fs (if IsAbs t then [] else cur) (parts t @ cs))
      | Some DirNode \<Rightarrow> walk n fs (cur @ [c]) cs
      | _ \<Rightarrow> if cs = [] then Some (cur @ [c]) else None)"

definition max_links :: nat where "max_links = 40"

definition stat :: "fs \<Rightarrow> string list \<Rightarrow> node option" where
  "stat fs p = (case walk max_links fs [] p of None \<Rightarrow> None | Some q \<Rightarrow> node_at fs q)"

text \<open>Making a new entry: in a directory, and where there is none.\<close>

definition make_node :: "node \<Rightarrow> string list \<Rightarrow> fs \<Rightarrow> string option \<times> fs" where
  "make_node x p fs =
     (case walk max_links fs [] (butlast p) of
        None \<Rightarrow> (Some ''no such file or directory'', fs)
      | Some d \<Rightarrow>
          if p = [] then (Some ''file exists'', fs)
          else if node_at fs d \<noteq> Some DirNode then (Some ''not a directory'', fs)
          else if fmlookup fs (d @ [last p]) \<noteq> None then (Some ''file exists'', fs)
          else (None, fmupd (d @ [last p]) x fs))"

text \<open>\<open>os.MkdirAll\<close>, on the reversed parts.\<close>

fun mkdir_all :: "string list \<Rightarrow> fs \<Rightarrow> string option \<times> fs" where
  "mkdir_all [] fs = (None, fs)"
| "mkdir_all (c # rcs) fs =
     (case stat fs (rev (c # rcs)) of
        Some DirNode \<Rightarrow> (None, fs)
      | Some _ \<Rightarrow> (Some ''not a directory'', fs)
      | None \<Rightarrow>
          (case mkdir_all rcs fs of
             (Some e, fs1) \<Rightarrow> (Some e, fs1)
           | (None, fs1) \<Rightarrow> make_node DirNode (rev (c # rcs)) fs1))"

definition MkdirAll :: "string \<Rightarrow> fs \<Rightarrow> string option \<times> fs" where
  "MkdirAll p fs = mkdir_all (rev (parts p)) fs"

definition Symlink :: "string \<Rightarrow> string \<Rightarrow> fs \<Rightarrow> string option \<times> fs" where
  "Symlink old p fs = make_node (LinkNode old) (parts p) fs"

text \<open>\<open>os.OpenFile\<close> to write a file from its start: its real path, or the error.\<close>

definition OpenFile :: "string \<Rightarrow> fs \<Rightarrow> (string + string list) \<times> fs" where
  "OpenFile p fs =
     (case walk max_links fs [] (parts p) of
        None \<Rightarrow> (Inl ''no such file or directory'', fs)
      | Some q \<Rightarrow>
          (case node_at fs q of
             Some (FileNode _) \<Rightarrow> (Inr q, fmupd q (FileNode []) fs)
           | Some _ \<Rightarrow> (Inl ''is a directory'', fs)
           | None \<Rightarrow>
               if node_at fs (butlast q) = Some DirNode then (Inr q, fmupd q (FileNode []) fs)
               else (Inl ''no such file or directory'', fs)))"

subsection \<open>The extraction\<close>

datatype typeflag = TypeDir | TypeReg | TypeSymlink | OtherType

record tar_entry =
  hdr_name :: string
  hdr_typeflag :: typeflag
  hdr_linkname :: string
  tar_content :: string
  tar_content_err :: "string option"

definition wrap :: "string \<Rightarrow> string list \<Rightarrow> string option \<Rightarrow> err option" where
  "wrap what args e = (case e of None \<Rightarrow> None | Some x \<Rightarrow> Some (what, args @ [x]))"

text \<open>Whether the loop passes over an entry: an absolute name, or one that leads out of the destination.\<close>

definition skipped :: "tar_entry \<Rightarrow> bool" where
  "skipped e \<longleftrightarrow> IsAbs (hdr_name e) \<or> \<not> IsLocal (hdr_name e)"

definition extract_file :: "string \<Rightarrow> tar_entry \<Rightarrow> fs \<Rightarrow> err option \<times> fs" where
  "extract_file target e fs =
     (case MkdirAll (Dir target) fs of
        (Some x, fs1) \<Rightarrow> (Some (''cannot create parent directory for %q: %w'', [target, x]), fs1)
      | (None, fs1) \<Rightarrow>
          (case OpenFile target fs1 of
             (Inl x, fs2) \<Rightarrow> (Some (''cannot create file %q: %w'', [target, x]), fs2)
           | (Inr q, fs2) \<Rightarrow>
               (wrap ''cannot write file %q: %w'' [target] (tar_content_err e), fmupd q (FileNode (tar_content e)) fs2)))"

definition extract_link :: "string \<Rightarrow> tar_entry \<Rightarrow> fs \<Rightarrow> err option \<times> fs" where
  "extract_link target e fs =
     (case MkdirAll (Dir target) fs of
        (Some x, fs1) \<Rightarrow> (Some (''cannot create parent directory for %q: %w'', [target, x]), fs1)
      | (None, fs1) \<Rightarrow>
          (case Symlink (hdr_linkname e) target fs1 of
             (r, fs2) \<Rightarrow> (wrap ''cannot create symlink %q: %w'' [target] r, fs2)))"

definition extract_entry :: "string \<Rightarrow> tar_entry \<Rightarrow> fs \<Rightarrow> err option \<times> fs" where
  "extract_entry destDir e fs =
     (if IsAbs (hdr_name e) then (None, fs)
      else let target = Join destDir (hdr_name e) in
        if \<not> IsLocal (hdr_name e) then (None, fs)
        else case hdr_typeflag e of
          TypeDir \<Rightarrow>
            (case MkdirAll target fs of (r, fs1) \<Rightarrow> (wrap ''cannot create directory %q: %w'' [target] r, fs1))
        | TypeReg \<Rightarrow> extract_file target e fs
        | TypeSymlink \<Rightarrow> extract_link target e fs
        | OtherType \<Rightarrow> (None, fs))"

fun extract_entries :: "string \<Rightarrow> tar_entry list \<Rightarrow> string option \<Rightarrow> fs \<Rightarrow> err option \<times> fs" where
  "extract_entries destDir [] ending fs = (wrap ''cannot read tar entry: %w'' [] ending, fs)"
| "extract_entries destDir (e # es) ending fs =
     (case extract_entry destDir e fs of
        (Some x, fs1) \<Rightarrow> (Some x, fs1)
      | (None, fs1) \<Rightarrow> extract_entries destDir es ending fs1)"

text \<open>
  What opening an uploaded file gives: the error of \<open>os.Open\<close>, the error of the gzip reader, or the archive, of which
  \<open>ending\<close> is the error of the reader after the entries, if any.
\<close>

datatype tarball = OpenError string | GzipError string | Tar "tar_entry list" "string option"

fun extractTarball :: "tarball \<Rightarrow> string \<Rightarrow> fs \<Rightarrow> err option \<times> fs" where
  "extractTarball (OpenError x) destDir fs = (Some (''cannot open tarball: %w'', [x]), fs)"
| "extractTarball (GzipError x) destDir fs = (Some (''cannot create gzip reader: %w'', [x]), fs)"
| "extractTarball (Tar es ending) destDir fs = extract_entries destDir es ending fs"

subsection \<open>What is written stays below the destination\<close>

text \<open>No symbolic link on the way to the destination or below it.\<close>

definition link_free :: "string list \<Rightarrow> fs \<Rightarrow> bool" where
  "link_free d fs \<longleftrightarrow> (\<forall>p t. fmlookup fs p = Some (LinkNode t) \<longrightarrow> \<not> prefix p d \<and> \<not> prefix d p)"

definition dir_chain :: "string list \<Rightarrow> fs \<Rightarrow> bool" where
  "dir_chain d fs \<longleftrightarrow> (\<forall>p. prefix p d \<longrightarrow> node_at fs p = Some DirNode)"

text \<open>The entries that are not below the destination are the same.\<close>

definition same_outside :: "string list \<Rightarrow> fs \<Rightarrow> fs \<Rightarrow> bool" where
  "same_outside d fs fs' \<longleftrightarrow> (\<forall>p. \<not> strict_prefix d p \<longrightarrow> fmlookup fs' p = fmlookup fs p)"

definition confined :: "string list \<Rightarrow> fs \<Rightarrow> fs \<Rightarrow> bool" where
  "confined d fs fs' \<longleftrightarrow> same_outside d fs fs' \<and> link_free d fs'"

lemma confined_refl: "link_free d fs \<Longrightarrow> confined d fs fs"
  by (simp add: confined_def same_outside_def)

lemma confined_trans: "confined d fs fs1 \<Longrightarrow> confined d fs1 fs2 \<Longrightarrow> confined d fs fs2"
  by (simp add: confined_def same_outside_def)

lemma confined_dir_chain: "confined d fs fs' \<Longrightarrow> dir_chain d fs \<Longrightarrow> dir_chain d fs'"
  by (auto simp: confined_def same_outside_def dir_chain_def node_at_def)

lemma confined_upd:
  assumes "link_free d fs" "strict_prefix d p" "\<forall>t. x \<noteq> LinkNode t"
  shows "confined d fs (fmupd p x fs)"
  using assms by (auto simp: confined_def same_outside_def link_free_def)

text \<open>Without links a walk ends where it says, or fails.\<close>

lemma walk_plain:
  assumes "link_free d fs" "\<forall>c \<in> set cs. plain_part c" "prefix (cur @ cs) d \<or> prefix d cur \<or> (prefix cur d \<and> prefix d (cur @ cs))"
    and "walk n fs cur cs = Some q"
  shows "q = cur @ cs"
  using assms(2-4)
proof (induction cs arbitrary: cur)
  case (Cons c cs)
  have np: "prefix (cur @ [c]) d \<or> prefix d (cur @ [c])"
  proof -
    have "prefix (cur @ [c]) (cur @ c # cs)" by simp
    with Cons.prems(2) show ?thesis
      by (metis prefix_order.trans prefix_same_cases append_prefixD prefix_append)
  qed
  with assms(1) have nl: "fmlookup fs (cur @ [c]) \<noteq> Some (LinkNode t)" for t by (auto simp: link_free_def)
  have c: "c \<noteq> ''..''" using Cons.prems(1) by (auto simp: plain_part_def)
  show ?case
  proof (cases "fmlookup fs (cur @ [c]) = Some DirNode")
    case True
    with Cons.prems(3) c have "walk n fs (cur @ [c]) cs = Some q" by simp
    moreover have "prefix ((cur @ [c]) @ cs) d \<or> prefix d (cur @ [c]) \<or> (prefix (cur @ [c]) d \<and> prefix d ((cur @ [c]) @ cs))"
      using np Cons.prems(2) by auto
    ultimately show ?thesis using Cons.IH [of "cur @ [c]"] Cons.prems(1) by simp
  next
    case False
    with Cons.prems(3) c nl show ?thesis
      by (auto split: option.splits node.splits if_splits)
  qed
qed simp

lemma walk_below:
  assumes "link_free d fs" "\<forall>c \<in> set p. plain_part c" "prefix d p \<or> prefix p d" "walk n fs [] p = Some q"
  shows "q = p"
  using walk_plain [OF assms(1,2), of "[]"] assms(3,4) by auto

lemma walk_dirs:
  assumes "dir_chain d fs" "\<forall>c \<in> set cs. plain_part c" "prefix (cur @ cs) d"
  shows "walk n fs cur cs = Some (cur @ cs)"
  using assms(2,3)
proof (induction cs arbitrary: cur)
  case (Cons c cs)
  then have "node_at fs (cur @ [c]) = Some DirNode" "c \<noteq> ''..''"
    using assms(1) by (auto simp: dir_chain_def plain_part_def prefix_def)
  with Cons.IH [of "cur @ [c]"] Cons.prems show ?case by (simp add: node_at_def)
qed simp

lemma make_node_confined:
  assumes "link_free d fs" "\<forall>c \<in> set p. plain_part c" "strict_prefix d p" "\<forall>t. x \<noteq> LinkNode t"
  shows "confined d fs (snd (make_node x p fs))"
proof -
  from assms(3) have p: "p \<noteq> []" "prefix d (butlast p)"
    by (auto simp: strict_prefix_def prefix_def) (metis append_is_Nil_conv butlast_append)
  then have "walk max_links fs [] (butlast p) = Some q \<Longrightarrow> q = butlast p" for q
    using walk_below [OF assms(1)] assms(2) by (meson in_set_butlastD)
  then show ?thesis
    using confined_refl [OF assms(1)] confined_upd [OF assms(1,3,4)] p(1)
    by (auto simp: make_node_def split: option.splits)
qed

text \<open>Directories are only made below the destination, as it is there already.\<close>

lemma mkdir_all_confined:
  assumes "link_free d fs" "dir_chain d fs" "\<forall>c \<in> set rcs. plain_part c" "prefix d (rev rcs) \<or> prefix (rev rcs) d"
  shows "confined d fs (snd (mkdir_all rcs fs))"
  using assms(3,4)
proof (induction rcs)
  case Nil
  then show ?case using confined_refl [OF assms(1)] by simp
next
  case (Cons c rcs)
  let ?p = "rev (c # rcs)"
  show ?case
  proof (cases "stat fs ?p")
    case (Some x)
    then show ?thesis using confined_refl [OF assms(1)] by (cases x) auto
  next
    case None
    have sp: "strict_prefix d ?p"
    proof (rule ccontr)
      assume "\<not> strict_prefix d ?p"
      with Cons.prems(2) have "prefix ?p d" by (auto simp: strict_prefix_def)
      with walk_dirs [OF assms(2), of ?p "[]"] Cons.prems(1) assms(2) None show False
        by (auto simp: stat_def dir_chain_def)
    qed
    then have pre: "prefix d (rev rcs)" by (auto simp: strict_prefix_def)
    with Cons have c1: "confined d fs (snd (mkdir_all rcs fs))" by simp
    then have "link_free d (snd (mkdir_all rcs fs))" by (simp add: confined_def)
    from make_node_confined [OF this _ sp, of DirNode] Cons.prems(1)
    have "confined d (snd (mkdir_all rcs fs)) (snd (make_node DirNode ?p (snd (mkdir_all rcs fs))))" by auto
    from confined_trans [OF c1 this] c1 None show ?thesis by (auto split: prod.splits option.splits)
  qed
qed

lemma OpenFile_confined:
  assumes "link_free d fs" "dir_chain d fs" "\<forall>c \<in> set (parts p). plain_part c" "prefix d (parts p)"
  shows "confined d fs (snd (OpenFile p fs))" "fst (OpenFile p fs) = Inr q \<Longrightarrow> q = parts p \<and> strict_prefix d q"
proof -
  have w: "walk max_links fs [] (parts p) = Some q \<Longrightarrow> q = parts p" for q
    using walk_below [OF assms(1,3)] assms(4) by blast
  have s: "node_at fs (parts p) \<noteq> Some DirNode \<Longrightarrow> strict_prefix d (parts p)"
    using assms(2,4) by (auto simp: dir_chain_def strict_prefix_def)
  show "confined d fs (snd (OpenFile p fs))"
    using w s confined_refl [OF assms(1)] confined_upd [OF assms(1)]
    by (auto simp: OpenFile_def split: option.splits node.splits)
  show "fst (OpenFile p fs) = Inr q \<Longrightarrow> q = parts p \<and> strict_prefix d q"
    using w s by (auto simp: OpenFile_def split: option.splits node.splits if_splits)
qed

text \<open>A destination as \<open>tempDir\<close> makes it: an absolute path without dots.\<close>

definition clean_abs :: "string \<Rightarrow> bool" where
  "clean_abs d \<longleftrightarrow> IsAbs d \<and> clean_parts True [] (parts d) = parts d"

lemma target_below:
  assumes "clean_abs destDir" "IsLocal name"
  shows "prefix (parts destDir) (parts (Join destDir name))" "\<forall>c \<in> set (parts (Join destDir name)). plain_part c"
    "parts (Dir (Join destDir name)) = butlast (parts (Join destDir name))"
proof -
  from assms(1) have d: "IsAbs destDir" "clean_parts True [] (parts destDir) = parts destDir" by (simp_all add: clean_abs_def)
  show "prefix (parts destDir) (parts (Join destDir name))" using Join_local(1) [OF d assms(2)] by simp
  show plain: "\<forall>c \<in> set (parts (Join destDir name)). plain_part c" by (rule Join_local(3) [OF d assms(2)])
  have "Join destDir name = slash # join_with slash (parts (Join destDir name))"
    using Join_abs [OF d(1)] .
  with plain show "parts (Dir (Join destDir name)) = butlast (parts (Join destDir name))" by (metis parts_Dir)
qed

lemma MkdirAll_confined:
  assumes "link_free d fs" "dir_chain d fs" "\<forall>c \<in> set (parts p). plain_part c" "prefix d (parts p) \<or> prefix (parts p) d"
  shows "confined d fs (snd (MkdirAll p fs))"
  using mkdir_all_confined [of d fs "rev (parts p)"] assms by (simp add: MkdirAll_def)

lemma extract_file_confined:
  assumes "link_free (parts destDir) fs" "dir_chain (parts destDir) fs" "clean_abs destDir" "IsLocal name"
  shows "confined (parts destDir) fs (snd (extract_file (Join destDir name) e fs))"
proof -
  let ?d = "parts destDir" and ?t = "Join destDir name"
  note below = target_below [OF assms(3,4)]
  have "prefix ?d (butlast (parts ?t)) \<or> prefix (butlast (parts ?t)) ?d"
    using below(1) by (metis prefix_same_cases prefixeq_butlast)
  with MkdirAll_confined [OF assms(1,2), of "Dir ?t"] below
  have 1: "confined ?d fs (snd (MkdirAll (Dir ?t) fs))" by (metis in_set_butlastD)
  then have l1: "link_free ?d (snd (MkdirAll (Dir ?t) fs))" and d1: "dir_chain ?d (snd (MkdirAll (Dir ?t) fs))"
    using confined_dir_chain assms(2) by (auto simp: confined_def)
  note 2 = OpenFile_confined [OF l1 d1 below(2,1)]
  from confined_trans [OF 1 2(1)] have 3: "confined ?d fs (snd (OpenFile ?t (snd (MkdirAll (Dir ?t) fs))))" .
  then have l3: "link_free ?d (snd (OpenFile ?t (snd (MkdirAll (Dir ?t) fs))))" by (simp add: confined_def)
  from confined_trans [OF 3 confined_upd [OF l3]] 1 2(2) 3 show ?thesis
    by (auto simp: extract_file_def split: prod.splits option.splits sum.splits)
qed

lemma extract_entry_confined:
  assumes "link_free (parts destDir) fs" "dir_chain (parts destDir) fs" "clean_abs destDir" "hdr_typeflag e \<noteq> TypeSymlink"
  shows "confined (parts destDir) fs (snd (extract_entry destDir e fs))"
proof (cases "skipped e")
  case True
  then show ?thesis using confined_refl [OF assms(1)] by (auto simp: extract_entry_def skipped_def Let_def)
next
  case False
  then have l: "IsLocal (hdr_name e)" "\<not> IsAbs (hdr_name e)" by (simp_all add: skipped_def)
  note below = target_below [OF assms(3) l(1)]
  show ?thesis
  proof (cases "hdr_typeflag e")
    case TypeDir
    with MkdirAll_confined [OF assms(1,2) below(2)] below(1) l show ?thesis
      by (auto simp: extract_entry_def Let_def split: prod.splits)
  next
    case TypeReg
    with extract_file_confined [OF assms(1-3) l(1)] l show ?thesis by (simp add: extract_entry_def Let_def)
  qed (use assms(4) l confined_refl [OF assms(1)] in \<open>auto simp: extract_entry_def Let_def\<close>)
qed

lemma extract_entries_confined:
  assumes "link_free (parts destDir) fs" "dir_chain (parts destDir) fs" "clean_abs destDir"
    and "\<forall>e \<in> set es. hdr_typeflag e \<noteq> TypeSymlink"
  shows "confined (parts destDir) fs (snd (extract_entries destDir es ending fs))"
  using assms(1,2,4)
proof (induction es arbitrary: fs)
  case (Cons e es)
  have 1: "confined (parts destDir) fs (snd (extract_entry destDir e fs))"
    using extract_entry_confined [OF Cons.prems(1,2) assms(3)] Cons.prems(3) by simp
  then have "confined (parts destDir) (snd (extract_entry destDir e fs)) (snd (extract_entries destDir es ending (snd (extract_entry destDir e fs))))"
    using Cons.IH confined_dir_chain Cons.prems(2,3) by (auto simp: confined_def)
  from confined_trans [OF 1 this] 1 show ?case by (auto split: prod.splits option.splits)
qed (simp add: confined_refl)

subsection \<open>An archive of files is unpacked\<close>

text \<open>Below the destination there are only directories and files, each in a directory.\<close>

definition plain_tree :: "string list \<Rightarrow> fs \<Rightarrow> bool" where
  "plain_tree d fs \<longleftrightarrow> dir_chain d fs \<and> link_free d fs \<and>
     (\<forall>p x. strict_prefix d p \<longrightarrow> fmlookup fs p = Some x \<longrightarrow> node_at fs (butlast p) = Some DirNode)"

lemma strict_prefix_butlast: "strict_prefix d p \<Longrightarrow> prefix d (butlast p)"
  by (auto simp: strict_prefix_def prefix_def) (metis append_is_Nil_conv butlast_append)

lemma plain_tree_dirs:
  assumes "plain_tree d fs" "node_at fs p = Some DirNode" "prefix d p"
  shows "dir_chain p fs"
  using assms(2,3)
proof (induction p rule: rev_induct)
  case Nil
  then show ?case by (simp add: dir_chain_def)
next
  case (snoc c p)
  show ?case
  proof (cases "prefix d p")
    case True
    with assms(1) snoc.prems have "node_at fs p = Some DirNode"
      by (auto simp: plain_tree_def node_at_def strict_prefix_def dest: spec [of _ "p @ [c]"])
    with snoc True show ?thesis by (auto simp: dir_chain_def)
  next
    case False
    with snoc.prems have "d = p @ [c]" by simp
    with assms(1) show ?thesis by (simp add: plain_tree_def)
  qed
qed

lemma plain_tree_upd:
  assumes "plain_tree d fs" "strict_prefix d p" "node_at fs (butlast p) = Some DirNode" "\<forall>t. x \<noteq> LinkNode t"
    and "x = DirNode \<or> fmlookup fs p \<noteq> Some DirNode"
  shows "plain_tree d (fmupd p x fs)"
proof -
  have p: "p \<noteq> []" "\<not> prefix p d" using assms(2) by (auto simp: strict_prefix_def)
  have "node_at (fmupd p x fs) (butlast q) = Some DirNode" if "strict_prefix d q" "fmlookup (fmupd p x fs) q = Some y" for q y
  proof (cases "q = p")
    case True
    have "butlast p \<noteq> p" using p(1) by (metis append_butlast_last_id not_Cons_self2 append_self_conv)
    then have "node_at (fmupd p x fs) (butlast p) = node_at fs (butlast p)" by (auto simp: node_at_def)
    with True assms(3) show ?thesis by simp
  next
    case False
    with that assms(1) have "node_at fs (butlast q) = Some DirNode" by (auto simp: plain_tree_def)
    with assms(5) p(1) show ?thesis by (auto simp: node_at_def)
  qed
  moreover from assms(1) p have "dir_chain d (fmupd p x fs)" by (auto simp: plain_tree_def dir_chain_def node_at_def)
  moreover from assms(1,4) p have "link_free d (fmupd p x fs)" by (auto simp: plain_tree_def link_free_def)
  ultimately show ?thesis by (simp add: plain_tree_def)
qed

text \<open>Where no file is in the way \<open>MkdirAll\<close> makes what is missing.\<close>

lemma mkdir_all_makes:
  assumes "plain_tree d fs" "\<forall>c \<in> set rcs. plain_part c" "prefix d (rev rcs)"
    and "\<forall>p. strict_prefix d p \<longrightarrow> prefix p (rev rcs) \<longrightarrow> fmlookup fs p \<in> {None, Some DirNode}"
  shows "\<exists>fs1. mkdir_all rcs fs = (None, fs1) \<and> plain_tree d fs1 \<and> dir_chain (rev rcs) fs1 \<and>
    (\<forall>p. fmlookup fs1 p = (if strict_prefix d p \<and> prefix p (rev rcs) then Some DirNode else fmlookup fs p))"
  using assms(2-4)
proof (induction rcs)
  case Nil
  with assms(1) show ?case by (auto simp: dir_chain_def node_at_def)
next
  case (Cons c rcs)
  let ?p = "rev (c # rcs)"
  have links: "link_free d fs" "dir_chain d fs" using assms(1) by (simp_all add: plain_tree_def)
  have plain: "\<forall>c \<in> set ?p. plain_part c" using Cons.prems(1) by auto
  show ?case
  proof (cases "node_at fs ?p = Some DirNode")
    case True
    then have ch: "dir_chain ?p fs" using plain_tree_dirs [OF assms(1) _ Cons.prems(2)] by simp
    with walk_dirs [OF ch plain, of "[]"] True have "stat fs ?p = Some DirNode" by (simp add: stat_def)
    moreover have "fmlookup fs q = Some DirNode" if "strict_prefix d q" "prefix q ?p" for q
    proof -
      have "q \<noteq> []" using that(1) by auto
      with ch that(2) show ?thesis unfolding dir_chain_def node_at_def by metis
    qed
    ultimately show ?thesis using assms(1) ch by (intro exI [of _ fs]) auto
  next
    case False
    with links(2) Cons.prems(2) have sp: "strict_prefix d ?p" by (auto simp: strict_prefix_def dir_chain_def)
    with False Cons.prems(3) have none: "fmlookup fs ?p = None" by (auto simp: node_at_def)
    have "walk max_links fs [] ?p = Some q \<Longrightarrow> q = ?p" for q
      using walk_below [OF links(1) plain] Cons.prems(2) by blast
    with none have st: "stat fs ?p = None" by (auto simp: stat_def node_at_def split: option.split)
    from sp have "prefix d (rev rcs)" using strict_prefix_butlast [OF sp] by simp
    with Cons obtain fs1 where fs1: "mkdir_all rcs fs = (None, fs1)" "plain_tree d fs1" "dir_chain (rev rcs) fs1"
      "\<And>p. fmlookup fs1 p = (if strict_prefix d p \<and> prefix p (rev rcs) then Some DirNode else fmlookup fs p)"
      by auto
    have none1: "fmlookup fs1 ?p = None" using none by (simp add: fs1(4) prefix_def)
    have w: "walk max_links fs1 [] (rev rcs) = Some (rev rcs)"
      using walk_dirs [OF fs1(3), of "rev rcs" "[]"] Cons.prems(1) by simp
    have dir: "node_at fs1 (rev rcs) = Some DirNode" using fs1(3) by (simp add: dir_chain_def)
    have m: "make_node DirNode ?p fs1 = (None, fmupd ?p DirNode fs1)"
      using w dir none1 by (simp add: make_node_def)
    have "plain_tree d (fmupd ?p DirNode fs1)"
      by (rule plain_tree_upd [OF fs1(2) sp]) (use dir in simp_all)
    moreover have "dir_chain ?p (fmupd ?p DirNode fs1)"
      using fs1(3) by (auto simp: dir_chain_def node_at_def)
    moreover have "fmlookup (fmupd ?p DirNode fs1) q =
        (if strict_prefix d q \<and> prefix q ?p then Some DirNode else fmlookup fs q)" for q
      using sp by (auto simp: fs1(4))
    ultimately show ?thesis using st fs1(1) m by auto
  qed
qed

lemma walk_new:
  assumes "dir_chain (cur @ cs) fs" "\<forall>c \<in> set (cs @ [c]). plain_part c" "fmlookup fs (cur @ cs @ [c]) = None"
  shows "walk n fs cur (cs @ [c]) = Some (cur @ cs @ [c])"
  using assms
proof (induction cs arbitrary: cur)
  case Nil
  then show ?case by (simp add: plain_part_def)
next
  case (Cons a cs)
  then have "node_at fs (cur @ [a]) = Some DirNode" "a \<noteq> ''..''"
    by (auto simp: dir_chain_def plain_part_def prefix_def)
  with Cons.IH [of "cur @ [a]"] Cons.prems show ?case by (simp add: node_at_def)
qed

definition target :: "string \<Rightarrow> tar_entry \<Rightarrow> string list" where
  "target destDir e = parts (Join destDir (hdr_name e))"

text \<open>The destination after the files of \<open>es\<close> were extracted into it.\<close>

definition unpacked :: "string \<Rightarrow> tar_entry list \<Rightarrow> fs \<Rightarrow> bool" where
  "unpacked destDir es fs \<longleftrightarrow> plain_tree (parts destDir) fs \<and>
     (\<forall>e \<in> set es. fmlookup fs (target destDir e) = Some (FileNode (tar_content e))) \<and>
     (\<forall>p x. strict_prefix (parts destDir) p \<longrightarrow> fmlookup fs p = Some x \<longrightarrow>
        (\<exists>e \<in> set es. p = target destDir e \<or> x = DirNode \<and> strict_prefix p (target destDir e)))"

definition plain_file :: "string \<Rightarrow> tar_entry \<Rightarrow> bool" where
  "plain_file destDir e \<longleftrightarrow> hdr_typeflag e = TypeReg \<and> \<not> skipped e \<and> tar_content_err e = None \<and>
     target destDir e \<noteq> parts destDir"

lemma extract_file_unpacks:
  assumes d: "clean_abs destDir" and u: "unpacked destDir es fs" and e: "plain_file destDir e"
    and apart: "\<forall>e' \<in> set es. \<not> prefix (target destDir e) (target destDir e') \<and> \<not> prefix (target destDir e') (target destDir e)"
  shows "\<exists>fs'. extract_entry destDir e fs = (None, fs') \<and> unpacked destDir (es @ [e]) fs'"
proof -
  let ?D = "parts destDir" and ?T = "target destDir e" and ?p = "Join destDir (hdr_name e)"
  from e have l: "IsLocal (hdr_name e)" "\<not> IsAbs (hdr_name e)" by (simp_all add: plain_file_def skipped_def)
  note below = target_below [OF d l(1), folded target_def]
  have sp: "strict_prefix ?D ?T" using below(1) e by (auto simp: plain_file_def strict_prefix_def)
  then obtain ps c where T: "?T = ps @ [c]" by (cases ?T rule: rev_cases) auto
  have tree: "plain_tree ?D fs" using u by (simp add: unpacked_def)
  have free: "fmlookup fs q \<in> {None, Some DirNode}" if "strict_prefix ?D q" "prefix q (rev (rev ps))" for q
  proof (cases "fmlookup fs q")
    case (Some x)
    with u that(1) obtain e' where "e' \<in> set es" "q = target destDir e' \<or> x = DirNode"
      unfolding unpacked_def by blast
    moreover have "prefix q ?T" using that(2) T by simp
    ultimately show ?thesis using apart Some by auto
  qed simp
  have "prefix ?D ps" using strict_prefix_butlast [OF sp] T by simp
  with mkdir_all_makes [OF tree, of "rev ps"] below(2) T free obtain fs1 where
    fs1: "mkdir_all (rev ps) fs = (None, fs1)" "plain_tree ?D fs1" "dir_chain ps fs1"
      "\<And>q. fmlookup fs1 q = (if strict_prefix ?D q \<and> prefix q ps then Some DirNode else fmlookup fs q)"
    by auto
  have mk: "MkdirAll (Dir ?p) fs = (None, fs1)" using fs1(1) below(3) T by (simp add: MkdirAll_def)
  have "fmlookup fs ?T = None"
  proof (rule ccontr)
    assume "fmlookup fs ?T \<noteq> None"
    with u sp obtain e' where "e' \<in> set es" "?T = target destDir e' \<or> strict_prefix ?T (target destDir e')"
      unfolding unpacked_def by blast
    with apart show False by (auto simp: strict_prefix_def)
  qed
  then have none: "fmlookup fs1 ?T = None" using T by (simp add: fs1(4) prefix_def)
  have "walk max_links fs1 [] (parts ?p) = Some ?T"
    using walk_new [of "[]" ps fs1 c] fs1(3) below(2) none T by (simp add: target_def)
  moreover have dir: "node_at fs1 (butlast ?T) = Some DirNode" using fs1(3) T by (simp add: dir_chain_def)
  ultimately have op: "OpenFile ?p fs1 = (Inr ?T, fmupd ?T (FileNode []) fs1)"
    using none sp by (auto simp: OpenFile_def node_at_def split: if_splits)
  let ?fs2 = "fmupd ?T (FileNode (tar_content e)) fs1"
  have ex: "extract_entry destDir e fs = (None, ?fs2)"
    using l e mk op by (auto simp: extract_entry_def extract_file_def plain_file_def wrap_def Let_def)
  have "plain_tree ?D ?fs2" by (rule plain_tree_upd [OF fs1(2) sp dir]) (simp_all add: none)
  moreover have "fmlookup ?fs2 (target destDir e') = Some (FileNode (tar_content e'))" if "e' \<in> set (es @ [e])" for e'
  proof (cases "e' = e")
    case False
    with that have e': "e' \<in> set es" by simp
    with apart have "target destDir e' \<noteq> ?T" "\<not> prefix (target destDir e') ps" using T by (auto simp: prefix_def)
    with u e' show ?thesis by (simp add: fs1(4) unpacked_def)
  qed simp
  moreover have "\<exists>e' \<in> set (es @ [e]). q = target destDir e' \<or> x = DirNode \<and> strict_prefix q (target destDir e')"
    if q: "strict_prefix ?D q" "fmlookup ?fs2 q = Some x" for q x
  proof (cases "q = ?T")
    case False
    show ?thesis
    proof (cases "prefix q ps")
      case True
      then have "strict_prefix q ?T" using T by (auto simp: strict_prefix_def)
      with q False True show ?thesis by (auto simp: fs1(4))
    next
      case no: False
      with q False have "fmlookup fs q = Some x" by (simp add: fs1(4))
      with u q(1) obtain e' where "e' \<in> set es" "q = target destDir e' \<or> x = DirNode \<and> strict_prefix q (target destDir e')"
        unfolding unpacked_def by blast
      then show ?thesis by auto
    qed
  qed simp
  ultimately have "unpacked destDir (es @ [e]) ?fs2" unfolding unpacked_def by blast
  with ex show ?thesis by blast
qed

lemma extract_entries_unpack:
  assumes "clean_abs destDir" "unpacked destDir done fs" "\<forall>e \<in> set es. plain_file destDir e"
    and "sorted_wrt (\<lambda>e e'. \<not> prefix (target destDir e) (target destDir e') \<and> \<not> prefix (target destDir e') (target destDir e)) (done @ es)"
  shows "\<exists>fs'. extract_entries destDir es None fs = (None, fs') \<and> unpacked destDir (done @ es) fs'"
  using assms(2-4)
proof (induction es arbitrary: "done" fs)
  case (Cons e es)
  from Cons.prems(3) have "\<forall>e' \<in> set done. \<not> prefix (target destDir e) (target destDir e') \<and> \<not> prefix (target destDir e') (target destDir e)"
    by (auto simp: sorted_wrt_append)
  from extract_file_unpacks [OF assms(1) Cons.prems(1) _ this] Cons.prems(2) obtain fs1 where
    1: "extract_entry destDir e fs = (None, fs1)" "unpacked destDir (done @ [e]) fs1" by auto
  from Cons.IH [OF 1(2)] Cons.prems(2,3) show ?case by (simp add: 1(1))
qed (simp add: wrap_def)

subsection \<open>Properties\<close>

text \<open>
  C29: The extraction of an archive without symbolic links, into a directory that has none on the way to it or below it,
  changes nothing that is not below that directory, whatever the names in the archive and however it ends.
\<close>

theorem extraction_confined:
  assumes "clean_abs destDir" "dir_chain (parts destDir) fs" "link_free (parts destDir) fs"
    and "\<forall>e \<in> set es. hdr_typeflag e \<noteq> TypeSymlink"
    and "extractTarball (Tar es ending) destDir fs = (r, fs')" "\<not> strict_prefix (parts destDir) p"
  shows "fmlookup fs' p = fmlookup fs p"
  using extract_entries_confined [OF assms(3,2,1,4), of ending] assms(5,6)
  by (auto simp: confined_def same_outside_def)

definition file_entry :: "string \<Rightarrow> string \<Rightarrow> tar_entry" where
  "file_entry name content =
     \<lparr>hdr_name = name, hdr_typeflag = TypeReg, hdr_linkname = [], tar_content = content, tar_content_err = None\<rparr>"

definition link_entry :: "string \<Rightarrow> string \<Rightarrow> tar_entry" where
  "link_entry name old =
     \<lparr>hdr_name = name, hdr_typeflag = TypeSymlink, hdr_linkname = old, tar_content = [], tar_content_err = None\<rparr>"

definition sample_dirs :: fs where
  "sample_dirs = fmap_of_list [([''t''], DirNode), ([''t'', ''1''], DirNode), ([''etc''], DirNode), ([''etc'', ''passwd''], FileNode ''root'')]"

lemma sample_dirs_ok: "clean_abs ''/t/1''" "parts ''/t/1'' = [''t'', ''1'']" "dir_chain [''t'', ''1''] sample_dirs"
  "link_free [''t'', ''1''] sample_dirs"
  by (auto simp: clean_abs_def IsAbs_def parts_def dir_chain_def sample_dirs_def node_at_def link_free_def fmlookup_of_list
    prefix_Cons split: if_splits)

theorem extraction_confined_witness:
  "fmlookup (snd (extractTarball (Tar [file_entry ''../../etc/passwd'' ''x'', file_entry ''a/../b'' ''y''] (Some ''unexpected EOF''))
      ''/t/1'' sample_dirs)) [''etc'', ''passwd''] = Some (FileNode ''root'')"
proof -
  have p: "\<not> strict_prefix (parts ''/t/1'') [''etc'', ''passwd'']" by (simp add: sample_dirs_ok(2))
  have "fmlookup (snd (extractTarball (Tar [file_entry ''../../etc/passwd'' ''x'', file_entry ''a/../b'' ''y''] (Some ''unexpected EOF''))
      ''/t/1'' sample_dirs)) [''etc'', ''passwd''] = fmlookup sample_dirs [''etc'', ''passwd'']"
    by (rule extraction_confined [OF sample_dirs_ok(1) _ _ _ surjective_pairing p, unfolded sample_dirs_ok(2)])
      (simp_all add: sample_dirs_ok file_entry_def)
  then show ?thesis by (simp add: sample_dirs_def fmlookup_of_list)
qed

text \<open>
  C30: An archive of regular files with local names, none of them the directory of another, is unpacked
  into an empty directory: the extraction succeeds, every file is there with its content, and below the
  destination there is nothing else but the directories of the files.
\<close>

theorem archive_unpacked:
  assumes "clean_abs destDir" "dir_chain (parts destDir) fs" "link_free (parts destDir) fs"
    and "\<forall>p. strict_prefix (parts destDir) p \<longrightarrow> fmlookup fs p = None"
    and "\<forall>e \<in> set es. plain_file destDir e"
    and "sorted_wrt (\<lambda>e e'. \<not> prefix (target destDir e) (target destDir e') \<and> \<not> prefix (target destDir e') (target destDir e)) es"
  shows "\<exists>fs'. extractTarball (Tar es None) destDir fs = (None, fs') \<and>
    (\<forall>e \<in> set es. fmlookup fs' (target destDir e) = Some (FileNode (tar_content e))) \<and>
    (\<forall>p x. strict_prefix (parts destDir) p \<longrightarrow> fmlookup fs' p = Some x \<longrightarrow>
       (\<exists>e \<in> set es. p = target destDir e \<or> x = DirNode \<and> strict_prefix p (target destDir e)))"
proof -
  have "unpacked destDir [] fs" using assms(2-4) by (auto simp: unpacked_def plain_tree_def)
  from extract_entries_unpack [OF assms(1) this assms(5)] assms(6) obtain fs' where
    "extract_entries destDir es None fs = (None, fs')" "unpacked destDir es fs'" by auto
  then show ?thesis by (auto simp: unpacked_def)
qed

theorem archive_unpacked_witness:
  "\<exists>fs'. extractTarball (Tar [file_entry ''snap/a'' ''x'', file_entry ''./b/../c'' ''y''] None) ''/t/1'' sample_dirs = (None, fs') \<and>
    fmlookup fs' [''t'', ''1'', ''snap'', ''a''] = Some (FileNode ''x'') \<and> fmlookup fs' [''t'', ''1'', ''c''] = Some (FileNode ''y'') \<and>
    fmlookup fs' [''t'', ''1'', ''b''] = None"
proof -
  let ?es = "[file_entry ''snap/a'' ''x'', file_entry ''./b/../c'' ''y'']"
  have t: "target ''/t/1'' (file_entry ''snap/a'' ''x'') = [''t'', ''1'', ''snap'', ''a'']"
    "target ''/t/1'' (file_entry ''./b/../c'' ''y'') = [''t'', ''1'', ''c'']"
    by (simp_all add: target_def file_entry_def Join_def Clean_def IsAbs_def parts_def Let_def)
  have e: "\<forall>p. strict_prefix (parts ''/t/1'') p \<longrightarrow> fmlookup sample_dirs p = None"
    by (auto simp: sample_dirs_ok(2) sample_dirs_def fmlookup_of_list split: if_splits)
  have f: "\<forall>e \<in> set ?es. plain_file ''/t/1'' e"
    using t by (simp add: plain_file_def file_entry_def skipped_def IsLocal_def IsAbs_def sample_dirs_ok(2) Clean_def Let_def)
  from archive_unpacked [OF sample_dirs_ok(1) _ _ e f] obtain fs' where
    "extractTarball (Tar ?es None) ''/t/1'' sample_dirs = (None, fs')"
    "\<forall>e \<in> set ?es. fmlookup fs' (target ''/t/1'' e) = Some (FileNode (tar_content e))"
    "\<forall>p x. strict_prefix (parts ''/t/1'') p \<longrightarrow> fmlookup fs' p = Some x \<longrightarrow>
       (\<exists>e \<in> set ?es. p = target ''/t/1'' e \<or> x = DirNode \<and> strict_prefix p (target ''/t/1'' e))"
    by (auto simp: sample_dirs_ok t)
  moreover from this(3) have "fmlookup fs' [''t'', ''1'', ''b''] = None"
    by (cases "fmlookup fs' [''t'', ''1'', ''b'']") (auto simp: sample_dirs_ok(2) t dest: spec [of _ "[''t'', ''1'', ''b'']"])
  ultimately show ?thesis using t by (auto simp: file_entry_def)
qed

text \<open>
  A symbolic link is made as the archive has it, and later entries are written through it: an archive can
  replace any file.
\<close>

lemma extractTarball_through_link:
  "fmlookup (snd (extractTarball (Tar [link_entry ''x'' ''/etc'', file_entry ''x/passwd'' ''mine''] None) ''/t/1'' sample_dirs))
     [''etc'', ''passwd''] = Some (FileNode ''mine'')"
  by code_simp

end
