(* ===== verification/BuildTest.thy ===== *)
theory BuildTest
  imports TaskRunner StatePrune Tarball
begin

text \<open>
  \<open>internals/overlord/buildteststate\<close>: the request that builds an uploaded source and runs its tests, the
  handlers of its two tasks, and what they keep of the output of the commands.  What a command did when it ran, what a
  client sent, and what is in an uploaded file are arguments of the definitions.
\<close>

subsection \<open>Output that is kept\<close>

definition maxOutputSize :: nat where "maxOutputSize = 10 * 1024 * 1024"

text \<open>\<open>limitWriter.Write\<close>: what it reports as written, and the buffer.\<close>

definition limit_Write :: "string \<Rightarrow> string \<Rightarrow> nat \<times> string" where
  "limit_Write p buf =
     (let remaining = int maxOutputSize - int (length buf) in
      if remaining \<le> 0 then (length p, buf)
      else if remaining < int (length p) then (length p, buf @ take (nat remaining) p)
      else (length p, buf @ p))"

definition limit_writes :: "string list \<Rightarrow> string" where
  "limit_writes ps = fold (\<lambda>p buf. snd (limit_Write p buf)) ps []"

definition truncateString :: "string \<Rightarrow> nat \<Rightarrow> string" where
  "truncateString s maxLen = (if length s \<le> maxLen then s else take maxLen s @ ''...'')"

subsection \<open>Running a command\<close>

text \<open>How the context of a command ended: not yet, by its deadline, or cancelled.\<close>

datatype ctx_end = CtxAlive | CtxDeadline | CtxCanceled

record cmd_result =
  cmd_exit :: int
  cmd_stdout :: string
  cmd_stderr :: string
  cmd_error :: "err option"

text \<open>
  What happened to the process: the error of its start, its exit code, what was read of its output until the readers
  stopped, and how its context had ended by then.
\<close>

record proc_run =
  run_start_error :: "string option"
  run_exit :: int
  run_out :: "string list"
  run_err :: "string list"
  run_ctx :: ctx_end

definition ctx_error :: "string \<Rightarrow> ctx_end \<Rightarrow> err option" where
  "ctx_error name c =
     (case c of
        CtxDeadline \<Rightarrow> Some (''%s timed out after %v'', [name, ''context deadline exceeded''])
      | CtxCanceled \<Rightarrow> Some (''%s interrupted'', [name])
      | CtxAlive \<Rightarrow> None)"

definition failed_command :: "err \<Rightarrow> cmd_result" where
  "failed_command e = \<lparr>cmd_exit = -1, cmd_stdout = [], cmd_stderr = [], cmd_error = Some e\<rparr>"

definition runCommandBuffered :: "string \<Rightarrow> proc_run \<Rightarrow> cmd_result" where
  "runCommandBuffered name r =
     (case run_start_error r of
        Some x \<Rightarrow> failed_command (''cannot start %s: %w'', [name, x])
      | None \<Rightarrow>
          \<lparr>cmd_exit = run_exit r, cmd_stdout = limit_writes (run_out r), cmd_stderr = limit_writes (run_err r),
           cmd_error = ctx_error name (run_ctx r)\<rparr>)"

text \<open>The pipes of a streamed command: the error of making them, if any.\<close>

definition runCommandPiped :: "string \<Rightarrow> err option \<Rightarrow> proc_run \<Rightarrow> cmd_result" where
  "runCommandPiped name pipes r =
     (case pipes of Some e \<Rightarrow> failed_command e | None \<Rightarrow> runCommandBuffered name r)"

text \<open>How the wait for the connections of a client ended.\<close>

datatype io_wait = IoConnected | IoTimeout | IoCanceled

definition waitIOConnected :: "string \<Rightarrow> io_wait \<Rightarrow> err option" where
  "waitIOConnected taskID o' =
     (case o' of
        IoConnected \<Rightarrow> None
      | IoTimeout \<Rightarrow> Some (''build-test %s: timeout waiting for websocket connections: %w'', [taskID, ''context deadline exceeded''])
      | IoCanceled \<Rightarrow> Some (''context canceled'', []))"

definition runCommandStreaming :: "string \<Rightarrow> io_wait \<Rightarrow> err option \<Rightarrow> proc_run \<Rightarrow> cmd_result" where
  "runCommandStreaming name o' pipes r =
     (case waitIOConnected name o' of
        None \<Rightarrow> runCommandPiped name pipes r
      | Some _ \<Rightarrow> runCommandBuffered name r)"

text \<open>
  An interactive command: on a terminal its output is one stream; otherwise the errors are apart when their
  websocket is connected, and one stream with the output when not.
\<close>

definition runCommandInteractive :: "string \<Rightarrow> bool \<Rightarrow> bool \<Rightarrow> io_wait \<Rightarrow> err option \<Rightarrow> proc_run \<Rightarrow> cmd_result" where
  "runCommandInteractive name terminal stderrConn o' pipes r =
     (case waitIOConnected name o' of
        Some e \<Rightarrow> failed_command (''build-test %s: cannot start interactive mode, websocket connections not established: %w'', name # snd e)
      | None \<Rightarrow>
          (case pipes of
             Some e \<Rightarrow> failed_command e
           | None \<Rightarrow>
               (case run_start_error r of
                  Some x \<Rightarrow> failed_command (''cannot start %s: %w'', [name, x])
                | None \<Rightarrow>
                    \<lparr>cmd_exit = run_exit r, cmd_stdout = limit_writes (run_out r),
                     cmd_stderr = (if \<not> terminal \<and> stderrConn then limit_writes (run_err r) else []),
                     cmd_error = ctx_error name (run_ctx r)\<rparr>)))"

text \<open>The timeout of \<open>snapcraft clean\<close>, with Go's division of durations.\<close>

definition clean_timeout :: "duration \<Rightarrow> duration" where
  "clean_timeout buildTimeout =
     (let cleanTimeout = 30 * second in
      if 0 < buildTimeout then
        let tenth = buildTimeout div 10;
            cleanTimeout = (if tenth < cleanTimeout then tenth else cleanTimeout)
        in if cleanTimeout < 5 * second then 5 * second else cleanTimeout
      else cleanTimeout)"

definition runCleanCommand :: "proc_run \<Rightarrow> string \<times> string \<times> err option" where
  "runCleanCommand r =
     (let c = runCommandBuffered ''snapcraft'' r in
      (cmd_stdout c, cmd_stderr c,
       if cmd_error c \<noteq> None then cmd_error c
       else if cmd_exit c \<noteq> 0 then Some (''snapcraft clean failed with exit code %d'', [int_string (cmd_exit c)])
       else None))"

subsection \<open>The control websocket\<close>

text \<open>What is read from it: the end of the connection, with whether it was abnormal, a message that is no command, or a command.\<close>

datatype control_input =
    ControlClosed
  | ControlError bool
  | ControlGarbage
  | ControlCommand string "string option" "(int \<times> int) option"

datatype control_action = KillAction int | ResizeAction int int

text \<open>\<open>unix.SignalNum\<close> is an argument: 0 for a name that is no signal.  9 is \<open>SIGKILL\<close>.\<close>

definition control_command :: "(string \<Rightarrow> int) \<Rightarrow> bool \<Rightarrow> string \<Rightarrow> string option \<Rightarrow> (int \<times> int) option \<Rightarrow> control_action list" where
  "control_command SignalNum terminal cmd signal resize =
     (if cmd = ''resize'' \<and> terminal then
        (case resize of None \<Rightarrow> [] | Some (w, h) \<Rightarrow> [ResizeAction w h])
      else if cmd = ''signal'' then
        (case signal of
           None \<Rightarrow> []
         | Some name \<Rightarrow> if SignalNum name = 0 then [] else [KillAction (SignalNum name)])
      else [])"

fun controlLoop :: "(string \<Rightarrow> int) \<Rightarrow> bool \<Rightarrow> control_input list \<Rightarrow> control_action list" where
  "controlLoop SignalNum terminal [] = []"
| "controlLoop SignalNum terminal (i # is) =
     (case i of
        ControlClosed \<Rightarrow> []
      | ControlError abnormal \<Rightarrow> if abnormal then [KillAction 9] else []
      | ControlGarbage \<Rightarrow> controlLoop SignalNum terminal is
      | ControlCommand cmd signal resize \<Rightarrow>
          control_command SignalNum terminal cmd signal resize @ controlLoop SignalNum terminal is)"

subsection \<open>The request\<close>

definition buildTaskKind :: string where "buildTaskKind = ''build-test-build''"
definition runTaskKind :: string where "runTaskKind = ''build-test-run''"
definition BuildEdge :: string where "BuildEdge = ''build''"
definition RunEdge :: string where "RunEdge = ''run''"
definition maxBuildRetries :: nat where "maxBuildRetries = 1"

record build_args =
  ba_SourceTarball :: string
  ba_Timeout :: duration
  ba_Interactive :: bool
  ba_Terminal :: bool
  ba_Width :: int
  ba_Height :: int

record build_setup =
  bs_SourceTarball :: string
  bs_Timeout :: duration
  bs_RetryCount :: nat
  bs_Interactive :: bool
  bs_Terminal :: bool
  bs_Width :: int
  bs_Height :: int

text \<open>A websocket is the name of its connection once there is one.\<close>

record execution =
  ex_taskKind :: string
  ex_interactive :: bool
  ex_terminal :: bool
  ex_width :: int
  ex_height :: int
  ex_websockets :: "(string, string option) fmap"
  ex_ioConnected :: bool
  ex_controlConnected :: bool

text \<open>
  The manager and what it works on: the state, the setups in its cache, the executions made so far, of which the
  manager knows some by their task, the files, and the uploaded archives by their path.
\<close>

record bt_world =
  bt_st :: st
  bt_setups :: "(string, build_setup) fmap"
  bt_heap :: "execution list"
  bt_execs :: "(string, nat) fmap"
  bt_fs :: fs
  bt_uploads :: "(string, tarball) fmap"

datatype bt_fault = BtState fault | BtError err

definition lift_bt :: "fault + 'a \<Rightarrow> bt_fault + 'a" where
  "lift_bt r = (case r of Inl f \<Rightarrow> Inl (BtState f) | Inr x \<Rightarrow> Inr x)"

definition setup_of :: "build_args \<Rightarrow> build_setup" where
  "setup_of a =
     \<lparr>bs_SourceTarball = ba_SourceTarball a, bs_Timeout = ba_Timeout a, bs_RetryCount = 0,
      bs_Interactive = ba_Interactive a, bs_Terminal = ba_Terminal a, bs_Width = ba_Width a, bs_Height = ba_Height a\<rparr>"

definition build_request :: "time \<Rightarrow> build_args \<Rightarrow> bt_world \<Rightarrow> bt_fault + task_set \<times> bt_world" where
  "build_request now args w =
     (if ba_SourceTarball args = [] then Inl (BtError (''must specify source tarball path'', []))
      else
        let (b, s1) = NewTask now buildTaskKind ''Build source with snapcraft'' (bt_st w);
            setups = fmupd b (setup_of args) (bt_setups w);
            (r, s2) = NewTask now runTaskKind ''Run spread tests'' s1
        in and_then (lift_bt (WaitFor r b s2)) (\<lambda>s3.
             Inr (taskset_MarkEdge r RunEdge (taskset_MarkEdge b BuildEdge (NewTaskSet [b, r])),
                  w\<lparr>bt_st := s3, bt_setups := setups\<rparr>)))"

text \<open>The end of \<open>v1PostBuildTest\<close>, from the uploaded file on: the change of the request.\<close>

definition post_build_test :: "time \<Rightarrow> build_args \<Rightarrow> bt_world \<Rightarrow> bt_fault + string \<times> bt_world" where
  "post_build_test now args w =
     and_then (build_request now args w) (\<lambda>(ts, w1).
       and_then (lift_bt (NewChange now ''build-test'' ''Build source and run tests'' (bt_st w1))) (\<lambda>(cid, s1).
         and_then (lift_bt (change_AddAll cid ts s1)) (\<lambda>s2.
           Inr (cid, w1\<lparr>bt_st := ensure_before 0 s2\<rparr>))))"

subsection \<open>Executions\<close>

definition WsBuildStdout :: string where "WsBuildStdout = ''build-stdout''"
definition WsBuildStderr :: string where "WsBuildStderr = ''build-stderr''"
definition WsBuildStdio :: string where "WsBuildStdio = ''build-stdio''"
definition WsBuildControl :: string where "WsBuildControl = ''build-control''"
definition WsRunStdout :: string where "WsRunStdout = ''run-stdout''"
definition WsRunStderr :: string where "WsRunStderr = ''run-stderr''"
definition WsRunStdio :: string where "WsRunStdio = ''run-stdio''"
definition WsRunControl :: string where "WsRunControl = ''run-control''"

definition registerExecution ::
    "string \<Rightarrow> string \<Rightarrow> string list \<Rightarrow> bool \<Rightarrow> bool \<Rightarrow> int \<Rightarrow> int \<Rightarrow> bt_world \<Rightarrow> nat \<times> bt_world" where
  "registerExecution taskID taskKind wsIDs interactive terminal width height w =
     (let e = \<lparr>ex_taskKind = taskKind, ex_interactive = interactive, ex_terminal = terminal, ex_width = width,
               ex_height = height, ex_websockets = fold (\<lambda>x ws. fmupd x None ws) wsIDs fmempty,
               ex_ioConnected = False, ex_controlConnected = False\<rparr>;
          x = length (bt_heap w)
      in (x, w\<lparr>bt_heap := bt_heap w @ [e], bt_execs := fmupd taskID x (bt_execs w)\<rparr>))"

definition unregisterExecution :: "string \<Rightarrow> bt_world \<Rightarrow> bt_world" where
  "unregisterExecution taskID w = w\<lparr>bt_execs := fmdrop taskID (bt_execs w)\<rparr>"

definition getWebsocket :: "string \<Rightarrow> execution \<Rightarrow> string option" where
  "getWebsocket k e = (case fmlookup (ex_websockets e) k of Some c \<Rightarrow> c | None \<Rightarrow> None)"

text \<open>
  \<open>connect\<close> takes the lock twice: it looks whether the websocket is expected and not there yet, and, after
  the upgrade of the connection, puts it in its place.
\<close>

definition connect_check :: "string \<Rightarrow> execution \<Rightarrow> err option" where
  "connect_check websocketID e =
     (case fmlookup (ex_websockets e) websocketID of
        None \<Rightarrow> Some (''file does not exist'', [])
      | Some (Some _) \<Rightarrow> Some (websocketID @ '' websocket already connected'', [])
      | Some None \<Rightarrow> None)"

definition is_control :: "string \<Rightarrow> bool" where
  "is_control k \<longleftrightarrow> k = WsBuildControl \<or> k = WsRunControl"

definition io_connected :: "(string, string option) fmap \<Rightarrow> bool" where
  "io_connected ws \<longleftrightarrow> (\<forall>k \<in> fset (fmdom ws). is_control k \<or> fmlookup ws k \<noteq> Some None)"

definition connect_finish :: "string \<Rightarrow> string \<Rightarrow> execution \<Rightarrow> execution" where
  "connect_finish websocketID conn e =
     (let ws = fmupd websocketID (Some conn) (ex_websockets e) in
      e\<lparr>ex_websockets := ws,
        ex_controlConnected := ex_controlConnected e \<or> is_control websocketID,
        ex_ioConnected := ex_ioConnected e \<or> io_connected ws\<rparr>)"

text \<open>\<open>Connect\<close> finds the execution of a task, when there is one already; otherwise it waits.\<close>

definition waitExecution :: "string \<Rightarrow> bt_world \<Rightarrow> nat option" where
  "waitExecution taskID w = fmlookup (bt_execs w) taskID"

definition Connect_check :: "string \<Rightarrow> string \<Rightarrow> bt_world \<Rightarrow> (err + nat) option" where
  "Connect_check taskID websocketID w =
     (case waitExecution taskID w of
        None \<Rightarrow> None
      | Some x \<Rightarrow>
          (case connect_check websocketID (bt_heap w ! x) of
             Some e \<Rightarrow> Some (Inl e)
           | None \<Rightarrow> Some (Inr x)))"

definition Connect_finish :: "nat \<Rightarrow> string \<Rightarrow> string \<Rightarrow> bt_world \<Rightarrow> bt_world" where
  "Connect_finish x websocketID conn w =
     w\<lparr>bt_heap := (bt_heap w)[x := connect_finish websocketID conn (bt_heap w ! x)]\<rparr>"

subsection \<open>The handlers\<close>

definition tempDir :: "string \<Rightarrow> string \<Rightarrow> string" where
  "tempDir pebbleDir changeID = Join pebbleDir (''build-test/'' @ changeID)"

text \<open>\<open>task.Change().ID()\<close>.\<close>

definition task_change_id :: "string \<Rightarrow> st \<Rightarrow> fault + string" where
  "task_change_id tid s =
     and_then (need_task s tid) (\<lambda>t. case task_Change s t of None \<Rightarrow> Inl NilDeref | Some c \<Rightarrow> Inr (chg_id c))"

definition open_upload :: "string \<Rightarrow> bt_world \<Rightarrow> tarball" where
  "open_upload path w =
     (case fmlookup (bt_uploads w) path of None \<Rightarrow> OpenError ''no such file or directory'' | Some t \<Rightarrow> t)"

definition build_wsIDs :: "bool \<Rightarrow> string list" where
  "build_wsIDs interactive =
     (if interactive then [WsBuildStdio, WsBuildStderr, WsBuildControl] else [WsBuildStdout, WsBuildStderr])"

definition run_wsIDs :: "bool \<Rightarrow> string list" where
  "run_wsIDs interactive =
     (if interactive then [WsRunStdio, WsRunStderr, WsRunControl] else [WsRunStdout, WsRunStderr])"

definition register_build :: "string \<Rightarrow> build_setup \<Rightarrow> bt_world \<Rightarrow> nat \<times> bt_world" where
  "register_build tid setup w =
     registerExecution tid buildTaskKind (build_wsIDs (bs_Interactive setup)) (bs_Interactive setup)
       (bs_Terminal setup) (bs_Width setup) (bs_Height setup) w"

text \<open>
  \<open>doBuild\<close> up to the first command: its result when it ends before, or the execution and the setup.  What the
  commands do to the files is left out.
\<close>

definition build_prepare :: "string \<Rightarrow> string \<Rightarrow> bt_world \<Rightarrow> fault + (err option + nat \<times> build_setup) \<times> bt_world" where
  "build_prepare pebbleDir tid w =
     and_then (task_change_id tid (bt_st w)) (\<lambda>cid.
       case fmlookup (bt_setups w) tid of
         None \<Rightarrow> Inr (Inl None, w)
       | Some setup \<Rightarrow>
           (let dir = tempDir pebbleDir cid; path = bs_SourceTarball setup in
            case MkdirAll dir (bt_fs w) of
              (Some x, fs1) \<Rightarrow> Inr (Inl (Some (''cannot create temp directory %q: %w'', [dir, x])), w\<lparr>bt_fs := fs1\<rparr>)
            | (None, fs1) \<Rightarrow>
                (case extractTarball (open_upload path w) dir fs1 of
                   (Some (f, a), fs2) \<Rightarrow>
                     Inr (Inl (Some (''cannot extract source tarball: %w'', f # a)), w\<lparr>bt_fs := fs2\<rparr>)
                 | (None, fs2) \<Rightarrow>
                     (let (x, w1) = register_build tid setup
                            (w\<lparr>bt_fs := fs2, bt_uploads := fmdrop path (bt_uploads w)\<rparr>)
                      in Inr (Inr (x, setup), w1)))))"

definition api_data :: "cmd_result \<Rightarrow> (string \<times> json) list \<Rightarrow> json" where
  "api_data c extra =
     JObj ([(''stdout'', JStr (cmd_stdout c)), (''stderr'', JStr (cmd_stderr c)), (''exit-code'', JNum (cmd_exit c))] @ extra)"

definition set_api_data :: "string \<Rightarrow> json \<Rightarrow> bt_world \<Rightarrow> fault + bt_world" where
  "set_api_data tid j w =
     and_then (need_task (bt_st w) tid) (\<lambda>t.
       Inr (w\<lparr>bt_st := put_task tid (t\<lparr>task_data := data_set ''api-data'' (Some j) (task_data t)\<rparr>) (bt_st w)\<rparr>))"

text \<open>
  After the first command: the result of the handler, or \<open>None\<close> when the build is tried again, cleaned, with
  a new execution registered.
\<close>

definition build_first :: "string \<Rightarrow> build_setup \<Rightarrow> cmd_result \<Rightarrow> bt_world \<Rightarrow> fault + err option option \<times> bt_world" where
  "build_first tid setup c w =
     (case cmd_error c of
        Some (f, a) \<Rightarrow> Inr (Some (Some (''cannot run snapcraft: %w'', f # a)), w)
      | None \<Rightarrow>
          if cmd_exit c \<noteq> 0 \<and> bs_RetryCount setup < maxBuildRetries then
            let setup1 = setup\<lparr>bs_RetryCount := bs_RetryCount setup + 1\<rparr>;
                (x2, w1) = register_build tid setup1 (w\<lparr>bt_setups := fmupd tid setup1 (bt_setups w)\<rparr>)
            in Inr (None, w1)
          else
            and_then (set_api_data tid (api_data c []) w) (\<lambda>w1.
              Inr (Some (if cmd_exit c \<noteq> 0 then Some (''snapcraft failed with exit code %d'', [int_string (cmd_exit c)]) else None), w1)))"

definition build_again :: "string \<Rightarrow> cmd_result \<Rightarrow> cmd_result \<Rightarrow> bt_world \<Rightarrow> fault + err option \<times> bt_world" where
  "build_again tid c1 c2 w =
     (case cmd_error c2 of
        Some (f, a) \<Rightarrow> Inr (Some (''cannot run snapcraft: %w'', f # a), w)
      | None \<Rightarrow>
          and_then (set_api_data tid (api_data c2
              [(''retried'', JBool True), (''original-exit-code'', JNum (cmd_exit c1)),
               (''original-stderr'', JStr (truncateString (cmd_stderr c1) 1024))]) w) (\<lambda>w1.
            Inr (if cmd_exit c2 \<noteq> 0
                 then Some (''snapcraft failed with exit code %d (retried after clean, original exit code %d)'',
                            [int_string (cmd_exit c2), int_string (cmd_exit c1)])
                 else None, w1)))"

definition doBuild :: "string \<Rightarrow> string \<Rightarrow> cmd_result \<Rightarrow> cmd_result \<Rightarrow> bt_world \<Rightarrow> fault + err option \<times> bt_world" where
  "doBuild pebbleDir tid c1 c2 w =
     and_then (build_prepare pebbleDir tid w) (\<lambda>(r, w1).
       case r of
         Inl e \<Rightarrow> Inr (e, w1)
       | Inr (x, setup) \<Rightarrow>
           and_then (build_first tid setup c1 w1) (\<lambda>(r1, w2).
             case r1 of
               Some e \<Rightarrow> Inr (e, unregisterExecution tid w2)
             | None \<Rightarrow> and_then (build_again tid c1 c2 w2) (\<lambda>(e, w3). Inr (e, unregisterExecution tid w3))))"

text \<open>The setup that \<open>doRun\<close> goes by: that of the first build task of the change, as far as it is cached.\<close>

definition run_setup :: "string \<Rightarrow> bt_world \<Rightarrow> fault + build_setup option" where
  "run_setup tid w =
     and_then (task_change_id tid (bt_st w)) (\<lambda>cid.
     and_then (need_change (bt_st w) cid) (\<lambda>c.
     and_then (map_try (need_task (bt_st w)) (chg_tasks c)) (\<lambda>ts.
       Inr (case find (\<lambda>t. task_kind t = buildTaskKind) ts of
              None \<Rightarrow> None
            | Some t \<Rightarrow> fmlookup (bt_setups w) (task_id t)))))"

definition doRun :: "string \<Rightarrow> cmd_result \<Rightarrow> bt_world \<Rightarrow> fault + err option \<times> bt_world" where
  "doRun tid c w =
     and_then (run_setup tid w) (\<lambda>setup.
       let interactive = (case setup of None \<Rightarrow> False | Some b \<Rightarrow> bs_Interactive b);
           terminal = (case setup of None \<Rightarrow> False | Some b \<Rightarrow> bs_Terminal b);
           width = (case setup of None \<Rightarrow> 0 | Some b \<Rightarrow> bs_Width b);
           height = (case setup of None \<Rightarrow> 0 | Some b \<Rightarrow> bs_Height b);
           (x, w1) = registerExecution tid runTaskKind (run_wsIDs interactive) interactive terminal width height w
       in case cmd_error c of
            Some (f, a) \<Rightarrow> Inr (Some (''cannot run spread: %w'', f # a), unregisterExecution tid w1)
          | None \<Rightarrow>
              and_then (set_api_data tid (api_data c []) w1) (\<lambda>w2. Inr (None, unregisterExecution tid w2)))"

text \<open>The cleanups, of which the second removes the directory of the build.\<close>

definition RemoveAll :: "string \<Rightarrow> fs \<Rightarrow> fs" where
  "RemoveAll p fs =
     (case walk max_links fs [] (butlast (parts p)) of
        None \<Rightarrow> fs
      | Some d \<Rightarrow> if parts p = [] then fs else fmfilter (\<lambda>q. \<not> prefix (d @ [last (parts p)]) q) fs)"

definition cleanup_build :: "string \<Rightarrow> bt_world \<Rightarrow> bt_world" where
  "cleanup_build tid w = w\<lparr>bt_setups := fmdrop tid (bt_setups w)\<rparr>"

definition cleanup_run :: "string \<Rightarrow> string \<Rightarrow> bt_world \<Rightarrow> fault + bt_world" where
  "cleanup_run pebbleDir tid w =
     and_then (task_change_id tid (bt_st w)) (\<lambda>cid.
       Inr (w\<lparr>bt_fs := RemoveAll (tempDir pebbleDir cid) (bt_fs w)\<rparr>))"

text \<open>The handlers and cleanups the manager adds to the task runner.\<close>

definition NewManager :: "runner \<Rightarrow> fault + runner" where
  "NewManager r =
     and_then (AddCleanup buildTaskKind (AddHandler runTaskKind True False (AddHandler buildTaskKind True False r)))
       (AddCleanup runTaskKind)"

subsection \<open>What is kept of the output\<close>

lemma limit_Write_keeps: "length buf \<le> maxOutputSize \<Longrightarrow> snd (limit_Write p buf) = take maxOutputSize (buf @ p)"
  by (auto simp: limit_Write_def Let_def nat_diff_distrib)

lemma take_take_append: "take n (take n xs @ ys) = take n (xs @ ys)"
  by (cases "length xs \<le> n") simp_all

lemma limit_fold:
  "length buf \<le> maxOutputSize \<Longrightarrow>
    fold (\<lambda>p buf. snd (limit_Write p buf)) ps buf = take maxOutputSize (buf @ concat ps)"
proof (induction ps arbitrary: buf)
  case (Cons p ps)
  then have "fold (\<lambda>p buf. snd (limit_Write p buf)) (p # ps) buf
      = take maxOutputSize (take maxOutputSize (buf @ p) @ concat ps)"
    by (simp add: limit_Write_keeps)
  then show ?case using take_take_append [of maxOutputSize "buf @ p" "concat ps"] by simp
qed simp

text \<open>
  What is kept of the output of a command is its start, up to 10 MiB, however it was written in
  pieces; every write is reported as complete, so that the command never notices.
\<close>

lemma limit_writes_keep:
  "limit_writes ps = take maxOutputSize (concat ps) \<and> fst (limit_Write p buf) = length p"
  using limit_fold [of "[]" ps] by (simp add: limit_writes_def limit_Write_def Let_def)

text \<open>The timeout of a clean is between 5 and 30 seconds, and short of that a tenth of the timeout of the build.\<close>

lemma clean_timeout_bounds:
  "5 * second \<le> clean_timeout d" "clean_timeout d \<le> 30 * second"
  "50 * second \<le> d \<Longrightarrow> d \<le> 300 * second \<Longrightarrow> clean_timeout d = d div 10"
  by (auto simp: clean_timeout_def Let_def second_def)

lemma truncateString_length: "length (truncateString s n) \<le> n + 3"
  by (simp add: truncateString_def)

subsection \<open>The result of a build\<close>

lemma bt_unregister [simp]:
  "bt_st (unregisterExecution tid w) = bt_st w" "fmlookup (bt_execs (unregisterExecution tid w)) tid = None"
  "bt_setups (unregisterExecution tid w) = bt_setups w" "bt_fs (unregisterExecution tid w) = bt_fs w"
  by (simp_all add: unregisterExecution_def)

lemma register_build_st: "register_build tid setup w = (x, w') \<Longrightarrow> bt_st w' = bt_st w \<and> bt_fs w' = bt_fs w"
  by (auto simp: register_build_def registerExecution_def Let_def)

lemma build_prepare_st:
  assumes "build_prepare pebbleDir tid w = Inr (r, w1)"
  shows "bt_st w1 = bt_st w"
proof -
  have "on_ok (\<lambda>(r, w1). bt_st w1 = bt_st w) (build_prepare pebbleDir tid w)"
    unfolding build_prepare_def on_ok_simps Let_def
    by (rule on_okI) (auto simp: register_build_st split: option.splits prod.splits)
  from on_okD [OF this assms] show ?thesis by simp
qed

lemma build_prepare_task:
  "build_prepare pebbleDir tid w = Inr (r, w1) \<Longrightarrow> \<exists>t. fmlookup (tasks (bt_st w)) tid = Some t"
  by (auto simp: build_prepare_def task_change_id_def and_then_Inr_iff need_task_Inr)

text \<open>The task with the data of a command as the last, nothing else in the state being changed.\<close>

definition stored :: "string \<Rightarrow> json \<Rightarrow> st \<Rightarrow> st \<Rightarrow> bool" where
  "stored tid j s s' \<longleftrightarrow> (\<exists>t. fmlookup (tasks s) tid = Some t \<and>
     s' = put_task tid (t\<lparr>task_data := data_set ''api-data'' (Some j) (task_data t)\<rparr>) s)"

lemma set_api_data_stored:
  assumes "fmlookup (tasks (bt_st w)) tid = Some t"
  shows "\<exists>w'. set_api_data tid j w = Inr w' \<and> stored tid j (bt_st w) (bt_st w') \<and> bt_execs w' = bt_execs w"
  using assms by (simp add: set_api_data_def stored_def need_task_eq)

text \<open>Which command's result is the build's: the second one's, when the first failed and a retry is left.\<close>

definition retries :: "build_setup \<Rightarrow> cmd_result \<Rightarrow> bool" where
  "retries setup c1 \<longleftrightarrow> cmd_error c1 = None \<and> cmd_exit c1 \<noteq> 0 \<and> bs_RetryCount setup < maxBuildRetries"

definition last_command :: "build_setup \<Rightarrow> cmd_result \<Rightarrow> cmd_result \<Rightarrow> cmd_result" where
  "last_command setup c1 c2 = (if retries setup c1 then c2 else c1)"

text \<open>
  C31: A build that was prepared succeeds exactly when its last command ran and exited with 0, where the
  command is run a second time, and no third, when the first one exited with another code.  Its task is
  then the only one that is changed: its data are the output and the exit code of that command, unless the
  command could not be run.  No execution is left registered for it.
\<close>

theorem doBuild_outcome:
  assumes "build_prepare pebbleDir tid w = Inr (Inr (x, setup), w1)"
  shows "\<exists>e w'. doBuild pebbleDir tid c1 c2 w = Inr (e, w') \<and>
    (e = None \<longleftrightarrow> cmd_error (last_command setup c1 c2) = None \<and> cmd_exit (last_command setup c1 c2) = 0) \<and>
    fmlookup (bt_execs w') tid = None \<and>
    (if cmd_error (last_command setup c1 c2) = None
     then \<exists>extra. stored tid (api_data (last_command setup c1 c2) extra) (bt_st w) (bt_st w')
     else bt_st w' = bt_st w)"
proof -
  from build_prepare_task [OF assms] obtain t where "fmlookup (tasks (bt_st w)) tid = Some t" by blast
  with build_prepare_st [OF assms] have t: "bt_st w1 = bt_st w" "fmlookup (tasks (bt_st w1)) tid = Some t" by simp_all
  show ?thesis
  proof (cases "retries setup c1")
    case True
    then obtain w2 where f: "build_first tid setup c1 w1 = Inr (None, w2)" "bt_st w2 = bt_st w1"
      using register_build_st by (fastforce simp: build_first_def retries_def Let_def split: prod.splits)
    with t have t2: "fmlookup (tasks (bt_st w2)) tid = Some t" by simp
    let ?j = "api_data c2 [(''retried'', JBool True), (''original-exit-code'', JNum (cmd_exit c1)),
               (''original-stderr'', JStr (truncateString (cmd_stderr c1) 1024))]"
    from set_api_data_stored [OF t2, of ?j] obtain w3 where w3: "set_api_data tid ?j w2 = Inr w3" "stored tid ?j (bt_st w2) (bt_st w3)"
      by blast
    show ?thesis
    proof (cases "cmd_error c2")
      case None
      with True w3(2) t f(2) show ?thesis
        by (auto simp: doBuild_def assms f(1) build_again_def w3(1) last_command_def)
    next
      case (Some x)
      with True t f(2) show ?thesis
        by (cases x) (auto simp: doBuild_def assms f(1) build_again_def last_command_def)
    qed
  next
    case False
    from set_api_data_stored [OF t(2), of "api_data c1 []"] obtain w2 where
      w2: "set_api_data tid (api_data c1 []) w1 = Inr w2" "stored tid (api_data c1 []) (bt_st w1) (bt_st w2)" by blast
    show ?thesis
    proof (cases "cmd_error c1")
      case None
      with False w2 t(1) show ?thesis
        by (auto simp: doBuild_def assms build_first_def retries_def last_command_def)
    next
      case (Some x)
      with False t(1) show ?thesis
        by (cases x) (auto simp: doBuild_def assms build_first_def retries_def last_command_def)
    qed
  qed
qed

definition sample_setup :: build_setup where
  "sample_setup = setup_of \<lparr>ba_SourceTarball = ''/u'', ba_Timeout = 0, ba_Interactive = True, ba_Terminal = True, ba_Width = 80, ba_Height = 24\<rparr>"

definition sample_bt :: bt_world where
  "sample_bt =
     \<lparr>bt_st = sample_state [(''7'', sample_task ''7'' DoingStatus [] [] [])], bt_setups = fmap_of_list [(''7'', sample_setup)],
      bt_heap = [], bt_execs = fmempty, bt_fs = fmempty, bt_uploads = fmap_of_list [(''/u'', Tar [file_entry ''a'' ''x''] None)]\<rparr>"

definition sample_cmd :: "int \<Rightarrow> cmd_result" where
  "sample_cmd x = \<lparr>cmd_exit = x, cmd_stdout = ''out'', cmd_stderr = ''err'', cmd_error = None\<rparr>"

theorem doBuild_outcome_witness:
  "\<exists>x w1 w' extra. build_prepare ''/t'' ''7'' sample_bt = Inr (Inr (x, sample_setup), w1) \<and>
    doBuild ''/t'' ''7'' (sample_cmd 2) (sample_cmd 0) sample_bt = Inr (None, w') \<and>
    stored ''7'' (api_data (sample_cmd 0) extra) (bt_st sample_bt) (bt_st w')"
proof -
  have "case build_prepare ''/t'' ''7'' sample_bt of Inr (Inr (x, setup), w1) \<Rightarrow> setup = sample_setup | _ \<Rightarrow> False"
    by code_simp
  then obtain x w1 where p: "build_prepare ''/t'' ''7'' sample_bt = Inr (Inr (x, sample_setup), w1)"
    by (auto split: sum.splits prod.splits)
  have l: "last_command sample_setup (sample_cmd 2) (sample_cmd 0) = sample_cmd 0"
    by (simp add: last_command_def retries_def sample_cmd_def sample_setup_def setup_of_def maxBuildRetries_def)
  from doBuild_outcome [OF p, of "sample_cmd 2" "sample_cmd 0", unfolded l] p show ?thesis
    by (simp add: sample_cmd_def) blast
qed

text \<open>
  Without a setup, which is only cached and so lost when the daemon is started again, the build is reported
  done though nothing was built, and the tests are run; a failed extraction leaves the uploaded archive behind.
\<close>

lemma doBuild_without_setup:
  assumes "fmlookup (bt_setups w) tid = None" "task_change_id tid (bt_st w) = Inr cid"
  shows "doBuild pebbleDir tid c1 c2 w = Inr (None, w)"
  using assms by (simp add: doBuild_def build_prepare_def)

lemma failed_extraction_keeps_upload:
  assumes "build_prepare pebbleDir tid w = Inr (Inl (Some e), w1)"
  shows "bt_uploads w1 = bt_uploads w"
proof -
  have "on_ok (\<lambda>(r, w1). r = Inl (Some e) \<longrightarrow> bt_uploads w1 = bt_uploads w) (build_prepare pebbleDir tid w)"
    unfolding build_prepare_def on_ok_simps Let_def
    by (rule on_okI) (auto split: option.splits prod.splits)
  from on_okD [OF this assms] show ?thesis by simp
qed

subsection \<open>When the output is streamed\<close>

text \<open>
  What happens to executions: handlers register and unregister them, and clients connect, each in two steps.
  A client between its steps is kept with the execution and the websocket it found free.
\<close>

datatype exec_op =
    RegisterBuild string build_setup
  | RegisterRun string bool bool int int
  | Unregister string
  | Check string string string
  | Finish string

type_synonym exec_state = "bt_world \<times> (string, nat \<times> string) fmap"

definition exec_step :: "exec_op \<Rightarrow> exec_state \<Rightarrow> exec_state" where
  "exec_step act x =
     (case x of (w, ps) \<Rightarrow>
       (case act of
          RegisterBuild tid setup \<Rightarrow> (snd (register_build tid setup w), ps)
        | RegisterRun tid interactive terminal width height \<Rightarrow>
            (snd (registerExecution tid runTaskKind (run_wsIDs interactive) interactive terminal width height w), ps)
        | Unregister tid \<Rightarrow> (unregisterExecution tid w, ps)
        | Check conn tid websocketID \<Rightarrow>
            (case Connect_check tid websocketID w of
               Some (Inr e) \<Rightarrow> (w, fmupd conn (e, websocketID) ps)
             | _ \<Rightarrow> (w, ps))
        | Finish conn \<Rightarrow>
            (case fmlookup ps conn of
               None \<Rightarrow> (w, ps)
             | Some (e, websocketID) \<Rightarrow> (Connect_finish e websocketID conn w, fmdrop conn ps))))"

definition exec_run :: "exec_op list \<Rightarrow> exec_state \<Rightarrow> exec_state" where
  "exec_run = fold exec_step"

definition exec_ok :: "execution \<Rightarrow> bool" where
  "exec_ok e \<longleftrightarrow> (ex_ioConnected e \<longleftrightarrow> io_connected (ex_websockets e)) \<and>
     (ex_controlConnected e \<longleftrightarrow> (\<exists>k c. is_control k \<and> fmlookup (ex_websockets e) k = Some (Some c)))"

definition execs_ok :: "exec_state \<Rightarrow> bool" where
  "execs_ok x \<longleftrightarrow> (\<forall>e \<in> set (bt_heap (fst x)). exec_ok e) \<and>
     (\<forall>tid e. fmlookup (bt_execs (fst x)) tid = Some e \<longrightarrow> e < length (bt_heap (fst x))) \<and>
     (\<forall>conn e k. fmlookup (snd x) conn = Some (e, k) \<longrightarrow>
        e < length (bt_heap (fst x)) \<and> fmlookup (ex_websockets (bt_heap (fst x) ! e)) k \<noteq> None)"

lemmas ws_names = WsBuildStdout_def WsBuildStderr_def WsBuildStdio_def WsBuildControl_def
  WsRunStdout_def WsRunStderr_def WsRunStdio_def WsRunControl_def

lemma connect_finish_ok:
  assumes "exec_ok e" "fmlookup (ex_websockets e) k \<noteq> None"
  shows "exec_ok (connect_finish k conn e)"
proof -
  have "io_connected (ex_websockets e) \<Longrightarrow> io_connected (fmupd k (Some conn) (ex_websockets e))"
    by (auto simp: io_connected_def)
  moreover have "(\<exists>j c. is_control j \<and> fmlookup (fmupd k (Some conn) (ex_websockets e)) j = Some (Some c)) \<longleftrightarrow>
      is_control k \<or> (\<exists>j c. is_control j \<and> fmlookup (ex_websockets e) j = Some (Some c))"
    by auto
  ultimately show ?thesis using assms(1) by (auto simp: exec_ok_def connect_finish_def Let_def)
qed

lemma register_ok:
  assumes "execs_ok (w, ps)" "\<exists>k \<in> set wsIDs. \<not> is_control k"
  shows "execs_ok (snd (registerExecution tid kind wsIDs i t x y w), ps)"
proof -
  have ws: "fmlookup (fold (\<lambda>x ws. fmupd x None ws) ks m) k = (if k \<in> set ks then Some None else fmlookup m k)"
    for ks m and k :: string
    by (induction ks arbitrary: m) auto
  have "exec_ok \<lparr>ex_taskKind = kind, ex_interactive = i, ex_terminal = t, ex_width = x, ex_height = y,
      ex_websockets = fold (\<lambda>x ws. fmupd x None ws) wsIDs fmempty, ex_ioConnected = False, ex_controlConnected = False\<rparr>"
    using assms(2) by (auto simp: exec_ok_def io_connected_def ws fmdom_notI fmlookup_dom_iff)
  with assms(1) show ?thesis
    by (fastforce simp: execs_ok_def registerExecution_def Let_def nth_append less_Suc_eq)
qed

lemma exec_step_ok:
  assumes "execs_ok x"
  shows "execs_ok (exec_step act x)"
proof -
  obtain w ps where x: "x = (w, ps)" by (cases x)
  show ?thesis
  proof (cases act)
    case (RegisterBuild tid bs)
    have "\<exists>k \<in> set (build_wsIDs i). \<not> is_control k" for i by (simp add: build_wsIDs_def is_control_def ws_names)
    with RegisterBuild register_ok assms x show ?thesis by (simp add: exec_step_def register_build_def)
  next
    case (RegisterRun tid i t a b)
    have "\<exists>k \<in> set (run_wsIDs i). \<not> is_control k" by (simp add: run_wsIDs_def is_control_def ws_names)
    with RegisterRun register_ok assms x show ?thesis by (simp add: exec_step_def)
  next
    case (Unregister tid)
    with assms x show ?thesis by (simp add: exec_step_def execs_ok_def unregisterExecution_def)
  next
    case (Check conn tid k)
    have "e < length (bt_heap w) \<and> fmlookup (ex_websockets (bt_heap w ! e)) k \<noteq> None"
      if "Connect_check tid k w = Some (Inr e)" for e
      using that assms x
      by (auto simp: Connect_check_def connect_check_def waitExecution_def execs_ok_def split: option.splits)
    with Check assms x show ?thesis
      by (auto simp: exec_step_def execs_ok_def split: option.splits sum.splits)
  next
    case (Finish conn)
    show ?thesis
    proof (cases "fmlookup ps conn")
      case None
      with Finish assms x show ?thesis by (simp add: exec_step_def)
    next
      case (Some q)
      then obtain e k where q: "fmlookup ps conn = Some (e, k)" by (cases q) auto
      with assms x have e: "e < length (bt_heap w)" "exec_ok (bt_heap w ! e)" "fmlookup (ex_websockets (bt_heap w ! e)) k \<noteq> None"
        by (auto simp: execs_ok_def)
      let ?e = "connect_finish k conn (bt_heap w ! e)"
      have "exec_ok a" if "a \<in> set ((bt_heap w)[e := ?e])" for a
        using that connect_finish_ok [OF e(2,3)] assms x set_update_subset_insert [of "bt_heap w" e ?e]
        by (auto simp: execs_ok_def)
      moreover have "fmlookup (ex_websockets ((bt_heap w)[e := ?e] ! j)) l \<noteq> None"
        if "j < length (bt_heap w)" "fmlookup (ex_websockets (bt_heap w ! j)) l \<noteq> None" for j l
        using that by (cases "j = e") (simp_all add: connect_finish_def Let_def)
      ultimately show ?thesis using Finish q assms x
        by (auto simp: exec_step_def execs_ok_def Connect_finish_def split: if_splits)
    qed
  qed
qed

lemma exec_run_ok: "execs_ok x \<Longrightarrow> execs_ok (exec_run ops x)"
  unfolding exec_run_def by (induction ops arbitrary: x) (simp_all add: exec_step_ok)

text \<open>
  Whatever handlers and clients do, in whatever order: an execution counts as connected, so that its
  command starts to stream, exactly when every input and output websocket it expects has a connection, and its control
  loop starts exactly when it has a control connection.
\<close>

lemma streaming_when_connected:
  assumes "bt_heap w = []" "bt_execs w = fmempty" "e \<in> set (bt_heap (fst (exec_run ops (w, fmempty))))"
  shows "(ex_ioConnected e \<longleftrightarrow> (\<forall>k. fmlookup (ex_websockets e) k = Some None \<longrightarrow> is_control k)) \<and>
    (ex_controlConnected e \<longleftrightarrow> (\<exists>k. is_control k \<and> getWebsocket k e \<noteq> None))"
proof -
  have "execs_ok (w, fmempty)" using assms(1,2) by (simp add: execs_ok_def)
  from exec_run_ok [OF this, of ops] assms(3) have "exec_ok e" by (simp add: execs_ok_def)
  moreover have "io_connected (ex_websockets e) \<longleftrightarrow> (\<forall>k. fmlookup (ex_websockets e) k = Some None \<longrightarrow> is_control k)"
    by (auto simp: io_connected_def fmlookup_dom_iff)
  ultimately show ?thesis by (auto simp: exec_ok_def getWebsocket_def split: option.splits)
qed

definition idle_bt :: bt_world where
  "idle_bt = \<lparr>bt_st = empty_state, bt_setups = fmempty, bt_heap = [], bt_execs = fmempty, bt_fs = fmempty, bt_uploads = fmempty\<rparr>"

text \<open>
  The lock is not held between the two steps: two clients that connect at the same time can both
  find a websocket free, and the second takes the place of the first, which was told that it is connected.
\<close>

lemma connected_twice:
  "let h = bt_heap (fst (exec_run [RegisterBuild ''7'' sample_setup, Check ''c1'' ''7'' WsBuildStdio, Check ''c2'' ''7'' WsBuildStdio,
      Finish ''c1'', Finish ''c2''] (idle_bt, fmempty)))
   in getWebsocket WsBuildStdio (h ! 0) = Some ''c2''"
  by code_simp

subsection \<open>The two tasks of a request\<close>

definition build_change :: "string \<Rightarrow> string \<Rightarrow> string \<Rightarrow> st \<Rightarrow> bool" where
  "build_change cid b r s \<longleftrightarrow> b \<noteq> r \<and>
     (\<exists>c tb tr. fmlookup (changes s) cid = Some c \<and> chg_tasks c = [b, r] \<and>
        fmlookup (tasks s) b = Some tb \<and> task_id tb = b \<and> task_kind tb = buildTaskKind \<and> task_change tb = cid \<and>
        wait_tasks tb = [] \<and> halt_tasks tb = [r] \<and> task_lanes tb = [] \<and>
        fmlookup (tasks s) r = Some tr \<and> task_id tr = r \<and> task_kind tr = runTaskKind \<and> task_change tr = cid \<and>
        wait_tasks tr = [b] \<and> halt_tasks tr = [] \<and> task_lanes tr = [])"

text \<open>
  A request with an archive makes a change of two tasks, of which the tests wait for the build, both to be done, and
  keeps the setup of the build; nothing else of the tasks and setups is changed.
\<close>

lemma post_build_test_tasks:
  assumes "ba_SourceTarball args \<noteq> []"
  shows "\<exists>cid b r w'. post_build_test now args w = Inr (cid, w') \<and> build_change cid b r (bt_st w') \<and>
    has_status (bt_st w') b DoStatus \<and> has_status (bt_st w') r DoStatus \<and>
    bt_setups w' = fmupd b (setup_of args) (bt_setups w) \<and>
    (\<forall>k. k \<noteq> b \<longrightarrow> k \<noteq> r \<longrightarrow> fmlookup (tasks (bt_st w')) k = fmlookup (tasks (bt_st w)) k)"
proof -
  define n where "n = Suc (last_task_id (bt_st w))"
  define b r where "b = itoa n" and "r = itoa (Suc n)"
  have br: "b \<noteq> r" "r \<noteq> b" by (simp_all add: b_def r_def)
  define tb tr where "tb = (newTask now b buildTaskKind ''Build source with snapcraft'')\<lparr>halt_tasks := [r]\<rparr>"
    and "tr = (newTask now r runTaskKind ''Run spread tests'')\<lparr>wait_tasks := [b]\<rparr>"
  obtain s3 where s3: "lift_bt (WaitFor r b (snd (NewTask now runTaskKind ''Run spread tests'' (snd (NewTask now buildTaskKind ''Build source with snapcraft'' (bt_st w)))))) = Inr s3"
    and ts3: "tasks s3 = fmupd b tb (fmupd r tr (fmupd r (newTask now r runTaskKind ''Run spread tests'')
        (fmupd b (newTask now b buildTaskKind ''Build source with snapcraft'') (tasks (bt_st w)))))"
    using br by (simp add: lift_bt_def NewTask_def Let_def WaitFor_def need_task_eq n_def [symmetric] b_def [symmetric] r_def [symmetric]
      add_once_def tb_def tr_def newTask_def put_task_def)
  let ?ts = "taskset_MarkEdge r RunEdge (taskset_MarkEdge b BuildEdge (NewTaskSet [b, r]))"
  let ?w1 = "w\<lparr>bt_st := s3, bt_setups := fmupd b (setup_of args) (bt_setups w)\<rparr>"
  have req: "build_request now args w = Inr (?ts, ?w1)"
    using s3 assms by (simp add: build_request_def Let_def NewTask_def n_def [symmetric] b_def [symmetric] r_def [symmetric] put_task_def)
  let ?c = "newChange now (itoa (Suc (last_change_id s3))) ''build-test'' ''Build source and run tests''"
  have "notice_data_of ?c \<noteq> None" "chg_id ?c = itoa (Suc (last_change_id s3))" "chg_tasks ?c = []"
    by (simp_all add: newChange_def notice_data_of_def data_get_def)
  then obtain s4 where s4: "change_addNotice now (chg_id ?c) (put_change (chg_id ?c) ?c (s3\<lparr>last_change_id := Suc (last_change_id s3)\<rparr>)) = Inr s4"
    using change_addNotice_ok [of "put_change (chg_id ?c) ?c (s3\<lparr>last_change_id := Suc (last_change_id s3)\<rparr>)" "chg_id ?c" ?c now]
    by (auto simp: put_change_def itoa_ne)
  let ?cid = "chg_id ?c"
  have f: "tasks s4 = tasks s3" "changes s4 = fmupd ?cid ?c (changes s3)"
    using change_addNotice_frame [OF s4] by (simp_all add: put_change_def)
  have new: "NewChange now ''build-test'' ''Build source and run tests'' s3 = Inr (?cid, s4)"
    using s4 by (simp add: NewChange_def NewChangeWithNoticeData_def Let_def newChange_def)
  have t4: "fmlookup (tasks s4) b = Some tb" "fmlookup (tasks s4) r = Some tr" using br by (simp_all add: f ts3)
  obtain s5 where s5: "change_AddAll ?cid ?ts s4 = Inr s5"
    and t5: "tasks s5 = fmupd r (tr\<lparr>task_change := ?cid\<rparr>) (fmupd b (tb\<lparr>task_change := ?cid\<rparr>) (tasks s4))"
    and c5: "fmlookup (changes s5) ?cid = Some (?c\<lparr>chg_tasks := [b, r]\<rparr>)"
    using t4 br by (simp add: change_AddAll_def taskset_MarkEdge_def NewTaskSet_def AddTask_def need_change_eq need_task_eq f
      tb_def tr_def newTask_def newChange_def add_once_def put_change_def put_task_def)
  have "post_build_test now args w = Inr (?cid, ?w1\<lparr>bt_st := ensure_before 0 s5\<rparr>)"
    using s5 by (simp add: post_build_test_def req new lift_bt_def)
  moreover have "build_change ?cid b r (ensure_before 0 s5)"
    using br c5 by (simp add: build_change_def t5 tb_def tr_def newTask_def)
  moreover have "has_status (ensure_before 0 s5) b DoStatus" "has_status (ensure_before 0 s5) r DoStatus"
    using br by (simp_all add: has_status_def t5 tb_def tr_def newTask_def task_Status_def)
  moreover have "k \<noteq> b \<Longrightarrow> k \<noteq> r \<Longrightarrow> fmlookup (tasks (ensure_before 0 s5)) k = fmlookup (tasks (bt_st w)) k" for k
    by (simp add: t5 f ts3)
  ultimately show ?thesis
    by (intro exI [of _ ?cid] exI [of _ b] exI [of _ r] exI [of _ "?w1\<lparr>bt_st := ensure_before 0 s5\<rparr>"]) simp
qed

lemma tasks_to_abort_lane:
  assumes "\<forall>(k, t) \<in> set kts. task_lanes t = []"
  shows "tasks_to_abort [0] kts = map fst kts"
proof -
  have "\<not> has_live [0] ts 0" for ts by (auto simp: has_live_def opinion_lanes_def dest: set_takeWhileD)
  then have "\<forall>(k, t) \<in> set kts. killed_by [0] t \<and> \<not> healthy [0] (map snd kts) t"
    using assms by (auto simp: killed_by_def healthy_def task_Lanes_def)
  then have "filter (\<lambda>(k, t). killed_by [0] t \<and> \<not> healthy [0] (map snd kts) t) kts = kts"
    by (auto simp: filter_id_conv)
  then show ?thesis by (simp add: tasks_to_abort_def)
qed

text \<open>The lanes of a failed build are those of both tasks.\<close>

lemma abort_build_change:
  assumes "build_change cid b r s" "AbortLanes now cid [0] s = Inr s'" "has_status s r DoStatus"
  shows "has_status s' r HoldStatus"
proof -
  from assms(1) obtain c tb tr where c: "fmlookup (changes s) cid = Some c" "chg_tasks c = [b, r]"
    and t: "fmlookup (tasks s) b = Some tb" "task_lanes tb = []" "fmlookup (tasks s) r = Some tr" "task_lanes tr = []"
    by (auto simp: build_change_def)
  have "tasks_to_abort [0] [(b, tb), (r, tr)] = [b, r]" by (subst tasks_to_abort_lane) (simp_all add: t)
  with assms(2) c t obtain seen where "abort_tasks now cid [b, r] {0} {} s = Inr (seen, s')"
    by (auto simp: AbortLanes_def abort_lanes.simps need_change_eq need_task_eq and_then_Inr_iff)
  from abort_passes_inv(1) [OF this abort_inv_init] have inv: "abort_inv s seen s'" "r \<in> seen" by auto
  from inv(1) have "shape s' = shape s" by (simp add: abort_inv_def)
  from shape_task [OF this t(3)] obtain tr' where tr': "fmlookup (tasks s') r = Some tr'" by blast
  with inv t(3) have "aborted_status tr' tr" by (auto simp: abort_inv_def)
  moreover have "abort_result tr = HoldStatus"
    using assms(3) t(3) by (simp add: has_status_def abort_result_def taskEffectiveStatus_def)
  ultimately show ?thesis using tr' by (simp add: has_status_def aborted_status_def task_Status_def)
qed

text \<open>
  C32: When the handler of the build returns an error while the tests are still to be done, the build ends in
  error and the tests are held: they are not run.
\<close>

theorem failed_build_holds_tests:
  assumes "build_change cid b r s" "has_status s r DoStatus" "\<not> stopped rn"
    and "finish now b DoJob dur (Failed m) rn s = Inr (rn', s')"
  shows "has_status s' b ErrorStatus \<and> has_status s' r HoldStatus"
proof -
  from assms(1) obtain tb where b: "fmlookup (tasks s) b = Some tb" "task_change tb = cid" "task_lanes tb = []" "b \<noteq> r"
    by (auto simp: build_change_def)
  define s1 where "s1 = ensure_if (some_blocked (rn\<lparr>tombs := fmdrop b (tombs rn)\<rparr>)) (put_task b (accumulate_time DoJob dur tb) s)"
  have t1: "tasks s1 = fmupd b (accumulate_time DoJob dur tb) (tasks s)" "changes s1 = changes s"
    by (simp_all add: s1_def)
  have c1: "build_change cid b r s1" "has_status s1 r DoStatus"
    using assms(1,2) b by (auto simp: build_change_def t1 accumulate_time_def has_status_def)
  have fe: "finish_error now b m (rn\<lparr>tombs := fmdrop b (tombs rn)\<rparr>) s1 = Inr (rn', s')"
    using assms(3,4) b(1) by (simp add: finish_def need_task_eq Let_def s1_def)
  moreover have "need_task s1 b = Inr (accumulate_time DoJob dur tb)" by (simp add: need_task_eq t1)
  ultimately obtain r1 r2 s3 s4 where r: "runner_abortLanes now cid [0] (rn\<lparr>tombs := fmdrop b (tombs rn)\<rparr>) s1 = Inr (r1, r2)"
    and s3: "SetStatus now b ErrorStatus r2 = Inr s3" and s4: "task_Logf now LogError b m s3 = Inr s4" "tasks s' = tasks s4"
    using b by (auto simp: finish_error_def and_then_Inr_iff accumulate_time_def task_Lanes_def)
  from r obtain s2 where ab: "AbortLanes now cid [0] s1 = Inr s2" "tasks s2 = tasks r2"
    by (auto simp: runner_abortLanes_def and_then_Inr_iff)
  from abort_build_change [OF c1(1) ab(1) c1(2)] ab(2) have "has_status r2 r HoldStatus" by (simp add: has_status_def)
  with touches_has_status [OF SetStatus_touches [OF s3]] b(4) have "has_status s3 r HoldStatus" by simp
  moreover have "has_status s3 b ErrorStatus" using has_status_upd [OF s3] by simp
  ultimately show ?thesis using s4 b(4) by (auto simp: task_Logf_def and_then_Inr_iff need_task_Inr has_status_def)
qed

definition sample_build :: st where
  "sample_build = sample_state
     [(''1'', (newTask 1 ''1'' buildTaskKind [])\<lparr>task_status := DoingStatus, halt_tasks := [''2''], task_change := ''1''\<rparr>),
      (''2'', (newTask 1 ''2'' runTaskKind [])\<lparr>wait_tasks := [''1''], task_change := ''1''\<rparr>)]"

theorem failed_build_holds_tests_witness:
  "\<exists>rn s'. finish 9 ''1'' DoJob 4 (Failed (''snapcraft failed with exit code %d'', [''2''])) NewTaskRunner sample_build = Inr (rn, s') \<and>
     has_status s' ''1'' ErrorStatus \<and> has_status s' ''2'' HoldStatus"
proof -
  let ?f = "finish 9 ''1'' DoJob 4 (Failed (''snapcraft failed with exit code %d'', [''2''])) NewTaskRunner sample_build"
  have "case ?f of Inl e \<Rightarrow> False | Inr x \<Rightarrow> True" by code_simp
  then obtain rn s' where f: "?f = Inr (rn, s')" by (cases ?f) auto
  have "build_change ''1'' ''1'' ''2'' sample_build" "has_status sample_build ''2'' DoStatus" "\<not> stopped NewTaskRunner"
    by (simp_all add: build_change_def sample_build_def sample_state_def newTask_def newChange_def fmlookup_of_list
      has_status_def task_Status_def NewTaskRunner_def)
  from failed_build_holds_tests [OF this f] f show ?thesis by blast
qed

text \<open>Tests that fail are no error of the task: a result of \<open>spread\<close> other than 0 is only found in its data.\<close>

lemma doRun_failed_tests:
  assumes "doRun tid c w = Inr (e, w')" "cmd_error c = None"
  shows "e = None"
proof -
  have "on_ok (\<lambda>(e, w'). e = None) (doRun tid c w)"
    using assms(2) by (auto simp: doRun_def Let_def intro!: on_okI split: prod.splits)
  from on_okD [OF this assms(1)] show ?thesis by simp
qed

end
