(* ===== verification/Calendar.thy ===== *)
theory Calendar
  imports Prelude
begin

text \<open>
  The calendar of Go's package \<open>time\<close>, in UTC: the year, month and day of an instant and its weekday, by the cycles of
  400, 100, 4 and 1 years that the package uses.  Days are counted from the first of January of year 1, a Monday.
\<close>

subsection \<open>Days, years and months\<close>

definition day :: duration where "day = 24 * hour"

lemma day_pos [simp]: "0 < day"
  by (simp add: day_def hour_def second_def)

lemma day_ne [simp]: "day \<noteq> 0"
  using day_pos by linarith

definition day_number :: "time \<Rightarrow> int" where "day_number t = t div day"

text \<open>The midnight before an instant.\<close>

definition midnight :: "time \<Rightarrow> time" where "midnight t = day_number t * day"

text \<open>Sunday is 0.\<close>

definition Weekday :: "time \<Rightarrow> int" where "Weekday t = (day_number t + 1) mod 7"

text \<open>The year, counted from 0 for year 1, and the day in it, counted from 0.\<close>

definition year_split :: "int \<Rightarrow> int \<times> int" where
  "year_split d =
     (let n400 = d div 146097; r400 = d mod 146097;
          n100 = min 3 (r400 div 36524); r100 = r400 - 36524 * n100;
          n4 = r100 div 1461; r4 = r100 mod 1461;
          n1 = min 3 (r4 div 365)
      in (400 * n400 + 100 * n100 + 4 * n4 + n1, r4 - 365 * n1))"

definition leap :: "int \<Rightarrow> bool" where
  "leap n \<longleftrightarrow> (n + 1) mod 4 = 0 \<and> ((n + 1) mod 100 \<noteq> 0 \<or> (n + 1) mod 400 = 0)"

definition month_lengths :: "bool \<Rightarrow> int list" where
  "month_lengths l = [31, if l then 29 else 28, 31, 30, 31, 30, 31, 31, 30, 31, 30, 31]"

text \<open>The month and the day in it of a day in a list of months, both counted from 0.\<close>

fun split_month :: "int list \<Rightarrow> int \<Rightarrow> int \<times> int" where
  "split_month [] r = (0, r)"
| "split_month (l # ls) r = (if r < l then (0, r) else let (m, d) = split_month ls (r - l) in (m + 1, d))"

text \<open>\<open>Time.Date\<close>: year, month and day, each counted from 1.\<close>

definition civil :: "int \<Rightarrow> int \<times> int \<times> int" where
  "civil d =
     (let (n, yday) = year_split d; (m, mday) = split_month (month_lengths (leap n)) yday
      in (n + 1, m + 1, mday + 1))"

definition Month :: "time \<Rightarrow> int" where "Month t = fst (snd (civil (day_number t)))"
definition Day :: "time \<Rightarrow> int" where "Day t = snd (snd (civil (day_number t)))"

text \<open>The first instant of the 29th of February 2024, a Thursday, and of the following days.\<close>

lemma civil_samples:
  "civil 738944 = (2024, 2, 29)" "(738944 + 1) mod 7 = (4::int)" "civil 738945 = (2024, 3, 1)" "civil 0 = (1, 1, 1)"
  "civil 693960 = (1901, 1, 1)" "civil 730119 = (2000, 1, 1)" "civil 146096 = (400, 12, 31)"
  by code_simp+

subsection \<open>The first day of a year\<close>

definition year_start :: "int \<Rightarrow> int" where
  "year_start n = 365 * n + n div 4 - n div 100 + n div 400"

lemma div_at: "a = k * q + r \<Longrightarrow> 0 \<le> r \<Longrightarrow> r < k \<Longrightarrow> a div k = q" for a k q r :: int
  by (rule int_div_pos_eq)

lemma mod_at: "a = k * q + r \<Longrightarrow> 0 \<le> r \<Longrightarrow> r < k \<Longrightarrow> a mod k = r" for a k q r :: int
  by (rule int_mod_pos_eq)

lemma mod_zero_at: "a = k * q + r \<Longrightarrow> 0 < r \<Longrightarrow> r \<le> k \<Longrightarrow> a mod k = 0 \<longleftrightarrow> r = k" for a k q r :: int
  using mod_at [of a k q r] by (cases "r = k") auto

lemma year_cycles:
  fixes n :: int
  obtains a b c e where "n = 400 * a + 100 * b + 4 * c + e" "0 \<le> b" "b \<le> 3" "0 \<le> c" "c \<le> 24" "0 \<le> e" "e \<le> 3"
proof
  let ?a = "n div 400" and ?m = "n mod 400"
  let ?b = "?m div 100" and ?k = "?m mod 100"
  let ?c = "?k div 4" and ?e = "?k mod 4"
  have m: "0 \<le> ?m" "?m < 400" "n = 400 * ?a + ?m" by simp_all
  have k: "0 \<le> ?k" "?k < 100" "?m = 100 * ?b + ?k" by simp_all
  have e: "0 \<le> ?e" "?e < 4" "?k = 4 * ?c + ?e" by simp_all
  show "n = 400 * ?a + 100 * ?b + 4 * ?c + ?e" using m(3) k(3) e(3) by linarith
  show "0 \<le> ?b" "?b \<le> 3" using m k by linarith+
  show "0 \<le> ?c" "?c \<le> 24" using k e by linarith+
  show "0 \<le> ?e" "?e \<le> 3" using e by linarith+
qed

lemma year_start_cycles:
  fixes a :: int
  assumes "0 \<le> b" "b \<le> 3" "0 \<le> c" "c \<le> 24" "0 \<le> e" "e \<le> 3"
  shows "year_start (400 * a + 100 * b + 4 * c + e) = 146097 * a + 36524 * b + 1461 * c + 365 * e"
proof -
  let ?n = "400 * a + 100 * b + 4 * c + e"
  have "?n div 4 = 100 * a + 25 * b + c" by (rule div_at [of _ _ _ e]) (use assms in auto)
  moreover have "?n div 100 = 4 * a + b" by (rule div_at [of _ _ _ "4 * c + e"]) (use assms in auto)
  moreover have "?n div 400 = a" by (rule div_at [of _ _ _ "100 * b + 4 * c + e"]) (use assms in auto)
  ultimately show ?thesis by (simp add: year_start_def)
qed

lemma leap_cycles:
  fixes a :: int
  assumes "0 \<le> b" "b \<le> 3" "0 \<le> c" "c \<le> 24" "0 \<le> e" "e \<le> 3"
  shows "leap (400 * a + 100 * b + 4 * c + e) \<longleftrightarrow> e = 3 \<and> (c \<noteq> 24 \<or> b = 3)"
proof -
  let ?n = "400 * a + 100 * b + 4 * c + e"
  have "(?n + 1) mod 4 = 0 \<longleftrightarrow> e + 1 = 4" by (rule mod_zero_at [of _ _ "100 * a + 25 * b + c"]) (use assms in auto)
  moreover have "(?n + 1) mod 100 = 0 \<longleftrightarrow> 4 * c + e + 1 = 100" by (rule mod_zero_at [of _ _ "4 * a + b"]) (use assms in auto)
  moreover have "(?n + 1) mod 400 = 0 \<longleftrightarrow> 100 * b + 4 * c + e + 1 = 400" by (rule mod_zero_at [of _ _ a]) (use assms in auto)
  ultimately show ?thesis using assms by (auto simp: leap_def)
qed

lemma year_split_start:
  assumes "0 \<le> j" "j < 365 + of_bool (leap n)"
  shows "year_split (year_start n + j) = (n, j)"
proof -
  obtain a b c e where n: "n = 400 * a + 100 * b + 4 * c + e"
    and r: "0 \<le> b" "b \<le> 3" "0 \<le> c" "c \<le> 24" "0 \<le> e" "e \<le> 3" by (rule year_cycles)
  have j: "j \<le> 364 \<or> j = 365 \<and> e = 3 \<and> (c \<noteq> 24 \<or> b = 3)"
    using assms(2) unfolding n leap_cycles [OF r] by (cases "e = 3 \<and> (c \<noteq> 24 \<or> b = 3)") auto
  let ?r400 = "36524 * b + 1461 * c + 365 * e + j" and ?r100 = "1461 * c + 365 * e + j" and ?r4 = "365 * e + j"
  have d: "year_start n + j = 146097 * a + ?r400" unfolding n year_start_cycles [OF r] by simp
  have b4: "0 \<le> ?r4" "?r4 < 1461" using r j assms(1) by auto
  have b400: "0 \<le> ?r400" "?r400 < 146097" using r j assms(1) by auto
  have 1: "(146097 * a + ?r400) div 146097 = a" "(146097 * a + ?r400) mod 146097 = ?r400"
    by (rule div_at [OF refl b400], rule mod_at [OF refl b400])
  have 2: "min 3 (?r400 div 36524) = b"
  proof (cases "b = 3")
    case True
    then have "3 * 36524 \<le> ?r400" using r assms(1) by simp
    then have "3 \<le> ?r400 div 36524" by linarith
    with True show ?thesis by simp
  next
    case False
    have "?r400 div 36524 = b" by (rule div_at [of _ _ _ ?r100]) (use r j assms(1) False in auto)
    with r show ?thesis by simp
  qed
  have 3: "?r100 div 1461 = c" "?r100 mod 1461 = ?r4"
    by (rule div_at [of _ _ _ ?r4], use b4 in auto) (rule mod_at [of _ _ c], use b4 in auto)
  have 4: "min 3 (?r4 div 365) = e"
  proof (cases "e = 3")
    case True
    then have "3 \<le> ?r4 div 365" using assms(1) by linarith
    with True show ?thesis by simp
  next
    case False
    have "?r4 div 365 = e" by (rule div_at [of _ _ _ j]) (use False j assms(1) in auto)
    with r show ?thesis by simp
  qed
  have s: "?r400 - 36524 * b = ?r100" "?r4 - 365 * e = j" by simp_all
  show ?thesis unfolding d year_split_def Let_def 1 2 s(1) 3 4 s(2) by (simp add: n)
qed

subsection \<open>A month that starts on a given weekday\<close>

text \<open>For each remainder modulo 7 a month that starts as many days after a week of the year, and has at least 29 days.\<close>

definition month_with :: "bool \<Rightarrow> int \<Rightarrow> int \<times> int" where
  "month_with l x =
     (if l then
        (if x = 0 then (0, 0) else if x = 1 then (274, 9) else if x = 2 then (121, 4) else if x = 3 then (213, 7)
         else if x = 4 then (60, 2) else if x = 5 then (152, 5) else (244, 8))
      else
        (if x = 0 then (0, 0) else if x = 1 then (120, 4) else if x = 2 then (212, 7) else if x = 3 then (59, 2)
         else if x = 4 then (151, 5) else if x = 5 then (243, 8) else (90, 3)))"

lemma residue_cases:
  fixes x :: int
  assumes "0 \<le> x" "x < 7"
  obtains "x = 0" | "x = 1" | "x = 2" | "x = 3" | "x = 4" | "x = 5" | "x = 6"
  using assms by linarith

lemma month_with_split:
  assumes "0 \<le> x" "x < 7" "month_with l x = (off, m)" "0 \<le> j" "j < 29"
  shows "split_month (month_lengths l) (off + j) = (m, j)"
  using assms(1,2)
  by (cases rule: residue_cases; cases l) (use assms(3-5) in \<open>auto simp: month_with_def month_lengths_def\<close>)

lemma month_with_mod:
  assumes "0 \<le> x" "x < 7" "month_with l x = (off, m)"
  shows "off mod 7 = x" "0 \<le> off" "off \<le> 300"
  using assms(1,2)
  by (cases rule: residue_cases; cases l; use assms(3) in \<open>auto simp: month_with_def\<close>)+

text \<open>Every year has such a month.\<close>

lemma month_starting_on:
  assumes "0 \<le> w" "w < 7"
  obtains f m where "year_start n \<le> f" "(f + 1) mod 7 = w" "\<And>j. 0 \<le> j \<Longrightarrow> j < 29 \<Longrightarrow> civil (f + j) = (n + 1, m + 1, j + 1)"
proof -
  define x where "x = (w - (year_start n + 1)) mod 7"
  obtain off m where om: "month_with (leap n) x = (off, m)" by (cases "month_with (leap n) x")
  have x: "0 \<le> x" "x < 7" by (simp_all add: x_def)
  note o' = month_with_mod [OF x om]
  have "(year_start n + off + 1) mod 7 = (year_start n + 1 + off) mod 7" by (simp add: ac_simps)
  also have "\<dots> = (year_start n + 1 + off mod 7) mod 7" by (rule mod_add_right_eq [symmetric])
  also have "\<dots> = (year_start n + 1 + (w - (year_start n + 1))) mod 7" unfolding o'(1) x_def by (rule mod_add_right_eq)
  also have "\<dots> = w mod 7" by simp
  finally have w: "(year_start n + off + 1) mod 7 = w" using assms by simp
  have "civil (year_start n + off + j) = (n + 1, m + 1, j + 1)" if "0 \<le> j" "j < 29" for j
  proof -
    have "year_split (year_start n + (off + j)) = (n, off + j)" by (rule year_split_start) (use o' that in auto)
    with month_with_split [OF x om that] show ?thesis by (simp add: civil_def add.assoc)
  qed
  with that [of "year_start n + off" m] w o'(2) show thesis by simp
qed

text \<open>The last week of January: a week later it is February.\<close>

lemma end_of_january:
  assumes "24 \<le> j" "j < 31"
  shows "fst (snd (civil (year_start n + j))) = 1" "fst (snd (civil (year_start n + j + 7))) = 2"
proof -
  have "year_split (year_start n + j) = (n, j)" "year_split (year_start n + (j + 7)) = (n, j + 7)"
    by (rule year_split_start; use assms in simp)+
  then show "fst (snd (civil (year_start n + j))) = 1" "fst (snd (civil (year_start n + j + 7))) = 2"
    using assms by (simp_all add: civil_def month_lengths_def add.assoc)
qed

lemma year_start_after: "\<exists>n. d \<le> year_start n"
proof -
  have "\<bar>d\<bar> \<le> year_start \<bar>d\<bar>"
  proof -
    have "\<bar>d\<bar> div 100 \<le> \<bar>d\<bar>" "0 \<le> \<bar>d\<bar> div 4" "0 \<le> \<bar>d\<bar> div 400" by (simp_all add: div_le_dividend)
    then show ?thesis unfolding year_start_def by linarith
  qed
  then show ?thesis by (intro exI [of _ "\<bar>d\<bar>"]) linarith
qed

subsection \<open>Moving by whole days\<close>

lemma day_number_add [simp]: "day_number (t + k * day) = day_number t + k"
  by (simp add: day_number_def)

lemma day_number_add_one [simp]: "day_number (t + day) = day_number t + 1"
  using day_number_add [of t 1] by simp

lemma midnight_le: "midnight t \<le> t" "t < midnight t + day"
  using div_mult_mod_eq [of t day] pos_mod_sign [OF day_pos, of t] pos_mod_bound [OF day_pos, of t]
  unfolding midnight_def day_number_def by linarith+

lemma midnight_add [simp]: "midnight (t + k * day) = midnight t + k * day"
  unfolding midnight_def day_number_add by (simp add: algebra_simps)

lemma Weekday_range: "0 \<le> Weekday t" "Weekday t < 7"
  by (simp_all add: Weekday_def)

end
