(* ===== verification/Schedule.thy ===== *)
theory Schedule
  imports Calendar "HOL-Library.Monad_Syntax"
begin

text \<open>
  \<open>internals/timeutil/schedule.go\<close>: schedules of weekdays and times of day, the next window after the last event,
  and whether an instant is in a schedule.  Instants are in UTC.  The loops that search for a day need not end for
  every schedule, so they are partial functions, with \<open>None\<close> for not returning; for the schedules that the parser accepts
  they end.
\<close>

subsection \<open>Times of day\<close>

definition minute :: duration where "minute = 60 * second"

lemma time_units: "second = 1000000000" "minute = 60000000000" "hour = 3600000000000" "day = 86400000000000"
  by (simp_all add: second_def minute_def hour_def day_def)

record clock =
  clk_Hour :: int
  clk_Minute :: int

text \<open>Go's integer division rounds towards zero.\<close>

definition trunc_div :: "int \<Rightarrow> int \<Rightarrow> int" where
  "trunc_div a b = sgn a * sgn b * (\<bar>a\<bar> div \<bar>b\<bar>)"

definition trunc_mod :: "int \<Rightarrow> int \<Rightarrow> int" where
  "trunc_mod a b = a - b * trunc_div a b"

lemma trunc_nonneg [simp]: "0 \<le> a \<Longrightarrow> 0 < b \<Longrightarrow> trunc_div a b = a div b" "0 \<le> a \<Longrightarrow> 0 < b \<Longrightarrow> trunc_mod a b = a mod b"
  by (auto simp: trunc_div_def trunc_mod_def sgn_if minus_mult_div_eq_mod split: if_splits)

definition clock_duration :: "clock \<Rightarrow> duration" where
  "clock_duration t = clk_Hour t * hour + clk_Minute t * minute"

definition Clock_Sub :: "clock \<Rightarrow> clock \<Rightarrow> duration" where
  "Clock_Sub t other =
     (let dur = clock_duration t - clock_duration other in if dur < 0 then - (dur + 24 * hour) else dur)"

definition Clock_Add :: "clock \<Rightarrow> duration \<Rightarrow> clock" where
  "Clock_Add t dur =
     (let t2 = clock_duration t + dur in
      \<lparr>clk_Hour = trunc_mod (trunc_div t2 hour) 24, clk_Minute = trunc_mod (trunc_div t2 minute) 60\<rparr>)"

definition Clock_Time :: "clock \<Rightarrow> time \<Rightarrow> time" where
  "Clock_Time t base = midnight base + clock_duration t"

subsection \<open>Weekdays\<close>

definition EveryWeek :: nat where "EveryWeek = 0"
definition LastWeek :: nat where "LastWeek = 5"

record week =
  wk_Weekday :: int
  wk_Pos :: nat

record week_span =
  ws_Start :: week
  ws_End :: week

text \<open>The loop of \<open>findNthWeekDay\<close>, with the number of matching days seen.\<close>

partial_function (option) nth_week_day :: "time \<Rightarrow> int \<Rightarrow> nat \<Rightarrow> nat \<Rightarrow> time option" where
  "nth_week_day t weekday seen nthInMonth =
     (if Weekday t = weekday then
        (if seen + 1 = nthInMonth then Some t else nth_week_day (t + day) weekday (seen + 1) nthInMonth)
      else nth_week_day (t + day) weekday seen nthInMonth)"

definition findNthWeekDay :: "time \<Rightarrow> int \<Rightarrow> nat \<Rightarrow> time option" where
  "findNthWeekDay t weekday nthInMonth = nth_week_day (t - (Day t - 1) * day) weekday 0 nthInMonth"

definition isLastWeekdayInMonth :: "time \<Rightarrow> bool" where
  "isLastWeekdayInMonth t \<longleftrightarrow> Month t \<noteq> Month (t + 7 * day)"

definition in_week_span :: "int \<Rightarrow> int \<Rightarrow> int \<Rightarrow> bool" where
  "in_week_span wdStart wdEnd d \<longleftrightarrow>
     (if wdStart \<le> wdEnd then wdStart \<le> d \<and> d \<le> wdEnd else wdStart \<le> d \<or> d \<le> wdEnd)"

definition WeekSpan_Match :: "week_span \<Rightarrow> time \<Rightarrow> bool option" where
  "WeekSpan_Match ws t =
     (let s = ws_Start ws; e = ws_End ws; inside = in_week_span (wk_Weekday s) (wk_Weekday e) (Weekday t) in
      if wk_Pos s \<noteq> EveryWeek then
        if wk_Pos s = LastWeek then Some (isLastWeekdayInMonth t \<and> inside)
        else do {
          startDay \<leftarrow> findNthWeekDay t (wk_Weekday s) (wk_Pos s);
          endDay \<leftarrow> findNthWeekDay t (wk_Weekday e) (wk_Pos e);
          Some (Day startDay \<le> Day t \<and> Day t \<le> Day endDay)
        }
      else Some inside)"

subsection \<open>Spans of the day and windows\<close>

record clock_span =
  cs_Start :: clock
  cs_End :: clock
  cs_Split :: nat
  cs_Spread :: bool

record window =
  win_Start :: time
  win_End :: time
  win_Spread :: bool

definition ClockSpan_Window :: "clock_span \<Rightarrow> time \<Rightarrow> window" where
  "ClockSpan_Window ts t =
     (let s = Clock_Time (cs_Start ts) t; e = Clock_Time (cs_End ts) t in
      \<lparr>win_Start = s, win_End = (if e < s then e + 24 * hour else e), win_Spread = cs_Spread ts\<rparr>)"

definition split_span :: "clock_span \<Rightarrow> duration \<Rightarrow> nat \<Rightarrow> clock_span" where
  "split_span ts step i =
     (let s = Clock_Add (cs_Start ts) (int i * step) in
      \<lparr>cs_Start = s, cs_End = Clock_Add s step, cs_Split = 0, cs_Spread = cs_Spread ts\<rparr>)"

definition ClockSpans :: "clock_span \<Rightarrow> clock_span list" where
  "ClockSpans ts =
     (if cs_Split ts = 0 \<or> cs_Split ts = 1 \<or> cs_End ts = cs_Start ts then [ts]
      else
        let sub = Clock_Sub (cs_End ts) (cs_Start ts);
            span = (if sub < 0 then - sub else sub);
            step = trunc_div span (int (cs_Split ts))
        in map (split_span ts step) [0..<cs_Split ts])"

record schedule =
  sc_WeekSpans :: "week_span list"
  sc_ClockSpans :: "clock_span list"

definition whole_zero :: clock_span where
  "whole_zero =
     \<lparr>cs_Start = \<lparr>clk_Hour = 0, clk_Minute = 0\<rparr>, cs_End = \<lparr>clk_Hour = 0, clk_Minute = 0\<rparr>, cs_Split = 0, cs_Spread = False\<rparr>"

definition flattenedClockSpans :: "schedule \<Rightarrow> clock_span list" where
  "flattenedClockSpans sched =
     concat (map ClockSpans (if sc_ClockSpans sched = [] then [whole_zero] else sc_ClockSpans sched))"

definition window_Includes :: "window \<Rightarrow> time \<Rightarrow> bool" where
  "window_Includes s t \<longleftrightarrow> \<not> (t < win_Start s \<or> win_End s < t)"

definition window_IsZero :: "window \<Rightarrow> bool" where
  "window_IsZero s \<longleftrightarrow> is_zero_time (win_Start s) \<or> is_zero_time (win_End s)"

subsection \<open>The next window\<close>

fun any_week :: "week_span list \<Rightarrow> time \<Rightarrow> bool option" where
  "any_week [] t = Some False"
| "any_week (ws # wss) t = do { m \<leftarrow> WeekSpan_Match ws t; if m then Some True else any_week wss t }"

definition week_match :: "schedule \<Rightarrow> time \<Rightarrow> bool option" where
  "week_match sched t = (if sc_WeekSpans sched = [] then Some True else any_week (sc_WeekSpans sched) t)"

definition zero_window :: window where
  "zero_window = \<lparr>win_Start = 0, win_End = 0, win_Spread = False\<rparr>"

text \<open>The earliest window of a day that is not over and does not include the last event.\<close>

definition consider_window :: "time \<Rightarrow> time \<Rightarrow> time \<Rightarrow> clock_span \<Rightarrow> window \<Rightarrow> window" where
  "consider_window now prev t tspan w =
     (let newWindow = ClockSpan_Window tspan t in
      if win_End newWindow < now then w
      else if window_Includes newWindow prev then w
      else if window_IsZero w \<or> win_Start newWindow < win_Start w then newWindow
      else w)"

definition day_window :: "clock_span list \<Rightarrow> time \<Rightarrow> time \<Rightarrow> time \<Rightarrow> window" where
  "day_window tspans now prev t = fold (consider_window now prev t) tspans zero_window"

partial_function (option) next_loop :: "schedule \<Rightarrow> time \<Rightarrow> time \<Rightarrow> time \<Rightarrow> window option" where
  "next_loop sched now prev t = do {
     m \<leftarrow> week_match sched t;
     if \<not> m then next_loop sched now prev (t + day)
     else if win_End (day_window (flattenedClockSpans sched) now prev t) < now then next_loop sched now prev (t + day)
     else Some (day_window (flattenedClockSpans sched) now prev t)
   }"

definition Schedule_Next :: "schedule \<Rightarrow> time \<Rightarrow> time \<Rightarrow> window option" where
  "Schedule_Next sched now prev = next_loop sched now prev prev"

text \<open>The random duration below a bound is an argument.\<close>

definition randDur :: "(duration \<Rightarrow> duration) \<Rightarrow> time \<Rightarrow> time \<Rightarrow> duration" where
  "randDur random a b =
     (let dur = b - a; dur = (if 5 * minute < dur then dur - 5 * minute else dur)
      in if dur \<le> 0 then 0 else random dur)"

fun first_window :: "schedule list \<Rightarrow> time \<Rightarrow> time \<Rightarrow> window \<Rightarrow> window option" where
  "first_window [] now prev w = Some w"
| "first_window (sched # scheds) now prev w = do {
     n \<leftarrow> Schedule_Next sched now prev;
     first_window scheds now prev (if win_Start n < win_Start w then n else w)
   }"

definition Next :: "(duration \<Rightarrow> duration) \<Rightarrow> schedule list \<Rightarrow> time \<Rightarrow> time \<Rightarrow> duration \<Rightarrow> duration option" where
  "Next random scheds now prev maxDuration = do {
     w \<leftarrow> first_window scheds now prev
       \<lparr>win_Start = prev + maxDuration, win_End = prev + maxDuration + hour, win_Spread = False\<rparr>;
     if win_Start w < now then Some 0
     else Some (win_Start w - now + (if win_Spread w then randDur random (win_Start w) (win_End w) else 0))
   }"

subsection \<open>Whether an instant is in a schedule\<close>

definition span_includes :: "time \<Rightarrow> clock_span \<Rightarrow> bool" where
  "span_includes t tspan =
     (let w = ClockSpan_Window tspan t;
          w = (if win_End w = win_Start w then w\<lparr>win_End := win_End w + minute\<rparr> else w)
      in window_Includes w t \<and> t < win_End w)"

definition Schedule_Includes :: "schedule \<Rightarrow> time \<Rightarrow> bool option" where
  "Schedule_Includes sched t = do {
     m \<leftarrow> week_match sched t;
     Some (m \<and> (\<exists>tspan \<in> set (flattenedClockSpans sched). span_includes t tspan))
   }"

fun Includes :: "schedule list \<Rightarrow> time \<Rightarrow> bool option" where
  "Includes [] t = Some False"
| "Includes (sched # scheds) t = do { m \<leftarrow> Schedule_Includes sched t; if m then Some True else Includes scheds t }"

subsection \<open>The days that match\<close>

definition valid_week_span :: "week_span \<Rightarrow> bool" where
  "valid_week_span ws \<longleftrightarrow>
     wk_Weekday (ws_Start ws) \<in> {0..6} \<and> wk_Weekday (ws_End ws) \<in> {0..6} \<and>
     wk_Pos (ws_Start ws) \<le> wk_Pos (ws_End ws) \<and> wk_Pos (ws_End ws) \<le> LastWeek \<and>
     (wk_Pos (ws_Start ws) = EveryWeek \<longleftrightarrow> wk_Pos (ws_End ws) = EveryWeek)"

definition valid_clock :: "clock \<Rightarrow> bool" where
  "valid_clock t \<longleftrightarrow> 0 \<le> clk_Hour t \<and> 0 \<le> clk_Minute t \<and>
     (clk_Hour t \<le> 23 \<and> clk_Minute t \<le> 59 \<or> clk_Hour t = 24 \<and> clk_Minute t = 0)"

definition valid_clock_span :: "clock_span \<Rightarrow> bool" where
  "valid_clock_span ts \<longleftrightarrow> valid_clock (cs_Start ts) \<and> valid_clock (cs_End ts)"

definition valid_schedule :: "schedule \<Rightarrow> bool" where
  "valid_schedule sched \<longleftrightarrow>
     (\<forall>ws \<in> set (sc_WeekSpans sched). valid_week_span ws) \<and> (\<forall>ts \<in> set (sc_ClockSpans sched). valid_clock_span ts)"

lemma Weekday_next: "(w - Weekday (t + day)) mod 7 = (w - Weekday t - 1) mod 7"
proof -
  let ?d = "day_number t + 1"
  have "(w - (?d + 1) mod 7) mod 7 = (w - (?d + 1)) mod 7" by (rule mod_diff_right_eq)
  also have "\<dots> = (w - 1 - ?d) mod 7" by (simp add: algebra_simps)
  also have "\<dots> = (w - 1 - ?d mod 7) mod 7" by (rule mod_diff_right_eq [symmetric])
  finally show ?thesis unfolding Weekday_def day_number_add_one by (simp add: algebra_simps)
qed

lemma nth_week_day_eq:
  assumes "0 \<le> w" "w < 7" "seen < target"
  shows "nth_week_day t w seen target = Some (t + ((w - Weekday t) mod 7 + 7 * (int target - int seen - 1)) * day)"
  using assms(3)
proof (induction "nat ((w - Weekday t) mod 7 + 7 * (int target - int seen - 1))" arbitrary: t seen rule: less_induct)
  case less
  let ?m = "(w - Weekday t) mod 7 + 7 * (int target - int seen - 1)"
  have r: "0 \<le> (w - Weekday t) mod 7" "(w - Weekday t) mod 7 < 7" by simp_all
  show ?case
  proof (cases "Weekday t = w")
    case True
    then have n: "(w - Weekday (t + day)) mod 7 = 6" by (simp add: Weekday_next)
    show ?thesis
    proof (cases "seen + 1 = target")
      case True
      with \<open>Weekday t = w\<close> show ?thesis by (subst nth_week_day.simps) simp
    next
      case False
      with less.prems have s: "seen + 1 < target" by simp
      have "nat ((w - Weekday (t + day)) mod 7 + 7 * (int target - int (seen + 1) - 1)) < nat ?m"
        using n True s by simp
      from less.hyps [OF this s] True False n show ?thesis
        by (subst nth_week_day.simps) (simp add: algebra_simps)
    qed
  next
    case False
    have "(w - Weekday t) mod 7 \<noteq> 0"
    proof
      assume "(w - Weekday t) mod 7 = 0"
      then have "w mod 7 = Weekday t mod 7" by (simp add: mod_eq_dvd_iff mod_0_imp_dvd)
      with False assms(1,2) Weekday_range [of t] show False by simp
    qed
    with r have n: "(w - Weekday (t + day)) mod 7 = (w - Weekday t) mod 7 - 1"
      unfolding Weekday_next using mod_at [of "w - Weekday t - 1" 7 "(w - Weekday t) div 7" "(w - Weekday t) mod 7 - 1"]
        div_mult_mod_eq [of "w - Weekday t" 7] by linarith
    have "nat ((w - Weekday (t + day)) mod 7 + 7 * (int target - int seen - 1)) < nat ?m"
    proof -
      have "nat (x - 1 + 7 * (int target - int seen - 1)) < nat (x + 7 * (int target - int seen - 1))"
        if "0 \<le> x" "x \<noteq> 0" for x
        using that less.prems by (subst nat_mono_iff) simp_all
      from this [OF r(1) \<open>(w - Weekday t) mod 7 \<noteq> 0\<close>] show ?thesis unfolding n .
    qed
    from less.hyps [OF this less.prems, unfolded n] False show ?thesis
      by (subst nth_week_day.simps) (simp add: algebra_simps)
  qed
qed

lemma findNthWeekDay_eq:
  assumes "0 \<le> w" "w < 7" "0 < p"
  shows "findNthWeekDay t w p =
    Some (t + (((w - Weekday (t - (Day t - 1) * day)) mod 7 + 7 * (int p - 1)) - (Day t - 1)) * day)"
  using nth_week_day_eq [OF assms(1,2), of 0 p] assms(3) by (simp add: findNthWeekDay_def algebra_simps)

lemma WeekSpan_Match_total:
  assumes "valid_week_span ws"
  shows "\<exists>b. WeekSpan_Match ws t = Some b"
proof (cases "wk_Pos (ws_Start ws) = EveryWeek \<or> wk_Pos (ws_Start ws) = LastWeek")
  case False
  then have "0 < wk_Pos (ws_Start ws)" "0 < wk_Pos (ws_End ws)"
    using assms by (auto simp: valid_week_span_def EveryWeek_def)
  with False assms show ?thesis
    by (simp add: WeekSpan_Match_def Let_def valid_week_span_def findNthWeekDay_eq)
qed (auto simp: WeekSpan_Match_def Let_def)

lemma Day_at: "day_number t = d \<Longrightarrow> Day t = snd (snd (civil d))"
  "day_number t = d \<Longrightarrow> Month t = fst (snd (civil d))" "day_number t = d \<Longrightarrow> Weekday t = (d + 1) mod 7"
  by (simp_all add: Day_def Month_def Weekday_def)

text \<open>In a month that starts on a weekday a day of the fourth week at the latest is in the span.\<close>

lemma WeekSpan_Match_in_month:
  assumes ws: "valid_week_span ws" and p: "wk_Pos (ws_Start ws) \<noteq> EveryWeek" "wk_Pos (ws_Start ws) \<noteq> LastWeek"
  shows "\<exists>f. year_start n \<le> f \<and> (\<exists>j. 0 \<le> j \<and> (\<forall>t. day_number t = f + j \<longrightarrow> WeekSpan_Match ws t = Some True))"
proof -
  define s e p q where "s = wk_Weekday (ws_Start ws)" and "e = wk_Weekday (ws_End ws)"
    and "p = int (wk_Pos (ws_Start ws))" and "q = int (wk_Pos (ws_End ws))"
  have r: "0 \<le> s" "s < 7" "0 \<le> e" "e < 7" "1 \<le> p" "p \<le> 4" "p \<le> q" "q \<le> 5"
    using ws p by (auto simp: valid_week_span_def EveryWeek_def LastWeek_def s_def e_def p_def q_def)
  define w where "w = (if q = 5 then e else s)"
  have w: "0 \<le> w" "w < 7" using r by (simp_all add: w_def)
  obtain f m where f: "year_start n \<le> f" "(f + 1) mod 7 = w"
    and c: "\<And>j. 0 \<le> j \<Longrightarrow> j < 29 \<Longrightarrow> civil (f + j) = (n + 1, m + 1, j + 1)"
    using month_starting_on [OF w] by blast
  define a b where "a = (s - w) mod 7 + 7 * (p - 1)" and "b = (e - w) mod 7 + 7 * (q - 1)"
  have ab: "0 \<le> a" "a \<le> b" "b < 29"
  proof -
    have m: "0 \<le> (s - w) mod 7" "(s - w) mod 7 < 7" "0 \<le> (e - w) mod 7" "(e - w) mod 7 < 7" by simp_all
    have z: "q = 5 \<Longrightarrow> (e - w) mod 7 = 0" "q \<noteq> 5 \<Longrightarrow> (s - w) mod 7 = 0" by (simp_all add: w_def)
    show "0 \<le> a" using m r by (simp add: a_def)
    have *: "x + 7 * (p - 1) \<le> y + 7 * (q - 1) \<and> y + 7 * (q - 1) < 29"
      if "0 \<le> x" "x < 7" "0 \<le> y" "y < 7" "q = 5 \<Longrightarrow> y = 0" "q \<noteq> 5 \<Longrightarrow> x = 0" for x y
      using that r by (cases "q = 5") auto
    from * [OF m z] show "a \<le> b" "b < 29" by (simp_all add: a_def b_def)
  qed
  have "WeekSpan_Match ws t = Some True" if t: "day_number t = f + a" for t
  proof -
    have d: "Day t = a + 1" using c [of a] ab by (simp add: Day_at [OF t])
    have "day_number (t - (Day t - 1) * day) = f"
      using day_number_add [of t "- a"] t by (simp add: d algebra_simps)
    then have fw: "Weekday (t - (Day t - 1) * day) = w" using f(2) by (simp add: Weekday_def)
    have find: "findNthWeekDay t x k = Some (t + (((x - w) mod 7 + 7 * (int k - 1)) - a) * day)"
      if "0 \<le> x" "x < 7" "0 < k" for x k
      using findNthWeekDay_eq [OF that, of t] fw by (simp add: d)
    have at: "day_number (t + (j - a) * day) = f + j" for j using t by simp
    have "findNthWeekDay t s (wk_Pos (ws_Start ws)) = Some (t + (a - a) * day)"
      "findNthWeekDay t e (wk_Pos (ws_End ws)) = Some (t + (b - a) * day)"
      using find [of s] find [of e] r by (simp_all add: p_def q_def a_def b_def)
    moreover have "Day (t + (b - a) * day) = b + 1" using c [of b] ab by (simp add: Day_at [OF at])
    ultimately show ?thesis using p d ab by (simp add: WeekSpan_Match_def Let_def s_def e_def)
  qed
  with f(1) ab(1) show ?thesis by blast
qed

lemma WeekSpan_Match_often:
  assumes "valid_week_span ws"
  shows "\<exists>f. year_start n \<le> f \<and> (\<exists>j. 0 \<le> j \<and> (\<forall>t. day_number t = f + j \<longrightarrow> WeekSpan_Match ws t = Some True))"
proof (cases "wk_Pos (ws_Start ws) = EveryWeek \<or> wk_Pos (ws_Start ws) = LastWeek")
  case True
  let ?s = "wk_Weekday (ws_Start ws)"
  have s: "0 \<le> ?s" "?s < 7" using assms by (auto simp: valid_week_span_def)
  have inside: "in_week_span ?s (wk_Weekday (ws_End ws)) ?s" by (simp add: in_week_span_def)
  define j where "j = 24 + (?s - (year_start n + 25)) mod 7"
  have j: "24 \<le> j" "j < 31" by (simp_all add: j_def)
  have "(year_start n + j + 1) mod 7 = (year_start n + 25 + (?s - (year_start n + 25)) mod 7) mod 7"
    by (simp add: j_def ac_simps)
  also have "\<dots> = (year_start n + 25 + (?s - (year_start n + 25))) mod 7" by (rule mod_add_right_eq)
  finally have w: "(year_start n + j + 1) mod 7 = ?s" using s by simp
  have "WeekSpan_Match ws t = Some True" if t: "day_number t = year_start n + j" for t
  proof -
    have "Weekday t = ?s" using Day_at(3) [OF t] w by simp
    moreover have "isLastWeekdayInMonth t"
      using end_of_january [OF j, of n] day_number_add [of t 7] Day_at(2) [OF t] t by (simp add: isLastWeekdayInMonth_def Month_def)
    ultimately show ?thesis using True inside by (auto simp: WeekSpan_Match_def Let_def)
  qed
  with j(1) show ?thesis by (intro exI [of _ "year_start n"]) (auto intro: exI [of _ j])
qed (use WeekSpan_Match_in_month assms in blast)

lemma any_week_total: "\<forall>ws \<in> set wss. valid_week_span ws \<Longrightarrow> \<exists>b. any_week wss t = Some b"
proof (induction wss)
  case (Cons ws wss)
  from WeekSpan_Match_total [of ws t] Cons show ?case by fastforce
qed auto

lemma week_match_total: "valid_schedule sched \<Longrightarrow> \<exists>b. week_match sched t = Some b"
  using any_week_total by (auto simp: week_match_def valid_schedule_def)

lemma week_match_often:
  assumes "valid_schedule sched"
  shows "\<exists>k \<ge> K. week_match sched (prev + int k * day) = Some True"
proof (cases "sc_WeekSpans sched")
  case Nil
  then show ?thesis by (auto simp: week_match_def)
next
  case (Cons ws wss)
  with assms have ws: "valid_week_span ws" by (simp add: valid_schedule_def)
  from year_start_after obtain n where n: "day_number prev + int K \<le> year_start n" by blast
  from WeekSpan_Match_often [OF ws, of n] obtain f j where
    f: "year_start n \<le> f" "0 \<le> j" "\<And>t. day_number t = f + j \<Longrightarrow> WeekSpan_Match ws t = Some True" by blast
  have k: "int (nat (f + j - day_number prev)) = f + j - day_number prev" using n f by simp
  then have "WeekSpan_Match ws (prev + int (nat (f + j - day_number prev)) * day) = Some True" by (intro f(3)) simp
  with Cons have "week_match sched (prev + int (nat (f + j - day_number prev)) * day) = Some True"
    by (simp add: week_match_def)
  moreover have "K \<le> nat (f + j - day_number prev)" using n f by simp
  ultimately show ?thesis by blast
qed

subsection \<open>The windows of a day\<close>

lemma clock_range:
  assumes "valid_clock c"
  shows "0 \<le> clock_duration c" "clock_duration c \<le> day"
  using assms by (auto simp: valid_clock_def clock_duration_def time_units)

lemma Clock_Add_valid:
  assumes "valid_clock c" "0 \<le> dur"
  shows "valid_clock (Clock_Add c dur)"
proof -
  let ?t = "clock_duration c + dur"
  have "0 \<le> ?t" using clock_range [OF assms(1)] assms(2) by simp
  then have d: "0 \<le> ?t div hour" "0 \<le> ?t div minute" by (simp_all add: time_units pos_imp_zdiv_nonneg_iff)
  have "Clock_Add c dur = \<lparr>clk_Hour = ?t div hour mod 24, clk_Minute = ?t div minute mod 60\<rparr>"
    using d \<open>0 \<le> ?t\<close> by (simp add: Clock_Add_def Let_def time_units)
  moreover have "0 \<le> x mod n \<and> x mod n \<le> n - 1" if "0 < n" for x n :: int
    using that pos_mod_bound [of n x] by simp
  from this [of 24 "?t div hour"] this [of 60 "?t div minute"]
  have "0 \<le> ?t div hour mod 24" "?t div hour mod 24 \<le> 23" "0 \<le> ?t div minute mod 60" "?t div minute mod 60 \<le> 59"
    by simp_all
  ultimately show ?thesis by (simp add: valid_clock_def)
qed

lemma split_span_valid:
  assumes "valid_clock_span ts" "0 \<le> step"
  shows "valid_clock_span (split_span ts step i)"
  using assms by (simp add: valid_clock_span_def split_span_def Let_def Clock_Add_valid)

lemma ClockSpans_valid:
  assumes "valid_clock_span ts" "ts' \<in> set (ClockSpans ts)"
  shows "valid_clock_span ts'"
proof -
  have "0 \<le> s \<Longrightarrow> 0 \<le> trunc_div s (int n)" for s :: int and n
    by (cases "n = 0") (auto simp: trunc_div_def pos_imp_zdiv_nonneg_iff sgn_if)
  with assms show ?thesis
    by (auto simp: ClockSpans_def Let_def simp del: trunc_nonneg intro!: split_span_valid split: if_splits)
qed

lemma ClockSpans_ne: "ClockSpans ts \<noteq> []"
  by (simp add: ClockSpans_def Let_def)

lemma flattened_valid:
  assumes "valid_schedule sched"
  shows "flattenedClockSpans sched \<noteq> []" "\<forall>ts \<in> set (flattenedClockSpans sched). valid_clock_span ts"
proof -
  have z: "valid_clock_span whole_zero" by (simp add: valid_clock_span_def valid_clock_def whole_zero_def)
  show "flattenedClockSpans sched \<noteq> []"
    using ClockSpans_ne by (cases "sc_ClockSpans sched") (simp_all add: flattenedClockSpans_def)
  show "\<forall>ts \<in> set (flattenedClockSpans sched). valid_clock_span ts"
    using assms z ClockSpans_valid by (auto simp: flattenedClockSpans_def valid_schedule_def split: if_splits)
qed

lemma Window_bounds:
  assumes "valid_clock_span ts"
  shows "midnight t \<le> win_Start (ClockSpan_Window ts t)" "win_Start (ClockSpan_Window ts t) \<le> win_End (ClockSpan_Window ts t)"
    "win_End (ClockSpan_Window ts t) \<le> win_Start (ClockSpan_Window ts t) + day"
  using clock_range [of "cs_Start ts"] clock_range [of "cs_End ts"] assms
  by (auto simp: valid_clock_span_def ClockSpan_Window_def Clock_Time_def Let_def day_def)

text \<open>The windows of a day that are not over and do not include the last event.\<close>

definition open_windows :: "schedule \<Rightarrow> time \<Rightarrow> time \<Rightarrow> time \<Rightarrow> window set" where
  "open_windows sched now prev t =
     {w \<in> (\<lambda>ts. ClockSpan_Window ts t) ` set (flattenedClockSpans sched). now \<le> win_End w \<and> \<not> window_Includes w prev}"

definition earliest :: "window set \<Rightarrow> window \<Rightarrow> bool" where
  "earliest W w \<longleftrightarrow> (if W = {} then w = zero_window else w \<in> W \<and> (\<forall>v \<in> W. win_Start w \<le> win_Start v))"

lemma consider_windows_earliest:
  assumes "\<forall>ts \<in> set tss. valid_clock_span ts" "day < now" "\<forall>w \<in> W. \<not> window_IsZero w" "earliest W w"
  shows "earliest (W \<union> {v \<in> (\<lambda>ts. ClockSpan_Window ts t) ` set tss. now \<le> win_End v \<and> \<not> window_Includes v prev})
    (fold (consider_window now prev t) tss w)"
  using assms(1,3,4)
proof (induction tss arbitrary: W w)
  case (Cons ts tss)
  let ?v = "ClockSpan_Window ts t"
  let ?open = "now \<le> win_End ?v \<and> \<not> window_Includes ?v prev"
  define W1 where "W1 = (if ?open then insert ?v W else W)"
  have nz: "\<not> window_IsZero ?v" if ?open
    using Window_bounds [of ts t] Cons.prems(1) that assms(2) by (auto simp: window_IsZero_def is_zero_time_def)
  have "W = {} \<Longrightarrow> window_IsZero w"
    using Cons.prems(3) by (simp add: earliest_def zero_window_def window_IsZero_def is_zero_time_def)
  then have "earliest W1 (consider_window now prev t ts w)"
    using Cons.prems(2,3) by (cases "W = {}") (auto simp: W1_def consider_window_def Let_def earliest_def)
  moreover have "\<forall>v \<in> W1. \<not> window_IsZero v" using Cons.prems(2) nz by (auto simp: W1_def)
  ultimately have "earliest (W1 \<union> {v \<in> (\<lambda>ts. ClockSpan_Window ts t) ` set tss. now \<le> win_End v \<and> \<not> window_Includes v prev})
      (fold (consider_window now prev t) (ts # tss) w)"
    using Cons.IH Cons.prems(1) by simp
  moreover have "W1 \<union> {v \<in> (\<lambda>ts. ClockSpan_Window ts t) ` set tss. now \<le> win_End v \<and> \<not> window_Includes v prev} =
      W \<union> {v \<in> (\<lambda>ts. ClockSpan_Window ts t) ` set (ts # tss). now \<le> win_End v \<and> \<not> window_Includes v prev}"
    by (auto simp: W1_def)
  ultimately show ?case by simp
qed simp

lemma day_window_earliest:
  assumes "valid_schedule sched" "day < now"
  shows "earliest (open_windows sched now prev t) (day_window (flattenedClockSpans sched) now prev t)"
  using consider_windows_earliest [OF flattened_valid(2) [OF assms(1)] assms(2), of "{}" zero_window t prev]
  by (simp add: open_windows_def day_window_def earliest_def [of "{}"])

text \<open>From some day on every window is open.\<close>

lemma windows_open:
  assumes "valid_schedule sched"
  shows "\<exists>K. \<forall>k \<ge> K. open_windows sched now prev (prev + int k * day) \<noteq> {}"
proof (intro exI allI impI)
  fix k assume k: "max 1 (nat (now - midnight prev)) \<le> k"
  from flattened_valid [OF assms] obtain ts where ts: "ts \<in> set (flattenedClockSpans sched)" "valid_clock_span ts"
    by (metis list.set_intros(1) neq_Nil_conv)
  let ?w = "ClockSpan_Window ts (prev + int k * day)"
  have "now - midnight prev \<le> int k" using k by linarith
  also have "\<dots> \<le> int k * day" using day_pos by (simp add: mult_le_cancel_left1 int_one_le_iff_zero_less)
  finally have "now \<le> midnight prev + int k * day" by simp
  moreover have "day \<le> int k * day" using k by simp
  then have "prev < midnight prev + int k * day" using midnight_le(2) [of prev] by linarith
  ultimately have "now \<le> win_End ?w" "prev < win_Start ?w"
    using Window_bounds(1,2) [OF ts(2), of "prev + int k * day"] by simp_all
  with ts(1) show "open_windows sched now prev (prev + int k * day) \<noteq> {}"
    by (auto simp: open_windows_def window_Includes_def)
qed

subsection \<open>Properties\<close>

lemma next_loop_skip:
  assumes "\<And>i. i < k \<Longrightarrow> next_loop sched now prev (t + int i * day) = next_loop sched now prev (t + int i * day + day)"
  shows "next_loop sched now prev t = next_loop sched now prev (t + int k * day)"
  using assms
proof (induction k)
  case (Suc k)
  then have "next_loop sched now prev t = next_loop sched now prev (t + int k * day)" by simp
  also have "\<dots> = next_loop sched now prev (t + int k * day + day)" using Suc.prems [of k] by simp
  finally show ?case by (simp add: algebra_simps)
qed simp

lemma next_loop_step:
  assumes "valid_schedule sched" "day < now"
  shows "next_loop sched now prev t =
    (if week_match sched t = Some True \<and> open_windows sched now prev t \<noteq> {}
     then Some (day_window (flattenedClockSpans sched) now prev t) else next_loop sched now prev (t + day))"
proof -
  from week_match_total [OF assms(1)] obtain b where b: "week_match sched t = Some b" by blast
  have "win_End (day_window (flattenedClockSpans sched) now prev t) < now \<longleftrightarrow> open_windows sched now prev t = {}"
    using day_window_earliest [OF assms, of prev t] assms(2) less_trans [OF day_pos assms(2)]
    by (auto simp: earliest_def zero_window_def open_windows_def split: if_splits)
  with b show ?thesis by (subst next_loop.simps) auto
qed

lemma Schedule_Next_day:
  assumes "valid_schedule sched" "day < now"
  obtains k where "week_match sched (prev + int k * day) = Some True" "open_windows sched now prev (prev + int k * day) \<noteq> {}"
    "\<forall>i < k. week_match sched (prev + int i * day) \<noteq> Some True \<or> open_windows sched now prev (prev + int i * day) = {}"
    "Schedule_Next sched now prev = Some (day_window (flattenedClockSpans sched) now prev (prev + int k * day))"
proof -
  define hit where "hit k \<longleftrightarrow> week_match sched (prev + int k * day) = Some True \<and>
    open_windows sched now prev (prev + int k * day) \<noteq> {}" for k
  from windows_open [OF assms(1)] obtain K where "\<And>k. K \<le> k \<Longrightarrow> open_windows sched now prev (prev + int k * day) \<noteq> {}"
    by blast
  with week_match_often [OF assms(1), of K prev] have "\<exists>k. hit k" by (auto simp: hit_def)
  then obtain k where k: "hit k" "\<forall>i < k. \<not> hit i" by (metis LeastI not_less_Least)
  let ?t = "prev + int k * day"
  have "next_loop sched now prev (prev + int i * day) = next_loop sched now prev (prev + int i * day + day)" if "i < k" for i
    using k(2) that by (subst next_loop_step [OF assms]) (auto simp: hit_def)
  from next_loop_skip [OF this] have "Schedule_Next sched now prev = next_loop sched now prev ?t"
    by (simp add: Schedule_Next_def)
  also have "\<dots> = Some (day_window (flattenedClockSpans sched) now prev ?t)"
    using k(1) by (subst next_loop_step [OF assms]) (simp add: hit_def)
  finally show thesis using that [of k] k by (auto simp: hit_def)
qed

text \<open>
  C33: For every valid schedule the search for the next window ends.  What it finds is a window of the first day, counted
  from the last event, that the weeks of the schedule match and that has a window which is not over yet and does
  not include the last event; of these it is the earliest of the day.
\<close>

theorem Schedule_Next_correct:
  assumes "valid_schedule sched" "day < now"
  shows "\<exists>k w. Schedule_Next sched now prev = Some w \<and>
    week_match sched (prev + int k * day) = Some True \<and>
    w \<in> open_windows sched now prev (prev + int k * day) \<and>
    (\<forall>v \<in> open_windows sched now prev (prev + int k * day). win_Start w \<le> win_Start v) \<and>
    (\<forall>i < k. week_match sched (prev + int i * day) \<noteq> Some True \<or> open_windows sched now prev (prev + int i * day) = {})"
proof -
  from Schedule_Next_day [OF assms, of prev] obtain k where
    k: "week_match sched (prev + int k * day) = Some True" "open_windows sched now prev (prev + int k * day) \<noteq> {}"
    "\<forall>i < k. week_match sched (prev + int i * day) \<noteq> Some True \<or> open_windows sched now prev (prev + int i * day) = {}"
    "Schedule_Next sched now prev = Some (day_window (flattenedClockSpans sched) now prev (prev + int k * day))"
    by blast
  have "earliest (open_windows sched now prev (prev + int k * day))
      (day_window (flattenedClockSpans sched) now prev (prev + int k * day))"
    by (rule day_window_earliest [OF assms])
  with k show ?thesis by (intro exI [of _ k]) (auto simp: earliest_def)
qed

definition monday_morning :: schedule where
  "monday_morning =
     \<lparr>sc_WeekSpans = [\<lparr>ws_Start = \<lparr>wk_Weekday = 1, wk_Pos = 0\<rparr>, ws_End = \<lparr>wk_Weekday = 1, wk_Pos = 0\<rparr>\<rparr>],
      sc_ClockSpans = [\<lparr>cs_Start = \<lparr>clk_Hour = 10, clk_Minute = 0\<rparr>, cs_End = \<lparr>clk_Hour = 12, clk_Minute = 0\<rparr>,
        cs_Split = 0, cs_Spread = True\<rparr>]\<rparr>"

lemma monday_morning_valid: "valid_schedule monday_morning"
  by (simp add: monday_morning_def valid_schedule_def valid_week_span_def valid_clock_span_def valid_clock_def
      EveryWeek_def LastWeek_def)

theorem Schedule_Next_correct_witness:
  "\<exists>k w. Schedule_Next monday_morning (2 * day) 0 = Some w \<and>
    week_match monday_morning (0 + int k * day) = Some True \<and>
    w \<in> open_windows monday_morning (2 * day) 0 (0 + int k * day) \<and>
    (\<forall>v \<in> open_windows monday_morning (2 * day) 0 (0 + int k * day). win_Start w \<le> win_Start v) \<and>
    (\<forall>i < k. week_match monday_morning (0 + int i * day) \<noteq> Some True \<or>
      open_windows monday_morning (2 * day) 0 (0 + int i * day) = {})"
  by (rule Schedule_Next_correct) (simp_all add: monday_morning_valid)

subsection \<open>The next event\<close>

definition fallback_window :: "time \<Rightarrow> duration \<Rightarrow> window" where
  "fallback_window prev maxDuration =
     \<lparr>win_Start = prev + maxDuration, win_End = prev + maxDuration + hour, win_Spread = False\<rparr>"

lemma Schedule_Next_window:
  assumes "valid_schedule sched" "day < now"
  obtains w where "Schedule_Next sched now prev = Some w" "win_Start w \<le> win_End w"
proof -
  from Schedule_Next_day [OF assms, of prev] obtain k where
    k: "open_windows sched now prev (prev + int k * day) \<noteq> {}"
    "Schedule_Next sched now prev = Some (day_window (flattenedClockSpans sched) now prev (prev + int k * day))"
    by blast
  with day_window_earliest [OF assms, of prev "prev + int k * day"]
  have "day_window (flattenedClockSpans sched) now prev (prev + int k * day) \<in> open_windows sched now prev (prev + int k * day)"
    by (simp add: earliest_def)
  then have "win_Start (day_window (flattenedClockSpans sched) now prev (prev + int k * day)) \<le>
      win_End (day_window (flattenedClockSpans sched) now prev (prev + int k * day))"
    using flattened_valid(2) [OF assms(1)] Window_bounds(2) by (auto simp: open_windows_def)
  with k(2) show thesis by (rule that)
qed

lemma first_window_earliest:
  assumes "\<forall>sched \<in> set scheds. valid_schedule sched" "day < now" "win_Start w \<le> win_End w"
  shows "\<exists>v. first_window scheds now prev w = Some v \<and> win_Start v \<le> win_End v \<and>
    (v = w \<or> (\<exists>sched \<in> set scheds. Schedule_Next sched now prev = Some v)) \<and> win_Start v \<le> win_Start w \<and>
    (\<forall>sched \<in> set scheds. \<forall>u. Schedule_Next sched now prev = Some u \<longrightarrow> win_Start v \<le> win_Start u)"
  using assms(1,3)
proof (induction scheds arbitrary: w)
  case (Cons sched scheds)
  from Cons.prems(1) have "valid_schedule sched" by simp
  from Schedule_Next_window [OF this assms(2), of prev] obtain n where
    n: "Schedule_Next sched now prev = Some n" "win_Start n \<le> win_End n" by blast
  let ?w = "if win_Start n < win_Start w then n else w"
  have "\<forall>sched \<in> set scheds. valid_schedule sched" "win_Start ?w \<le> win_End ?w" using Cons.prems n by simp_all
  from Cons.IH [OF this] obtain v where
    v: "first_window scheds now prev ?w = Some v" "win_Start v \<le> win_End v"
    "v = ?w \<or> (\<exists>sched \<in> set scheds. Schedule_Next sched now prev = Some v)" "win_Start v \<le> win_Start ?w"
    "\<forall>sched \<in> set scheds. \<forall>u. Schedule_Next sched now prev = Some u \<longrightarrow> win_Start v \<le> win_Start u" by blast
  moreover have "first_window (sched # scheds) now prev w = first_window scheds now prev ?w" by (simp add: n)
  ultimately show ?case using n by (intro exI [of _ v]) (auto split: if_splits)
qed simp

lemma randDur_bounds:
  assumes "\<And>d. 0 < d \<Longrightarrow> 0 \<le> random d \<and> random d < d" "a \<le> b"
  shows "0 \<le> randDur random a b" "randDur random a b \<le> b - a"
proof -
  have "0 < minute" by (simp add: time_units)
  with assms(1) [of "b - a"] assms(1) [of "b - a - 5 * minute"] assms(2)
  show "0 \<le> randDur random a b" "randDur random a b \<le> b - a"
    by (auto simp: randDur_def Let_def split: if_splits)
qed

text \<open>
  For valid schedules the wait for the next event is never negative.  It is nothing when the earliest of the windows
  of the schedules and the longest time allowed has begun, and else it ends within that window, at its start
  unless the window is spread.
\<close>

lemma Next_in_earliest_window:
  assumes "\<forall>sched \<in> set scheds. valid_schedule sched" "day < now" "\<And>d. 0 < d \<Longrightarrow> 0 \<le> random d \<and> random d < d"
  shows "\<exists>w wait. Next random scheds now prev maxDuration = Some wait \<and> 0 \<le> wait \<and>
    (w = fallback_window prev maxDuration \<or> (\<exists>sched \<in> set scheds. Schedule_Next sched now prev = Some w)) \<and>
    (\<forall>sched \<in> set scheds. \<forall>u. Schedule_Next sched now prev = Some u \<longrightarrow> win_Start w \<le> win_Start u) \<and>
    win_Start w \<le> prev + maxDuration \<and>
    (if win_Start w < now then wait = 0
     else win_Start w \<le> now + wait \<and> now + wait \<le> win_End w \<and> (win_Spread w \<or> now + wait = win_Start w))"
proof -
  have "win_Start (fallback_window prev maxDuration) \<le> win_End (fallback_window prev maxDuration)"
    by (simp add: fallback_window_def time_units)
  from first_window_earliest [OF assms(1,2) this, of prev] obtain w where
    w: "first_window scheds now prev (fallback_window prev maxDuration) = Some w" "win_Start w \<le> win_End w"
    "w = fallback_window prev maxDuration \<or> (\<exists>sched \<in> set scheds. Schedule_Next sched now prev = Some w)"
    "win_Start w \<le> prev + maxDuration"
    "\<forall>sched \<in> set scheds. \<forall>u. Schedule_Next sched now prev = Some u \<longrightarrow> win_Start w \<le> win_Start u"
    by (auto simp: fallback_window_def)
  let ?wait = "if win_Start w < now then 0
    else win_Start w - now + (if win_Spread w then randDur random (win_Start w) (win_End w) else 0)"
  have "Next random scheds now prev maxDuration = Some ?wait"
    using w(1) by (simp add: Next_def fallback_window_def)
  moreover have "0 \<le> ?wait" "if win_Start w < now then ?wait = 0
     else win_Start w \<le> now + ?wait \<and> now + ?wait \<le> win_End w \<and> (win_Spread w \<or> now + ?wait = win_Start w)"
    using w(2) randDur_bounds [of random, OF assms(3) w(2)] by auto
  ultimately show ?thesis using w by blast
qed

definition half :: "duration \<Rightarrow> duration" where "half d = d div 2"

text \<open>The doc of \<open>Next\<close> promises an event no later than the longest time allowed; a window that begins within it may end later.\<close>

lemma Next_beyond_maximum:
  "Next half [monday_morning] (2 * day) 0 (7 * day + 10 * hour + minute) = Some (5 * day + 10 * hour + 3450 * second)"
proof -
  have skip: "next_loop monday_morning (2 * day) 0 (0 + int i * day) = next_loop monday_morning (2 * day) 0 (0 + int i * day + day)"
    if "i < 7" for i
  proof -
    have "\<forall>i \<in> set [0..<7]. week_match monday_morning (int i * day) = Some (i = 0)" by code_simp
    moreover have "win_End (day_window (flattenedClockSpans monday_morning) (2 * day) 0 0) < 2 * day" by code_simp
    moreover have "week_match monday_morning 0 = Some True" by code_simp
    ultimately show ?thesis using that by (subst next_loop.simps) (cases "i = 0", simp_all)
  qed
  have "week_match monday_morning (7 * day) = Some True" by code_simp
  moreover have "day_window (flattenedClockSpans monday_morning) (2 * day) 0 (7 * day) =
      \<lparr>win_Start = 7 * day + 10 * hour, win_End = 7 * day + 12 * hour, win_Spread = True\<rparr>" by code_simp
  ultimately have "next_loop monday_morning (2 * day) 0 (7 * day) =
      Some \<lparr>win_Start = 7 * day + 10 * hour, win_End = 7 * day + 12 * hour, win_Spread = True\<rparr>"
    by (subst next_loop.simps) (simp add: time_units)
  with next_loop_skip [of 7, OF skip] have "Schedule_Next monday_morning (2 * day) 0 =
      Some \<lparr>win_Start = 7 * day + 10 * hour, win_End = 7 * day + 12 * hour, win_Spread = True\<rparr>"
    by (simp add: Schedule_Next_def)
  then show ?thesis by (simp add: Next_def randDur_def half_def time_units)
qed

subsection \<open>Spans of weeks that match nothing\<close>

text \<open>
  The last day of a span from the fourth Monday to the fifth Friday is looked for in the next month when there are
  four Fridays only, and days are compared by their number in the month: in February 2021 the span matches no day.
\<close>

definition mon4_fri5 :: week_span where
  "mon4_fri5 = \<lparr>ws_Start = \<lparr>wk_Weekday = 1, wk_Pos = 4\<rparr>, ws_End = \<lparr>wk_Weekday = 5, wk_Pos = 5\<rparr>\<rparr>"

lemma fifth_friday_missed:
  "valid_week_span mon4_fri5"
  "\<forall>d \<in> set [737821..737848]. WeekSpan_Match mon4_fri5 (d * day) = Some False"
  "map civil [737821, 737848] = [(2021, 2, 1), (2021, 2, 28)]"
proof -
  have at: "Day ((737821 + j) * day) = snd (snd (civil (737821 + j)))" for j
    by (simp add: Day_def day_number_def)
  have "\<forall>d \<in> set [737821..737848]. snd (snd (civil d)) = d - 737820" by code_simp
  then have days: "\<forall>d \<in> set [737821..737848]. Day (d * day) = d - 737820" using at [of "d - 737821" for d] by simp
  have "WeekSpan_Match mon4_fri5 (d * day) = Some False" if "d \<in> set [737821..737848]" for d
  proof -
    have d: "Day (d * day) = d - 737820" using days that by blast
    then have first: "Weekday (d * day - (Day (d * day) - 1) * day) = 1"
      by (simp add: Weekday_def day_number_def left_diff_distrib [symmetric])
    have "Day ((737821 + 21) * day) = 22" "Day ((737821 + 32) * day) = 5"
      unfolding at by code_simp+
    moreover have "d * day + (21 - (d - 737820 - 1)) * day = (737821 + 21) * day"
      "d * day + (32 - (d - 737820 - 1)) * day = (737821 + 32) * day"
      by (simp_all add: algebra_simps)
    ultimately show ?thesis using first d
      by (simp add: WeekSpan_Match_def mon4_fri5_def EveryWeek_def LastWeek_def findNthWeekDay_eq)
  qed
  then show "\<forall>d \<in> set [737821..737848]. WeekSpan_Match mon4_fri5 (d * day) = Some False" by blast
  show "valid_week_span mon4_fri5"
    by (simp add: valid_week_span_def mon4_fri5_def EveryWeek_def LastWeek_def)
  show "map civil [737821, 737848] = [(2021, 2, 1), (2021, 2, 28)]" by code_simp
qed

text \<open>Two equal spans of five minutes end a minute early, because the times of day have no seconds.\<close>

lemma split_spans_leave_gaps:
  "map (\<lambda>ts. (cs_Start ts, cs_End ts))
     (ClockSpans \<lparr>cs_Start = \<lparr>clk_Hour = 10, clk_Minute = 0\<rparr>, cs_End = \<lparr>clk_Hour = 10, clk_Minute = 5\<rparr>,
        cs_Split = 2, cs_Spread = False\<rparr>) =
   [(\<lparr>clk_Hour = 10, clk_Minute = 0\<rparr>, \<lparr>clk_Hour = 10, clk_Minute = 2\<rparr>),
    (\<lparr>clk_Hour = 10, clk_Minute = 2\<rparr>, \<lparr>clk_Hour = 10, clk_Minute = 4\<rparr>)]"
  by code_simp

text \<open>
  The window of a span that crosses midnight is looked for on the day of the instant only: half an hour after midnight
  is not in a span from eleven to one.
\<close>

lemma Includes_misses_after_midnight:
  "map (Schedule_Includes \<lparr>sc_WeekSpans = [], sc_ClockSpans = [\<lparr>cs_Start = \<lparr>clk_Hour = 23, clk_Minute = 0\<rparr>,
     cs_End = \<lparr>clk_Hour = 1, clk_Minute = 0\<rparr>, cs_Split = 0, cs_Spread = False\<rparr>]\<rparr>)
     [737821 * day + 23 * hour + 30 * minute, 737822 * day + 30 * minute] = [Some True, Some False]"
  by code_simp

end
