(* ===== verification/ScheduleParse.thy ===== *)
theory ScheduleParse
  imports Schedule Strings
begin

text \<open>
  \<open>internals/timeutil/schedule.go\<close>: the text of schedules.  Everything the parser accepts is a valid schedule, so that the
  next event of a parsed schedule is always found, and a schedule that is written is read back.
\<close>

subsection \<open>Numbers and separators\<close>

text \<open>\<open>strings.Split\<close> at a pair of equal characters, and the replacement of the first occurrence of a character.\<close>

fun split_pair :: "char \<Rightarrow> string \<Rightarrow> string list" where
  "split_pair c (x # y # s) =
     (if x = c \<and> y = c then [] # split_pair c s
      else case split_pair c (y # s) of [] \<Rightarrow> [] | p # ps \<Rightarrow> (x # p) # ps)"
| "split_pair c s = [s]"

fun replace_first :: "char \<Rightarrow> char \<Rightarrow> string \<Rightarrow> string" where
  "replace_first a b [] = []"
| "replace_first a b (x # s) = (if x = a then b # s else x # replace_first a b s)"

definition spanToken :: char where "spanToken = CHR ''-''"
definition spreadToken :: char where "spreadToken = CHR ''~''"
definition countToken :: char where "countToken = CHR ''/''"
definition comma :: char where "comma = CHR '',''"
definition colon :: char where "colon = CHR '':''"

subsection \<open>Writing\<close>

definition pad2 :: "int \<Rightarrow> string" where
  "pad2 n = (if 0 \<le> n \<and> n < 10 then CHR ''0'' # int_string n else int_string n)"

definition Clock_String :: "clock \<Rightarrow> string" where
  "Clock_String t = pad2 (clk_Hour t) @ colon # pad2 (clk_Minute t)"

definition day_names :: "(string \<times> int) list" where
  "day_names = [(''sun'', 0), (''mon'', 1), (''tue'', 2), (''wed'', 3), (''thu'', 4), (''fri'', 5), (''sat'', 6)]"

text \<open>The name of a day by the library, cut to three characters in lower case.\<close>

definition day_name :: "int \<Rightarrow> string" where
  "day_name d = (if 0 \<le> d \<and> d \<le> 6 then fst (day_names ! nat d) else ''%!w'')"

definition Week_String :: "week \<Rightarrow> string" where
  "Week_String w =
     (if wk_Pos w = EveryWeek then day_name (wk_Weekday w) else day_name (wk_Weekday w) @ itoa (wk_Pos w))"

definition WeekSpan_String :: "week_span \<Rightarrow> string" where
  "WeekSpan_String ws =
     (if ws_End ws \<noteq> ws_Start ws then Week_String (ws_Start ws) @ ''-'' @ Week_String (ws_End ws)
      else Week_String (ws_Start ws))"

definition ClockSpan_String :: "clock_span \<Rightarrow> string" where
  "ClockSpan_String ts =
     (let sep = (if cs_Spread ts then ''~'' else ''-'') in
      if cs_End ts \<noteq> cs_Start ts then
        Clock_String (cs_Start ts) @ sep @ Clock_String (cs_End ts) @
        (if 0 < cs_Split ts then ''/'' @ itoa (cs_Split ts) else [])
      else Clock_String (cs_Start ts))"

definition Schedule_String :: "schedule \<Rightarrow> string" where
  "Schedule_String sched =
     join_with comma (map WeekSpan_String (sc_WeekSpans sched)) @
     (if sc_WeekSpans sched \<noteq> [] \<and> sc_ClockSpans sched \<noteq> [] then [comma] else []) @
     join_with comma (map ClockSpan_String (sc_ClockSpans sched))"

subsection \<open>Reading times of day\<close>

definition hour_group :: "string \<Rightarrow> bool" where
  "hour_group h \<longleftrightarrow>
     (case h of
        [a] \<Rightarrow> is_digit a
      | [a, b] \<Rightarrow> a \<in> {CHR ''0'', CHR ''1''} \<and> is_digit b \<or> a = CHR ''2'' \<and> CHR ''0'' \<le> b \<and> b \<le> CHR ''3''
      | _ \<Rightarrow> False)"

definition minute_group :: "string \<Rightarrow> bool" where
  "minute_group m \<longleftrightarrow> (case m of [a, b] \<Rightarrow> CHR ''0'' \<le> a \<and> a \<le> CHR ''5'' \<and> is_digit b | _ \<Rightarrow> False)"

text \<open>The groups of the regular expression of a time, apart from 24:00.\<close>

definition validTime :: "string \<Rightarrow> (string \<times> string) option" where
  "validTime s =
     (case cut_at colon s of
        Some (h, m) \<Rightarrow> if hour_group h \<and> minute_group m then Some (h, m) else None
      | None \<Rightarrow> None)"

definition ParseClock :: "string \<Rightarrow> err + clock" where
  "ParseClock s =
     (if s = ''24:00'' then Inr \<lparr>clk_Hour = 24, clk_Minute = 0\<rparr>
      else case validTime s of
        None \<Rightarrow> Inl (''cannot parse %q'', [s])
      | Some (h, m) \<Rightarrow> Inr \<lparr>clk_Hour = int (decimal_of h), clk_Minute = int (decimal_of m)\<rparr>)"

text \<open>An error is replaced by another.\<close>

definition or_err :: "'e + 'a \<Rightarrow> 'f \<Rightarrow> 'f + 'a" where
  "or_err r e = (case r of Inl _ \<Rightarrow> Inl e | Inr x \<Rightarrow> Inr x)"

definition parseClockRange :: "string \<Rightarrow> err + (clock \<times> clock)" where
  "parseClockRange s =
     (case cut_at spanToken s of
        None \<Rightarrow> Inl (''cannot parse %q: not a valid interval'', [s])
      | Some (a, b) \<Rightarrow>
          and_then (or_err (ParseClock a) (''cannot parse %q: not a valid time'', [a])) (\<lambda>x.
          and_then (or_err (ParseClock b) (''cannot parse %q: not a valid time'', [b])) (\<lambda>y.
          Inr (x, y))))"

definition parseCount :: "string \<Rightarrow> err + (nat \<times> string)" where
  "parseCount s =
     (if countToken \<notin> set s then Inr (0, s)
      else case split_on countToken s of
        [prev, countStr] \<Rightarrow>
          (case ParseUint32 countStr of
             None \<Rightarrow> Inl (''cannot parse %q: invalid event interval'', [s])
           | Some c \<Rightarrow> if c = 0 then Inl (''cannot parse %q: invalid event interval'', [s]) else Inr (c, prev))
      | _ \<Rightarrow> Inl (''cannot parse %q: invalid event count'', [s]))"

definition parseClockSpan :: "string \<Rightarrow> err + clock_span" where
  "parseClockSpan s =
     and_then (or_err (parseCount s) (''cannot parse %q: not a valid interval'', [s])) (\<lambda>(split, r).
     let spread = spreadToken \<in> set r;
         r = (if spread then replace_first spreadToken spanToken r else r);
         span = (\<lambda>a b. \<lparr>cs_Start = a, cs_End = b, cs_Split = split, cs_Spread = spread\<rparr>)
     in if r = ''-'' then Inr (span \<lparr>clk_Hour = 0, clk_Minute = 0\<rparr> \<lparr>clk_Hour = 24, clk_Minute = 0\<rparr>)
        else
          or_err
            (if spanToken \<in> set r then and_then (parseClockRange r) (\<lambda>(a, b). Inr (span a b))
             else and_then (ParseClock r) (\<lambda>a. Inr (span a a)))
            (''cannot parse %q: not a valid time'', [s]))"

subsection \<open>Reading weekdays\<close>

definition parseWeekday :: "string \<Rightarrow> err + week" where
  "parseWeekday s =
     (if length s \<noteq> 3 \<and> length s \<noteq> 4 then Inl (''cannot parse %q: invalid format'', [s])
      else
        and_then
          (if length s = 4 then
             (case ParseUint32 (drop 3 s) of
                None \<Rightarrow> Inl (''cannot parse %q: invalid week number'', [s])
              | Some v \<Rightarrow> if v < 1 \<or> 5 < v then Inl (''cannot parse %q: invalid week number'', [s]) else Inr (take 3 s, v))
           else Inr (s, 0))
          (\<lambda>(d, pos).
            case map_of day_names d of
              None \<Rightarrow> Inl (''cannot parse %q: invalid weekday'', [s])
            | Some weekday \<Rightarrow> Inr \<lparr>wk_Weekday = weekday, wk_Pos = pos\<rparr>))"

definition not_a_weekday :: "string \<Rightarrow> string \<Rightarrow> err" where
  "not_a_weekday s p = (''cannot parse %q: %q is not a valid weekday'', [s, p])"

definition parseWeekSpan :: "string \<Rightarrow> err + week_span" where
  "parseWeekSpan s =
     (let ps = split_on spanToken s in
      if 2 < length ps then Inl (''cannot parse %q: invalid week span'', [s])
      else
        and_then (or_err (parseWeekday (hd ps)) (not_a_weekday s (hd ps))) (\<lambda>a.
        and_then
          (if length ps = 2 then or_err (parseWeekday (ps ! 1)) (not_a_weekday s (ps ! 1)) else Inr a) (\<lambda>b.
        if wk_Pos b < wk_Pos a then Inl (''cannot parse %q: unsupported schedule'', [s])
        else if (wk_Pos a \<noteq> EveryWeek) \<noteq> (wk_Pos b \<noteq> EveryWeek)
        then Inl (''cannot parse %q: week number must be present for both weekdays or neither'', [s])
        else Inr \<lparr>ws_Start = a, ws_End = b\<rparr>)))"

subsection \<open>Reading schedules\<close>

text \<open>The loop over the fragments of an event set: after the first time only times may follow.\<close>

fun parse_fragments :: "string \<Rightarrow> string list \<Rightarrow> bool \<Rightarrow> schedule \<Rightarrow> err + schedule" where
  "parse_fragments s [] expectTime sched = Inr sched"
| "parse_fragments s (fragment # fragments) expectTime sched =
     (if fragment = [] then Inl (''cannot parse %q: not a valid fragment'', [s])
      else if colon \<in> set fragment then
        and_then (parseClockSpan fragment) (\<lambda>span.
        parse_fragments s fragments True (sched\<lparr>sc_ClockSpans := sc_ClockSpans sched @ [span]\<rparr>))
      else if \<not> expectTime then
        and_then (parseWeekSpan fragment) (\<lambda>span.
        parse_fragments s fragments expectTime (sched\<lparr>sc_WeekSpans := sc_WeekSpans sched @ [span]\<rparr>))
      else Inl (''cannot parse %q: invalid schedule fragment'', [fragment]))"

definition parseEventSet :: "string \<Rightarrow> err + schedule" where
  "parseEventSet s = parse_fragments s (split_on comma s) False \<lparr>sc_WeekSpans = [], sc_ClockSpans = []\<rparr>"

definition ParseSchedule :: "string \<Rightarrow> err + schedule list" where
  "ParseSchedule spec = map_try parseEventSet (split_pair comma spec)"

definition legacy_schedule :: "string \<Rightarrow> err + schedule" where
  "legacy_schedule s =
     and_then (parseClockRange s) (\<lambda>(a, b).
     Inr \<lparr>sc_WeekSpans = [], sc_ClockSpans = [\<lparr>cs_Start = a, cs_End = b, cs_Split = 0, cs_Spread = True\<rparr>]\<rparr>)"

definition ParseLegacySchedule :: "string \<Rightarrow> err + schedule list" where
  "ParseLegacySchedule spec = map_try legacy_schedule (split_on countToken spec)"

lemma parse_samples:
  "ParseSchedule ''mon,10:00'' = Inr [
     \<lparr>sc_WeekSpans = [\<lparr>ws_Start = \<lparr>wk_Weekday = 1, wk_Pos = 0\<rparr>, ws_End = \<lparr>wk_Weekday = 1, wk_Pos = 0\<rparr>\<rparr>],
      sc_ClockSpans = [\<lparr>cs_Start = \<lparr>clk_Hour = 10, clk_Minute = 0\<rparr>, cs_End = \<lparr>clk_Hour = 10, clk_Minute = 0\<rparr>,
        cs_Split = 0, cs_Spread = False\<rparr>]\<rparr>]"
  "ParseSchedule ''mon4-mon1'' = Inl (''cannot parse %q: unsupported schedule'', [''mon4-mon1''])"
  "ParseSchedule ''9:00,mon'' = Inl (''cannot parse %q: invalid schedule fragment'', [''mon''])"
  by code_simp+

subsection \<open>What is accepted is valid\<close>

lemma or_err_Inr [simp]: "or_err r e = Inr x \<longleftrightarrow> r = Inr x"
  by (cases r) (simp_all add: or_err_def)

lemma or_err_ok [simp]: "or_err (Inr x) e = Inr x"
  by simp

lemma ParseClock_valid: "ParseClock s = Inr t \<Longrightarrow> valid_clock t"
proof (cases "validTime s")
  case (Some hm)
  obtain h m where hm: "hm = (h, m)" by (cases hm)
  from Some hm have g: "hour_group h" "minute_group m" by (auto simp: validTime_def split: option.splits if_splits)
  have "decimal_of h \<le> 23" using g(1)
    by (auto simp: hour_group_def decimal_of_def digit_value_def is_digit_def less_eq_char_def split: list.splits)
  moreover have "decimal_of m \<le> 59" using g(2)
    by (auto simp: minute_group_def decimal_of_def digit_value_def is_digit_def less_eq_char_def split: list.splits)
  moreover assume "ParseClock s = Inr t"
  ultimately show ?thesis using Some hm by (auto simp: ParseClock_def valid_clock_def split: if_splits)
qed (auto simp: ParseClock_def valid_clock_def split: if_splits)

lemma parseClockRange_valid: "parseClockRange s = Inr (a, b) \<Longrightarrow> valid_clock a \<and> valid_clock b"
  by (auto simp: parseClockRange_def and_then_Inr_iff dest: ParseClock_valid split: option.splits)

lemma parseClockSpan_valid: "parseClockSpan s = Inr ts \<Longrightarrow> valid_clock_span ts"
  by (auto simp: parseClockSpan_def valid_clock_span_def and_then_Inr_iff Let_def valid_clock_def [of "\<lparr>clk_Hour = _, clk_Minute = _\<rparr>"]
      dest: ParseClock_valid parseClockRange_valid split: if_splits)

lemma parseWeekday_valid:
  "parseWeekday s = Inr w \<Longrightarrow> 0 \<le> wk_Weekday w \<and> wk_Weekday w \<le> 6 \<and> wk_Pos w \<le> LastWeek"
  by (auto simp: parseWeekday_def and_then_Inr_iff LastWeek_def day_names_def split: if_splits option.splits)

lemma parseWeekSpan_valid: "parseWeekSpan s = Inr ws \<Longrightarrow> valid_week_span ws"
  by (auto simp: parseWeekSpan_def valid_week_span_def and_then_Inr_iff Let_def EveryWeek_def
      dest!: parseWeekday_valid split: if_splits)

lemma parse_fragments_valid:
  "parse_fragments s fs expectTime sched = Inr sched' \<Longrightarrow> valid_schedule sched \<Longrightarrow> valid_schedule sched'"
proof (induction fs arbitrary: expectTime sched)
  case (Cons f fs)
  consider ts where "parseClockSpan f = Inr ts"
      "parse_fragments s fs True (sched\<lparr>sc_ClockSpans := sc_ClockSpans sched @ [ts]\<rparr>) = Inr sched'"
    | ws where "parseWeekSpan f = Inr ws"
      "parse_fragments s fs expectTime (sched\<lparr>sc_WeekSpans := sc_WeekSpans sched @ [ws]\<rparr>) = Inr sched'"
    using Cons.prems(1) by (auto simp: and_then_Inr_iff split: if_splits)
  then show ?case
  proof cases
    case 1
    show ?thesis
      by (rule Cons.IH [OF 1(2)]) (use parseClockSpan_valid [OF 1(1)] Cons.prems(2) in \<open>auto simp: valid_schedule_def\<close>)
  next
    case 2
    show ?thesis
      by (rule Cons.IH [OF 2(2)]) (use parseWeekSpan_valid [OF 2(1)] Cons.prems(2) in \<open>auto simp: valid_schedule_def\<close>)
  qed
qed simp

lemma parseEventSet_valid: "parseEventSet s = Inr sched \<Longrightarrow> valid_schedule sched"
  unfolding parseEventSet_def by (erule parse_fragments_valid) (simp add: valid_schedule_def)

lemma legacy_schedule_valid: "legacy_schedule s = Inr sched \<Longrightarrow> valid_schedule sched"
  by (auto simp: legacy_schedule_def and_then_Inr_iff valid_schedule_def valid_clock_span_def dest: parseClockRange_valid)

lemma map_try_all: "map_try f xs = Inr ys \<Longrightarrow> (\<And>x y. f x = Inr y \<Longrightarrow> P y) \<Longrightarrow> y \<in> set ys \<Longrightarrow> P y"
  by (induction xs arbitrary: ys) (auto simp: and_then_Inr_iff)

text \<open>
  Every schedule that one of the two parsers accepts is valid, and the next event of accepted schedules is found
  whatever the last event was.  The wait for it is not negative; it is nothing when the earliest of the windows of
  the schedules and of the longest time allowed has begun, and else it ends within that window, at its start
  unless the window is spread.
\<close>

lemma parsed_schedule_has_next:
  assumes "ParseSchedule spec = Inr scheds \<or> ParseLegacySchedule spec = Inr scheds" "day < now"
    "\<And>d. 0 < d \<Longrightarrow> 0 \<le> random d \<and> random d < d"
  shows "(\<forall>sched \<in> set scheds. valid_schedule sched) \<and>
    (\<exists>w wait. Next random scheds now prev maxDuration = Some wait \<and> 0 \<le> wait \<and>
      (w = fallback_window prev maxDuration \<or> (\<exists>sched \<in> set scheds. Schedule_Next sched now prev = Some w)) \<and>
      (\<forall>sched \<in> set scheds. \<forall>u. Schedule_Next sched now prev = Some u \<longrightarrow> win_Start w \<le> win_Start u) \<and>
      win_Start w \<le> prev + maxDuration \<and>
      (if win_Start w < now then wait = 0
       else win_Start w \<le> now + wait \<and> now + wait \<le> win_End w \<and> (win_Spread w \<or> now + wait = win_Start w)))"
proof -
  have valid: "\<forall>sched \<in> set scheds. valid_schedule sched"
    using assms(1) map_try_all [of parseEventSet _ scheds valid_schedule, OF _ parseEventSet_valid]
      map_try_all [of legacy_schedule _ scheds valid_schedule, OF _ legacy_schedule_valid]
    by (auto simp: ParseSchedule_def ParseLegacySchedule_def)
  with Next_in_earliest_window [OF valid assms(2,3), of prev maxDuration] show ?thesis by blast
qed

subsection \<open>What is written is read back\<close>

lemma replace_first_append: "c \<notin> set p \<Longrightarrow> replace_first c d (p @ c # q) = p @ d # q"
  by (induction p) auto

lemma hour_written:
  "0 \<le> h \<Longrightarrow> h \<le> 23 \<Longrightarrow> hour_group (pad2 h) \<and> int (decimal_of (pad2 h)) = h \<and> pad2 h \<noteq> ''24''"
proof -
  have "\<forall>h \<in> set [0..23]. hour_group (pad2 h) \<and> int (decimal_of (pad2 h)) = h \<and> pad2 h \<noteq> ''24''" by code_simp
  then show "0 \<le> h \<Longrightarrow> h \<le> 23 \<Longrightarrow> ?thesis" by simp
qed

lemma minute_written: "0 \<le> m \<Longrightarrow> m \<le> 59 \<Longrightarrow> minute_group (pad2 m) \<and> int (decimal_of (pad2 m)) = m"
proof -
  have "\<forall>m \<in> set [0..59]. minute_group (pad2 m) \<and> int (decimal_of (pad2 m)) = m" by code_simp
  then show "0 \<le> m \<Longrightarrow> m \<le> 59 \<Longrightarrow> ?thesis" by simp
qed

lemma pad2_digits: "0 \<le> n \<Longrightarrow> list_all is_digit (pad2 n)"
  by (simp add: pad2_def int_string_def itoa_digits) (simp add: is_digit_def)

lemma digit_not_token:
  "is_digit c \<Longrightarrow> c \<noteq> colon \<and> c \<noteq> spanToken \<and> c \<noteq> spreadToken \<and> c \<noteq> countToken \<and> c \<noteq> comma"
  by (auto simp: is_digit_def less_eq_char_def colon_def spanToken_def spreadToken_def countToken_def comma_def)

lemma tokens_distinct [simp]:
  "colon \<noteq> spanToken" "colon \<noteq> spreadToken" "colon \<noteq> countToken" "colon \<noteq> comma"
  "spanToken \<noteq> colon" "spreadToken \<noteq> colon" "countToken \<noteq> colon" "comma \<noteq> colon"
  "spanToken \<noteq> spreadToken" "spanToken \<noteq> countToken" "spanToken \<noteq> comma"
  "spreadToken \<noteq> spanToken" "countToken \<noteq> spanToken" "comma \<noteq> spanToken"
  "spreadToken \<noteq> countToken" "spreadToken \<noteq> comma" "countToken \<noteq> spreadToken" "comma \<noteq> spreadToken"
  "countToken \<noteq> comma" "comma \<noteq> countToken"
  by (simp_all add: colon_def spanToken_def spreadToken_def countToken_def comma_def)

lemma digits_free:
  "list_all is_digit s \<Longrightarrow> colon \<notin> set s" "list_all is_digit s \<Longrightarrow> spanToken \<notin> set s"
  "list_all is_digit s \<Longrightarrow> spreadToken \<notin> set s" "list_all is_digit s \<Longrightarrow> countToken \<notin> set s"
  "list_all is_digit s \<Longrightarrow> comma \<notin> set s"
  using digit_not_token by (auto simp: list_all_iff)

lemma Clock_String_free:
  assumes "valid_clock t"
  shows "spanToken \<notin> set (Clock_String t)" "spreadToken \<notin> set (Clock_String t)" "countToken \<notin> set (Clock_String t)"
    "comma \<notin> set (Clock_String t)" "colon \<in> set (Clock_String t)"
  using assms by (simp_all add: Clock_String_def valid_clock_def digits_free pad2_digits)

lemma ParseClock_String:
  assumes "valid_clock t"
  shows "ParseClock (Clock_String t) = Inr t"
proof (cases "clk_Hour t = 24")
  case True
  with assms have "t = \<lparr>clk_Hour = 24, clk_Minute = 0\<rparr>" by (cases t) (simp add: valid_clock_def)
  moreover have "Clock_String \<lparr>clk_Hour = 24, clk_Minute = 0\<rparr> = ''24:00''" by code_simp
  ultimately show ?thesis by (simp add: ParseClock_def)
next
  case False
  with assms have t: "0 \<le> clk_Hour t" "clk_Hour t \<le> 23" "0 \<le> clk_Minute t" "clk_Minute t \<le> 59"
    by (auto simp: valid_clock_def)
  have "cut_at colon (Clock_String t) = Some (pad2 (clk_Hour t), pad2 (clk_Minute t))"
    using cut_at_append digits_free(1) [OF pad2_digits] t by (simp add: Clock_String_def)
  moreover from this have "Clock_String t \<noteq> ''24:00''" using hour_written [OF t(1,2)] by (auto simp: colon_def)
  ultimately show ?thesis
    using hour_written [OF t(1,2)] minute_written [OF t(3,4)] by (simp add: ParseClock_def validTime_def)
qed

lemma parseClockRange_String:
  assumes "valid_clock a" "valid_clock b"
  shows "parseClockRange (Clock_String a @ spanToken # Clock_String b) = Inr (a, b)"
  using cut_at_append [OF Clock_String_free(1) [OF assms(1)]] assms by (simp add: parseClockRange_def ParseClock_String)

text \<open>A span whose text gives it back: a single time has no parts and is not spread, and the number of parts is small enough.\<close>

definition canonical_span :: "clock_span \<Rightarrow> bool" where
  "canonical_span ts \<longleftrightarrow> valid_clock_span ts \<and> int (cs_Split ts) < 2 ^ 32 \<and>
     (cs_End ts = cs_Start ts \<longrightarrow> cs_Split ts = 0 \<and> \<not> cs_Spread ts)"

lemma parseCount_none: "countToken \<notin> set s \<Longrightarrow> parseCount s = Inr (0, s)"
  by (simp add: parseCount_def)

lemma parseCount_some:
  assumes "countToken \<notin> set s" "0 < n" "int n < 2 ^ 32"
  shows "parseCount (s @ countToken # itoa n) = Inr (n, s)"
proof -
  have "split_on countToken (s @ countToken # itoa n) = [s, itoa n]"
    using assms(1) digits_free(4) [OF itoa_digits] by (simp add: split_on_append)
  with assms show ?thesis by (simp add: parseCount_def ParseUint32_def itoa_ne itoa_digits)
qed

lemma parseClockSpan_String:
  assumes "canonical_span ts"
  shows "parseClockSpan (ClockSpan_String ts) = Inr ts"
proof (cases "cs_End ts = cs_Start ts")
  case True
  then have "\<lparr>cs_Start = cs_Start ts, cs_End = cs_Start ts, cs_Split = 0, cs_Spread = False\<rparr> = ts"
    using assms by (cases ts) (simp add: canonical_span_def)
  moreover have "Clock_String (cs_Start ts) \<noteq> ''-''"
    using assms Clock_String_free(1) [of "cs_Start ts"] by (auto simp: canonical_span_def valid_clock_span_def spanToken_def)
  ultimately show ?thesis using True assms Clock_String_free [of "cs_Start ts"]
    by (simp add: parseClockSpan_def ClockSpan_String_def canonical_span_def valid_clock_span_def parseCount_none ParseClock_String)
next
  case False
  let ?sep = "if cs_Spread ts then spreadToken else spanToken"
  let ?r = "Clock_String (cs_Start ts) @ ?sep # Clock_String (cs_End ts)"
  have v: "valid_clock (cs_Start ts)" "valid_clock (cs_End ts)"
    using assms by (simp_all add: canonical_span_def valid_clock_span_def)
  note free = Clock_String_free [OF v(1)] Clock_String_free [OF v(2)]
  have "countToken \<notin> set ?r" using free by simp
  moreover have "ClockSpan_String ts = ?r @ (if 0 < cs_Split ts then countToken # itoa (cs_Split ts) else [])"
    using False by (simp add: ClockSpan_String_def Let_def spreadToken_def spanToken_def countToken_def)
  ultimately have count: "parseCount (ClockSpan_String ts) = Inr (cs_Split ts, ?r)"
    using assms parseCount_some [of ?r "cs_Split ts"] parseCount_none [of ?r]
    by (cases "cs_Split ts = 0") (simp_all add: canonical_span_def)
  have replaced: "replace_first spreadToken spanToken (Clock_String (cs_Start ts) @ spreadToken # Clock_String (cs_End ts)) =
      Clock_String (cs_Start ts) @ spanToken # Clock_String (cs_End ts)"
    using replace_first_append free(2) by simp
  have "Clock_String (cs_Start ts) @ spanToken # Clock_String (cs_End ts) \<noteq> ''-''" by (simp add: Clock_String_def)
  then show ?thesis unfolding parseClockSpan_def count using free
    by (cases "cs_Spread ts") (simp_all add: replaced parseClockRange_String v)
qed

lemma ClockSpan_String_free:
  assumes "canonical_span ts"
  shows "comma \<notin> set (ClockSpan_String ts)" "colon \<in> set (ClockSpan_String ts)"
  using assms Clock_String_free [of "cs_Start ts"] Clock_String_free [of "cs_End ts"] digits_free(5) [OF itoa_digits]
  by (auto simp: ClockSpan_String_def Let_def canonical_span_def valid_clock_span_def) (simp_all add: comma_def)

lemma weeks_written:
  "\<forall>d \<in> set [0..6]. \<forall>p \<in> set [0..<6]. parseWeekday (Week_String \<lparr>wk_Weekday = d, wk_Pos = p\<rparr>) = Inr \<lparr>wk_Weekday = d, wk_Pos = p\<rparr>"
  "\<forall>d \<in> set [0..6]. \<forall>p \<in> set [0..<6]. list_all (\<lambda>c. c \<noteq> spanToken \<and> c \<noteq> comma \<and> c \<noteq> colon) (Week_String \<lparr>wk_Weekday = d, wk_Pos = p\<rparr>)"
  by code_simp+

lemma week_written:
  assumes "0 \<le> wk_Weekday w" "wk_Weekday w \<le> 6" "wk_Pos w \<le> LastWeek"
  shows "parseWeekday (Week_String w) = Inr w" "spanToken \<notin> set (Week_String w)" "comma \<notin> set (Week_String w)"
    "colon \<notin> set (Week_String w)"
proof -
  obtain d p where w: "w = \<lparr>wk_Weekday = d, wk_Pos = p\<rparr>" by (cases w)
  with assms have dp: "d \<in> set [0..6]" "p \<in> set [0..<6]" by (simp_all add: LastWeek_def)
  show "parseWeekday (Week_String w) = Inr w" using weeks_written(1) dp unfolding w by blast
  have "list_all (\<lambda>c. c \<noteq> spanToken \<and> c \<noteq> comma \<and> c \<noteq> colon) (Week_String w)"
    using weeks_written(2) dp unfolding w by blast
  then show "spanToken \<notin> set (Week_String w)" "comma \<notin> set (Week_String w)" "colon \<notin> set (Week_String w)"
    by (auto simp: list_all_iff)
qed

lemma WeekSpan_written:
  assumes "valid_week_span ws"
  shows "parseWeekSpan (WeekSpan_String ws) = Inr ws" "comma \<notin> set (WeekSpan_String ws)"
    "colon \<notin> set (WeekSpan_String ws)" "WeekSpan_String ws \<noteq> []"
proof -
  have v: "0 \<le> wk_Weekday (ws_Start ws)" "wk_Weekday (ws_Start ws) \<le> 6" "wk_Pos (ws_Start ws) \<le> LastWeek"
    "0 \<le> wk_Weekday (ws_End ws)" "wk_Weekday (ws_End ws) \<le> 6" "wk_Pos (ws_End ws) \<le> LastWeek"
    using assms by (auto simp: valid_week_span_def)
  note a = week_written [OF v(1-3)] and b = week_written [OF v(4-6)]
  have s: "WeekSpan_String ws =
      (if ws_End ws \<noteq> ws_Start ws then Week_String (ws_Start ws) @ spanToken # Week_String (ws_End ws) else Week_String (ws_Start ws))"
    by (simp add: WeekSpan_String_def spanToken_def)
  show "parseWeekSpan (WeekSpan_String ws) = Inr ws"
    using assms a(1,2) b(1,2) unfolding s
    by (cases "ws_End ws = ws_Start ws") (simp_all add: parseWeekSpan_def Let_def split_on_append valid_week_span_def EveryWeek_def)
  show "comma \<notin> set (WeekSpan_String ws)" "colon \<notin> set (WeekSpan_String ws)"
    using a(3,4) b(3,4) unfolding s by simp_all
  have "Week_String (ws_Start ws) \<noteq> []" using a(1) by (auto simp: parseWeekday_def)
  then show "WeekSpan_String ws \<noteq> []" unfolding s by simp
qed

definition canonical_schedule :: "schedule \<Rightarrow> bool" where
  "canonical_schedule sched \<longleftrightarrow> (sc_WeekSpans sched \<noteq> [] \<or> sc_ClockSpans sched \<noteq> []) \<and>
     list_all valid_week_span (sc_WeekSpans sched) \<and> list_all canonical_span (sc_ClockSpans sched)"

definition fragments :: "schedule \<Rightarrow> string list" where
  "fragments sched = map WeekSpan_String (sc_WeekSpans sched) @ map ClockSpan_String (sc_ClockSpans sched)"

lemma Schedule_String_fragments: "Schedule_String sched = join_with comma (fragments sched)"
  by (cases "sc_WeekSpans sched = []"; cases "sc_ClockSpans sched = []")
    (simp_all add: Schedule_String_def fragments_def join_with_append)

lemma fragments_free:
  assumes "canonical_schedule sched"
  shows "fragments sched \<noteq> []" "\<forall>f \<in> set (fragments sched). f \<noteq> [] \<and> comma \<notin> set f"
proof -
  have "f \<noteq> [] \<and> comma \<notin> set f" if "f \<in> set (fragments sched)" for f
  proof -
    from that consider ws where "ws \<in> set (sc_WeekSpans sched)" "f = WeekSpan_String ws"
      | ts where "ts \<in> set (sc_ClockSpans sched)" "f = ClockSpan_String ts" by (auto simp: fragments_def)
    then show ?thesis
    proof cases
      case 1
      with assms WeekSpan_written(2,4) show ?thesis by (auto simp: canonical_schedule_def list_all_iff)
    next
      case 2
      with assms ClockSpan_String_free show ?thesis by (fastforce simp: canonical_schedule_def list_all_iff)
    qed
  qed
  then show "\<forall>f \<in> set (fragments sched). f \<noteq> [] \<and> comma \<notin> set f" by blast
  show "fragments sched \<noteq> []" using assms by (auto simp: canonical_schedule_def fragments_def)
qed

lemma parse_clock_fragments:
  "list_all canonical_span tss \<Longrightarrow>
    parse_fragments s (map ClockSpan_String tss) e sched = Inr (sched\<lparr>sc_ClockSpans := sc_ClockSpans sched @ tss\<rparr>)"
proof (induction tss arbitrary: e sched)
  case (Cons ts tss)
  then show ?case using ClockSpan_String_free(2) [of ts] parseClockSpan_String [of ts] by auto
qed simp

lemma parse_week_fragments:
  "list_all valid_week_span wss \<Longrightarrow>
    parse_fragments s (map WeekSpan_String wss @ fs) False sched =
    parse_fragments s fs False (sched\<lparr>sc_WeekSpans := sc_WeekSpans sched @ wss\<rparr>)"
proof (induction wss arbitrary: sched)
  case (Cons ws wss)
  then show ?case using WeekSpan_written [of ws] by simp
qed simp

lemma parseEventSet_String:
  assumes "canonical_schedule sched"
  shows "parseEventSet (Schedule_String sched) = Inr sched"
proof -
  have "split_on comma (Schedule_String sched) = fragments sched"
    unfolding Schedule_String_fragments using fragments_free [OF assms] by (intro split_on_join) simp_all
  then show ?thesis
    using assms by (simp add: parseEventSet_def fragments_def canonical_schedule_def parse_week_fragments parse_clock_fragments)
qed

text \<open>Texts in which no two commas stand together and which do not end in one.\<close>

fun commas_apart :: "string \<Rightarrow> bool" where
  "commas_apart (x # y # s) \<longleftrightarrow> \<not> (x = comma \<and> y = comma) \<and> commas_apart (y # s)"
| "commas_apart s \<longleftrightarrow> s \<noteq> [comma]"

lemma commas_apart_free: "comma \<notin> set s \<Longrightarrow> commas_apart s"
  by (induction s rule: commas_apart.induct) auto

lemma commas_apart_append:
  "comma \<notin> set p \<Longrightarrow> p \<noteq> [] \<Longrightarrow> commas_apart s \<Longrightarrow> s \<noteq> [] \<Longrightarrow> hd s \<noteq> comma \<Longrightarrow> commas_apart (p @ comma # s)"
proof (induction p)
  case (Cons x p)
  then show ?case by (cases p; cases s) auto
qed simp

lemma commas_apart_join:
  "ps \<noteq> [] \<Longrightarrow> \<forall>p \<in> set ps. p \<noteq> [] \<and> comma \<notin> set p \<Longrightarrow>
    commas_apart (join_with comma ps) \<and> join_with comma ps \<noteq> [] \<and> hd (join_with comma ps) \<noteq> comma"
proof (induction ps)
  case (Cons p ps)
  then have p: "p \<noteq> []" "comma \<notin> set p" "hd p \<noteq> comma" by (auto simp: hd_in_set dest: hd_in_set)
  show ?case
  proof (cases "ps = []")
    case False
    with Cons p show ?thesis by (simp add: join_with_Cons commas_apart_append)
  qed (use p commas_apart_free in simp)
qed simp

lemma split_pair_single: "commas_apart s \<Longrightarrow> split_pair comma s = [s]"
  by (induction s rule: commas_apart.induct) auto

lemma split_pair_append: "commas_apart s \<Longrightarrow> s \<noteq> [] \<Longrightarrow> split_pair comma (s @ comma # comma # t) = s # split_pair comma t"
proof (induction s)
  case (Cons x s)
  then show ?case by (cases s) auto
qed simp

text \<open>The text of a list of schedules, as the grammar of \<open>ParseSchedule\<close> has it.\<close>

fun event_list :: "string list \<Rightarrow> string" where
  "event_list [] = []"
| "event_list [s] = s"
| "event_list (s # ss) = s @ comma # comma # event_list ss"

lemma split_pair_event_list:
  "ss \<noteq> [] \<Longrightarrow> \<forall>s \<in> set ss. commas_apart s \<and> s \<noteq> [] \<Longrightarrow> split_pair comma (event_list ss) = ss"
  by (induction ss rule: event_list.induct) (auto simp: split_pair_single split_pair_append)

text \<open>
  C34: Schedules written one after the other, with two commas between them, are read back as they were: every list of
  schedules with some weekday or time each, in which a single time has no parts and is not spread.
\<close>

theorem schedules_roundtrip:
  assumes "scheds \<noteq> []" "\<forall>sched \<in> set scheds. canonical_schedule sched"
  shows "ParseSchedule (event_list (map Schedule_String scheds)) = Inr scheds"
proof -
  have "commas_apart (Schedule_String sched) \<and> Schedule_String sched \<noteq> []" if "sched \<in> set scheds" for sched
    unfolding Schedule_String_fragments using commas_apart_join fragments_free assms(2) that by blast
  then have "split_pair comma (event_list (map Schedule_String scheds)) = map Schedule_String scheds"
    using assms(1) by (intro split_pair_event_list) auto
  moreover have "map_try parseEventSet (map Schedule_String scheds) = Inr scheds"
    using assms(2) by (induction scheds) (auto simp: parseEventSet_String)
  ultimately show ?thesis by (simp add: ParseSchedule_def)
qed

theorem schedules_roundtrip_witness:
  "ParseSchedule (event_list (map Schedule_String [monday_morning, monday_morning])) = Inr [monday_morning, monday_morning]"
  by (rule schedules_roundtrip)
    (simp_all add: canonical_schedule_def canonical_span_def monday_morning_def valid_week_span_def valid_clock_span_def
      valid_clock_def EveryWeek_def LastWeek_def)

end
