(* ===== verification/Identities.thy ===== *)
theory Identities
  imports PlanTypes Strings "HOL-Library.Word" "HOL-Library.List_Lexorder" "HOL-Library.Char_ord"
begin

text \<open>
  \<open>internals/overlord/identities\<close>: the identities that clients are recognised by, with what their manager keeps in memory
  and in the state.  Certificates are values of a type parameter, and whether one is signed by itself and whether a
  password belongs to a hash are arguments.  A Go map that is ranged over is the list of its entries in the order of the range.
\<close>

subsection \<open>Identities\<close>

record 'c identity =
  id_Name :: string
  id_Access :: string
  id_Local :: "32 word option"
  id_Basic :: "string option"
  id_Cert :: "'c option option"

definition AdminAccess :: string where "AdminAccess = ''admin''"
definition ReadAccess :: string where "ReadAccess = ''read''"
definition MetricsAccess :: string where "MetricsAccess = ''metrics''"
definition UntrustedAccess :: string where "UntrustedAccess = ''untrusted''"

lemmas access_defs = AdminAccess_def ReadAccess_def MetricsAccess_def UntrustedAccess_def

definition char_between :: "char \<Rightarrow> char \<Rightarrow> char \<Rightarrow> bool" where
  "char_between lo hi c \<longleftrightarrow> lo \<le> c \<and> c \<le> hi"

definition is_letter :: "char \<Rightarrow> bool" where
  "is_letter c \<longleftrightarrow> char_between CHR ''a'' CHR ''z'' c \<or> char_between CHR ''A'' CHR ''Z'' c"

text \<open>\<open>identityNameRegexp\<close>.\<close>

definition valid_name :: "string \<Rightarrow> bool" where
  "valid_name n \<longleftrightarrow>
     (case n of
        [] \<Rightarrow> False
      | c # cs \<Rightarrow> is_letter c \<and> list_all (\<lambda>c. is_letter c \<or> is_digit c \<or> c = CHR ''_'' \<or> c = CHR ''-'') cs)"

definition access_levels :: "string list" where
  "access_levels = [AdminAccess, ReadAccess, MetricsAccess, UntrustedAccess]"

definition identity_Validate :: "'c identity option \<Rightarrow> string \<Rightarrow> err + unit" where
  "identity_Validate x name =
     (case x of
        None \<Rightarrow> Inl (''identity must not be nil'', [])
      | Some d \<Rightarrow>
          if \<not> valid_name name then
            Inl (''identity name %q invalid: must start with an alphabetic character and only contain alphanumeric characters, underscore, and hyphen'',
              [id_Name d])
          else if id_Access d \<notin> set access_levels then
            (if id_Access d = [] then Inl (''access value must be specified (%q, %q, %q, or %q)'', access_levels)
             else Inl (''invalid access value %q, must be %q, %q, %q, or %q'', id_Access d # access_levels))
          else if id_Basic d = Some [] then Inl (''basic identity must specify password (hashed)'', [])
          else if id_Cert d = Some None then Inl (''cert identity must include an X.509 certificate'', [])
          else if id_Local d = None \<and> id_Basic d = None \<and> id_Cert d = None
          then Inl (''identity must have at least one type (%q, %q, or %q)'', [''local'', ''basic'', ''cert''])
          else Inr ())"

subsection \<open>The manager\<close>

text \<open>What is saved has no names: they are the keys of the saved object.\<close>

record 'c id_manager =
  im_identities :: "(string, 'c identity) fmap"
  im_saved :: "(string, 'c identity) fmap option"

definition unnamed :: "'c identity \<Rightarrow> 'c identity" where
  "unnamed d = d\<lparr>id_Name := []\<rparr>"

definition save_identities :: "(string, 'c identity) fmap \<Rightarrow> 'c id_manager \<Rightarrow> 'c id_manager" where
  "save_identities ids m = m\<lparr>im_identities := ids, im_saved := Some (fmmap unnamed ids)\<rparr>"

definition NewManager :: "(string, 'c identity) fmap option \<Rightarrow> 'c id_manager" where
  "NewManager saved =
     \<lparr>im_identities = (case saved of None \<Rightarrow> fmempty | Some ids \<Rightarrow> fmmap_keys (\<lambda>n d. d\<lparr>id_Name := n\<rparr>) ids),
      im_saved = saved\<rparr>"

text \<open>
  The names of the identities of a user id, and the user ids with several.  Which of these the range over the map meets
  first is an argument.
\<close>

definition user_names :: "(string, 'c identity) fmap \<Rightarrow> 32 word \<Rightarrow> string list" where
  "user_names ids uid = map fst (filter (\<lambda>(n, d). id_Local d = Some uid) (sorted_list_of_fmap ids))"

definition user_ids :: "(string, 'c identity) fmap \<Rightarrow> 32 word list" where
  "user_ids ids = remdups (List.map_filter (\<lambda>(n, d). id_Local d) (sorted_list_of_fmap ids))"

fun comma_list :: "string list \<Rightarrow> string" where
  "comma_list [] = []"
| "comma_list [s] = s"
| "comma_list (s # ss) = s @ '', '' @ comma_list ss"

definition verifyUniqueUserIDs :: "(32 word list \<Rightarrow> 32 word) \<Rightarrow> (string, 'c identity) fmap \<Rightarrow> err + unit" where
  "verifyUniqueUserIDs pick ids =
     (let twice = filter (\<lambda>u. 1 < length (user_names ids u)) (user_ids ids) in
      if twice = [] then Inr ()
      else Inl (''cannot have multiple identities with user ID %d (%s)'',
        [itoa (unat (pick twice)), comma_list (user_names ids (pick twice))]))"

fun validate_all :: "(string \<times> 'c identity option) list \<Rightarrow> err + unit" where
  "validate_all [] = Inr ()"
| "validate_all ((n, d) # args) =
     (case identity_Validate d n of
        Inl e \<Rightarrow> Inl (''identity %q invalid: %w'', n # fst e # snd e)
      | Inr _ \<Rightarrow> validate_all args)"

text \<open>The entries of the argument put into a copy of the map; a nil entry removes.\<close>

definition put_identity :: "string \<times> 'c identity option \<Rightarrow> (string, 'c identity) fmap \<Rightarrow> (string, 'c identity) fmap" where
  "put_identity a ids =
     (case a of (n, None) \<Rightarrow> fmdrop n ids | (n, Some d) \<Rightarrow> fmupd n (d\<lparr>id_Name := n\<rparr>) ids)"

definition install ::
  "(32 word list \<Rightarrow> 32 word) \<Rightarrow> (string \<times> 'c identity option) list \<Rightarrow> 'c id_manager \<Rightarrow> (err + unit) \<times> 'c id_manager" where
  "install pick args m =
     (let ids = fold put_identity args (im_identities m) in
      case verifyUniqueUserIDs pick ids of
        Inl e \<Rightarrow> (Inl e, m)
      | Inr _ \<Rightarrow> (Inr (), save_identities ids m))"

definition AddIdentities ::
  "(32 word list \<Rightarrow> 32 word) \<Rightarrow> (string \<times> 'c identity option) list \<Rightarrow> 'c id_manager \<Rightarrow> (err + unit) \<times> 'c id_manager" where
  "AddIdentities pick args m =
     (case validate_all args of
        Inl e \<Rightarrow> (Inl e, m)
      | Inr _ \<Rightarrow>
          let existing = filter (\<lambda>n. n |\<in>| fmdom (im_identities m)) (map fst args) in
          if existing \<noteq> [] then (Inl (''identities already exist: %s'', [comma_list (sort existing)]), m)
          else install pick args m)"

definition missing_names :: "string list \<Rightarrow> 'c id_manager \<Rightarrow> string list" where
  "missing_names names m = filter (\<lambda>n. n |\<notin>| fmdom (im_identities m)) names"

definition UpdateIdentities ::
  "(32 word list \<Rightarrow> 32 word) \<Rightarrow> (string \<times> 'c identity option) list \<Rightarrow> 'c id_manager \<Rightarrow> (err + unit) \<times> 'c id_manager" where
  "UpdateIdentities pick args m =
     (case validate_all args of
        Inl e \<Rightarrow> (Inl e, m)
      | Inr _ \<Rightarrow>
          let missing = missing_names (map fst args) m in
          if missing \<noteq> [] then (Inl (''identities do not exist: %s'', [comma_list (sort missing)]), m)
          else install pick args m)"

definition ReplaceIdentities ::
  "(32 word list \<Rightarrow> 32 word) \<Rightarrow> (string \<times> 'c identity option) list \<Rightarrow> 'c id_manager \<Rightarrow> (err + unit) \<times> 'c id_manager" where
  "ReplaceIdentities pick args m =
     (case validate_all (filter (\<lambda>(n, d). d \<noteq> None) args) of
        Inl e \<Rightarrow> (Inl e, m)
      | Inr _ \<Rightarrow> install pick args m)"

definition RemoveIdentities :: "string list \<Rightarrow> 'c id_manager \<Rightarrow> (err + unit) \<times> 'c id_manager" where
  "RemoveIdentities names m =
     (let missing = missing_names names m in
      if missing \<noteq> [] then (Inl (''identities do not exist: %s'', [comma_list (sort missing)]), m)
      else (Inr (), save_identities (fold fmdrop names (im_identities m)) m))"

text \<open>
  The identity of a request.  The entries are given in the order of the range; \<open>self_signed\<close> is the verification of a
  certificate against itself, and \<open>crypt\<close> compares a hash with a password.
\<close>

definition IdentityFromInputs ::
  "('c \<Rightarrow> bool) \<Rightarrow> (string \<Rightarrow> string \<Rightarrow> bool) \<Rightarrow> 'c identity list \<Rightarrow>
   32 word option \<Rightarrow> string \<Rightarrow> string \<Rightarrow> 'c option \<Rightarrow> 'c identity option" where
  "IdentityFromInputs self_signed crypt ds userID username password clientCert =
     (case clientCert of
        Some c \<Rightarrow> find (\<lambda>d. id_Cert d = Some (Some c) \<and> self_signed c) ds
      | None \<Rightarrow>
          if username \<noteq> [] \<or> password \<noteq> [] then
            (case find (\<lambda>d. id_Basic d \<noteq> None \<and> id_Name d = username) ds of
               None \<Rightarrow> None
             | Some d \<Rightarrow> if crypt (the (id_Basic d)) password then Some d else None)
          else
            (case userID of
               None \<Rightarrow> None
             | Some uid \<Rightarrow> find (\<lambda>d. id_Local d = Some uid) ds))"

subsection \<open>What the manager keeps\<close>

definition unique_users :: "(string, 'c identity) fmap \<Rightarrow> bool" where
  "unique_users ids \<longleftrightarrow>
     (\<forall>n n' d d' u. fmlookup ids n = Some d \<longrightarrow> fmlookup ids n' = Some d' \<longrightarrow>
        id_Local d = Some u \<longrightarrow> id_Local d' = Some u \<longrightarrow> n = n')"

definition ids_wf :: "(string, 'c identity) fmap \<Rightarrow> bool" where
  "ids_wf ids \<longleftrightarrow> unique_users ids \<and>
     (\<forall>n d. fmlookup ids n = Some d \<longrightarrow> id_Name d = n \<and> identity_Validate (Some d) n = Inr ())"

definition id_manager_wf :: "'c id_manager \<Rightarrow> bool" where
  "id_manager_wf m \<longleftrightarrow> ids_wf (im_identities m) \<and>
     (im_saved m = Some (fmmap unnamed (im_identities m)) \<or> im_saved m = None \<and> im_identities m = fmempty)"

lemma user_names_set: "n \<in> set (user_names ids u) \<longleftrightarrow> (\<exists>d. fmlookup ids n = Some d \<and> id_Local d = Some u)"
  by (force simp: user_names_def sorted_list_of_fmap_def fmlookup_dom_iff)

lemma user_names_distinct: "distinct (user_names ids u)"
  unfolding user_names_def by (rule distinct_map_filter) (simp add: sorted_list_of_fmap_def comp_def sorted_list_of_fset.rep_eq)

lemma user_ids_set: "u \<in> set (user_ids ids) \<longleftrightarrow> (\<exists>n d. fmlookup ids n = Some d \<and> id_Local d = Some u)"
  by (force simp: user_ids_def List.map_filter_def sorted_list_of_fmap_def fmlookup_dom_iff)

lemma distinct_at_most_one: "distinct xs \<Longrightarrow> \<not> 1 < length xs \<longleftrightarrow> (\<forall>x \<in> set xs. \<forall>y \<in> set xs. x = y)"
  by (cases xs; cases "tl xs") auto

lemma verifyUniqueUserIDs_iff: "verifyUniqueUserIDs pick ids = Inr () \<longleftrightarrow> unique_users ids"
proof -
  have "verifyUniqueUserIDs pick ids = Inr () \<longleftrightarrow>
      (\<forall>u \<in> set (user_ids ids). \<forall>n \<in> set (user_names ids u). \<forall>n' \<in> set (user_names ids u). n = n')"
    by (simp add: verifyUniqueUserIDs_def Let_def filter_empty_conv distinct_at_most_one [OF user_names_distinct] del: One_nat_def)
  then show ?thesis unfolding unique_users_def user_ids_set user_names_set Ball_def by blast
qed

lemma verifyUniqueUserIDs_Inl: "verifyUniqueUserIDs pick ids = Inl e \<Longrightarrow> \<not> unique_users ids"
  using verifyUniqueUserIDs_iff [of pick ids] by auto

lemma validate_all_Inr: "validate_all args = Inr () \<longleftrightarrow> (\<forall>(n, d) \<in> set args. identity_Validate d n = Inr ())"
  by (induction args rule: validate_all.induct) (auto split: sum.splits)

lemma Validate_name_irrelevant: "identity_Validate (Some (d\<lparr>id_Name := x\<rparr>)) n = Inr () \<longleftrightarrow> identity_Validate (Some d) n = Inr ()"
  by (simp add: identity_Validate_def)

text \<open>The entries after an update: the last of the argument for a name, and what was there for the others.\<close>

lemma fmlookup_put:
  "distinct (map fst args) \<Longrightarrow> fmlookup (fold put_identity args ids) n =
    (case map_of args n of None \<Rightarrow> fmlookup ids n | Some None \<Rightarrow> None | Some (Some d) \<Rightarrow> Some (d\<lparr>id_Name := n\<rparr>))"
proof (induction args arbitrary: ids)
  case (Cons a args)
  obtain k v where a: "a = (k, v)" by (cases a)
  with Cons have "fmlookup (fold put_identity (a # args) ids) n =
      (case map_of args n of None \<Rightarrow> fmlookup (put_identity a ids) n | Some None \<Rightarrow> None | Some (Some d) \<Rightarrow> Some (d\<lparr>id_Name := n\<rparr>))"
    by (simp only: fold.simps comp_apply list.map distinct.simps)
  moreover have "n = k \<Longrightarrow> map_of args n = None" using Cons.prems a by (simp add: map_of_eq_None_iff)
  moreover have "fmlookup (put_identity a ids) n = (if n = k then map_option (\<lambda>d. d\<lparr>id_Name := n\<rparr>) v else fmlookup ids n)"
    by (simp add: a put_identity_def split: option.split)
  ultimately show ?case by (cases "n = k"; cases v; cases "map_of args n") (simp_all add: a)
qed simp

lemma ids_wf_put:
  assumes "ids_wf ids" "distinct (map fst args)" "\<forall>(n, d) \<in> set args. d \<noteq> None \<longrightarrow> identity_Validate d n = Inr ()"
    "unique_users (fold put_identity args ids)"
  shows "ids_wf (fold put_identity args ids)"
proof -
  have "id_Name d = n \<and> identity_Validate (Some d) n = Inr ()" if l: "fmlookup (fold put_identity args ids) n = Some d" for n d
  proof (cases "map_of args n")
    case None
    with l assms(1) show ?thesis by (simp add: fmlookup_put [OF assms(2)] ids_wf_def)
  next
    case (Some v)
    with l obtain d' where d: "v = Some d'" "d = d'\<lparr>id_Name := n\<rparr>"
      by (auto simp: fmlookup_put [OF assms(2)] split: option.splits)
    moreover have "(n, v) \<in> set args" using Some by (rule map_of_SomeD)
    ultimately show ?thesis using assms(3) by (auto simp: Validate_name_irrelevant)
  qed
  with assms(4) show ?thesis by (simp add: ids_wf_def)
qed

lemma saved_wf: "ids_wf ids \<Longrightarrow> id_manager_wf (save_identities ids m)"
  by (simp add: id_manager_wf_def save_identities_def)

lemma install_wf:
  assumes "id_manager_wf m" "distinct (map fst args)" "\<forall>(n, d) \<in> set args. d \<noteq> None \<longrightarrow> identity_Validate d n = Inr ()"
  shows "id_manager_wf (snd (install pick args m))"
proof (cases "verifyUniqueUserIDs pick (fold put_identity args (im_identities m))")
  case (Inr x)
  then have "unique_users (fold put_identity args (im_identities m))"
    using verifyUniqueUserIDs_iff [of pick "fold put_identity args (im_identities m)"] by simp
  with assms Inr ids_wf_put [of "im_identities m" args] show ?thesis
    by (simp add: install_def Let_def saved_wf id_manager_wf_def [of m])
qed (use assms in \<open>simp add: install_def Let_def\<close>)

lemma ids_wf_subset:
  assumes "ids_wf ids" "\<And>n d. fmlookup ids' n = Some d \<Longrightarrow> fmlookup ids n = Some d"
  shows "ids_wf ids'"
  using assms unfolding ids_wf_def unique_users_def by blast

lemma fmlookup_drops: "fmlookup (fold fmdrop ns ids) n = (if n \<in> set ns then None else fmlookup ids n)"
  by (induction ns arbitrary: ids) auto

lemma reload_restores:
  assumes "id_manager_wf m"
  shows "NewManager (im_saved m) = m"
proof -
  have "fmmap_keys (\<lambda>n d. d\<lparr>id_Name := n\<rparr>) (fmmap unnamed (im_identities m)) = im_identities m"
    using assms by (intro fmap_ext) (auto simp: id_manager_wf_def ids_wf_def unnamed_def option.map_comp split: option.splits
        intro!: option.map_ident_strong)
  with assms show ?thesis by (cases m) (auto simp: NewManager_def id_manager_wf_def)
qed

inductive id_step :: "'c id_manager \<Rightarrow> 'c id_manager \<Rightarrow> bool" where
  added: "distinct (map fst args) \<Longrightarrow> id_step m (snd (AddIdentities pick args m))"
| updated: "distinct (map fst args) \<Longrightarrow> id_step m (snd (UpdateIdentities pick args m))"
| replaced: "distinct (map fst args) \<Longrightarrow> id_step m (snd (ReplaceIdentities pick args m))"
| removed: "id_step m (snd (RemoveIdentities names m))"
| restarted: "id_step m (NewManager (im_saved m))"

lemma id_step_wf: "id_step m m' \<Longrightarrow> id_manager_wf m \<Longrightarrow> id_manager_wf m'"
proof (induction rule: id_step.induct)
  case (added args m pick)
  then show ?case using install_wf [of m args pick]
    by (auto simp: AddIdentities_def Let_def validate_all_Inr split: sum.split)
next
  case (updated args m pick)
  then show ?case using install_wf [of m args pick]
    by (auto simp: UpdateIdentities_def Let_def validate_all_Inr split: sum.split)
next
  case (replaced args m pick)
  then show ?case using install_wf [of m args pick]
    by (auto simp: ReplaceIdentities_def validate_all_Inr split: sum.split)
next
  case (removed m names)
  have "ids_wf (fold fmdrop names (im_identities m))"
  proof (rule ids_wf_subset)
    show "ids_wf (im_identities m)" using removed by (simp add: id_manager_wf_def)
    show "fmlookup (fold fmdrop names (im_identities m)) n = Some d \<Longrightarrow> fmlookup (im_identities m) n = Some d" for n d
      by (simp add: fmlookup_drops split: if_splits)
  qed
  with removed show ?case by (simp add: RemoveIdentities_def Let_def saved_wf)
next
  case (restarted m)
  then show ?case by (simp add: reload_restores)
qed

lemma new_manager_wf: "id_manager_wf (NewManager None)"
  by (simp add: NewManager_def id_manager_wf_def ids_wf_def unique_users_def)

lemma id_reachable_wf: "id_step\<^sup>*\<^sup>* (NewManager None) m \<Longrightarrow> id_manager_wf m"
  by (induction rule: rtranclp_induct) (auto intro: new_manager_wf id_step_wf)

lemma failed_unchanged:
  "fst (AddIdentities pick args m) = Inl e \<Longrightarrow> snd (AddIdentities pick args m) = m"
  "fst (UpdateIdentities pick args m) = Inl e \<Longrightarrow> snd (UpdateIdentities pick args m) = m"
  "fst (ReplaceIdentities pick args m) = Inl e \<Longrightarrow> snd (ReplaceIdentities pick args m) = m"
  "fst (RemoveIdentities names m) = Inl e \<Longrightarrow> snd (RemoveIdentities names m) = m"
proof -
  have i: "fst (install pick args m) = Inl e \<Longrightarrow> snd (install pick args m) = m"
    by (auto simp: install_def Let_def split: sum.splits)
  show "fst (AddIdentities pick args m) = Inl e \<Longrightarrow> snd (AddIdentities pick args m) = m"
    by (auto simp: AddIdentities_def Let_def dest: i split: sum.splits if_splits)
  show "fst (UpdateIdentities pick args m) = Inl e \<Longrightarrow> snd (UpdateIdentities pick args m) = m"
    by (auto simp: UpdateIdentities_def Let_def dest: i split: sum.splits if_splits)
  show "fst (ReplaceIdentities pick args m) = Inl e \<Longrightarrow> snd (ReplaceIdentities pick args m) = m"
    by (auto simp: ReplaceIdentities_def dest: i split: sum.splits)
  show "fst (RemoveIdentities names m) = Inl e \<Longrightarrow> snd (RemoveIdentities names m) = m"
    by (auto simp: RemoveIdentities_def Let_def split: if_splits)
qed

text \<open>
  C9: Whatever identities are added, updated, replaced and removed, and however often the daemon is started again: every
  identity has the name it is kept under and is valid, no two have the same user id, what a new manager reads
  from the state is exactly what the old one had, and an update that fails leaves everything as it was.
\<close>

theorem identities_invariant:
  assumes "id_step\<^sup>*\<^sup>* (NewManager None) m"
  shows "(\<forall>n d. fmlookup (im_identities m) n = Some d \<longrightarrow> id_Name d = n \<and> identity_Validate (Some d) n = Inr ()) \<and>
    unique_users (im_identities m) \<and> NewManager (im_saved m) = m \<and>
    (\<forall>pick args e. fst (AddIdentities pick args m) = Inl e \<longrightarrow> snd (AddIdentities pick args m) = m) \<and>
    (\<forall>pick args e. fst (UpdateIdentities pick args m) = Inl e \<longrightarrow> snd (UpdateIdentities pick args m) = m) \<and>
    (\<forall>pick args e. fst (ReplaceIdentities pick args m) = Inl e \<longrightarrow> snd (ReplaceIdentities pick args m) = m) \<and>
    (\<forall>names e. fst (RemoveIdentities names m) = Inl e \<longrightarrow> snd (RemoveIdentities names m) = m)"
proof -
  from id_reachable_wf [OF assms] have wf: "id_manager_wf m" .
have "\<forall>n d. fmlookup (im_identities m) n = Some d \<longrightarrow> id_Name d = n \<and> identity_Validate (Some d) n = Inr ()"
    "unique_users (im_identities m)"
    using wf by (auto simp: id_manager_wf_def ids_wf_def)
  then show ?thesis using reload_restores [OF wf] failed_unchanged by blast
qed

definition alice :: "nat identity" where
  "alice = \<lparr>id_Name = [], id_Access = UntrustedAccess, id_Local = Some 1000, id_Basic = None, id_Cert = None\<rparr>"

definition with_alice :: "nat id_manager" where
  "with_alice = snd (AddIdentities hd [(''alice'', Some alice)] (NewManager None))"

lemma with_alice_reachable: "id_step\<^sup>*\<^sup>* (NewManager None) with_alice"
  unfolding with_alice_def by (intro r_into_rtranclp added) simp

theorem identities_invariant_witness:
  "unique_users (im_identities with_alice) \<and> NewManager (im_saved with_alice) = with_alice"
  using identities_invariant [OF with_alice_reachable] by simp

subsection \<open>Who is recognised\<close>

text \<open>The entries of a map in some order.\<close>

definition ranges :: "'c identity list \<Rightarrow> 'c id_manager \<Rightarrow> bool" where
  "ranges ds m \<longleftrightarrow> (\<forall>d. d \<in> set ds \<longleftrightarrow> (\<exists>n. fmlookup (im_identities m) n = Some d))"

definition recognised ::
  "('c \<Rightarrow> bool) \<Rightarrow> (string \<Rightarrow> string \<Rightarrow> bool) \<Rightarrow> 'c identity \<Rightarrow> 32 word option \<Rightarrow> string \<Rightarrow> string \<Rightarrow> 'c option \<Rightarrow> bool" where
  "recognised self_signed crypt d userID username password clientCert \<longleftrightarrow>
     (case clientCert of
        Some c \<Rightarrow> id_Cert d = Some (Some c) \<and> self_signed c
      | None \<Rightarrow>
          if username \<noteq> [] \<or> password \<noteq> []
          then id_Name d = username \<and> (\<exists>h. id_Basic d = Some h \<and> crypt h password)
          else \<exists>u. userID = Some u \<and> id_Local d = Some u)"

lemma find_Some_in: "find P xs = Some x \<Longrightarrow> x \<in> set xs \<and> P x"
  by (auto simp: find_Some_iff)

lemma find_unique:
  assumes "\<And>x y. x \<in> set xs \<Longrightarrow> y \<in> set xs \<Longrightarrow> P x \<Longrightarrow> P y \<Longrightarrow> x = y" "x \<in> set xs" "P x"
  shows "find P xs = Some x"
proof (cases "find P xs")
  case None
  with assms show ?thesis by (auto simp: find_None_iff)
next
  case (Some y)
  with find_Some_in [of P xs y] assms show ?thesis by blast
qed

lemma IdentityFromInputs_recognised:
  "IdentityFromInputs self_signed crypt ds userID username password clientCert = Some d \<Longrightarrow>
    d \<in> set ds \<and> recognised self_signed crypt d userID username password clientCert"
  by (auto simp: IdentityFromInputs_def recognised_def dest!: find_Some_in split: option.splits if_splits)

lemma IdentityFromInputs_complete:
  assumes "id_manager_wf m" "ranges ds m" "d \<in> set ds" "recognised self_signed crypt d userID username password clientCert"
  shows "\<exists>d'. IdentityFromInputs self_signed crypt ds userID username password clientCert = Some d' \<and> (clientCert = None \<longrightarrow> d' = d)"
proof (cases clientCert)
  case (Some c)
  with assms(3,4) show ?thesis
    by (cases "find (\<lambda>d. id_Cert d = Some (Some c) \<and> self_signed c) ds")
      (auto simp: IdentityFromInputs_def recognised_def find_None_iff)
next
  case None
  have names: "x = y" if "x \<in> set ds" "y \<in> set ds" "id_Name x = id_Name y" for x y
    using that assms(1,2) by (auto simp: ranges_def id_manager_wf_def ids_wf_def)
  have users: "x = y" if "x \<in> set ds" "y \<in> set ds" "id_Local x = Some u" "id_Local y = Some u" for x y u
  proof -
    from that assms(2) obtain n n' where "fmlookup (im_identities m) n = Some x" "fmlookup (im_identities m) n' = Some y"
      by (auto simp: ranges_def)
    moreover from this that assms(1) have "n = n'" unfolding id_manager_wf_def ids_wf_def unique_users_def by blast
    ultimately show ?thesis by simp
  qed
  show ?thesis
  proof (cases "username \<noteq> [] \<or> password \<noteq> []")
    case True
    with assms(4) None obtain h where h: "id_Name d = username" "id_Basic d = Some h" "crypt h password"
      by (auto simp: recognised_def)
    have "find (\<lambda>d. id_Basic d \<noteq> None \<and> id_Name d = username) ds = Some d"
      using names assms(3) h by (intro find_unique) auto
    with None True h show ?thesis by (simp add: IdentityFromInputs_def)
  next
    case False
    with assms(4) None obtain u where u: "userID = Some u" "id_Local d = Some u" by (auto simp: recognised_def)
    have "find (\<lambda>d. id_Local d = Some u) ds = Some d" using users assms(3) u by (intro find_unique) auto
    with None False u show ?thesis by (simp add: IdentityFromInputs_def)
  qed
qed

text \<open>
  A request is recognised as an identity exactly when the identity has the client certificate and the certificate
  verifies; or, without a certificate, the name and a password that its hash accepts; or, with neither, the user id
  of the connection.  Without a certificate the identity does not depend on the order in which the map is ranged over.
\<close>

lemma identity_found_iff:
  assumes "id_step\<^sup>*\<^sup>* (NewManager None) m" "ranges ds m"
  shows "(IdentityFromInputs self_signed crypt ds userID username password clientCert = None \<longleftrightarrow>
      (\<forall>d \<in> set ds. \<not> recognised self_signed crypt d userID username password clientCert)) \<and>
    (\<forall>d. IdentityFromInputs self_signed crypt ds userID username password clientCert = Some d \<longrightarrow>
      d \<in> set ds \<and> recognised self_signed crypt d userID username password clientCert) \<and>
    (clientCert = None \<longrightarrow> (\<forall>d \<in> set ds. recognised self_signed crypt d userID username password clientCert \<longrightarrow>
      IdentityFromInputs self_signed crypt ds userID username password clientCert = Some d))"
proof -
  let ?i = "IdentityFromInputs self_signed crypt ds userID username password clientCert"
  let ?r = "\<lambda>d. recognised self_signed crypt d userID username password clientCert"
  have complete: "\<exists>d'. ?i = Some d' \<and> (clientCert = None \<longrightarrow> d' = d)" if "d \<in> set ds" "?r d" for d
    by (rule IdentityFromInputs_complete [OF id_reachable_wf [OF assms(1)] assms(2) that])
  have sound: "d \<in> set ds \<and> ?r d" if "?i = Some d" for d by (rule IdentityFromInputs_recognised [OF that])
  have "?i = None \<longleftrightarrow> (\<forall>d \<in> set ds. \<not> ?r d)"
  proof (cases ?i)
    case None
    with complete show ?thesis by fastforce
  next
    case (Some d)
    with sound [OF Some] show ?thesis by auto
  qed
  moreover have "\<forall>d \<in> set ds. ?r d \<longrightarrow> ?i = Some d" if "clientCert = None" using complete that by blast
  ultimately show ?thesis using sound by blast
qed

text \<open>Nothing keeps two identities from having one certificate: the order of the range over the map decides between them.\<close>

definition holder :: "string \<Rightarrow> string \<Rightarrow> nat identity" where
  "holder name access = \<lparr>id_Name = name, id_Access = access, id_Local = None, id_Basic = None, id_Cert = Some (Some 7)\<rparr>"

definition two_holders :: "(err + unit) \<times> nat id_manager" where
  "two_holders = AddIdentities hd [(''bob'', Some (holder [] ''admin'')), (''carol'', Some (holder [] ''untrusted''))] (NewManager None)"

lemma certificate_twice:
  "fst two_holders = Inr ()"
  "map snd (sorted_list_of_fmap (im_identities (snd two_holders))) = [holder ''bob'' ''admin'', holder ''carol'' ''untrusted'']"
  "IdentityFromInputs (\<lambda>_. True) crypt [holder ''bob'' ''admin'', holder ''carol'' ''untrusted''] None [] [] (Some 7) =
    Some (holder ''bob'' ''admin'')"
  "IdentityFromInputs (\<lambda>_. True) crypt [holder ''carol'' ''untrusted'', holder ''bob'' ''admin''] None [] [] (Some 7) =
    Some (holder ''carol'' ''untrusted'')"
     apply code_simp
    apply code_simp
   apply (simp_all add: IdentityFromInputs_def holder_def)
  done

text \<open>The error for a bad name quotes the name the identity has, which is set only after the validation.\<close>

lemma bad_name_not_quoted:
  "fst (AddIdentities hd [(''1st'', Some alice)] (NewManager None)) =
    Inl (''identity %q invalid: %w'',
      [''1st'', ''identity name %q invalid: must start with an alphabetic character and only contain alphanumeric characters, underscore, and hyphen'', []])"
  by code_simp

end
