(* ===== verification/Pairing.thy ===== *)
theory Pairing
  imports Identities
begin

text \<open>
  \<open>internals/overlord/pairingstate\<close>: the window in which a client may pair with the daemon, and what it adds to the
  identities.  The verification of a certificate gives \<open>None\<close> or the text of its error.
\<close>

subsection \<open>The modes of the plan\<close>

definition ModeUnset :: string where "ModeUnset = []"
definition ModeDisabled :: string where "ModeDisabled = ''disabled''"
definition ModeSingle :: string where "ModeSingle = ''single''"
definition ModeMultiple :: string where "ModeMultiple = ''multiple''"

lemmas mode_defs = ModeUnset_def ModeDisabled_def ModeSingle_def ModeMultiple_def

definition config_Validate :: "string \<Rightarrow> err + unit" where
  "config_Validate mode =
     (if mode \<in> {ModeUnset, ModeDisabled, ModeSingle, ModeMultiple} then Inr ()
      else Inl (''invalid pairing mode %q: should be %q, %q or %q'', [mode, ModeDisabled, ModeSingle, ModeMultiple]))"

definition config_IsZero :: "string \<Rightarrow> bool" where
  "config_IsZero mode \<longleftrightarrow> mode = ModeUnset"

definition config_Combine :: "string \<Rightarrow> string \<Rightarrow> string" where
  "config_Combine mode other = (if other \<noteq> ModeUnset then other else mode)"

definition CombineSections :: "string list \<Rightarrow> string" where
  "CombineSections modes = foldl config_Combine ModeUnset modes"

subsection \<open>The manager\<close>

record 'c pairing =
  pm_ids :: "'c id_manager"
  pm_mode :: string
  pm_paired :: bool
  pm_saved :: "bool option"
  pm_enabled :: bool
  pm_expiry :: time

definition pairing_NewManager :: "bool option \<Rightarrow> 'c id_manager \<Rightarrow> 'c pairing" where
  "pairing_NewManager saved ids =
     \<lparr>pm_ids = ids, pm_mode = ModeUnset, pm_paired = (saved = Some True), pm_saved = saved, pm_enabled = False, pm_expiry = 0\<rparr>"

definition pairing_PlanChanged :: "string \<Rightarrow> 'c pairing \<Rightarrow> 'c pairing" where
  "pairing_PlanChanged newMode m =
     (if pm_mode m \<noteq> newMode then m\<lparr>pm_enabled := False, pm_mode := newMode\<rparr> else m\<lparr>pm_mode := newMode\<rparr>)"

text \<open>With the delay after which the next \<open>Ensure\<close> is asked for.\<close>

definition pairing_Ensure :: "time \<Rightarrow> 'c pairing \<Rightarrow> duration option \<times> 'c pairing" where
  "pairing_Ensure now m =
     (if \<not> pm_enabled m then (None, m)
      else if now < pm_expiry m then (Some (pm_expiry m - now), m)
      else (None, m\<lparr>pm_enabled := False\<rparr>))"

definition PairingEnabled :: "'c pairing \<Rightarrow> bool" where
  "PairingEnabled m = pm_enabled m"

definition EnablePairing :: "time \<Rightarrow> duration \<Rightarrow> 'c pairing \<Rightarrow> (err + duration) \<times> 'c pairing" where
  "EnablePairing now timeout m =
     (if pm_mode m = ModeDisabled \<or> pm_mode m = ModeUnset
      then (Inl (''cannot enable pairing with pairing mode disabled'', []), m)
      else if pm_mode m = ModeSingle \<and> pm_paired m
      then (Inl (''cannot enable pairing when already paired in '' @ [CHR 0x27] @ ModeSingle @ [CHR 0x27] @ '' pairing mode'', []), m)
      else if pm_mode m \<noteq> ModeSingle \<and> pm_mode m \<noteq> ModeMultiple
      then (Inl (''cannot enable pairing with unknown pairing mode %q'', [pm_mode m]), m)
      else (Inr timeout, m\<lparr>pm_expiry := now + timeout, pm_enabled := True\<rparr>))"

definition maxUsernameSuffix :: nat where "maxUsernameSuffix = 1000"

definition user_name :: "nat \<Rightarrow> string" where
  "user_name i = ''user-'' @ itoa i"

definition generateUniqueUsername :: "(string, 'c identity) fmap \<Rightarrow> err + string" where
  "generateUniqueUsername existing =
     (case find (\<lambda>i. user_name i |\<notin>| fmdom existing) [1..<Suc maxUsernameSuffix] of
        Some i \<Rightarrow> Inr (user_name i)
      | None \<Rightarrow> Inl (''user allocation limit %d reached'', [itoa maxUsernameSuffix]))"

definition set_paired :: "'c pairing \<Rightarrow> 'c pairing" where
  "set_paired m = m\<lparr>pm_paired := True, pm_saved := Some True\<rparr>"

definition has_certificate :: "(string, 'c identity) fmap \<Rightarrow> 'c \<Rightarrow> bool" where
  "has_certificate ids c \<longleftrightarrow> list_ex (\<lambda>(n, d). id_Cert d = Some (Some c)) (sorted_list_of_fmap ids)"

definition paired_identity :: "'c \<Rightarrow> 'c identity" where
  "paired_identity c =
     \<lparr>id_Name = [], id_Access = AdminAccess, id_Local = None, id_Basic = None, id_Cert = Some (Some c)\<rparr>"

text \<open>Pairing while the window is open; the window is closed whatever comes of it.\<close>

definition pair_open ::
  "('c \<Rightarrow> string option) \<Rightarrow> (32 word list \<Rightarrow> 32 word) \<Rightarrow> 'c \<Rightarrow> 'c pairing \<Rightarrow> (err + unit) \<times> 'c pairing" where
  "pair_open verify pick clientCert m =
     (case verify clientCert of
        Some e \<Rightarrow> (Inl (''cannot verify client certificate signature: %w'', [e]), m)
      | None \<Rightarrow>
          if has_certificate (im_identities (pm_ids m)) clientCert then (Inr (), set_paired m)
          else
            case generateUniqueUsername (im_identities (pm_ids m)) of
              Inl e \<Rightarrow> (Inl (''cannot create new identity username: %w'', fst e # snd e), m)
            | Inr username \<Rightarrow>
                (case AddIdentities pick [(username, Some (paired_identity clientCert))] (pm_ids m) of
                   (Inl e, ids) \<Rightarrow> (Inl (''cannot add identity: %w'', fst e # snd e), m\<lparr>pm_ids := ids\<rparr>)
                 | (Inr _, ids) \<Rightarrow> (Inr (), set_paired (m\<lparr>pm_ids := ids\<rparr>))))"

definition PairMTLS ::
  "('c \<Rightarrow> string option) \<Rightarrow> (32 word list \<Rightarrow> 32 word) \<Rightarrow> 'c \<Rightarrow> 'c pairing \<Rightarrow> (err + unit) \<times> 'c pairing" where
  "PairMTLS verify pick clientCert m =
     (if \<not> pm_enabled m then (Inl (''cannot pair while pairing window is disabled'', []), m)
      else let (r, m') = pair_open verify pick clientCert m in (r, m'\<lparr>pm_enabled := False\<rparr>))"

subsection \<open>What pairing does\<close>

lemma has_certificate_iff: "has_certificate ids c \<longleftrightarrow> (\<exists>n d. fmlookup ids n = Some d \<and> id_Cert d = Some (Some c))"
  by (force simp: has_certificate_def list_ex_iff sorted_list_of_fmap_def fmlookup_dom_iff)

lemma user_name_valid: "valid_name (user_name i)"
  using itoa_digits [of i] by (auto simp: valid_name_def user_name_def is_letter_def char_between_def less_eq_char_def list_all_iff)

lemma generateUniqueUsername_Inr:
  "generateUniqueUsername ids = Inr n \<Longrightarrow> n |\<notin>| fmdom ids \<and> valid_name n \<and> (\<exists>i. 1 \<le> i \<and> i \<le> maxUsernameSuffix \<and> n = user_name i)"
  by (auto simp: generateUniqueUsername_def user_name_valid less_Suc_eq_le simp del: upt_Suc
      dest!: find_Some_in split: option.splits)

lemma generateUniqueUsername_Inl:
  "generateUniqueUsername ids = Inl e \<Longrightarrow> 1 \<le> i \<Longrightarrow> i \<le> maxUsernameSuffix \<Longrightarrow> user_name i |\<in>| fmdom ids"
  by (auto simp: generateUniqueUsername_def find_None_iff split: option.splits)

lemma add_paired:
  assumes "id_manager_wf ids" "n |\<notin>| fmdom (im_identities ids)" "valid_name n"
  shows "AddIdentities pick [(n, Some (paired_identity c))] ids =
    (Inr (), save_identities (fmupd n ((paired_identity c)\<lparr>id_Name := n\<rparr>) (im_identities ids)) ids)"
proof -
  have "unique_users (fmupd n ((paired_identity c)\<lparr>id_Name := n\<rparr>) (im_identities ids))"
    using assms(1,2) by (auto simp: unique_users_def id_manager_wf_def ids_wf_def paired_identity_def)
  then have "verifyUniqueUserIDs pick (fmupd n ((paired_identity c)\<lparr>id_Name := n\<rparr>) (im_identities ids)) = Inr ()"
    by (simp add: verifyUniqueUserIDs_iff)
  then show ?thesis
    using assms(2,3) by (simp add: AddIdentities_def install_def Let_def put_identity_def identity_Validate_def
        paired_identity_def access_levels_def)
qed

lemma PairMTLS_eqs:
  "\<not> pm_enabled m \<Longrightarrow> PairMTLS verify pick c m = (Inl (''cannot pair while pairing window is disabled'', []), m)"
  "pm_enabled m \<Longrightarrow> verify c = Some e \<Longrightarrow>
    PairMTLS verify pick c m = (Inl (''cannot verify client certificate signature: %w'', [e]), m\<lparr>pm_enabled := False\<rparr>)"
  "pm_enabled m \<Longrightarrow> verify c = None \<Longrightarrow> has_certificate (im_identities (pm_ids m)) c \<Longrightarrow>
    PairMTLS verify pick c m = (Inr (), set_paired m\<lparr>pm_enabled := False\<rparr>)"
  "pm_enabled m \<Longrightarrow> verify c = None \<Longrightarrow> \<not> has_certificate (im_identities (pm_ids m)) c \<Longrightarrow>
    generateUniqueUsername (im_identities (pm_ids m)) = Inl x \<Longrightarrow>
    PairMTLS verify pick c m = (Inl (''cannot create new identity username: %w'', fst x # snd x), m\<lparr>pm_enabled := False\<rparr>)"
  by (simp_all add: PairMTLS_def pair_open_def)

lemma PairMTLS_new:
  assumes "id_manager_wf (pm_ids m)" "pm_enabled m" "verify c = None" "\<not> has_certificate (im_identities (pm_ids m)) c"
    "generateUniqueUsername (im_identities (pm_ids m)) = Inr n"
  shows "PairMTLS verify pick c m =
    (Inr (), set_paired (m\<lparr>pm_ids := save_identities (fmupd n ((paired_identity c)\<lparr>id_Name := n\<rparr>) (im_identities (pm_ids m))) (pm_ids m)\<rparr>)
      \<lparr>pm_enabled := False\<rparr>)"
  using assms(2-) generateUniqueUsername_Inr [OF assms(5)]
  by (simp add: PairMTLS_def pair_open_def add_paired [OF assms(1)])

text \<open>The ways a pairing may end.\<close>

lemma PairMTLS_cases:
  assumes "id_manager_wf (pm_ids m)" "PairMTLS verify pick c m = (r, m')"
  obtains (closed) e where "\<not> pm_enabled m" "r = Inl e" "m' = m"
  | (failed) e where "pm_enabled m" "r = Inl e" "m' = m\<lparr>pm_enabled := False\<rparr>"
      "verify c \<noteq> None \<or> \<not> has_certificate (im_identities (pm_ids m)) c \<and>
        (\<forall>i. 1 \<le> i \<longrightarrow> i \<le> maxUsernameSuffix \<longrightarrow> user_name i |\<in>| fmdom (im_identities (pm_ids m)))"
  | (known) "pm_enabled m" "verify c = None" "has_certificate (im_identities (pm_ids m)) c" "r = Inr ()"
      "m' = set_paired m\<lparr>pm_enabled := False\<rparr>"
  | (new) i ids where "pm_enabled m" "verify c = None" "\<not> has_certificate (im_identities (pm_ids m)) c" "r = Inr ()"
      "1 \<le> i" "i \<le> maxUsernameSuffix" "user_name i |\<notin>| fmdom (im_identities (pm_ids m))"
      "ids = save_identities (fmupd (user_name i) ((paired_identity c)\<lparr>id_Name := user_name i\<rparr>) (im_identities (pm_ids m))) (pm_ids m)"
      "id_manager_wf ids" "m' = set_paired (m\<lparr>pm_ids := ids\<rparr>)\<lparr>pm_enabled := False\<rparr>"
proof (cases "pm_enabled m \<and> verify c = None \<and> \<not> has_certificate (im_identities (pm_ids m)) c")
  case False
  then consider "\<not> pm_enabled m" | e where "pm_enabled m" "verify c = Some e"
    | "pm_enabled m" "verify c = None" "has_certificate (im_identities (pm_ids m)) c" by (cases "verify c") auto
  then show ?thesis
  proof cases
    case 1
    from closed [OF 1] assms(2) show ?thesis by (auto simp: PairMTLS_eqs(1) [OF 1])
  next
    case 2
    from failed [OF 2(1)] assms(2) 2(2) show ?thesis by (auto simp: PairMTLS_eqs(2) [of m verify, OF 2])
  next
    case 3
    from known [OF 3] assms(2) show ?thesis by (auto simp: PairMTLS_eqs(3) [of m verify, OF 3])
  qed
next
  case True
  show ?thesis
  proof (cases "generateUniqueUsername (im_identities (pm_ids m))")
    case (Inl e)
    then show ?thesis using True assms(2) failed generateUniqueUsername_Inl [OF Inl] PairMTLS_eqs(4) [of m verify c e pick] by auto
  next
    case (Inr n)
    from generateUniqueUsername_Inr [OF Inr] obtain i where
      i: "n |\<notin>| fmdom (im_identities (pm_ids m))" "valid_name n" "1 \<le> i" "i \<le> maxUsernameSuffix" "n = user_name i" by blast
    let ?ids = "save_identities (fmupd n ((paired_identity c)\<lparr>id_Name := n\<rparr>) (im_identities (pm_ids m))) (pm_ids m)"
    have "id_step (pm_ids m) (snd (AddIdentities pick [(n, Some (paired_identity c))] (pm_ids m)))"
      by (rule id_step.added) simp
    then have "id_manager_wf ?ids" using id_step_wf assms(1) by (simp add: add_paired [OF assms(1) i(1,2)])
    then show ?thesis
      using True new [of i ?ids] i PairMTLS_new [OF assms(1), of verify c n pick] Inr assms(2) by auto
  qed
qed

text \<open>
  Pairing succeeds exactly when the window is open, the certificate verifies, and an identity has it already or one of
  the thousand names is free.  Then some identity has the certificate; when none had it before, it is added as an
  administrator under a free name, and everyone else is kept as they were.  Without success no identity changes.
  The window is closed afterwards in any case.
\<close>

lemma PairMTLS_correct:
  assumes "id_manager_wf (pm_ids m)" "PairMTLS verify pick c m = (r, m')"
  shows "(r = Inr () \<longleftrightarrow> pm_enabled m \<and> verify c = None \<and>
      (has_certificate (im_identities (pm_ids m)) c \<or>
       (\<exists>i. 1 \<le> i \<and> i \<le> maxUsernameSuffix \<and> user_name i |\<notin>| fmdom (im_identities (pm_ids m))))) \<and>
    (r = Inr () \<longrightarrow> pm_paired m' \<and> pm_saved m' = Some True \<and> has_certificate (im_identities (pm_ids m')) c) \<and>
    (r = Inr () \<longrightarrow> \<not> has_certificate (im_identities (pm_ids m)) c \<longrightarrow>
      (\<exists>i. user_name i |\<notin>| fmdom (im_identities (pm_ids m)) \<and>
        im_identities (pm_ids m') =
          fmupd (user_name i) ((paired_identity c)\<lparr>id_Name := user_name i\<rparr>) (im_identities (pm_ids m)))) \<and>
    (r \<noteq> Inr () \<or> has_certificate (im_identities (pm_ids m)) c \<longrightarrow> pm_ids m' = pm_ids m) \<and>
    \<not> pm_enabled m' \<and> id_manager_wf (pm_ids m')"
  using assms
proof (cases rule: PairMTLS_cases)
  case (new i ids)
  then have "has_certificate (im_identities ids) c"
    by (auto simp: has_certificate_iff paired_identity_def save_identities_def intro!: exI [of _ "user_name i"])
  with new show ?thesis by (auto simp: set_paired_def save_identities_def)
qed (use assms(1) in \<open>auto simp: set_paired_def\<close>)

definition pairing_now :: "nat pairing" where
  "pairing_now = (pairing_NewManager None with_alice)\<lparr>pm_mode := ModeSingle, pm_enabled := True, pm_expiry := 10\<rparr>"

subsection \<open>The life of the manager\<close>

text \<open>
  What happens to the manager, with the number of clients that paired.  The plan only has the modes of a set; identities
  change in any way they can, and the daemon is started again at any time.
\<close>

inductive pairing_run :: "('c \<Rightarrow> string option) \<Rightarrow> string set \<Rightarrow> nat \<Rightarrow> 'c pairing \<Rightarrow> bool"
  for verify modes where
  first: "pairing_run verify modes 0 (pairing_NewManager None (NewManager None))"
| plan: "pairing_run verify modes k m \<Longrightarrow> mode \<in> modes \<Longrightarrow> pairing_run verify modes k (pairing_PlanChanged mode m)"
| ensure: "pairing_run verify modes k m \<Longrightarrow> pairing_run verify modes k (snd (pairing_Ensure now m))"
| enable: "pairing_run verify modes k m \<Longrightarrow> pairing_run verify modes k (snd (EnablePairing now timeout m))"
| paired: "pairing_run verify modes k m \<Longrightarrow> PairMTLS verify pick c m = (r, m') \<Longrightarrow>
    pairing_run verify modes (if r = Inr () then Suc k else k) m'"
| identities: "pairing_run verify modes k m \<Longrightarrow> id_step (pm_ids m) ids \<Longrightarrow> pairing_run verify modes k (m\<lparr>pm_ids := ids\<rparr>)"
| restart: "pairing_run verify modes k m \<Longrightarrow>
    pairing_run verify modes k (pairing_NewManager (pm_saved m) (NewManager (im_saved (pm_ids m))))"

definition pairing_wf :: "nat \<Rightarrow> 'c pairing \<Rightarrow> bool" where
  "pairing_wf k m \<longleftrightarrow>
     id_manager_wf (pm_ids m) \<and>
     (pm_paired m \<longleftrightarrow> pm_saved m = Some True) \<and> (pm_paired m \<longleftrightarrow> 1 \<le> k) \<and>
     (pm_enabled m \<longrightarrow> pm_mode m = ModeMultiple \<or> pm_mode m = ModeSingle \<and> \<not> pm_paired m)"

lemma PairMTLS_effect:
  assumes "id_manager_wf (pm_ids m)" "PairMTLS verify pick c m = (r, m')"
  shows "id_manager_wf (pm_ids m')" "\<not> pm_enabled m'" "pm_mode m' = pm_mode m" "r = Inr () \<Longrightarrow> pm_enabled m"
    "if r = Inr () then pm_paired m' \<and> pm_saved m' = Some True else pm_paired m' = pm_paired m \<and> pm_saved m' = pm_saved m"
  using assms(2) by (rule PairMTLS_cases [OF assms(1)]; use assms(1) in \<open>auto simp: set_paired_def\<close>)+

lemma pairing_run_wf: "pairing_run verify modes k m \<Longrightarrow> pairing_wf k m"
proof (induction rule: pairing_run.induct)
  case first
  then show ?case by (simp add: pairing_wf_def pairing_NewManager_def new_manager_wf)
next
  case (plan k m mode)
  then show ?case by (auto simp: pairing_wf_def pairing_PlanChanged_def)
next
  case (ensure k m now)
  then show ?case by (auto simp: pairing_wf_def pairing_Ensure_def)
next
  case (enable k m now timeout)
  then show ?case by (auto simp: pairing_wf_def EnablePairing_def)
next
  case (paired k m pick c r m')
  from paired.IH have "id_manager_wf (pm_ids m)" by (simp add: pairing_wf_def)
  from PairMTLS_effect [OF this paired.hyps(2)] paired.IH show ?case by (auto simp: pairing_wf_def split: if_splits)
next
  case (identities k m ids)
  then show ?case using id_step_wf by (auto simp: pairing_wf_def)
next
  case (restart k m)
  then show ?case by (auto simp: pairing_wf_def pairing_NewManager_def reload_restores)
qed

text \<open>
  C10: While the plan never has the mode for several clients, one client at most ever pairs, however often the window is opened
  and the daemon is started again; the manager knows at any time whether one has, and the window is open only while none has.
\<close>

theorem single_mode_pairs_once:
  assumes "pairing_run verify modes k m" "ModeMultiple \<notin> modes"
  shows "k \<le> 1 \<and> (pm_paired m \<longleftrightarrow> k = 1) \<and> (PairingEnabled m \<longrightarrow> pm_mode m = ModeSingle \<and> k = 0)"
proof -
  have "k \<le> 1 \<and> pm_mode m \<noteq> ModeMultiple" using assms
  proof (induction rule: pairing_run.induct)
    case (paired k m pick c r m')
    from pairing_run_wf [OF paired.hyps(1)] have wf: "pairing_wf k m" .
    then have "id_manager_wf (pm_ids m)" by (simp add: pairing_wf_def)
    from PairMTLS_effect [OF this paired.hyps(2)] wf paired.IH [OF paired.prems] show ?case
      by (auto simp: pairing_wf_def split: if_splits)
  qed (auto simp: pairing_NewManager_def mode_defs pairing_PlanChanged_def pairing_Ensure_def EnablePairing_def)
  with pairing_run_wf [OF assms(1)] show ?thesis by (auto simp: pairing_wf_def PairingEnabled_def)
qed

theorem single_mode_pairs_once_witness:
  "\<exists>k m. pairing_run (\<lambda>_ :: nat. None) {ModeSingle} k m \<and> PairingEnabled m \<and> k \<le> 1 \<and>
    (pm_paired m \<longleftrightarrow> k = 1) \<and> (PairingEnabled m \<longrightarrow> pm_mode m = ModeSingle \<and> k = 0)"
proof -
  let ?m = "snd (EnablePairing 0 5 (pairing_PlanChanged ModeSingle (pairing_NewManager None (NewManager None :: nat id_manager))))"
  have run: "pairing_run (\<lambda>_. None) {ModeSingle} 0 ?m" by (intro pairing_run.enable pairing_run.plan pairing_run.first) simp
  have "PairingEnabled ?m" by code_simp
  with run single_mode_pairs_once [OF run] show ?thesis by (auto simp: mode_defs)
qed

text \<open>The time at which the window expires is looked at by \<open>Ensure\<close> only: until it runs again the window stays open.\<close>

lemma pairing_after_expiry:
  "let m = snd (EnablePairing 0 5 (pairing_PlanChanged ModeSingle (pairing_NewManager None with_alice)))
   in pm_expiry m = 5 \<and> PairingEnabled m \<and> fst (PairMTLS (\<lambda>_. None) pick 7 m) = Inr ()"
proof -
  let ?m = "snd (EnablePairing 0 5 (pairing_PlanChanged ModeSingle (pairing_NewManager None with_alice)))"
  have "pm_expiry ?m = 5" "PairingEnabled ?m" "pm_ids ?m = with_alice"
    by (simp_all add: EnablePairing_def pairing_PlanChanged_def pairing_NewManager_def mode_defs PairingEnabled_def)
  moreover have "fmlookup (im_identities with_alice) (user_name 1) = None" by code_simp
  then have "generateUniqueUsername (im_identities with_alice) = Inr (user_name 1)"
    by (simp add: generateUniqueUsername_def maxUsernameSuffix_def upt_rec [of "Suc 0"] fmdom_notI)
  ultimately show ?thesis using id_reachable_wf [OF with_alice_reachable]
    by (cases "has_certificate (im_identities with_alice) 7")
      (simp_all add: PairMTLS_eqs(3) PairMTLS_new Let_def PairingEnabled_def)
qed

end
