(* ===== verification/Access.thy ===== *)
theory Access
  imports Pairing "HOL-Library.Monad_Syntax"
begin

text \<open>
  How the daemon decides on a request (\<open>internals/daemon\<close>: \<open>access.go\<close>, \<open>ucrednet.go\<close>, the commands of \<open>api.go\<close>, and
  \<open>ServeHTTP\<close> and \<open>userFromRequest\<close> of \<open>daemon.go\<close>).  The handlers are arguments, and so is what the daemon knows
  outside of the request.
\<close>

subsection \<open>Transports and requests\<close>

datatype transport = TransportUnknown | TransportUnixSocket | TransportHTTP | TransportHTTPS

definition transport_String :: "transport \<Rightarrow> string" where
  "transport_String t =
     (case t of TransportUnixSocket \<Rightarrow> ''http+unix'' | TransportHTTP \<Rightarrow> ''http'' | TransportHTTPS \<Rightarrow> ''https'' | _ \<Rightarrow> ''unknown'')"

definition IsValid :: "transport \<Rightarrow> bool" where
  "IsValid t \<longleftrightarrow> t = TransportUnixSocket \<or> t = TransportHTTP \<or> t = TransportHTTPS"

definition IsConcealed :: "transport \<Rightarrow> bool" where
  "IsConcealed t \<longleftrightarrow> t = TransportUnixSocket \<or> t = TransportHTTPS"

record 'c request =
  rq_Method :: string
  rq_Path :: string
  rq_Transport :: transport
  rq_RemoteAddr :: string
  rq_BasicAuth :: "(string \<times> string) option"
  rq_PeerCertificates :: "'c list option"

subsection \<open>Peer credentials\<close>

record ucrednet =
  un_Pid :: int
  un_Uid :: "32 word"
  un_Socket :: string

definition ucrednetNobody :: "32 word" where "ucrednetNobody = - 1"

definition ucrednet_String :: "ucrednet option \<Rightarrow> string" where
  "ucrednet_String un =
     (case un of
        None \<Rightarrow> ''pid=;uid=;socket=;''
      | Some u \<Rightarrow> ''pid='' @ int_string (un_Pid u) @ '';uid='' @ itoa (unat (un_Uid u)) @ '';socket='' @ un_Socket u @ '';'')"

definition cut_prefix :: "string \<Rightarrow> string \<Rightarrow> string option" where
  "cut_prefix p s = (if prefix p s then Some (drop (length p) s) else None)"

definition semicolon :: char where "semicolon = CHR '';''"

text \<open>The groups of \<open>raddrRegexp\<close>.\<close>

definition raddr_groups :: "string \<Rightarrow> (string \<times> string \<times> string) option" where
  "raddr_groups s = do {
     s1 \<leftarrow> cut_prefix ''pid='' s;
     let pid = takeWhile is_digit s1;
     s2 \<leftarrow> cut_prefix '';uid='' (dropWhile is_digit s1);
     let uid = takeWhile is_digit s2;
     s3 \<leftarrow> cut_prefix '';socket='' (dropWhile is_digit s2);
     let socket = takeWhile (\<lambda>c. c \<noteq> semicolon) s3;
     if pid \<noteq> [] \<and> uid \<noteq> [] \<and> dropWhile (\<lambda>c. c \<noteq> semicolon) s3 = [semicolon] then Some (pid, uid, socket) else None
   }"

definition ucrednetGet :: "string \<Rightarrow> ucrednet option" where
  "ucrednetGet remoteAddr =
     (let (pid, uid, socket) =
        (case raddr_groups remoteAddr of
           None \<Rightarrow> (- 1, ucrednetNobody, [])
         | Some (p, u, s) \<Rightarrow>
             (if int (decimal_of p) < 2 ^ 31 then int (decimal_of p) else - 1,
              if int (decimal_of u) < 2 ^ 32 then of_nat (decimal_of u) else ucrednetNobody, s))
      in if pid = - 1 \<or> uid = ucrednetNobody then None
         else Some \<lparr>un_Pid = pid, un_Uid = uid, un_Socket = socket\<rparr>)"

subsection \<open>Responses\<close>

datatype 'r result = Result 'r | ErrorResult message string

record 'r resp =
  rs_Status :: int
  rs_Type :: string
  rs_Change :: string
  rs_Result :: "'r result"
  rs_LatestWarning :: "time option"
  rs_Maintenance :: "(string \<times> string) option"

datatype 'r response = Resp "'r resp" | OtherResponse 'r

definition ErrorResponse :: "int \<Rightarrow> message \<Rightarrow> 'r resp" where
  "ErrorResponse status msg =
     \<lparr>rs_Status = status, rs_Type = ''error'', rs_Change = [],
      rs_Result = ErrorResult msg (if status = 401 then ''login-required'' else []),
      rs_LatestWarning = None, rs_Maintenance = None\<rparr>"

definition SyncResponse :: "'r \<Rightarrow> 'r resp" where
  "SyncResponse r =
     \<lparr>rs_Status = 200, rs_Type = ''sync'', rs_Change = [], rs_Result = Result r, rs_LatestWarning = None, rs_Maintenance = None\<rparr>"

definition AsyncResponse :: "'r \<Rightarrow> string \<Rightarrow> 'r resp" where
  "AsyncResponse r change =
     \<lparr>rs_Status = 202, rs_Type = ''async'', rs_Change = change, rs_Result = Result r, rs_LatestWarning = None, rs_Maintenance = None\<rparr>"

definition transmitMaintenance :: "string \<Rightarrow> string \<Rightarrow> 'r resp \<Rightarrow> 'r resp" where
  "transmitMaintenance kind msg r = r\<lparr>rs_Maintenance := Some (kind, msg)\<rparr>"

definition addWarningsToMeta :: "time \<Rightarrow> 'r resp \<Rightarrow> 'r resp" where
  "addWarningsToMeta latest r =
     (if rs_LatestWarning r \<noteq> None then r else if is_zero_time latest then r else r\<lparr>rs_LatestWarning := Some latest\<rparr>)"

definition BadRequest :: "message \<Rightarrow> 'r resp" where "BadRequest = ErrorResponse 400"
definition Unauthorized :: "message \<Rightarrow> 'r resp" where "Unauthorized = ErrorResponse 401"
definition Forbidden :: "message \<Rightarrow> 'r resp" where "Forbidden = ErrorResponse 403"
definition MethodNotAllowed :: "message \<Rightarrow> 'r resp" where "MethodNotAllowed = ErrorResponse 405"
definition ServerError :: "message \<Rightarrow> 'r resp" where "ServerError = ErrorResponse 500"

lemmas responder_defs = BadRequest_def Unauthorized_def Forbidden_def MethodNotAllowed_def ServerError_def

subsection \<open>Access checkers\<close>

record user_state =
  us_Access :: string
  us_UID :: "32 word option"
  us_Username :: string

datatype access_checker = OpenChecker | AdminChecker | UserChecker | MetricsChecker | PairingChecker

definition denied :: "'r resp" where "denied = Unauthorized (''access denied'', [])"

definition AdminAccess_CheckAccess :: "'c request \<Rightarrow> user_state option \<Rightarrow> 'r resp option" where
  "AdminAccess_CheckAccess r user =
     (case user of
        None \<Rightarrow> Some denied
      | Some u \<Rightarrow> if \<not> IsConcealed (rq_Transport r) then Some denied else if us_Access u = AdminAccess then None else Some denied)"

definition UserAccess_CheckAccess :: "'c request \<Rightarrow> user_state option \<Rightarrow> 'r resp option" where
  "UserAccess_CheckAccess r user =
     (case user of
        None \<Rightarrow> Some denied
      | Some u \<Rightarrow>
          if \<not> IsConcealed (rq_Transport r) then Some denied
          else if us_Access u = ReadAccess \<or> us_Access u = AdminAccess then None else Some denied)"

definition MetricsAccess_CheckAccess :: "'c request \<Rightarrow> user_state option \<Rightarrow> 'r resp option" where
  "MetricsAccess_CheckAccess r user =
     (case user of
        None \<Rightarrow> Some denied
      | Some u \<Rightarrow>
          if rq_Transport r = TransportHTTP \<and> us_Access u = MetricsAccess then None
          else if \<not> IsConcealed (rq_Transport r) then Some denied
          else if us_Access u = MetricsAccess \<or> us_Access u = ReadAccess \<or> us_Access u = AdminAccess then None else Some denied)"

definition PairingAccess_CheckAccess :: "bool \<Rightarrow> 'c request \<Rightarrow> 'r resp option" where
  "PairingAccess_CheckAccess window_enabled r =
     (if rq_Path r \<noteq> ''/v1/pairing'' then Some denied
      else if rq_Transport r \<noteq> TransportHTTPS then Some denied
      else if window_enabled then None else Some denied)"

fun CheckAccess :: "access_checker \<Rightarrow> bool \<Rightarrow> 'c request \<Rightarrow> user_state option \<Rightarrow> 'r resp option" where
  "CheckAccess OpenChecker window_enabled r user = None"
| "CheckAccess AdminChecker window_enabled r user = AdminAccess_CheckAccess r user"
| "CheckAccess UserChecker window_enabled r user = UserAccess_CheckAccess r user"
| "CheckAccess MetricsChecker window_enabled r user = MetricsAccess_CheckAccess r user"
| "CheckAccess PairingChecker window_enabled r user = PairingAccess_CheckAccess window_enabled r"

subsection \<open>The user of a request\<close>

definition request_certificate :: "'c request \<Rightarrow> 'c option" where
  "request_certificate r = (case rq_PeerCertificates r of Some [c] \<Rightarrow> Some c | _ \<Rightarrow> None)"

definition request_credentials :: "'c request \<Rightarrow> string \<times> string" where
  "request_credentials r =
     (if rq_Transport r \<noteq> TransportHTTPS then (case rq_BasicAuth r of Some up \<Rightarrow> up | None \<Rightarrow> ([], [])) else ([], []))"

type_synonym 'c authenticate = "32 word option \<Rightarrow> string \<Rightarrow> string \<Rightarrow> 'c option \<Rightarrow> 'c identity option"

definition userFromRequest :: "'c authenticate \<Rightarrow> 'c request \<Rightarrow> ucrednet option \<Rightarrow> user_state option" where
  "userFromRequest auth r ucred =
     (let userID = map_option un_Uid ucred; (username, password) = request_credentials r in
      case auth userID username password (request_certificate r) of
        Some d \<Rightarrow>
          Some \<lparr>us_Access = id_Access d, us_UID = (if id_Local d \<noteq> None then userID else None), us_Username = id_Name d\<rparr>
      | None \<Rightarrow> None)"

definition userString :: "user_state option \<Rightarrow> string" where
  "userString user =
     (case user of
        None \<Rightarrow> ''<unknown>''
      | Some u \<Rightarrow>
          if us_Username u \<noteq> [] then us_Username u
          else case us_UID u of Some uid \<Rightarrow> itoa (unat uid) | None \<Rightarrow> ''<unknown>'')"

subsection \<open>Commands\<close>

type_synonym ('s, 'r) handler = "user_state option \<Rightarrow> 's \<Rightarrow> 'r response \<times> 's"

record ('s, 'r) command =
  cmd_GET :: "('s, 'r) handler option"
  cmd_PUT :: "('s, 'r) handler option"
  cmd_POST :: "('s, 'r) handler option"
  cmd_ReadAccess :: "access_checker option"
  cmd_WriteAccess :: "access_checker option"

datatype restart_type =
  RestartUnset | RestartDaemon | RestartSystem | RestartSystemNow | RestartSocket | StopDaemon
| RestartSystemHaltNow | RestartSystemPoweroffNow | RestartServiceFailure | RestartCheckFailure

record daemon_env =
  de_degraded :: "message option"
  de_uid :: "32 word"
  de_window :: bool
  de_restart :: restart_type
  de_latest_warning :: time

definition select_handler :: "('s, 'r) command \<Rightarrow> string \<Rightarrow> ('s, 'r) handler option \<times> access_checker option" where
  "select_handler c verb =
     (if verb = ''GET'' then (cmd_GET c, cmd_ReadAccess c)
      else if verb = ''PUT'' then (cmd_PUT c, cmd_WriteAccess c)
      else if verb = ''POST'' then (cmd_POST c, cmd_WriteAccess c)
      else (None, None))"

text \<open>The user when no identity is found: by the user id of the process at the other end of the socket.\<close>

definition default_user :: "daemon_env \<Rightarrow> ucrednet option \<Rightarrow> user_state option" where
  "default_user de ucred =
     (case ucred of
        None \<Rightarrow> None
      | Some u \<Rightarrow>
          if un_Uid u = 0 \<or> un_Uid u = de_uid de
          then Some \<lparr>us_Access = AdminAccess, us_UID = Some (un_Uid u), us_Username = []\<rparr>
          else Some \<lparr>us_Access = ReadAccess, us_UID = Some (un_Uid u), us_Username = []\<rparr>)"

definition request_user :: "'c authenticate \<Rightarrow> daemon_env \<Rightarrow> access_checker \<Rightarrow> 'c request \<Rightarrow> ucrednet option \<Rightarrow> user_state option" where
  "request_user auth de access r ucred =
     (case (if access \<noteq> OpenChecker then userFromRequest auth r ucred else None) of
        Some u \<Rightarrow> Some u
      | None \<Rightarrow> default_user de ucred)"

text \<open>What comes before the handler: a response that turns the request away, a nil access checker, or the handler with the user.\<close>

datatype ('s, 'r) admission = Refused "'r resp" | NilChecker | Admitted "('s, 'r) handler" "user_state option"

definition admit :: "'c authenticate \<Rightarrow> daemon_env \<Rightarrow> ('s, 'r) command \<Rightarrow> 'c request \<Rightarrow> ('s, 'r) admission" where
  "admit auth de c r =
     (if de_degraded de \<noteq> None \<and> rq_Method r \<noteq> ''GET'' then Refused (ServerError (the (de_degraded de)))
      else
        let ucred = ucrednetGet (rq_RemoteAddr r) in
        case select_handler c (rq_Method r) of
          (None, _) \<Rightarrow> Refused (MethodNotAllowed (''method %q not allowed'', [rq_Method r]))
        | (Some h, None) \<Rightarrow>
            if \<not> IsValid (rq_Transport r) then Refused (Forbidden (''forbidden'', [])) else NilChecker
        | (Some h, Some access) \<Rightarrow>
            let user = request_user auth de access r ucred in
            if \<not> IsValid (rq_Transport r) then Refused (Forbidden (''forbidden'', []))
            else case CheckAccess access (de_window de) r user of
              Some rsp \<Rightarrow> Refused rsp
            | None \<Rightarrow> Admitted h user)"

definition add_maintenance :: "restart_type \<Rightarrow> 'r resp \<Rightarrow> 'r resp" where
  "add_maintenance rst r =
     (case rst of
        RestartSystem \<Rightarrow> transmitMaintenance ''system-restart'' ''system is restarting'' r
      | RestartDaemon \<Rightarrow> transmitMaintenance ''daemon-restart'' ''daemon is restarting'' r
      | RestartSocket \<Rightarrow> transmitMaintenance ''daemon-restart'' ''daemon is stopping to wait for socket activation'' r
      | _ \<Rightarrow> r)"

definition finish_response :: "daemon_env \<Rightarrow> 'r response \<Rightarrow> 'r response" where
  "finish_response de rsp =
     (case rsp of
        OtherResponse x \<Rightarrow> OtherResponse x
      | Resp r \<Rightarrow>
          let r = add_maintenance (de_restart de) r
          in Resp (if rs_Type r \<noteq> ''error'' then addWarningsToMeta (de_latest_warning de) r else r))"

text \<open>\<open>None\<close> is a panic, after which the daemon exits.\<close>

definition ServeHTTP ::
  "'c authenticate \<Rightarrow> daemon_env \<Rightarrow> ('s, 'r) command \<Rightarrow> 'c request \<Rightarrow> 's \<Rightarrow> 'r response option \<times> 's" where
  "ServeHTTP auth de c r s =
     (case admit auth de c r of
        Refused rsp \<Rightarrow> (Some (Resp rsp), s)
      | NilChecker \<Rightarrow> (None, s)
      | Admitted h user \<Rightarrow> let (rsp, s') = h user s in (Some (finish_response de rsp), s'))"

subsection \<open>The API\<close>

record route =
  rt_Path :: string
  rt_GET :: bool
  rt_PUT :: bool
  rt_POST :: bool
  rt_ReadAccess :: "access_checker option"
  rt_WriteAccess :: "access_checker option"

definition reads :: "string \<Rightarrow> access_checker \<Rightarrow> route" where
  "reads path k = \<lparr>rt_Path = path, rt_GET = True, rt_PUT = False, rt_POST = False, rt_ReadAccess = Some k, rt_WriteAccess = None\<rparr>"

definition posts :: "string \<Rightarrow> access_checker \<Rightarrow> route" where
  "posts path k = \<lparr>rt_Path = path, rt_GET = False, rt_PUT = False, rt_POST = True, rt_ReadAccess = None, rt_WriteAccess = Some k\<rparr>"

definition reads_posts :: "string \<Rightarrow> access_checker \<Rightarrow> access_checker \<Rightarrow> route" where
  "reads_posts path k k' =
     \<lparr>rt_Path = path, rt_GET = True, rt_PUT = False, rt_POST = True, rt_ReadAccess = Some k, rt_WriteAccess = Some k'\<rparr>"

definition API :: "route list" where
  "API = [
     reads ''/v1/system-info'' OpenChecker,
     reads ''/v1/health'' OpenChecker,
     reads ''/v1/changes'' OpenChecker,
     reads_posts ''/v1/changes/{id}'' OpenChecker AdminChecker,
     reads ''/v1/changes/{id}/wait'' OpenChecker,
     reads_posts ''/v1/services'' UserChecker AdminChecker,
     reads_posts ''/v1/services/{name}'' UserChecker AdminChecker,
     reads ''/v1/plan'' AdminChecker,
     posts ''/v1/layers'' AdminChecker,
     reads_posts ''/v1/files'' AdminChecker AdminChecker,
     reads ''/v1/logs'' UserChecker,
     posts ''/v1/exec'' AdminChecker,
     reads ''/v1/tasks/{task-id}/websocket/{websocket-id}'' OpenChecker,
     posts ''/v1/signals'' AdminChecker,
     reads_posts ''/v1/checks'' UserChecker AdminChecker,
     posts ''/v1/checks/refresh'' AdminChecker,
     reads_posts ''/v1/notices'' UserChecker UserChecker,
     reads ''/v1/notices/{id}'' UserChecker,
     reads_posts ''/v1/identities'' UserChecker AdminChecker,
     posts ''/v1/pairing'' PairingChecker,
     (posts ''/v1/build-test'' OpenChecker)\<lparr>rt_ReadAccess := Some OpenChecker\<rparr>,
     reads ''/v1/metrics'' MetricsChecker]"

text \<open>The command of a route, with the handlers of its methods.\<close>

definition route_command :: "route \<Rightarrow> (string \<Rightarrow> ('s, 'r) handler) \<Rightarrow> ('s, 'r) command" where
  "route_command rt h =
     \<lparr>cmd_GET = (if rt_GET rt then Some (h ''GET'') else None),
      cmd_PUT = (if rt_PUT rt then Some (h ''PUT'') else None),
      cmd_POST = (if rt_POST rt then Some (h ''POST'') else None),
      cmd_ReadAccess = rt_ReadAccess rt, cmd_WriteAccess = rt_WriteAccess rt\<rparr>"

subsection \<open>Connections\<close>

text \<open>
  A connection by its transport: a Unix socket with the credentials of the peer, TCP, or TLS with the certificates of the
  client.  The requests of a connection carry what \<open>ConnContext\<close> and \<open>RemoteAddr\<close> make of it.
\<close>

datatype 'c connection = UnixConn "ucrednet option" | TCPConn string | TLSConn string "'c list"

definition conn_transport :: "'c connection \<Rightarrow> transport" where
  "conn_transport cn = (case cn of UnixConn u \<Rightarrow> TransportUnixSocket | TCPConn a \<Rightarrow> TransportHTTP | TLSConn a cs \<Rightarrow> TransportHTTPS)"

definition conn_RemoteAddr :: "'c connection \<Rightarrow> string" where
  "conn_RemoteAddr cn = (case cn of UnixConn u \<Rightarrow> ucrednet_String u | TCPConn a \<Rightarrow> a | TLSConn a cs \<Rightarrow> a)"

definition conn_request :: "'c connection \<Rightarrow> string \<Rightarrow> string \<Rightarrow> (string \<times> string) option \<Rightarrow> 'c request" where
  "conn_request cn verb path basic =
     \<lparr>rq_Method = verb, rq_Path = path, rq_Transport = conn_transport cn, rq_RemoteAddr = conn_RemoteAddr cn,
      rq_BasicAuth = basic, rq_PeerCertificates = (case cn of TLSConn a cs \<Rightarrow> Some cs | _ \<Rightarrow> None)\<rparr>"

subsection \<open>Reading the credentials back\<close>

lemma take_digits:
  "\<not> is_digit c \<Longrightarrow> takeWhile is_digit (itoa n @ c # s) = itoa n" "\<not> is_digit c \<Longrightarrow> dropWhile is_digit (itoa n @ c # s) = c # s"
  using itoa_digits [of n] by (simp_all add: list_all_iff takeWhile_append dropWhile_append)

lemma not_digits: "\<not> is_digit CHR '';''" by (simp add: is_digit_def less_eq_char_def)

lemma socket_end:
  "semicolon \<notin> set s \<Longrightarrow> takeWhile (\<lambda>c. c \<noteq> semicolon) (s @ [semicolon]) = s \<and> dropWhile (\<lambda>c. c \<noteq> semicolon) (s @ [semicolon]) = [semicolon]"
  by (induction s) auto

lemma raddr_groups_String:
  assumes "semicolon \<notin> set s"
  shows "raddr_groups (''pid='' @ itoa p @ '';uid='' @ itoa u @ '';socket='' @ s @ '';'') = Some (itoa p, itoa u, s)"
  using socket_end [OF assms] by (simp add: raddr_groups_def cut_prefix_def take_digits not_digits itoa_ne semicolon_def)

definition plain_credentials :: "ucrednet \<Rightarrow> bool" where
  "plain_credentials u \<longleftrightarrow> 0 \<le> un_Pid u \<and> un_Pid u < 2 ^ 31 \<and> un_Uid u \<noteq> ucrednetNobody \<and> semicolon \<notin> set (un_Socket u)"

lemma ucrednetGet_String:
  assumes "plain_credentials u"
  shows "ucrednetGet (ucrednet_String (Some u)) = Some u"
proof -
  have "raddr_groups (ucrednet_String (Some u)) = Some (itoa (nat (un_Pid u)), itoa (unat (un_Uid u)), un_Socket u)"
    using assms raddr_groups_String [of "un_Socket u" "nat (un_Pid u)" "unat (un_Uid u)"]
    by (simp add: ucrednet_String_def int_string_def plain_credentials_def)
  moreover have "unat (un_Uid u) < 4294967296" using unsigned_less [of "un_Uid u", where 'a = nat] by simp
  moreover have "nat (un_Pid u) < 2147483648" using assms by (simp add: plain_credentials_def nat_less_iff)
  ultimately show ?thesis using assms by (simp add: ucrednetGet_def plain_credentials_def)
qed

lemma ucrednetGet_none: "ucrednetGet (ucrednet_String None) = None"
  by code_simp

lemma ucrednetGet_address: "\<not> prefix ''pid='' a \<Longrightarrow> ucrednetGet a = None"
  by (simp add: ucrednetGet_def raddr_groups_def cut_prefix_def)

text \<open>What the daemon makes of the credentials of a connection.\<close>

definition conn_ucred :: "'c connection \<Rightarrow> ucrednet option" where
  "conn_ucred cn = (case cn of UnixConn u \<Rightarrow> u | _ \<Rightarrow> None)"

definition plain_connection :: "'c connection \<Rightarrow> bool" where
  "plain_connection cn \<longleftrightarrow>
     (case cn of
        UnixConn (Some u) \<Rightarrow> plain_credentials u
      | UnixConn None \<Rightarrow> True
      | TCPConn a \<Rightarrow> \<not> prefix ''pid='' a
      | TLSConn a cs \<Rightarrow> \<not> prefix ''pid='' a)"

lemma conn_ucred: "plain_connection cn \<Longrightarrow> ucrednetGet (conn_RemoteAddr cn) = conn_ucred cn"
  by (auto simp: plain_connection_def conn_RemoteAddr_def conn_ucred_def ucrednetGet_String ucrednetGet_none ucrednetGet_address
      split: connection.splits option.splits)

subsection \<open>Who may do what\<close>

text \<open>What the daemon needs of the identities: whoever is found has proved who they are.\<close>

locale authenticator =
  fixes auth :: "'c authenticate"
    and proves :: "'c identity \<Rightarrow> 32 word option \<Rightarrow> string \<Rightarrow> string \<Rightarrow> 'c option \<Rightarrow> bool"
  assumes found_proves: "auth userID username password clientCert = Some d \<Longrightarrow> proves d userID username password clientCert"
begin

text \<open>A user has an identity proved by the request, or no identity was found and the user id of the peer decides.\<close>

lemma user_from_request:
  assumes "userFromRequest auth r ucred = Some u"
  obtains d where "proves d (map_option un_Uid ucred) (fst (request_credentials r)) (snd (request_credentials r)) (request_certificate r)"
    "us_Access u = id_Access d"
  using assms by (auto simp: userFromRequest_def Let_def split: prod.splits option.splits dest: found_proves)

lemma user_of_request:
  assumes "request_user auth de access r ucred = Some u" "access \<noteq> OpenChecker"
  shows "(\<exists>d. proves d (map_option un_Uid ucred) (fst (request_credentials r)) (snd (request_credentials r)) (request_certificate r) \<and>
      us_Access u = id_Access d) \<or>
    userFromRequest auth r ucred = None \<and> (\<exists>p. ucred = Some p \<and>
      us_Access u = (if un_Uid p = 0 \<or> un_Uid p = de_uid de then AdminAccess else ReadAccess))"
proof (cases "userFromRequest auth r ucred")
  case None
  with assms show ?thesis by (auto simp: request_user_def default_user_def split: option.splits if_splits)
next
  case (Some v)
  with assms have "v = u" by (simp add: request_user_def)
  with Some show ?thesis by (metis user_from_request)
qed

end

interpretation inputs: authenticator "IdentityFromInputs self_signed crypt ds"
    "\<lambda>d u n p c. d \<in> set ds \<and> recognised self_signed crypt d u n p c" for self_signed crypt ds
  by unfold_locales (rule IdentityFromInputs_recognised)

lemma admitted:
  assumes "admit auth de c r = (Admitted h user :: ('s, 'r) admission)"
  obtains access where "select_handler c (rq_Method r) = (Some h, Some access)" "IsValid (rq_Transport r)"
    "user = request_user auth de access r (ucrednetGet (rq_RemoteAddr r))"
    "CheckAccess access (de_window de) r user = (None :: 'r resp option)"
  using assms by (auto simp: admit_def Let_def split: if_splits prod.splits option.splits)

text \<open>
  The levels that let a user through a checker, and who has a level: someone who proved an identity with that access, or
  else someone without a proved identity at the other end of the Unix socket, by their user id.
\<close>

definition entitled ::
  "('c \<Rightarrow> bool) \<Rightarrow> (string \<Rightarrow> string \<Rightarrow> bool) \<Rightarrow> 'c identity list \<Rightarrow> daemon_env \<Rightarrow> 'c request \<Rightarrow> ucrednet option \<Rightarrow> string set \<Rightarrow> bool" where
  "entitled self_signed crypt ds de r ucred levels \<longleftrightarrow>
     (\<exists>d \<in> set ds. recognised self_signed crypt d (map_option un_Uid ucred) (fst (request_credentials r))
        (snd (request_credentials r)) (request_certificate r) \<and> id_Access d \<in> levels) \<or>
     (\<exists>p. ucred = Some p \<and> (if un_Uid p = 0 \<or> un_Uid p = de_uid de then AdminAccess else ReadAccess) \<in> levels)"

lemma entitled_user:
  assumes "request_user (IdentityFromInputs self_signed crypt ds) de access r ucred = Some u" "access \<noteq> OpenChecker"
    "us_Access u \<in> levels"
  shows "entitled self_signed crypt ds de r ucred levels"
  using inputs.user_of_request [OF assms(1,2)] assms(3) unfolding entitled_def by auto

lemma checked:
  "CheckAccess AdminChecker w r user = None \<longleftrightarrow> (\<exists>u. user = Some u \<and> IsConcealed (rq_Transport r) \<and> us_Access u \<in> {AdminAccess})"
  "CheckAccess UserChecker w r user = None \<longleftrightarrow> (\<exists>u. user = Some u \<and> IsConcealed (rq_Transport r) \<and> us_Access u \<in> {ReadAccess, AdminAccess})"
  "CheckAccess MetricsChecker w r user = None \<longleftrightarrow>
    (\<exists>u. user = Some u \<and> (rq_Transport r = TransportHTTP \<and> us_Access u = MetricsAccess \<or>
      IsConcealed (rq_Transport r) \<and> us_Access u \<in> {MetricsAccess, ReadAccess, AdminAccess}))"
  "CheckAccess PairingChecker w r user = None \<longleftrightarrow> rq_Path r = ''/v1/pairing'' \<and> rq_Transport r = TransportHTTPS \<and> w"
  by (auto simp: AdminAccess_CheckAccess_def UserAccess_CheckAccess_def MetricsAccess_CheckAccess_def PairingAccess_CheckAccess_def
      split: option.splits)

definition post_open :: "string set" where
  "post_open = {''/v1/notices'', ''/v1/pairing'', ''/v1/build-test''}"

definition admin_only :: "string set" where
  "admin_only = {''/v1/plan'', ''/v1/files''}"

definition users_only :: "string set" where
  "users_only = {''/v1/services'', ''/v1/services/{name}'', ''/v1/logs'', ''/v1/checks'', ''/v1/notices'', ''/v1/notices/{id}'',
     ''/v1/identities''}"

definition fitting_checker :: "string \<Rightarrow> string \<Rightarrow> access_checker \<Rightarrow> bool" where
  "fitting_checker verb path access \<longleftrightarrow>
     (verb = ''POST'' \<and> path \<notin> post_open \<longrightarrow> access = AdminChecker) \<and>
     (path \<in> admin_only \<longrightarrow> access = AdminChecker) \<and>
     (path \<in> users_only \<longrightarrow> access = UserChecker \<or> access = AdminChecker) \<and>
     (path = ''/v1/metrics'' \<longrightarrow> access = MetricsChecker) \<and>
     (path = ''/v1/pairing'' \<longrightarrow> access = PairingChecker)"

lemmas route_defs = API_def reads_def posts_def reads_posts_def

lemma API_checkers:
  "list_all (\<lambda>rt. \<not> rt_PUT rt \<and>
     (rt_GET rt \<longrightarrow> (case rt_ReadAccess rt of None \<Rightarrow> False | Some k \<Rightarrow> fitting_checker ''GET'' (rt_Path rt) k)) \<and>
     (rt_POST rt \<longrightarrow> (case rt_WriteAccess rt of None \<Rightarrow> False | Some k \<Rightarrow> fitting_checker ''POST'' (rt_Path rt) k))) API"
  by (simp add: route_defs fitting_checker_def post_open_def admin_only_def users_only_def)

lemma route_checker:
  assumes "rt \<in> set API" "select_handler (route_command rt h) verb = (Some h', a)"
  shows "verb \<in> {''GET'', ''POST''} \<and> h' = h verb \<and> (\<exists>k. a = Some k \<and> fitting_checker verb (rt_Path rt) k)"
  using API_checkers assms
  by (auto simp: list_all_iff select_handler_def route_command_def split: if_splits option.splits dest!: bspec)

lemma CheckAccess_denied: "CheckAccess k w r u = Some rsp \<Longrightarrow> rsp = denied"
  by (cases k) (auto simp: AdminAccess_CheckAccess_def UserAccess_CheckAccess_def MetricsAccess_CheckAccess_def
      PairingAccess_CheckAccess_def split: option.splits if_splits)

lemma refused_error: "admit auth de c r = Refused rsp \<Longrightarrow> 400 \<le> rs_Status rsp \<and> rs_Type rsp = ''error''"
  by (auto simp: admit_def Let_def responder_defs denied_def ErrorResponse_def dest!: CheckAccess_denied
      split: if_splits prod.splits option.splits)


definition quiet_env :: daemon_env where
  "quiet_env = \<lparr>de_degraded = None, de_uid = 500, de_window = False, de_restart = RestartUnset, de_latest_warning = 0\<rparr>"

definition socket_of :: "32 word \<Rightarrow> nat connection" where
  "socket_of uid = UnixConn (Some \<lparr>un_Pid = 42, un_Uid = uid, un_Socket = ''/run/pebble.socket''\<rparr>)"

definition answers :: "string \<Rightarrow> (nat, unit) handler" where
  "answers verb user s = (Resp (SyncResponse ()), Suc s)"

lemma socket_plain: "uid \<noteq> - 1 \<Longrightarrow> plain_connection (socket_of uid)"
  by (simp add: plain_connection_def socket_of_def plain_credentials_def ucrednetNobody_def semicolon_def)


lemma conn_user:
  assumes "plain_connection cn"
  shows "ucrednetGet (rq_RemoteAddr (conn_request cn verb path basic)) = conn_ucred cn"
  using conn_ucred [OF assms] by (simp add: conn_request_def)

text \<open>
  An identity that restricts a local user to untrusted access is got round with made up basic credentials: no identity is found
  for them, and the user id gives read access.
\<close>

definition restricted :: "nat identity" where
  "restricted = alice\<lparr>id_Name := ''alice''\<rparr>"

lemma untrusted_reads_with_bad_password:
  "admit (IdentityFromInputs ok crypt [restricted]) quiet_env (route_command (reads ''/v1/logs'' UserChecker) h)
     (conn_request (socket_of 1000) ''GET'' ''/v1/logs'' None) = Refused denied"
  "admit (IdentityFromInputs ok crypt [restricted]) quiet_env (route_command (reads ''/v1/logs'' UserChecker) h)
     (conn_request (socket_of 1000) ''GET'' ''/v1/logs'' (Some (''nobody'', ''''))) =
   Admitted (h ''GET'') (Some \<lparr>us_Access = ReadAccess, us_UID = Some 1000, us_Username = []\<rparr>)"
  using conn_user [OF socket_plain [of 1000], of "''GET''" "''/v1/logs''"]
  by (simp_all add: admit_def select_handler_def route_command_def reads_def quiet_env_def request_user_def userFromRequest_def
      request_credentials_def conn_request_def conn_transport_def socket_of_def conn_ucred_def IdentityFromInputs_def restricted_def
      alice_def request_certificate_def UserAccess_CheckAccess_def IsValid_def IsConcealed_def access_defs default_user_def)

text \<open>Anyone on plain HTTP may start a build, and may connect to the websockets of a task.\<close>

lemma stranger: "ucrednetGet (conn_RemoteAddr (TCPConn ''203.0.113.9:4711'')) = None"
  by (simp add: conn_RemoteAddr_def ucrednetGet_address)

lemma open_to_strangers:
  "admit auth quiet_env (route_command ((posts ''/v1/build-test'' OpenChecker)\<lparr>rt_ReadAccess := Some OpenChecker\<rparr>) h)
     (conn_request (TCPConn ''203.0.113.9:4711'') ''POST'' ''/v1/build-test'' None) = Admitted (h ''POST'') None"
  "admit auth quiet_env (route_command (reads ''/v1/tasks/{task-id}/websocket/{websocket-id}'' OpenChecker) h)
     (conn_request (TCPConn ''203.0.113.9:4711'') ''GET'' ''/v1/tasks/1/websocket/stdio'' None) = Admitted (h ''GET'') None"
  by (simp_all add: stranger admit_def select_handler_def route_command_def posts_def reads_def quiet_env_def request_user_def
      conn_request_def conn_transport_def conn_ucred_def IsValid_def default_user_def plain_connection_def)

end
