(* ===== verification/ApiIdentities.thy ===== *)
theory ApiIdentities
  imports Access
begin

text \<open>
  The requests for identities and pairing (\<open>internals/daemon/api_identities.go\<close>, \<open>api_pairing.go\<close>), after the decoding of
  their JSON.  PEM decoding and the parsing of certificates are arguments; a payload is ranged over in one order.
\<close>

record api_identity =
  ai_Access :: string
  ai_Local :: "32 word option option"
  ai_Basic :: "string option"
  ai_Cert :: "string option"

definition stars :: string where "stars = ''*****''"

definition identityToAPI :: "'c identity \<Rightarrow> api_identity" where
  "identityToAPI d =
     \<lparr>ai_Access = id_Access d, ai_Local = map_option Some (id_Local d),
      ai_Basic = map_option (\<lambda>_. stars) (id_Basic d), ai_Cert = map_option (\<lambda>_. stars) (id_Cert d)\<rparr>"

record ('b, 'c) pem_env =
  pem_Decode :: "string \<Rightarrow> 'b option \<times> string"
  ParseCertificate :: "'b \<Rightarrow> string + 'c"

definition local_from_API :: "api_identity \<Rightarrow> err + 32 word option" where
  "local_from_API ai =
     (case ai_Local ai of
        None \<Rightarrow> Inr None
      | Some None \<Rightarrow> Inl (''local identity must specify user-id'', [])
      | Some (Some uid) \<Rightarrow> Inr (Some uid))"

definition cert_from_API :: "('b, 'c) pem_env \<Rightarrow> api_identity \<Rightarrow> err + 'c option option" where
  "cert_from_API env ai =
     (case ai_Cert ai of
        None \<Rightarrow> Inr None
      | Some pem \<Rightarrow>
          (case pem_Decode env pem of
             (None, _) \<Rightarrow> Inl (''cert identity must include a PEM-encoded certificate'', [])
           | (Some block, r) \<Rightarrow>
               if r \<noteq> [] then Inl (''cert identity cannot have extra data after the PEM block'', [])
               else case ParseCertificate env block of
                 Inl e \<Rightarrow> Inl (''cannot parse certificate from cert identity: %w'', [e])
               | Inr c \<Rightarrow> Inr (Some (Some c))))"

definition identityFromAPI :: "('b, 'c) pem_env \<Rightarrow> api_identity option \<Rightarrow> string \<Rightarrow> err + 'c identity option" where
  "identityFromAPI env x name =
     (case x of
        None \<Rightarrow> Inr None
      | Some ai \<Rightarrow>
          and_then (local_from_API ai) (\<lambda>uid.
          and_then (cert_from_API env ai) (\<lambda>cert.
          let d = \<lparr>id_Name = [], id_Access = ai_Access ai, id_Local = uid, id_Basic = ai_Basic ai, id_Cert = cert\<rparr>
          in and_then (identity_Validate (Some d) name) (\<lambda>_. Inr (Some d)))))"

definition v1GetIdentities :: "'c id_manager \<Rightarrow> (string, api_identity) fmap resp" where
  "v1GetIdentities m = SyncResponse (fmmap identityToAPI (im_identities m))"

fun identities_from_API :: "('b, 'c) pem_env \<Rightarrow> (string \<times> api_identity option) list \<Rightarrow> err + (string \<times> 'c identity option) list" where
  "identities_from_API env [] = Inr []"
| "identities_from_API env ((name, ai) # payload) =
     (case identityFromAPI env ai name of
        Inl e \<Rightarrow> Inl (''invalid identity for %q: %v'', name # fst e # snd e)
      | Inr d \<Rightarrow> and_then (identities_from_API env payload) (\<lambda>ds. Inr ((name, d) # ds)))"

text \<open>The first entry that is nil where it must not be, or is not where it must.\<close>

definition null_entry :: "(string \<times> 'd option) list \<Rightarrow> string option" where
  "null_entry idents = map_option fst (find (\<lambda>(n, d). d = None) idents)"

definition given_entry :: "(string \<times> 'd option) list \<Rightarrow> string option" where
  "given_entry idents = map_option fst (find (\<lambda>(n, d). d \<noteq> None) idents)"

definition apply_action ::
  "(32 word list \<Rightarrow> 32 word) \<Rightarrow> string \<Rightarrow> (string \<times> 'c identity option) list \<Rightarrow> 'c id_manager \<Rightarrow> (err + unit) \<times> 'c id_manager" where
  "apply_action pick action idents m =
     (if action = ''add'' then
        (case null_entry idents of
           Some n \<Rightarrow> (Inl (''identity value for %q must not be null for add operation'', [n]), m)
         | None \<Rightarrow> AddIdentities pick idents m)
      else if action = ''update'' then
        (case null_entry idents of
           Some n \<Rightarrow> (Inl (''identity value for %q must not be null for update operation'', [n]), m)
         | None \<Rightarrow> UpdateIdentities pick idents m)
      else if action = ''replace'' then ReplaceIdentities pick idents m
      else if action = ''remove'' then
        (case given_entry idents of
           Some n \<Rightarrow> (Inl (''identity value for %q must be null for remove operation'', [n]), m)
         | None \<Rightarrow> RemoveIdentities (map fst idents) m)
      else (Inl (''invalid action %q, must be %q, %q, %q, or %q'', [action, ''add'', ''update'', ''replace'', ''remove'']), m))"

definition v1PostIdentities ::
  "('b, 'c) pem_env \<Rightarrow> (32 word list \<Rightarrow> 32 word) \<Rightarrow> string \<Rightarrow> (string \<times> api_identity option) list \<Rightarrow> 'c id_manager \<Rightarrow>
   unit resp \<times> 'c id_manager" where
  "v1PostIdentities env pick action payload m =
     (case identities_from_API env payload of
        Inl e \<Rightarrow> (BadRequest e, m)
      | Inr idents \<Rightarrow>
          (case apply_action pick action idents m of
             (Inl e, m') \<Rightarrow> (BadRequest e, m')
           | (Inr _, m') \<Rightarrow> (SyncResponse (), m')))"

definition v1PostPairing ::
  "('c \<Rightarrow> string option) \<Rightarrow> (32 word list \<Rightarrow> 32 word) \<Rightarrow> string \<Rightarrow> 'c request \<Rightarrow> 'c pairing \<Rightarrow> unit resp \<times> 'c pairing" where
  "v1PostPairing verify pick action r m =
     (if action = ''pair'' then
        (case rq_PeerCertificates r of
           None \<Rightarrow> (ServerError (''cannot find TLS connection state'', []), m)
         | Some cs \<Rightarrow>
             if length cs \<noteq> 1
             then (BadRequest (''cannot support client: single certificate expected, got %d'', [itoa (length cs)]), m)
             else case PairMTLS verify pick (hd cs) m of
               (Inl e, m') \<Rightarrow> (BadRequest (''cannot pair client: %v'', fst e # snd e), m')
             | (Inr _, m') \<Rightarrow> (SyncResponse (), m'))
      else (BadRequest (''invalid action %q, must be %q'', [action, ''pair'']), m))"

subsection \<open>Properties\<close>

text \<open>Identities with other passwords and certificates.\<close>

definition with_secrets :: "(string \<Rightarrow> string) \<Rightarrow> ('c option \<Rightarrow> 'c option) \<Rightarrow> 'c id_manager \<Rightarrow> 'c id_manager" where
  "with_secrets f g m = m\<lparr>im_identities := fmmap (\<lambda>d. d\<lparr>id_Basic := map_option f (id_Basic d), id_Cert := map_option g (id_Cert d)\<rparr>)
     (im_identities m)\<rparr>"

text \<open>
  What is shown of the identities does not depend on any password or certificate: it would be the same if every one
  of them were another.
\<close>

lemma identities_keep_secrets: "v1GetIdentities (with_secrets f g m) = v1GetIdentities m"
proof -
  have "identityToAPI (d\<lparr>id_Basic := map_option f (id_Basic d), id_Cert := map_option g (id_Cert d)\<rparr>) = identityToAPI d"
    for d :: "'a identity"
    by (simp add: option.map_comp comp_def identityToAPI_def)
  then have "fmmap identityToAPI (fmmap (\<lambda>d. d\<lparr>id_Basic := map_option f (id_Basic d), id_Cert := map_option g (id_Cert d)\<rparr>) ids) =
      fmmap identityToAPI ids" for ids :: "(string, 'a identity) fmap"
    by (intro fmap_ext) (simp add: option.map_comp comp_def)
  then show ?thesis by (simp add: v1GetIdentities_def with_secrets_def)
qed

lemma identities_from_API_names: "identities_from_API env payload = Inr ds \<Longrightarrow> map fst ds = map fst payload"
  by (induction env payload arbitrary: ds rule: identities_from_API.induct) (auto simp: and_then_Inr_iff split: sum.splits)

lemma apply_action_step:
  assumes "distinct (map fst idents)"
  shows "id_step m (snd (apply_action pick action idents m)) \<or> snd (apply_action pick action idents m) = m"
  using id_step.added [OF assms, of m pick] id_step.updated [OF assms, of m pick] id_step.replaced [OF assms, of m pick]
    id_step.removed [of m "map fst idents"]
  by (simp add: apply_action_def split: option.split)

lemma apply_action_error:
  "fst (apply_action pick action idents m) = Inl e \<Longrightarrow> snd (apply_action pick action idents m) = m"
  by (auto simp: apply_action_def dest: failed_unchanged split: if_splits option.splits)

text \<open>
  Every request on identities is answered with success or as a bad request.  A bad request changes nothing, and whatever
  comes of a request, the identities stay in a state that the manager can reach, with all its invariants.
\<close>

lemma identities_request_safe:
  assumes "id_step\<^sup>*\<^sup>* (NewManager None) m" "distinct (map fst payload)"
    "v1PostIdentities env pick action payload m = (rsp, m')"
  shows "id_step\<^sup>*\<^sup>* (NewManager None) m' \<and> (rs_Status rsp = 200 \<or> rs_Status rsp = 400 \<and> m' = m) \<and>
    (\<forall>n d. fmlookup (im_identities m') n = Some d \<longrightarrow> identity_Validate (Some d) n = Inr ())"
proof -
  have "id_step m m' \<or> m' = m"
  proof (cases "identities_from_API env payload")
    case (Inr ds)
    with assms(2) have "distinct (map fst ds)" by (simp add: identities_from_API_names)
    from apply_action_step [OF this, of m pick action] Inr assms(3) show ?thesis
      by (auto simp: v1PostIdentities_def split: sum.splits prod.splits)
  qed (use assms(3) in \<open>simp add: v1PostIdentities_def\<close>)
  with assms(1) have reach: "id_step\<^sup>*\<^sup>* (NewManager None) m'" by auto
  moreover have "rs_Status rsp = 200 \<or> rs_Status rsp = 400 \<and> m' = m"
  proof (cases "identities_from_API env payload")
    case (Inr ds)
    with assms(3) apply_action_error [of pick action ds m] show ?thesis
      by (auto simp: v1PostIdentities_def BadRequest_def ErrorResponse_def SyncResponse_def split: sum.splits prod.splits)
  qed (use assms(3) in \<open>auto simp: v1PostIdentities_def BadRequest_def ErrorResponse_def\<close>)
  ultimately show ?thesis using id_reachable_wf [OF reach] by (auto simp: id_manager_wf_def ids_wf_def)
qed

definition no_pem :: "(unit, nat) pem_env" where
  "no_pem = \<lparr>pem_Decode = (\<lambda>s. (None, s)), ParseCertificate = (\<lambda>b. Inl ''none'')\<rparr>"

end
