(* ===== verification/LogWindow.thy ===== *)
theory LogWindow
  imports RingBuffer
begin

text \<open>
  The buffer of the clients that forward logs (\<open>internals/overlord/logstate\<close>: \<open>loki.go\<close>, \<open>opentelemetry.go\<close> and \<open>syslog.go\<close>
  have the same one): an array of twice the number of entries, and a slice of it that slides to the right and is
  copied to the start when it reaches the end.  It is the queue of the newest entries.
\<close>

record 'e window =
  wd_buffer :: "'e option list"
  wd_start :: nat
  wd_len :: nat

definition window_new :: "nat \<Rightarrow> 'e window" where
  "window_new n = \<lparr>wd_buffer = replicate (2 * n) None, wd_start = 0, wd_len = 0\<rparr>"

definition window_cap :: "'e window \<Rightarrow> nat" where
  "window_cap w = length (wd_buffer w) - wd_start w"

text \<open>\<open>c.entries[0] = zero; c.entries = c.entries[1:]\<close>.\<close>

definition window_drop_first :: "'e window \<Rightarrow> 'e window" where
  "window_drop_first w = w\<lparr>wd_buffer := (wd_buffer w)[wd_start w := None], wd_start := wd_start w + 1, wd_len := wd_len w - 1\<rparr>"

text \<open>The copy to the start, with zeros after it.\<close>

definition window_rewind :: "'e window \<Rightarrow> 'e window" where
  "window_rewind w =
     w\<lparr>wd_buffer := take (wd_len w) (drop (wd_start w) (wd_buffer w)) @ replicate (length (wd_buffer w) - wd_len w) None,
       wd_start := 0\<rparr>"

definition window_append :: "'e \<Rightarrow> 'e window \<Rightarrow> 'e window" where
  "window_append e w = w\<lparr>wd_buffer := (wd_buffer w)[wd_start w + wd_len w := Some e], wd_len := wd_len w + 1\<rparr>"

definition window_add :: "nat \<Rightarrow> 'e \<Rightarrow> 'e window \<Rightarrow> 'e window" where
  "window_add n e w =
     (let w = (if n \<le> wd_len w then window_drop_first w else w);
          w = (if window_cap w \<le> wd_len w then window_rewind w else w)
      in window_append e w)"

definition zero_range :: "nat \<Rightarrow> nat \<Rightarrow> 'e option list \<Rightarrow> 'e option list" where
  "zero_range s n b = take s b @ replicate (min n (length b - s)) None @ drop (s + n) b"

definition window_reset :: "'e window \<Rightarrow> 'e window" where
  "window_reset w = w\<lparr>wd_buffer := zero_range (wd_start w) (wd_len w) (wd_buffer w), wd_start := 0, wd_len := 0\<rparr>"

definition window_reset_to :: "nat \<Rightarrow> 'e window \<Rightarrow> 'e window" where
  "window_reset_to k w =
     w\<lparr>wd_buffer := zero_range (wd_start w) k (wd_buffer w), wd_start := wd_start w + k, wd_len := wd_len w - k\<rparr>"

definition window_slots :: "'e window \<Rightarrow> 'e option list" where
  "window_slots w = take (wd_len w) (drop (wd_start w) (wd_buffer w))"

definition window_list :: "'e window \<Rightarrow> 'e list" where
  "window_list w = map the (window_slots w)"

text \<open>The slice is inside of the array and not longer than it may be, and exactly its slots hold entries.\<close>

definition window_wf :: "nat \<Rightarrow> 'e window \<Rightarrow> bool" where
  "window_wf n w \<longleftrightarrow> 0 < n \<and> length (wd_buffer w) = 2 * n \<and> wd_start w + wd_len w \<le> 2 * n \<and> wd_len w \<le> n \<and>
     (\<forall>i < 2 * n. wd_buffer w ! i \<noteq> None \<longleftrightarrow> wd_start w \<le> i \<and> i < wd_start w + wd_len w)"

lemma window_wf_new: "0 < n \<Longrightarrow> window_wf n (window_new n)"
  by (simp add: window_wf_def window_new_def)

lemma window_list_new [simp]: "window_list (window_new n) = []"
  by (simp add: window_list_def window_slots_def window_new_def)

lemma length_window_list: "window_wf n w \<Longrightarrow> length (window_list w) = wd_len w"
  by (auto simp: window_list_def window_slots_def window_wf_def)

lemma window_list_nth: "window_wf n w \<Longrightarrow> i < wd_len w \<Longrightarrow> window_list w ! i = the (wd_buffer w ! (wd_start w + i))"
  using length_window_list [of n w] by (auto simp: window_list_def window_slots_def window_wf_def)

lemma window_drop_first_ok:
  assumes "window_wf n w" "0 < wd_len w"
  shows "window_wf n (window_drop_first w)" "window_list (window_drop_first w) = tl (window_list w)"
proof -
  show wf: "window_wf n (window_drop_first w)"
    using assms by (auto simp: window_wf_def window_drop_first_def nth_list_update)
  show "window_list (window_drop_first w) = tl (window_list w)"
    using assms window_list_nth [OF wf] length_window_list [OF wf] length_window_list [OF assms(1)] window_list_nth [OF assms(1)]
    by (intro nth_equalityI) (auto simp: nth_tl window_drop_first_def)
qed

lemma window_rewind_ok:
  assumes "window_wf n w"
  shows "window_wf n (window_rewind w)" "window_list (window_rewind w) = window_list w"
  using assms by (auto simp: window_wf_def window_rewind_def window_list_def window_slots_def nth_append)

lemma window_append_ok:
  assumes "window_wf n w" "wd_len w < n" "wd_start w + wd_len w < 2 * n"
  shows "window_wf n (window_append e w)" "window_list (window_append e w) = window_list w @ [e]"
proof -
  show wf: "window_wf n (window_append e w)"
    using assms by (auto simp: window_wf_def window_append_def nth_list_update)
  show "window_list (window_append e w) = window_list w @ [e]"
    using assms window_list_nth [OF wf] length_window_list [OF wf] length_window_list [OF assms(1)] window_list_nth [OF assms(1)]
    by (intro nth_equalityI) (auto simp: nth_append window_append_def window_wf_def nth_list_update)
qed

text \<open>Adding to the buffer is adding to a queue that keeps the newest entries.\<close>

lemma window_add_ok:
  assumes "window_wf n w"
  shows "window_wf n (window_add n e w)" "window_list (window_add n e w) = keep n (window_list w @ [e])"
proof -
  define w1 where "w1 = (if n \<le> wd_len w then window_drop_first w else w)"
  define w2 where "w2 = (if window_cap w1 \<le> wd_len w1 then window_rewind w1 else w1)"
  have n: "0 < n" "wd_len w \<le> n" using assms by (auto simp: window_wf_def)
  have w1: "window_wf n w1" "wd_len w1 < n" "window_list w1 @ [e] = keep n (window_list w @ [e])"
    using assms n window_drop_first_ok [OF assms] length_window_list [OF assms]
    by (auto simp: w1_def keep_def window_drop_first_def drop_Suc)
  have w2: "window_wf n w2" "wd_len w2 < n" "window_list w2 = window_list w1" "wd_start w2 + wd_len w2 < 2 * n"
    using w1 window_rewind_ok [OF w1(1)] by (auto simp: w2_def window_rewind_def window_cap_def window_wf_def)
  have "window_add n e w = window_append e w2" by (simp add: window_add_def Let_def w1_def w2_def)
  with window_append_ok [OF w2(1,2,4), of e] w2 w1
  show "window_wf n (window_add n e w)" "window_list (window_add n e w) = keep n (window_list w @ [e])" by simp_all
qed

lemma length_zero_range [simp]: "s + n \<le> length b \<Longrightarrow> length (zero_range s n b) = length b"
  by (simp add: zero_range_def)

lemma nth_zero_range:
  "s + n \<le> length b \<Longrightarrow> i < length b \<Longrightarrow> zero_range s n b ! i = (if s \<le> i \<and> i < s + n then None else b ! i)"
  by (auto simp: zero_range_def nth_append min_def)

lemma window_reset_to_ok:
  assumes "window_wf n w" "k \<le> wd_len w"
  shows "window_wf n (window_reset_to k w)" "window_list (window_reset_to k w) = drop k (window_list w)"
proof -
  show wf: "window_wf n (window_reset_to k w)"
    using assms by (auto simp: window_wf_def window_reset_to_def nth_zero_range)
  show "window_list (window_reset_to k w) = drop k (window_list w)"
    using assms window_list_nth [OF wf] length_window_list [OF wf] length_window_list [OF assms(1)] window_list_nth [OF assms(1)]
    by (intro nth_equalityI) (auto simp: window_reset_to_def nth_zero_range window_wf_def add.assoc)
qed

lemma window_reset_ok:
  assumes "window_wf n w"
  shows "window_wf n (window_reset w)" "window_list (window_reset w) = []"
  using assms by (auto simp: window_wf_def window_reset_def nth_zero_range window_list_def window_slots_def)

end
