(* ===== verification/LogClients.thy ===== *)
theory LogClients
  imports LogWindow LogParse Strings "HOL-Library.Finite_Map" "HOL-Library.List_Lexorder" "HOL-Library.Char_ord"
begin

text \<open>
  The clients that send logs to a target (\<open>internals/overlord/logstate\<close>: \<open>loki\<close>, \<open>opentelemetry\<close> and \<open>syslog\<close>).  The answer of
  the network is an argument of each flush; requests are kept as the values that the code turns into JSON.
\<close>

subsection \<open>Times and messages\<close>

text \<open>\<open>Time.UnixNano\<close> and \<open>Time.Format (time.RFC3339Nano)\<close> of the times of entries, with their offset in seconds.\<close>

definition days_before_year :: "nat \<Rightarrow> int" where
  "days_before_year y = (let p = int y - 1 in 365 * p + p div 4 - p div 100 + p div 400)"

definition days_before_month :: "nat \<Rightarrow> nat \<Rightarrow> nat" where
  "days_before_month m y = sum_list (map (\<lambda>k. days_in k y) [1..<m])"

definition UnixNano :: "utc_time \<times> int \<Rightarrow> int" where
  "UnixNano t =
     (case t of (u, off) \<Rightarrow>
        let days = days_before_year (utc_year u) + int (days_before_month (utc_month u) (utc_year u) + utc_day u) - 1 - 719162
        in (86400 * days + seconds_of_day u - off) * 1000000000 + int (utc_nano u))"

lemma UnixNano_samples:
  "UnixNano (\<lparr>utc_year = 1970, utc_month = 1, utc_day = 1, utc_hour = 0, utc_minute = 0, utc_second = 0, utc_nano = 5\<rparr>, 0) = 5"
  "UnixNano (\<lparr>utc_year = 2001, utc_month = 9, utc_day = 9, utc_hour = 1, utc_minute = 46, utc_second = 40, utc_nano = 0\<rparr>, 0) =
    1000000000 * 1000000000"
  by code_simp+

definition entry_time :: "log_entry \<Rightarrow> utc_time \<times> int" where
  "entry_time e =
     (case e_time e of
        Some t \<Rightarrow> t
      | None \<Rightarrow> (\<lparr>utc_year = 1, utc_month = 1, utc_day = 1, utc_hour = 0, utc_minute = 0, utc_second = 0, utc_nano = 0\<rparr>, 0))"

definition newline_char :: char where "newline_char = CHR 0x0A"

text \<open>\<open>strings.TrimSuffix (s, "\n")\<close>.\<close>

definition trim_newline :: "string \<Rightarrow> string" where
  "trim_newline s = (if s \<noteq> [] \<and> last s = newline_char then butlast s else s)"

text \<open>Entries by service: the services in order, each with its entries.\<close>

definition by_service :: "('e \<times> string) list \<Rightarrow> (string \<times> 'e list) list" where
  "by_service es = map (\<lambda>s. (s, map fst (filter (\<lambda>(e, s'). s' = s) es))) (sort (remdups (map snd es)))"

subsection \<open>Answers of HTTP servers\<close>

datatype http_outcome = RequestFailed | Status int

definition status_ok :: "int \<Rightarrow> bool" where
  "status_ok code \<longleftrightarrow> code = 200 \<or> code = 204"

text \<open>Whether the logs are dropped: after success, and after an error that trying again would not help.\<close>

definition response_drops :: "int \<Rightarrow> bool" where
  "response_drops code \<longleftrightarrow> status_ok code \<or> code \<noteq> 429 \<and> 400 \<le> code \<and> code < 500"

definition response_error :: "int \<Rightarrow> message option" where
  "response_error code =
     (if status_ok code then None
      else if code = 429 \<or> 400 \<le> code \<and> code < 600 then Some (''server returned HTTP %v'', [int_string code])
      else Some (''unexpected response from server: %v'', [int_string code]))"

definition maxRequestEntries :: nat where "maxRequestEntries = 100"

definition default_max :: "nat \<Rightarrow> nat" where
  "default_max n = (if n = 0 then maxRequestEntries else n)"

subsection \<open>Loki\<close>

type_synonym loki_entry = "string \<times> string"
type_synonym labels = "(string, string) fmap"

record loki_client =
  lk_max :: nat
  lk_window :: "(loki_entry \<times> string) window"
  lk_labels :: "(string, labels) fmap"

definition loki_NewClient :: "nat \<Rightarrow> loki_client" where
  "loki_NewClient n = \<lparr>lk_max = default_max n, lk_window = window_new (default_max n), lk_labels = fmempty\<rparr>"

definition loki_SetLabels :: "string \<Rightarrow> labels option \<Rightarrow> loki_client \<Rightarrow> loki_client" where
  "loki_SetLabels svc labels c =
     (case labels of
        None \<Rightarrow> c\<lparr>lk_labels := fmdrop svc (lk_labels c)\<rparr>
      | Some l \<Rightarrow> c\<lparr>lk_labels := fmupd svc (fmupd ''pebble_service'' svc l) (lk_labels c)\<rparr>)"

definition loki_encodeEntry :: "log_entry \<Rightarrow> loki_entry" where
  "loki_encodeEntry e = (int_string (UnixNano (entry_time e)), trim_newline (e_message e))"

definition loki_Add :: "log_entry \<Rightarrow> loki_client \<Rightarrow> loki_client" where
  "loki_Add e c = c\<lparr>lk_window := window_add (lk_max c) (loki_encodeEntry e, e_service e) (lk_window c)\<rparr>"

definition loki_resetBuffer :: "loki_client \<Rightarrow> loki_client" where
  "loki_resetBuffer c = c\<lparr>lk_window := window_reset (lk_window c)\<rparr>"

text \<open>A stream: its labels, \<open>None\<close> for the JSON value null, and its entries.\<close>

type_synonym loki_stream = "labels option \<times> loki_entry list"

definition loki_buildRequest :: "loki_client \<Rightarrow> loki_stream list" where
  "loki_buildRequest c = map (\<lambda>(s, es). (fmlookup (lk_labels c) s, es)) (by_service (window_list (lk_window c)))"

definition loki_handleServerResponse :: "int \<Rightarrow> loki_client \<Rightarrow> message option \<times> loki_client" where
  "loki_handleServerResponse code c = (response_error code, if response_drops code then loki_resetBuffer c else c)"

definition loki_Flush :: "http_outcome \<Rightarrow> loki_client \<Rightarrow> loki_stream list option \<times> message option \<times> loki_client" where
  "loki_Flush out c =
     (if window_list (lk_window c) = [] then (None, None, c)
      else case out of
        RequestFailed \<Rightarrow> (Some (loki_buildRequest c), Some (''request failed'', []), c)
      | Status code \<Rightarrow> (Some (loki_buildRequest c), loki_handleServerResponse code c))"

subsection \<open>OpenTelemetry\<close>

record otel_client =
  ot_max :: nat
  ot_window :: "(loki_entry \<times> string) window"
  ot_attributes :: "(string, (string \<times> string) list) fmap"

definition otel_NewClient :: "nat \<Rightarrow> otel_client" where
  "otel_NewClient n = \<lparr>ot_max = default_max n, ot_window = window_new (default_max n), ot_attributes = fmempty\<rparr>"

definition otel_SetLabels :: "string \<Rightarrow> labels option \<Rightarrow> otel_client \<Rightarrow> otel_client" where
  "otel_SetLabels svc attributes c =
     (case attributes of
        None \<Rightarrow> c\<lparr>ot_attributes := fmdrop svc (ot_attributes c)\<rparr>
      | Some l \<Rightarrow> c\<lparr>ot_attributes := fmupd svc ((''service.name'', svc) # sorted_list_of_fmap l) (ot_attributes c)\<rparr>)"

text \<open>A log record: its time and its body.\<close>

definition otel_encodeEntry :: "log_entry \<Rightarrow> loki_entry" where
  "otel_encodeEntry e = (int_string (UnixNano (entry_time e)), trim_newline (e_message e))"

definition otel_Add :: "log_entry \<Rightarrow> otel_client \<Rightarrow> otel_client" where
  "otel_Add e c = c\<lparr>ot_window := window_add (ot_max c) (otel_encodeEntry e, e_service e) (ot_window c)\<rparr>"

definition otel_resetBuffer :: "otel_client \<Rightarrow> otel_client" where
  "otel_resetBuffer c = c\<lparr>ot_window := window_reset (ot_window c)\<rparr>"

type_synonym resource_logs = "(string \<times> string) list \<times> loki_entry list"

definition otel_payload :: "otel_client \<Rightarrow> resource_logs list" where
  "otel_payload c =
     map (\<lambda>(s, es). (case fmlookup (ot_attributes c) s of None \<Rightarrow> [] | Some kvs \<Rightarrow> kvs, es)) (by_service (window_list (ot_window c)))"

definition otel_handleServerResponse :: "int \<Rightarrow> otel_client \<Rightarrow> message option \<times> otel_client" where
  "otel_handleServerResponse code c = (response_error code, if response_drops code then otel_resetBuffer c else c)"

definition otel_sendBatch :: "http_outcome \<Rightarrow> otel_client \<Rightarrow> message option \<times> otel_client" where
  "otel_sendBatch out c =
     (case out of RequestFailed \<Rightarrow> (Some (''cannot send logs'', []), c) | Status code \<Rightarrow> otel_handleServerResponse code c)"

definition otel_Flush :: "http_outcome \<Rightarrow> otel_client \<Rightarrow> resource_logs list option \<times> message option \<times> otel_client" where
  "otel_Flush out c =
     (if window_list (ot_window c) = [] then (None, None, c) else (Some (otel_payload c), otel_sendBatch out c))"

subsection \<open>Syslog\<close>

text \<open>
  The number of bytes of the first character of a string: of the UTF-8 encoding it begins with, or one.
\<close>

definition byte :: "char \<Rightarrow> nat" where
  "byte c = of_char c"

definition continues :: "nat \<Rightarrow> nat \<Rightarrow> string \<Rightarrow> bool" where
  "continues lo hi s \<longleftrightarrow> (case s of [] \<Rightarrow> False | c # _ \<Rightarrow> lo \<le> byte c \<and> byte c \<le> hi)"

fun rune_width :: "string \<Rightarrow> nat" where
  "rune_width [] = 1"
| "rune_width (c # s) =
     (let b = byte c;
          lo = (if b = 0xE0 then 0xA0 else if b = 0xF0 then 0x90 else 0x80);
          hi = (if b = 0xED then 0x9F else if b = 0xF4 then 0x8F else 0xBF)
      in if 0xC2 \<le> b \<and> b \<le> 0xDF then (if continues lo hi s then 2 else 1)
         else if 0xE0 \<le> b \<and> b \<le> 0xEF then (if continues lo hi s \<and> continues 0x80 0xBF (drop 1 s) then 3 else 1)
         else if 0xF0 \<le> b \<and> b \<le> 0xF4
         then (if continues lo hi s \<and> continues 0x80 0xBF (drop 1 s) \<and> continues 0x80 0xBF (drop 2 s) then 4 else 1)
         else 1)"

definition needs_escape :: "char \<Rightarrow> bool" where
  "needs_escape c \<longleftrightarrow> byte c = 0x22 \<or> byte c = 0x5C \<or> byte c = 0x5D"

text \<open>The loop over the indices of a value; a range over a string gives the first index of each character only.\<close>

function escape_value :: "string \<Rightarrow> string" where
  "escape_value [] = []"
| "escape_value (c # s) =
     (if needs_escape c then [CHR 0x5C, c] else [c]) @ escape_value (drop (rune_width (c # s) - 1) s)"
  by pat_completeness auto
termination by (relation "measure length") simp_all

record syslog_options =
  so_max :: nat
  so_Hostname :: string
  so_SDID :: string
  so_udp :: bool

record syslog_client =
  sy_options :: syslog_options
  sy_window :: "log_entry window"
  sy_labels :: "(string, string) fmap"
  sy_connected :: bool
  sy_closed :: bool

definition syslog_NewClient :: "syslog_options \<Rightarrow> syslog_client" where
  "syslog_NewClient opts =
     (let opts = opts\<lparr>so_max := default_max (so_max opts)\<rparr> in
      \<lparr>sy_options = opts, sy_window = window_new (so_max opts), sy_labels = fmempty, sy_connected = False, sy_closed = False\<rparr>)"

definition canonicalPrivEnterpriseNum :: nat where "canonicalPrivEnterpriseNum = 28978"

definition structured_data :: "string \<Rightarrow> labels \<Rightarrow> string" where
  "structured_data sdid l =
     ''['' @ (if sdid = [] then ''pebble'' else sdid) @ ''@'' @ itoa canonicalPrivEnterpriseNum @
     concat (map (\<lambda>(key, v). '' '' @ key @ ''='' @ [CHR 0x22] @ escape_value v @ [CHR 0x22]) (sorted_list_of_fmap l)) @ '']''"

definition syslog_SetLabels :: "string \<Rightarrow> labels option \<Rightarrow> syslog_client \<Rightarrow> syslog_client" where
  "syslog_SetLabels svc labels c =
     (case labels of
        None \<Rightarrow> c\<lparr>sy_labels := fmdrop svc (sy_labels c)\<rparr>
      | Some l \<Rightarrow> c\<lparr>sy_labels := fmupd svc (structured_data (so_SDID (sy_options c)) l) (sy_labels c)\<rparr>)"

definition trimmed :: "log_entry \<Rightarrow> log_entry" where
  "trimmed e = e\<lparr>e_message := trim_newline (e_message e)\<rparr>"

definition syslog_Add :: "log_entry \<Rightarrow> syslog_client \<Rightarrow> syslog_client" where
  "syslog_Add e c = c\<lparr>sy_window := window_add (so_max (sy_options c)) (trimmed e) (sy_window c)\<rparr>"

text \<open>With whether the dialler connects.\<close>

definition ensureConnected :: "bool \<Rightarrow> syslog_client \<Rightarrow> message option \<times> syslog_client" where
  "ensureConnected dials c =
     (if sy_connected c then (None, c)
      else if sy_closed c then (Some (''write to closed SyslogBackend'', []), c)
      else if dials then (None, c\<lparr>sy_connected := True\<rparr>)
      else (Some (''cannot connect'', []), c))"

definition syslog_Close :: "syslog_client \<Rightarrow> syslog_client" where
  "syslog_Close c = c\<lparr>sy_closed := True, sy_connected := False\<rparr>"

text \<open>\<open>time.RFC3339Nano\<close>: the fraction without zeros at the end.\<close>

definition nine_digits :: "nat \<Rightarrow> string" where
  "nine_digits n = map (\<lambda>k. digit (n div 10 ^ (8 - k) mod 10)) [0..<9]"

definition fraction :: "nat \<Rightarrow> string" where
  "fraction n = (if n = 0 then [] else CHR ''.'' # rev (dropWhile (\<lambda>c. c = CHR ''0'') (rev (nine_digits n))))"

definition zone_text :: "int \<Rightarrow> string" where
  "zone_text off =
     (if off = 0 then ''Z''
      else (if off \<le> - 60 then CHR ''-'' else CHR ''+'') # two_digits (nat (\<bar>off\<bar> div 3600)) @ '':'' @ two_digits (nat (\<bar>off\<bar> div 60 mod 60)))"

definition format_RFC3339Nano :: "utc_time \<times> int \<Rightarrow> string" where
  "format_RFC3339Nano t =
     (case t of (u, off) \<Rightarrow>
        map (\<lambda>k. digit (utc_year u div 10 ^ (3 - k) mod 10)) [0..<4] @ ''-'' @ two_digits (utc_month u) @ ''-'' @ two_digits (utc_day u) @
        ''T'' @ two_digits (utc_hour u) @ '':'' @ two_digits (utc_minute u) @ '':'' @ two_digits (utc_second u) @
        fraction (utc_nano u) @ zone_text off)"

definition priorityAndVersionPrefix :: string where "priorityAndVersionPrefix = ''<13>1 ''"

definition host_text :: "syslog_client \<Rightarrow> string" where
  "host_text c = (if so_Hostname (sy_options c) = [] then ''-'' else so_Hostname (sy_options c))"

definition data_text :: "syslog_client \<Rightarrow> log_entry \<Rightarrow> string" where
  "data_text c e = (case fmlookup (sy_labels c) (e_service e) of None \<Rightarrow> ''-'' | Some d \<Rightarrow> d)"

definition encodeOneEntry :: "syslog_client \<Rightarrow> log_entry \<Rightarrow> string \<Rightarrow> string" where
  "encodeOneEntry c e messageSuffix =
     priorityAndVersionPrefix @ format_RFC3339Nano (entry_time e) @ '' '' @ host_text c @ '' '' @ e_service e @ '' - - '' @
     data_text c e @ '' '' @ e_message e @ messageSuffix"

definition frame_length :: "syslog_client \<Rightarrow> log_entry \<Rightarrow> nat" where
  "frame_length c e =
     length priorityAndVersionPrefix + length (format_RFC3339Nano (entry_time e)) + 1 + length (host_text c) + 1 +
     length (e_service e) + 5 + length (data_text c e) + 1 + length (e_message e)"

definition frame :: "syslog_client \<Rightarrow> log_entry \<Rightarrow> string" where
  "frame c e = itoa (frame_length c e) @ '' '' @ encodeOneEntry c e []"

definition buildSendBufferTCP :: "syslog_client \<Rightarrow> string" where
  "buildSendBufferTCP c = concat (map (frame c) (window_list (sy_window c)))"

definition syslog_resetBuffer :: "syslog_client \<Rightarrow> syslog_client" where
  "syslog_resetBuffer c = c\<lparr>sy_window := window_reset (sy_window c)\<rparr>"

definition syslog_resetBufferToIndex :: "nat \<Rightarrow> syslog_client \<Rightarrow> syslog_client" where
  "syslog_resetBufferToIndex k c = c\<lparr>sy_window := window_reset_to k (sy_window c)\<rparr>"

text \<open>The network during a flush: whether it can be connected to, and whether the write of each entry (or of all) succeeds.\<close>

record net_outcome =
  no_dials :: bool
  no_writes :: "nat \<Rightarrow> bool"

definition hang_up :: "syslog_client \<Rightarrow> syslog_client" where
  "hang_up c = c\<lparr>sy_connected := False\<rparr>"

text \<open>With what was written, in the order of the writes.\<close>

definition flushTCP :: "net_outcome \<Rightarrow> syslog_client \<Rightarrow> string list \<times> message option \<times> syslog_client" where
  "flushTCP net c =
     (case ensureConnected (no_dials net) c of
        (Some e, c') \<Rightarrow> ([], Some e, c')
      | (None, c') \<Rightarrow>
          if no_writes net 0 then ([buildSendBufferTCP c'], None, syslog_resetBuffer c')
          else ([], Some (''cannot send syslogs'', []), hang_up c'))"

definition maxUDPMessageSize :: nat where "maxUDPMessageSize = 4000"

definition datagram :: "syslog_client \<Rightarrow> log_entry \<Rightarrow> string" where
  "datagram c e =
     (if maxUDPMessageSize < length (e_message e)
      then encodeOneEntry c (e\<lparr>e_message := take (maxUDPMessageSize - 3) (e_message e)\<rparr>) ''...''
      else encodeOneEntry c e [])"

fun udp_loop :: "net_outcome \<Rightarrow> nat \<Rightarrow> log_entry list \<Rightarrow> syslog_client \<Rightarrow> string list \<times> message option \<times> syslog_client" where
  "udp_loop net i [] c = ([], None, syslog_resetBuffer c)"
| "udp_loop net i (e # es) c =
     (case ensureConnected (no_dials net) c of
        (Some err, c') \<Rightarrow> ([], Some err, c')
      | (None, c') \<Rightarrow>
          if no_writes net i then
            (let (out, err, c'') = udp_loop net (i + 1) es c' in (datagram c' e # out, err, c''))
          else ([], Some (''cannot send syslogs'', []), hang_up (syslog_resetBufferToIndex i c')))"

definition flushUDP :: "net_outcome \<Rightarrow> syslog_client \<Rightarrow> string list \<times> message option \<times> syslog_client" where
  "flushUDP net c = udp_loop net 0 (window_list (sy_window c)) c"

definition syslog_Flush :: "net_outcome \<Rightarrow> syslog_client \<Rightarrow> string list \<times> message option \<times> syslog_client" where
  "syslog_Flush net c =
     (if window_list (sy_window c) = [] then ([], None, c)
      else if so_udp (sy_options c) then flushUDP net c else flushTCP net c)"

end
