(* ===== verification/LogForward.thy ===== *)
theory LogForward
  imports LogClients PlanValidate "HOL-Library.Sublist"
begin

text \<open>
  Log forwarding (\<open>internals/overlord/logstate\<close>): the loop of a gatherer over the client of its target, which services a
  gatherer pulls logs from, and the manager that keeps the gatherers in step with the plan and the started services.
\<close>

subsection \<open>Clients\<close>

text \<open>
  The interface \<open>logClient\<close>.  A flush has the answer of the network as an argument and gives what was delivered by it and
  whether it succeeded.
\<close>

record ('c, 'e, 'o) client_ops =
  op_Add :: "log_entry \<Rightarrow> 'c \<Rightarrow> 'c"
  op_Flush :: "'o \<Rightarrow> 'c \<Rightarrow> 'e list \<times> bool \<times> 'c"
  op_SetLabels :: "string \<Rightarrow> labels option \<Rightarrow> 'c \<Rightarrow> 'c"

definition loki_deliver :: "http_outcome \<Rightarrow> loki_client \<Rightarrow> (loki_entry \<times> string) list \<times> bool \<times> loki_client" where
  "loki_deliver out c =
     (case loki_Flush out c of (req, err, c') \<Rightarrow> (if err = None then window_list (lk_window c) else [], err = None, c'))"

definition otel_deliver :: "http_outcome \<Rightarrow> otel_client \<Rightarrow> (loki_entry \<times> string) list \<times> bool \<times> otel_client" where
  "otel_deliver out c =
     (case otel_Flush out c of (req, err, c') \<Rightarrow> (if err = None then window_list (ot_window c) else [], err = None, c'))"

text \<open>A write of syslog is one entry, or all of them on TCP.\<close>

definition syslog_deliver :: "net_outcome \<Rightarrow> syslog_client \<Rightarrow> log_entry list \<times> bool \<times> syslog_client" where
  "syslog_deliver net c =
     (case syslog_Flush net c of (writes, err, c') \<Rightarrow>
        (if err = None then window_list (sy_window c)
         else if so_udp (sy_options c) then take (length writes) (window_list (sy_window c)) else [], err = None, c'))"

definition loki_ops :: "(loki_client, loki_entry \<times> string, http_outcome) client_ops" where
  "loki_ops = \<lparr>op_Add = loki_Add, op_Flush = loki_deliver, op_SetLabels = loki_SetLabels\<rparr>"

definition otel_ops :: "(otel_client, loki_entry \<times> string, http_outcome) client_ops" where
  "otel_ops = \<lparr>op_Add = otel_Add, op_Flush = otel_deliver, op_SetLabels = otel_SetLabels\<rparr>"

definition syslog_ops :: "(syslog_client, log_entry, net_outcome) client_ops" where
  "syslog_ops = \<lparr>op_Add = syslog_Add, op_Flush = syslog_deliver, op_SetLabels = syslog_SetLabels\<rparr>"

subsection \<open>The loop of a gatherer\<close>

definition maxBufferedEntries :: nat where "maxBufferedEntries = 100"

record 'c gather_state =
  gt_client :: 'c
  gt_written :: nat
  gt_timer :: bool

text \<open>What the loop waits for, with the answer of the network should it flush.\<close>

datatype 'o gather_event =
    TimerExpired 'o
  | LabelsSet string "labels option" 'o
  | EntryArrived log_entry 'o

definition flushClient :: "('c, 'e, 'o) client_ops \<Rightarrow> 'o \<Rightarrow> 'c gather_state \<Rightarrow> 'e list \<times> bool \<times> 'c gather_state" where
  "flushClient ops net g =
     (case op_Flush ops net (gt_client g) of (out, ok, c) \<Rightarrow>
        (out, ok, g\<lparr>gt_client := c, gt_timer := False, gt_written := 0\<rparr>))"

fun gather_step :: "nat \<Rightarrow> ('c, 'e, 'o) client_ops \<Rightarrow> 'o gather_event \<Rightarrow> 'c gather_state \<Rightarrow> 'e list \<times> bool \<times> 'c gather_state" where
  "gather_step n ops (TimerExpired net) g = flushClient ops net g"
| "gather_step n ops (LabelsSet svc l net) g =
     (case flushClient ops net g of (out, ok, g) \<Rightarrow> (out, ok, g\<lparr>gt_client := op_SetLabels ops svc l (gt_client g)\<rparr>))"
| "gather_step n ops (EntryArrived e net) g =
     (let g = g\<lparr>gt_client := op_Add ops e (gt_client g), gt_written := gt_written g + 1\<rparr> in
      if n \<le> gt_written g then flushClient ops net g else ([], True, g\<lparr>gt_timer := True\<rparr>))"

fun gather_run :: "nat \<Rightarrow> ('c, 'e, 'o) client_ops \<Rightarrow> 'o gather_event list \<Rightarrow> 'c gather_state \<Rightarrow> 'e list \<times> bool \<times> 'c gather_state" where
  "gather_run n ops [] g = ([], True, g)"
| "gather_run n ops (ev # evs) g =
     (case gather_step n ops ev g of (out, ok, g) \<Rightarrow>
      case gather_run n ops evs g of (out', ok', g) \<Rightarrow> (out @ out', ok \<and> ok', g))"

text \<open>The loop until it is told to stop, with its last flush.\<close>

definition gather_loop :: "nat \<Rightarrow> ('c, 'e, 'o) client_ops \<Rightarrow> 'o gather_event list \<Rightarrow> 'o \<Rightarrow> 'c \<Rightarrow> 'e list \<times> bool \<times> 'c gather_state" where
  "gather_loop n ops evs net c =
     (case gather_run n ops evs \<lparr>gt_client = c, gt_written = 0, gt_timer = False\<rparr> of (out, ok, g) \<Rightarrow>
      case flushClient ops net g of (out', ok', g) \<Rightarrow> (out @ out', ok \<and> ok', g))"

fun arrived :: "'o gather_event list \<Rightarrow> log_entry list" where
  "arrived [] = []"
| "arrived (EntryArrived e net # evs) = e # arrived evs"
| "arrived (_ # evs) = arrived evs"

subsection \<open>What a client promises\<close>

locale log_client =
  fixes ops :: "('c, 'e, 'o) client_ops"
    and contents :: "'c \<Rightarrow> 'e list"
    and room :: "'c \<Rightarrow> nat"
    and enc :: "log_entry \<Rightarrow> 'e"
    and sound :: "'c \<Rightarrow> bool"
  assumes adds: "sound c \<Longrightarrow> sound (op_Add ops e c) \<and> room (op_Add ops e c) = room c \<and>
      contents (op_Add ops e c) = keep (room c) (contents c @ [enc e])"
    and relabels: "sound c \<Longrightarrow> sound (op_SetLabels ops svc l c) \<and> room (op_SetLabels ops svc l c) = room c \<and>
      contents (op_SetLabels ops svc l c) = contents c"
    and flushes: "sound c \<Longrightarrow> op_Flush ops net c = (out, ok, c') \<Longrightarrow>
      sound c' \<and> room c' = room c \<and> (\<exists>lost. contents c = out @ lost @ contents c') \<and> (ok \<longrightarrow> out = contents c \<and> contents c' = [])"
begin

definition held :: "'c gather_state \<Rightarrow> 'e list" where
  "held g = contents (gt_client g)"

lemma subseq_keep: "subseq (keep n xs) xs"
  unfolding keep_def by (rule suffix_imp_subseq) (rule suffix_drop)

lemma flushed:
  assumes "sound (gt_client g)" "flushClient ops net g = (out, ok, g')"
  shows "sound (gt_client g') \<and> room (gt_client g') = room (gt_client g) \<and> subseq (out @ held g') (held g) \<and>
    gt_written g' = 0 \<and> (ok \<longrightarrow> out = held g \<and> held g' = [])"
proof -
  obtain c' where f: "op_Flush ops net (gt_client g) = (out, ok, c')" "g' = g\<lparr>gt_client := c', gt_timer := False, gt_written := 0\<rparr>"
    using assms(2) by (auto simp: flushClient_def split: prod.splits)
  from flushes [OF assms(1) f(1)] obtain lost where
    l: "sound c'" "room c' = room (gt_client g)" "held g = out @ lost @ contents c'" "ok \<longrightarrow> out = held g \<and> contents c' = []"
    unfolding held_def by blast
  have "subseq (out @ contents c') (out @ lost @ contents c')"
    unfolding subseq_append' by (rule list_emb_append2) simp
  moreover have "held g' = contents c'" "gt_client g' = c'" "gt_written g' = 0" using f(2) by (simp_all add: held_def)
  ultimately show ?thesis unfolding l(3) [symmetric] using l by metis
qed

lemma stepped:
  assumes "sound (gt_client g)" "gather_step n ops ev g = (out, ok, g')"
  shows "sound (gt_client g') \<and> room (gt_client g') = room (gt_client g) \<and>
    subseq (out @ held g') (held g @ map enc (arrived [ev]))"
proof (cases ev)
  case (TimerExpired net)
  with flushed [OF assms(1)] assms(2) show ?thesis by simp
next
  case (LabelsSet svc l net)
  with assms(2) obtain g1 where "flushClient ops net g = (out, ok, g1)" "g' = g1\<lparr>gt_client := op_SetLabels ops svc l (gt_client g1)\<rparr>"
    by (auto split: prod.splits)
  with flushed [OF assms(1)] relabels [of "gt_client g1" svc l] LabelsSet show ?thesis by (auto simp: held_def)
next
  case (EntryArrived e net)
  let ?g = "g\<lparr>gt_client := op_Add ops e (gt_client g), gt_written := gt_written g + 1\<rparr>"
  have a: "sound (gt_client ?g)" "room (gt_client ?g) = room (gt_client g)" "subseq (held ?g) (held g @ [enc e])"
    using adds [OF assms(1), of e] subseq_keep by (auto simp: held_def)
  show ?thesis
  proof (cases "n \<le> gt_written ?g")
    case True
    with assms(2) EntryArrived have "flushClient ops net ?g = (out, ok, g')" by (simp add: Let_def)
    from flushed [OF a(1) this] a EntryArrived show ?thesis by (auto intro: subseq_order.order_trans)
  next
    case False
    with assms(2) EntryArrived a show ?thesis by (auto simp: Let_def held_def)
  qed
qed

text \<open>As long as the flushes succeed nothing is lost, and what is held waits for the timer.\<close>

definition keeping :: "nat \<Rightarrow> 'c gather_state \<Rightarrow> bool" where
  "keeping n g \<longleftrightarrow> gt_written g = length (held g) \<and> gt_written g < n \<and> n \<le> room (gt_client g) \<and> (held g \<noteq> [] \<longrightarrow> gt_timer g)"

lemma stepped_ok:
  assumes "sound (gt_client g)" "gather_step n ops ev g = (out, True, g')" "keeping n g"
  shows "keeping n g' \<and> out @ held g' = held g @ map enc (arrived [ev])"
proof (cases ev)
  case (TimerExpired net)
  with flushed [OF assms(1)] assms(2,3) show ?thesis by (fastforce simp: keeping_def)
next
  case (LabelsSet svc l net)
  with assms(2) obtain g1 where g1: "flushClient ops net g = (out, True, g1)" "g' = g1\<lparr>gt_client := op_SetLabels ops svc l (gt_client g1)\<rparr>"
    by (auto split: prod.splits)
  with flushed [OF assms(1) g1(1)] relabels [of "gt_client g1" svc l] LabelsSet assms(3) show ?thesis
    by (auto simp: held_def keeping_def)
next
  case (EntryArrived e net)
  let ?g = "g\<lparr>gt_client := op_Add ops e (gt_client g), gt_written := gt_written g + 1\<rparr>"
  have a: "sound (gt_client ?g)" "room (gt_client ?g) = room (gt_client g)" "held ?g = held g @ [enc e]"
    using adds [OF assms(1), of e] assms(3) by (auto simp: held_def keeping_def)
  show ?thesis
  proof (cases "n \<le> gt_written ?g")
    case True
    with assms(2) EntryArrived have "flushClient ops net ?g = (out, True, g')" by (simp add: Let_def)
    from flushed [OF a(1) this] a EntryArrived assms(3) show ?thesis by (auto simp: keeping_def)
  next
    case False
    with assms(2) EntryArrived have "out = []" "g' = ?g\<lparr>gt_timer := True\<rparr>" by (simp_all add: Let_def)
    with False a EntryArrived assms(3) show ?thesis by (auto simp: keeping_def held_def)
  qed
qed

lemma arrived_Cons: "arrived (ev # evs) = arrived [ev] @ arrived evs"
  by (cases ev) auto

lemma ran:
  assumes "sound (gt_client g)" "gather_run n ops evs g = (out, ok, g')"
  shows "sound (gt_client g') \<and> subseq (out @ held g') (held g @ map enc (arrived evs)) \<and>
    (ok \<longrightarrow> keeping n g \<longrightarrow> keeping n g' \<and> out @ held g' = held g @ map enc (arrived evs))"
  using assms
proof (induction evs arbitrary: g out ok)
  case (Cons ev evs)
  from Cons.prems(2) obtain out1 ok1 g1 out2 ok2 where
    s: "gather_step n ops ev g = (out1, ok1, g1)" "gather_run n ops evs g1 = (out2, ok2, g')" "out = out1 @ out2" "ok \<longleftrightarrow> ok1 \<and> ok2"
    by (auto split: prod.splits)
  note s1 = stepped [OF Cons.prems(1) s(1)]
  then have "sound (gt_client g1)" by blast
  note r = Cons.IH [OF this s(2)]
  have "subseq (out1 @ out2 @ held g') (out1 @ held g1 @ map enc (arrived evs))"
    unfolding subseq_append' using r by blast
  moreover have "subseq (out1 @ held g1 @ map enc (arrived evs)) (held g @ map enc (arrived [ev]) @ map enc (arrived evs))"
    using list_emb_append_mono [OF s1 [THEN conjunct2, THEN conjunct2], of "map enc (arrived evs)" "map enc (arrived evs)"] by simp
  ultimately have "subseq (out @ held g') (held g @ map enc (arrived (ev # evs)))"
    unfolding s(3) arrived_Cons [of ev evs] by (auto intro: subseq_order.order_trans)
  moreover have "keeping n g' \<and> out @ held g' = held g @ map enc (arrived (ev # evs))" if "ok" "keeping n g"
  proof -
    from that s(4) s(1) have "gather_step n ops ev g = (out1, True, g1)" by simp
    from stepped_ok [OF Cons.prems(1) this that(2)] r that s(3,4) show ?thesis unfolding arrived_Cons [of ev evs] by auto
  qed
  ultimately show ?case using r by blast
qed auto

text \<open>The whole life of a gatherer: nothing is delivered twice or out of order, and without failures everything is delivered.\<close>

lemma looped:
  assumes "sound c" "contents c = []" "0 < n" "n \<le> room c" "gather_loop n ops evs net c = (out, ok, g)"
  shows "subseq (out @ contents (gt_client g)) (map enc (arrived evs)) \<and> (ok \<longrightarrow> out = map enc (arrived evs))"
proof -
  let ?g = "\<lparr>gt_client = c, gt_written = 0, gt_timer = False\<rparr>"
  obtain out1 ok1 g1 out2 ok2 where
    s: "gather_run n ops evs ?g = (out1, ok1, g1)" "flushClient ops net g1 = (out2, ok2, g)" "out = out1 @ out2" "ok \<longleftrightarrow> ok1 \<and> ok2"
    using assms(5) by (auto simp: gather_loop_def split: prod.splits)
  have h: "held ?g = []" "sound (gt_client ?g)" "keeping n ?g" using assms by (simp_all add: held_def keeping_def)
  note r = ran [OF h(2) s(1)]
  note f = flushed [OF _ s(2)]
  have "subseq (out1 @ out2 @ held g) (out1 @ held g1)"
    unfolding subseq_append' using r f by blast
  then have "subseq (out @ held g) (map enc (arrived evs))" using r h(1) s(3) by (auto intro: subseq_order.order_trans)
  moreover have "out = map enc (arrived evs)" if ok using that r f h s(3,4) by auto
  ultimately show ?thesis by (simp add: held_def)
qed

end

interpretation loki: log_client loki_ops "\<lambda>c. window_list (lk_window c)" lk_max "\<lambda>e. (loki_encodeEntry e, e_service e)"
    "\<lambda>c. window_wf (lk_max c) (lk_window c)"
proof
  fix c :: loki_client assume wf: "window_wf (lk_max c) (lk_window c)"
  show "window_wf (lk_max (op_Add loki_ops e c)) (lk_window (op_Add loki_ops e c)) \<and> lk_max (op_Add loki_ops e c) = lk_max c \<and>
      window_list (lk_window (op_Add loki_ops e c)) = keep (lk_max c) (window_list (lk_window c) @ [(loki_encodeEntry e, e_service e)])" for e
    using window_add_ok [OF wf] by (simp add: loki_ops_def loki_Add_def)
  show "window_wf (lk_max (op_SetLabels loki_ops svc l c)) (lk_window (op_SetLabels loki_ops svc l c)) \<and>
      lk_max (op_SetLabels loki_ops svc l c) = lk_max c \<and>
      window_list (lk_window (op_SetLabels loki_ops svc l c)) = window_list (lk_window c)" for svc l
    using wf by (simp add: loki_ops_def loki_SetLabels_def split: option.split)
  show "window_wf (lk_max c') (lk_window c') \<and> lk_max c' = lk_max c \<and>
      (\<exists>lost. window_list (lk_window c) = out @ lost @ window_list (lk_window c')) \<and>
      (ok \<longrightarrow> out = window_list (lk_window c) \<and> window_list (lk_window c') = [])"
    if "op_Flush loki_ops net c = (out, ok, c')" for net out ok c'
    using that wf window_reset_ok [OF wf]
    by (auto simp: loki_ops_def loki_deliver_def loki_Flush_def loki_handleServerResponse_def loki_resetBuffer_def response_drops_def
        response_error_def split: if_splits http_outcome.splits)
qed

interpretation otel: log_client otel_ops "\<lambda>c. window_list (ot_window c)" ot_max "\<lambda>e. (otel_encodeEntry e, e_service e)"
    "\<lambda>c. window_wf (ot_max c) (ot_window c)"
proof
  fix c :: otel_client assume wf: "window_wf (ot_max c) (ot_window c)"
  show "window_wf (ot_max (op_Add otel_ops e c)) (ot_window (op_Add otel_ops e c)) \<and> ot_max (op_Add otel_ops e c) = ot_max c \<and>
      window_list (ot_window (op_Add otel_ops e c)) = keep (ot_max c) (window_list (ot_window c) @ [(otel_encodeEntry e, e_service e)])" for e
    using window_add_ok [OF wf] by (simp add: otel_ops_def otel_Add_def)
  show "window_wf (ot_max (op_SetLabels otel_ops svc l c)) (ot_window (op_SetLabels otel_ops svc l c)) \<and>
      ot_max (op_SetLabels otel_ops svc l c) = ot_max c \<and>
      window_list (ot_window (op_SetLabels otel_ops svc l c)) = window_list (ot_window c)" for svc l
    using wf by (simp add: otel_ops_def otel_SetLabels_def split: option.split)
  show "window_wf (ot_max c') (ot_window c') \<and> ot_max c' = ot_max c \<and>
      (\<exists>lost. window_list (ot_window c) = out @ lost @ window_list (ot_window c')) \<and>
      (ok \<longrightarrow> out = window_list (ot_window c) \<and> window_list (ot_window c') = [])"
    if "op_Flush otel_ops net c = (out, ok, c')" for net out ok c'
    using that wf window_reset_ok [OF wf]
    by (auto simp: otel_ops_def otel_deliver_def otel_Flush_def otel_sendBatch_def otel_handleServerResponse_def otel_resetBuffer_def
        response_drops_def response_error_def split: if_splits http_outcome.splits)
qed

definition syslog_sound :: "syslog_client \<Rightarrow> bool" where
  "syslog_sound c \<longleftrightarrow> window_wf (so_max (sy_options c)) (sy_window c)"

lemma ensureConnected_keeps:
  "ensureConnected d c = (err, c') \<Longrightarrow> sy_window c' = sy_window c \<and> sy_options c' = sy_options c \<and> (err = None \<longrightarrow> sy_connected c')"
  by (auto simp: ensureConnected_def split: if_splits)

lemma udp_loop_ok:
  assumes "syslog_sound c" "es = drop i (window_list (sy_window c))" "i = 0 \<or> sy_connected c" "i \<le> length (window_list (sy_window c))"
    "udp_loop net i es c = (out, err, c')"
  shows "syslog_sound c' \<and> sy_options c' = sy_options c \<and>
    (if err = None then window_list (sy_window c') = []
     else length out \<le> length es \<and> window_list (sy_window c') = drop (i + length out) (window_list (sy_window c)))"
  using assms
proof (induction es arbitrary: i c out err c')
  case Nil
  with window_reset_ok show ?case by (auto simp: syslog_sound_def syslog_resetBuffer_def)
next
  case (Cons e es)
  obtain d c1 where d: "ensureConnected (no_dials net) c = (d, c1)" by (cases "ensureConnected (no_dials net) c")
  note k = ensureConnected_keeps [OF d]
  have i: "i < length (window_list (sy_window c))" using Cons.prems(2) by (cases "i < length (window_list (sy_window c))") auto
  show ?case
  proof (cases d)
    case (Some x)
    with Cons.prems(3) d have "i = 0" by (auto simp: ensureConnected_def split: if_splits)
    moreover have "out = [] \<and> err = Some x \<and> c' = c1" using Cons.prems(5) d Some by simp
    ultimately show ?thesis using k Cons.prems(1) by (simp add: syslog_sound_def)
  next
    case None
    show ?thesis
    proof (cases "no_writes net i")
      case False
      have "length (window_list (sy_window c)) = wd_len (sy_window c)"
        using Cons.prems(1) length_window_list unfolding syslog_sound_def by blast
      then have "i \<le> wd_len (sy_window c1)" using i k by simp
      moreover have "out = [] \<and> err = Some (''cannot send syslogs'', []) \<and> c' = hang_up (syslog_resetBufferToIndex i c1)"
        using Cons.prems(5) d None False by simp
      ultimately show ?thesis using window_reset_to_ok [of "so_max (sy_options c)" "sy_window c1" i] k Cons.prems(1)
        by (simp add: syslog_sound_def hang_up_def syslog_resetBufferToIndex_def)
    next
      case True
      obtain o2 e2 c2 where r: "udp_loop net (i + 1) es c1 = (o2, e2, c2)" by (cases "udp_loop net (i + 1) es c1")
      have "es = tl (drop i (window_list (sy_window c)))" using Cons.prems(2) by (metis list.sel(3))
      then have es: "es = drop (i + 1) (window_list (sy_window c1))" using k by (simp add: drop_Suc tl_drop)
      have "syslog_sound c1" using Cons.prems(1) k by (simp add: syslog_sound_def)
      then have "syslog_sound c2 \<and> sy_options c2 = sy_options c1 \<and>
          (if e2 = None then window_list (sy_window c2) = []
           else length o2 \<le> length es \<and> window_list (sy_window c2) = drop (i + 1 + length o2) (window_list (sy_window c1)))"
        by (rule Cons.IH [OF _ es _ _ r]) (use k None i in simp_all)
      with True None d r Cons.prems(5) k show ?thesis by auto
    qed
  qed
qed

interpretation syslog: log_client syslog_ops "\<lambda>c. window_list (sy_window c)" "\<lambda>c. so_max (sy_options c)" trimmed syslog_sound
proof
  fix c assume s: "syslog_sound c"
  then have wf: "window_wf (so_max (sy_options c)) (sy_window c)" by (simp add: syslog_sound_def)
  show "syslog_sound (op_Add syslog_ops e c) \<and> so_max (sy_options (op_Add syslog_ops e c)) = so_max (sy_options c) \<and>
      window_list (sy_window (op_Add syslog_ops e c)) = keep (so_max (sy_options c)) (window_list (sy_window c) @ [trimmed e])" for e
    using window_add_ok [OF wf] by (simp add: syslog_ops_def syslog_Add_def syslog_sound_def)
  show "syslog_sound (op_SetLabels syslog_ops svc l c) \<and> so_max (sy_options (op_SetLabels syslog_ops svc l c)) = so_max (sy_options c) \<and>
      window_list (sy_window (op_SetLabels syslog_ops svc l c)) = window_list (sy_window c)" for svc l
    using wf by (simp add: syslog_ops_def syslog_SetLabels_def syslog_sound_def split: option.split)
  show "syslog_sound c' \<and> so_max (sy_options c') = so_max (sy_options c) \<and>
      (\<exists>lost. window_list (sy_window c) = out @ lost @ window_list (sy_window c')) \<and>
      (ok \<longrightarrow> out = window_list (sy_window c) \<and> window_list (sy_window c') = [])"
    if f: "op_Flush syslog_ops net c = (out, ok, c')" for net out ok c'
  proof -
    obtain writes err where w: "syslog_Flush net c = (writes, err, c')" "ok \<longleftrightarrow> err = None"
      "out = (if err = None then window_list (sy_window c)
         else if so_udp (sy_options c) then take (length writes) (window_list (sy_window c)) else [])"
      using f by (auto simp: syslog_ops_def syslog_deliver_def split: prod.splits)
    show ?thesis
    proof (cases "window_list (sy_window c) = [] \<or> \<not> so_udp (sy_options c)")
      case True
      with w s window_reset_ok [OF wf] show ?thesis
        by (auto simp: syslog_Flush_def flushTCP_def syslog_sound_def hang_up_def syslog_resetBuffer_def
            split: if_splits prod.splits option.splits dest!: ensureConnected_keeps)
    next
      case False
      with w(1) have "udp_loop net 0 (window_list (sy_window c)) c = (writes, err, c')" by (simp add: syslog_Flush_def flushUDP_def)
      from udp_loop_ok [OF s _ _ _ this] w False show ?thesis by (cases "err = None") (auto intro: exI [of _ "[]"])
    qed
  qed
qed

subsection \<open>The client of a target\<close>

datatype any_client = LokiClient loki_client | OtelClient otel_client | SyslogClient syslog_client

text \<open>The location as \<open>url.Parse\<close> reads it: its scheme and its host.\<close>

definition syslog_for_location :: "(string \<times> string) option \<Rightarrow> string \<Rightarrow> string \<Rightarrow> message + syslog_client" where
  "syslog_for_location url host sdid =
     (case url of
        None \<Rightarrow> Inl (''invalid syslog server location'', [])
      | Some (scheme, h) \<Rightarrow>
          if scheme \<noteq> ''tcp'' \<and> scheme \<noteq> ''udp'' \<or> h = []
          then Inl (''invalid syslog server location %q, must be in form tcp://host:port or udp://host:port'', [])
          else Inr (syslog_NewClient \<lparr>so_max = 0, so_Hostname = host, so_SDID = sdid, so_udp = (scheme = ''udp'')\<rparr>))"

definition newLogClient :: "(string \<Rightarrow> (string \<times> string) option) \<Rightarrow> string option \<Rightarrow> log_target \<Rightarrow> message + any_client" where
  "newLogClient url hostname t =
     (if lt_type t = ''loki'' then Inr (LokiClient (loki_NewClient 0))
      else if lt_type t = ''opentelemetry'' then Inr (OtelClient (otel_NewClient 0))
      else if lt_type t = ''syslog''
      then map_sum id SyslogClient (syslog_for_location (url (lt_location t)) (case hostname of None \<Rightarrow> [] | Some h \<Rightarrow> h) ''pebble'')
      else Inl (''unknown type %q for log target %q'', [lt_type t, lt_name t]))"

definition delivers :: "('c, 'e, 'o) client_ops \<Rightarrow> (log_entry \<Rightarrow> 'e) \<Rightarrow> 'c \<Rightarrow> bool" where
  "delivers ops enc c \<longleftrightarrow>
     (\<forall>evs net out ok g. gather_loop maxBufferedEntries ops evs net c = (out, ok, g) \<longrightarrow>
        subseq out (map enc (arrived evs)) \<and> (ok \<longrightarrow> out = map enc (arrived evs)))"

fun forwards :: "any_client \<Rightarrow> bool" where
  "forwards (LokiClient c) \<longleftrightarrow> delivers loki_ops (\<lambda>e. (loki_encodeEntry e, e_service e)) c"
| "forwards (OtelClient c) \<longleftrightarrow> delivers otel_ops (\<lambda>e. (otel_encodeEntry e, e_service e)) c"
| "forwards (SyslogClient c) \<longleftrightarrow> delivers syslog_ops trimmed c"

context log_client
begin

lemma delivering:
  assumes "sound c" "contents c = []" "maxBufferedEntries \<le> room c"
  shows "delivers ops enc c"
  unfolding delivers_def
proof (intro allI impI)
  fix evs net out ok g assume "gather_loop maxBufferedEntries ops evs net c = (out, ok, g)"
  from looped [OF assms(1,2) _ assms(3) this] show "subseq out (map enc (arrived evs)) \<and> (ok \<longrightarrow> out = map enc (arrived evs))"
    by (auto simp: maxBufferedEntries_def intro: subseq_order.order_trans [OF list_emb_prefix])
qed

end

lemma newLogClient_forwards:
  assumes "newLogClient url hostname t = Inr c"
  shows "forwards c"
  using assms loki.delivering [of "loki_NewClient 0"] otel.delivering [of "otel_NewClient 0"]
    syslog.delivering [of "syslog_NewClient \<lparr>so_max = 0, so_Hostname = h, so_SDID = s, so_udp = u\<rparr>" for h s u]
  by (auto simp: newLogClient_def syslog_for_location_def map_sum_def syslog_sound_def loki_NewClient_def otel_NewClient_def
      syslog_NewClient_def default_max_def maxRequestEntries_def maxBufferedEntries_def window_wf_new Let_def
      split: if_splits sum.splits option.splits)

subsection \<open>Frames on a connection\<close>

text \<open>A receiver of RFC 5425 frames: a decimal number, a space, and that many bytes.\<close>

lemma cut_at_length: "cut_at c s = Some (a, b) \<Longrightarrow> length s = Suc (length a + length b)"
  by (induction s arbitrary: a) (auto split: if_splits)

function octet_frames :: "string \<Rightarrow> string list option" where
  "octet_frames s =
     (if s = [] then Some []
      else case cut_at (CHR '' '') s of
          None \<Rightarrow> None
        | Some (n, r) \<Rightarrow>
            if n \<noteq> [] \<and> list_all is_digit n \<and> decimal_of n \<le> length r
            then map_option ((#) (take (decimal_of n) r)) (octet_frames (drop (decimal_of n) r)) else None)"
  by pat_completeness auto
termination by (relation "measure length") (auto dest: cut_at_length)

declare octet_frames.simps [simp del]

lemma octet_frames_Nil [simp]: "octet_frames [] = Some []"
  by (simp add: octet_frames.simps)

lemma octet_frames_Cons: "octet_frames (itoa (length m) @ CHR '' '' # m @ s) = map_option ((#) m) (octet_frames s)"
proof -
  have "CHR '' '' \<notin> set (itoa (length m))"
    using itoa_digits [of "length m"] by (auto simp: list_all_iff is_digit_def)
  from cut_at_append [OF this] show ?thesis
    by (subst octet_frames.simps) (simp add: itoa_ne itoa_digits)
qed

lemma frame_length_ok: "frame_length c e = length (encodeOneEntry c e [])"
  by (simp add: frame_length_def encodeOneEntry_def)

text \<open>
  C36: What is written to a syslog server over TCP is read back by a receiver as the messages of the entries, one by one, whatever
  bytes the labels and messages have.
\<close>

theorem tcp_frames_roundtrip:
  "octet_frames (buildSendBufferTCP c) = Some (map (\<lambda>e. encodeOneEntry c e []) (window_list (sy_window c)))"
proof -
  have "octet_frames (concat (map (frame c) es)) = Some (map (\<lambda>e. encodeOneEntry c e []) es)" for es
    by (induction es) (simp_all add: frame_def frame_length_ok octet_frames_Cons)
  then show ?thesis by (simp add: buildSendBufferTCP_def)
qed

subsection \<open>Labels that do not arrive\<close>

text \<open>The second byte of a letter that takes two is lost in the labels of syslog.\<close>

lemma escape_value_loses_bytes: "escape_value [CHR 0xC3, CHR 0xA9, CHR ''x''] = [CHR 0xC3, CHR ''x'']"
  by code_simp

text \<open>A label may repeat the key that the code adds, which the format forbids.\<close>

lemma otel_duplicate_key:
  "fmlookup (ot_attributes (otel_SetLabels svc (Some (fmupd ''service.name'' v fmempty)) c)) svc =
     Some [(''service.name'', svc), (''service.name'', v)]"
  by (simp add: otel_SetLabels_def sorted_list_of_fmap_def sorted_list_of_fset.rep_eq)

text \<open>
  The flush before the labels of a service change may fail: what is kept is then sent with the new labels, or with null for those of
  a service that left.
\<close>

lemma labels_change_after_failed_flush:
  assumes "window_list (lk_window (gt_client g)) \<noteq> []"
  shows "gather_step n loki_ops (LabelsSet svc l RequestFailed) g =
    ([], False, g\<lparr>gt_client := loki_SetLabels svc l (gt_client g), gt_timer := False, gt_written := 0\<rparr>)"
  using assms by (simp add: flushClient_def loki_ops_def loki_deliver_def loki_Flush_def)

end
