(* ===== verification/LogManager.thy ===== *)
theory LogManager
  imports LogForward LogIterator
begin

text \<open>
  The log manager (\<open>internals/overlord/logstate/manager.go\<close>), the pullers of a gatherer (\<open>puller.go\<close>) and the labels of a
  service (\<open>evaluateLabels\<close> in \<open>gatherer.go\<close>).  The buffers of the services are a heap of \<open>log_buffer\<close>s, as the manager
  shares them with the services by pointer; a puller is the iterator it has on its buffer.  The order in which a Go map is
  ranged over is the order of the list that stands for it.  Calls after \<open>Stop\<close> are not modelled.
\<close>

subsection \<open>Labels\<close>

text \<open>\<open>os.Expand\<close>: the variables in a string, by their values.\<close>

definition isShellSpecialVar :: "char \<Rightarrow> bool" where
  "isShellSpecialVar c \<longleftrightarrow> c \<in> set ''*#$@!?-0123456789''"

definition isAlphaNum :: "char \<Rightarrow> bool" where
  "isAlphaNum c \<longleftrightarrow> c = CHR ''_'' \<or> (48 \<le> byte c \<and> byte c \<le> 57) \<or> (97 \<le> byte c \<and> byte c \<le> 122) \<or> (65 \<le> byte c \<and> byte c \<le> 90)"

text \<open>The name after a dollar and how much of the text it takes.\<close>

fun getShellName :: "string \<Rightarrow> string \<times> nat" where
  "getShellName [] = ([], 0)"
| "getShellName (c # s) =
     (if c = CHR ''{'' then
        (if 1 < length s \<and> isShellSpecialVar (hd s) \<and> s ! 1 = CHR ''}'' then ([hd s], 3)
         else case cut_at (CHR ''}'') s of
            None \<Rightarrow> ([], 1)
          | Some ([], _) \<Rightarrow> ([], 2)
          | Some (name, _) \<Rightarrow> (name, length name + 2))
      else if isShellSpecialVar c then ([c], 1)
      else (let name = takeWhile isAlphaNum (c # s) in (name, length name)))"

function os_Expand :: "(string \<Rightarrow> string) \<Rightarrow> string \<Rightarrow> string" where
  "os_Expand f [] = []"
| "os_Expand f (c # s) =
     (if c = CHR ''$'' \<and> s \<noteq> []
      then (case getShellName s of (name, w) \<Rightarrow>
              (if name = [] \<and> 0 < w then [] else if name = [] then [c] else f name) @ os_Expand f (drop w s))
      else c # os_Expand f s)"
  by pat_completeness auto
termination by (relation "measure (\<lambda>(f, s). length s)") auto

definition evaluateLabels :: "labels \<Rightarrow> (string, string) fmap \<Rightarrow> labels" where
  "evaluateLabels rawLabels env =
     fmmap (os_Expand (\<lambda>k. case fmlookup env k of None \<Rightarrow> [] | Some v \<Rightarrow> v)) rawLabels"

lemma os_Expand_plain: "CHR ''$'' \<notin> set a \<Longrightarrow> os_Expand f (a @ s) = a @ os_Expand f s"
  by (induction a) auto

lemma os_Expand_braced:
  assumes "name \<noteq> []" "CHR ''}'' \<notin> set name"
  shows "os_Expand f (CHR ''$'' # CHR ''{'' # name @ CHR ''}'' # s) = f name @ os_Expand f s"
proof -
  have "getShellName (CHR ''{'' # name @ CHR ''}'' # s) = (name, length name + 2)"
  proof (cases "1 < length (name @ CHR ''}'' # s) \<and> isShellSpecialVar (hd (name @ CHR ''}'' # s)) \<and> (name @ CHR ''}'' # s) ! 1 = CHR ''}''")
    case True
    with assms have "length name = 1" by (cases name; cases "tl name") auto
    with True show ?thesis by (auto simp: length_Suc_conv)
  next
    case False
    with assms show ?thesis
      by (subst getShellName.simps, subst if_not_P [OF False]) (simp add: cut_at_append split: list.split)
  qed
  with assms show ?thesis by simp
qed

subsection \<open>Pullers\<close>

record puller =
  pu_buffer :: nat
  pu_iter :: nat

record log_heap =
  lh_buffer :: "nat \<Rightarrow> log_buffer"
  lh_fresh :: nat

text \<open>A gatherer, with the labels that the messages to its loop have set.\<close>

record gatherer =
  ga_target :: string
  ga_client :: any_client
  ga_pullers :: "(string, puller) fmap"
  ga_labels :: "(string, labels) fmap"

text \<open>The puller is killed, waited for, and closes its iterator.\<close>

definition group_remove :: "string \<Rightarrow> log_heap \<times> gatherer \<Rightarrow> log_heap \<times> gatherer" where
  "group_remove svc = (\<lambda>(h, g).
     case fmlookup (ga_pullers g) svc of
       None \<Rightarrow> (h, g)
     | Some p \<Rightarrow>
         (h\<lparr>lh_buffer := (lh_buffer h)(pu_buffer p := iterator_Close (pu_iter p) (lh_buffer h (pu_buffer p)))\<rparr>,
          g\<lparr>ga_pullers := fmdrop svc (ga_pullers g)\<rparr>))"

definition group_Add :: "string \<Rightarrow> nat \<Rightarrow> log_heap \<times> gatherer \<Rightarrow> log_heap \<times> gatherer" where
  "group_Add svc b hg =
     (case group_remove svc hg of (h, g) \<Rightarrow>
        (h\<lparr>lh_buffer := (lh_buffer h)(b := TailIterator (lh_fresh h) (lh_buffer h b)), lh_fresh := lh_fresh h + 1\<rparr>,
         g\<lparr>ga_pullers := fmupd svc \<lparr>pu_buffer = b, pu_iter = lh_fresh h\<rparr> (ga_pullers g)\<rparr>))"

definition group_Services :: "gatherer \<Rightarrow> string list" where
  "group_Services g = sorted_list_of_fset (fmdom (ga_pullers g))"

definition send_labels :: "string \<Rightarrow> labels option \<Rightarrow> gatherer \<Rightarrow> gatherer" where
  "send_labels svc l g =
     g\<lparr>ga_labels := (case l of None \<Rightarrow> fmdrop svc (ga_labels g) | Some l \<Rightarrow> fmupd svc l (ga_labels g))\<rparr>"

subsection \<open>A gatherer and the plan\<close>

definition still_logs :: "plan \<Rightarrow> log_target \<Rightarrow> string \<Rightarrow> bool" where
  "still_logs pl t svc \<longleftrightarrow> (case map_of (plan_services pl) svc of None \<Rightarrow> False | Some s \<Rightarrow> LogsTo s t)"

definition drop_puller :: "plan \<Rightarrow> log_target \<Rightarrow> string \<Rightarrow> log_heap \<times> gatherer \<Rightarrow> log_heap \<times> gatherer" where
  "drop_puller pl t svc hg =
     (if still_logs pl t svc then hg else map_prod id (send_labels svc None) (group_remove svc hg))"

definition add_puller :: "(string, nat) fmap \<Rightarrow> log_target \<Rightarrow> service \<Rightarrow> log_heap \<times> gatherer \<Rightarrow> log_heap \<times> gatherer" where
  "add_puller bufs t s hg =
     (if \<not> LogsTo s t then hg
      else
        (let hg = map_prod id (send_labels (svc_name s) (Some (evaluateLabels (lt_labels t) (svc_environment s)))) hg in
         case fmlookup bufs (svc_name s) of None \<Rightarrow> hg | Some b \<Rightarrow> group_Add (svc_name s) b hg))"

definition gatherer_PlanChanged :: "plan \<Rightarrow> (string, nat) fmap \<Rightarrow> log_target \<Rightarrow> log_heap \<times> gatherer \<Rightarrow> log_heap \<times> gatherer" where
  "gatherer_PlanChanged pl bufs t hg =
     (let hg = fold (drop_puller pl t) (group_Services (snd hg)) hg in
      fold (add_puller bufs t) (map snd (plan_services pl)) hg)"

definition gatherer_ServiceStarted :: "service \<Rightarrow> nat \<Rightarrow> log_heap \<times> gatherer \<Rightarrow> log_heap \<times> gatherer" where
  "gatherer_ServiceStarted s b = group_Add (svc_name s) b"

subsection \<open>The manager\<close>

record log_manager =
  lm_heap :: log_heap
  lm_gatherers :: "(string, gatherer) fmap"
  lm_buffers :: "(string, nat) fmap"
  lm_plan :: "plan option"
  lm_stopping :: "gatherer list"

definition NewLogManager :: "log_heap \<Rightarrow> log_manager" where
  "NewLogManager h =
     \<lparr>lm_heap = h, lm_gatherers = fmempty, lm_buffers = fmempty, lm_plan = None, lm_stopping = []\<rparr>"

type_synonym client_maker = "log_target \<Rightarrow> message + any_client"

definition newLogGatherer :: "client_maker \<Rightarrow> log_target \<Rightarrow> message + gatherer" where
  "newLogGatherer mk t =
     map_sum id (\<lambda>c. \<lparr>ga_target = lt_name t, ga_client = c, ga_pullers = fmempty, ga_labels = fmempty\<rparr>) (mk t)"

text \<open>One target of the new plan: the heap, the gatherers of the old plan that are left, and those of the new one.\<close>

type_synonym gatherer_maps = "log_heap \<times> (string, gatherer) fmap \<times> (string, gatherer) fmap"

definition plan_target :: "client_maker \<Rightarrow> plan \<Rightarrow> (string, nat) fmap \<Rightarrow> log_target \<Rightarrow> gatherer_maps \<Rightarrow> gatherer_maps" where
  "plan_target mk pl bufs t = (\<lambda>(h, olds, news).
     let place = (\<lambda>g olds. case gatherer_PlanChanged pl bufs t (h, g) of (h, g) \<Rightarrow> (h, olds, fmupd (lt_name t) g news)) in
     case fmlookup olds (lt_name t) of
       None \<Rightarrow> (case newLogGatherer mk t of Inl e \<Rightarrow> (h, olds, news) | Inr g \<Rightarrow> place g olds)
     | Some g \<Rightarrow> place g (fmdrop (lt_name t) olds))"

definition log_PlanChanged :: "client_maker \<Rightarrow> plan \<Rightarrow> log_manager \<Rightarrow> log_manager" where
  "log_PlanChanged mk pl m =
     (case fold (plan_target mk pl (lm_buffers m)) (map snd (plan_log_targets pl)) (lm_heap m, lm_gatherers m, fmempty) of
        (h, olds, news) \<Rightarrow>
          m\<lparr>lm_heap := h, lm_gatherers := news,
            lm_stopping := lm_stopping m @ map (\<lambda>n. the (fmlookup olds n)) (sorted_list_of_fset (fmdom olds)),
            lm_buffers := fmfilter (\<lambda>svc. map_of (plan_services pl) svc \<noteq> None) (lm_buffers m), lm_plan := Some pl\<rparr>)"

text \<open>A gatherer of the manager has a target in its plan.\<close>

definition tell_gatherer :: "plan option \<Rightarrow> service \<Rightarrow> nat \<Rightarrow> string \<Rightarrow> log_heap \<times> (string, gatherer) fmap \<Rightarrow> log_heap \<times> (string, gatherer) fmap" where
  "tell_gatherer pl s b n = (\<lambda>(h, gs).
     case fmlookup gs n of
       None \<Rightarrow> (h, gs)
     | Some g \<Rightarrow>
         (case pl of
            None \<Rightarrow> (h, gs)
          | Some pl \<Rightarrow>
              (case map_of (plan_log_targets pl) (ga_target g) of
                 None \<Rightarrow> (h, gs)
               | Some t \<Rightarrow>
                   if \<not> LogsTo s t then (h, gs)
                   else map_prod id (\<lambda>g. fmupd n g gs) (gatherer_ServiceStarted s b (h, g)))))"

definition log_ServiceStarted :: "service \<Rightarrow> nat \<Rightarrow> log_manager \<Rightarrow> log_manager" where
  "log_ServiceStarted s b m =
     (if fmlookup (lm_buffers m) (svc_name s) = Some b then m
      else
        (case fold (tell_gatherer (lm_plan m) s b) (sorted_list_of_fset (fmdom (lm_gatherers m))) (lm_heap m, lm_gatherers m) of
           (h, gs) \<Rightarrow> m\<lparr>lm_heap := h, lm_gatherers := gs, lm_buffers := fmupd (svc_name s) b (lm_buffers m)\<rparr>))"

subsection \<open>What a gatherer pulls\<close>

definition pulls :: "gatherer \<Rightarrow> string \<Rightarrow> nat option" where
  "pulls g svc = map_option pu_buffer (fmlookup (ga_pullers g) svc)"

abbreviation same_target :: "gatherer \<Rightarrow> gatherer \<Rightarrow> bool" where
  "same_target g' g \<equiv> ga_target g' = ga_target g \<and> ga_client g' = ga_client g"

lemma group_remove_ok:
  assumes "group_remove svc (h, g) = (h', g')"
  shows "same_target g' g \<and> ga_labels g' = ga_labels g \<and> pulls g' = (pulls g)(svc := None) \<and> lh_fresh h' = lh_fresh h"
  using assms by (auto simp: group_remove_def pulls_def fun_eq_iff split: option.splits)

lemma group_Add_ok:
  assumes "group_Add svc b (h, g) = (h', g')"
  shows "same_target g' g \<and> ga_labels g' = ga_labels g \<and> pulls g' = (pulls g)(svc := Some b)"
proof -
  obtain h1 g1 where r: "group_remove svc (h, g) = (h1, g1)" by fastforce
  from group_remove_ok [OF r] assms r show ?thesis by (auto simp: group_Add_def pulls_def fun_eq_iff)
qed

lemma send_labels_ok [simp]: "same_target (send_labels svc l g) g" "pulls (send_labels svc l g) = pulls g"
  by (simp_all add: send_labels_def pulls_def fun_eq_iff)

lemma drop_puller_ok:
  assumes "drop_puller pl t svc (h, g) = (h', g')"
  shows "same_target g' g \<and> pulls g' = (if still_logs pl t svc then pulls g else (pulls g)(svc := None))"
proof -
  obtain h1 g1 where r: "group_remove svc (h, g) = (h1, g1)" by fastforce
  from group_remove_ok [OF r] assms r show ?thesis
    by (auto simp: drop_puller_def split: if_splits)
qed

lemma drop_pullers_ok:
  assumes "fold (drop_puller pl t) svcs (h, g) = (h', g')"
  shows "same_target g' g \<and> (\<forall>x. pulls g' x = (if x \<in> set svcs \<and> \<not> still_logs pl t x then None else pulls g x))"
  using assms
proof (induction svcs arbitrary: h g)
  case (Cons svc svcs)
  obtain h1 g1 where r: "drop_puller pl t svc (h, g) = (h1, g1)" by fastforce
  with Cons.prems have "fold (drop_puller pl t) svcs (h1, g1) = (h', g')" by simp
  from Cons.IH [OF this] drop_puller_ok [OF r] show ?case by auto
qed simp

lemma add_puller_ok:
  assumes "add_puller bufs t s (h, g) = (h', g')"
  shows "same_target g' g \<and>
    pulls g' = (if LogsTo s t then (pulls g)(svc_name s := (case fmlookup bufs (svc_name s) of None \<Rightarrow> pulls g (svc_name s) | Some b \<Rightarrow> Some b))
                else pulls g) \<and>
    (\<forall>x. fmlookup (ga_labels g') x =
      (if LogsTo s t \<and> x = svc_name s then Some (evaluateLabels (lt_labels t) (svc_environment s)) else fmlookup (ga_labels g) x))"
proof -
  let ?g = "send_labels (svc_name s) (Some (evaluateLabels (lt_labels t) (svc_environment s))) g"
  have l: "same_target ?g g" "pulls ?g = pulls g"
    "\<And>x. fmlookup (ga_labels ?g) x = (if x = svc_name s then Some (evaluateLabels (lt_labels t) (svc_environment s)) else fmlookup (ga_labels g) x)"
    by (simp_all add: send_labels_def pulls_def fun_eq_iff)
  show ?thesis
  proof (cases "LogsTo s t \<and> fmlookup bufs (svc_name s) \<noteq> None")
    case True
    then obtain b where b: "fmlookup bufs (svc_name s) = Some b" by blast
    with assms True have "group_Add (svc_name s) b (h, ?g) = (h', g')" by (simp add: add_puller_def)
    from group_Add_ok [OF this] l True b show ?thesis by simp
  next
    case False
    with assms l show ?thesis by (auto simp: add_puller_def)
  qed
qed

text \<open>The services of a plan have the names they are filed under.\<close>

definition named :: "('a \<Rightarrow> string) \<Rightarrow> 'a go_map \<Rightarrow> bool" where
  "named f m \<longleftrightarrow> distinct (map fst m) \<and> (\<forall>(n, x) \<in> set m. f x = n)"

lemma named_Cons: "named f ((n, x) # m) \<longleftrightarrow> f x = n \<and> n \<notin> fst ` set m \<and> named f m"
  by (auto simp: named_def)

lemma add_pullers_ok:
  assumes "fold (add_puller bufs t) (map snd ss) (h, g) = (h', g')" "named svc_name ss"
  shows "same_target g' g \<and>
    (\<forall>x. pulls g' x = (case map_of ss x of None \<Rightarrow> pulls g x
        | Some s \<Rightarrow> if LogsTo s t then (case fmlookup bufs x of None \<Rightarrow> pulls g x | Some b \<Rightarrow> Some b) else pulls g x)) \<and>
    (\<forall>x s. map_of ss x = Some s \<longrightarrow> LogsTo s t \<longrightarrow> fmlookup (ga_labels g') x = Some (evaluateLabels (lt_labels t) (svc_environment s))) \<and>
    (\<forall>x. map_of ss x = None \<longrightarrow> fmlookup (ga_labels g') x = fmlookup (ga_labels g) x)"
  using assms
proof (induction ss arbitrary: h g)
  case (Cons ns ss)
  obtain n s where ns: "ns = (n, s)" by fastforce
  with Cons.prems(2) have n: "svc_name s = n" "map_of ss n = None" "named svc_name ss" by (simp_all add: named_Cons map_of_eq_None_iff)
  obtain h1 g1 where r: "add_puller bufs t s (h, g) = (h1, g1)" by fastforce
  with Cons.prems(1) ns have "fold (add_puller bufs t) (map snd ss) (h1, g1) = (h', g')" by simp
  note ih = Cons.IH [OF this n(3)] and one = add_puller_ok [OF r]
  have "pulls g' x = (case map_of (ns # ss) x of None \<Rightarrow> pulls g x
      | Some s \<Rightarrow> if LogsTo s t then (case fmlookup bufs x of None \<Rightarrow> pulls g x | Some b \<Rightarrow> Some b) else pulls g x)" for x
    using ih one n ns by (cases "x = n") (simp_all split: option.split)
  moreover have "fmlookup (ga_labels g') x = Some (evaluateLabels (lt_labels t) (svc_environment s'))"
    if "map_of (ns # ss) x = Some s'" "LogsTo s' t" for x s'
    using that ih one n ns by (cases "x = n") simp_all
  moreover have "fmlookup (ga_labels g') x = fmlookup (ga_labels g) x" if "map_of (ns # ss) x = None" for x
    using that ih one n ns by (cases "x = n") simp_all
  ultimately show ?case using ih one by simp
qed simp

text \<open>What a gatherer has when the plan has been told to it.\<close>

definition follows :: "plan \<Rightarrow> (string, nat) fmap \<Rightarrow> log_target \<Rightarrow> gatherer \<Rightarrow> bool" where
  "follows pl bufs t g \<longleftrightarrow>
     (\<forall>x. pulls g x = (if still_logs pl t x then fmlookup bufs x else None)) \<and>
     (\<forall>x s. map_of (plan_services pl) x = Some s \<longrightarrow> LogsTo s t \<longrightarrow>
        fmlookup (ga_labels g) x = Some (evaluateLabels (lt_labels t) (svc_environment s)))"

lemma gatherer_PlanChanged_ok:
  assumes "gatherer_PlanChanged pl bufs t (h, g) = (h', g')" "named svc_name (plan_services pl)"
    "\<forall>x b. pulls g x = Some b \<longrightarrow> fmlookup bufs x = Some b"
  shows "same_target g' g \<and> follows pl bufs t g'"
proof -
  obtain h1 g1 where d: "fold (drop_puller pl t) (group_Services g) (h, g) = (h1, g1)" by fastforce
  have svcs: "pulls g x = None" if "x \<notin> set (group_Services g)" for x
    using that by (simp add: group_Services_def pulls_def fmlookup_dom_iff)
  have "fold (add_puller bufs t) (map snd (plan_services pl)) (h1, g1) = (h', g')"
    using assms(1) d by (simp add: gatherer_PlanChanged_def)
  note a = add_pullers_ok [OF this assms(2)] and dd = drop_pullers_ok [OF d]
  have "pulls g' x = (if still_logs pl t x then fmlookup bufs x else None)" for x
  proof -
    have p1: "pulls g1 x = (if still_logs pl t x then pulls g x else None)" using dd svcs by auto
    have "pulls g' x = (case map_of (plan_services pl) x of None \<Rightarrow> pulls g1 x
        | Some s \<Rightarrow> if LogsTo s t then (case fmlookup bufs x of None \<Rightarrow> pulls g1 x | Some b \<Rightarrow> Some b) else pulls g1 x)"
      using a by blast
    moreover have "pulls g x = None" if "fmlookup bufs x = None" using assms(3) that by (cases "pulls g x") auto
    ultimately show ?thesis using p1 by (auto simp: still_logs_def split: option.splits)
  qed
  with a dd show ?thesis by (simp add: follows_def)
qed

subsection \<open>What the manager keeps\<close>

definition plan_named :: "plan \<Rightarrow> bool" where
  "plan_named p \<longleftrightarrow> named svc_name (plan_services p) \<and> named lt_name (plan_log_targets p)"

text \<open>A gatherer of the manager pulls from the buffers of the services that log to its target, and from no other.\<close>

definition gatherer_ok :: "plan \<Rightarrow> (string, nat) fmap \<Rightarrow> string \<Rightarrow> gatherer \<Rightarrow> bool" where
  "gatherer_ok pl bufs n g \<longleftrightarrow>
     ga_target g = n \<and> forwards (ga_client g) \<and>
     (case map_of (plan_log_targets pl) n of
        None \<Rightarrow> False
      | Some t \<Rightarrow>
          (\<forall>x. pulls g x = (if logs_to x (rev (lt_services t)) then fmlookup bufs x else None)) \<and>
          (\<forall>x s. map_of (plan_services pl) x = Some s \<longrightarrow> LogsTo s t \<longrightarrow>
             fmlookup (ga_labels g) x = Some (evaluateLabels (lt_labels t) (svc_environment s))))"

definition manager_ok :: "log_manager \<Rightarrow> bool" where
  "manager_ok m \<longleftrightarrow>
     (case lm_plan m of
        None \<Rightarrow> lm_gatherers m = fmempty
      | Some pl \<Rightarrow> \<forall>n g. fmlookup (lm_gatherers m) n = Some g \<longrightarrow> gatherer_ok pl (lm_buffers m) n g)"

lemma LogsTo_named: "named svc_name ss \<Longrightarrow> map_of ss x = Some s \<Longrightarrow> LogsTo s t \<longleftrightarrow> logs_to x (rev (lt_services t))"
  by (auto simp: LogsTo_def named_def dest: map_of_SomeD)

lemma named_lookup: "named f m \<Longrightarrow> (n, x) \<in> set m \<Longrightarrow> map_of m n = Some x \<and> f x = n"
  by (auto simp: named_def)

lemma gatherer_ok_old:
  assumes "gatherer_ok pl bufs n g"
  shows "ga_target g = n \<and> forwards (ga_client g) \<and> (\<forall>x b. pulls g x = Some b \<longrightarrow> fmlookup bufs x = Some b)"
proof -
  obtain t where n: "map_of (plan_log_targets pl) n = Some t"
    using assms by (cases "map_of (plan_log_targets pl) n") (simp_all add: gatherer_ok_def)
  with assms have t: "ga_target g = n" "forwards (ga_client g)"
    "\<forall>x. pulls g x = (if logs_to x (rev (lt_services t)) then fmlookup bufs x else None)"
    by (simp_all add: gatherer_ok_def)
  have "pulls g x = Some b \<Longrightarrow> fmlookup bufs x = Some b" for x b
    using t(3) [rule_format, of x] by (simp split: if_splits)
  with t(1,2) show ?thesis by blast
qed

text \<open>The gatherers while the manager goes through the targets.\<close>

definition old_ok :: "(string, nat) fmap \<Rightarrow> (string, gatherer) fmap \<Rightarrow> bool" where
  "old_ok bufs olds \<longleftrightarrow> (\<forall>n g. fmlookup olds n = Some g \<longrightarrow>
     ga_target g = n \<and> forwards (ga_client g) \<and> (\<forall>x b. pulls g x = Some b \<longrightarrow> fmlookup bufs x = Some b))"

definition new_ok :: "plan \<Rightarrow> (string, nat) fmap \<Rightarrow> (string, gatherer) fmap \<Rightarrow> bool" where
  "new_ok pl bufs news \<longleftrightarrow> (\<forall>n g. fmlookup news n = Some g \<longrightarrow> ga_target g = n \<and> forwards (ga_client g) \<and>
     (\<exists>t. map_of (plan_log_targets pl) n = Some t \<and> follows pl bufs t g))"

definition makes_forwarders :: "client_maker \<Rightarrow> bool" where
  "makes_forwarders mk \<longleftrightarrow> (\<forall>t c. mk t = Inr c \<longrightarrow> forwards c)"

text \<open>The client that serves a target: that of the gatherer there is, or else a new one.\<close>

definition client_for :: "client_maker \<Rightarrow> (string, gatherer) fmap \<Rightarrow> log_target \<Rightarrow> string \<Rightarrow> any_client option" where
  "client_for mk olds t n =
     (case fmlookup olds n of
        Some g \<Rightarrow> Some (ga_client g)
      | None \<Rightarrow> (case mk t of Inl _ \<Rightarrow> None | Inr c \<Rightarrow> Some c))"

lemma plan_target_ok:
  assumes "plan_target mk pl bufs t (h, olds, news) = (h', olds', news')" "old_ok bufs olds" "new_ok pl bufs news"
    "plan_named pl" "map_of (plan_log_targets pl) (lt_name t) = Some t" "makes_forwarders mk"
  shows "old_ok bufs olds' \<and> new_ok pl bufs news' \<and>
    (\<forall>n. fmlookup olds' n = (if n = lt_name t then None else fmlookup olds n)) \<and>
    (\<forall>n. n \<noteq> lt_name t \<longrightarrow> fmlookup news' n = fmlookup news n) \<and>
    (fmlookup news (lt_name t) = None \<longrightarrow>
     map_option ga_client (fmlookup news' (lt_name t)) =
       client_for mk olds t (lt_name t))"
proof -
  have place: "old_ok bufs olds1 \<Longrightarrow> ga_target g = lt_name t \<Longrightarrow> forwards (ga_client g) \<Longrightarrow>
      (\<forall>x b. pulls g x = Some b \<longrightarrow> fmlookup bufs x = Some b) \<Longrightarrow> gatherer_PlanChanged pl bufs t (h, g) = (h1, g1) \<Longrightarrow>
      new_ok pl bufs (fmupd (lt_name t) g1 news) \<and> ga_client g1 = ga_client g" for g olds1 h1 g1
    using gatherer_PlanChanged_ok [of pl bufs t h g h1 g1] assms(3,4,5) by (auto simp: new_ok_def plan_named_def)
  show ?thesis
  proof (cases "fmlookup olds (lt_name t)")
    case (Some g)
    obtain h1 g1 where p: "gatherer_PlanChanged pl bufs t (h, g) = (h1, g1)" by fastforce
    have o: "old_ok bufs (fmdrop (lt_name t) olds)" using assms(2) by (auto simp: old_ok_def)
    have "ga_target g = lt_name t" "forwards (ga_client g)" "\<forall>x b. pulls g x = Some b \<longrightarrow> fmlookup bufs x = Some b"
      using assms(2) Some by (auto simp: old_ok_def)
    from place [OF o this p] o p Some assms(1) show ?thesis by (auto simp: plan_target_def client_for_def)
  next
    case None
    show ?thesis
    proof (cases "mk t")
      case (Inl e)
      with None assms(1,2,3) show ?thesis by (auto simp: plan_target_def newLogGatherer_def client_for_def)
    next
      case (Inr c)
      let ?g = "\<lparr>ga_target = lt_name t, ga_client = c, ga_pullers = fmempty, ga_labels = fmempty\<rparr>"
      obtain h1 g1 where p: "gatherer_PlanChanged pl bufs t (h, ?g) = (h1, g1)" by fastforce
      from place [OF assms(2) _ _ _ p] assms(6) Inr p None Inr assms(1,2) show ?thesis
        by (auto simp: plan_target_def newLogGatherer_def pulls_def makes_forwarders_def client_for_def)
    qed
  qed
qed

lemma plan_targets_ok:
  assumes "fold (plan_target mk pl bufs) (map snd ts) (h, olds, news) = (h', olds', news')" "old_ok bufs olds" "new_ok pl bufs news"
    "plan_named pl" "named lt_name ts" "set ts \<subseteq> set (plan_log_targets pl)" "makes_forwarders mk"
    "\<forall>n\<in>fst ` set ts. fmlookup news n = None"
  shows "new_ok pl bufs news' \<and>
    (\<forall>n. map_option ga_client (fmlookup news' n) =
      (case map_of ts n of
         None \<Rightarrow> map_option ga_client (fmlookup news n)
       | Some t \<Rightarrow> client_for mk olds t n))"
  using assms(1,2,3,5,6,8)
proof (induction ts arbitrary: h olds news)
  case (Cons nt ts)
  obtain n t where nt: "nt = (n, t)" by fastforce
  have n: "lt_name t = n" "map_of ts n = None" "named lt_name ts" "n \<notin> fst ` set ts"
    using Cons.prems(4) nt by (simp_all add: named_Cons map_of_eq_None_iff)
  have t: "map_of (plan_log_targets pl) (lt_name t) = Some t"
    using named_lookup [of lt_name "plan_log_targets pl" n t] assms(4) Cons.prems(5) nt n(1) by (auto simp: plan_named_def)
  obtain h1 olds1 news1 where r: "plan_target mk pl bufs t (h, olds, news) = (h1, olds1, news1)" by (metis prod_cases3)
  with Cons.prems(1) nt have f: "fold (plan_target mk pl bufs) (map snd ts) (h1, olds1, news1) = (h', olds', news')" by simp
  note one = plan_target_ok [OF r Cons.prems(2,3) assms(4) t assms(7)]
  have "fmlookup news1 k = None" if k: "k \<in> fst ` set ts" for k
  proof -
    from k n(1,4) have "k \<noteq> lt_name t" by blast
    with one have "fmlookup news1 k = fmlookup news k" by blast
    moreover have "k \<in> fst ` set (nt # ts)" using k by simp
    ultimately show ?thesis using Cons.prems(6) by metis
  qed
  then have "old_ok bufs olds1" "new_ok pl bufs news1" "set ts \<subseteq> set (plan_log_targets pl)" "\<forall>n\<in>fst ` set ts. fmlookup news1 n = None"
    using one Cons.prems(5) by simp_all
  note ih = Cons.IH [OF f this(1,2) n(3) this(3,4)]
  have "map_option ga_client (fmlookup news' k) =
      (case map_of (nt # ts) k of
         None \<Rightarrow> map_option ga_client (fmlookup news k)
       | Some t \<Rightarrow> client_for mk olds t k)" for k
  proof (cases "k = n")
    case True
    have "fmlookup news n = None" using Cons.prems(6) nt by simp
    with one [THEN conjunct2, THEN conjunct2, THEN conjunct2, THEN conjunct2] n(1) have "map_option ga_client (fmlookup news1 n) =
       client_for mk olds t n" by simp
    with ih True n(2) nt show ?thesis by simp
  next
    case False
    have "fmlookup olds1 k = fmlookup olds k" using one [THEN conjunct2, THEN conjunct2, THEN conjunct1] n(1) False by simp
    moreover have "fmlookup news1 k = fmlookup news k"
      using one [THEN conjunct2, THEN conjunct2, THEN conjunct2, THEN conjunct1] n(1) False by simp
    ultimately show ?thesis using ih False n(1) nt by (cases "map_of ts k") (simp_all add: client_for_def)
  qed
  with ih show ?case by blast
qed simp

text \<open>
  A gatherer that stays keeps its client; a new target has the client that was made for it, or no gatherer when none could be made.
\<close>

lemma log_PlanChanged_ok:
  assumes "manager_ok m" "plan_named pl" "makes_forwarders mk"
  shows "manager_ok (log_PlanChanged mk pl m) \<and>
    (\<forall>n. map_option ga_client (fmlookup (lm_gatherers (log_PlanChanged mk pl m)) n) =
      (case map_of (plan_log_targets pl) n of
         None \<Rightarrow> None
       | Some t \<Rightarrow> client_for mk (lm_gatherers m) t n))"
proof -
  let ?m = "log_PlanChanged mk pl m"
  obtain h olds news where f: "fold (plan_target mk pl (lm_buffers m)) (map snd (plan_log_targets pl)) (lm_heap m, lm_gatherers m, fmempty) = (h, olds, news)"
    by (metis prod_cases3)
  have o: "old_ok (lm_buffers m) (lm_gatherers m)"
  proof (cases "lm_plan m")
    case (Some p)
    with assms(1) have "gatherer_ok p (lm_buffers m) n g" if "fmlookup (lm_gatherers m) n = Some g" for n g
      using that by (simp add: manager_ok_def)
    then show ?thesis unfolding old_ok_def using gatherer_ok_old by blast
  qed (use assms(1) in \<open>simp add: manager_ok_def old_ok_def\<close>)
  have nw: "new_ok pl (lm_buffers m) fmempty" by (simp add: new_ok_def)
  have named: "named svc_name (plan_services pl)" "named lt_name (plan_log_targets pl)" using assms(2) by (simp_all add: plan_named_def)
  note r = plan_targets_ok [OF f o nw assms(2) named(2) subset_refl assms(3), simplified]
  have m: "lm_gatherers ?m = news" "lm_plan ?m = Some pl"
    "lm_buffers ?m = fmfilter (\<lambda>svc. map_of (plan_services pl) svc \<noteq> None) (lm_buffers m)"
    by (simp_all add: log_PlanChanged_def f)
  have "gatherer_ok pl (lm_buffers ?m) n g" if l: "fmlookup news n = Some g" for n g
  proof -
    from r l obtain t where t: "ga_target g = n" "forwards (ga_client g)" "map_of (plan_log_targets pl) n = Some t" "follows pl (lm_buffers m) t g"
      unfolding new_ok_def by blast
    have "pulls g x = (if logs_to x (rev (lt_services t)) then fmlookup (lm_buffers ?m) x else None)" for x
      using t(4) LogsTo_named [OF named(1), of x _ t] by (auto simp: follows_def still_logs_def m split: option.splits)
    with t show ?thesis by (simp add: gatherer_ok_def follows_def)
  qed
  then have "manager_ok ?m" by (simp add: manager_ok_def m)
  with r show ?thesis by (simp add: m cong: option.case_cong)
qed

definition told :: "plan \<Rightarrow> service \<Rightarrow> nat \<Rightarrow> gatherer \<Rightarrow> gatherer \<Rightarrow> bool" where
  "told pl s b g' g \<longleftrightarrow> same_target g' g \<and> ga_labels g' = ga_labels g \<and>
     pulls g' = (case map_of (plan_log_targets pl) (ga_target g) of
        None \<Rightarrow> pulls g
      | Some t \<Rightarrow> if LogsTo s t then (pulls g)(svc_name s := Some b) else pulls g)"

lemma tell_gatherers_ok:
  assumes "fold (tell_gatherer (Some pl) s b) ns (h, gs) = (h', gs')" "distinct ns"
  shows "\<forall>n. (n \<notin> set ns \<longrightarrow> fmlookup gs' n = fmlookup gs n) \<and>
    (n \<in> set ns \<longrightarrow> rel_option (told pl s b) (fmlookup gs' n) (fmlookup gs n))"
  using assms
proof (induction ns arbitrary: h gs)
  case (Cons n ns)
  obtain h1 gs1 where r: "tell_gatherer (Some pl) s b n (h, gs) = (h1, gs1)" by fastforce
  with Cons.prems have "fold (tell_gatherer (Some pl) s b) ns (h1, gs1) = (h', gs')" "distinct ns" "n \<notin> set ns" by simp_all
  note ih = Cons.IH [OF this(1,2)] and n = this(3)
  have one: "k \<noteq> n \<Longrightarrow> fmlookup gs1 k = fmlookup gs k" for k
    using r by (cases "gatherer_ServiceStarted s b (h, the (fmlookup gs n))") (auto simp: tell_gatherer_def split: option.splits if_splits)
  have "rel_option (told pl s b) (fmlookup gs1 n) (fmlookup gs n)"
  proof (cases "fmlookup gs n")
    case (Some g)
    obtain h2 g2 where a: "group_Add (svc_name s) b (h, g) = (h2, g2)" by fastforce
    from group_Add_ok [OF a] a Some r show ?thesis
      by (auto simp: tell_gatherer_def gatherer_ServiceStarted_def told_def split: option.splits if_splits)
  qed (use r in \<open>auto simp: tell_gatherer_def\<close>)
  show ?case
  proof (rule allI)
    fix k
    show "(k \<notin> set (n # ns) \<longrightarrow> fmlookup gs' k = fmlookup gs k) \<and>
        (k \<in> set (n # ns) \<longrightarrow> rel_option (told pl s b) (fmlookup gs' k) (fmlookup gs k))"
      using spec [OF ih, of k] one [of k] n \<open>rel_option (told pl s b) (fmlookup gs1 n) (fmlookup gs n)\<close>
      by (cases "k = n") simp_all
  qed
qed simp

lemma distinct_fset_list: "distinct (sorted_list_of_fset A)"
  by (simp add: sorted_list_of_fset.rep_eq)

lemma gatherer_ok_told:
  assumes "gatherer_ok pl bufs n g" "told pl s b g' g"
  shows "gatherer_ok pl (fmupd (svc_name s) b bufs) n g'"
proof -
  obtain t where t: "map_of (plan_log_targets pl) n = Some t"
    using assms(1) by (cases "map_of (plan_log_targets pl) n") (simp_all add: gatherer_ok_def)
  with assms show ?thesis by (simp add: gatherer_ok_def told_def LogsTo_def)
qed

lemma ServiceStarted_ok:
  assumes "manager_ok m"
  shows "manager_ok (log_ServiceStarted s b m)"
proof (cases "fmlookup (lm_buffers m) (svc_name s) = Some b")
  case False
  let ?ns = "sorted_list_of_fset (fmdom (lm_gatherers m))"
  obtain h gs where f: "fold (tell_gatherer (lm_plan m) s b) ?ns (lm_heap m, lm_gatherers m) = (h, gs)" by fastforce
  from False f have m: "log_ServiceStarted s b m = m\<lparr>lm_heap := h, lm_gatherers := gs, lm_buffers := fmupd (svc_name s) b (lm_buffers m)\<rparr>"
    by (simp add: log_ServiceStarted_def)
  show ?thesis
  proof (cases "lm_plan m")
    case None
    with assms have e: "lm_gatherers m = fmempty" by (simp add: manager_ok_def)
    with f have "gs = fmempty" by (simp add: sorted_list_of_fset_def)
    with None show ?thesis by (simp add: m manager_ok_def)
  next
    case (Some pl)
    have "gatherer_ok pl (fmupd (svc_name s) b (lm_buffers m)) n g'" if l: "fmlookup gs n = Some g'" for n g'
    proof -
      note t = tell_gatherers_ok [OF f [unfolded Some] distinct_fset_list, rule_format, of n]
      have "n \<in> set ?ns" using t l by (cases "n \<in> set ?ns") (auto simp: fmlookup_dom_iff)
      with t l obtain g where g: "fmlookup (lm_gatherers m) n = Some g" "told pl s b g' g"
        by (auto simp: option_rel_Some1)
      with assms Some have "gatherer_ok pl (lm_buffers m) n g" by (auto simp: manager_ok_def)
      with g(2) show ?thesis by (rule gatherer_ok_told [rotated])
    qed
    with Some show ?thesis by (simp add: m manager_ok_def)
  qed
qed (use assms in \<open>simp add: log_ServiceStarted_def\<close>)

subsection \<open>Reachable managers\<close>

inductive log_reach :: "(string \<Rightarrow> (string \<times> string) option) \<Rightarrow> string option \<Rightarrow> log_manager \<Rightarrow> bool" for url host where
  new_manager: "log_reach url host (NewLogManager h)"
| plan_changed: "log_reach url host m \<Longrightarrow> plan_named pl \<Longrightarrow> log_reach url host (log_PlanChanged (newLogClient url host) pl m)"
| service_started: "log_reach url host m \<Longrightarrow> log_reach url host (log_ServiceStarted s b m)"

lemma log_reach_ok: "log_reach url host m \<Longrightarrow> manager_ok m"
proof (induction rule: log_reach.induct)
  case (new_manager h)
  show ?case by (simp add: NewLogManager_def manager_ok_def)
next
  case (plan_changed m pl)
  have "makes_forwarders (newLogClient url host)" using newLogClient_forwards unfolding makes_forwarders_def by blast
  with log_PlanChanged_ok plan_changed show ?case by blast
next
  case (service_started m s b)
  with ServiceStarted_ok show ?case by blast
qed

subsection \<open>Changes of the plan\<close>

text \<open>
  A target that is still in the plan keeps the client it had, also when its type or location is another one now.
\<close>

lemma changed_target_keeps_client:
  assumes "manager_ok m" "plan_named pl" "makes_forwarders mk" "map_of (plan_log_targets pl) n = Some t"
    "fmlookup (lm_gatherers m) n = Some g"
  shows "map_option ga_client (fmlookup (lm_gatherers (log_PlanChanged mk pl m)) n) = Some (ga_client g)"
  using log_PlanChanged_ok [OF assms(1-3)] assms(4,5) by (simp add: client_for_def)

text \<open>A puller that is added reads what its buffer holds from the oldest byte on, also when it takes the place of another.\<close>

lemma group_Add_reads_all:
  assumes "group_Add svc b (h, g) = (h', g')"
  shows "fmlookup (lb_iters (lh_buffer h' b)) (lh_fresh h) =
    Some (new_iterator (readIndex (lb_ring (lh_buffer h' b))) (writeClosed (lb_ring (lh_buffer h' b))))"
proof -
  obtain h1 g1 where r: "group_remove svc (h, g) = (h1, g1)" by fastforce
  from group_remove_ok [OF r] assms r show ?thesis by (auto simp: group_Add_def TailIterator_def)
qed

subsection \<open>An example\<close>

definition demo_target :: log_target where
  "demo_target = \<lparr>lt_name = ''loki'', lt_type = ''loki'', lt_location = ''http://logs'', lt_services = [''all''], lt_override = ''merge'', lt_labels = fmempty\<rparr>"

definition demo_plan :: plan where
  "demo_plan = NewPlan\<lparr>plan_services := [(''web'', blank_service ''web'' ''merge'')], plan_log_targets := [(''loki'', demo_target)]\<rparr>"

abbreviation demo_manager :: log_manager where
  "demo_manager \<equiv>
     log_PlanChanged (newLogClient (\<lambda>_. None) None) demo_plan
       (log_ServiceStarted (blank_service ''web'' ''merge'') 7
         (NewLogManager \<lparr>lh_buffer = \<lambda>_. \<lparr>lb_ring = NewRingBuffer 100, lb_iters = fmempty, lb_list = []\<rparr>, lh_fresh = 0\<rparr>))"

abbreviation demo_gatherer :: gatherer where
  "demo_gatherer \<equiv>
     \<lparr>ga_target = ''loki'', ga_client = LokiClient (loki_NewClient 0), ga_pullers = fmupd ''web'' \<lparr>pu_buffer = 7, pu_iter = 0\<rparr> fmempty,
      ga_labels = fmupd ''web'' fmempty fmempty\<rparr>"

lemma sorted_list_of_fempty [simp]: "sorted_list_of_fset {||} = []" by (simp add: sorted_list_of_fset.rep_eq)

lemma demo_plan_named: "plan_named demo_plan" by (simp add: plan_named_def named_def demo_plan_def demo_target_def blank_service_def NewPlan_def)

lemma demo_manager_gatherer: "fmlookup (lm_gatherers demo_manager) ''loki'' = Some demo_gatherer"
  by (simp add: demo_plan_def demo_target_def log_PlanChanged_def log_ServiceStarted_def NewLogManager_def NewPlan_def plan_target_def
    newLogGatherer_def newLogClient_def gatherer_PlanChanged_def group_Services_def add_puller_def send_labels_def group_Add_def group_remove_def
    LogsTo_def blank_service_def evaluateLabels_def)

subsection \<open>Forwarding\<close>



end
