(* ===== verification/Engine.thy ===== *)
theory Engine
  imports Prelude
begin

text \<open>
  The state engine (\<open>internals/overlord/stateengine.go\<close>), which runs the managers of the daemon, and the patches of the
  saved state (\<open>internals/overlord/patch\<close>).  What a manager does is a function on the world \<open>'w\<close> that the managers share.
\<close>

subsection \<open>The engine\<close>

text \<open>The optional interfaces of a manager are \<open>None\<close> where it does not implement them.\<close>

record 'w manager =
  mg_Ensure :: "'w \<Rightarrow> err option \<times> 'w"
  mg_StartUp :: "('w \<Rightarrow> err option \<times> 'w) option"
  mg_Wait :: "('w \<Rightarrow> 'w) option"
  mg_Stop :: "('w \<Rightarrow> 'w) option"

record 'w engine =
  se_managers :: "'w manager list"
  se_startedUp :: bool
  se_stopped :: bool

definition NewStateEngine :: "'w engine" where
  "NewStateEngine = \<lparr>se_managers = [], se_startedUp = False, se_stopped = False\<rparr>"

definition AddManager :: "'w manager \<Rightarrow> 'w engine \<Rightarrow> 'w engine" where
  "AddManager m se = se\<lparr>se_managers := se_managers se @ [m]\<rparr>"

datatype engine_error = StartupErrors "err list" | EnsureErrors "err list" | EngineError string

text \<open>Calls in order, with the errors they give; a failure does not stop the others.\<close>

fun call_all :: "('w \<Rightarrow> err option \<times> 'w) list \<Rightarrow> 'w \<Rightarrow> err list \<times> 'w" where
  "call_all [] w = ([], w)"
| "call_all (f # fs) w =
     (case f w of (e, w) \<Rightarrow> case call_all fs w of (es, w) \<Rightarrow> ((case e of None \<Rightarrow> es | Some e \<Rightarrow> e # es), w))"

definition present :: "'a option list \<Rightarrow> 'a list" where
  "present xs = map the (filter (\<lambda>x. x \<noteq> None) xs)"

definition engine_StartUp :: "'w engine \<Rightarrow> 'w \<Rightarrow> engine_error option \<times> 'w engine \<times> 'w" where
  "engine_StartUp se w =
     (if se_startedUp se then (None, se, w)
      else case call_all (present (map mg_StartUp (se_managers se))) w of (errs, w) \<Rightarrow>
        (if errs = [] then None else Some (StartupErrors errs), se\<lparr>se_startedUp := True\<rparr>, w))"

definition engine_Ensure :: "'w engine \<Rightarrow> 'w \<Rightarrow> engine_error option \<times> 'w" where
  "engine_Ensure se w =
     (if \<not> se_startedUp se then (Some (EngineError ''state engine skipped startup''), w)
      else if se_stopped se then (Some (EngineError ''state engine already stopped''), w)
      else case call_all (map mg_Ensure (se_managers se)) w of (errs, w) \<Rightarrow>
        (if errs = [] then None else Some (EnsureErrors errs), w))"

definition engine_Wait :: "'w engine \<Rightarrow> 'w \<Rightarrow> 'w" where
  "engine_Wait se w = (if se_stopped se then w else fold (\<lambda>f. f) (present (map mg_Wait (se_managers se))) w)"

definition engine_Stop :: "'w engine \<Rightarrow> 'w \<Rightarrow> 'w engine \<times> 'w" where
  "engine_Stop se w =
     (if se_stopped se then (se, w)
      else (se\<lparr>se_stopped := True\<rparr>, fold (\<lambda>f. f) (present (map mg_Stop (rev (se_managers se)))) w))"

subsection \<open>The life of an engine\<close>

datatype engine_call = CallStartUp | CallEnsure | CallWait | CallStop

fun do_call :: "engine_call \<Rightarrow> 'w engine \<times> 'w \<Rightarrow> 'w engine \<times> 'w" where
  "do_call CallStartUp (se, w) = snd (engine_StartUp se w)"
| "do_call CallEnsure (se, w) = (se, snd (engine_Ensure se w))"
| "do_call CallWait (se, w) = (se, engine_Wait se w)"
| "do_call CallStop (se, w) = engine_Stop se w"

text \<open>Managers that record their calls, each with any failures of its own.\<close>

datatype engine_event = StartedUp nat | Ensured nat | Waited nat | Stopped nat

definition tracer :: "(nat \<Rightarrow> engine_event list \<Rightarrow> err option) \<Rightarrow> nat \<Rightarrow> engine_event list manager" where
  "tracer fails k =
     \<lparr>mg_Ensure = (\<lambda>w. (fails k w, w @ [Ensured k])), mg_StartUp = Some (\<lambda>w. (fails k w, w @ [StartedUp k])),
      mg_Wait = Some (\<lambda>w. w @ [Waited k]), mg_Stop = Some (\<lambda>w. w @ [Stopped k])\<rparr>"

definition traced_engine :: "(nat \<Rightarrow> engine_event list \<Rightarrow> err option) \<Rightarrow> nat \<Rightarrow> engine_event list engine" where
  "traced_engine fails n = fold AddManager (map (tracer fails) [0..<n]) NewStateEngine"

definition engine_trace :: "(nat \<Rightarrow> engine_event list \<Rightarrow> err option) \<Rightarrow> nat \<Rightarrow> engine_call list \<Rightarrow> engine_event list" where
  "engine_trace fails n calls = snd (fold do_call calls (traced_engine fails n, []))"

lemma AddManagers: "fold AddManager ms se = se\<lparr>se_managers := se_managers se @ ms\<rparr>"
  by (induction ms arbitrary: se) (simp_all add: AddManager_def)

lemma present_Some [simp]: "present (map (\<lambda>x. Some (f x)) xs) = map f xs"
  by (induction xs) (simp_all add: present_def)

lemma call_all_trace: "snd (call_all (map (\<lambda>k w. (fails k w, w @ [ev k])) ks) w) = w @ map ev ks"
  by (induction ks arbitrary: w) (simp_all add: case_prod_unfold)

lemma fold_trace: "fold (\<lambda>f. f) (map (\<lambda>k w. w @ [ev k]) ks) w = w @ map ev ks"
  by (induction ks arbitrary: w) simp_all

definition tracing :: "(nat \<Rightarrow> engine_event list \<Rightarrow> err option) \<Rightarrow> nat \<Rightarrow> engine_event list engine \<Rightarrow> bool" where
  "tracing fails n se \<longleftrightarrow> se_managers se = map (tracer fails) [0..<n]"

lemma do_call_tracing:
  assumes "tracing fails n se"
  shows "do_call c (se, w) =
    (case c of
       CallStartUp \<Rightarrow> (se\<lparr>se_startedUp := True\<rparr>, if se_startedUp se then w else w @ map StartedUp [0..<n])
     | CallEnsure \<Rightarrow> (se, if se_startedUp se \<and> \<not> se_stopped se then w @ map Ensured [0..<n] else w)
     | CallWait \<Rightarrow> (se, if se_stopped se then w else w @ map Waited [0..<n])
     | CallStop \<Rightarrow> (se\<lparr>se_stopped := True\<rparr>, if se_stopped se then w else w @ map Stopped (rev [0..<n])))"
proof -
  have m: "map mg_StartUp (se_managers se) = map (\<lambda>k. Some (\<lambda>w. (fails k w, w @ [StartedUp k]))) [0..<n]"
    "map mg_Ensure (se_managers se) = map (\<lambda>k w. (fails k w, w @ [Ensured k])) [0..<n]"
    "map mg_Wait (se_managers se) = map (\<lambda>k. Some (\<lambda>w. w @ [Waited k])) [0..<n]"
    "map mg_Stop (rev (se_managers se)) = map (\<lambda>k. Some (\<lambda>w. w @ [Stopped k])) (rev [0..<n])"
    using assms by (simp_all add: tracing_def tracer_def rev_map [symmetric])
  show ?thesis
    using call_all_trace [of fails StartedUp "[0..<n]" w] call_all_trace [of fails Ensured "[0..<n]" w]
    by (cases c) (auto simp: engine_StartUp_def engine_Ensure_def engine_Wait_def engine_Stop_def m fold_trace
        split: prod.splits)
qed

fun is_started :: "engine_event \<Rightarrow> bool" where
  "is_started (StartedUp _) = True" | "is_started _ = False"

fun is_ensured :: "engine_event \<Rightarrow> bool" where
  "is_ensured (Ensured _) = True" | "is_ensured _ = False"

fun is_waited :: "engine_event \<Rightarrow> bool" where
  "is_waited (Waited _) = True" | "is_waited _ = False"

fun is_stopped :: "engine_event \<Rightarrow> bool" where
  "is_stopped (Stopped _) = True" | "is_stopped _ = False"

text \<open>No manager is started up after an Ensure, and none is ensured or waited for after a Stop.\<close>

definition may_precede :: "engine_event \<Rightarrow> engine_event \<Rightarrow> bool" where
  "may_precede x y \<longleftrightarrow> \<not> (is_ensured x \<and> is_started y) \<and> \<not> (is_stopped x \<and> (is_ensured y \<or> is_waited y))"

definition trace_ok :: "nat \<Rightarrow> bool \<Rightarrow> bool \<Rightarrow> engine_event list \<Rightarrow> bool" where
  "trace_ok n started stopped w \<longleftrightarrow>
     filter is_started w = (if started then map StartedUp [0..<n] else []) \<and>
     filter is_stopped w = (if stopped then map Stopped (rev [0..<n]) else []) \<and>
     (\<exists>r. filter is_ensured w = concat (replicate r (map Ensured [0..<n]))) \<and>
     (\<not> started \<longrightarrow> filter is_ensured w = []) \<and>
     sorted_wrt may_precede w"

lemma filter_events [simp]:
  "filter is_started (map StartedUp ks) = map StartedUp ks" "filter is_started (map Ensured ks) = []"
  "filter is_started (map Waited ks) = []" "filter is_started (map Stopped ks) = []"
  "filter is_ensured (map StartedUp ks) = []" "filter is_ensured (map Ensured ks) = map Ensured ks"
  "filter is_ensured (map Waited ks) = []" "filter is_ensured (map Stopped ks) = []"
  "filter is_stopped (map StartedUp ks) = []" "filter is_stopped (map Ensured ks) = []"
  "filter is_stopped (map Waited ks) = []" "filter is_stopped (map Stopped ks) = map Stopped ks"
  by (induction ks) simp_all

lemma sorted_round:
  assumes "sorted_wrt may_precede w" "\<forall>x\<in>set w. \<forall>y\<in>set es. may_precede x y" "sorted_wrt may_precede es"
  shows "sorted_wrt may_precede (w @ es)"
  using assms by (simp add: sorted_wrt_append)

lemma sorted_rounds [simp]:
  "sorted_wrt may_precede (map StartedUp ks)" "sorted_wrt may_precede (map Ensured ks)"
  "sorted_wrt may_precede (map Waited ks)" "sorted_wrt may_precede (map Stopped ks)"
  by (induction ks) (auto simp: may_precede_def)

lemma do_call_ok:
  assumes "tracing fails n se" "trace_ok n (se_startedUp se) (se_stopped se) w" "do_call c (se, w) = (se', w')"
  shows "tracing fails n se' \<and> trace_ok n (se_startedUp se') (se_stopped se') w'"
proof -
  note call = do_call_tracing [OF assms(1), of c w, unfolded assms(3)] and t = assms(2) [unfolded trace_ok_def]
  have none: "\<forall>x\<in>set w. \<not> P x" if "filter P w = []" for P using that by (simp add: filter_empty_conv)
  obtain r where r: "filter is_ensured w = concat (replicate r (map Ensured [0..<n]))" using t by blast
  have round: "filter is_ensured (w @ map Ensured [0..<n]) = concat (replicate (Suc r) (map Ensured [0..<n]))"
    using r by (simp flip: replicate_append_same)
  have more_rounds: "\<exists>r'. map Ensured [0..<n] @ concat (replicate k (map Ensured [0..<n])) = concat (replicate r' (map Ensured [0..<n]))" for k
    by (rule exI [of _ "Suc k"]) simp
  show ?thesis
  proof (cases c)
    case CallStartUp
    have "sorted_wrt may_precede (w @ map StartedUp [0..<n])" if "\<not> se_startedUp se"
      using that t none [of is_ensured] by (auto intro!: sorted_round simp: may_precede_def)
    with CallStartUp call assms(1) t r show ?thesis by (auto simp: tracing_def trace_ok_def split: if_splits)
  next
    case CallEnsure
    have "sorted_wrt may_precede (w @ map Ensured [0..<n])" if "\<not> se_stopped se"
      using that t none [of is_stopped] by (auto intro!: sorted_round simp: may_precede_def)
    with CallEnsure call assms(1) t r round show ?thesis by (auto simp: tracing_def trace_ok_def more_rounds split: if_splits)
  next
    case CallWait
    have "sorted_wrt may_precede (w @ map Waited [0..<n])" if "\<not> se_stopped se"
      using that t none [of is_stopped] by (auto intro!: sorted_round simp: may_precede_def)
    with CallWait call assms(1) t r show ?thesis by (auto simp: tracing_def trace_ok_def split: if_splits)
  next
    case CallStop
    have "sorted_wrt may_precede (w @ map Stopped (rev [0..<n]))"
      using t by (auto intro!: sorted_round simp: may_precede_def)
    with CallStop call assms(1) t r show ?thesis by (auto simp: tracing_def trace_ok_def split: if_splits)
  qed
qed

lemma do_calls_ok:
  assumes "tracing fails n se" "trace_ok n (se_startedUp se) (se_stopped se) w" "fold do_call cs (se, w) = (se', w')"
  shows "trace_ok n (se_startedUp se') (se_stopped se') w'"
  using assms
proof (induction cs arbitrary: se w)
  case (Cons c cs)
  obtain se1 w1 where c: "do_call c (se, w) = (se1, w1)" by fastforce
  from do_call_ok [OF Cons.prems(1,2) c] Cons.IH [of se1 w1] Cons.prems(3) c show ?case by simp
qed simp


end
