(* ===== verification/Patch.thy ===== *)
theory Patch
  imports StateCore
begin

text \<open>
  The patches that bring a saved state to the level of the program (\<open>internals/overlord/patch\<close>).  The keys \<open>patch-level\<close> and
  \<open>patch-sublevel\<close> of the state stand apart from the rest, which is what patches change; a patch that fails may have changed it.
\<close>

type_synonym 's patch = "'s \<Rightarrow> err option \<times> 's"

record 's patched =
  ps_level :: "nat option"
  ps_sublevel :: "nat option"
  ps_rest :: 's

text \<open>The level and sublevel of the program, and its patches; a level without patches has none in the table.\<close>

record 's patch_table =
  pt_Level :: nat
  pt_Sublevel :: nat
  pt_patches :: "nat \<Rightarrow> 's patch list"

definition level_of :: "'s patched \<Rightarrow> nat" where
  "level_of s = (case ps_level s of None \<Rightarrow> 0 | Some l \<Rightarrow> l)"

definition sublevel_of :: "'s patched \<Rightarrow> nat" where
  "sublevel_of s = (case ps_sublevel s of None \<Rightarrow> 0 | Some l \<Rightarrow> l)"

text \<open>\<open>None\<close> is the panic on a state that has levels already.\<close>

definition patch_Init :: "'s patch_table \<Rightarrow> 's patched \<Rightarrow> 's patched option" where
  "patch_Init t s =
     (if ps_level s \<noteq> None \<or> ps_sublevel s \<noteq> None then None
      else Some (s\<lparr>ps_level := Some (pt_Level t), ps_sublevel := Some (pt_Sublevel t)\<rparr>))"

definition applyOne :: "'s patch \<Rightarrow> nat \<Rightarrow> nat \<Rightarrow> 's patched \<Rightarrow> err option \<times> 's patched" where
  "applyOne p newLevel newSublevel s =
     (case p (ps_rest s) of
        (Some e, r) \<Rightarrow> (Some e, s\<lparr>ps_rest := r\<rparr>)
      | (None, r) \<Rightarrow> (None, \<lparr>ps_level = Some newLevel, ps_sublevel = Some newSublevel, ps_rest = r\<rparr>))"

fun apply_sublevels :: "'s patch_table \<Rightarrow> nat \<Rightarrow> nat list \<Rightarrow> 's patched \<Rightarrow> err option \<times> 's patched" where
  "apply_sublevels t level [] s = (None, s)"
| "apply_sublevels t level (k # ks) s =
     (case applyOne (pt_patches t level ! k) level k s of
        (Some e, s) \<Rightarrow> (Some (''cannot patch system state to level %d, sublevel %d: %v'', itoa level # itoa k # fst e # snd e), s)
      | (None, s) \<Rightarrow> apply_sublevels t level ks s)"

definition applySublevelPatches :: "'s patch_table \<Rightarrow> nat \<Rightarrow> nat \<Rightarrow> 's patched \<Rightarrow> err option \<times> 's patched" where
  "applySublevelPatches t level firstSublevel s = apply_sublevels t level [firstSublevel..<length (pt_patches t level)] s"

fun apply_levels :: "'s patch_table \<Rightarrow> nat list \<Rightarrow> 's patched \<Rightarrow> err option \<times> 's patched" where
  "apply_levels t [] s = (None, s)"
| "apply_levels t (level # levels) s =
     (if pt_patches t level = []
      then (Some (''cannot upgrade: software version is too new for the current system state (patch level %d)'', [itoa (level - 1)]), s)
      else case applySublevelPatches t level 0 s of
          (Some e, s) \<Rightarrow> (Some e, s)
        | (None, s) \<Rightarrow> apply_levels t levels s)"

definition patch_Apply :: "'s patch_table \<Rightarrow> 's patched \<Rightarrow> err option \<times> 's patched" where
  "patch_Apply t s =
     (let stateLevel = level_of s; stateSublevel = sublevel_of s in
      if pt_Level t < stateLevel
      then (Some (''cannot downgrade: software version is too old for the current system state (patch level %d)'', [itoa stateLevel]), s)
      else if stateLevel = pt_Level t \<and> stateSublevel = pt_Sublevel t then (None, s)
      else if stateLevel = pt_Level t \<and> pt_Sublevel t < stateSublevel then (None, s\<lparr>ps_sublevel := Some (pt_Sublevel t)\<rparr>)
      else
        (case (if stateSublevel + 1 < length (pt_patches t stateLevel)
               then applySublevelPatches t stateLevel (stateSublevel + 1) s else (None, s)) of
           (Some e, s) \<Rightarrow> (Some e, s)
         | (None, s) \<Rightarrow> apply_levels t [stateLevel + 1..<pt_Level t + 1] s))"

subsection \<open>The patches of the program\<close>

text \<open>The rest of the state: its data, and the identities where older versions kept them.\<close>

record saved_rest =
  sr_data :: custom_data
  sr_legacy :: "json option"

definition patch1 :: "saved_rest patch" where
  "patch1 s =
     (None, if data_get (sr_data s) ''something-in-test'' = Some (JStr ''old'')
            then s\<lparr>sr_data := data_set ''something-in-test'' (Some (JStr ''new'')) (sr_data s)\<rparr> else s)"

text \<open>With the identities as they are read from JSON and written again, which may fail.\<close>

definition patch2 :: "(json \<Rightarrow> err + json) \<Rightarrow> saved_rest patch" where
  "patch2 reread s =
     (case sr_legacy s of
        None \<Rightarrow> (None, s)
      | Some legacy \<Rightarrow>
          if data_has (sr_data s) ''identities'' then (None, s)
          else (case reread legacy of
              Inl e \<Rightarrow> (Some (''cannot unmarshal legacy identities: %v'', fst e # snd e), s)
            | Inr ids \<Rightarrow> (None, s\<lparr>sr_data := data_set ''identities'' (Some ids) (sr_data s)\<rparr>)))"

definition program_patches :: "(json \<Rightarrow> err + json) \<Rightarrow> saved_rest patch_table" where
  "program_patches reread =
     \<lparr>pt_Level = 2, pt_Sublevel = 0, pt_patches = (\<lambda>l. if l = 1 then [patch1] else if l = 2 then [patch2 reread] else [])\<rparr>"

subsection \<open>What is still to be done\<close>

definition table_ok :: "'s patch_table \<Rightarrow> bool" where
  "table_ok t \<longleftrightarrow> (\<forall>l\<in>{1..pt_Level t}. pt_patches t l \<noteq> []) \<and> length (pt_patches t (pt_Level t)) = pt_Sublevel t + 1"

lemma program_patches_ok: "table_ok (program_patches reread)"
proof -
  have "l = 1 \<or> l = 2" if "l \<in> {1..2}" for l :: nat using that by auto
  then show ?thesis by (auto simp: table_ok_def program_patches_def)
qed

definition later_levels :: "'s patch_table \<Rightarrow> nat \<Rightarrow> (nat \<times> nat) list" where
  "later_levels t l = concat (map (\<lambda>l. map (Pair l) [0..<length (pt_patches t l)]) [l + 1..<pt_Level t + 1])"

definition pending_from :: "'s patch_table \<Rightarrow> nat \<Rightarrow> nat \<Rightarrow> (nat \<times> nat) list" where
  "pending_from t l k = map (Pair l) [k + 1..<length (pt_patches t l)] @ later_levels t l"

text \<open>The patches that a state lacks, in the order they have to be applied.\<close>

definition pending :: "'s patch_table \<Rightarrow> 's patched \<Rightarrow> (nat \<times> nat) list" where
  "pending t s = pending_from t (level_of s) (sublevel_of s)"

fun run_pending :: "'s patch_table \<Rightarrow> (nat \<times> nat) list \<Rightarrow> 's patched \<Rightarrow> bool \<times> 's patched" where
  "run_pending t [] s = (True, s)"
| "run_pending t ((l, k) # ps) s =
     (case applyOne (pt_patches t l ! k) l k s of (Some e, s) \<Rightarrow> (False, s) | (None, s) \<Rightarrow> run_pending t ps s)"

lemma run_pending_append:
  "run_pending t (ps @ qs) s = (case run_pending t ps s of (ok, s) \<Rightarrow> if ok then run_pending t qs s else (False, s))"
  by (induction ps arbitrary: s) (auto split: prod.splits option.splits)

lemma apply_sublevels_pending:
  "map_prod (\<lambda>e. e = None) id (apply_sublevels t l ks s) = run_pending t (map (Pair l) ks) s"
  by (induction ks arbitrary: s) (auto split: prod.splits option.splits)

lemma apply_levels_pending:
  assumes "\<forall>l\<in>set ls. pt_patches t l \<noteq> []"
  shows "map_prod (\<lambda>e. e = None) id (apply_levels t ls s) =
    run_pending t (concat (map (\<lambda>l. map (Pair l) [0..<length (pt_patches t l)]) ls)) s"
  using assms
proof (induction ls arbitrary: s)
  case (Cons l ls)
  obtain e s1 where a: "applySublevelPatches t l 0 s = (e, s1)" by fastforce
  with apply_sublevels_pending [of t l "[0..<length (pt_patches t l)]" s]
  have "run_pending t (map (Pair l) [0..<length (pt_patches t l)]) s = (e = None, s1)" by (simp add: applySublevelPatches_def)
  with a Cons show ?case by (auto simp: run_pending_append split: option.split)
qed simp

lemma pending_from_Level:
  "table_ok t \<Longrightarrow> pt_Sublevel t \<le> k \<Longrightarrow> pending_from t (pt_Level t) k = []"
  by (simp add: pending_from_def later_levels_def table_ok_def)

lemma patch_Apply_pending:
  assumes "table_ok t" "level_of s \<le> pt_Level t" "\<not> (level_of s = pt_Level t \<and> pt_Sublevel t < sublevel_of s)"
  shows "map_prod (\<lambda>e. e = None) id (patch_Apply t s) = run_pending t (pending t s) s"
proof (cases "level_of s = pt_Level t \<and> sublevel_of s = pt_Sublevel t")
  case True
  with assms(1) pending_from_Level [of t "pt_Sublevel t"] show ?thesis by (simp add: patch_Apply_def pending_def Let_def)
next
  case False
  let ?r = "if sublevel_of s + 1 < length (pt_patches t (level_of s))
    then applySublevelPatches t (level_of s) (sublevel_of s + 1) s else (None, s)"
  obtain e s1 where r: "?r = (e, s1)" by fastforce
  with apply_sublevels_pending [of t "level_of s" "[sublevel_of s + 1..<length (pt_patches t (level_of s))]" s]
  have one: "run_pending t (map (Pair (level_of s)) [sublevel_of s + 1..<length (pt_patches t (level_of s))]) s = (e = None, s1)"
    by (auto simp: applySublevelPatches_def split: if_splits)
  have "\<forall>l\<in>set [level_of s + 1..<pt_Level t + 1]. pt_patches t l \<noteq> []" using assms(1) by (auto simp: table_ok_def)
  note two = apply_levels_pending [OF this, of s1]
  have "\<not> pt_Level t < level_of s" using assms(2) by simp
  then have "patch_Apply t s = (if e = None then apply_levels t [level_of s + 1..<pt_Level t + 1] s1 else (e, s1))"
    unfolding patch_Apply_def Let_def if_not_P [OF False] if_not_P [OF assms(3)] r by (cases e) simp_all
  moreover have "run_pending t (pending t s) s = (if e = None then run_pending t (later_levels t (level_of s)) s1 else (False, s1))"
    unfolding pending_def pending_from_def run_pending_append one by simp
  ultimately show ?thesis using two by (simp add: later_levels_def)
qed

text \<open>When a patch has been applied, it is the rest of the patches that is to be done.\<close>

lemma pending_from_later:
  "l < pt_Level t \<Longrightarrow> table_ok t \<Longrightarrow> later_levels t l = (l + 1, 0) # pending_from t (l + 1) 0"
proof -
  assume a: "l < pt_Level t" "table_ok t"
  then have "pt_patches t (l + 1) \<noteq> []" by (simp add: table_ok_def)
  then have "[0..<length (pt_patches t (l + 1))] = 0 # [1..<length (pt_patches t (l + 1))]" by (simp add: upt_rec)
  moreover have "[l + 1..<pt_Level t + 1] = (l + 1) # [l + 2..<pt_Level t + 1]" using a by (simp add: upt_rec)
  ultimately show ?thesis by (simp add: later_levels_def pending_from_def)
qed

lemma pending_from_Cons:
  assumes "table_ok t" "l \<le> pt_Level t" "pending_from t l k = (l', k') # ps"
  shows "l' \<le> pt_Level t \<and> k' < length (pt_patches t l') \<and> pending_from t l' k' = ps"
proof (cases "k + 1 < length (pt_patches t l)")
  case True
  then have "[k + 1..<length (pt_patches t l)] = (k + 1) # [k + 2..<length (pt_patches t l)]" by (simp add: upt_rec)
  with assms True show ?thesis by (auto simp: pending_from_def)
next
  case False
  with assms have "later_levels t l = (l', k') # ps" by (simp add: pending_from_def)
  moreover from this have "l < pt_Level t" by (cases "l < pt_Level t") (simp_all add: later_levels_def)
  ultimately show ?thesis using pending_from_later [OF _ assms(1)] assms(1) by (auto simp: table_ok_def)
qed

lemma pending_from_levels:
  assumes "table_ok t" "l \<le> pt_Level t" "pending_from t l k = []"
  shows "l = pt_Level t \<and> pt_Sublevel t \<le> k"
proof -
  have "\<not> l < pt_Level t"
  proof
    assume "l < pt_Level t"
    from pending_from_later [OF this assms(1)] assms(3) show False by (simp add: pending_from_def)
  qed
  with assms(2) have "l = pt_Level t" using le_less by blast
  with assms show ?thesis by (simp add: pending_from_def table_ok_def split: if_splits)
qed

lemma applyOne_levels:
  "applyOne p l k s = (e, s') \<Longrightarrow>
     (if e = None then level_of s' = l \<and> sublevel_of s' = k else level_of s' = level_of s \<and> sublevel_of s' = sublevel_of s)"
  by (auto simp: applyOne_def level_of_def sublevel_of_def split: prod.splits option.splits)

definition not_newer :: "'s patch_table \<Rightarrow> 's patched \<Rightarrow> bool" where
  "not_newer t s \<longleftrightarrow> level_of s \<le> pt_Level t \<and> (level_of s = pt_Level t \<longrightarrow> sublevel_of s \<le> pt_Sublevel t)"

lemma run_pending_ok:
  assumes "table_ok t" "not_newer t s" "run_pending t (pending t s) s = (ok, s')"
  shows "not_newer t s' \<and> (\<exists>made. pending t s = made @ pending t s') \<and> (ok \<longleftrightarrow> pending t s' = [])"
  using assms(2,3)
proof (induction "pending t s" arbitrary: s)
  case Nil
  then show ?case by simp
next
  case (Cons p ps)
  obtain l k where p: "p = (l, k)" by fastforce
  obtain e s1 where one: "applyOne (pt_patches t l ! k) l k s = (e, s1)" by fastforce
  have c: "pending t s = (l, k) # ps" using Cons.hyps(2) p by simp
  have "level_of s \<le> pt_Level t" using Cons.prems(1) by (simp add: not_newer_def)
  note lk = pending_from_Cons [OF assms(1) this c [unfolded pending_def]]
  show ?case
  proof (cases e)
    case None
    with applyOne_levels [OF one] lk have s1: "not_newer t s1" "pending t s1 = ps"
      using assms(1) by (auto simp: pending_def not_newer_def table_ok_def)
    with Cons.prems(2) c one None have "run_pending t (pending t s1) s1 = (ok, s')" by simp
    from Cons.hyps(1) [OF _ s1(1) this] s1(2) c show ?thesis by (metis append_Cons)
  next
    case (Some x)
    with Cons.prems c one have "s' = s1" "\<not> ok" by simp_all
    with applyOne_levels [OF one] Some Cons.prems(1) have "not_newer t s'" "pending t s' = pending t s"
      by (simp_all add: pending_def not_newer_def)
    with c \<open>\<not> ok\<close> show ?thesis by simp
  qed
qed

lemma patch_Apply_resumes:
  assumes "table_ok t" "level_of s \<le> pt_Level t" "patch_Apply t s = (err, s')"
  shows "(\<exists>made. pending t s = made @ pending t s') \<and> (err = None \<longleftrightarrow> pending t s' = []) \<and>
    (err = None \<longrightarrow> level_of s' = pt_Level t \<and> sublevel_of s' = pt_Sublevel t)"
proof (cases "level_of s = pt_Level t \<and> pt_Sublevel t < sublevel_of s")
  case True
  with assms have s': "err = None" "s' = s\<lparr>ps_sublevel := Some (pt_Sublevel t)\<rparr>" by (simp_all add: patch_Apply_def)
  then have l: "level_of s' = pt_Level t" "sublevel_of s' = pt_Sublevel t" using True by (simp_all add: level_of_def sublevel_of_def)
  with True pending_from_Level [OF assms(1)] have "pending t s = []" "pending t s' = []" by (simp_all add: pending_def)
  with l s'(1) show ?thesis by simp
next
  case False
  with patch_Apply_pending [OF assms(1,2)] assms(3) have r: "run_pending t (pending t s) s = (err = None, s')" by simp
  have "not_newer t s" using False assms(2) by (auto simp: not_newer_def)
  note ok = run_pending_ok [OF assms(1) this r]
  have "level_of s' = pt_Level t \<and> sublevel_of s' = pt_Sublevel t" if "err = None"
  proof -
    from ok that have "level_of s' \<le> pt_Level t" "pending_from t (level_of s') (sublevel_of s') = []"
      by (simp_all add: not_newer_def pending_def)
    from pending_from_levels [OF assms(1) this] ok show ?thesis by (simp add: not_newer_def)
  qed
  then show ?thesis using ok by auto
qed

lemma patch_Apply_done:
  assumes "table_ok t" "level_of s \<le> pt_Level t" "patch_Apply t s = (None, s')"
  shows "level_of s' = pt_Level t \<and> sublevel_of s' = pt_Sublevel t"
  using patch_Apply_resumes [OF assms] by simp



end
