(* ===== verification/Overlord.thy ===== *)
theory Overlord
  imports Engine Patch Access
begin

text \<open>
  How the daemon starts, keeps its engine running, restarts and reboots (\<open>internals/overlord/overlord.go\<close>, \<open>restart/restart.go\<close>,
  \<open>standby/standby.go\<close> and \<open>internals/daemon/daemon.go\<close>).  The keys that a reboot leaves in the state are a record; what the
  system does (clocks, the shutdown command, listeners) is given as arguments.
\<close>

subsection \<open>Restarts\<close>

text \<open>\<open>system-restart-from-boot-id\<close> (empty when absent), \<open>daemon-system-restart-at\<close> and \<open>daemon-system-restart-tentative\<close>.\<close>

record reboot_keys =
  rk_from :: string
  rk_at :: "time option"
  rk_tentative :: "int option"

definition ClearReboot :: "reboot_keys \<Rightarrow> reboot_keys" where
  "ClearReboot k = k\<lparr>rk_from := []\<rparr>"

definition clearReboot :: "reboot_keys \<Rightarrow> reboot_keys" where
  "clearReboot k = k\<lparr>rk_at := None, rk_tentative := None\<rparr>"

definition RebootAsExpected :: "reboot_keys \<Rightarrow> reboot_keys" where
  "RebootAsExpected k = clearReboot k"

definition rebootMaxTentatives :: int where "rebootMaxTentatives = 3"

text \<open>With whether the error \<open>errExpectedReboot\<close> is returned.\<close>

definition RebootDidNotHappen :: "reboot_keys \<Rightarrow> bool \<times> reboot_keys" where
  "RebootDidNotHappen k =
     (let nTentative = (case rk_tentative k of None \<Rightarrow> 0 | Some n \<Rightarrow> n) + 1 in
      if rebootMaxTentatives < nTentative then (False, clearReboot (ClearReboot k))
      else (True, k\<lparr>rk_tentative := Some nTentative\<rparr>))"

definition restart_init :: "string \<Rightarrow> string \<Rightarrow> reboot_keys \<Rightarrow> bool \<times> reboot_keys" where
  "restart_init fromBootID curBootID k =
     (if fromBootID = [] then (False, RebootAsExpected k)
      else if fromBootID = curBootID then RebootDidNotHappen k
      else (False, RebootAsExpected (ClearReboot k)))"

record restart_manager =
  rm_bootID :: string
  rm_restarting :: restart_type

definition restart_Manager :: "string \<Rightarrow> reboot_keys \<Rightarrow> restart_manager option \<times> reboot_keys" where
  "restart_Manager curBootID k =
     (case restart_init (rk_from k) curBootID k of
        (True, k) \<Rightarrow> (None, k)
      | (False, k) \<Rightarrow> (Some \<lparr>rm_bootID = curBootID, rm_restarting = RestartUnset\<rparr>, k))"

definition restart_Pending :: "restart_manager \<Rightarrow> bool \<times> restart_type" where
  "restart_Pending rm = (rm_restarting rm \<noteq> RestartUnset, rm_restarting rm)"

definition reboots :: "restart_type \<Rightarrow> bool" where
  "reboots t \<longleftrightarrow> t \<in> {RestartSystem, RestartSystemNow, RestartSystemHaltNow, RestartSystemPoweroffNow}"

subsection \<open>The daemon\<close>

datatype reboot_mode = SystemdMode | SyscallMode | ExternalMode

text \<open>The daemon, with the delays with which it has asked the system to reboot.\<close>

record daemon =
  d_overlord :: bool
  d_rebootIsMissing :: bool
  d_requestedRestart :: restart_type
  d_alive :: bool
  d_reboots :: "duration list"

definition rebootWaitTimeout :: duration where "rebootWaitTimeout = 600 * second"

definition HandleRestart :: "restart_type \<Rightarrow> daemon \<Rightarrow> daemon" where
  "HandleRestart t d =
     (if \<not> d_alive d then d
      else
        (let d =
           (if t \<in> {RestartDaemon, RestartSocket, RestartServiceFailure, RestartCheckFailure} then d\<lparr>d_requestedRestart := t\<rparr>
            else if t = RestartSystem then d\<lparr>d_reboots := d_reboots d @ [rebootWaitTimeout], d_requestedRestart := t\<rparr>
            else d)
         in d\<lparr>d_alive := False\<rparr>))"

definition restart_Request :: "restart_type \<Rightarrow> restart_manager \<times> reboot_keys \<times> daemon \<Rightarrow> restart_manager \<times> reboot_keys \<times> daemon" where
  "restart_Request t = (\<lambda>(rm, k, d).
     (rm\<lparr>rm_restarting := t\<rparr>, if reboots t then k\<lparr>rk_from := rm_bootID rm\<rparr> else k, HandleRestart t d))"

text \<open>The result of \<open>overlord.New\<close>: an overlord, the expected reboot that did not happen, or another error.\<close>

datatype new_overlord = OverlordCreated | ExpectedReboot | OverlordFailed err

definition daemon_New :: "new_overlord \<Rightarrow> err + daemon" where
  "daemon_New r =
     (let d = \<lparr>d_overlord = False, d_rebootIsMissing = False, d_requestedRestart = RestartUnset, d_alive = True, d_reboots = []\<rparr> in
      case r of
        ExpectedReboot \<Rightarrow> Inr (d\<lparr>d_rebootIsMissing := True\<rparr>)
      | OverlordFailed e \<Rightarrow> Inl e
      | OverlordCreated \<Rightarrow> Inr (d\<lparr>d_overlord := True\<rparr>))"

datatype init_outcome = InitOk | InitError err | InitPanics

text \<open>The addresses are given with whether they can be listened on.\<close>

definition daemon_Init :: "bool \<Rightarrow> bool option \<Rightarrow> bool option \<Rightarrow> daemon \<Rightarrow> init_outcome" where
  "daemon_Init socket http https d =
     (if \<not> socket then InitError (''when trying to listen on %s: %v'', [])
      else if http = Some False then InitError (''cannot listen on %q: %v'', [])
      else if https \<noteq> None \<and> \<not> d_overlord d then InitPanics
      else if https = Some False then InitError (''cannot TLS listen on %q: %v'', [])
      else InitOk)"

datatype start_outcome = StartWaits | StartPanics | StartError err | StartServes

definition daemon_Start :: "err option \<Rightarrow> daemon \<Rightarrow> start_outcome \<times> daemon" where
  "daemon_Start startup d =
     (if d_rebootIsMissing d then (StartWaits, d\<lparr>d_alive := False\<rparr>)
      else if \<not> d_overlord d then (StartPanics, d)
      else case startup of Some e \<Rightarrow> (StartError e, d) | None \<Rightarrow> (StartServes, d))"

text \<open>The delay until the reboot; the first call fixes its time.\<close>

definition rebootDelay :: "time \<Rightarrow> duration option \<Rightarrow> reboot_keys \<Rightarrow> duration \<times> reboot_keys" where
  "rebootDelay now override k =
     (case rk_at k of
        Some rebootAt \<Rightarrow> (rebootAt - now, k)
      | None \<Rightarrow>
          (let delay = (case override of None \<Rightarrow> 60 * second | Some d \<Rightarrow> d) in (delay, k\<lparr>rk_at := Some (now + delay)\<rparr>)))"

datatype stop_outcome = StopOk | StopError err | ErrRestartExternal | ErrRestartSocket | ErrRestartServiceFailure | ErrRestartCheckFailure

text \<open>What the system answers while the daemon stops.\<close>

record stop_env =
  sv_mode :: reboot_mode
  sv_now :: time
  sv_override :: "duration option"
  sv_reboot_error :: "err option"
  sv_signalled :: bool
  sv_can_standby :: bool
  sv_tomb_error :: "err option"

definition doReboot :: "stop_env \<Rightarrow> reboot_keys \<times> daemon \<Rightarrow> stop_outcome \<times> reboot_keys \<times> daemon" where
  "doReboot e = (\<lambda>(k, d).
     if sv_mode e = ExternalMode then (ErrRestartExternal, k, d)
     else case rebootDelay (sv_now e) (sv_override e) k of (delay, k) \<Rightarrow>
       (let d = d\<lparr>d_reboots := d_reboots d @ [delay]\<rparr> in
        case sv_reboot_error e of
          Some err \<Rightarrow> (StopError err, k, d)
        | None \<Rightarrow> (if sv_signalled e then StopOk else StopError (''expected reboot did not happen'', []), k, d)))"

definition daemon_Stop :: "stop_env \<Rightarrow> reboot_keys \<times> daemon \<Rightarrow> stop_outcome \<times> reboot_keys \<times> daemon" where
  "daemon_Stop e = (\<lambda>(k, d).
     if d_rebootIsMissing d then doReboot e (k, d)
     else if \<not> d_overlord d then (StopError (''internal error: no Overlord'', []), k, d)
     else
       (let d = d\<lparr>d_alive := False\<rparr>;
            d = (if d_requestedRestart d = RestartSocket \<and> \<not> sv_can_standby e then d\<lparr>d_requestedRestart := RestartDaemon\<rparr> else d)
        in if d_requestedRestart d = RestartSystem then doReboot e (k, d)
           else case sv_tomb_error e of
               Some err \<Rightarrow> (StopError err, k, d)
             | None \<Rightarrow>
                 (if d_requestedRestart d = RestartSocket then ErrRestartSocket
                  else if d_requestedRestart d = RestartServiceFailure then ErrRestartServiceFailure
                  else if d_requestedRestart d = RestartCheckFailure then ErrRestartCheckFailure
                  else StopOk, k, d)))"

definition systemd_minutes :: "duration \<Rightarrow> int" where
  "systemd_minutes delay = (if delay < 0 then 0 else delay) div (60 * second)"

text \<open>A daemon that was to have served HTTPS does not survive a reboot that did not happen.\<close>

lemma missing_reboot_panics:
  assumes "daemon_New ExpectedReboot = Inr d"
  shows "daemon_Init True None (Some ok) d = InitPanics"
  using assms by (auto simp: daemon_New_def daemon_Init_def)

subsection \<open>Reboots that do not happen\<close>

text \<open>
  One run of the daemon, on the boot \<open>b\<close>: whether it finds that an expected reboot did not happen, in which case it waits for the
  reboot again when it stops.
\<close>

definition daemon_run :: "stop_env \<Rightarrow> string \<Rightarrow> reboot_keys \<Rightarrow> bool \<times> reboot_keys" where
  "daemon_run e b k =
     (case restart_Manager b k of
        (Some rm, k) \<Rightarrow> (False, k)
      | (None, k) \<Rightarrow>
          (case daemon_New ExpectedReboot of
             Inl err \<Rightarrow> (True, k)
           | Inr d \<Rightarrow> (True, fst (snd (daemon_Stop e (k, d))))))"

fun daemon_runs :: "stop_env list \<Rightarrow> string \<Rightarrow> reboot_keys \<Rightarrow> bool list \<times> reboot_keys" where
  "daemon_runs [] b k = ([], k)"
| "daemon_runs (e # es) b k =
     (case daemon_run e b k of (missing, k) \<Rightarrow> case daemon_runs es b k of (ms, k) \<Rightarrow> (missing # ms, k))"

definition no_reboot :: reboot_keys where
  "no_reboot = \<lparr>rk_from = [], rk_at = None, rk_tentative = None\<rparr>"

lemma daemon_run_no_reboot [simp]: "daemon_run e b no_reboot = (False, no_reboot)"
  by (simp add: daemon_run_def restart_Manager_def restart_init_def RebootAsExpected_def clearReboot_def no_reboot_def)

lemma daemon_runs_no_reboot [simp]: "daemon_runs es b no_reboot = (replicate (length es) False, no_reboot)"
  by (induction es) simp_all

lemma daemon_run_other_boot:
  assumes "b \<noteq> rk_from k"
  shows "daemon_run e b k = (False, no_reboot)"
  using assms
  by (cases k) (simp add: daemon_run_def restart_Manager_def restart_init_def RebootAsExpected_def clearReboot_def ClearReboot_def
      no_reboot_def)

definition waiting_since :: "string \<Rightarrow> time \<Rightarrow> int \<Rightarrow> reboot_keys \<Rightarrow> bool" where
  "waiting_since b t n k \<longleftrightarrow> rk_from k = b \<and> rk_at k = Some t \<and> (case rk_tentative k of None \<Rightarrow> 0 | Some n \<Rightarrow> n) = n"

lemma daemon_run_waiting:
  assumes "b \<noteq> []" "waiting_since b t n k" "n < rebootMaxTentatives"
  shows "\<exists>k'. daemon_run e b k = (True, k') \<and> waiting_since b t (n + 1) k'"
  using assms
  by (auto simp: daemon_run_def restart_Manager_def restart_init_def RebootDidNotHappen_def waiting_since_def daemon_New_def
      daemon_Stop_def doReboot_def rebootDelay_def Let_def split: option.split)

lemma daemon_run_gives_up:
  assumes "b \<noteq> []" "waiting_since b t rebootMaxTentatives k"
  shows "daemon_run e b k = (False, no_reboot)"
  using assms
  by (cases k) (auto simp: daemon_run_def restart_Manager_def restart_init_def RebootDidNotHappen_def waiting_since_def clearReboot_def
      ClearReboot_def no_reboot_def Let_def)

lemma daemon_runs_waiting:
  assumes "b \<noteq> []" "waiting_since b t n k" "0 \<le> n" "n \<le> rebootMaxTentatives"
  shows "\<exists>k'. daemon_runs es b k = (map (\<lambda>i. n + int i < rebootMaxTentatives) [0..<length es], k') \<and>
    (if n + int (length es) \<le> rebootMaxTentatives then waiting_since b t (n + int (length es)) k' else k' = no_reboot)"
  using assms(2-4)
proof (induction es arbitrary: k n)
  case (Cons e es)
  have shift: "map (\<lambda>i. n + int i < rebootMaxTentatives) [0..<length (e # es)] =
      (n < rebootMaxTentatives) # map (\<lambda>i. n + 1 + int i < rebootMaxTentatives) [0..<length es]"
    by (simp add: map_upt_Suc del: upt_Suc) (simp add: algebra_simps)
  show ?case
  proof (cases "n < rebootMaxTentatives")
    case True
    from daemon_run_waiting [OF assms(1) Cons.prems(1) True, of e] obtain k1 where
      k1: "daemon_run e b k = (True, k1)" "waiting_since b t (n + 1) k1" by blast
    have len: "n + 1 + int (length es) = n + int (length (e # es))" by simp
    from Cons.IH [OF k1(2)] Cons.prems(2) True obtain k' where
      "daemon_runs es b k1 = (map (\<lambda>i. n + 1 + int i < rebootMaxTentatives) [0..<length es], k')"
      "if n + int (length (e # es)) \<le> rebootMaxTentatives then waiting_since b t (n + int (length (e # es))) k' else k' = no_reboot"
      unfolding len by auto
    with k1 True shift show ?thesis by (intro exI [of _ k'] conjI) (simp_all del: upt_Suc)
  next
    case False
    with Cons.prems have "n = rebootMaxTentatives" by simp
    with daemon_run_gives_up [OF assms(1)] Cons.prems(1) have "daemon_run e b k = (False, no_reboot)" by simp
    moreover have "map (\<lambda>i. n + 1 + int i < rebootMaxTentatives) [0..<length es] = replicate (length es) False"
      using False by (intro replicate_eqI) auto
    ultimately show ?thesis using False shift by simp
  qed
qed simp


definition quiet_stop :: stop_env where
  "quiet_stop = \<lparr>sv_mode = SystemdMode, sv_now = 5, sv_override = None, sv_reboot_error = None, sv_signalled = True, sv_can_standby = True,
     sv_tomb_error = None\<rparr>"

definition requested_reboot :: "restart_manager \<times> reboot_keys \<times> daemon" where
  "requested_reboot = restart_Request RestartSystem
     (\<lparr>rm_bootID = ''boot'', rm_restarting = RestartUnset\<rparr>, no_reboot,
      \<lparr>d_overlord = True, d_rebootIsMissing = False, d_requestedRestart = RestartUnset, d_alive = True, d_reboots = []\<rparr>)"


subsection \<open>The timer of the ensure loop\<close>

text \<open>
  The channel timer of the loop, by the clock it runs on: not made yet, set to a time, expired with its tick not received, or with its
  tick received.  \<open>ensureNext\<close> was computed from \<open>time.Now\<close>, and two such times are compared by the monotonic clock they both hold,
  which is the clock of the timer.
\<close>

datatype loop_timer = NoTimer | Armed time | Expired | Received

record ensure_loop =
  el_timer :: loop_timer
  el_next :: time
  el_now :: time

definition ensureInterval :: duration where "ensureInterval = 300 * second"

definition arm :: "duration \<Rightarrow> ensure_loop \<Rightarrow> ensure_loop" where
  "arm d l = l\<lparr>el_timer := (if d \<le> 0 then Expired else Armed (el_now l + d))\<rparr>"

definition ensureTimerSetup :: "ensure_loop \<Rightarrow> ensure_loop" where
  "ensureTimerSetup l = (arm ensureInterval l)\<lparr>el_next := el_now l + ensureInterval\<rparr>"

definition ensureTimerReset :: "ensure_loop \<Rightarrow> ensure_loop" where
  "ensureTimerReset l = (arm ensureInterval l)\<lparr>el_next := el_now l + ensureInterval\<rparr>"

text \<open>\<open>Timer.Stop\<close> reports whether it stopped a tick that had not been received.\<close>

definition ensureBefore :: "duration \<Rightarrow> ensure_loop \<Rightarrow> ensure_loop" where
  "ensureBefore d l =
     (if el_timer l = NoTimer then l
      else
        (let next = el_now l + d in
         if next < el_next l then (arm d l)\<lparr>el_next := next\<rparr>
         else if el_next l < el_now l then (if el_timer l = Received then l else (arm 0 l)\<lparr>el_next := el_now l\<rparr>)
         else l))"

text \<open>Time passes, and the loop receives the tick.\<close>

definition pass_time :: "duration \<Rightarrow> ensure_loop \<Rightarrow> ensure_loop" where
  "pass_time d l =
     l\<lparr>el_now := el_now l + d,
       el_timer := (case el_timer l of Armed t \<Rightarrow> if t \<le> el_now l + d then Expired else Armed t | x \<Rightarrow> x)\<rparr>"

definition receive_tick :: "ensure_loop \<Rightarrow> ensure_loop" where
  "receive_tick l = l\<lparr>el_timer := Received\<rparr>"

inductive loop_reach :: "ensure_loop \<Rightarrow> bool" where
  loop_created: "loop_reach \<lparr>el_timer = NoTimer, el_next = 0, el_now = now\<rparr>"
| loop_setup: "loop_reach l \<Longrightarrow> el_timer l = NoTimer \<Longrightarrow> loop_reach (ensureTimerSetup l)"
| loop_round: "loop_reach l \<Longrightarrow> el_timer l \<noteq> NoTimer \<Longrightarrow> loop_reach (ensureTimerReset l)"
| loop_requested: "loop_reach l \<Longrightarrow> 0 \<le> d \<Longrightarrow> loop_reach (ensureBefore d l)"
| loop_time: "loop_reach l \<Longrightarrow> 0 \<le> d \<Longrightarrow> loop_reach (pass_time d l)"
| loop_tick: "loop_reach l \<Longrightarrow> el_timer l = Expired \<Longrightarrow> loop_reach (receive_tick l)"

definition loop_ok :: "ensure_loop \<Rightarrow> bool" where
  "loop_ok l \<longleftrightarrow>
     (case el_timer l of
        NoTimer \<Rightarrow> True
      | Armed t \<Rightarrow> t = el_next l \<and> el_now l < t
      | _ \<Rightarrow> el_next l \<le> el_now l)"

lemma loop_reach_ok: "loop_reach l \<Longrightarrow> loop_ok l"
proof (induction rule: loop_reach.induct)
  case (loop_requested l d)
  then show ?case by (auto simp: loop_ok_def ensureBefore_def arm_def Let_def split: loop_timer.splits if_splits)
next
  case (loop_time l d)
  then show ?case by (auto simp: loop_ok_def pass_time_def split: loop_timer.splits if_splits)
qed (auto simp: loop_ok_def ensureTimerSetup_def ensureTimerReset_def arm_def ensureInterval_def second_def receive_tick_def)

text \<open>
  Setting the timer to now because its time is over, as the code means to do when the system was asleep, never helps: the timer has then
  expired by the same clock.
\<close>

lemma wake_up_never_early:
  assumes "loop_reach l" "el_next l < el_now l"
  shows "el_timer l \<noteq> Armed t"
  using loop_reach_ok [OF assms(1)] assms(2) by (auto simp: loop_ok_def)



subsection \<open>The managers of the overlord\<close>

datatype manager_name =
    RestartMgr | PlanMgr | TLSMgr | IdentitiesMgr | PairingMgr | ServiceMgr | LogMgr | CommandMgr | BuildTestMgr | CheckMgr
  | ExtraMgr nat | Runner

text \<open>The managers in the order in which \<open>New\<close> adds them, with those of an extension.\<close>

definition overlord_managers :: "nat \<Rightarrow> manager_name list" where
  "overlord_managers extra =
     [RestartMgr, PlanMgr, TLSMgr, IdentitiesMgr, PairingMgr, ServiceMgr, LogMgr, CommandMgr, BuildTestMgr, CheckMgr] @
     map ExtraMgr [0..<extra] @ [Runner]"

definition overlord_engine :: "(manager_name \<Rightarrow> 'w manager) \<Rightarrow> nat \<Rightarrow> 'w engine" where
  "overlord_engine mk extra = fold AddManager (map mk (overlord_managers extra)) NewStateEngine"

text \<open>
  The engine stops the managers in reverse order: the task runner first, and the log manager before the service manager, whose stop it
  is meant to follow.
\<close>

lemma overlord_stop_order:
  assumes "\<And>n. mg_Stop (mk n) = Some (\<lambda>w. w @ [n])"
  shows "\<exists>a b. snd (engine_Stop (overlord_engine mk extra) []) = Runner # a @ LogMgr # ServiceMgr # b"
proof -
  have "fold (\<lambda>f. f) (present (map mg_Stop (map mk ns))) w = w @ ns" for ns w
    using assms by (simp add: fold_trace comp_def)
  from this [of "rev (overlord_managers extra)" "[]"] have "snd (engine_Stop (overlord_engine mk extra) []) = rev (overlord_managers extra)"
    by (simp add: engine_Stop_def overlord_engine_def AddManagers NewStateEngine_def rev_map del: map_map)
  then show ?thesis
    by (intro exI [of _ "rev (map ExtraMgr [0..<extra]) @ [CheckMgr, BuildTestMgr, CommandMgr]"]
        exI [of _ "[PairingMgr, IdentitiesMgr, TLSMgr, PlanMgr, RestartMgr]"]) (simp add: overlord_managers_def)
qed

text \<open>The boot is known by the kernel's boot id, or by a random one for a process that is the first of its container.\<close>

definition getCurrentBootID :: "err + string \<Rightarrow> int \<Rightarrow> err + string \<Rightarrow> err + string" where
  "getCurrentBootID bootID pid random_uuid =
     (case bootID of
        Inl e \<Rightarrow> Inl (''fatal: cannot find current boot ID: %v'', fst e # snd e)
      | Inr b \<Rightarrow>
          if pid \<noteq> 1 then Inr b
          else (case random_uuid of
              Inl e \<Rightarrow> Inl (''fatal: cannot generate psuedo boot-id: %v'', fst e # snd e)
            | Inr u \<Rightarrow> Inr u))"

text \<open>A new state is given the levels of the program, a saved one is patched; the restart manager comes first.\<close>

datatype 's loaded = NoDir | Unreadable err | RebootMissing reboot_keys | PatchFailed err "'s patched" | Loaded restart_manager reboot_keys "'s patched"
  | LevelsPresent

definition loadState :: "'s patch_table \<Rightarrow> string \<Rightarrow> bool \<Rightarrow> (err + reboot_keys \<times> 's patched) option \<Rightarrow> 's \<Rightarrow> 's loaded" where
  "loadState t bootID dir saved fresh =
     (case saved of
        None \<Rightarrow>
          if \<not> dir then NoDir
          else (case restart_Manager bootID no_reboot of
              (None, k) \<Rightarrow> RebootMissing k
            | (Some rm, k) \<Rightarrow>
                (case patch_Init t \<lparr>ps_level = None, ps_sublevel = None, ps_rest = fresh\<rparr> of
                   None \<Rightarrow> LevelsPresent
                 | Some s \<Rightarrow> Loaded rm k s))
      | Some (Inl e) \<Rightarrow> Unreadable e
      | Some (Inr (k, s)) \<Rightarrow>
          (case restart_Manager bootID k of
             (None, k) \<Rightarrow> RebootMissing k
           | (Some rm, k) \<Rightarrow>
               (case patch_Apply t s of
                  (Some e, s) \<Rightarrow> PatchFailed e s
                | (None, s) \<Rightarrow> Loaded rm k s)))"

text \<open>A daemon that loads its state has the patches of the program and expects no reboot, unless it waits for one.\<close>

lemma loadState_ok:
  assumes "table_ok t" "loadState t bootID dir saved fresh = Loaded rm k s"
    "\<And>k s. saved = Some (Inr (k, s)) \<Longrightarrow> level_of s \<le> pt_Level t"
  shows "k = no_reboot \<and> rm_bootID rm = bootID \<and> level_of s = pt_Level t \<and> sublevel_of s = pt_Sublevel t"
proof -
  have rm: "k' = no_reboot \<and> rm_bootID rm' = bootID" if "restart_Manager bootID k0 = (Some rm', k')" for rm' k0 k'
    using that by (cases k0) (auto simp: restart_Manager_def restart_init_def RebootDidNotHappen_def RebootAsExpected_def
        clearReboot_def ClearReboot_def no_reboot_def Let_def split: if_splits bool.splits prod.splits)
  show ?thesis
  proof (cases saved)
    case None
    with assms(2) rm show ?thesis
      by (auto simp: loadState_def patch_Init_def level_of_def sublevel_of_def split: if_splits option.splits prod.splits)
  next
    case (Some r)
    with assms(2) obtain k0 s0 where r: "saved = Some (Inr (k0, s0))" by (auto simp: loadState_def split: sum.splits)
    with assms(2) have "restart_Manager bootID k0 = (Some rm, k)" "patch_Apply t s0 = (None, s)"
      by (auto simp: loadState_def split: option.splits prod.splits)
    with rm patch_Apply_done [OF assms(1) assms(3) [OF r]] show ?thesis by blast
  qed
qed

definition StartOfOperationTime :: "time \<Rightarrow> time option \<Rightarrow> time \<times> time option" where
  "StartOfOperationTime now saved = (case saved of Some t \<Rightarrow> (t, saved) | None \<Rightarrow> (now, Some now))"

subsection \<open>Standby\<close>

definition standbyWait :: duration where "standbyWait = 5 * second"
definition maxWait :: duration where "maxWait = 300 * second"

text \<open>The changes are given by whether they are ready and clean.\<close>

definition CanStandby :: "time \<Rightarrow> time \<Rightarrow> (bool \<times> bool) list \<Rightarrow> bool list \<Rightarrow> bool" where
  "CanStandby startTime now chgs opinions \<longleftrightarrow>
     \<not> now < startTime + standbyWait \<and> list_all (\<lambda>(ready, clean). ready \<and> clean) chgs \<and> list_all id opinions"

definition next_wait :: "duration \<Rightarrow> duration" where
  "next_wait w = (if w < maxWait then w * 2 else w)"

lemma next_wait_bounds: "standbyWait \<le> (next_wait ^^ n) standbyWait \<and> (next_wait ^^ n) standbyWait < 2 * maxWait"
  by (induction n) (auto simp: next_wait_def standbyWait_def maxWait_def second_def)

end
