(* ===== verification/Spec2Isabelle.thy ===== *)
theory Spec2Isabelle
  imports TaskRunner TaskDeps StatePrune PlanState ServiceManager LogParse CheckManager BuildTest ScheduleParse ApiIdentities LogManager Overlord
begin

text \<open>
  A verification development of the daemon in this repository (a Pebble derived service and build
  manager, written in Go under \<open>src/\<close>).

  \<^bold>\<open>The program.\<close>  The daemon keeps a state of changes, tasks and notices
  (\<open>internals/overlord/state\<close>); a task runner starts the handlers of tasks whose dependencies are
  met, undoes the tasks of aborted lanes and prunes what is old.  A plan (\<open>internals/plan\<close>) is
  combined from layers and says which services and checks there are and in which order services
  start and stop; the managers turn plan and requests into changes.

  \<^bold>\<open>The theories.\<close>
    \<^item> \<open>Prelude\<close>: time, messages, outcomes (\<open>'e + 'a\<close>), loops that may fail, \<open>itoa\<close>.
    \<^item> \<open>Status\<close>, \<open>StateCore\<close>: statuses, the records of \<open>task.go\<close>, \<open>change.go\<close>, \<open>notices.go\<close> and
      \<open>state.go\<close>, and the creation of their entries.
    \<^item> \<open>ChangeStatus\<close>: \<open>Change.Status\<close> with the walk that decides whether a change is waiting.
    \<^item> \<open>TaskOps\<close>: \<open>SetStatus\<close> and what it brings about in the change; the well-formedness of a state.
    \<^item> \<open>Abort\<close>: \<open>Abort\<close>, \<open>AbortLanes\<close>, \<open>AbortUnreadyLanes\<close>, \<open>Err\<close>.
    \<^item> \<open>TaskDeps\<close>: \<open>CheckTaskDependencies\<close>.
    \<^item> \<open>TaskRunner\<close>: \<open>taskrunner.go\<close>; the start and the end of a handler are separate steps.
    \<^item> \<open>Notices\<close>, \<open>StatePrune\<close>: notices, \<open>Prune\<close>, saving and loading, task sets.
    \<^item> \<open>PlanTypes\<close>, \<open>PlanLayers\<close>: the objects of a plan, merging, \<open>CombineLayers\<close>.
    \<^item> \<open>TarjanSort\<close>, \<open>StartOrder\<close>: \<open>tarjan.go\<close>, \<open>order\<close>, lanes, \<open>StartOrder\<close>, \<open>StopOrder\<close>.
    \<^item> \<open>PlanValidate\<close>: \<open>ParseCommand\<close>, \<open>Layer.Validate\<close>, \<open>Plan.Validate\<close>, service contexts.
    \<^item> \<open>PlanFiles\<close>, \<open>PlanState\<close>: the layers of a directory, and the plan manager with its listeners.
    \<^item> \<open>ServiceCommand\<close>: workloads, and the command, environment and credentials of a service.
    \<^item> \<open>ServiceFsm\<close>, \<open>ServiceLife\<close>: \<open>serviceData\<close> of \<open>servstate/handlers.go\<close> as a step relation over starts,
      stops, timers, exits and failed checks; its invariant, the abstract life of a service it
      refines, and the answers that tasks wait for.
    \<^item> \<open>ServiceTasks\<close>, \<open>ServiceManager\<close>: the tasks of a request in their lanes; \<open>servstate/manager.go\<close>.
    \<^item> \<open>CheckManager\<close>: \<open>internals/overlord/checkstate\<close>, the health checks: the tasks that perform a check until its
      threshold is met and then watch for its recovery, with the counter they implement.
    \<^item> \<open>Strings\<close>: splitting and joining, and lexical paths, as the packages of Go have them.
    \<^item> \<open>Tarball\<close>, \<open>BuildTest\<close>: \<open>internals/overlord/buildteststate\<close>, the builds: the extraction of an archive on
      a file system with symbolic links, the request, the handlers of its two tasks, and the connections of clients.
    \<^item> \<open>RingBuffer\<close>, \<open>LogIterator\<close>, \<open>LogFormat\<close>, \<open>LogParse\<close>: \<open>internals/servicelog\<close>, the output of services:
      the ring buffer that keeps its end, the readers that follow it, the writer that puts time and
      name before each line (for any writer that meets the contract \<open>io_writer\<close>), and the parser.

    \<^item> \<open>Calendar\<close>, \<open>Schedule\<close>, \<open>ScheduleParse\<close>: \<open>internals/timeutil/schedule.go\<close>: days and months in UTC, the next
      window and event of a schedule, and the text of schedules.
    \<^item> \<open>Identities\<close>, \<open>Pairing\<close>: \<open>internals/overlord/identities\<close> and \<open>pairingstate\<close>, who clients are, and the window
      in which a new client may pair.
    \<^item> \<open>Access\<close>, \<open>ApiIdentities\<close>: the decision on a request in \<open>internals/daemon\<close>, from the connection to the handler
      (for any identities that meet the contract \<open>authenticator\<close>), and the requests on identities.
    \<^item> \<open>LogWindow\<close>, \<open>LogClients\<close>, \<open>LogForward\<close>, \<open>LogManager\<close>: \<open>internals/overlord/logstate\<close>, the forwarding of logs: the
      sliding buffer of the clients and the queue it implements, the requests of the three clients, the loop of a gatherer
      (for any client that meets the contract \<open>log_client\<close>), and the manager that follows the plan.
    \<^item> \<open>Engine\<close>, \<open>Patch\<close>, \<open>Overlord\<close>: \<open>internals/overlord\<close> with \<open>patch\<close>, \<open>restart\<close> and \<open>standby\<close>, and the life of the
      daemon: the engine that runs the managers, the patches of the saved state, reboots, and the timer of the loop.

  \<^bold>\<open>How the code is represented.\<close>  A Go pointer to a task or change is its id in the state, a nil
  dereference and a panic are values of \<open>fault\<close>, an \<open>error\<close> is a value of an error type.  The order
  in which Go ranges over a map is an argument wherever it can be observed, and the theorems hold
  for every order.  Times are integers (nanoseconds), with 0 for Go's zero time.

  \<^bold>\<open>Fuel.\<close>  The walk of \<open>isTaskWaiting\<close> gets fuel for the tasks that are not yet computing; the walk
  never runs out of it (\<open>change_Status_total\<close>).  \<open>strongConnect\<close> gets fuel for the ids of the graph
  (\<open>strong_connect_ok\<close>).  The loops over an \<open>io.Writer\<close> or an \<open>io.Reader\<close>, which need not end for every
  writer or reader, are partial functions: \<open>None\<close> is not returning, and \<open>format_loop_ok\<close> and
  \<open>ReadAll_rest\<close> show that they return.  All other recursions have termination proofs.

  \<^bold>\<open>Not modelled.\<close>  Locks and goroutine scheduling (an operation that holds the state lock is one
  step), JSON and YAML text, the file system, sections of plan extensions, the HTTP daemon, the
  client and the command line, which are input and output around the modelled parts.
\<close>

end
